(* ===== verification/Prelude.thy ===== *)
theory Prelude
  imports Main "HOL-Library.Word" "HOL-Library.Sublist"
begin

text \<open>
  Shared vocabulary of the development: Rust's machine integers and byte strings, the outcome of a
  contract call, the checked arithmetic of the standard library, big-endian byte strings, and the
  generic lemmas that the component theories rest on.

  Amounts and field elements keep their width (\<open>256 word\<close>, \<open>128 word\<close>, \<open>8 word\<close>); counters, levels
  and positions (Rust's \<open>u32\<close>, \<open>u64\<close> and \<open>usize\<close>) are natural numbers whose overflow checks are
  written out with the width they have in the code.
\<close>

section \<open>Collections of rules\<close>

named_theorems outcome_simps \<open>equations and inversions of the outcome combinators\<close>
named_theorems checked_simps \<open>what the checked operations of Rust return\<close>

section \<open>Types\<close>

type_synonym u8 = "8 word"
type_synonym u128 = "128 word"
type_synonym i128 = "128 word"
type_synonym u256 = "256 word"
type_synonym i256 = "256 word"
type_synonym bytes = "u8 list"
type_synonym address = string

text \<open>
  A contract call ends in a value, in an error code returned by the contract (\<open>Err e\<close>), or in a
  trap of the host: a panic, a failed \<open>require_auth\<close>, an arithmetic trap of \<open>U256\<close>/\<open>I256\<close> or an
  exhausted budget. In the last two cases Soroban discards every effect of the call, which is why a
  failed outcome carries no state.
\<close>

datatype 'e fault = Err 'e | Trap

type_synonym ('e, 'a) outcome = "'e fault + 'a"

section \<open>Outcomes\<close>

text \<open>The operator \<open>?\<close> of Rust: stop at the first failure, otherwise go on with the value.\<close>

definition let_ok :: "'e + 'a \<Rightarrow> ('a \<Rightarrow> 'e + 'b) \<Rightarrow> 'e + 'b" where
  "let_ok m f = (case m of Inl e \<Rightarrow> Inl e | Inr x \<Rightarrow> f x)"

text \<open>\<open>Option::ok_or\<close>.\<close>

definition ok_or :: "'a option \<Rightarrow> 'e \<Rightarrow> 'e + 'a" where
  "ok_or m e = (case m of None \<Rightarrow> Inl e | Some x \<Rightarrow> Inr x)"

text \<open>\<open>Result::map_err\<close>.\<close>

definition map_err :: "('e \<Rightarrow> 'f) \<Rightarrow> 'e + 'a \<Rightarrow> 'f + 'a" where
  "map_err g m = (case m of Inl e \<Rightarrow> Inl (g e) | Inr x \<Rightarrow> Inr x)"

text \<open>\<open>Result::unwrap\<close>, \<open>Option::expect\<close> and the arithmetic of the host: a failure is a trap.\<close>

definition or_trap :: "'a option \<Rightarrow> ('e, 'a) outcome" where
  "or_trap m = ok_or m Trap"

definition require :: "bool \<Rightarrow> 'e \<Rightarrow> 'e + unit" where
  "require b e = (if b then Inr () else Inl e)"

text \<open>The errors of a called module, converted as the operator \<open>?\<close> converts them.\<close>

fun map_fault :: "('e \<Rightarrow> 'f) \<Rightarrow> 'e fault \<Rightarrow> 'f fault" where
  "map_fault g (Err e) = Err (g e)"
| "map_fault g Trap = Trap"

definition is_ok :: "'e + 'a \<Rightarrow> bool" where
  "is_ok m = (case m of Inl _ \<Rightarrow> False | Inr _ \<Rightarrow> True)"

lemma let_ok_simps [simp, outcome_simps]:
  "let_ok (Inl e) f = Inl e"
  "let_ok (Inr x) f = f x"
  by (simp_all add: let_ok_def)

lemma let_ok_cong [fundef_cong]:
  "m = m' \<Longrightarrow> (\<And>x. m' = Inr x \<Longrightarrow> f x = g x) \<Longrightarrow> let_ok m f = let_ok m' g"
  by (simp add: let_ok_def split: sum.splits)

lemma let_ok_Inr_iff [outcome_simps]:
  "let_ok m f = Inr y \<longleftrightarrow> (\<exists>x. m = Inr x \<and> f x = Inr y)"
  by (simp add: let_ok_def split: sum.splits)

lemma let_ok_Inl_iff [outcome_simps]:
  "let_ok m f = Inl e \<longleftrightarrow> m = Inl e \<or> (\<exists>x. m = Inr x \<and> f x = Inl e)"
  by (auto simp: let_ok_def split: sum.splits)

lemma ok_or_simps [simp, outcome_simps]:
  "ok_or None e = Inl e"
  "ok_or (Some x) e = Inr x"
  by (simp_all add: ok_or_def)

lemma ok_or_Inr_iff [outcome_simps]: "ok_or m e = Inr x \<longleftrightarrow> m = Some x"
  by (cases m) auto

lemma ok_or_Inl_iff [outcome_simps]: "ok_or m e = Inl f \<longleftrightarrow> m = None \<and> f = e"
  by (cases m) auto

lemma map_err_simps [simp, outcome_simps]:
  "map_err g (Inl e) = Inl (g e)"
  "map_err g (Inr x) = Inr x"
  by (simp_all add: map_err_def)

lemma map_err_Inr_iff [outcome_simps]: "map_err g m = Inr x \<longleftrightarrow> m = Inr x"
  by (cases m) auto

lemma map_err_Inl_iff [outcome_simps]: "map_err g m = Inl f \<longleftrightarrow> (\<exists>e. m = Inl e \<and> f = g e)"
  by (cases m) auto

lemma or_trap_simps [simp, outcome_simps]:
  "or_trap None = Inl Trap"
  "or_trap (Some x) = Inr x"
  by (simp_all add: or_trap_def)

lemma or_trap_Inr_iff [outcome_simps]: "or_trap m = Inr x \<longleftrightarrow> m = Some x"
  by (cases m) auto

lemma require_simps [simp, outcome_simps]:
  "require True e = Inr ()"
  "require False e = Inl e"
  by (simp_all add: require_def)

lemma require_Inr_iff [outcome_simps]: "require b e = Inr u \<longleftrightarrow> b"
  by (cases b) auto

lemma require_Inl_iff [outcome_simps]: "require b e = Inl f \<longleftrightarrow> \<not> b \<and> f = e"
  by (cases b) auto

lemma is_ok_iff: "is_ok m \<longleftrightarrow> (\<exists>x. m = Inr x)"
  by (cases m) (auto simp: is_ok_def)

section \<open>Checked arithmetic\<close>

text \<open>Counters and positions: \<open>w\<close> is the width of the Rust type.\<close>

definition nat_checked_add :: "nat \<Rightarrow> nat \<Rightarrow> nat \<Rightarrow> nat option" where
  "nat_checked_add w a b = (if a + b < 2 ^ w then Some (a + b) else None)"

definition nat_checked_sub :: "nat \<Rightarrow> nat \<Rightarrow> nat option" where
  "nat_checked_sub a b = (if b \<le> a then Some (a - b) else None)"

text \<open>\<open>u64::checked_shl\<close>: a shift by the width or more is \<open>None\<close>; bits shifted out are lost.\<close>

definition u64_checked_shl :: "nat \<Rightarrow> nat \<Rightarrow> nat option" where
  "u64_checked_shl a n = (if n < 64 then Some (a * 2 ^ n mod 2 ^ 64) else None)"

text \<open>Amounts: \<open>checked_add\<close> and \<open>checked_sub\<close> of an unsigned integer type of any width.\<close>

definition checked_add :: "'a::len word \<Rightarrow> 'a word \<Rightarrow> 'a word option" where
  "checked_add a b = (if unat a + unat b < 2 ^ LENGTH('a) then Some (a + b) else None)"

definition checked_sub :: "'a::len word \<Rightarrow> 'a word \<Rightarrow> 'a word option" where
  "checked_sub a b = (if b \<le> a then Some (a - b) else None)"

text \<open>The same for two's-complement integers; the value is read by \<open>sint\<close>.\<close>

definition in_signed_range :: "nat \<Rightarrow> int \<Rightarrow> bool" where
  "in_signed_range w v \<longleftrightarrow> - (2 ^ (w - 1)) \<le> v \<and> v < 2 ^ (w - 1)"

definition signed_of_int :: "int \<Rightarrow> 'a::len word option" where
  "signed_of_int v = (if in_signed_range LENGTH('a) v then Some (word_of_int v) else None)"

definition signed_checked_add :: "'a::len word \<Rightarrow> 'a word \<Rightarrow> 'a word option" where
  "signed_checked_add a b = signed_of_int (sint a + sint b)"

definition signed_checked_sub :: "'a::len word \<Rightarrow> 'a word \<Rightarrow> 'a word option" where
  "signed_checked_sub a b = signed_of_int (sint a - sint b)"

definition signed_checked_neg :: "'a::len word \<Rightarrow> 'a word option" where
  "signed_checked_neg a = signed_of_int (- sint a)"

lemma nat_checked_add_Some_iff [checked_simps]:
  "nat_checked_add w a b = Some c \<longleftrightarrow> c = a + b \<and> a + b < 2 ^ w"
  by (auto simp: nat_checked_add_def)

lemma nat_checked_sub_Some_iff [checked_simps]:
  "nat_checked_sub a b = Some c \<longleftrightarrow> b \<le> a \<and> c = a - b"
  by (auto simp: nat_checked_sub_def)

lemma unat_add_exact:
  fixes a b :: "'a::len word"
  assumes "unat a + unat b < 2 ^ LENGTH('a)"
  shows "unat (a + b) = unat a + unat b"
  using assms by (simp add: unat_word_ariths)

lemma unat_sub_exact:
  fixes a b :: "'a::len word"
  assumes "b \<le> a"
  shows "unat (a - b) = unat a - unat b"
  using assms by (simp add: unat_sub)

lemma checked_add_Some_iff [checked_simps]:
  fixes a b c :: "'a::len word"
  shows "checked_add a b = Some c \<longleftrightarrow> unat c = unat a + unat b"
proof
  assume "checked_add a b = Some c"
  then show "unat c = unat a + unat b"
    by (auto simp: checked_add_def unat_add_exact split: if_splits)
next
  assume c: "unat c = unat a + unat b"
  moreover have "unat c < 2 ^ LENGTH('a)" by simp
  ultimately have "unat a + unat b < 2 ^ LENGTH('a)" by simp
  moreover from this c have "a + b = c"
    by (simp add: unat_add_exact word_unat_eq_iff)
  ultimately show "checked_add a b = Some c"
    by (simp add: checked_add_def)
qed

lemma checked_add_None_iff [checked_simps]:
  fixes a b :: "'a::len word"
  shows "checked_add a b = None \<longleftrightarrow> 2 ^ LENGTH('a) \<le> unat a + unat b"
  by (auto simp: checked_add_def)

lemma checked_sub_Some_iff [checked_simps]:
  fixes a b c :: "'a::len word"
  shows "checked_sub a b = Some c \<longleftrightarrow> unat a = unat b + unat c"
proof
  assume "checked_sub a b = Some c"
  then show "unat a = unat b + unat c"
    by (auto simp: checked_sub_def unat_sub_exact word_le_nat_alt split: if_splits)
next
  assume a: "unat a = unat b + unat c"
  then have le: "b \<le> a" by (simp add: word_le_nat_alt)
  with a have "unat (a - b) = unat c" by (simp add: unat_sub_exact)
  with le show "checked_sub a b = Some c"
    by (simp add: checked_sub_def word_unat_eq_iff)
qed

lemma checked_sub_None_iff [checked_simps]:
  fixes a b :: "'a::len word"
  shows "checked_sub a b = None \<longleftrightarrow> unat a < unat b"
  by (auto simp: checked_sub_def word_le_nat_alt)

lemma signed_of_int_Some_iff [checked_simps]:
  fixes c :: "'a::len word"
  shows "signed_of_int v = Some c \<longleftrightarrow> sint c = v"
proof
  assume "signed_of_int v = Some c"
  then have c: "c = word_of_int v" and r: "in_signed_range LENGTH('a) v"
    by (auto simp: signed_of_int_def split: if_splits)
  have "signed_take_bit (LENGTH('a) - Suc 0) v = v"
    using r by (intro signed_take_bit_int_eq_self) (simp_all add: in_signed_range_def)
  with c show "sint c = v" by (simp add: signed_of_int signed_take_bit_eq_take_bit_minus
      sint_sbintrunc')
next
  assume v: "sint c = v"
  have "- (2 ^ (LENGTH('a) - 1)) \<le> sint c \<and> sint c < 2 ^ (LENGTH('a) - 1)"
    using sint_greater_eq [of c] sint_less [of c] by simp
  with v show "signed_of_int v = Some c"
    by (auto simp: signed_of_int_def in_signed_range_def)
qed

lemma uint_sint_mod: "uint (c::'a::len word) = sint c mod 2 ^ LENGTH('a)"
  by (metis uint_sint take_bit_eq_mod)

lemma uint_nonneg_sint:
  fixes c :: "'a::len word"
  assumes "0 \<le> sint c" shows "uint c = sint c"
proof -
  have "sint c < 2 ^ (LENGTH('a) - 1)" using sint_less [of c] by simp
  also have "(2::int) ^ (LENGTH('a) - 1) \<le> 2 ^ LENGTH('a)" by simp
  finally show ?thesis using assms by (simp add: uint_sint_mod)
qed

lemma signed_sub_zero: "signed_checked_sub 0 v = Some a \<longleftrightarrow> sint a = - sint (v::'a::len word)"
  by (simp add: signed_checked_sub_def signed_of_int_Some_iff)

lemma signed_sub_zero_None:
  "signed_checked_sub 0 v = None \<longleftrightarrow> sint (v::'a::len word) = - (2 ^ (LENGTH('a) - 1))"
  using sint_greater_eq [of v] sint_less [of v]
  by (auto simp: signed_checked_sub_def signed_of_int_def in_signed_range_def)

section \<open>Evaluation of large words\<close>

text \<open>
  Comparisons of 256-bit numerals go through the natural numbers: \<open>simp only: u256_eval\<close> decides
  them without computing remainders of the literals.
\<close>

lemma unat_u256_numeral:
  assumes "(numeral a::nat) <
    115792089237316195423570985008687907853269984665640564039457584007913129639936"
  shows "unat (numeral a :: u256) = numeral a"
proof -
  have "(numeral a::nat) < 2 ^ LENGTH(256)" using assms by simp
  then show ?thesis by (simp only: unat_numeral mod_less)
qed

lemmas u256_eval =
  word_less_nat_alt word_le_nat_alt word_unat_eq_iff unat_u256_numeral unat_0 unat_1
  arith_simps rel_simps simp_thms if_True if_False

section \<open>Byte strings\<close>

text \<open>
  A value of \<open>k\<close> bytes, most significant byte first. Little-endian byte strings are the reversed
  ones.
\<close>

fun be_bytes_of_nat :: "nat \<Rightarrow> nat \<Rightarrow> bytes" where
  "be_bytes_of_nat 0 n = []"
| "be_bytes_of_nat (Suc k) n = be_bytes_of_nat k (n div 256) @ [of_nat (n mod 256)]"

definition nat_of_be_bytes :: "bytes \<Rightarrow> nat" where
  "nat_of_be_bytes bs = foldl (\<lambda>acc b. acc * 256 + unat b) 0 bs"

definition u256_to_be_bytes :: "u256 \<Rightarrow> bytes" where
  "u256_to_be_bytes v = be_bytes_of_nat 32 (unat v)"

definition u256_from_be_bytes :: "bytes \<Rightarrow> u256" where
  "u256_from_be_bytes bs = of_nat (nat_of_be_bytes bs)"

definition u256_to_le_bytes :: "u256 \<Rightarrow> bytes" where
  "u256_to_le_bytes v = rev (u256_to_be_bytes v)"

definition u256_from_le_bytes :: "bytes \<Rightarrow> u256" where
  "u256_from_le_bytes bs = u256_from_be_bytes (rev bs)"

lemma length_be_bytes_of_nat [simp]: "length (be_bytes_of_nat k n) = k"
  by (induction k arbitrary: n) auto

lemma nat_of_be_bytes_snoc [simp]:
  "nat_of_be_bytes (bs @ [b]) = nat_of_be_bytes bs * 256 + unat b"
  by (simp add: nat_of_be_bytes_def)

lemma nat_of_be_bytes_Nil [simp]: "nat_of_be_bytes [] = 0"
  by (simp add: nat_of_be_bytes_def)

lemma byte_less: "unat (b::u8) < 256"
proof -
  have "unat b < 2 ^ LENGTH(8)" by (rule unsigned_less)
  then show ?thesis by simp
qed

lemma nat_of_be_bytes_less: "nat_of_be_bytes bs < 256 ^ length bs"
proof (induction bs rule: rev_induct)
  case Nil
  then show ?case by simp
next
  case (snoc b bs)
  have "unat b < 256" by (rule byte_less)
  with snoc show ?case by simp
qed

lemma unat_byte_of_nat: "unat (of_nat (n mod 256) :: u8) = n mod 256"
proof -
  show ?thesis by (simp add: unat_of_nat)
qed

lemma nat_of_be_bytes_of_nat: "nat_of_be_bytes (be_bytes_of_nat k n) = n mod 256 ^ k"
proof (induction k arbitrary: n)
  case 0
  then show ?case by simp
next
  case (Suc k)
  then show ?case
    by (simp add: unat_byte_of_nat mod_mult2_eq mult.commute)
qed

lemma be_bytes_of_nat_of_be_bytes:
  "length bs = k \<Longrightarrow> be_bytes_of_nat k (nat_of_be_bytes bs) = bs"
proof (induction bs arbitrary: k rule: rev_induct)
  case Nil
  then show ?case by simp
next
  case (snoc b bs)
  have "unat b < 256" by (rule byte_less)
  with snoc show ?case by auto
qed

lemma length_u256_bytes [simp]:
  "length (u256_to_be_bytes v) = 32"
  "length (u256_to_le_bytes v) = 32"
  by (simp_all add: u256_to_be_bytes_def u256_to_le_bytes_def)

lemma u256_from_to_be_bytes [simp]: "u256_from_be_bytes (u256_to_be_bytes v) = v"
proof -
  have "unat v < 2 ^ LENGTH(256)" by (rule unsigned_less)
  then have "unat v mod 256 ^ 32 = unat v" by simp
  then show ?thesis
    by (simp add: u256_from_be_bytes_def u256_to_be_bytes_def nat_of_be_bytes_of_nat)
qed

lemma unat_u256_from_be_bytes:
  assumes "length bs = 32"
  shows "unat (u256_from_be_bytes bs) = nat_of_be_bytes bs"
proof -
  have "nat_of_be_bytes bs < 2 ^ LENGTH(256)"
    using nat_of_be_bytes_less [of bs] assms by simp
  then show ?thesis by (simp add: u256_from_be_bytes_def unat_of_nat)
qed

lemma u256_to_from_be_bytes: "length bs = 32 \<Longrightarrow> u256_to_be_bytes (u256_from_be_bytes bs) = bs"
  by (simp add: u256_to_be_bytes_def unat_u256_from_be_bytes be_bytes_of_nat_of_be_bytes)

lemma u256_from_to_le_bytes [simp]: "u256_from_le_bytes (u256_to_le_bytes v) = v"
  by (simp add: u256_from_le_bytes_def u256_to_le_bytes_def)

lemma u256_to_from_le_bytes: "length bs = 32 \<Longrightarrow> u256_to_le_bytes (u256_from_le_bytes bs) = bs"
  by (simp add: u256_from_le_bytes_def u256_to_le_bytes_def u256_to_from_be_bytes)

section \<open>Lists, options and numbers\<close>

text \<open>Rust's \<open>get(i)\<close> on a vector: \<open>None\<close> out of range.\<close>

definition vec_get :: "'a list \<Rightarrow> nat \<Rightarrow> 'a option" where
  "vec_get xs i = (if i < length xs then Some (xs ! i) else None)"

lemma vec_get_Some_iff [checked_simps]: "vec_get xs i = Some x \<longleftrightarrow> i < length xs \<and> xs ! i = x"
  by (auto simp: vec_get_def)

lemma vec_get_less [simp]: "i < length xs \<Longrightarrow> vec_get xs i = Some (xs ! i)"
  by (simp add: vec_get_def)

lemma div_add_block:
  fixes n k l :: nat
  assumes "2 ^ k dvd n" and "k \<le> l"
  shows "(n + 2 ^ k) div 2 ^ l = n div 2 ^ l \<or> (n + 2 ^ k) div 2 ^ l = Suc (n div 2 ^ l)"
proof -
  have "(2::nat) ^ k \<le> 2 ^ l" using assms(2) by (simp add: power_increasing)
  then have "(n + 2 ^ k) div 2 ^ l \<le> (n + 2 ^ l) div 2 ^ l" by (intro div_le_mono) simp
  also have "\<dots> = Suc (n div 2 ^ l)" by (simp add: div_add_self2)
  finally have "(n + 2 ^ k) div 2 ^ l \<le> Suc (n div 2 ^ l)" .
  moreover have "n div 2 ^ l \<le> (n + 2 ^ k) div 2 ^ l" by (rule div_le_mono) simp
  ultimately show ?thesis by linarith
qed

end
