(* ===== verification/Merkle_Spec.thy ===== *)
theory Merkle_Spec
  imports Prelude
begin

text \<open>
  The abstract specification of an append-only Merkle tree of fixed depth, and the argument that
  the incremental algorithm of the contracts (one stored left sibling per level) computes it. The
  algorithm is stated over an arbitrary hash and a table of zero hashes, so that the pool tree, the
  ASP membership tree and the prover's prefix tree share it.
\<close>

section \<open>Specification\<close>

text \<open>
  The node at height \<open>l\<close> and position \<open>i\<close> of the complete tree whose leaves are \<open>xs\<close>, padded with the
  zero leaf \<open>z\<close>.
\<close>

fun merkle_node :: "('a \<Rightarrow> 'a \<Rightarrow> 'a) \<Rightarrow> 'a \<Rightarrow> 'a list \<Rightarrow> nat \<Rightarrow> nat \<Rightarrow> 'a" where
  "merkle_node H z xs 0 i = (if i < length xs then xs ! i else z)"
| "merkle_node H z xs (Suc l) i = H (merkle_node H z xs l (2 * i)) (merkle_node H z xs l (2 * i + 1))"

definition merkle_root_of :: "('a \<Rightarrow> 'a \<Rightarrow> 'a) \<Rightarrow> 'a \<Rightarrow> nat \<Rightarrow> 'a list \<Rightarrow> 'a" where
  "merkle_root_of H z d xs = merkle_node H z xs d 0"

text \<open>The hash of an empty subtree of each height.\<close>

fun zero_chain :: "('a \<Rightarrow> 'a \<Rightarrow> 'a) \<Rightarrow> 'a \<Rightarrow> nat \<Rightarrow> 'a" where
  "zero_chain H z 0 = z"
| "zero_chain H z (Suc l) = H (zero_chain H z l) (zero_chain H z l)"

text \<open>
  The walk from an inserted node to the root over the given levels: a right child is hashed with the
  stored left sibling, a left child is stored and hashed with the zero hash of its level.
\<close>

fun climb :: "('a \<Rightarrow> 'a \<Rightarrow> 'a) \<Rightarrow> (nat \<Rightarrow> 'a) \<Rightarrow> nat list \<Rightarrow> nat \<Rightarrow> 'a \<Rightarrow> (nat \<Rightarrow> 'a) \<Rightarrow> 'a \<times> (nat \<Rightarrow> 'a)" where
  "climb H zero [] i cur F = (cur, F)"
| "climb H zero (l # ls) i cur F =
     (if odd i then climb H zero ls (i div 2) (H (F l) cur) F
      else climb H zero ls (i div 2) (H cur (zero l)) (F(l := cur)))"

text \<open>
  What the stored siblings hold between insertions: wherever the next position is a right child, the
  completed left subtree beside it.
\<close>

definition filled_ok ::
  "('a \<Rightarrow> 'a \<Rightarrow> 'a) \<Rightarrow> 'a \<Rightarrow> nat \<Rightarrow> nat \<Rightarrow> 'a list \<Rightarrow> (nat \<Rightarrow> 'a) \<Rightarrow> bool" where
  "filled_ok H z k d xs F \<longleftrightarrow>
    (\<forall>l. k \<le> l \<and> l < d \<and> odd (length xs div 2 ^ l) \<longrightarrow>
       F l = merkle_node H z xs l (length xs div 2 ^ l - 1))"

text \<open>The stored siblings of a storage map, as a function of the level.\<close>

definition stored :: "(nat \<rightharpoonup> 'a) \<Rightarrow> nat \<Rightarrow> 'a" where
  "stored m l = the (m l)"

lemma stored_upd [simp]: "stored (m(l \<mapsto> v)) = (stored m)(l := v)"
  by (simp add: stored_def fun_eq_iff)

section \<open>Nodes\<close>

lemma merkle_node_append:
  "Suc i * 2 ^ l \<le> length xs \<Longrightarrow> merkle_node H z (xs @ ys) l i = merkle_node H z xs l i"
proof (induction l arbitrary: i)
  case 0
  then show ?case by (simp add: nth_append)
next
  case (Suc l)
  have "Suc (2 * i) * 2 ^ l \<le> length xs" "Suc (2 * i + 1) * 2 ^ l \<le> length xs"
    using Suc.prems by (simp_all add: algebra_simps)
  then show ?case by (simp only: merkle_node.simps Suc.IH)
qed

lemma merkle_node_zero_chain:
  "length xs \<le> i * 2 ^ l \<Longrightarrow> merkle_node H z xs l i = zero_chain H z l"
proof (induction l arbitrary: i)
  case 0
  then show ?case by simp
next
  case (Suc l)
  have "length xs \<le> (2 * i) * 2 ^ l" "length xs \<le> (2 * i + 1) * 2 ^ l"
    using Suc.prems by (simp_all add: algebra_simps)
  then show ?case by (simp only: merkle_node.simps zero_chain.simps Suc.IH)
qed

lemma merkle_root_of_Nil [simp]: "merkle_root_of H z d [] = zero_chain H z d"
  by (simp add: merkle_root_of_def merkle_node_zero_chain)

lemma merkle_node_block:
  assumes "2 ^ k dvd n" and "k \<le> m"
  shows "n + 2 ^ k \<le> Suc (n div 2 ^ m) * 2 ^ m"
proof -
  have dvd: "(2::nat) ^ k dvd Suc (n div 2 ^ m) * 2 ^ m - n"
    using assms by (intro dvd_diff_nat dvd_mult) (simp_all add: le_imp_power_dvd)
  have lt: "n < Suc (n div 2 ^ m) * 2 ^ m"
    using dividend_less_div_times [of "2 ^ m" n] by simp
  then have "0 < Suc (n div 2 ^ m) * 2 ^ m - n" by simp
  with dvd have "2 ^ k \<le> Suc (n div 2 ^ m) * 2 ^ m - n" by (rule dvd_imp_le)
  with lt show ?thesis by linarith
qed

lemma left_block:
  assumes "odd (n div 2 ^ l)"
  shows "Suc (n div 2 ^ l - 1) * 2 ^ l \<le> (n::nat)"
proof -
  have "Suc (n div 2 ^ l - 1) = n div 2 ^ l" using assms by (cases "n div 2 ^ l") auto
  then show ?thesis by (metis div_times_less_eq_dividend)
qed

section \<open>Levels and paths\<close>

text \<open>The position beside a position, and the root that a path of siblings leads to.\<close>

definition sibling_of :: "nat \<Rightarrow> nat" where
  "sibling_of i = (if even i then i + 1 else i - 1)"

fun path_fold :: "('a \<Rightarrow> 'a \<Rightarrow> 'a) \<Rightarrow> nat \<Rightarrow> 'a \<Rightarrow> 'a list \<Rightarrow> 'a" where
  "path_fold H i cur [] = cur"
| "path_fold H i cur (s # ss) = path_fold H (i div 2) (if odd i then H s cur else H cur s) ss"

definition merkle_siblings :: "('a \<Rightarrow> 'a \<Rightarrow> 'a) \<Rightarrow> 'a \<Rightarrow> 'a list \<Rightarrow> nat \<Rightarrow> nat \<Rightarrow> 'a list" where
  "merkle_siblings H z xs d i = map (\<lambda>l. merkle_node H z xs l (sibling_of (i div 2 ^ l))) [0..<d]"

lemma merkle_node_sibling:
  "(if odd i then H (merkle_node H z xs l (sibling_of i)) (merkle_node H z xs l i)
    else H (merkle_node H z xs l i) (merkle_node H z xs l (sibling_of i))) =
   merkle_node H z xs (Suc l) (i div 2)"
  by (auto simp: sibling_of_def elim!: evenE oddE)

lemma path_fold_nodes:
  "path_fold H (i div 2 ^ l) (merkle_node H z xs l (i div 2 ^ l))
     (map (\<lambda>k. merkle_node H z xs k (sibling_of (i div 2 ^ k))) [l..<l + n]) =
   merkle_node H z xs (l + n) (i div 2 ^ (l + n))"
proof (induction n arbitrary: l)
  case (Suc n)
  have upt: "[l..<l + Suc n] = l # [Suc l..<Suc l + n]" by (simp add: upt_conv_Cons)
  have div: "i div 2 ^ l div 2 = i div 2 ^ Suc l" by (simp only: power_Suc2 div_mult2_eq)
  show ?case
    unfolding upt list.map path_fold.simps merkle_node_sibling div using Suc [of "Suc l"] by simp
qed simp

lemma path_fold_root:
  assumes "i < 2 ^ d"
  shows "path_fold H i (merkle_node H z xs 0 i) (merkle_siblings H z xs d i) = merkle_root_of H z d xs"
  using path_fold_nodes [of H i 0 z xs d] assms by (simp add: merkle_siblings_def merkle_root_of_def)

text \<open>A list of nodes that holds level \<open>l\<close> up to the last non-empty position.\<close>

definition level_ok :: "('a \<Rightarrow> 'a \<Rightarrow> 'a) \<Rightarrow> 'a \<Rightarrow> 'a list \<Rightarrow> nat \<Rightarrow> 'a list \<Rightarrow> bool" where
  "level_ok H z xs l nodes \<longleftrightarrow>
    (\<forall>i < length nodes. nodes ! i = merkle_node H z xs l i) \<and> length xs \<le> length nodes * 2 ^ l"

lemma level_ok_leaves: "level_ok H z xs 0 xs"
  by (simp add: level_ok_def)

lemma level_ok_get:
  assumes "level_ok H z xs l nodes"
  shows "(case vec_get nodes i of Some x \<Rightarrow> x | None \<Rightarrow> zero_chain H z l) = merkle_node H z xs l i"
proof (cases "i < length nodes")
  case True
  then show ?thesis using assms by (simp add: level_ok_def)
next
  case False
  then have "length nodes * 2 ^ l \<le> i * 2 ^ l" by simp
  then have "length xs \<le> i * 2 ^ l" using assms unfolding level_ok_def by linarith
  with False show ?thesis by (simp add: vec_get_def merkle_node_zero_chain)
qed

lemma level_ok_pad:
  assumes "level_ok H z xs l nodes"
  shows "level_ok H z xs l (if nodes = [] then [zero_chain H z l] else nodes)"
  using assms by (auto simp: level_ok_def merkle_node_zero_chain)

lemma level_ok_next:
  assumes "level_ok H z xs l nodes" and "length nodes \<le> 2 * n"
  shows "level_ok H z xs (Suc l) (map (merkle_node H z xs (Suc l)) [0..<n])"
proof -
  have "length xs \<le> length nodes * 2 ^ l" using assms(1) by (simp add: level_ok_def)
  also have "\<dots> \<le> 2 * n * 2 ^ l" using assms(2) by (rule mult_le_mono1)
  finally show ?thesis by (simp add: level_ok_def ac_simps)
qed

lemma merkle_node_map:
  assumes "\<And>a b. f (H a b) = H' (f a) (f b)"
  shows "f (merkle_node H z xs l i) = merkle_node H' (f z) (map f xs) l i"
  by (induction l arbitrary: i) (simp_all add: assms)

lemma merkle_node_padded: "merkle_node H z (xs @ replicate n z) l i = merkle_node H z xs l i"
  by (induction l arbitrary: i) (simp_all add: nth_append)

section \<open>The incremental algorithm computes the specification\<close>

text \<open>
  The interface of a hash with its zero hashes up to a depth. The lemmas are about blocks of \<open>2 ^ k\<close>
  leaves: one leaf at a time for \<open>k = 0\<close>, a pair for \<open>k = 1\<close>.
\<close>

locale merkle_levels =
  fixes H :: "'a \<Rightarrow> 'a \<Rightarrow> 'a" and zero :: "nat \<Rightarrow> 'a" and depth :: nat
  assumes zero_Suc: "l < depth \<Longrightarrow> zero (Suc l) = H (zero l) (zero l)"
begin

lemma zero_eq_chain: "l \<le> depth \<Longrightarrow> zero l = zero_chain H (zero 0) l"
proof (induction l)
  case 0
  show ?case by simp
next
  case (Suc l)
  then have "zero (Suc l) = H (zero l) (zero l)" and "zero l = zero_chain H (zero 0) l"
    by (simp_all add: zero_Suc)
  then show ?case by (simp only: zero_chain.simps)
qed

lemma empty_node: "l \<le> depth \<Longrightarrow> length xs \<le> i * 2 ^ l \<Longrightarrow> merkle_node H (zero 0) xs l i = zero l"
  by (simp only: merkle_node_zero_chain zero_eq_chain [symmetric])

lemma climb_spec:
  assumes blk: "2 ^ k dvd length xs" "length ys = 2 ^ k" "k \<le> m" and md: "m \<le> depth"
    and fill: "filled_ok H (zero 0) m depth xs F"
    and cur: "cur = merkle_node H (zero 0) (xs @ ys) m (length xs div 2 ^ m)"
  shows "climb H zero [m..<depth] (length xs div 2 ^ m) cur F =
    (merkle_node H (zero 0) (xs @ ys) depth (length xs div 2 ^ depth),
     \<lambda>l. if m \<le> l \<and> l < depth \<and> even (length xs div 2 ^ l)
         then merkle_node H (zero 0) (xs @ ys) l (length xs div 2 ^ l) else F l)"
  using md blk(3) fill cur
proof (induction "depth - m" arbitrary: m F cur)
  case 0
  then show ?case by (auto simp: fun_eq_iff)
next
  case (Suc e)
  define i where "i = length xs div 2 ^ m"
  have m: "m < depth" and upt: "[m..<depth] = m # [Suc m..<depth]"
    using Suc.hyps(2) by (simp_all add: upt_conv_Cons)
  have next_i: "i div 2 = length xs div 2 ^ Suc m"
    unfolding i_def power_Suc2 by (rule div_mult2_eq [symmetric])
  note IH = Suc.hyps(1) [of "Suc m"]
  have step: "depth - Suc m = e" "Suc m \<le> depth" "k \<le> Suc m"
    using Suc.hyps(2) Suc.prems(2) by auto
  show ?case
  proof (cases "odd i")
    case True
    have "Suc (i - 1) * 2 ^ m \<le> length xs"
      using True unfolding i_def by (rule left_block)
    then have left: "F m = merkle_node H (zero 0) (xs @ ys) m (i - 1)"
      using Suc.prems(3) True m by (auto simp: filled_ok_def i_def merkle_node_append)
    have "2 * (i div 2) = i - 1" "2 * (i div 2) + 1 = i" using True by presburger+
    then have up: "H (F m) cur = merkle_node H (zero 0) (xs @ ys) (Suc m) (length xs div 2 ^ Suc m)"
      using Suc.prems(4) left next_i by (simp only: merkle_node.simps i_def)
    have "filled_ok H (zero 0) (Suc m) depth xs F"
      using Suc.prems(3) by (auto simp: filled_ok_def)
    note rec = IH [OF step(1) [symmetric] step(2,3) this up]
    show ?thesis
      using True rec upt next_i
      by (auto simp: i_def fun_eq_iff not_less_eq_eq Suc_le_eq le_less)
  next
    case False
    have "length (xs @ ys) \<le> Suc i * 2 ^ m"
      using merkle_node_block [OF blk(1) Suc.prems(2)] blk(2) by (simp add: i_def)
    then have right: "zero m = merkle_node H (zero 0) (xs @ ys) m (Suc i)"
      using m by (simp add: empty_node)
    have "2 * (i div 2) = i" "2 * (i div 2) + 1 = Suc i" using False by presburger+
    then have up: "H cur (zero m) =
        merkle_node H (zero 0) (xs @ ys) (Suc m) (length xs div 2 ^ Suc m)"
      using Suc.prems(4) right next_i by (simp only: merkle_node.simps i_def)
    have "filled_ok H (zero 0) (Suc m) depth xs (F(m := cur))"
      using Suc.prems(3) by (auto simp: filled_ok_def)
    note rec = IH [OF step(1) [symmetric] step(2,3) this up]
    show ?thesis
      using False rec upt m next_i Suc.prems(4)
      by (auto simp: i_def fun_eq_iff not_less_eq_eq Suc_le_eq le_less)
  qed
qed

text \<open>Inserting a block into a tree that is not full gives the root of the extended list.\<close>

lemma climb_root:
  assumes "2 ^ k dvd length xs" "length ys = 2 ^ k" "k \<le> depth" "length xs + 2 ^ k \<le> 2 ^ depth"
    and "filled_ok H (zero 0) k depth xs F"
    and "cur = merkle_node H (zero 0) (xs @ ys) k (length xs div 2 ^ k)"
  shows "fst (climb H zero [k..<depth] (length xs div 2 ^ k) cur F) =
    merkle_root_of H (zero 0) depth (xs @ ys)"
proof -
  have "0 < (2::nat) ^ k" by simp
  with assms(4) have "length xs < 2 ^ depth" by linarith
  then show ?thesis
    using climb_spec [OF assms(1,2) order.refl assms(3,5,6)] by (simp add: merkle_root_of_def)
qed

text \<open>The stored siblings are again right for the extended list.\<close>

lemma climb_filled:
  assumes "2 ^ k dvd length xs" "length ys = 2 ^ k" "k \<le> depth"
    and "filled_ok H (zero 0) k depth xs F"
    and "cur = merkle_node H (zero 0) (xs @ ys) k (length xs div 2 ^ k)"
  shows "filled_ok H (zero 0) k depth (xs @ ys)
    (snd (climb H zero [k..<depth] (length xs div 2 ^ k) cur F))"
  unfolding filled_ok_def climb_spec [OF assms(1,2) order.refl assms(3,4,5)]
proof (intro allI impI)
  fix l
  assume l: "k \<le> l \<and> l < depth \<and> odd (length (xs @ ys) div 2 ^ l)"
  define i where "i = length xs div 2 ^ l"
  have alt: "length (xs @ ys) div 2 ^ l = i \<or> length (xs @ ys) div 2 ^ l = Suc i"
    using div_add_block [OF assms(1)] l assms(2) by (simp add: i_def)
  show "snd (merkle_node H (zero 0) (xs @ ys) depth (length xs div 2 ^ depth),
      \<lambda>l. if k \<le> l \<and> l < depth \<and> even (length xs div 2 ^ l)
          then merkle_node H (zero 0) (xs @ ys) l (length xs div 2 ^ l) else F l) l =
    merkle_node H (zero 0) (xs @ ys) l (length (xs @ ys) div 2 ^ l - 1)"
  proof (cases "even i")
    case True
    with alt l have "length (xs @ ys) div 2 ^ l = Suc i" by auto
    with True l show ?thesis by (simp add: i_def)
  next
    case False
    with alt l have eq: "length (xs @ ys) div 2 ^ l = i" by auto
    have "Suc (i - 1) * 2 ^ l \<le> length xs"
      using False unfolding i_def by (intro left_block)
    then have "merkle_node H (zero 0) (xs @ ys) l (i - 1) = merkle_node H (zero 0) xs l (i - 1)"
      by (rule merkle_node_append)
    with False eq l assms(4) show ?thesis by (simp add: i_def filled_ok_def)
  qed
qed

end

text \<open>The chain of zero hashes computed from any hash and any zero leaf provides the interface.\<close>

interpretation chain: merkle_levels H "zero_chain H z" d for H :: "'a \<Rightarrow> 'a \<Rightarrow> 'a" and z d
  by unfold_locales simp

lemmas chain_climb = chain.climb_root chain.climb_filled

end
