(* ===== verification/Soroban_Utils.thy ===== *)
theory Soroban_Utils
  imports Soroban_Constants Merkle_Spec
begin

text \<open>
  The hash functions and the administrator update that the contracts share
  (\<open>contracts/soroban-utils/src/poseidon2.rs\<close> and \<open>utils.rs\<close>). The permutation itself is a host
  function of Soroban and a parameter of every definition; \<open>host_permutation_ok\<close> and \<open>zero_table_ok\<close>
  name what the contracts rely on about it.
\<close>

section \<open>Definitions\<close>

text \<open>
  \<open>poseidon2_permutation(input, field, t, d, rounds_f, rounds_p, mat_internal_diag_m_1,
  round_constants)\<close> of the host.
\<close>

type_synonym poseidon2_host =
  "u256 list \<Rightarrow> string \<Rightarrow> nat \<Rightarrow> nat \<Rightarrow> nat \<Rightarrow> nat \<Rightarrow> u256 list \<Rightarrow> u256 list list \<Rightarrow> u256 list"

definition poseidon2_compress :: "poseidon2_host \<Rightarrow> u256 \<Rightarrow> u256 \<Rightarrow> ('e, u256) outcome" where
  "poseidon2_compress P left right =
    (let bn256_mod = bn256_modulus in
     if left \<ge> bn256_mod \<or> right \<ge> bn256_mod then Inl Trap
     else
       let out = P [left, right] ''BN254'' 2 5 8 56 [1, 2] get_round_constants_t2 in
       let_ok (or_trap (vec_get out 0)) (\<lambda>out_0.
       let_ok (or_trap (checked_add out_0 left)) (\<lambda>compressed_0.
       Inr (if compressed_0 \<ge> bn256_mod then compressed_0 mod bn256_mod else compressed_0))))"

definition poseidon2_hash2 ::
  "poseidon2_host \<Rightarrow> u256 \<Rightarrow> u256 \<Rightarrow> u256 option \<Rightarrow> ('e, u256) outcome" where
  "poseidon2_hash2 P a b sep_opt =
    (let bn256_mod = bn256_modulus;
         sep = (case sep_opt of Some s \<Rightarrow> s | None \<Rightarrow> 0) in
     if a \<ge> bn256_mod \<or> b \<ge> bn256_mod \<or> sep \<ge> bn256_mod then Inl Trap
     else
       let out = P [a, b, sep] ''BN254'' 3 5 8 56 [1, 1, 2] get_round_constants_t3 in
       or_trap (vec_get out 0))"

text \<open>
  \<open>update_admin\<close> reads the stored administrator, requires its authorisation and stores the new one.
  The store is the value under the administrator's key.
\<close>

definition update_admin ::
  "(address \<Rightarrow> bool) \<Rightarrow> address option \<Rightarrow> address \<Rightarrow> ('e, address option) outcome" where
  "update_admin auth current new_admin =
    let_ok (or_trap current) (\<lambda>admin.
    let_ok (require (auth admin) Trap) (\<lambda>_.
    Inr (Some new_admin)))"

section \<open>What the contracts rely on\<close>

text \<open>
  On field elements the host permutation returns as many field elements as its width \<open>t\<close>.
\<close>

definition host_permutation_ok :: "poseidon2_host \<Rightarrow> bool" where
  "host_permutation_ok P \<longleftrightarrow>
    (\<forall>inp field t d rf rp diag rc.
       length inp = t \<longrightarrow> list_all (\<lambda>x. x < bn256_modulus) inp \<longrightarrow>
       length (P inp field t d rf rp diag rc) = t \<and>
       list_all (\<lambda>y. y < bn256_modulus) (P inp field t d rf rp diag rc))"

text \<open>The values of the two hash functions where they do not trap.\<close>

definition compress_val :: "poseidon2_host \<Rightarrow> u256 \<Rightarrow> u256 \<Rightarrow> u256" where
  "compress_val P left right =
    (P [left, right] ''BN254'' 2 5 8 56 [1, 2] get_round_constants_t2 ! 0 + left)
      mod bn256_modulus"

definition hash2_val :: "poseidon2_host \<Rightarrow> u256 \<Rightarrow> u256 \<Rightarrow> u256 \<Rightarrow> u256" where
  "hash2_val P a b sep = P [a, b, sep] ''BN254'' 3 5 8 56 [1, 1, 2] get_round_constants_t3 ! 0"

text \<open>
  The table of zero hashes is the chain of compressions that its documentation describes.
\<close>

definition zero_table_ok :: "poseidon2_host \<Rightarrow> bool" where
  "zero_table_ok P \<longleftrightarrow>
    (\<forall>i < 32. compress_val P (get_zeroes ! i) (get_zeroes ! i) = get_zeroes ! Suc i)"

section \<open>Lemmas\<close>

lemma host_permutation_hd:
  assumes "host_permutation_ok P" and "length inp = t" and "0 < t"
    and "list_all (\<lambda>x. x < bn256_modulus) inp"
  shows "vec_get (P inp field t d rf rp diag rc) 0 = Some (P inp field t d rf rp diag rc ! 0)"
    and "P inp field t d rf rp diag rc ! 0 < bn256_modulus"
proof -
  have len: "length (P inp field t d rf rp diag rc) = t"
    and all: "list_all (\<lambda>y. y < bn256_modulus) (P inp field t d rf rp diag rc)"
    using assms(1,2,4) by (auto simp: host_permutation_ok_def)
  show "vec_get (P inp field t d rf rp diag rc) 0 = Some (P inp field t d rf rp diag rc ! 0)"
    using len assms(3) by simp
  show "P inp field t d rf rp diag rc ! 0 < bn256_modulus"
    using all len assms(3) by (simp add: list_all_length)
qed

lemma word_mod_less_id: "(x::u256) < m \<Longrightarrow> x mod m = x"
  by (simp add: word_mod_def word_less_def)

lemma word_mod_bound: "0 < m \<Longrightarrow> (x::u256) mod m < m"
  by (simp add: word_mod_less_divisor)

lemma bn256_modulus_pos: "(0::u256) < bn256_modulus"
  using bn256_modulus_bounds(1) by (simp add: unat_gt_0 word_neq_0_conv)

lemma poseidon2_compress_ok:
  assumes "host_permutation_ok P" and "left < bn256_modulus" and "right < bn256_modulus"
  shows "poseidon2_compress P left right = Inr (compress_val P left right)"
proof -
  define out where "out = P [left, right] ''BN254'' 2 5 8 56 [1, 2] get_round_constants_t2"
  have get: "vec_get out 0 = Some (out ! 0)" and lt: "out ! 0 < bn256_modulus"
    unfolding out_def using host_permutation_hd [of P "[left, right]" 2] assms by auto
  have "unat (out ! 0) < unat bn256_modulus" and "unat left < unat bn256_modulus"
    using lt assms(2) by (simp_all add: word_less_nat_alt)
  then have "unat (out ! 0) + unat left < 2 ^ LENGTH(256)"
    using bn256_modulus_bounds(2) by simp
  then have "checked_add (out ! 0) left = Some (out ! 0 + left)"
    by (simp add: checked_add_def)
  then show ?thesis
    using assms(2,3) get
    by (simp add: poseidon2_compress_def compress_val_def Let_def not_le word_mod_less_id
        flip: out_def)
qed

lemma poseidon2_compress_trap:
  "\<not> (left < bn256_modulus \<and> right < bn256_modulus) \<Longrightarrow> poseidon2_compress P left right = Inl Trap"
  by (auto simp: poseidon2_compress_def Let_def not_less)

lemma poseidon2_compress_InrD:
  assumes "host_permutation_ok P" and "poseidon2_compress P left right = Inr h"
  shows "left < bn256_modulus \<and> right < bn256_modulus \<and> h = compress_val P left right"
proof -
  have "left < bn256_modulus \<and> right < bn256_modulus"
  proof (rule ccontr)
    assume "\<not> (left < bn256_modulus \<and> right < bn256_modulus)"
    note trap = poseidon2_compress_trap [OF this, of P]
    from assms(2) show False unfolding trap by simp
  qed
  with assms show ?thesis by (simp add: poseidon2_compress_ok)
qed

lemma poseidon2_compress_not_Err: "poseidon2_compress P left right \<noteq> Inl (Err e)"
  by (auto simp: poseidon2_compress_def Let_def outcome_simps or_trap_def)

lemma compress_val_canonical [simp]: "compress_val P left right < bn256_modulus"
  by (simp add: compress_val_def word_mod_bound bn256_modulus_pos)

lemma poseidon2_hash2_ok:
  assumes "host_permutation_ok P"
    and "a < bn256_modulus" and "b < bn256_modulus" and "s < bn256_modulus"
  shows "poseidon2_hash2 P a b (Some s) = Inr (hash2_val P a b s)"
    and "hash2_val P a b s < bn256_modulus"
proof -
  have "list_all (\<lambda>x. x < bn256_modulus) [a, b, s]" using assms by simp
  note hd = host_permutation_hd [OF assms(1) _ _ this, of 3, simplified]
  show "poseidon2_hash2 P a b (Some s) = Inr (hash2_val P a b s)"
    using assms hd(1) by (simp add: poseidon2_hash2_def hash2_val_def Let_def not_le)
  show "hash2_val P a b s < bn256_modulus"
    using hd(2) by (simp add: hash2_val_def)
qed

lemma poseidon2_hash2_trap:
  "\<not> (a < bn256_modulus \<and> b < bn256_modulus \<and> s < bn256_modulus) \<Longrightarrow>
     poseidon2_hash2 P a b (Some s) = Inl Trap"
  by (auto simp: poseidon2_hash2_def Let_def not_less)

lemma update_admin_Inr_iff:
  "update_admin auth current new_admin = Inr s \<longleftrightarrow>
     (\<exists>admin. current = Some admin \<and> auth admin \<and> s = Some new_admin)"
  by (auto simp: update_admin_def outcome_simps)

text \<open>The contract table is the chain of zero hashes of the Merkle specification.\<close>

lemma zero_table_chain:
  assumes "zero_table_ok P" and "l \<le> 32"
  shows "get_zeroes ! l = zero_chain (compress_val P) (get_zeroes ! 0) l"
  using assms(2)
proof (induction l)
  case 0
  show ?case by simp
next
  case (Suc l)
  have "compress_val P (get_zeroes ! l) (get_zeroes ! l) = get_zeroes ! Suc l"
    using assms(1) Suc.prems by (simp add: zero_table_ok_def)
  with Suc show ?case by (metis zero_chain.simps(2) Suc_leD)
qed

end
