(* ===== verification/Sample_Host.thy ===== *)
theory Sample_Host
  imports Soroban_Utils
begin

text \<open>
  A concrete permutation for the host parameter. It satisfies what the contracts rely on
  (\<open>host_permutation_ok\<close>, \<open>zero_table_ok\<close>) and is used only to show that the hypotheses of the
  theorems can hold together on concrete inputs; it is not Poseidon2.
\<close>

definition sample_target :: "u256 \<Rightarrow> u256 \<Rightarrow> u256" where
  "sample_target l r =
    (case map_of (zip get_zeroes (tl get_zeroes)) l of
       Some z \<Rightarrow> (if l = r then z else (l + 3 * r + 1) mod bn256_modulus)
     | None \<Rightarrow> (l + 3 * r + 1) mod bn256_modulus)"

definition sample_mix :: "u256 list \<Rightarrow> u256" where
  "sample_mix xs = foldl (\<lambda>acc x. 1000 * acc + x) 7 xs mod bn256_modulus"

definition sample_host :: poseidon2_host where
  "sample_host inp field t d rf rp diag rc =
    (if length inp = 2 then
       (let l = inp ! 0; g = sample_target l (inp ! 1) in
        [if l \<le> g then g - l else g + (bn256_modulus - l), 0])
     else map (\<lambda>_. sample_mix inp) inp)"

lemma sample_target_canonical: "sample_target l r < bn256_modulus"
proof -
  have "z < bn256_modulus" if "map_of (zip get_zeroes (tl get_zeroes)) l = Some z" for z
  proof -
    have "z \<in> set get_zeroes"
      using set_zip_rightD [OF map_of_SomeD [OF that]] by (metis drop_Suc drop0 in_set_dropD)
    then show ?thesis using get_zeroes_canonical by (simp add: list_all_iff)
  qed
  then show ?thesis
    by (auto simp: sample_target_def word_mod_bound bn256_modulus_pos split: option.splits)
qed

lemma sample_target_zero:
  assumes "i < 32"
  shows "sample_target (get_zeroes ! i) (get_zeroes ! i) = get_zeroes ! Suc i"
proof -
  have len: "i < length (zip get_zeroes (tl get_zeroes))" using assms by simp
  have "distinct (map fst (zip get_zeroes (tl get_zeroes)))"
  proof -
    have "map fst (zip get_zeroes (tl get_zeroes)) = take 32 get_zeroes"
      by (simp add: map_fst_zip_take)
    then show ?thesis using get_zeroes_distinct by simp
  qed
  moreover have "zip get_zeroes (tl get_zeroes) ! i = (get_zeroes ! i, get_zeroes ! Suc i)"
    using assms by (simp add: nth_tl)
  then have "(get_zeroes ! i, get_zeroes ! Suc i) \<in> set (zip get_zeroes (tl get_zeroes))"
    using len by (metis nth_mem)
  ultimately have "map_of (zip get_zeroes (tl get_zeroes)) (get_zeroes ! i) =
      Some (get_zeroes ! Suc i)"
    by simp
  then show ?thesis by (simp add: sample_target_def)
qed

lemma unat_less_modulus: "(x::u256) < bn256_modulus \<longleftrightarrow> unat x < unat bn256_modulus"
  by (rule word_less_nat_alt)

lemma sample_difference:
  assumes "l < bn256_modulus" and "g < bn256_modulus"
  shows "(if l \<le> g then g - l else g + (bn256_modulus - l)) < bn256_modulus"
    and "((if l \<le> g then g - l else g + (bn256_modulus - l)) + l) mod bn256_modulus = g"
proof -
  let ?p = bn256_modulus
  have u: "unat l < unat ?p" "unat g < unat ?p" using assms by (simp_all add: unat_less_modulus)
  have big: "2 * unat ?p < 2 ^ LENGTH(256)" using bn256_modulus_bounds(2) by simp
  have pl: "unat (?p - l) = unat ?p - unat l"
    using assms(1) by (intro unat_sub_exact) simp
  have "unat (g + (?p - l)) = unat g + (unat ?p - unat l)"
    using u big pl by (subst unat_add_exact) auto
  then show "(if l \<le> g then g - l else g + (?p - l)) < ?p"
    using u by (auto simp: unat_less_modulus unat_sub_exact word_le_nat_alt)
  show "((if l \<le> g then g - l else g + (?p - l)) + l) mod ?p = g"
  proof (cases "l \<le> g")
    case True
    then show ?thesis using assms(2) by (simp add: word_mod_less_id)
  next
    case False
    have "unat (g + ?p) = unat g + unat ?p" using u big by (subst unat_add_exact) auto
    then have "unat ((g + ?p) mod ?p) = unat g" using u by (simp add: unat_mod)
    then have "(g + ?p) mod ?p = g" by (simp only: word_unat_eq_iff)
    with False show ?thesis by simp
  qed
qed

lemma sample_host_ok: "host_permutation_ok sample_host"
  unfolding host_permutation_ok_def
proof (intro allI impI)
  fix inp field t d rf rp diag rc
  assume t: "length inp = (t::nat)" and all: "list_all (\<lambda>x. x < bn256_modulus) inp"
  show "length (sample_host inp field t d rf rp diag rc) = t \<and>
    list_all (\<lambda>y. y < bn256_modulus) (sample_host inp field t d rf rp diag rc)"
  proof (cases "length inp = 2")
    case True
    then have "inp ! 0 < bn256_modulus" using all by (simp add: list_all_length)
    then show ?thesis
      using True t sample_difference(1) [OF _ sample_target_canonical]
      by (auto simp: sample_host_def Let_def bn256_modulus_pos)
  next
    case False
    then show ?thesis
      using t by (auto simp: sample_host_def list_all_iff sample_mix_def word_mod_bound
          bn256_modulus_pos)
  qed
qed

lemma sample_compress:
  "l < bn256_modulus \<Longrightarrow> compress_val sample_host l r = sample_target l r"
  using sample_difference(2) [OF _ sample_target_canonical]
  by (simp add: compress_val_def sample_host_def Let_def)

lemma sample_host_zero_table: "zero_table_ok sample_host"
  by (simp add: zero_table_ok_def sample_compress get_zeroes_nth_canonical sample_target_zero)

end
