(* ===== verification/Pool_Merkle.thy ===== *)
theory Pool_Merkle
  imports Sample_Host
begin

text \<open>
  The commitment tree of the pool with its history of roots
  (\<open>contracts/pool/src/merkle_with_history.rs\<close>): its storage, its operations, and their correctness
  against the Merkle specification and against an abstract history of roots.
\<close>

section \<open>Definitions\<close>

definition ROOT_HISTORY_SIZE :: nat where
  "ROOT_HISTORY_SIZE = 90"

datatype merkle_error =
    Merkle_AlreadyInitialized
  | Merkle_WrongLevels
  | Merkle_MerkleTreeFull
  | Merkle_NextIndexNotEven
  | Merkle_NotInitialized
  | Merkle_Overflow

text \<open>One field for each variant of \<open>MerkleDataKey\<close>; an absent entry is \<open>None\<close>.\<close>

record merkle_store =
  mh_levels :: "nat option"
  mh_current_root_index :: "nat option"
  mh_next_index :: "nat option"
  mh_filled_subtree :: "nat \<rightharpoonup> u256"
  mh_zeroes :: "nat \<rightharpoonup> u256"
  mh_root :: "nat \<rightharpoonup> u256"

fun mh_init_levels :: "nat list \<Rightarrow> merkle_store \<Rightarrow> (merkle_error, merkle_store) outcome" where
  "mh_init_levels [] s = Inr s"
| "mh_init_levels (i # is) s =
     let_ok (ok_or (vec_get get_zeroes i) (Err Merkle_NotInitialized)) (\<lambda>z.
     mh_init_levels is
       (s\<lparr>mh_filled_subtree := (mh_filled_subtree s)(i \<mapsto> z), mh_zeroes := (mh_zeroes s)(i \<mapsto> z)\<rparr>))"

definition mh_init :: "nat \<Rightarrow> merkle_store \<Rightarrow> (merkle_error, merkle_store) outcome" where
  "mh_init levels s =
    (if levels = 0 \<or> levels > 32 then Inl (Err Merkle_WrongLevels)
     else if mh_current_root_index s \<noteq> None then Inl (Err Merkle_AlreadyInitialized)
     else
       let_ok (mh_init_levels [0..<Suc levels] (s\<lparr>mh_levels := Some levels\<rparr>)) (\<lambda>s1.
       let_ok (ok_or (vec_get get_zeroes levels) (Err Merkle_NotInitialized)) (\<lambda>root_0.
       Inr (s1\<lparr>mh_root := (mh_root s1)(0 \<mapsto> root_0),
               mh_current_root_index := Some 0,
               mh_next_index := Some 0\<rparr>))))"

text \<open>The loop \<open>for lvl in 1..levels\<close> of \<open>insert_two_leaves\<close>.\<close>

fun mh_update_path ::
  "poseidon2_host \<Rightarrow> nat list \<Rightarrow> nat \<Rightarrow> u256 \<Rightarrow> merkle_store
    \<Rightarrow> (merkle_error, u256 \<times> merkle_store) outcome" where
  "mh_update_path P [] current_index current_hash s = Inr (current_hash, s)"
| "mh_update_path P (lvl # lvls) current_index current_hash s =
     (if current_index mod 2 = 1 then
        let_ok (ok_or (mh_filled_subtree s lvl) (Err Merkle_NotInitialized)) (\<lambda>left.
        let_ok (poseidon2_compress P left current_hash) (\<lambda>h.
        mh_update_path P lvls (current_index div 2) h s))
      else
        let s' = s\<lparr>mh_filled_subtree := (mh_filled_subtree s)(lvl \<mapsto> current_hash)\<rparr> in
        let_ok (ok_or (mh_zeroes s' lvl) (Err Merkle_NotInitialized)) (\<lambda>zero_val.
        let_ok (poseidon2_compress P current_hash zero_val) (\<lambda>h.
        mh_update_path P lvls (current_index div 2) h s')))"

definition u32_try_from :: "nat \<Rightarrow> nat option" where
  "u32_try_from n = (if n < 2 ^ 32 then Some n else None)"

definition mh_insert_two_leaves ::
  "poseidon2_host \<Rightarrow> u256 \<Rightarrow> u256 \<Rightarrow> merkle_store
    \<Rightarrow> (merkle_error, (nat \<times> nat) \<times> merkle_store) outcome" where
  "mh_insert_two_leaves P leaf_1 leaf_2 s =
    let_ok (ok_or (mh_levels s) (Err Merkle_NotInitialized)) (\<lambda>levels.
    let_ok (ok_or (mh_next_index s) (Err Merkle_NotInitialized)) (\<lambda>next_index.
    let_ok (ok_or (mh_current_root_index s) (Err Merkle_NotInitialized)) (\<lambda>root_index.
    let_ok (ok_or (u64_checked_shl 1 levels) (Err Merkle_WrongLevels)) (\<lambda>max_leaves.
    let_ok (require (next_index mod 2 = 0) (Err Merkle_NextIndexNotEven)) (\<lambda>_.
    let_ok (ok_or (nat_checked_add 64 next_index 2) (Err Merkle_Overflow)) (\<lambda>needed.
    let_ok (require (\<not> needed > max_leaves) (Err Merkle_MerkleTreeFull)) (\<lambda>_.
    let_ok (poseidon2_compress P leaf_1 leaf_2) (\<lambda>pair_hash.
    let_ok (mh_update_path P [1..<levels] (next_index div 2) pair_hash s) (\<lambda>(current_hash, s1).
    let_ok (ok_or (nat_checked_add 32 root_index 1) (Err Merkle_Overflow)) (\<lambda>bumped.
    let new_root_index = bumped mod ROOT_HISTORY_SIZE;
        s2 = s1\<lparr>mh_root := (mh_root s1)(new_root_index \<mapsto> current_hash),
                mh_current_root_index := Some new_root_index\<rparr> in
    let_ok (ok_or (nat_checked_add 64 next_index 2) (Err Merkle_Overflow)) (\<lambda>new_next.
    let s3 = s2\<lparr>mh_next_index := Some new_next\<rparr> in
    let_ok (ok_or (u32_try_from next_index) (Err Merkle_MerkleTreeFull)) (\<lambda>idx_0.
    let_ok (ok_or (nat_checked_add 64 next_index 1) (Err Merkle_Overflow)) (\<lambda>second.
    let_ok (ok_or (u32_try_from second) (Err Merkle_MerkleTreeFull)) (\<lambda>idx_1.
    Inr ((idx_0, idx_1), s3)))))))))))))))"

text \<open>
  The \<open>loop\<close> of \<open>is_known_root\<close>: \<open>None\<close> would be a run that never returns, which the host ends with
  its budget.
\<close>

partial_function (option) known_root_loop ::
  "(nat \<rightharpoonup> u256) \<Rightarrow> u256 \<Rightarrow> nat \<Rightarrow> nat \<Rightarrow> (merkle_error, bool) outcome option" where
  "known_root_loop roots root current i =
    (if roots i = Some root then Some (Inr True)
     else
       (case nat_checked_add 32 i 1 of
          None \<Rightarrow> Some (Inl (Err Merkle_Overflow))
        | Some j \<Rightarrow>
            (if j mod ROOT_HISTORY_SIZE = current then Some (Inr False)
             else known_root_loop roots root current (j mod ROOT_HISTORY_SIZE))))"

definition mh_is_known_root :: "u256 \<Rightarrow> merkle_store \<Rightarrow> (merkle_error, bool) outcome" where
  "mh_is_known_root root s =
    (if root = 0 then Inr False
     else
       let_ok (ok_or (mh_current_root_index s) (Err Merkle_NotInitialized)) (\<lambda>current.
       (case known_root_loop (mh_root s) root current current of
          None \<Rightarrow> Inl Trap
        | Some r \<Rightarrow> r)))"

definition mh_get_last_root :: "merkle_store \<Rightarrow> (merkle_error, u256) outcome" where
  "mh_get_last_root s =
    let_ok (ok_or (mh_current_root_index s) (Err Merkle_NotInitialized)) (\<lambda>current.
    ok_or (mh_root s current) (Err Merkle_NotInitialized))"

definition mh_hash_pair :: "poseidon2_host \<Rightarrow> u256 \<Rightarrow> u256 \<Rightarrow> ('e, u256) outcome" where
  "mh_hash_pair P left right = poseidon2_compress P left right"

text \<open>Storage of a contract that has not been constructed.\<close>

definition empty_merkle_store :: merkle_store where
  "empty_merkle_store =
    \<lparr>mh_levels = None, mh_current_root_index = None, mh_next_index = None,
     mh_filled_subtree = Map.empty, mh_zeroes = Map.empty, mh_root = Map.empty\<rparr>"

text \<open>A sequence of insertions, stopped by the first failure.\<close>

fun mh_insert_pairs ::
  "poseidon2_host \<Rightarrow> (u256 \<times> u256) list \<Rightarrow> merkle_store \<Rightarrow> (merkle_error, merkle_store) outcome" where
  "mh_insert_pairs P [] s = Inr s"
| "mh_insert_pairs P ((a, b) # ps) s =
     let_ok (mh_insert_two_leaves P a b s) (\<lambda>(_, s'). mh_insert_pairs P ps s')"

definition pair_leaves :: "('a \<times> 'a) list \<Rightarrow> 'a list" where
  "pair_leaves ps = concat (map (\<lambda>(a, b). [a, b]) ps)"

section \<open>Abstract specification\<close>

text \<open>
  The abstract state is the list of inserted leaves. Its roots, oldest first, are the roots of its
  prefixes of even length; the tree answers for the latest \<open>ROOT_HISTORY_SIZE\<close> of them.
\<close>

abbreviation pool_root_of :: "poseidon2_host \<Rightarrow> nat \<Rightarrow> u256 list \<Rightarrow> u256" where
  "pool_root_of P \<equiv> merkle_root_of (compress_val P) (get_zeroes ! 0)"

definition root_history :: "poseidon2_host \<Rightarrow> nat \<Rightarrow> u256 list \<Rightarrow> u256 list" where
  "root_history P d leaves =
    map (\<lambda>k. pool_root_of P d (take (2 * k) leaves)) [0..<Suc (length leaves div 2)]"

definition recent_roots :: "'a list \<Rightarrow> 'a list" where
  "recent_roots hist = drop (length hist - ROOT_HISTORY_SIZE) hist"

definition ring_ok :: "u256 list \<Rightarrow> merkle_store \<Rightarrow> bool" where
  "ring_ok hist s \<longleftrightarrow>
    hist \<noteq> [] \<and>
    mh_current_root_index s = Some ((length hist - 1) mod ROOT_HISTORY_SIZE) \<and>
    (\<forall>t < length hist. length hist \<le> t + ROOT_HISTORY_SIZE \<longrightarrow>
       mh_root s (t mod ROOT_HISTORY_SIZE) = Some (hist ! t)) \<and>
    (\<forall>j < ROOT_HISTORY_SIZE. length hist \<le> j \<longrightarrow> mh_root s j = None)"

definition levels_ok :: "nat \<Rightarrow> merkle_store \<Rightarrow> bool" where
  "levels_ok d s \<longleftrightarrow>
    (\<forall>l \<le> d. mh_zeroes s l = Some (get_zeroes ! l)) \<and>
    (\<forall>l \<le> d. \<exists>v. mh_filled_subtree s l = Some v \<and> v < bn256_modulus)"

definition pool_tree_rel :: "poseidon2_host \<Rightarrow> nat \<Rightarrow> u256 list \<Rightarrow> merkle_store \<Rightarrow> bool" where
  "pool_tree_rel P d leaves s \<longleftrightarrow>
    0 < d \<and> d \<le> 32 \<and> mh_levels s = Some d \<and>
    mh_next_index s = Some (length leaves) \<and> even (length leaves) \<and> length leaves \<le> 2 ^ d \<and>
    levels_ok d s \<and>
    filled_ok (compress_val P) (get_zeroes ! 0) 1 d leaves (stored (mh_filled_subtree s)) \<and>
    ring_ok (root_history P d leaves) s"

section \<open>The loop over the levels\<close>

text \<open>Where the storage is complete, the loop is the walk of the specification.\<close>

lemma mh_update_path_climb:
  assumes "host_permutation_ok P" and "cur < bn256_modulus" and "list_all (\<lambda>l. l \<le> d) ls"
    and "levels_ok d s" and "\<And>l. l \<le> d \<Longrightarrow> get_zeroes ! l = zero l" and "d \<le> 32"
  shows "\<exists>M. mh_update_path P ls i cur s =
      Inr (fst (climb (compress_val P) zero ls i cur (stored (mh_filled_subtree s))),
           s\<lparr>mh_filled_subtree := M\<rparr>) \<and>
    stored M = snd (climb (compress_val P) zero ls i cur (stored (mh_filled_subtree s))) \<and>
    levels_ok d (s\<lparr>mh_filled_subtree := M\<rparr>)"
  using assms(2-4)
proof (induction ls arbitrary: i cur s)
  case Nil
  then show ?case by (auto intro!: exI [of _ "mh_filled_subtree s"])
next
  case (Cons l ls)
  have l: "l \<le> d" and ls: "list_all (\<lambda>l. l \<le> d) ls" using Cons.prems(2) by simp_all
  from Cons.prems(3) l obtain v where v: "mh_filled_subtree s l = Some v" "v < bn256_modulus"
    and z: "mh_zeroes s l = Some (zero l)" using assms(5) by (auto simp: levels_ok_def)
  have zl: "zero l < bn256_modulus"
    using get_zeroes_nth_canonical [of l] assms(5,6) l by simp
  show ?case
  proof (cases "odd i")
    case True
    then have i: "i mod 2 = 1" by presburger
    note hash = poseidon2_compress_ok [OF assms(1) v(2) Cons.prems(1)]
    have "mh_update_path P (l # ls) i cur s =
        mh_update_path P ls (i div 2) (compress_val P v cur) s"
      using v(1) i by (simp add: hash)
    with Cons.IH [OF compress_val_canonical ls Cons.prems(3), of "i div 2" P v cur] True v(1)
    show ?thesis by (simp add: stored_def [of _ l])
  next
    case False
    then have i: "i mod 2 \<noteq> 1" by presburger
    define s' where "s' = s\<lparr>mh_filled_subtree := (mh_filled_subtree s)(l \<mapsto> cur)\<rparr>"
    have ok: "levels_ok d s'"
      using Cons.prems(1,3) by (auto simp: levels_ok_def s'_def)
    note hash = poseidon2_compress_ok [OF assms(1) Cons.prems(1) zl]
    have "mh_update_path P (l # ls) i cur s =
        mh_update_path P ls (i div 2) (compress_val P cur (zero l)) s'"
      using z i by (simp add: s'_def Let_def hash)
    moreover have "stored (mh_filled_subtree s') = (stored (mh_filled_subtree s))(l := cur)"
      and "s'\<lparr>mh_filled_subtree := M\<rparr> = s\<lparr>mh_filled_subtree := M\<rparr>" for M
      by (simp_all add: s'_def)
    ultimately show ?thesis
      using Cons.IH [OF compress_val_canonical ls ok, of "i div 2" P cur "zero l"] False
      by (simp only: climb.simps if_False)
  qed
qed

section \<open>Root history\<close>

lemma length_root_history [simp]: "length (root_history P d leaves) = Suc (length leaves div 2)"
  by (simp add: root_history_def del: upt_Suc)

lemma root_history_append_pair:
  assumes "even (length leaves)"
  shows "root_history P d (leaves @ [a, b]) =
    root_history P d leaves @ [pool_root_of P d (leaves @ [a, b])]"
proof -
  have dbl: "2 * (length leaves div 2) = length leaves" using assms by simp
  have "map (\<lambda>k. pool_root_of P d (take (2 * k) (leaves @ [a, b]))) [0..<Suc (length leaves div 2)] =
      map (\<lambda>k. pool_root_of P d (take (2 * k) leaves)) [0..<Suc (length leaves div 2)]"
    by (rule map_cong) (use dbl in \<open>auto simp: less_Suc_eq_le\<close>)
  moreover have "take (2 * Suc (length leaves div 2)) (leaves @ [a, b]) = leaves @ [a, b]"
    using dbl by simp
  ultimately show ?thesis
    by (simp add: root_history_def upt_Suc_append del: upt_Suc)
qed

lemma last_root_history:
  "even (length leaves) \<Longrightarrow> last (root_history P d leaves) = pool_root_of P d leaves"
  by (simp add: root_history_def)

text \<open>The scan of the ring buffer ends and sees every slot once.\<close>

lemma known_root_loop_from:
  assumes "c < ROOT_HISTORY_SIZE" and "k < ROOT_HISTORY_SIZE"
  shows "known_root_loop roots root c ((c + k) mod ROOT_HISTORY_SIZE) =
    Some (Inr (\<exists>j \<in> {k..<ROOT_HISTORY_SIZE}. roots ((c + j) mod ROOT_HISTORY_SIZE) = Some root))"
  using assms(2)
proof (induction "ROOT_HISTORY_SIZE - k" arbitrary: k)
  case 0
  then show ?case by simp
next
  case (Suc e)
  let ?i = "(c + k) mod ROOT_HISTORY_SIZE"
  have small: "?i + 1 < 2 ^ 32" by (simp add: ROOT_HISTORY_SIZE_def)
  have nxt: "(?i + 1) mod ROOT_HISTORY_SIZE = (c + Suc k) mod ROOT_HISTORY_SIZE"
    by (simp add: mod_Suc_eq)
  have split: "{k..<ROOT_HISTORY_SIZE} = insert k {Suc k..<ROOT_HISTORY_SIZE}"
    using Suc.prems by auto
  have wrap: "(c + Suc k) mod ROOT_HISTORY_SIZE = c \<longleftrightarrow> Suc k = ROOT_HISTORY_SIZE"
    using assms(1) Suc.prems by (auto simp: ROOT_HISTORY_SIZE_def mod_if)
  show ?case
  proof (cases "Suc k = ROOT_HISTORY_SIZE")
    case True
    then have "{Suc k..<ROOT_HISTORY_SIZE} = {}" by simp
    with True small nxt wrap show ?thesis
      unfolding split by (subst known_root_loop.simps) (simp add: nat_checked_add_def)
  next
    case False
    with Suc have "known_root_loop roots root c ((c + Suc k) mod ROOT_HISTORY_SIZE) =
      Some (Inr (\<exists>j \<in> {Suc k..<ROOT_HISTORY_SIZE}. roots ((c + j) mod ROOT_HISTORY_SIZE) = Some root))"
      by (intro Suc.hyps) auto
    with False small nxt wrap show ?thesis
      unfolding split by (subst known_root_loop.simps) (simp add: nat_checked_add_def)
  qed
qed


lemma recent_roots_iff:
  "r \<in> set (recent_roots hist) \<longleftrightarrow>
    (\<exists>t < length hist. length hist \<le> t + ROOT_HISTORY_SIZE \<and> hist ! t = r)"
proof
  assume "r \<in> set (recent_roots hist)"
  then obtain i where i: "i < length hist - (length hist - ROOT_HISTORY_SIZE)"
    and r: "hist ! (length hist - ROOT_HISTORY_SIZE + i) = r"
    by (auto simp: recent_roots_def in_set_conv_nth)
  then show "\<exists>t < length hist. length hist \<le> t + ROOT_HISTORY_SIZE \<and> hist ! t = r"
    by (intro exI [of _ "length hist - ROOT_HISTORY_SIZE + i"]) auto
next
  assume "\<exists>t < length hist. length hist \<le> t + ROOT_HISTORY_SIZE \<and> hist ! t = r"
  then obtain t where t: "t < length hist" "length hist \<le> t + ROOT_HISTORY_SIZE" "hist ! t = r"
    by blast
  then show "r \<in> set (recent_roots hist)"
    unfolding recent_roots_def in_set_conv_nth
    by (intro exI [of _ "t - (length hist - ROOT_HISTORY_SIZE)"]) auto
qed

text \<open>The slots of the ring hold exactly the recent roots.\<close>

lemma ring_slot_window:
  assumes "j < ROOT_HISTORY_SIZE" and "j < n"
  shows "\<exists>t < n. n \<le> t + ROOT_HISTORY_SIZE \<and> t mod ROOT_HISTORY_SIZE = j"
proof -
  let ?t = "j + ROOT_HISTORY_SIZE * ((n - 1 - j) div ROOT_HISTORY_SIZE)"
  have "ROOT_HISTORY_SIZE * ((n - 1 - j) div ROOT_HISTORY_SIZE) \<le> n - 1 - j"
    by (rule times_div_less_eq_dividend)
  then have "j + ROOT_HISTORY_SIZE * ((n - 1 - j) div ROOT_HISTORY_SIZE) < n"
    using assms(2) by linarith
  moreover have "n - 1 - j < ROOT_HISTORY_SIZE * ((n - 1 - j) div ROOT_HISTORY_SIZE) + ROOT_HISTORY_SIZE"
    using dividend_less_times_div [of ROOT_HISTORY_SIZE "n - 1 - j"]
    by (simp add: ROOT_HISTORY_SIZE_def)
  ultimately show ?thesis
    using assms by (intro exI [of _ ?t]) auto
qed

lemma ring_slots:
  assumes "ring_ok hist s"
  shows "(\<exists>j < ROOT_HISTORY_SIZE. mh_root s j = Some r) \<longleftrightarrow> r \<in> set (recent_roots hist)"
proof
  assume "\<exists>j < ROOT_HISTORY_SIZE. mh_root s j = Some r"
  then obtain j where j: "j < ROOT_HISTORY_SIZE" "mh_root s j = Some r" by blast
  then have "j < length hist" using assms by (force simp: ring_ok_def not_le)
  with j obtain t where t: "t < length hist" "length hist \<le> t + ROOT_HISTORY_SIZE"
    "t mod ROOT_HISTORY_SIZE = j" using ring_slot_window by blast
  moreover from this assms have "mh_root s j = Some (hist ! t)" by (auto simp: ring_ok_def)
  ultimately show "r \<in> set (recent_roots hist)" using j(2) by (auto simp: recent_roots_iff)
next
  assume "r \<in> set (recent_roots hist)"
  then obtain t where t: "t < length hist" "length hist \<le> t + ROOT_HISTORY_SIZE" "hist ! t = r"
    by (auto simp: recent_roots_iff)
  then have "mh_root s (t mod ROOT_HISTORY_SIZE) = Some r" using assms by (auto simp: ring_ok_def)
  then show "\<exists>j < ROOT_HISTORY_SIZE. mh_root s j = Some r"
    by (intro exI [of _ "t mod ROOT_HISTORY_SIZE"]) (simp add: ROOT_HISTORY_SIZE_def)
qed

lemma all_slots_scanned:
  assumes "c < ROOT_HISTORY_SIZE"
  shows "(\<exists>j \<in> {0..<ROOT_HISTORY_SIZE}. Q ((c + j) mod ROOT_HISTORY_SIZE)) \<longleftrightarrow>
    (\<exists>j < ROOT_HISTORY_SIZE. Q j)"
proof
  assume "\<exists>j \<in> {0..<ROOT_HISTORY_SIZE}. Q ((c + j) mod ROOT_HISTORY_SIZE)"
  moreover have "x mod ROOT_HISTORY_SIZE < ROOT_HISTORY_SIZE" for x
    by (simp add: ROOT_HISTORY_SIZE_def)
  ultimately show "\<exists>j < ROOT_HISTORY_SIZE. Q j" by blast
next
  assume "\<exists>j < ROOT_HISTORY_SIZE. Q j"
  then obtain j where j: "j < ROOT_HISTORY_SIZE" "Q j" by blast
  let ?k = "(j + ROOT_HISTORY_SIZE - c) mod ROOT_HISTORY_SIZE"
  have "(c + ?k) mod ROOT_HISTORY_SIZE = j"
    using assms j(1) by (simp add: mod_add_right_eq ROOT_HISTORY_SIZE_def)
  moreover have "?k < ROOT_HISTORY_SIZE" by (simp add: ROOT_HISTORY_SIZE_def)
  ultimately show "\<exists>j \<in> {0..<ROOT_HISTORY_SIZE}. Q ((c + j) mod ROOT_HISTORY_SIZE)"
    using j(2) by (intro bexI [of _ ?k]) auto
qed

lemma known_root_ring:
  assumes "ring_ok hist s"
  shows "mh_is_known_root r s = Inr (r \<noteq> 0 \<and> r \<in> set (recent_roots hist))"
proof (cases "r = 0")
  case True
  then show ?thesis by (simp add: mh_is_known_root_def)
next
  case False
  obtain c where c: "mh_current_root_index s = Some c" "c < ROOT_HISTORY_SIZE"
    using assms by (auto simp: ring_ok_def ROOT_HISTORY_SIZE_def)
  have "known_root_loop (mh_root s) r c c =
      Some (Inr (\<exists>j < ROOT_HISTORY_SIZE. mh_root s j = Some r))"
    using known_root_loop_from [OF c(2), of 0] c(2)
      all_slots_scanned [OF c(2), of "\<lambda>j. mh_root s j = Some r"]
    by (simp del: atLeast0LessThan)
  with False c(1) ring_slots [OF assms] show ?thesis by (simp add: mh_is_known_root_def)
qed

text \<open>Writing the next slot appends to the history.\<close>

lemma ring_ok_push:
  assumes "ring_ok hist s"
  shows "ring_ok (hist @ [r])
    (s\<lparr>mh_root := (mh_root s)(length hist mod ROOT_HISTORY_SIZE \<mapsto> r),
       mh_current_root_index := Some (length hist mod ROOT_HISTORY_SIZE)\<rparr>)"
proof -
  let ?n = "length hist"
  have old: "mh_root s (t mod ROOT_HISTORY_SIZE) = Some (hist ! t) \<and>
      t mod ROOT_HISTORY_SIZE \<noteq> ?n mod ROOT_HISTORY_SIZE"
    if "t < ?n" "Suc ?n \<le> t + ROOT_HISTORY_SIZE" for t
  proof
    show "mh_root s (t mod ROOT_HISTORY_SIZE) = Some (hist ! t)"
      using assms that by (simp add: ring_ok_def)
    have "t mod ROOT_HISTORY_SIZE = ?n mod ROOT_HISTORY_SIZE \<Longrightarrow> ROOT_HISTORY_SIZE dvd ?n - t"
      using that(1) mod_eq_dvd_iff_nat [of t ?n ROOT_HISTORY_SIZE] by simp
    then show "t mod ROOT_HISTORY_SIZE \<noteq> ?n mod ROOT_HISTORY_SIZE"
      using that dvd_imp_le [of ROOT_HISTORY_SIZE "?n - t"] by fastforce
  qed
  have "mh_root s j = None \<and> j \<noteq> ?n mod ROOT_HISTORY_SIZE"
    if "j < ROOT_HISTORY_SIZE" "Suc ?n \<le> j" for j
    using assms that by (auto simp: ring_ok_def)
  with old show ?thesis
    by (auto simp: ring_ok_def nth_append less_Suc_eq)
qed

section \<open>Refinement\<close>

lemma mh_init_levels_ok:
  "list_all (\<lambda>i. i < 33) is \<Longrightarrow> mh_init_levels is s =
    Inr (s\<lparr>mh_filled_subtree := (\<lambda>l. if l \<in> set is then Some (get_zeroes ! l) else mh_filled_subtree s l),
           mh_zeroes := (\<lambda>l. if l \<in> set is then Some (get_zeroes ! l) else mh_zeroes s l)\<rparr>)"
proof (induction "is" arbitrary: s)
  case Nil
  then show ?case by simp
next
  case (Cons i "is")
  then have "mh_init_levels (i # is) s = mh_init_levels is
      (s\<lparr>mh_filled_subtree := (mh_filled_subtree s)(i \<mapsto> get_zeroes ! i),
         mh_zeroes := (mh_zeroes s)(i \<mapsto> get_zeroes ! i)\<rparr>)" by simp
  with Cons show ?case by (auto simp: fun_eq_iff intro!: arg_cong2 [of _ _ _ _ "\<lambda>f g. s\<lparr>mh_filled_subtree := f, mh_zeroes := g\<rparr>"])
qed

lemma mh_init_rel:
  assumes "zero_table_ok P" and "0 < levels" and "levels \<le> 32"
  shows "\<exists>s. mh_init levels empty_merkle_store = Inr s \<and> pool_tree_rel P levels [] s"
proof -
  have all: "list_all (\<lambda>i. i < 33) [0..<Suc levels]" using assms(3) by (simp add: list_all_iff)
  define s where "s = empty_merkle_store\<lparr>mh_levels := Some levels,
      mh_filled_subtree := (\<lambda>l. if l \<in> set [0..<Suc levels] then Some (get_zeroes ! l) else None),
      mh_zeroes := (\<lambda>l. if l \<in> set [0..<Suc levels] then Some (get_zeroes ! l) else None),
      mh_root := [0 \<mapsto> get_zeroes ! levels], mh_current_root_index := Some 0,
      mh_next_index := Some 0\<rparr>"
  have "mh_init levels empty_merkle_store = Inr s"
    unfolding mh_init_def mh_init_levels_ok [OF all] using assms(2,3)
    by (simp add: empty_merkle_store_def s_def fun_eq_iff del: upt_Suc)
  moreover have "root_history P levels [] = [get_zeroes ! levels]"
    using zero_table_chain [OF assms(1,3)] by (simp add: root_history_def)
  then have "pool_tree_rel P levels [] s"
    using assms(2,3) get_zeroes_nth_canonical
    by (auto simp: pool_tree_rel_def s_def levels_ok_def filled_ok_def ring_ok_def
        empty_merkle_store_def ROOT_HISTORY_SIZE_def)
  ultimately show ?thesis by blast
qed

lemma pow2_le_u64: "d \<le> 32 \<Longrightarrow> u64_checked_shl 1 d = Some (2 ^ d)"
proof -
  assume "d \<le> 32"
  then have "(2::nat) ^ d \<le> 2 ^ 32" by (intro power_increasing) auto
  then have "(2::nat) ^ d < 2 ^ 64" by simp
  with \<open>d \<le> 32\<close> show ?thesis by (simp add: u64_checked_shl_def)
qed

text \<open>The checks that precede the hashing, on a well-formed tree.\<close>

lemma mh_insert_guards:
  assumes "pool_tree_rel P d leaves s" and "length leaves + 2 \<le> 2 ^ d"
  shows "length leaves + 2 < 2 ^ 64" "length leaves + 1 < 2 ^ 32"
    "mh_current_root_index s = Some (length leaves div 2 mod ROOT_HISTORY_SIZE)"
proof -
  have "(2::nat) ^ d \<le> 2 ^ 32" using assms(1) by (intro power_increasing) (auto simp: pool_tree_rel_def)
  with assms(2) show "length leaves + 1 < 2 ^ 32" "length leaves + 2 < 2 ^ 64" by simp_all
  show "mh_current_root_index s = Some (length leaves div 2 mod ROOT_HISTORY_SIZE)"
    using assms(1) by (simp add: pool_tree_rel_def ring_ok_def)
qed

lemma mh_insert_two_leaves_rel:
  assumes host: "host_permutation_ok P" "zero_table_ok P" and rel: "pool_tree_rel P d leaves s"
    and room: "length leaves + 2 \<le> 2 ^ d" and canon: "a < bn256_modulus" "b < bn256_modulus"
  shows "\<exists>s'. mh_insert_two_leaves P a b s = Inr ((length leaves, length leaves + 1), s') \<and>
    pool_tree_rel P d (leaves @ [a, b]) s'"
proof -
  let ?H = "compress_val P" and ?z = "get_zeroes ! 0"
  let ?zero = "zero_chain ?H ?z" and ?n = "length leaves"
  let ?F = "stored (mh_filled_subtree s)"
  have d: "0 < d" "d \<le> 32" and store: "mh_levels s = Some d" "mh_next_index s = Some ?n"
    and ev: "even ?n" and lv: "levels_ok d s" and fill: "filled_ok ?H ?z 1 d leaves ?F"
    and ring: "ring_ok (root_history P d leaves) s"
    using rel by (simp_all add: pool_tree_rel_def)
  note guards = mh_insert_guards [OF rel room]
  have cur: "?H a b = merkle_node ?H ?z (leaves @ [a, b]) 1 (?n div 2)"
    using ev by (simp add: nth_append)
  have blk: "2 ^ 1 dvd ?n" "length [a, b] = 2 ^ 1" "1 \<le> d" using ev d by auto
  have zs: "get_zeroes ! l = ?zero l" if "l \<le> d" for l
    by (rule zero_table_chain [OF host(2)]) (use that d(2) in simp)
  have lvls: "list_all (\<lambda>l. l \<le> d) [1..<d]" by (simp add: list_all_iff)
  obtain M where path: "mh_update_path P [1..<d] (?n div 2) (?H a b) s =
      Inr (fst (climb ?H ?zero [1..<d] (?n div 2) (?H a b) ?F), s\<lparr>mh_filled_subtree := M\<rparr>)"
    and M: "stored M = snd (climb ?H ?zero [1..<d] (?n div 2) (?H a b) ?F)"
    and lv': "levels_ok d (s\<lparr>mh_filled_subtree := M\<rparr>)"
    using mh_update_path_climb [OF host(1) compress_val_canonical lvls lv zs d(2)] by blast
  have root: "fst (climb ?H ?zero [1..<d] (?n div 2) (?H a b) ?F) = pool_root_of P d (leaves @ [a, b])"
    using chain.climb_root [OF blk, of ?H ?z ?F "?H a b"] room fill cur by simp
  have fill': "filled_ok ?H ?z 1 d (leaves @ [a, b]) (stored M)"
    using chain.climb_filled [OF blk, of ?H ?z ?F "?H a b"] fill cur M by simp
  define i where "i = Suc (?n div 2) mod ROOT_HISTORY_SIZE"
  have bump: "(?n div 2 mod ROOT_HISTORY_SIZE + 1) mod ROOT_HISTORY_SIZE = i"
    "nat_checked_add 32 (?n div 2 mod ROOT_HISTORY_SIZE) 1 =
      Some (?n div 2 mod ROOT_HISTORY_SIZE + 1)"
    by (simp_all add: i_def mod_Suc_eq nat_checked_add_def ROOT_HISTORY_SIZE_def)
  define s1 where "s1 = s\<lparr>mh_filled_subtree := M\<rparr>"
  define s' where "s' = s1\<lparr>mh_root := (mh_root s1)(i \<mapsto> pool_root_of P d (leaves @ [a, b])),
      mh_current_root_index := Some i, mh_next_index := Some (?n + 2)\<rparr>"
  note hash = poseidon2_compress_ok [OF host(1) canon]
  have ins: "mh_insert_two_leaves P a b s = Inr ((?n, ?n + 1), s')"
    using store ev guards room path root bump
    by (simp add: mh_insert_two_leaves_def hash pow2_le_u64 [OF d(2), simplified] nat_checked_add_def
        u32_try_from_def s'_def s1_def Let_def even_iff_mod_2_eq_zero)
  have "ring_ok (root_history P d leaves) s1" using ring by (simp add: ring_ok_def s1_def)
  from ring_ok_push [OF this] have "ring_ok (root_history P d (leaves @ [a, b])) s'"
    by (simp add: root_history_append_pair [OF ev] i_def s'_def ring_ok_def)
  then have "pool_tree_rel P d (leaves @ [a, b]) s'"
    using d store ev room lv' fill' by (simp add: pool_tree_rel_def s'_def s1_def levels_ok_def)
  with ins show ?thesis by blast
qed


text \<open>A full tree refuses the pair and keeps its state.\<close>

lemma mh_insert_two_leaves_full:
  assumes "pool_tree_rel P d leaves s" and "2 ^ d < length leaves + 2"
  shows "mh_insert_two_leaves P a b s = Inl (Err Merkle_MerkleTreeFull)"
proof -
  have d: "d \<le> 32" and store: "mh_levels s = Some d" "mh_next_index s = Some (length leaves)"
    and ev: "length leaves mod 2 = 0" and le: "length leaves \<le> 2 ^ d"
    using assms(1) by (auto simp: pool_tree_rel_def)
  obtain c where c: "mh_current_root_index s = Some c"
    using assms(1) by (auto simp: pool_tree_rel_def ring_ok_def)
  have "(2::nat) ^ d \<le> 2 ^ 32" using d by (intro power_increasing) auto
  with le have "length leaves + 2 < 2 ^ 64" by simp
  with store ev c assms(2) show ?thesis
    by (simp add: mh_insert_two_leaves_def pow2_le_u64 [OF d, simplified] nat_checked_add_def)
qed

text \<open>A leaf outside the field traps: no root is computed from it.\<close>

lemma mh_insert_two_leaves_noncanonical:
  assumes "mh_insert_two_leaves P a b s = Inr r"
  shows "a < bn256_modulus \<and> b < bn256_modulus"
proof (rule ccontr)
  assume "\<not> (a < bn256_modulus \<and> b < bn256_modulus)"
  note trap = poseidon2_compress_trap [OF this]
  from assms show False by (auto simp: mh_insert_two_leaves_def outcome_simps trap)
qed

lemma mh_get_last_root_rel:
  assumes "pool_tree_rel P d leaves s"
  shows "mh_get_last_root s = Inr (pool_root_of P d leaves)"
proof -
  have ev: "even (length leaves)" and ring: "ring_ok (root_history P d leaves) s"
    using assms by (simp_all add: pool_tree_rel_def)
  have "root_history P d leaves ! (length leaves div 2) = pool_root_of P d leaves"
    using last_root_history [OF ev, of P d] by (simp add: last_conv_nth root_history_def del: upt_Suc)
  with ring show ?thesis
    by (auto simp: ring_ok_def mh_get_last_root_def ROOT_HISTORY_SIZE_def)
qed

section \<open>Runs\<close>

lemma pair_leaves_simps [simp]:
  "pair_leaves [] = []"
  "pair_leaves ((a, b) # ps) = a # b # pair_leaves ps"
  "length (pair_leaves ps) = 2 * length ps"
  by (induction ps) (auto simp: pair_leaves_def)

lemma mh_insert_pairs_rel:
  assumes "host_permutation_ok P" and "zero_table_ok P"
  shows "pool_tree_rel P d leaves s \<Longrightarrow> length leaves + 2 * length ps \<le> 2 ^ d \<Longrightarrow>
    list_all (\<lambda>(a, b). a < bn256_modulus \<and> b < bn256_modulus) ps \<Longrightarrow>
    \<exists>s'. mh_insert_pairs P ps s = Inr s' \<and> pool_tree_rel P d (leaves @ pair_leaves ps) s'"
proof (induction ps arbitrary: leaves s)
  case Nil
  then show ?case by simp
next
  case (Cons ab ps)
  obtain a b where ab: "ab = (a, b)" by force
  obtain s1 where "mh_insert_two_leaves P a b s = Inr ((length leaves, length leaves + 1), s1)"
    and "pool_tree_rel P d (leaves @ [a, b]) s1"
    using mh_insert_two_leaves_rel [OF assms Cons.prems(1), of a b] Cons.prems(2,3) ab by auto
  with Cons.IH [of "leaves @ [a, b]" s1] Cons.prems(2,3) ab show ?case by auto
qed

lemma mh_run_rel:
  assumes "host_permutation_ok P" and "zero_table_ok P" and "0 < levels" and "levels \<le> 32"
    and "2 * length ps \<le> 2 ^ levels"
    and "list_all (\<lambda>(a, b). a < bn256_modulus \<and> b < bn256_modulus) ps"
  shows "\<exists>s. let_ok (mh_init levels empty_merkle_store) (mh_insert_pairs P ps) = Inr s \<and>
    pool_tree_rel P levels (pair_leaves ps) s"
proof -
  obtain s0 where "mh_init levels empty_merkle_store = Inr s0" "pool_tree_rel P levels [] s0"
    using mh_init_rel [OF assms(2-4)] by blast
  with mh_insert_pairs_rel [OF assms(1,2), of levels "[]" s0 ps] assms(5,6) show ?thesis by simp
qed

section \<open>Properties\<close>

text \<open>
  C1: From initialisation with 1 to 32 levels, any sequence of pairs of field elements that fits the
  tree is inserted without an error or a trap, and the root the contract then reports is the Merkle
  root of all inserted leaves padded with the zero leaf. The incremental update with one stored
  sibling per level implements the Merkle tree.
\<close>

theorem pool_tree_root:
  assumes "host_permutation_ok P" and "zero_table_ok P" and "0 < levels" and "levels \<le> 32"
    and "2 * length ps \<le> 2 ^ levels"
    and "list_all (\<lambda>(a, b). a < bn256_modulus \<and> b < bn256_modulus) ps"
  shows "\<exists>s. let_ok (mh_init levels empty_merkle_store) (mh_insert_pairs P ps) = Inr s \<and>
    mh_next_index s = Some (2 * length ps) \<and>
    mh_get_last_root s =
      Inr (merkle_root_of (compress_val P) (get_zeroes ! 0) levels (pair_leaves ps))"
  using mh_run_rel [OF assms] mh_get_last_root_rel by (fastforce simp: pool_tree_rel_def)

lemma pool_tree_root_witness:
  "\<exists>s. let_ok (mh_init 2 empty_merkle_store) (mh_insert_pairs sample_host [(5, 6), (7, 8)]) = Inr s \<and>
    mh_next_index s = Some (2 * length [(5::u256, 6::u256), (7, 8)]) \<and>
    mh_get_last_root s =
      Inr (merkle_root_of (compress_val sample_host) (get_zeroes ! 0) 2 (pair_leaves [(5, 6), (7, 8)]))"
  by (rule pool_tree_root [OF sample_host_ok sample_host_zero_table])
    (simp_all add: bn256_modulus_eq u256_eval)

text \<open>
  C2: After such a run \<open>is_known_root\<close> terminates and answers exactly whether the root is nonzero and
  among the latest 90 roots of the tree: the ring buffer loses no recent root, keeps no expired one,
  and its scan never runs forever.
\<close>

theorem known_root_window:
  assumes "host_permutation_ok P" and "zero_table_ok P" and "0 < levels" and "levels \<le> 32"
    and "2 * length ps \<le> 2 ^ levels"
    and "list_all (\<lambda>(a, b). a < bn256_modulus \<and> b < bn256_modulus) ps"
  shows "\<exists>s. let_ok (mh_init levels empty_merkle_store) (mh_insert_pairs P ps) = Inr s \<and>
    (\<forall>r. mh_is_known_root r s =
      Inr (r \<noteq> 0 \<and> r \<in> set (recent_roots (root_history P levels (pair_leaves ps)))))"
  using mh_run_rel [OF assms] known_root_ring by (auto simp: pool_tree_rel_def)

lemma known_root_window_witness:
  "\<exists>s. let_ok (mh_init 1 empty_merkle_store) (mh_insert_pairs sample_host [(5, 6)]) = Inr s \<and>
    (\<forall>r. mh_is_known_root r s =
      Inr (r \<noteq> 0 \<and> r \<in> set (recent_roots (root_history sample_host 1 (pair_leaves [(5, 6)])))))"
  by (rule known_root_window [OF sample_host_ok sample_host_zero_table])
    (simp_all add: bn256_modulus_eq u256_eval)

text \<open>
  A tree that holds \<open>2 ^ levels\<close> leaves refuses a further pair with \<open>MerkleTreeFull\<close>, whatever the
  pair, before any hash is computed.
\<close>

theorem pool_tree_full:
  assumes "host_permutation_ok P" and "zero_table_ok P" and "0 < levels" and "levels \<le> 32"
    and "2 * length ps = 2 ^ levels"
    and "list_all (\<lambda>(a, b). a < bn256_modulus \<and> b < bn256_modulus) ps"
  shows "let_ok (mh_init levels empty_merkle_store) (mh_insert_pairs P (ps @ [(a, b)])) =
    Inl (Err Merkle_MerkleTreeFull)"
proof -
  have app: "mh_insert_pairs P (ps @ qs) s = let_ok (mh_insert_pairs P ps s) (mh_insert_pairs P qs)"
    for qs s by (induction P ps s rule: mh_insert_pairs.induct) (auto simp: let_ok_def split: sum.splits)
  obtain s where s: "let_ok (mh_init levels empty_merkle_store) (mh_insert_pairs P ps) = Inr s"
    and rel: "pool_tree_rel P levels (pair_leaves ps) s"
    using mh_run_rel [OF assms(1-4) _ assms(6)] assms(5) by auto
  have "mh_insert_two_leaves P a b s = Inl (Err Merkle_MerkleTreeFull)"
    by (rule mh_insert_two_leaves_full [OF rel]) (simp add: assms(5))
  with s show ?thesis by (auto simp: app let_ok_Inr_iff)
qed

lemma pool_tree_full_witness:
  "let_ok (mh_init 1 empty_merkle_store) (mh_insert_pairs sample_host ([(5, 6)] @ [(7, 8)])) =
    Inl (Err Merkle_MerkleTreeFull)"
  by (rule pool_tree_full [OF sample_host_ok sample_host_zero_table])
    (simp_all add: bn256_modulus_eq u256_eval)

end
