(* ===== verification/Groth16.thy ===== *)
theory Groth16
  imports Soroban_Utils
begin

text \<open>
  Groth16 on chain: the shared types (\<open>contracts/types/src/lib.rs\<close>), the verifier contract
  (\<open>contracts/circom-groth16-verifier/src/lib.rs\<close>) and the encodings of curve points and verification
  keys (\<open>contracts/soroban-utils/src/utils.rs\<close>). The curve operations and the pairing check are host
  functions of Soroban and the embedded key is a generated file: both are parameters.
\<close>

section \<open>Definitions\<close>

datatype groth16_error = InvalidProof | MalformedPublicInputs | MalformedProof

record verification_key_bytes =
  vkb_alpha :: bytes
  vkb_beta :: bytes
  vkb_gamma :: bytes
  vkb_delta :: bytes
  vkb_ic :: "bytes list"

text \<open>A point of the SDK is the byte string that it was made from.\<close>

record groth16_proof =
  proof_a :: bytes
  proof_b :: bytes
  proof_c :: bytes

definition groth16_proof_is_empty :: "groth16_proof \<Rightarrow> bool" where
  "groth16_proof_is_empty p \<longleftrightarrow> proof_a p = [] \<or> proof_b p = [] \<or> proof_c p = []"

definition FIELD_ELEMENT_SIZE :: nat where
  "FIELD_ELEMENT_SIZE = 32"

definition G1_SIZE :: nat where
  "G1_SIZE = FIELD_ELEMENT_SIZE * 2"

definition G2_SIZE :: nat where
  "G2_SIZE = FIELD_ELEMENT_SIZE * 4"

definition PROOF_SIZE :: nat where
  "PROOF_SIZE = G1_SIZE + G2_SIZE + G1_SIZE"

text \<open>\<open>try_into\<close> from \<open>Bytes\<close> to \<open>BytesN<n>\<close> checks the length.\<close>

definition bytes_n :: "nat \<Rightarrow> bytes \<Rightarrow> bytes option" where
  "bytes_n n bs = (if length bs = n then Some bs else None)"

definition slice_bytes :: "bytes \<Rightarrow> nat \<Rightarrow> nat \<Rightarrow> bytes" where
  "slice_bytes bs i j = take (j - i) (drop i bs)"

definition groth16_proof_try_from :: "bytes \<Rightarrow> groth16_error + groth16_proof" where
  "groth16_proof_try_from value =
    (if length value \<noteq> PROOF_SIZE then Inl MalformedProof
     else
       let_ok (ok_or (bytes_n 64 (slice_bytes value 0 G1_SIZE)) MalformedProof) (\<lambda>a.
       let_ok (ok_or (bytes_n 128 (slice_bytes value G1_SIZE (G1_SIZE + G2_SIZE))) MalformedProof) (\<lambda>b.
       let_ok (ok_or (bytes_n 64 (slice_bytes value (G1_SIZE + G2_SIZE) (length value))) MalformedProof)
         (\<lambda>c. Inr \<lparr>proof_a = a, proof_b = b, proof_c = c\<rparr>))))"

text \<open>
  The host: addition, scalar multiplication and negation of G1 points, and the pairing check. \<open>None\<close> is
  a trap, for instance on bytes that are not a point of the curve.
\<close>

record bn254_host =
  host_g1_add :: "bytes \<Rightarrow> bytes \<Rightarrow> bytes option"
  host_g1_mul :: "bytes \<Rightarrow> bytes \<Rightarrow> bytes option"
  host_g1_neg :: "bytes \<Rightarrow> bytes option"
  host_pairing_check :: "bytes list \<Rightarrow> bytes list \<Rightarrow> bool option"

record verification_key =
  vk_alpha :: bytes
  vk_beta :: bytes
  vk_gamma :: bytes
  vk_delta :: bytes
  vk_ic :: "bytes list"

text \<open>The constants \<open>VK_ALPHA_G1\<close>, ..., \<open>VK_IC\<close> of the generated file are the argument.\<close>

definition embedded_vk :: "verification_key_bytes \<Rightarrow> verification_key" where
  "embedded_vk consts =
    \<lparr>vk_alpha = vkb_alpha consts, vk_beta = vkb_beta consts, vk_gamma = vkb_gamma consts,
     vk_delta = vkb_delta consts, vk_ic = map (\<lambda>b. b) (vkb_ic consts)\<rparr>"

text \<open>The loop over the public inputs: \<open>vk_x\<close> accumulates \<open>ic[0] + \<Sum> s\<^sub>i \<cdot> ic[i + 1]\<close>.\<close>

fun vk_x_loop ::
  "bn254_host \<Rightarrow> verification_key \<Rightarrow> bytes list \<Rightarrow> nat list \<Rightarrow> bytes \<Rightarrow> (groth16_error, bytes) outcome" where
  "vk_x_loop bn vk pub_inputs [] vk_x = Inr vk_x"
| "vk_x_loop bn vk pub_inputs (i # is) vk_x =
     let_ok (ok_or (vec_get pub_inputs i) (Err MalformedPublicInputs)) (\<lambda>s.
     let_ok (ok_or (nat_checked_add 32 i 1) (Err MalformedPublicInputs)) (\<lambda>ic_idx.
     let_ok (ok_or (vec_get (vk_ic vk) ic_idx) (Err MalformedPublicInputs)) (\<lambda>v.
     let_ok (or_trap (host_g1_mul bn v s)) (\<lambda>prod.
     let_ok (or_trap (host_g1_add bn vk_x prod)) (\<lambda>acc.
     vk_x_loop bn vk pub_inputs is acc)))))"

definition verify_with_vk ::
  "bn254_host \<Rightarrow> verification_key \<Rightarrow> groth16_proof \<Rightarrow> bytes list \<Rightarrow> (groth16_error, bool) outcome" where
  "verify_with_vk bn vk proof pub_inputs =
    (if nat_checked_add 32 (length pub_inputs) 1 \<noteq> Some (length (vk_ic vk))
     then Inl (Err MalformedPublicInputs)
     else
       let_ok (ok_or (vec_get (vk_ic vk) 0) (Err MalformedPublicInputs)) (\<lambda>ic_0.
       let_ok (vk_x_loop bn vk pub_inputs [0..<length pub_inputs] ic_0) (\<lambda>vk_x.
       let_ok (or_trap (host_g1_neg bn (proof_a proof))) (\<lambda>neg_a.
       let g1_points = [neg_a, vk_alpha vk, vk_x, proof_c proof];
           g2_points = [proof_b proof, vk_beta vk, vk_gamma vk, vk_delta vk] in
       let_ok (or_trap (host_pairing_check bn g1_points g2_points)) (\<lambda>ok.
       if ok then Inr True else Inl (Err InvalidProof))))))"

definition verifier_verify ::
  "bn254_host \<Rightarrow> verification_key_bytes \<Rightarrow> groth16_proof \<Rightarrow> bytes list \<Rightarrow> (groth16_error, bool) outcome" where
  "verifier_verify bn consts proof public_inputs =
    verify_with_vk bn (embedded_vk consts) proof public_inputs"

text \<open>
  Affine points of the arkworks library: coordinates in the base field, which has 254 bits; the
  coordinates of a G2 point are pairs \<open>(c0, c1)\<close>.
\<close>

record ark_g1 =
  g1_x :: u256
  g1_y :: u256

record ark_g2 =
  g2_x :: "u256 \<times> u256"
  g2_y :: "u256 \<times> u256"

record ark_vk =
  ark_alpha_g1 :: ark_g1
  ark_beta_g2 :: ark_g2
  ark_gamma_g2 :: ark_g2
  ark_delta_g2 :: ark_g2
  ark_gamma_abc_g1 :: "ark_g1 list"

definition g1_bytes_from_ark :: "ark_g1 \<Rightarrow> bytes" where
  "g1_bytes_from_ark p = u256_to_be_bytes (g1_x p) @ u256_to_be_bytes (g1_y p)"

definition g2_bytes_from_ark :: "ark_g2 \<Rightarrow> bytes" where
  "g2_bytes_from_ark p =
    (let x0 = u256_to_be_bytes (fst (g2_x p)); x1 = u256_to_be_bytes (snd (g2_x p));
         y0 = u256_to_be_bytes (fst (g2_y p)); y1 = u256_to_be_bytes (snd (g2_y p)) in
     x1 @ x0 @ y1 @ y0)"

definition vk_bytes_from_ark :: "ark_vk \<Rightarrow> verification_key_bytes" where
  "vk_bytes_from_ark vk =
    \<lparr>vkb_alpha = g1_bytes_from_ark (ark_alpha_g1 vk),
     vkb_beta = g2_bytes_from_ark (ark_beta_g2 vk),
     vkb_gamma = g2_bytes_from_ark (ark_gamma_g2 vk),
     vkb_delta = g2_bytes_from_ark (ark_delta_g2 vk),
     vkb_ic = map g1_bytes_from_ark (ark_gamma_abc_g1 vk)\<rparr>"

section \<open>What the verifier relies on\<close>

text \<open>
  The host computes in a group: \<open>g1\<close> and \<open>g2\<close> read the bytes of a point, \<open>fr\<close> those of a scalar, and
  \<open>pair\<close> is the pairing, written additively and linear in its first argument.
\<close>

definition multiple :: "nat \<Rightarrow> 'a::ab_group_add \<Rightarrow> 'a" where
  "multiple n p = ((+) p ^^ n) 0"

definition bn254_host_ok ::
  "bn254_host \<Rightarrow> (bytes \<Rightarrow> 'a::ab_group_add option) \<Rightarrow> (bytes \<Rightarrow> 'b option) \<Rightarrow> (bytes \<Rightarrow> nat)
    \<Rightarrow> ('a \<Rightarrow> 'b \<Rightarrow> 'c::ab_group_add) \<Rightarrow> bool" where
  "bn254_host_ok bn g1 g2 fr pair \<longleftrightarrow>
    (\<forall>P Q p q. g1 P = Some p \<longrightarrow> g1 Q = Some q \<longrightarrow>
       (\<exists>R. host_g1_add bn P Q = Some R \<and> g1 R = Some (p + q))) \<and>
    (\<forall>P p s. g1 P = Some p \<longrightarrow>
       (\<exists>R. host_g1_mul bn P s = Some R \<and> g1 R = Some (multiple (fr s) p))) \<and>
    (\<forall>P p. g1 P = Some p \<longrightarrow> (\<exists>R. host_g1_neg bn P = Some R \<and> g1 R = Some (- p))) \<and>
    (\<forall>Ps Qs ps qs. map g1 Ps = map Some ps \<longrightarrow> map g2 Qs = map Some qs \<longrightarrow> length ps = length qs \<longrightarrow>
       host_pairing_check bn Ps Qs = Some (sum_list (map2 pair ps qs) = 0)) \<and>
    (\<forall>p p' q. pair (p + p') q = pair p q + pair p' q)"

section \<open>Lemmas\<close>

lemma pairing_uminus:
  fixes pair :: "'a::ab_group_add \<Rightarrow> 'b \<Rightarrow> 'c::ab_group_add"
  assumes add: "\<And>p p'. pair (p + p') q = pair p q + pair p' q"
  shows "pair (- p) q = - pair p q"
proof -
  have "pair 0 q = 0" using add [of 0 0] by simp
  then have "pair (- p) q + pair p q = 0" using add [of "- p" p] by simp
  then show ?thesis by (simp add: eq_neg_iff_add_eq_0)
qed

text \<open>The loop computes the linear combination of the key's points with the inputs.\<close>

lemma vk_x_loop_sum:
  assumes host: "bn254_host_ok bn g1 g2 fr pair"
    and ic: "map g1 (vk_ic vk) = map Some ics" and len: "length ics = Suc (length inputs)"
    and small: "length ics < 2 ^ 32"
  shows "list_all (\<lambda>i. i < length inputs) is \<Longrightarrow> g1 acc = Some a \<Longrightarrow>
    \<exists>R. vk_x_loop bn vk inputs is acc = Inr R \<and>
      g1 R = Some (a + (\<Sum>i\<leftarrow>is. multiple (fr (inputs ! i)) (ics ! Suc i)))"
proof (induction "is" arbitrary: acc a)
  case Nil
  then show ?case by simp
next
  case (Cons i "is")
  then have i: "i < length inputs" by simp
  have l: "length (vk_ic vk) = length ics" using arg_cong [OF ic, of length] by simp
  have v: "g1 (vk_ic vk ! Suc i) = Some (ics ! Suc i)"
    using arg_cong [OF ic, of "\<lambda>xs. xs ! Suc i"] i l len by simp
  obtain p where p: "host_g1_mul bn (vk_ic vk ! Suc i) (inputs ! i) = Some p"
    "g1 p = Some (multiple (fr (inputs ! i)) (ics ! Suc i))"
    using host v unfolding bn254_host_ok_def by blast
  obtain q where q: "host_g1_add bn acc p = Some q"
    "g1 q = Some (a + multiple (fr (inputs ! i)) (ics ! Suc i))"
    using host Cons.prems(2) p(2) unfolding bn254_host_ok_def by blast
  have "vk_x_loop bn vk inputs (i # is) acc = vk_x_loop bn vk inputs is q"
    using i l len small p(1) q(1) by (simp add: nat_checked_add_def)
  with Cons.IH [OF _ q(2)] Cons.prems(1) show ?case by (simp add: add.assoc)
qed

lemma take_take_drop: "xs = take m xs @ take n (drop m xs) @ drop (m + n) xs"
  by (metis add.commute append_take_drop_id drop_drop)

section \<open>Properties\<close>

text \<open>
  C10: The verifier decides the Groth16 equation. On points of the curve, with one more key point than
  inputs, it returns \<open>Ok(true)\<close> exactly if \<open>e(A, B) = e(\<alpha>, \<beta>) + e(ic\<^sub>0 + \<Sum> s\<^sub>i \<cdot> ic\<^sub>i\<^sub>+\<^sub>1, \<gamma>) + e(C, \<delta>)\<close> and the error
  \<open>InvalidProof\<close> otherwise; it never traps there and never returns \<open>Ok(false)\<close>.
\<close>

theorem verifier_groth16_equation:
  assumes host: "bn254_host_ok bn g1 g2 fr pair"
    and ic: "map g1 (vkb_ic vk) = map Some ics" and len: "length ics = Suc (length inputs)"
    and small: "length ics < 2 ^ 32"
    and points: "g1 (proof_a proof) = Some a" "g2 (proof_b proof) = Some b" "g1 (proof_c proof) = Some c"
      "g1 (vkb_alpha vk) = Some \<alpha>" "g2 (vkb_beta vk) = Some \<beta>" "g2 (vkb_gamma vk) = Some \<gamma>"
      "g2 (vkb_delta vk) = Some \<delta>"
  shows "verifier_verify bn vk proof inputs =
    (if pair a b = pair \<alpha> \<beta> +
        pair (ics ! 0 + (\<Sum>i\<leftarrow>[0..<length inputs]. multiple (fr (inputs ! i)) (ics ! Suc i))) \<gamma> +
        pair c \<delta>
     then Inr True else Inl (Err InvalidProof))"
proof -
  let ?vk = "embedded_vk vk"
  have ic': "map g1 (vk_ic ?vk) = map Some ics" using ic by (simp add: embedded_vk_def)
  have l: "length (vk_ic ?vk) = length ics" using arg_cong [OF ic', of length] by simp
  have ic0: "g1 (vk_ic ?vk ! 0) = Some (ics ! 0)"
    using arg_cong [OF ic', of "\<lambda>xs. xs ! 0"] l len by simp
  let ?sum = "ics ! 0 + (\<Sum>i\<leftarrow>[0..<length inputs]. multiple (fr (inputs ! i)) (ics ! Suc i))"
  obtain X where X: "vk_x_loop bn ?vk inputs [0..<length inputs] (vk_ic ?vk ! 0) = Inr X"
    "g1 X = Some ?sum"
    using vk_x_loop_sum [OF host ic' len small _ ic0, of "[0..<length inputs]"]
    by (auto simp: list_all_iff)
  obtain N where N: "host_g1_neg bn (proof_a proof) = Some N" "g1 N = Some (- a)"
    using host points(1) unfolding bn254_host_ok_def by blast
  have lin: "pair (p + p') q = pair p q + pair p' q" for p p' q
    using host unfolding bn254_host_ok_def by blast
  have pairing: "map g1 Ps = map Some ps \<Longrightarrow> map g2 Qs = map Some qs \<Longrightarrow> length ps = length qs \<Longrightarrow>
      host_pairing_check bn Ps Qs = Some (sum_list (map2 pair ps qs) = 0)" for Ps Qs ps qs
    using host unfolding bn254_host_ok_def by blast
  have check: "host_pairing_check bn [N, vkb_alpha vk, X, proof_c proof]
      [proof_b proof, vkb_beta vk, vkb_gamma vk, vkb_delta vk] =
      Some (sum_list (map2 pair [- a, \<alpha>, ?sum, c] [b, \<beta>, \<gamma>, \<delta>]) = 0)"
  proof -
    have "map g1 [N, vkb_alpha vk, X, proof_c proof] = map Some [- a, \<alpha>, ?sum, c]"
      "map g2 [proof_b proof, vkb_beta vk, vkb_gamma vk, vkb_delta vk] = map Some [b, \<beta>, \<gamma>, \<delta>]"
      using N(2) X(2) points by simp_all
    from pairing [OF this] show ?thesis by simp
  qed
  have eq: "sum_list (map2 pair [- a, \<alpha>, ?sum, c] [b, \<beta>, \<gamma>, \<delta>]) = 0 \<longleftrightarrow>
      pair a b = pair \<alpha> \<beta> + pair ?sum \<gamma> + pair c \<delta>"
    using pairing_uminus [of pair b a, OF lin] by (auto simp: algebra_simps)
  have guard: "nat_checked_add 32 (length inputs) 1 = Some (length (vk_ic ?vk))" "0 < length (vk_ic ?vk)"
    using l len small by (simp_all add: nat_checked_add_def)
  show ?thesis
    using guard X(1) N(1) check eq
    by (simp add: verifier_verify_def verify_with_vk_def Let_def embedded_vk_def)
qed

text \<open>A host over the words of 256 bits, with the product as pairing.\<close>

definition word_point :: "bytes \<Rightarrow> u256 option" where
  "word_point bs = Some (u256_from_be_bytes bs)"

definition word_host :: bn254_host where
  "word_host =
    \<lparr>host_g1_add = (\<lambda>P Q. Some (u256_to_be_bytes (u256_from_be_bytes P + u256_from_be_bytes Q))),
     host_g1_mul = (\<lambda>P s. Some (u256_to_be_bytes (of_nat (nat_of_be_bytes s) * u256_from_be_bytes P))),
     host_g1_neg = (\<lambda>P. Some (u256_to_be_bytes (- u256_from_be_bytes P))),
     host_pairing_check = (\<lambda>Ps Qs.
       Some (sum_list (map2 (*) (map u256_from_be_bytes Ps) (map u256_from_be_bytes Qs)) = 0))\<rparr>"

lemma multiple_word: "multiple n (p::u256) = of_nat n * p"
proof -
  have "((+) p ^^ n) 0 = of_nat n * p" by (induction n) (simp_all add: algebra_simps)
  then show ?thesis by (simp add: multiple_def)
qed

lemma word_host_ok: "bn254_host_ok word_host word_point word_point nat_of_be_bytes (*)"
  unfolding bn254_host_ok_def
proof (intro conjI allI impI)
  fix Ps Qs :: "bytes list" and ps qs :: "u256 list"
  assume "map word_point Ps = map Some ps" "map word_point Qs = map Some qs"
  then have "map Some (map u256_from_be_bytes Ps) = map Some ps"
    "map Some (map u256_from_be_bytes Qs) = map Some qs" by (simp_all add: word_point_def [abs_def] comp_def)
  then have "map u256_from_be_bytes Ps = ps" "map u256_from_be_bytes Qs = qs"
    by (metis inj_Some inj_map_eq_map)+
  then show "host_pairing_check word_host Ps Qs = Some (sum_list (map2 (*) ps qs) = 0)"
    by (simp add: word_host_def)
qed (auto simp: word_host_def word_point_def multiple_word algebra_simps)

lemma verifier_groth16_equation_witness:
  "verifier_verify word_host \<lparr>vkb_alpha = [2], vkb_beta = [3], vkb_gamma = [1], vkb_delta = [1],
      vkb_ic = [[4], [5]]\<rparr> \<lparr>proof_a = [27], proof_b = [1], proof_c = [2]\<rparr> [[3]] = Inr True"
  using verifier_groth16_equation [OF word_host_ok, of
      "\<lparr>vkb_alpha = [2], vkb_beta = [3], vkb_gamma = [1], vkb_delta = [1], vkb_ic = [[4], [5]]\<rparr>"
      "[4, 5]" "[[3]]" "\<lparr>proof_a = [27], proof_b = [1], proof_c = [2]\<rparr>" 27 1 2 2 3 1 1]
  by (simp add: word_point_def u256_from_be_bytes_def nat_of_be_bytes_def multiple_word)

text \<open>
  A verifier called with a number of inputs other than one less than the points of its key answers
  \<open>MalformedPublicInputs\<close>, before any curve operation, whatever the host does.
\<close>

theorem verifier_input_count:
  "Suc (length inputs) \<noteq> length (vkb_ic vk) \<Longrightarrow>
    verifier_verify bn vk proof inputs = Inl (Err MalformedPublicInputs)"
  by (auto simp: verifier_verify_def verify_with_vk_def embedded_vk_def nat_checked_add_def)

lemma verifier_input_count_witness:
  "verifier_verify word_host \<lparr>vkb_alpha = [2], vkb_beta = [3], vkb_gamma = [1], vkb_delta = [1],
      vkb_ic = [[4]]\<rparr> \<lparr>proof_a = [27], proof_b = [1], proof_c = [2]\<rparr> [[3]] =
    Inl (Err MalformedPublicInputs)"
  by (rule verifier_input_count) simp

text \<open>
  The byte form of a proof is the concatenation \<open>A || B || C\<close>: \<open>try_from\<close> accepts exactly the strings
  of 256 bytes and cuts them so that the three parts have the sizes of their points and join to the
  input; every other length is \<open>MalformedProof\<close>.
\<close>

theorem groth16_proof_try_from_iff:
  "groth16_proof_try_from value = Inr p \<longleftrightarrow>
    length (proof_a p) = 64 \<and> length (proof_b p) = 128 \<and> length (proof_c p) = 64 \<and>
    value = proof_a p @ proof_b p @ proof_c p"
proof
  assume "groth16_proof_try_from value = Inr p"
  then show "length (proof_a p) = 64 \<and> length (proof_b p) = 128 \<and> length (proof_c p) = 64 \<and>
      value = proof_a p @ proof_b p @ proof_c p"
    using take_take_drop [of "value" 64 128]
    by (auto simp: groth16_proof_try_from_def outcome_simps bytes_n_def slice_bytes_def G1_SIZE_def
        G2_SIZE_def PROOF_SIZE_def FIELD_ELEMENT_SIZE_def split: if_splits)
next
  assume "length (proof_a p) = 64 \<and> length (proof_b p) = 128 \<and> length (proof_c p) = 64 \<and>
      value = proof_a p @ proof_b p @ proof_c p"
  then show "groth16_proof_try_from value = Inr p"
    by (auto simp: groth16_proof_try_from_def bytes_n_def slice_bytes_def G1_SIZE_def
        G2_SIZE_def PROOF_SIZE_def FIELD_ELEMENT_SIZE_def)
qed

text \<open>
  The byte form of a verification key determines the key: point encodings are injective and have
  the lengths of the contract's types, with the imaginary part of a G2 coordinate first.
\<close>

theorem vk_bytes_from_ark_inj:
  "(vk_bytes_from_ark vk = vk_bytes_from_ark vk' \<longleftrightarrow> vk = vk') \<and>
   length (g1_bytes_from_ark p) = G1_SIZE \<and> length (g2_bytes_from_ark q) = G2_SIZE \<and>
   slice_bytes (g2_bytes_from_ark q) 0 32 = u256_to_be_bytes (snd (g2_x q))"
proof -
  have u: "u256_to_be_bytes a = u256_to_be_bytes b \<longleftrightarrow> a = b" for a b
    by (metis u256_from_to_be_bytes)
  have g1: "g1_bytes_from_ark p = g1_bytes_from_ark p' \<longleftrightarrow> p = p'" for p p'
    by (cases p; cases p') (simp add: g1_bytes_from_ark_def u)
  have g2: "g2_bytes_from_ark q = g2_bytes_from_ark q' \<longleftrightarrow> q = q'" for q q'
    by (cases q; cases q') (auto simp: g2_bytes_from_ark_def u Let_def prod_eq_iff)
  have "map g1_bytes_from_ark ps = map g1_bytes_from_ark qs \<longleftrightarrow> ps = qs" for ps qs
    by (rule inj_map_eq_map) (simp add: inj_def g1)
  then have "vk_bytes_from_ark vk = vk_bytes_from_ark vk' \<longleftrightarrow> vk = vk'"
    by (cases vk; cases vk') (simp add: vk_bytes_from_ark_def g1 g2)
  then show ?thesis
    by (simp add: g1_bytes_from_ark_def g2_bytes_from_ark_def Let_def G1_SIZE_def G2_SIZE_def
        FIELD_ELEMENT_SIZE_def slice_bytes_def)
qed

end
