(* ===== verification/Pool.thy ===== *)
theory Pool
  imports Pool_Merkle Groth16
begin

text \<open>
  The privacy pool contract (\<open>contracts/pool/src/pool.rs\<close>): its storage, every entry point, the events,
  and the token transfers of deposits and withdrawals. The token, the verifier and the two ASP
  contracts are called by address and are parameters, as are the XDR serialisation and Keccak-256.
\<close>

section \<open>Definitions\<close>

datatype pool_error =
    Pool_NotAuthorized
  | Pool_MerkleTreeFull
  | Pool_AlreadyInitialized
  | Pool_WrongLevels
  | Pool_NextIndexNotEven
  | Pool_WrongExtAmount
  | Pool_InvalidProof
  | Pool_UnknownRoot
  | Pool_AlreadySpentNullifier
  | Pool_WrongExtHash
  | Pool_NotInitialized
  | Pool_Overflow
  | Pool_NonCanonicalPublicInput

fun pool_error_of_merkle :: "merkle_error \<Rightarrow> pool_error" where
  "pool_error_of_merkle Merkle_AlreadyInitialized = Pool_AlreadyInitialized"
| "pool_error_of_merkle Merkle_MerkleTreeFull = Pool_MerkleTreeFull"
| "pool_error_of_merkle Merkle_WrongLevels = Pool_WrongLevels"
| "pool_error_of_merkle Merkle_NextIndexNotEven = Pool_NextIndexNotEven"
| "pool_error_of_merkle Merkle_NotInitialized = Pool_NotInitialized"
| "pool_error_of_merkle Merkle_Overflow = Pool_Overflow"

definition from_merkle :: "(merkle_error, 'a) outcome \<Rightarrow> (pool_error, 'a) outcome" where
  "from_merkle = map_err (map_fault pool_error_of_merkle)"

text \<open>The struct \<open>Proof\<close>.\<close>

record pool_proof =
  pp_proof :: groth16_proof
  pp_root :: u256
  pp_input_nullifiers :: "u256 list"
  pp_output_commitment0 :: u256
  pp_output_commitment1 :: u256
  pp_public_amount :: u256
  pp_ext_data_hash :: bytes
  pp_asp_membership_root :: u256
  pp_asp_non_membership_root :: u256

record ext_data =
  ed_recipient :: address
  ed_ext_amount :: i256
  ed_encrypted_output0 :: bytes
  ed_encrypted_output1 :: bytes

text \<open>
  The environment of a call: host functions and the contracts that the pool calls by address. A
  \<open>None\<close> is a trap of the called code, which ends the whole call. The last component is the state of
  the token contracts, of any type; a transfer is \<open>token from to amount\<close>.
\<close>

record 't pool_env =
  env_poseidon :: poseidon2_host
  env_auth :: "address \<Rightarrow> bool"
  env_this :: address
  env_xdr :: "ext_data \<Rightarrow> bytes"
  env_keccak256 :: "bytes \<Rightarrow> bytes"
  env_verify :: "address \<Rightarrow> groth16_proof \<Rightarrow> bytes list \<Rightarrow> bool option"
  env_membership_root :: "address \<Rightarrow> u256 option"
  env_non_membership_root :: "address \<Rightarrow> u256 option"
  env_transfer :: "address \<Rightarrow> address \<Rightarrow> address \<Rightarrow> i128 \<Rightarrow> 't \<Rightarrow> 't option"

text \<open>One field for each variant of \<open>DataKey\<close>, and the storage of the tree.\<close>

record pool_store =
  ps_admin :: "address option"
  ps_token :: "address option"
  ps_verifier :: "address option"
  ps_nullifiers :: "(u256 \<rightharpoonup> bool) option"
  ps_asp_membership :: "address option"
  ps_asp_non_membership :: "address option"
  ps_tree :: merkle_store

datatype pool_event =
    NewCommitmentEvent u256 nat bytes
  | NewNullifierEvent u256

definition empty_pool_store :: pool_store where
  "empty_pool_store =
    \<lparr>ps_admin = None, ps_token = None, ps_verifier = None, ps_nullifiers = None,
     ps_asp_membership = None, ps_asp_non_membership = None, ps_tree = empty_merkle_store\<rparr>"

definition hash_ext_data :: "'t pool_env \<Rightarrow> ext_data \<Rightarrow> bytes" where
  "hash_ext_data e ext =
    (let payload = env_xdr e ext;
         digest = env_keccak256 e payload;
         digest_u256 = u256_from_be_bytes digest;
         reduced = digest_u256 mod bn256_modulus in
     u256_to_be_bytes reduced)"

definition pool_constructor ::
  "address \<Rightarrow> address \<Rightarrow> address \<Rightarrow> address \<Rightarrow> address \<Rightarrow> nat \<Rightarrow> pool_store
    \<Rightarrow> (pool_error, pool_store) outcome" where
  "pool_constructor admin token verifier asp_membership asp_non_membership levels s =
    (let s1 = s\<lparr>ps_admin := Some admin, ps_token := Some token, ps_verifier := Some verifier,
                ps_asp_membership := Some asp_membership,
                ps_asp_non_membership := Some asp_non_membership,
                ps_nullifiers := Some Map.empty\<rparr> in
     let_ok (from_merkle (mh_init levels (ps_tree s1))) (\<lambda>t. Inr (s1\<lparr>ps_tree := t\<rparr>)))"

text \<open>\<open>U256::from_parts\<close>: four limbs of 64 bits, the most significant first.\<close>

definition u256_from_parts :: "nat \<Rightarrow> nat \<Rightarrow> nat \<Rightarrow> nat \<Rightarrow> u256" where
  "u256_from_parts hi_hi hi_lo lo_hi lo_lo =
    of_nat (hi_hi * 2 ^ 192 + hi_lo * 2 ^ 128 + lo_hi * 2 ^ 64 + lo_lo)"

definition max_ext_amount :: u256 where
  "max_ext_amount = u256_from_parts 0x0100000000000000 0 0 0"

text \<open>\<open>I256\<close> in its byte form is the same word; \<open>to_i128\<close> is \<open>None\<close> out of range.\<close>

definition i256_to_i128 :: "i256 \<Rightarrow> i128 option" where
  "i256_to_i128 v = signed_of_int (sint v)"

definition i256_to_i128_nonneg :: "i256 \<Rightarrow> (pool_error, i128) outcome" where
  "i256_to_i128_nonneg v =
    (if sint v < 0 then Inl (Err Pool_WrongExtAmount)
     else ok_or (i256_to_i128 v) (Err Pool_WrongExtAmount))"

definition i256_abs_to_u256 :: "i256 \<Rightarrow> (pool_error, u256) outcome" where
  "i256_abs_to_u256 v =
    (if sint v \<ge> 0 then Inr v else or_trap (signed_checked_sub 0 v))"

definition calculate_public_amount :: "i256 \<Rightarrow> (pool_error, u256) outcome" where
  "calculate_public_amount ext_amount =
    let_ok (i256_abs_to_u256 ext_amount) (\<lambda>abs_ext.
    if abs_ext \<ge> max_ext_amount then Inl (Err Pool_WrongExtAmount)
    else if sint ext_amount \<ge> 0 then Inr ext_amount
    else
      let_ok (or_trap (signed_checked_sub 0 ext_amount)) (\<lambda>neg.
      or_trap (checked_sub bn256_modulus neg)))"

definition get_nullifiers :: "pool_store \<Rightarrow> (pool_error, u256 \<rightharpoonup> bool) outcome" where
  "get_nullifiers s = ok_or (ps_nullifiers s) (Err Pool_NotInitialized)"

definition set_nullifiers :: "(u256 \<rightharpoonup> bool) \<Rightarrow> pool_store \<Rightarrow> pool_store" where
  "set_nullifiers m s = s\<lparr>ps_nullifiers := Some m\<rparr>"

definition get_token :: "pool_store \<Rightarrow> (pool_error, address) outcome" where
  "get_token s = ok_or (ps_token s) (Err Pool_NotInitialized)"

definition get_verifier :: "pool_store \<Rightarrow> (pool_error, address) outcome" where
  "get_verifier s = ok_or (ps_verifier s) (Err Pool_NotInitialized)"

definition get_admin :: "pool_store \<Rightarrow> (pool_error, address) outcome" where
  "get_admin s = ok_or (ps_admin s) (Err Pool_NotInitialized)"

definition get_asp_membership :: "pool_store \<Rightarrow> (pool_error, address) outcome" where
  "get_asp_membership s = ok_or (ps_asp_membership s) (Err Pool_NotInitialized)"

definition get_asp_non_membership :: "pool_store \<Rightarrow> (pool_error, address) outcome" where
  "get_asp_non_membership s = ok_or (ps_asp_non_membership s) (Err Pool_NotInitialized)"

definition is_spent :: "u256 \<Rightarrow> pool_store \<Rightarrow> (pool_error, bool) outcome" where
  "is_spent n s =
    let_ok (get_nullifiers s) (\<lambda>nulls.
    Inr (case nulls n of Some b \<Rightarrow> b | None \<Rightarrow> False))"

definition mark_spent :: "u256 \<Rightarrow> pool_store \<Rightarrow> (pool_error, pool_store) outcome" where
  "mark_spent n s =
    let_ok (get_nullifiers s) (\<lambda>nulls. Inr (set_nullifiers (nulls(n \<mapsto> True)) s))"

definition validate_bn256_public_input :: "u256 \<Rightarrow> u256 \<Rightarrow> (pool_error, unit) outcome" where
  "validate_bn256_public_input v modulus =
    (if v \<ge> modulus then Inl (Err Pool_NonCanonicalPublicInput) else Inr ())"

text \<open>A loop that stops at the first failing check.\<close>

fun for_all_ok :: "('a \<Rightarrow> 'e + unit) \<Rightarrow> 'a list \<Rightarrow> 'e + unit" where
  "for_all_ok f [] = Inr ()"
| "for_all_ok f (x # xs) = let_ok (f x) (\<lambda>_. for_all_ok f xs)"

definition validate_bn256_public_inputs :: "pool_proof \<Rightarrow> u256 \<Rightarrow> (pool_error, unit) outcome" where
  "validate_bn256_public_inputs proof modulus =
    let_ok (validate_bn256_public_input (pp_root proof) modulus) (\<lambda>_.
    let_ok (validate_bn256_public_input (pp_public_amount proof) modulus) (\<lambda>_.
    let_ok (for_all_ok (\<lambda>n. validate_bn256_public_input n modulus) (pp_input_nullifiers proof)) (\<lambda>_.
    let_ok (validate_bn256_public_input (pp_output_commitment0 proof) modulus) (\<lambda>_.
    let_ok (validate_bn256_public_input (pp_output_commitment1 proof) modulus) (\<lambda>_.
    let_ok (validate_bn256_public_input (pp_asp_membership_root proof) modulus) (\<lambda>_.
    validate_bn256_public_input (pp_asp_non_membership_root proof) modulus))))))"

definition pool_public_inputs :: "pool_proof \<Rightarrow> bytes list" where
  "pool_public_inputs proof =
    [u256_to_be_bytes (pp_root proof), u256_to_be_bytes (pp_public_amount proof),
     pp_ext_data_hash proof] @
    map u256_to_be_bytes (pp_input_nullifiers proof) @
    [u256_to_be_bytes (pp_output_commitment0 proof), u256_to_be_bytes (pp_output_commitment1 proof)] @
    map (\<lambda>_. u256_to_be_bytes (pp_asp_membership_root proof)) [0..<length (pp_input_nullifiers proof)] @
    map (\<lambda>_. u256_to_be_bytes (pp_asp_non_membership_root proof))
      [0..<length (pp_input_nullifiers proof)]"

definition pool_verify_proof :: "'t pool_env \<Rightarrow> pool_proof \<Rightarrow> pool_store \<Rightarrow> (pool_error, bool) outcome" where
  "pool_verify_proof e proof s =
    (if groth16_proof_is_empty (pp_proof proof) then Inl (Err Pool_InvalidProof)
     else
       let_ok (get_verifier s) (\<lambda>verifier.
       let_ok (validate_bn256_public_inputs proof bn256_modulus) (\<lambda>_.
       or_trap (env_verify e verifier (pp_proof proof) (pool_public_inputs proof)))))"

definition get_asp_membership_root :: "'t pool_env \<Rightarrow> pool_store \<Rightarrow> (pool_error, u256) outcome" where
  "get_asp_membership_root e s =
    let_ok (get_asp_membership s) (\<lambda>a. or_trap (env_membership_root e a))"

definition get_asp_non_membership_root :: "'t pool_env \<Rightarrow> pool_store \<Rightarrow> (pool_error, u256) outcome" where
  "get_asp_non_membership_root e s =
    let_ok (get_asp_non_membership s) (\<lambda>a. or_trap (env_non_membership_root e a))"

text \<open>Step 2 of \<open>internal_transact\<close>.\<close>

definition check_unspent :: "pool_store \<Rightarrow> u256 \<Rightarrow> (pool_error, unit) outcome" where
  "check_unspent s n =
    let_ok (is_spent n s) (\<lambda>spent. if spent then Inl (Err Pool_AlreadySpentNullifier) else Inr ())"

text \<open>Step 6: the result of \<open>mark_spent\<close> is dropped, so its error would be ignored.\<close>

fun mark_all_spent :: "u256 list \<Rightarrow> pool_store \<Rightarrow> (pool_error, pool_event list \<times> pool_store) outcome" where
  "mark_all_spent [] s = Inr ([], s)"
| "mark_all_spent (n # ns) s =
     let_ok (case mark_spent n s of
        Inl Trap \<Rightarrow> Inl Trap
      | Inl (Err _) \<Rightarrow> Inr s
      | Inr s' \<Rightarrow> Inr s') (\<lambda>s'.
     let_ok (mark_all_spent ns s') (\<lambda>(evs, s''). Inr (NewNullifierEvent n # evs, s'')))"

text \<open>Step 7.\<close>

definition process_withdrawal ::
  "'t pool_env \<Rightarrow> ext_data \<Rightarrow> pool_store \<Rightarrow> 't \<Rightarrow> (pool_error, 't) outcome" where
  "process_withdrawal e ext s w =
    let_ok (get_token s) (\<lambda>token.
    if sint (ed_ext_amount ext) < 0 then
      let_ok (or_trap (signed_checked_sub 0 (ed_ext_amount ext))) (\<lambda>abs.
      let_ok (i256_to_i128_nonneg abs) (\<lambda>amount.
      or_trap (env_transfer e token (env_this e) (ed_recipient ext) amount w)))
    else Inr w)"

definition internal_transact ::
  "'t pool_env \<Rightarrow> pool_proof \<Rightarrow> ext_data \<Rightarrow> pool_store \<Rightarrow> 't
    \<Rightarrow> (pool_error, pool_event list \<times> pool_store \<times> 't) outcome" where
  "internal_transact e proof ext s w =
    let_ok (from_merkle (mh_is_known_root (pp_root proof) (ps_tree s))) (\<lambda>known.
    let_ok (require known (Err Pool_UnknownRoot)) (\<lambda>_.
    let_ok (for_all_ok (check_unspent s) (pp_input_nullifiers proof)) (\<lambda>_.
    let_ok (require (hash_ext_data e ext = pp_ext_data_hash proof) (Err Pool_WrongExtHash)) (\<lambda>_.
    let_ok (calculate_public_amount (ed_ext_amount ext)) (\<lambda>expected.
    let_ok (require (pp_public_amount proof = expected) (Err Pool_WrongExtAmount)) (\<lambda>_.
    let_ok (get_asp_membership_root e s) (\<lambda>member_root.
    let_ok (get_asp_non_membership_root e s) (\<lambda>non_member_root.
    let_ok (require (\<not> (member_root \<noteq> pp_asp_membership_root proof \<or>
                        non_member_root \<noteq> pp_asp_non_membership_root proof))
              (Err Pool_InvalidProof)) (\<lambda>_.
    let_ok (pool_verify_proof e proof s) (\<lambda>valid.
    let_ok (require valid (Err Pool_InvalidProof)) (\<lambda>_.
    let_ok (mark_all_spent (pp_input_nullifiers proof) s) (\<lambda>(null_events, s1).
    let_ok (process_withdrawal e ext s1 w) (\<lambda>w1.
    let_ok (from_merkle (mh_insert_two_leaves (env_poseidon e) (pp_output_commitment0 proof)
              (pp_output_commitment1 proof) (ps_tree s1))) (\<lambda>((idx_0, idx_1), tree).
    Inr (null_events @
         [NewCommitmentEvent (pp_output_commitment0 proof) idx_0 (ed_encrypted_output0 ext),
          NewCommitmentEvent (pp_output_commitment1 proof) idx_1 (ed_encrypted_output1 ext)],
         s1\<lparr>ps_tree := tree\<rparr>, w1)))))))))))))))"

definition process_deposit ::
  "'t pool_env \<Rightarrow> ext_data \<Rightarrow> address \<Rightarrow> address \<Rightarrow> 't \<Rightarrow> (pool_error, 't) outcome" where
  "process_deposit e ext sender token w =
    (if sint (ed_ext_amount ext) > 0 then
       let_ok (i256_to_i128_nonneg (ed_ext_amount ext)) (\<lambda>amount.
       or_trap (env_transfer e token sender (env_this e) amount w))
     else Inr w)"

definition transact ::
  "'t pool_env \<Rightarrow> pool_proof \<Rightarrow> ext_data \<Rightarrow> address \<Rightarrow> pool_store \<Rightarrow> 't
    \<Rightarrow> (pool_error, pool_event list \<times> pool_store \<times> 't) outcome" where
  "transact e proof ext sender s w =
    let_ok (require (env_auth e sender) Trap) (\<lambda>_.
    let_ok (get_token s) (\<lambda>token.
    let_ok (process_deposit e ext sender token w) (\<lambda>w1.
    internal_transact e proof ext s w1)))"

definition pool_get_root :: "pool_store \<Rightarrow> (pool_error, u256) outcome" where
  "pool_get_root s = from_merkle (mh_get_last_root (ps_tree s))"

definition pool_is_known_root :: "u256 \<Rightarrow> pool_store \<Rightarrow> (pool_error, bool) outcome" where
  "pool_is_known_root root s = from_merkle (mh_is_known_root root (ps_tree s))"

definition pool_update_admin ::
  "'t pool_env \<Rightarrow> address \<Rightarrow> pool_store \<Rightarrow> (pool_error, pool_store) outcome" where
  "pool_update_admin e new_admin s =
    (if ps_admin s = None then Inl (Err Pool_NotInitialized)
     else let_ok (update_admin (env_auth e) (ps_admin s) new_admin) (\<lambda>a. Inr (s\<lparr>ps_admin := a\<rparr>)))"

definition update_asp_membership ::
  "'t pool_env \<Rightarrow> address \<Rightarrow> pool_store \<Rightarrow> (pool_error, pool_store) outcome" where
  "update_asp_membership e new_asp s =
    let_ok (get_admin s) (\<lambda>admin.
    let_ok (require (env_auth e admin) Trap) (\<lambda>_.
    Inr (s\<lparr>ps_asp_membership := Some new_asp\<rparr>)))"

definition update_asp_non_membership ::
  "'t pool_env \<Rightarrow> address \<Rightarrow> pool_store \<Rightarrow> (pool_error, pool_store) outcome" where
  "update_asp_non_membership e new_asp s =
    let_ok (get_admin s) (\<lambda>admin.
    let_ok (require (env_auth e admin) Trap) (\<lambda>_.
    Inr (s\<lparr>ps_asp_non_membership := Some new_asp\<rparr>)))"

section \<open>The public amount\<close>

lemma i256_abs_cases:
  "i256_abs_to_u256 v = (if sint v = - (2 ^ 255) then Inl Trap else Inr (word_of_int \<bar>sint v\<bar>))"
proof (cases "sint v \<ge> 0")
  case True
  then show ?thesis by (simp add: i256_abs_to_u256_def)
next
  case False
  then show ?thesis
    using sint_greater_eq [of v] 
    by (auto simp: i256_abs_to_u256_def signed_checked_sub_def signed_of_int_def in_signed_range_def)
qed

lemma uint_abs:
  fixes v :: i256
  shows "uint (word_of_int \<bar>sint v\<bar> :: u256) = \<bar>sint v\<bar>"
proof -
  have "\<bar>sint v\<bar> \<le> 2 ^ 255" using sint_greater_eq [of v] sint_less [of v] by simp
  then show ?thesis by (simp add: uint_word_of_int)
qed

lemma uint_max_ext_amount: "uint max_ext_amount = 2 ^ 248"
  by (simp add: max_ext_amount_def u256_from_parts_def)

lemma uint_bn256_modulus: "uint bn256_modulus = 21888242871839275222246405745257275088548364400416034343698204186575808495617"
  by (simp add: bn256_modulus_eq)

lemma bn256_modulus_big: "2 * (2::int) ^ 248 < uint bn256_modulus" by (simp add: uint_bn256_modulus)

lemma calculate_public_amount_cases:
  "calculate_public_amount v =
    (if sint v = - (2 ^ 255) then Inl Trap
     else if \<bar>sint v\<bar> \<ge> 2 ^ 248 then Inl (Err Pool_WrongExtAmount)
     else Inr (word_of_int (sint v mod uint bn256_modulus)))"
proof (cases "sint v = - (2 ^ 255) \<or> \<bar>sint v\<bar> \<ge> 2 ^ 248")
  case True
  then show ?thesis
    by (auto simp: calculate_public_amount_def i256_abs_cases word_le_def uint_abs uint_max_ext_amount)
next
  case False
  then have small: "\<bar>sint v\<bar> < 2 ^ 248" and nmin: "sint v \<noteq> - (2 ^ 255)" by auto
  then have abs: "i256_abs_to_u256 v = Inr (word_of_int \<bar>sint v\<bar>)"
    and lt: "\<not> word_of_int \<bar>sint v\<bar> \<ge> max_ext_amount"
    by (simp_all add: i256_abs_cases word_le_def uint_abs uint_max_ext_amount)
  show ?thesis
  proof (cases "sint v \<ge> 0")
    case True
    then have "sint v mod uint bn256_modulus = sint v"
      using small bn256_modulus_big by (intro mod_pos_pos_trivial) auto
    with True abs lt False show ?thesis by (simp add: calculate_public_amount_def)
  next
    case neg: False
    have sub: "signed_checked_sub 0 v = Some (word_of_int (- sint v) :: u256)"
      using neg small by (simp add: signed_checked_sub_def signed_of_int_def in_signed_range_def)
    have u: "uint (word_of_int (- sint v) :: u256) = - sint v" using uint_abs [of v] neg by simp
    have le: "(word_of_int (- sint v) :: u256) \<le> bn256_modulus"
      using u small neg bn256_modulus_big by (simp add: word_le_def)
    have "sint v mod uint bn256_modulus = uint bn256_modulus + sint v"
      using neg small bn256_modulus_big by (subst mod_add_self1 [symmetric], intro mod_pos_pos_trivial) auto
    then have "bn256_modulus - word_of_int (- sint v) = (word_of_int (sint v mod uint bn256_modulus) :: u256)"
      by simp
    with neg abs lt False sub le show ?thesis
      by (simp add: calculate_public_amount_def checked_sub_def)
  qed
qed

lemma public_amount_iff:
  "calculate_public_amount v = Inr x \<longleftrightarrow>
    \<bar>sint v\<bar> < 2 ^ 248 \<and> uint x = sint v mod uint bn256_modulus"
proof -
  have pos: "0 < uint bn256_modulus" using bn256_modulus_big by simp
  have "uint (word_of_int (sint v mod uint bn256_modulus) :: u256) = sint v mod uint bn256_modulus"
  proof -
    have "sint v mod uint bn256_modulus < 2 ^ LENGTH(256)"
      by (rule order.strict_trans [OF pos_mod_bound [OF pos] uint_lt2p])
    then have "sint v mod uint bn256_modulus mod 2 ^ LENGTH(256) = sint v mod uint bn256_modulus"
      using pos by (intro mod_pos_pos_trivial) simp_all
    then show ?thesis by (simp add: uint_word_of_int)
  qed
  then show ?thesis by (auto simp: calculate_public_amount_cases word_uint_eq_iff)
qed

section \<open>Abstract specification\<close>

text \<open>
  The abstract state of a pool of depth \<open>d\<close>: the inserted commitments and the set of spent nullifiers.
\<close>

definition pool_rel :: "poseidon2_host \<Rightarrow> nat \<Rightarrow> u256 list \<Rightarrow> u256 set \<Rightarrow> pool_store \<Rightarrow> bool" where
  "pool_rel P d leaves spent s \<longleftrightarrow>
    ps_admin s \<noteq> None \<and> ps_token s \<noteq> None \<and> ps_verifier s \<noteq> None \<and>
    ps_asp_membership s \<noteq> None \<and> ps_asp_non_membership s \<noteq> None \<and>
    ps_nullifiers s = Some (\<lambda>n. if n \<in> spent then Some True else None) \<and>
    pool_tree_rel P d leaves (ps_tree s)"

definition canonical_inputs :: "pool_proof \<Rightarrow> bool" where
  "canonical_inputs proof \<longleftrightarrow>
    list_all (\<lambda>v. v < bn256_modulus)
      ([pp_root proof, pp_public_amount proof] @ pp_input_nullifiers proof @
       [pp_output_commitment0 proof, pp_output_commitment1 proof,
        pp_asp_membership_root proof, pp_asp_non_membership_root proof])"

text \<open>What a transaction has to satisfy, without reference to the order of the checks.\<close>

definition proof_accepted ::
  "'t pool_env \<Rightarrow> nat \<Rightarrow> u256 list \<Rightarrow> u256 set \<Rightarrow> pool_store \<Rightarrow> pool_proof \<Rightarrow> ext_data \<Rightarrow> bool" where
  "proof_accepted e d leaves spent s proof ext \<longleftrightarrow>
    pp_root proof \<noteq> 0 \<and>
    pp_root proof \<in> set (recent_roots (root_history (env_poseidon e) d leaves)) \<and>
    set (pp_input_nullifiers proof) \<inter> spent = {} \<and>
    pp_ext_data_hash proof = hash_ext_data e ext \<and>
    \<bar>sint (ed_ext_amount ext)\<bar> < 2 ^ 248 \<and>
    uint (pp_public_amount proof) = sint (ed_ext_amount ext) mod uint bn256_modulus \<and>
    env_membership_root e (the (ps_asp_membership s)) = Some (pp_asp_membership_root proof) \<and>
    env_non_membership_root e (the (ps_asp_non_membership s)) = Some (pp_asp_non_membership_root proof) \<and>
    \<not> groth16_proof_is_empty (pp_proof proof) \<and> canonical_inputs proof \<and>
    env_verify e (the (ps_verifier s)) (pp_proof proof) (pool_public_inputs proof) = Some True"

text \<open>The one transfer of a transaction: in for a positive amount, out for a negative one.\<close>

definition token_effect ::
  "'t pool_env \<Rightarrow> address \<Rightarrow> ext_data \<Rightarrow> address \<Rightarrow> 't \<Rightarrow> 't option" where
  "token_effect e token ext sender w =
    (let v = sint (ed_ext_amount ext) in
     if v = 0 then Some w
     else if \<bar>v\<bar> \<ge> 2 ^ 127 then None
     else if v > 0 then env_transfer e token sender (env_this e) (word_of_int v) w
     else env_transfer e token (env_this e) (ed_recipient ext) (word_of_int (- v)) w)"

section \<open>The checks of a transaction\<close>

lemma for_all_ok_iff: "for_all_ok f xs = Inr u \<longleftrightarrow> (\<forall>x \<in> set xs. f x = Inr ())"
  by (induction xs) (auto simp: outcome_simps)

lemma from_merkle_Inr_iff [outcome_simps]: "from_merkle m = Inr x \<longleftrightarrow> m = Inr x"
  by (simp add: from_merkle_def outcome_simps)

lemma from_merkle_simps [simp]:
  "from_merkle (Inr x) = Inr x"
  "from_merkle (Inl f) = Inl (map_fault pool_error_of_merkle f)"
  by (simp_all add: from_merkle_def)

lemma validate_input_iff: "validate_bn256_public_input v m = Inr u \<longleftrightarrow> v < m"
  by (auto simp: validate_bn256_public_input_def not_le)

lemma validate_inputs_iff:
  "validate_bn256_public_inputs proof bn256_modulus = Inr u \<longleftrightarrow> canonical_inputs proof"
  by (auto simp: validate_bn256_public_inputs_def canonical_inputs_def outcome_simps
      validate_input_iff for_all_ok_iff list_all_iff)

lemma check_unspent_iff:
  assumes "pool_rel P d leaves spent s"
  shows "check_unspent s n = Inr u \<longleftrightarrow> n \<notin> spent"
  using assms
  by (auto simp: check_unspent_def is_spent_def get_nullifiers_def pool_rel_def outcome_simps)

lemma check_all_unspent:
  assumes "pool_rel P d leaves spent s"
  shows "for_all_ok (check_unspent s) ns =
    (if set ns \<inter> spent = {} then Inr () else Inl (Err Pool_AlreadySpentNullifier))"
proof (induction ns)
  case Nil
  then show ?case by simp
next
  case (Cons n ns)
  have "check_unspent s n = (if n \<in> spent then Inl (Err Pool_AlreadySpentNullifier) else Inr ())"
    using assms by (auto simp: check_unspent_def is_spent_def get_nullifiers_def pool_rel_def)
  with Cons show ?case by auto
qed

lemma validate_inputs_cases:
  "validate_bn256_public_inputs proof bn256_modulus =
    (if canonical_inputs proof then Inr () else Inl (Err Pool_NonCanonicalPublicInput))"
proof -
  have one: "validate_bn256_public_input v m \<noteq> Inl f" if "f \<noteq> Err Pool_NonCanonicalPublicInput" for v m f
    using that by (auto simp: validate_bn256_public_input_def)
  have all: "for_all_ok (\<lambda>n. validate_bn256_public_input n m) ns \<noteq> Inl f"
    if "f \<noteq> Err Pool_NonCanonicalPublicInput" for ns m f
    by (induction ns) (auto simp: outcome_simps one [OF that])
  have "validate_bn256_public_inputs proof bn256_modulus \<noteq> Inl f"
    if "f \<noteq> Err Pool_NonCanonicalPublicInput" for f
    by (auto simp: validate_bn256_public_inputs_def outcome_simps one [OF that] all [OF that])
  with validate_inputs_iff [of "proof"] show ?thesis
    by (cases "validate_bn256_public_inputs proof bn256_modulus") auto
qed

lemma mark_all_spent_ok:
  "ps_nullifiers s = Some m \<Longrightarrow> mark_all_spent ns s =
    Inr (map NewNullifierEvent ns,
         s\<lparr>ps_nullifiers := Some (\<lambda>n. if n \<in> set ns then Some True else m n)\<rparr>)"
proof (induction ns arbitrary: s m)
  case Nil
  then show ?case by simp
next
  case (Cons n ns)
  have mark: "mark_spent n s = Inr (s\<lparr>ps_nullifiers := Some (m(n \<mapsto> True))\<rparr>)"
    using Cons.prems by (simp add: mark_spent_def get_nullifiers_def set_nullifiers_def)
  show ?case
    using Cons.IH [of "s\<lparr>ps_nullifiers := Some (m(n \<mapsto> True))\<rparr>" "m(n \<mapsto> True)"] Cons.prems mark
    by (auto simp: fun_eq_iff intro!: arg_cong [where f = "\<lambda>f. s\<lparr>ps_nullifiers := Some f\<rparr>"])
qed

lemma i128_nonneg_cases:
  "i256_to_i128_nonneg v =
    (if 0 \<le> sint v \<and> sint v < 2 ^ 127 then Inr (word_of_int (sint v)) else Inl (Err Pool_WrongExtAmount))"
  by (auto simp: i256_to_i128_nonneg_def i256_to_i128_def signed_of_int_def in_signed_range_def)

lemma withdrawal_cases:
  assumes "ps_token s = Some token" and "sint (ed_ext_amount ext) \<noteq> - (2 ^ 255)"
  shows "process_withdrawal e ext s w =
    (if 0 \<le> sint (ed_ext_amount ext) then Inr w
     else if sint (ed_ext_amount ext) \<le> - (2 ^ 127) then Inl (Err Pool_WrongExtAmount)
     else or_trap (env_transfer e token (env_this e) (ed_recipient ext)
            (word_of_int (- sint (ed_ext_amount ext))) w))"
proof (cases "0 \<le> sint (ed_ext_amount ext)")
  case True
  with assms show ?thesis by (simp add: process_withdrawal_def get_token_def)
next
  case False
  then obtain a where a: "signed_checked_sub 0 (ed_ext_amount ext) = Some a"
    using signed_sub_zero_None [of "ed_ext_amount ext"] assms(2) by auto
  then have "sint a = - sint (ed_ext_amount ext)" by (simp add: signed_sub_zero)
  with False assms a show ?thesis
    by (auto simp: process_withdrawal_def get_token_def i128_nonneg_cases)
qed

lemma deposit_cases:
  "process_deposit e ext sender token w =
    (if sint (ed_ext_amount ext) \<le> 0 then Inr w
     else if sint (ed_ext_amount ext) \<ge> 2 ^ 127 then Inl (Err Pool_WrongExtAmount)
     else or_trap (env_transfer e token sender (env_this e) (word_of_int (sint (ed_ext_amount ext))) w))"
  by (auto simp: process_deposit_def i128_nonneg_cases)

text \<open>The checks 1 to 5 of \<open>internal_transact\<close>, together.\<close>

definition transact_checks :: "'t pool_env \<Rightarrow> pool_proof \<Rightarrow> ext_data \<Rightarrow> pool_store \<Rightarrow> bool" where
  "transact_checks e proof ext s \<longleftrightarrow>
    mh_is_known_root (pp_root proof) (ps_tree s) = Inr True \<and>
    (\<forall>n \<in> set (pp_input_nullifiers proof). check_unspent s n = Inr ()) \<and>
    hash_ext_data e ext = pp_ext_data_hash proof \<and>
    calculate_public_amount (ed_ext_amount ext) = Inr (pp_public_amount proof) \<and>
    get_asp_membership_root e s = Inr (pp_asp_membership_root proof) \<and>
    get_asp_non_membership_root e s = Inr (pp_asp_non_membership_root proof) \<and>
    pool_verify_proof e proof s = Inr True"

lemma internal_transact_Inr_iff:
  "internal_transact e proof ext s w = Inr (evs, s', w') \<longleftrightarrow>
    transact_checks e proof ext s \<and>
    (\<exists>null_events s1 i j tree.
      mark_all_spent (pp_input_nullifiers proof) s = Inr (null_events, s1) \<and>
      process_withdrawal e ext s1 w = Inr w' \<and>
      mh_insert_two_leaves (env_poseidon e) (pp_output_commitment0 proof)
        (pp_output_commitment1 proof) (ps_tree s1) = Inr ((i, j), tree) \<and>
      s' = s1\<lparr>ps_tree := tree\<rparr> \<and>
      evs = null_events @
        [NewCommitmentEvent (pp_output_commitment0 proof) i (ed_encrypted_output0 ext),
         NewCommitmentEvent (pp_output_commitment1 proof) j (ed_encrypted_output1 ext)])"
  unfolding internal_transact_def transact_checks_def
  by (simp add: outcome_simps for_all_ok_iff ex_bool_eq split: prod.splits) auto

lemma transact_checks_iff:
  assumes rel: "pool_rel (env_poseidon e) d leaves spent s"
  shows "transact_checks e proof ext s \<longleftrightarrow> proof_accepted e d leaves spent s proof ext"
proof -
  have known: "mh_is_known_root (pp_root proof) (ps_tree s) = Inr True \<longleftrightarrow> pp_root proof \<noteq> 0 \<and>
      pp_root proof \<in> set (recent_roots (root_history (env_poseidon e) d leaves))"
    using rel known_root_ring by (auto simp: pool_rel_def pool_tree_rel_def)
  have unspent: "(\<forall>n \<in> set (pp_input_nullifiers proof). check_unspent s n = Inr ()) \<longleftrightarrow>
      set (pp_input_nullifiers proof) \<inter> spent = {}"
    using check_unspent_iff [OF rel] by auto
  have amount: "calculate_public_amount (ed_ext_amount ext) = Inr (pp_public_amount proof) \<longleftrightarrow>
      \<bar>sint (ed_ext_amount ext)\<bar> < 2 ^ 248 \<and>
      uint (pp_public_amount proof) = sint (ed_ext_amount ext) mod uint bn256_modulus"
    by (rule public_amount_iff)
  have roots: "get_asp_membership_root e s = Inr m \<longleftrightarrow>
      env_membership_root e (the (ps_asp_membership s)) = Some m"
    "get_asp_non_membership_root e s = Inr m \<longleftrightarrow>
      env_non_membership_root e (the (ps_asp_non_membership s)) = Some m" for m
    using rel by (auto simp: pool_rel_def get_asp_membership_root_def get_asp_membership_def
        get_asp_non_membership_root_def get_asp_non_membership_def outcome_simps)
  have verify: "pool_verify_proof e proof s = Inr True \<longleftrightarrow>
      \<not> groth16_proof_is_empty (pp_proof proof) \<and> canonical_inputs proof \<and>
      env_verify e (the (ps_verifier s)) (pp_proof proof) (pool_public_inputs proof) = Some True"
    using rel by (auto simp: pool_verify_proof_def pool_rel_def get_verifier_def outcome_simps
        validate_inputs_iff)
  show ?thesis
    unfolding transact_checks_def proof_accepted_def known unspent amount roots verify by auto
qed

section \<open>Transactions refine the abstract pool\<close>

definition tx_events :: "pool_proof \<Rightarrow> ext_data \<Rightarrow> nat \<Rightarrow> pool_event list" where
  "tx_events proof ext n =
    map NewNullifierEvent (pp_input_nullifiers proof) @
    [NewCommitmentEvent (pp_output_commitment0 proof) n (ed_encrypted_output0 ext),
     NewCommitmentEvent (pp_output_commitment1 proof) (n + 1) (ed_encrypted_output1 ext)]"

text \<open>An accepted proof on a tree with room: only the withdrawal can still fail.\<close>

lemma internal_transact_accepted:
  assumes host: "host_permutation_ok (env_poseidon e)" "zero_table_ok (env_poseidon e)"
    and rel: "pool_rel (env_poseidon e) d leaves spent s"
    and acc: "proof_accepted e d leaves spent s proof ext" and room: "length leaves + 2 \<le> 2 ^ d"
  shows "\<exists>tree m. (\<forall>w evs s' w'. internal_transact e proof ext s w = Inr (evs, s', w') \<longleftrightarrow>
      process_withdrawal e ext s w = Inr w' \<and> evs = tx_events proof ext (length leaves) \<and>
      s' = s\<lparr>ps_nullifiers := Some m, ps_tree := tree\<rparr>) \<and>
    pool_rel (env_poseidon e) d
      (leaves @ [pp_output_commitment0 proof, pp_output_commitment1 proof])
      (spent \<union> set (pp_input_nullifiers proof)) (s\<lparr>ps_nullifiers := Some m, ps_tree := tree\<rparr>)"
proof -
  let ?ns = "pp_input_nullifiers proof"
  let ?old = "\<lambda>n. if n \<in> spent then Some True else None"
  let ?upd = "\<lambda>n. if n \<in> set ?ns then Some True else ?old n"
  let ?s1 = "s\<lparr>ps_nullifiers := Some ?upd\<rparr>"
  have nulls: "ps_nullifiers s = Some ?old" and tree: "pool_tree_rel (env_poseidon e) d leaves (ps_tree s)"
    using rel by (simp_all add: pool_rel_def)
  have mark: "mark_all_spent ?ns s = Inr (map NewNullifierEvent ?ns, ?s1)"
    by (rule mark_all_spent_ok [OF nulls])
  have canon: "pp_output_commitment0 proof < bn256_modulus" "pp_output_commitment1 proof < bn256_modulus"
    using acc by (simp_all add: proof_accepted_def canonical_inputs_def)
  obtain t where t: "mh_insert_two_leaves (env_poseidon e) (pp_output_commitment0 proof)
      (pp_output_commitment1 proof) (ps_tree s) = Inr ((length leaves, length leaves + 1), t)"
    "pool_tree_rel (env_poseidon e) d
      (leaves @ [pp_output_commitment0 proof, pp_output_commitment1 proof]) t"
    using mh_insert_two_leaves_rel [OF host tree room canon] by blast
  have wd: "process_withdrawal e ext ?s1 w = process_withdrawal e ext s w" for w
    by (simp add: process_withdrawal_def get_token_def)
  have checks: "transact_checks e proof ext s" using acc transact_checks_iff [OF rel] by simp
  have run: "internal_transact e proof ext s w = Inr (evs, s', w') \<longleftrightarrow>
      process_withdrawal e ext s w = Inr w' \<and> evs = tx_events proof ext (length leaves) \<and>
      s' = s\<lparr>ps_nullifiers := Some ?upd, ps_tree := t\<rparr>" for w evs s' w'
    using checks mark t(1) wd by (auto simp: internal_transact_Inr_iff tx_events_def)
  have m: "?upd = (\<lambda>n. if n \<in> spent \<union> set ?ns then Some True else None)" by auto
  have "pool_rel (env_poseidon e) d
      (leaves @ [pp_output_commitment0 proof, pp_output_commitment1 proof])
      (spent \<union> set ?ns) (s\<lparr>ps_nullifiers := Some ?upd, ps_tree := t\<rparr>)"
    using rel t(2) unfolding m by (simp add: pool_rel_def)
  with run show ?thesis by blast
qed

lemma internal_transact_InrD:
  assumes rel: "pool_rel (env_poseidon e) d leaves spent s"
    and run: "internal_transact e proof ext s w = Inr r"
  shows "proof_accepted e d leaves spent s proof ext" and "length leaves + 2 \<le> 2 ^ d"
proof -
  obtain evs s' w' where r: "r = (evs, s', w')" by (cases r)
  note iff = run [unfolded r internal_transact_Inr_iff]
  show "proof_accepted e d leaves spent s proof ext"
    using iff transact_checks_iff [OF rel] by simp
  show "length leaves + 2 \<le> 2 ^ d"
  proof (rule ccontr)
    assume "\<not> length leaves + 2 \<le> 2 ^ d"
    then have full: "mh_insert_two_leaves (env_poseidon e) a b (ps_tree s) = Inl (Err Merkle_MerkleTreeFull)" for a b
      using rel mh_insert_two_leaves_full [of "env_poseidon e" d leaves] by (simp add: pool_rel_def)
    have nulls: "ps_nullifiers s = Some (\<lambda>n. if n \<in> spent then Some True else None)"
      using rel by (simp add: pool_rel_def)
    show False using iff full by (auto simp: mark_all_spent_ok [OF nulls])
  qed
qed

text \<open>Deposit and withdrawal together are the one transfer of the specification.\<close>

lemma token_effect_split:
  assumes token: "ps_token s = Some token" and amount: "\<bar>sint (ed_ext_amount ext)\<bar> < 2 ^ 248"
  shows "(\<exists>w1. process_deposit e ext sender token w = Inr w1 \<and> process_withdrawal e ext s w1 = Inr w') \<longleftrightarrow>
    token_effect e token ext sender w = Some w'"
proof -
  have "sint (ed_ext_amount ext) \<noteq> - (2 ^ 255)" using amount by auto
  note wd = withdrawal_cases [OF token this]
  consider "sint (ed_ext_amount ext) = 0" | "sint (ed_ext_amount ext) > 0" | "sint (ed_ext_amount ext) < 0"
    by linarith
  then show ?thesis
    by cases (auto simp: wd deposit_cases token_effect_def Let_def outcome_simps)
qed

lemma transact_Inr_iff:
  assumes host: "host_permutation_ok (env_poseidon e)" "zero_table_ok (env_poseidon e)"
    and rel: "pool_rel (env_poseidon e) d leaves spent s"
  shows "(\<exists>evs s'. transact e proof ext sender s w = Inr (evs, s', w')) \<longleftrightarrow>
    env_auth e sender \<and> proof_accepted e d leaves spent s proof ext \<and>
    length leaves + 2 \<le> 2 ^ d \<and> token_effect e (the (ps_token s)) ext sender w = Some w'"
  (is "?L \<longleftrightarrow> ?R")
proof -
  obtain token where token: "ps_token s = Some token" using rel by (auto simp: pool_rel_def)
  have amount: "\<bar>sint (ed_ext_amount ext)\<bar> < 2 ^ 248" if "proof_accepted e d leaves spent s proof ext"
    using that by (simp add: proof_accepted_def)
  note unf = transact_def get_token_def token outcome_simps
  show ?thesis
  proof
    assume ?L
    then obtain evs s' w1 where auth: "env_auth e sender"
      and dep: "process_deposit e ext sender token w = Inr w1"
      and run: "internal_transact e proof ext s w1 = Inr (evs, s', w')" by (auto simp: unf)
    note acc = internal_transact_InrD [OF rel run]
    from internal_transact_accepted [OF host rel acc] run
    have "process_withdrawal e ext s w1 = Inr w'" by auto
    with dep have "token_effect e token ext sender w = Some w'"
      by (intro token_effect_split [OF token amount [OF acc(1)], THEN iffD1]) blast
    with auth acc token show ?R by simp
  next
    assume R: ?R
    then obtain w1 where w1: "process_deposit e ext sender token w = Inr w1"
      "process_withdrawal e ext s w1 = Inr w'"
      using token_effect_split [OF token amount] token by (metis option.sel)
    have "\<exists>evs s'. internal_transact e proof ext s w1 = Inr (evs, s', w')"
      using internal_transact_accepted [OF host rel, of "proof" ext] R w1(2) by auto
    with w1 R show ?L by (auto simp: unf)
  qed
qed

lemma transact_rel:
  assumes host: "host_permutation_ok (env_poseidon e)" "zero_table_ok (env_poseidon e)"
    and rel: "pool_rel (env_poseidon e) d leaves spent s"
    and run: "transact e proof ext sender s w = Inr (evs, s', w')"
  shows "pool_rel (env_poseidon e) d
      (leaves @ [pp_output_commitment0 proof, pp_output_commitment1 proof])
      (spent \<union> set (pp_input_nullifiers proof)) s'"
    and "evs = tx_events proof ext (length leaves)"
    and "set (pp_input_nullifiers proof) \<inter> spent = {}"
    and "\<exists>m t. s' = s\<lparr>ps_nullifiers := m, ps_tree := t\<rparr>"
proof -
  obtain w1 where "internal_transact e proof ext s w1 = Inr (evs, s', w')"
    using run by (auto simp: transact_def outcome_simps)
  note acc = internal_transact_InrD [OF rel this] and run1 = this
  from internal_transact_accepted [OF host rel acc] run1
  obtain tree m where "pool_rel (env_poseidon e) d
      (leaves @ [pp_output_commitment0 proof, pp_output_commitment1 proof])
      (spent \<union> set (pp_input_nullifiers proof)) (s\<lparr>ps_nullifiers := Some m, ps_tree := tree\<rparr>)"
    "evs = tx_events proof ext (length leaves)" "s' = s\<lparr>ps_nullifiers := Some m, ps_tree := tree\<rparr>"
    by auto
  then show "pool_rel (env_poseidon e) d
      (leaves @ [pp_output_commitment0 proof, pp_output_commitment1 proof])
      (spent \<union> set (pp_input_nullifiers proof)) s'" "evs = tx_events proof ext (length leaves)"
    "\<exists>m t. s' = s\<lparr>ps_nullifiers := m, ps_tree := t\<rparr>"
    by blast+
  show "set (pp_input_nullifiers proof) \<inter> spent = {}" using acc(1) by (simp add: proof_accepted_def)
qed

section \<open>Runs of the pool\<close>

record pool_tx =
  tx_proof :: pool_proof
  tx_ext :: ext_data

text \<open>
  The states of a pool of depth \<open>d\<close> together with the token contracts, the accepted transactions and
  the published events. Callers and other contracts are arbitrary in every call, and other users may
  change the token contracts arbitrarily between calls.
\<close>

inductive pool_reachable ::
  "poseidon2_host \<Rightarrow> nat \<Rightarrow> pool_tx list \<Rightarrow> pool_event list \<Rightarrow> pool_store \<Rightarrow> 't \<Rightarrow> bool"
  for P :: poseidon2_host and d :: nat
where
  pool_init: "pool_constructor admin token verifier asp_m asp_n d empty_pool_store = Inr s \<Longrightarrow>
    pool_reachable P d [] [] s w"
| pool_tokens: "pool_reachable P d txs log s w \<Longrightarrow> pool_reachable P d txs log s w'"
| pool_transact: "pool_reachable P d txs log s w \<Longrightarrow> env_poseidon e = P \<Longrightarrow>
    transact e proof ext sender s w = Inr (evs, s', w') \<Longrightarrow>
    pool_reachable P d (txs @ [\<lparr>tx_proof = proof, tx_ext = ext\<rparr>]) (log @ evs) s' w'"
| pool_set_admin: "pool_reachable P d txs log s (w :: 't) \<Longrightarrow>
    pool_update_admin (e :: 't pool_env) a s = Inr s' \<Longrightarrow> pool_reachable P d txs log s' w"
| pool_set_membership: "pool_reachable P d txs log s (w :: 't) \<Longrightarrow>
    update_asp_membership (e :: 't pool_env) a s = Inr s' \<Longrightarrow> pool_reachable P d txs log s' w"
| pool_set_non_membership: "pool_reachable P d txs log s (w :: 't) \<Longrightarrow>
    update_asp_non_membership (e :: 't pool_env) a s = Inr s' \<Longrightarrow> pool_reachable P d txs log s' w"

definition tx_commitments :: "pool_tx \<Rightarrow> u256 list" where
  "tx_commitments tx = [pp_output_commitment0 (tx_proof tx), pp_output_commitment1 (tx_proof tx)]"

definition tx_nullifiers :: "pool_tx \<Rightarrow> u256 list" where
  "tx_nullifiers tx = pp_input_nullifiers (tx_proof tx)"

definition txs_commitments :: "pool_tx list \<Rightarrow> u256 list" where
  "txs_commitments txs = concat (map tx_commitments txs)"

definition txs_nullifiers :: "pool_tx list \<Rightarrow> u256 set" where
  "txs_nullifiers txs = (\<Union>tx \<in> set txs. set (tx_nullifiers tx))"

text \<open>The events of a list of transactions; transaction \<open>k\<close> takes the positions \<open>2 k\<close> and \<open>2 k + 1\<close>.\<close>

definition txs_events :: "pool_tx list \<Rightarrow> pool_event list" where
  "txs_events txs =
    concat (map (\<lambda>k. tx_events (tx_proof (txs ! k)) (tx_ext (txs ! k)) (2 * k)) [0..<length txs])"

lemma length_txs_commitments [simp]: "length (txs_commitments txs) = 2 * length txs"
  by (induction txs) (simp_all add: txs_commitments_def tx_commitments_def)

lemma txs_append [simp]:
  "txs_commitments (txs @ [tx]) = txs_commitments txs @ tx_commitments tx"
  "txs_nullifiers (txs @ [tx]) = txs_nullifiers txs \<union> set (tx_nullifiers tx)"
  by (auto simp: txs_commitments_def txs_nullifiers_def)

lemma txs_events_append:
  "txs_events (txs @ [tx]) = txs_events txs @ tx_events (tx_proof tx) (tx_ext tx) (2 * length txs)"
proof -
  have "map (\<lambda>k. tx_events (tx_proof ((txs @ [tx]) ! k)) (tx_ext ((txs @ [tx]) ! k)) (2 * k)) [0..<length txs] =
      map (\<lambda>k. tx_events (tx_proof (txs ! k)) (tx_ext (txs ! k)) (2 * k)) [0..<length txs]"
    by (rule map_cong) (simp_all add: nth_append)
  then show ?thesis by (simp add: txs_events_def del: map_eq_conv)
qed

lemma pool_constructor_rel:
  assumes "zero_table_ok P" and "pool_constructor admin token verifier asp_m asp_n d empty_pool_store = Inr s"
  shows "pool_rel P d [] {} s"
proof -
  obtain t where t: "mh_init d empty_merkle_store = Inr t"
    and s: "s = empty_pool_store\<lparr>ps_admin := Some admin, ps_token := Some token,
      ps_verifier := Some verifier, ps_asp_membership := Some asp_m,
      ps_asp_non_membership := Some asp_n, ps_nullifiers := Some Map.empty, ps_tree := t\<rparr>"
    using assms(2) by (auto simp: pool_constructor_def Let_def outcome_simps empty_pool_store_def)
  from t have "0 < d" "d \<le> 32" by (auto simp: mh_init_def split: if_splits)
  with mh_init_rel [OF assms(1), of d] t have "pool_tree_rel P d [] t" by auto
  then show ?thesis by (simp add: pool_rel_def s)
qed

lemma pool_admin_frame:
  "pool_update_admin e a s = Inr s' \<Longrightarrow> pool_rel P d leaves spent s \<Longrightarrow> pool_rel P d leaves spent s'"
  "update_asp_membership e a s = Inr s' \<Longrightarrow> pool_rel P d leaves spent s \<Longrightarrow> pool_rel P d leaves spent s'"
  "update_asp_non_membership e a s = Inr s' \<Longrightarrow> pool_rel P d leaves spent s \<Longrightarrow> pool_rel P d leaves spent s'"
  by (auto simp: pool_update_admin_def update_asp_membership_def update_asp_non_membership_def
      update_admin_Inr_iff pool_rel_def outcome_simps split: if_splits)

lemma pool_reachable_rel:
  assumes "host_permutation_ok P" and "zero_table_ok P" and "pool_reachable P d txs log s w"
  shows "pool_rel P d (txs_commitments txs) (txs_nullifiers txs) s \<and> log = txs_events txs \<and>
    (\<forall>i j. i < j \<longrightarrow> j < length txs \<longrightarrow>
      set (tx_nullifiers (txs ! i)) \<inter> set (tx_nullifiers (txs ! j)) = {})"
  using assms(3)
proof induction
  case (pool_init admin token verifier asp_m asp_n s w)
  then show ?case
    using pool_constructor_rel [OF assms(2)]
    by (simp add: txs_commitments_def txs_nullifiers_def txs_events_def)
next
  case (pool_transact txs log s w e pr ext sender evs s' w')
  
  have rel: "pool_rel (env_poseidon e) d (txs_commitments txs) (txs_nullifiers txs) s"
    and host: "host_permutation_ok (env_poseidon e)" "zero_table_ok (env_poseidon e)"
    using pool_transact assms(1,2) by simp_all
  note step = transact_rel [OF host rel pool_transact.hyps(3)]
  have "set (tx_nullifiers (txs ! i)) \<inter> set (pp_input_nullifiers pr) = {}" if "i < length txs" for i
    using step(3) nth_mem [OF that] unfolding txs_nullifiers_def by blast
  then show ?case
    using step(1,2) pool_transact.IH pool_transact.hyps(2)
    by (auto simp: txs_events_append tx_commitments_def tx_nullifiers_def nth_append less_Suc_eq)
qed (auto intro: pool_admin_frame)

section \<open>A concrete run\<close>

text \<open>
  A ledger of one token, and an environment in which every contract answers. They show that the
  hypotheses of the theorems hold together on a deposit of 5 by an owner of 10.
\<close>

definition sample_transfer ::
  "address \<Rightarrow> address \<Rightarrow> address \<Rightarrow> i128 \<Rightarrow> (address \<Rightarrow> int) \<Rightarrow> (address \<Rightarrow> int) option" where
  "sample_transfer token from to amount w =
    (if token = ''token'' \<and> 0 \<le> sint amount \<and> sint amount \<le> w from
     then let w1 = w(from := w from - sint amount) in Some (w1(to := w1 to + sint amount))
     else None)"

definition sample_env :: "(address \<Rightarrow> int) pool_env" where
  "sample_env =
    \<lparr>env_poseidon = sample_host, env_auth = (\<lambda>_. True), env_this = ''pool'', env_xdr = (\<lambda>_. []),
     env_keccak256 = (\<lambda>_. u256_to_be_bytes 0), env_verify = (\<lambda>_ _ _. Some True),
     env_membership_root = (\<lambda>_. Some 3), env_non_membership_root = (\<lambda>_. Some 4),
     env_transfer = sample_transfer\<rparr>"

definition sample_ext :: ext_data where
  "sample_ext = \<lparr>ed_recipient = ''bob'', ed_ext_amount = 5, ed_encrypted_output0 = [1],
     ed_encrypted_output1 = [2]\<rparr>"

definition sample_proof :: pool_proof where
  "sample_proof =
    \<lparr>pp_proof = \<lparr>proof_a = [1], proof_b = [1], proof_c = [1]\<rparr>, pp_root = get_zeroes ! 2,
     pp_input_nullifiers = [21, 22], pp_output_commitment0 = 31, pp_output_commitment1 = 32,
     pp_public_amount = 5, pp_ext_data_hash = u256_to_be_bytes 0,
     pp_asp_membership_root = 3, pp_asp_non_membership_root = 4\<rparr>"

definition sample_ledger :: "address \<Rightarrow> int" where
  "sample_ledger = (\<lambda>_. 0)(''alice'' := 10)"

lemma sint_five: "sint (5 :: 256 word) = 5" "sint (5 :: 128 word) = 5"
  by simp_all

lemma sample_hash: "hash_ext_data sample_env sample_ext = u256_to_be_bytes 0"
  by (simp add: hash_ext_data_def sample_env_def)

lemma sample_root_known:
  "get_zeroes ! 2 \<in> set (recent_roots (root_history sample_host 2 []))" "get_zeroes ! 2 \<noteq> (0::u256)"
proof -
  have "root_history sample_host 2 [] = [get_zeroes ! 2]"
    using zero_table_chain [OF sample_host_zero_table, of 2] by (simp add: root_history_def)
  then show "get_zeroes ! 2 \<in> set (recent_roots (root_history sample_host 2 []))"
    by (simp add: recent_roots_def ROOT_HISTORY_SIZE_def)
  show "get_zeroes ! 2 \<noteq> (0::u256)" proof -
    have "2 < length get_zeroes" by simp
    from nth_mem [OF this] get_zeroes_nonzero show ?thesis by metis
  qed
qed

lemma sample_canonical: "canonical_inputs sample_proof"
  using get_zeroes_nth_canonical [of 2]
  by (simp add: canonical_inputs_def sample_proof_def bn256_modulus_eq u256_eval)

lemma sample_accepted:
  assumes "pool_rel sample_host 2 [] {} s"
  shows "proof_accepted sample_env 2 [] {} s sample_proof sample_ext"
proof -
  have "5 mod uint bn256_modulus = 5" by (simp add: uint_bn256_modulus)
  then show ?thesis
    using sample_root_known sample_canonical sample_hash sint_five
    by (simp add: proof_accepted_def sample_proof_def sample_ext_def sample_env_def
        groth16_proof_is_empty_def)
qed

lemma sample_constructed:
  "\<exists>s. pool_constructor ''admin'' ''token'' ''verifier'' ''aspm'' ''aspn'' 2 empty_pool_store = Inr s"
  using mh_init_rel [OF sample_host_zero_table, of 2]
  by (auto simp: pool_constructor_def Let_def empty_pool_store_def)

lemma sample_run:
  "\<exists>s0 evs s w. pool_reachable sample_host 2 [] [] s0 sample_ledger \<and> ps_token s0 = Some ''token'' \<and>
    transact sample_env sample_proof sample_ext ''alice'' s0 sample_ledger = Inr (evs, s, w) \<and>
    w ''pool'' = 5 \<and> w ''alice'' = 5 \<and>
    pool_reachable sample_host 2 [\<lparr>tx_proof = sample_proof, tx_ext = sample_ext\<rparr>] evs s w"
proof -
  obtain s0 where s0: "pool_constructor ''admin'' ''token'' ''verifier'' ''aspm'' ''aspn'' 2
      empty_pool_store = Inr s0" using sample_constructed by blast
  have r0: "pool_reachable sample_host 2 [] [] s0 sample_ledger" by (rule pool_init [OF s0])
  have P: "env_poseidon sample_env = sample_host" by (simp add: sample_env_def)
  have rel: "pool_rel sample_host 2 [] {} s0" by (rule pool_constructor_rel [OF sample_host_zero_table s0])
  let ?w = "sample_ledger(''alice'' := 5, ''pool'' := 5)"
  have tok: "ps_token s0 = Some ''token''"
    using s0 by (auto simp: pool_constructor_def Let_def outcome_simps)
  have eff: "token_effect sample_env ''token'' sample_ext ''alice'' sample_ledger = Some ?w"
    using sint_five
    by (simp add: token_effect_def sample_env_def sample_ext_def sample_transfer_def sample_ledger_def)
  have "\<exists>evs s. transact sample_env sample_proof sample_ext ''alice'' s0 sample_ledger = Inr (evs, s, ?w)"
    using transact_Inr_iff [of sample_env 2 "[]" "{}" s0 sample_proof sample_ext "''alice''" sample_ledger ?w]
      P rel sample_host_ok sample_host_zero_table sample_accepted [OF rel] eff tok
    by (simp add: sample_env_def)
  then obtain evs s where run: "transact sample_env sample_proof sample_ext ''alice'' s0 sample_ledger =
      Inr (evs, s, ?w)" by blast
  have "pool_reachable sample_host 2 ([] @ [\<lparr>tx_proof = sample_proof, tx_ext = sample_ext\<rparr>]) ([] @ evs) s ?w"
    by (rule pool_transact [OF r0 P run])
  then show ?thesis
    using run r0 tok by (intro exI [of _ s0] exI [of _ evs] exI [of _ s] exI [of _ ?w]) simp
qed

lemma transact_unspent:
  assumes rel: "pool_rel P d leaves spent s" and tr: "transact e proof ext sender s w = Inr r"
    and n: "n \<in> set (pp_input_nullifiers proof)"
  shows "n \<notin> spent"
proof -
  obtain w1 where "internal_transact e proof ext s w1 = Inr r"
    using tr by (auto simp: transact_def outcome_simps)
  then have "transact_checks e proof ext s" by (cases r) (auto simp: internal_transact_Inr_iff)
  with n check_unspent_iff [OF rel] show ?thesis by (auto simp: transact_checks_def)
qed

section \<open>Properties\<close>

text \<open>
  C4: No double spending. In every reachable state the accepted transactions have pairwise disjoint
  nullifiers, and a transaction that presents a nullifier of any of them is not accepted again,
  whatever the environment, the proof and the caller.
\<close>

theorem pool_no_double_spend:
  assumes "host_permutation_ok P" and "zero_table_ok P" and "pool_reachable P d txs log s w"
  shows "(\<forall>i j. i < j \<longrightarrow> j < length txs \<longrightarrow>
      set (tx_nullifiers (txs ! i)) \<inter> set (tx_nullifiers (txs ! j)) = {}) \<and>
    (\<forall>e proof ext sender w' n. n \<in> txs_nullifiers txs \<longrightarrow> n \<in> set (pp_input_nullifiers proof) \<longrightarrow>
      \<not> is_ok (transact e proof ext sender s w'))"
  using pool_reachable_rel [OF assms] transact_unspent by (fastforce simp: is_ok_iff)

lemma pool_no_double_spend_witness:
  "\<exists>s. \<not> is_ok (transact sample_env sample_proof sample_ext ''alice'' s sample_ledger)"
proof -
  from sample_run obtain evs s w
    where r: "pool_reachable sample_host 2 [\<lparr>tx_proof = sample_proof, tx_ext = sample_ext\<rparr>] evs s
      (w :: address \<Rightarrow> int)"
    by (elim exE conjE)
  note safe = pool_no_double_spend [OF sample_host_ok sample_host_zero_table r, THEN conjunct2, rule_format]
  have "\<not> is_ok (transact sample_env sample_proof sample_ext ''alice'' s sample_ledger)"
    by (rule safe [of 21]) (simp_all add: txs_nullifiers_def tx_nullifiers_def sample_proof_def)
  then show ?thesis by blast
qed

text \<open>
  C7: In every reachable state the root that the pool reports is the Merkle root of the commitments of
  all accepted transactions in order, and the published events are exactly theirs: each nullifier
  once, and the commitments at consecutive positions with their encrypted outputs. An indexer that
  follows the events therefore holds the same tree as the contract.
\<close>

theorem pool_root_commitments:
  assumes "host_permutation_ok P" and "zero_table_ok P" and "pool_reachable P d txs log s w"
  shows "pool_get_root s =
      Inr (merkle_root_of (compress_val P) (get_zeroes ! 0) d (txs_commitments txs)) \<and>
    log = txs_events txs \<and> 2 * length txs \<le> 2 ^ d"
  using pool_reachable_rel [OF assms] mh_get_last_root_rel [of P d "txs_commitments txs" "ps_tree s"]
  by (auto simp: pool_rel_def pool_get_root_def pool_tree_rel_def)

lemma pool_root_commitments_witness:
  "\<exists>s. pool_get_root s = Inr (merkle_root_of (compress_val sample_host) (get_zeroes ! 0) 2 [31, 32])"
proof -
  from sample_run obtain evs s w
    where r: "pool_reachable sample_host 2 [\<lparr>tx_proof = sample_proof, tx_ext = sample_ext\<rparr>] evs s
      (w :: address \<Rightarrow> int)"
    by (elim exE conjE)
  from pool_root_commitments [OF sample_host_ok sample_host_zero_table r] show ?thesis
    by (auto simp: txs_commitments_def tx_commitments_def sample_proof_def)
qed

text \<open>
  C5: When a transaction is accepted. In a reachable state, \<open>transact\<close> succeeds exactly if the caller
  authorised it, the root is a nonzero recent root, no nullifier is spent, the hash binds the external
  data, the amount is below 2^248 and equals the public amount in the field, both ASP roots are the
  current ones, every public input is canonical, the verifier accepts, the tree has room for two
  leaves and the token transfer succeeds. There is no further obstacle, in particular no trap in the
  insertion after the proof was accepted.
\<close>

theorem pool_transact_accepts_iff:
  assumes "host_permutation_ok P" and "zero_table_ok P" and "pool_reachable P d txs log s w"
    and "env_poseidon e = P"
  shows "(\<exists>evs s'. transact e proof ext sender s w = Inr (evs, s', w')) \<longleftrightarrow>
    env_auth e sender \<and>
    proof_accepted e d (txs_commitments txs) (txs_nullifiers txs) s proof ext \<and>
    2 * length txs + 2 \<le> 2 ^ d \<and> token_effect e (the (ps_token s)) ext sender w = Some w'"
proof -
  have "pool_rel (env_poseidon e) d (txs_commitments txs) (txs_nullifiers txs) s"
    using pool_reachable_rel [OF assms(1-3)] assms(4) by simp
  from transact_Inr_iff [OF _ _ this] assms(1,2,4) show ?thesis by simp
qed

lemma pool_transact_accepts_iff_witness:
  "\<exists>s. proof_accepted sample_env 2 [] {} s sample_proof sample_ext \<and>
    token_effect sample_env (the (ps_token s)) sample_ext ''alice'' sample_ledger =
      Some (sample_ledger(''alice'' := 5, ''pool'' := 5))"
proof -
  from sample_run obtain s0 evs s w where r: "pool_reachable sample_host 2 [] [] s0 sample_ledger"
    and tok: "ps_token s0 = Some ''token''"
    and run: "transact sample_env sample_proof sample_ext ''alice'' s0 sample_ledger = Inr (evs, s, w)"
    by (elim exE conjE)
  have P: "env_poseidon sample_env = sample_host" by (simp add: sample_env_def)
  note iff = pool_transact_accepts_iff [OF sample_host_ok sample_host_zero_table r P,
      of sample_proof sample_ext "''alice''"]
  have "proof_accepted sample_env 2 [] {} s0 sample_proof sample_ext"
    using iff [of w] run by (auto simp: txs_commitments_def txs_nullifiers_def)
  moreover have "token_effect sample_env (the (ps_token s0)) sample_ext ''alice'' sample_ledger =
      Some (sample_ledger(''alice'' := 5, ''pool'' := 5))"
    using sint_five tok
    by (simp add: token_effect_def sample_env_def sample_ext_def sample_transfer_def sample_ledger_def)
  ultimately show ?thesis by blast
qed

text \<open>
  What a token contract documents: a successful transfer moves the amount between the two balances of
  that token and changes no other balance.
\<close>

definition token_ledger_ok ::
  "(address \<Rightarrow> address \<Rightarrow> address \<Rightarrow> i128 \<Rightarrow> 't \<Rightarrow> 't option) \<Rightarrow> ('t \<Rightarrow> address \<Rightarrow> address \<Rightarrow> int) \<Rightarrow> bool" where
  "token_ledger_ok transfer bal \<longleftrightarrow>
    (\<forall>token from to amount w w'. transfer token from to amount w = Some w' \<longrightarrow>
      (\<forall>tk a. bal w' tk a = bal w tk a
        - (if tk = token \<and> a = from then sint amount else 0)
        + (if tk = token \<and> a = to then sint amount else 0)))"

lemma sint_of_int_128: "- (2 ^ 127) \<le> v \<Longrightarrow> v < 2 ^ 127 \<Longrightarrow> sint (word_of_int v :: i128) = v"
  using signed_of_int_Some_iff [of v "word_of_int v :: i128"]
  by (simp add: signed_of_int_def in_signed_range_def)

text \<open>
  C6: Token conservation. An accepted transaction changes the pool's balance of its token by exactly
  the external amount, takes a deposit from the sender and pays a withdrawal to the recipient, and
  changes no other balance of any token (sender and recipient other than the pool itself).
\<close>

theorem pool_token_conservation:
  assumes "host_permutation_ok P" and "zero_table_ok P" and "pool_reachable P d txs log s w"
    and "env_poseidon e = P" and "token_ledger_ok (env_transfer e) bal"
    and "transact e proof ext sender s w = Inr (evs, s', w')"
    and "sender \<noteq> env_this e" and "ed_recipient ext \<noteq> env_this e"
  shows "bal w' tk a = bal w tk a +
    (if Some tk = ps_token s then
       (if a = env_this e then sint (ed_ext_amount ext) else 0) +
       (if a = sender \<and> sint (ed_ext_amount ext) > 0 then - sint (ed_ext_amount ext) else 0) +
       (if a = ed_recipient ext \<and> sint (ed_ext_amount ext) < 0 then - sint (ed_ext_amount ext) else 0)
     else 0)"
proof -
  have rel: "pool_rel (env_poseidon e) d (txs_commitments txs) (txs_nullifiers txs) s"
    using pool_reachable_rel [OF assms(1-3)] assms(4) by simp
  have eff: "token_effect e (the (ps_token s)) ext sender w = Some w'"
    using transact_Inr_iff [OF _ _ rel, of "proof" ext sender w w'] assms(1,2,4,6) by auto
  obtain token where token: "ps_token s = Some token" using rel by (auto simp: pool_rel_def)
  let ?v = "sint (ed_ext_amount ext)"
  consider (zero) "?v = 0" "w' = w"
    | (deposit) "?v > 0" "?v < 2 ^ 127"
        "env_transfer e token sender (env_this e) (word_of_int ?v) w = Some w'"
    | (withdraw) "?v < 0" "- ?v < 2 ^ 127"
        "env_transfer e token (env_this e) (ed_recipient ext) (word_of_int (- ?v)) w = Some w'"
    using eff token by (auto simp: token_effect_def Let_def split: if_splits)
  then show ?thesis
  proof cases
    case zero
    then show ?thesis by simp
  next
    case deposit
    then have "sint (word_of_int ?v :: i128) = ?v" by (intro sint_of_int_128) auto
    with deposit assms(5,7) token show ?thesis by (auto simp: token_ledger_ok_def)
  next
    case withdraw
    then have "sint (word_of_int (- ?v) :: i128) = - ?v" by (intro sint_of_int_128) auto
    with withdraw assms(5,8) token show ?thesis by (auto simp: token_ledger_ok_def)
  qed
qed

lemma pool_token_conservation_witness:
  "\<exists>s evs s' w'. transact sample_env sample_proof sample_ext ''alice'' s sample_ledger = Inr (evs, s', w') \<and>
    w' ''pool'' = sample_ledger ''pool'' + 5 \<and> w' ''alice'' = sample_ledger ''alice'' - 5"
proof -
  from sample_run obtain s0 evs s w where r: "pool_reachable sample_host 2 [] [] s0 sample_ledger"
    and tok: "ps_token s0 = Some ''token''"
    and run: "transact sample_env sample_proof sample_ext ''alice'' s0 sample_ledger = Inr (evs, s, w)"
    by (elim exE conjE)
  have P: "env_poseidon sample_env = sample_host" by (simp add: sample_env_def)
  have ledger: "token_ledger_ok (env_transfer sample_env) (\<lambda>w tk a. if tk = ''token'' then w a else 0)"
    by (auto simp: token_ledger_ok_def sample_env_def sample_transfer_def Let_def split: if_splits)
  note cons = pool_token_conservation [OF sample_host_ok sample_host_zero_table r P ledger run]
  have "w ''pool'' = sample_ledger ''pool'' + 5" "w ''alice'' = sample_ledger ''alice'' - 5"
    using cons [of "''token''" "''pool''"] cons [of "''token''" "''alice''"] tok sint_five
    by (simp_all add: sample_env_def sample_ext_def)
  with run show ?thesis by blast
qed

text \<open>
  C8: The public amount of an external amount \<open>v\<close>: below 2^248 in absolute value it is the
  representative of \<open>v\<close> in the field, from there on the error \<open>WrongExtAmount\<close>, and for the smallest
  256-bit integer, whose negation overflows, a trap.
\<close>

theorem public_amount_spec:
  "calculate_public_amount v =
    (if sint v = - (2 ^ 255) then Inl Trap
     else if \<bar>sint v\<bar> \<ge> 2 ^ 248 then Inl (Err Pool_WrongExtAmount)
     else Inr (word_of_int (sint v mod uint bn256_modulus)))"
  by (rule calculate_public_amount_cases)

text \<open>
  The public amount binds the external amount: two external amounts with the same public amount
  are equal, so a proof for a withdrawal is never a proof for a deposit or for another amount.
\<close>

theorem public_amount_inj:
  assumes "calculate_public_amount v = Inr x" and "calculate_public_amount v' = Inr x"
  shows "v = v'"
proof -
  have b: "\<bar>sint v\<bar> < 2 ^ 248" "\<bar>sint v'\<bar> < 2 ^ 248"
    and "sint v mod uint bn256_modulus = sint v' mod uint bn256_modulus"
    using assms by (auto simp: public_amount_iff)
  then have "uint bn256_modulus dvd sint v - sint v'" by (simp add: mod_eq_dvd_iff)
  moreover have "\<bar>sint v - sint v'\<bar> < uint bn256_modulus" using b bn256_modulus_big by linarith
  ultimately have "sint v - sint v' = 0" using dvd_imp_le_int [of "sint v - sint v'"] by force
  then show ?thesis by (intro signed_word_eqI) simp
qed

lemma public_amount_inj_witness:
  "calculate_public_amount 5 = Inr 5 \<and> calculate_public_amount (- 5) \<noteq> Inr 5"
proof -
  have five: "calculate_public_amount 5 = Inr 5"
    using sint_five by (simp add: public_amount_iff uint_bn256_modulus)
  have "(- 5 :: i256) \<noteq> 5" by simp
  with public_amount_inj [of "- 5" 5 5] five show ?thesis by blast
qed

text \<open>
  C9: What the verifier's inputs commit to. Two transactions present the same vector of public inputs exactly
  if they agree in the root, the public amount, the hash of the external data, the nullifiers, the output
  commitments and, unless the list of nullifiers is empty, in the two ASP roots: the number of inputs, the
  order and the encodings leave no other ambiguity. (The code repeats the ASP roots once per nullifier, so
  that without a nullifier they are not among the inputs.)
\<close>

theorem public_inputs_binding:
  "pool_public_inputs p = pool_public_inputs q \<longleftrightarrow>
    pp_root p = pp_root q \<and> pp_public_amount p = pp_public_amount q \<and> pp_ext_data_hash p = pp_ext_data_hash q \<and>
    pp_input_nullifiers p = pp_input_nullifiers q \<and> pp_output_commitment0 p = pp_output_commitment0 q \<and>
    pp_output_commitment1 p = pp_output_commitment1 q \<and>
    (pp_input_nullifiers p = [] \<or>
      pp_asp_membership_root p = pp_asp_membership_root q \<and> pp_asp_non_membership_root p = pp_asp_non_membership_root q)"
proof
  assume eq: "pool_public_inputs p = pool_public_inputs q"
  have inj: "u256_to_be_bytes a = u256_to_be_bytes b \<longleftrightarrow> a = b" for a b
    by (metis u256_from_to_be_bytes)
  have len: "length (pp_input_nullifiers p) = length (pp_input_nullifiers q)"
    using arg_cong [OF eq, of length] by (simp add: pool_public_inputs_def)
  have ns: "map u256_to_be_bytes (pp_input_nullifiers p) = map u256_to_be_bytes (pp_input_nullifiers q)"
    and m: "map (\<lambda>_. u256_to_be_bytes (pp_asp_membership_root p)) [0..<length (pp_input_nullifiers p)] =
      map (\<lambda>_. u256_to_be_bytes (pp_asp_membership_root q)) [0..<length (pp_input_nullifiers p)]"
    and n: "map (\<lambda>_. u256_to_be_bytes (pp_asp_non_membership_root p)) [0..<length (pp_input_nullifiers p)] =
      map (\<lambda>_. u256_to_be_bytes (pp_asp_non_membership_root q)) [0..<length (pp_input_nullifiers p)]"
    using eq len by (simp_all add: pool_public_inputs_def del: map_eq_conv)
  have "pp_input_nullifiers p = pp_input_nullifiers q"
    using ns inj_map_eq_map [of u256_to_be_bytes] by (simp add: inj_def inj)
  moreover have "pp_input_nullifiers p = [] \<or>
      pp_asp_membership_root p = pp_asp_membership_root q \<and> pp_asp_non_membership_root p = pp_asp_non_membership_root q"
    using m n inj by (cases "pp_input_nullifiers p") (auto simp: map_eq_conv)
  ultimately show "pp_root p = pp_root q \<and> pp_public_amount p = pp_public_amount q \<and> pp_ext_data_hash p = pp_ext_data_hash q \<and>
    pp_input_nullifiers p = pp_input_nullifiers q \<and> pp_output_commitment0 p = pp_output_commitment0 q \<and>
    pp_output_commitment1 p = pp_output_commitment1 q \<and>
    (pp_input_nullifiers p = [] \<or>
      pp_asp_membership_root p = pp_asp_membership_root q \<and> pp_asp_non_membership_root p = pp_asp_non_membership_root q)"
    using eq inj by (simp add: pool_public_inputs_def)
qed (auto simp: pool_public_inputs_def)

text \<open>
  The error that a rejected transaction reports, in a reachable state whose ASP contracts answer and for an
  external amount other than the smallest 256-bit integer: an unknown root is \<open>UnknownRoot\<close>; with a known root
  a spent nullifier is \<open>AlreadySpentNullifier\<close>; then a wrong hash is \<open>WrongExtHash\<close>; then an amount out of range or
  other than the public one is \<open>WrongExtAmount\<close>; then stale ASP roots or an empty proof are \<open>InvalidProof\<close>; then an
  input outside the field is \<open>NonCanonicalPublicInput\<close>; a verifier that fails is a trap, and only a verifier that
  returns \<open>false\<close>, which the one of this repository never does, gives \<open>InvalidProof\<close> again.
\<close>

theorem pool_error_order:
  fixes e :: "'t pool_env" and pr :: pool_proof and ext :: ext_data
  assumes "host_permutation_ok P" and "zero_table_ok P" and "pool_reachable P d txs log s w"
    and "env_membership_root e (the (ps_asp_membership s)) = Some mr"
    and "env_non_membership_root e (the (ps_asp_non_membership s)) = Some nr"
    and "sint (ed_ext_amount ext) \<noteq> - (2 ^ 255)"
  defines "known \<equiv> pp_root pr \<noteq> 0 \<and>
      pp_root pr \<in> set (recent_roots (root_history P d (txs_commitments txs)))"
    and "unspent \<equiv> set (pp_input_nullifiers pr) \<inter> txs_nullifiers txs = {}"
    and "hashed \<equiv> pp_ext_data_hash pr = hash_ext_data e ext"
    and "amount \<equiv> \<bar>sint (ed_ext_amount ext)\<bar> < 2 ^ 248 \<and>
      uint (pp_public_amount pr) = sint (ed_ext_amount ext) mod uint bn256_modulus"
    and "current \<equiv> mr = pp_asp_membership_root pr \<and> nr = pp_asp_non_membership_root pr"
    and "verdict \<equiv> env_verify e (the (ps_verifier s)) (pp_proof pr) (pool_public_inputs pr)"
  shows "(\<not> known \<longrightarrow> internal_transact e pr ext s w = Inl (Err Pool_UnknownRoot)) \<and>
    (known \<and> \<not> unspent \<longrightarrow> internal_transact e pr ext s w = Inl (Err Pool_AlreadySpentNullifier)) \<and>
    (known \<and> unspent \<and> \<not> hashed \<longrightarrow> internal_transact e pr ext s w = Inl (Err Pool_WrongExtHash)) \<and>
    (known \<and> unspent \<and> hashed \<and> \<not> amount \<longrightarrow>
      internal_transact e pr ext s w = Inl (Err Pool_WrongExtAmount)) \<and>
    (known \<and> unspent \<and> hashed \<and> amount \<and> (\<not> current \<or> groth16_proof_is_empty (pp_proof pr)) \<longrightarrow>
      internal_transact e pr ext s w = Inl (Err Pool_InvalidProof)) \<and>
    (known \<and> unspent \<and> hashed \<and> amount \<and> current \<and> \<not> groth16_proof_is_empty (pp_proof pr) \<longrightarrow>
      (\<not> canonical_inputs pr \<longrightarrow>
        internal_transact e pr ext s w = Inl (Err Pool_NonCanonicalPublicInput)) \<and>
      (canonical_inputs pr \<and> verdict = None \<longrightarrow> internal_transact e pr ext s w = Inl Trap) \<and>
      (canonical_inputs pr \<and> verdict = Some False \<longrightarrow>
        internal_transact e pr ext s w = Inl (Err Pool_InvalidProof)))"
proof -
  have rel: "pool_rel P d (txs_commitments txs) (txs_nullifiers txs) s"
    using pool_reachable_rel [OF assms(1-3)] by simp
  have root: "from_merkle (mh_is_known_root (pp_root pr) (ps_tree s)) = Inr known"
    using rel known_root_ring by (auto simp: pool_rel_def pool_tree_rel_def known_def)
  have null: "for_all_ok (check_unspent s) (pp_input_nullifiers pr) =
      (if unspent then Inr () else Inl (Err Pool_AlreadySpentNullifier))"
    by (simp add: unspent_def check_all_unspent [OF rel])
  have amt: "calculate_public_amount (ed_ext_amount ext) = Inl (Err Pool_WrongExtAmount) \<and> \<not> amount \<or>
      (\<exists>x. calculate_public_amount (ed_ext_amount ext) = Inr x \<and> (pp_public_amount pr = x \<longleftrightarrow> amount))"
    using assms(6) public_amount_iff [of "ed_ext_amount ext" "pp_public_amount pr"]
    by (auto simp: amount_def calculate_public_amount_cases)
  have asp: "get_asp_membership_root e s = Inr mr" "get_asp_non_membership_root e s = Inr nr"
    using rel assms(4,5) by (auto simp: pool_rel_def get_asp_membership_root_def get_asp_membership_def
        get_asp_non_membership_root_def get_asp_non_membership_def)
  have ver: "pool_verify_proof e pr s =
      (if groth16_proof_is_empty (pp_proof pr) then Inl (Err Pool_InvalidProof)
       else if \<not> canonical_inputs pr then Inl (Err Pool_NonCanonicalPublicInput)
       else or_trap verdict)"
    using rel by (auto simp: pool_verify_proof_def pool_rel_def get_verifier_def verdict_def
        validate_inputs_cases)
  show ?thesis
    using amt
    by (auto simp: internal_transact_def root null asp ver hashed_def current_def require_def)
qed

lemma pool_error_order_witness:
  "\<exists>s. internal_transact sample_env (sample_proof\<lparr>pp_root := 0\<rparr>) sample_ext s sample_ledger =
    Inl (Err Pool_UnknownRoot)"
proof -
  from sample_run obtain s where r: "pool_reachable sample_host 2 [] [] s sample_ledger"
    by (elim exE conjE)
  have "sint (ed_ext_amount sample_ext) \<noteq> - (2 ^ 255)" using sint_five by (simp add: sample_ext_def)
  from pool_error_order [OF sample_host_ok sample_host_zero_table r _ _ this, of sample_env 3 4
      "sample_proof\<lparr>pp_root := 0\<rparr>"]
  show ?thesis by (auto simp: sample_env_def)
qed

text \<open>
  Administration. In a reachable state each of the three administrative calls succeeds exactly with
  the authorisation of the stored administrator and otherwise traps; none of them touches the
  nullifiers, the tree, the token or the verifier.
\<close>

theorem pool_admin_calls:
  assumes "host_permutation_ok P" and "zero_table_ok P" and "pool_reachable P d txs log s w"
  shows "\<exists>admin. ps_admin s = Some admin \<and>
    pool_update_admin e a s = (if env_auth e admin then Inr (s\<lparr>ps_admin := Some a\<rparr>) else Inl Trap) \<and>
    update_asp_membership e a s =
      (if env_auth e admin then Inr (s\<lparr>ps_asp_membership := Some a\<rparr>) else Inl Trap) \<and>
    update_asp_non_membership e a s =
      (if env_auth e admin then Inr (s\<lparr>ps_asp_non_membership := Some a\<rparr>) else Inl Trap)"
proof -
  obtain admin where "ps_admin s = Some admin"
    using pool_reachable_rel [OF assms] by (auto simp: pool_rel_def)
  then show ?thesis
    by (auto simp: pool_update_admin_def update_asp_membership_def update_asp_non_membership_def
        update_admin_def get_admin_def)
qed

lemma pool_admin_calls_witness:
  "\<exists>s admin. ps_admin s = Some admin \<and>
    pool_update_admin sample_env ''carol'' s = Inr (s\<lparr>ps_admin := Some ''carol''\<rparr>)"
proof -
  from sample_run obtain s where r: "pool_reachable sample_host 2 [] [] s sample_ledger"
    by (elim exE conjE)
  from pool_admin_calls [OF sample_host_ok sample_host_zero_table r, of sample_env "''carol''"]
  show ?thesis by (auto simp: sample_env_def)
qed

end
