(* ===== verification/Asp_Membership.thy ===== *)
theory Asp_Membership
  imports Sample_Host
begin

text \<open>
  The ASP membership contract (\<open>contracts/asp-membership/src/lib.rs\<close>): an append-only Merkle tree of
  members kept by an administrator. The theory has its storage and entry points, the events it
  publishes, and the proof that in every state that calls can reach the stored root is the Merkle
  root of the leaves that the events report.
\<close>

section \<open>Definitions\<close>

datatype asp_membership_error =
    Asp_NotAuthorized
  | Asp_MerkleTreeFull
  | Asp_WrongLevels
  | Asp_NotInitialized
  | Asp_Overflow

text \<open>One field for each variant of \<open>DataKey\<close>.\<close>

record asp_membership_store =
  am_admin :: "address option"
  am_filled_subtrees :: "nat \<rightharpoonup> u256"
  am_zeroes :: "nat \<rightharpoonup> u256"
  am_levels :: "nat option"
  am_next_index :: "nat option"
  am_root :: "u256 option"
  am_admin_insert_only :: "bool option"

record leaf_added_event =
  la_leaf :: u256
  la_index :: nat
  la_root :: u256

definition empty_asp_membership_store :: asp_membership_store where
  "empty_asp_membership_store =
    \<lparr>am_admin = None, am_filled_subtrees = Map.empty, am_zeroes = Map.empty, am_levels = None,
     am_next_index = None, am_root = None, am_admin_insert_only = None\<rparr>"

text \<open>The loop over the levels of the constructor.\<close>

fun am_init_levels ::
  "nat list \<Rightarrow> asp_membership_store \<Rightarrow> (asp_membership_error, asp_membership_store) outcome" where
  "am_init_levels [] s = Inr s"
| "am_init_levels (lvl # lvls) s =
     let_ok (ok_or (vec_get get_zeroes lvl) (Err Asp_NotInitialized)) (\<lambda>zero_val.
     am_init_levels lvls
       (s\<lparr>am_filled_subtrees := (am_filled_subtrees s)(lvl \<mapsto> zero_val),
          am_zeroes := (am_zeroes s)(lvl \<mapsto> zero_val)\<rparr>))"

definition am_constructor ::
  "address \<Rightarrow> nat \<Rightarrow> asp_membership_store \<Rightarrow> (asp_membership_error, asp_membership_store) outcome" where
  "am_constructor admin levels s =
    (if levels = 0 \<or> levels > 32 then Inl (Err Asp_WrongLevels)
     else
       let s1 = s\<lparr>am_admin := Some admin, am_levels := Some levels, am_next_index := Some 0,
                  am_admin_insert_only := Some True\<rparr> in
       let_ok (am_init_levels [0..<Suc levels] s1) (\<lambda>s2.
       let_ok (ok_or (vec_get get_zeroes levels) (Err Asp_NotInitialized)) (\<lambda>root_val.
       Inr (s2\<lparr>am_root := Some root_val\<rparr>))))"

definition am_update_admin ::
  "(address \<Rightarrow> bool) \<Rightarrow> address \<Rightarrow> asp_membership_store
    \<Rightarrow> (asp_membership_error, asp_membership_store) outcome" where
  "am_update_admin auth new_admin s =
    (if am_admin s = None then Inl (Err Asp_NotInitialized)
     else let_ok (update_admin auth (am_admin s) new_admin) (\<lambda>a. Inr (s\<lparr>am_admin := a\<rparr>)))"

definition am_set_admin_insert_only ::
  "(address \<Rightarrow> bool) \<Rightarrow> bool \<Rightarrow> asp_membership_store
    \<Rightarrow> (asp_membership_error, asp_membership_store) outcome" where
  "am_set_admin_insert_only auth admin_only s =
    let_ok (ok_or (am_admin s) (Err Asp_NotInitialized)) (\<lambda>admin.
    let_ok (require (auth admin) Trap) (\<lambda>_.
    Inr (s\<lparr>am_admin_insert_only := Some admin_only\<rparr>)))"

definition am_get_root :: "asp_membership_store \<Rightarrow> (asp_membership_error, u256) outcome" where
  "am_get_root s = ok_or (am_root s) (Err Asp_NotInitialized)"

definition am_hash_pair :: "poseidon2_host \<Rightarrow> u256 \<Rightarrow> u256 \<Rightarrow> (asp_membership_error, u256) outcome" where
  "am_hash_pair P left right = poseidon2_compress P left right"

text \<open>The loop \<open>for lvl in 0..levels\<close> of \<open>insert_leaf\<close>.\<close>

fun am_update_path ::
  "poseidon2_host \<Rightarrow> nat list \<Rightarrow> nat \<Rightarrow> u256 \<Rightarrow> asp_membership_store
    \<Rightarrow> (asp_membership_error, u256 \<times> asp_membership_store) outcome" where
  "am_update_path P [] current_index current_hash s = Inr (current_hash, s)"
| "am_update_path P (lvl # lvls) current_index current_hash s =
     (if current_index mod 2 = 1 then
        let_ok (ok_or (am_filled_subtrees s lvl) (Err Asp_NotInitialized)) (\<lambda>left.
        let_ok (poseidon2_compress P left current_hash) (\<lambda>h.
        am_update_path P lvls (current_index div 2) h s))
      else
        let s' = s\<lparr>am_filled_subtrees := (am_filled_subtrees s)(lvl \<mapsto> current_hash)\<rparr> in
        let_ok (ok_or (am_zeroes s' lvl) (Err Asp_NotInitialized)) (\<lambda>zero_val.
        let_ok (poseidon2_compress P current_hash zero_val) (\<lambda>h.
        am_update_path P lvls (current_index div 2) h s')))"

definition am_check_insert_auth ::
  "(address \<Rightarrow> bool) \<Rightarrow> asp_membership_store \<Rightarrow> (asp_membership_error, unit) outcome" where
  "am_check_insert_auth auth s =
    (if (case am_admin_insert_only s of Some b \<Rightarrow> b | None \<Rightarrow> True) then
       let_ok (ok_or (am_admin s) (Err Asp_NotInitialized)) (\<lambda>admin. require (auth admin) Trap)
     else Inr ())"

definition am_insert_leaf ::
  "poseidon2_host \<Rightarrow> (address \<Rightarrow> bool) \<Rightarrow> u256 \<Rightarrow> asp_membership_store
    \<Rightarrow> (asp_membership_error, leaf_added_event list \<times> asp_membership_store) outcome" where
  "am_insert_leaf P auth leaf s =
    let_ok (am_check_insert_auth auth s) (\<lambda>_.
    let_ok (ok_or (am_levels s) (Err Asp_NotInitialized)) (\<lambda>levels.
    let_ok (ok_or (am_next_index s) (Err Asp_NotInitialized)) (\<lambda>actual_index.
    let_ok (ok_or (u64_checked_shl 1 levels) (Err Asp_MerkleTreeFull)) (\<lambda>capacity.
    let_ok (require (\<not> actual_index \<ge> capacity) (Err Asp_MerkleTreeFull)) (\<lambda>_.
    let_ok (am_update_path P [0..<levels] actual_index leaf s) (\<lambda>(current_hash, s1).
    let s2 = s1\<lparr>am_root := Some current_hash\<rparr>;
        event = \<lparr>la_leaf = leaf, la_index = actual_index, la_root = current_hash\<rparr> in
    let_ok (ok_or (nat_checked_add 64 actual_index 1) (Err Asp_Overflow)) (\<lambda>new_next.
    Inr ([event], s2\<lparr>am_next_index := Some new_next\<rparr>))))))))"

text \<open>The calls that change the contract, and the states that sequences of them reach.\<close>

datatype asp_membership_call =
    AM_UpdateAdmin address
  | AM_SetAdminInsertOnly bool
  | AM_InsertLeaf u256

fun am_exec ::
  "poseidon2_host \<Rightarrow> (address \<Rightarrow> bool) \<Rightarrow> asp_membership_call \<Rightarrow> asp_membership_store
    \<Rightarrow> (asp_membership_error, leaf_added_event list \<times> asp_membership_store) outcome" where
  "am_exec P auth (AM_UpdateAdmin a) s = let_ok (am_update_admin auth a s) (\<lambda>s'. Inr ([], s'))"
| "am_exec P auth (AM_SetAdminInsertOnly b) s =
     let_ok (am_set_admin_insert_only auth b s) (\<lambda>s'. Inr ([], s'))"
| "am_exec P auth (AM_InsertLeaf leaf) s = am_insert_leaf P auth leaf s"

inductive am_reachable ::
  "poseidon2_host \<Rightarrow> nat \<Rightarrow> leaf_added_event list \<Rightarrow> asp_membership_store \<Rightarrow> bool"
  for P :: poseidon2_host and d :: nat
where
  am_init: "am_constructor admin d empty_asp_membership_store = Inr s \<Longrightarrow> am_reachable P d [] s"
| am_call: "am_reachable P d log s \<Longrightarrow> am_exec P auth call s = Inr (evs, s') \<Longrightarrow>
    am_reachable P d (log @ evs) s'"

section \<open>Abstract specification\<close>

text \<open>The abstract state is the list of inserted leaves.\<close>

definition am_levels_ok :: "nat \<Rightarrow> asp_membership_store \<Rightarrow> bool" where
  "am_levels_ok d s \<longleftrightarrow>
    (\<forall>l \<le> d. am_zeroes s l = Some (get_zeroes ! l)) \<and>
    (\<forall>l \<le> d. \<exists>v. am_filled_subtrees s l = Some v \<and> v < bn256_modulus)"

definition asp_tree_rel :: "poseidon2_host \<Rightarrow> nat \<Rightarrow> u256 list \<Rightarrow> asp_membership_store \<Rightarrow> bool" where
  "asp_tree_rel P d leaves s \<longleftrightarrow>
    0 < d \<and> d \<le> 32 \<and> am_levels s = Some d \<and> am_admin s \<noteq> None \<and>
    am_next_index s = Some (length leaves) \<and> length leaves \<le> 2 ^ d \<and> am_levels_ok d s \<and>
    filled_ok (compress_val P) (get_zeroes ! 0) 0 d leaves (stored (am_filled_subtrees s)) \<and>
    am_root s = Some (merkle_root_of (compress_val P) (get_zeroes ! 0) d leaves)"

text \<open>The log of events that the insertion of \<open>leaves\<close> publishes.\<close>

definition asp_log :: "poseidon2_host \<Rightarrow> nat \<Rightarrow> u256 list \<Rightarrow> leaf_added_event list" where
  "asp_log P d leaves =
    map (\<lambda>i. \<lparr>la_leaf = leaves ! i, la_index = i,
              la_root = merkle_root_of (compress_val P) (get_zeroes ! 0) d (take (Suc i) leaves)\<rparr>)
      [0..<length leaves]"

section \<open>Refinement\<close>

lemma am_init_levels_ok:
  "list_all (\<lambda>i. i < 33) is \<Longrightarrow> am_init_levels is s =
    Inr (s\<lparr>am_filled_subtrees :=
             (\<lambda>l. if l \<in> set is then Some (get_zeroes ! l) else am_filled_subtrees s l),
           am_zeroes := (\<lambda>l. if l \<in> set is then Some (get_zeroes ! l) else am_zeroes s l)\<rparr>)"
proof (induction "is" arbitrary: s)
  case Nil
  then show ?case by simp
next
  case (Cons i "is")
  then have "am_init_levels (i # is) s = am_init_levels is
      (s\<lparr>am_filled_subtrees := (am_filled_subtrees s)(i \<mapsto> get_zeroes ! i),
         am_zeroes := (am_zeroes s)(i \<mapsto> get_zeroes ! i)\<rparr>)" by simp
  with Cons show ?case
    by (auto simp: fun_eq_iff
        intro!: arg_cong2 [of _ _ _ _ "\<lambda>f g. s\<lparr>am_filled_subtrees := f, am_zeroes := g\<rparr>"])
qed

lemma am_constructor_rel:
  assumes "zero_table_ok P" and "0 < d" and "d \<le> 32"
  shows "\<exists>s. am_constructor admin d empty_asp_membership_store = Inr s \<and> asp_tree_rel P d [] s \<and>
    am_admin s = Some admin \<and> am_admin_insert_only s = Some True"
proof -
  have all: "list_all (\<lambda>i. i < 33) [0..<Suc d]" using assms(3) by (simp add: list_all_iff)
  define s where "s = empty_asp_membership_store\<lparr>am_admin := Some admin, am_levels := Some d,
      am_next_index := Some 0, am_admin_insert_only := Some True,
      am_filled_subtrees := (\<lambda>l. if l \<in> set [0..<Suc d] then Some (get_zeroes ! l) else None),
      am_zeroes := (\<lambda>l. if l \<in> set [0..<Suc d] then Some (get_zeroes ! l) else None),
      am_root := Some (get_zeroes ! d)\<rparr>"
  have "am_constructor admin d empty_asp_membership_store = Inr s"
    unfolding am_constructor_def Let_def am_init_levels_ok [OF all] using assms(2,3)
    by (simp add: empty_asp_membership_store_def s_def fun_eq_iff del: upt_Suc)
  moreover have "asp_tree_rel P d [] s"
    using assms(2,3) get_zeroes_nth_canonical zero_table_chain [OF assms(1,3)]
    by (auto simp: asp_tree_rel_def s_def am_levels_ok_def filled_ok_def
        empty_asp_membership_store_def)
  ultimately show ?thesis by (auto simp: s_def)
qed

text \<open>Where the storage is complete, the loop is the walk of the specification.\<close>

lemma am_update_path_climb:
  assumes "host_permutation_ok P" and "cur < bn256_modulus" and "list_all (\<lambda>l. l \<le> d) ls"
    and "am_levels_ok d s" and "\<And>l. l \<le> d \<Longrightarrow> get_zeroes ! l = zero l" and "d \<le> 32"
  shows "\<exists>M. am_update_path P ls i cur s =
      Inr (fst (climb (compress_val P) zero ls i cur (stored (am_filled_subtrees s))),
           s\<lparr>am_filled_subtrees := M\<rparr>) \<and>
    stored M = snd (climb (compress_val P) zero ls i cur (stored (am_filled_subtrees s))) \<and>
    am_levels_ok d (s\<lparr>am_filled_subtrees := M\<rparr>)"
  using assms(2-4)
proof (induction ls arbitrary: i cur s)
  case Nil
  then show ?case by (auto intro!: exI [of _ "am_filled_subtrees s"])
next
  case (Cons l ls)
  have l: "l \<le> d" and ls: "list_all (\<lambda>l. l \<le> d) ls" using Cons.prems(2) by simp_all
  from Cons.prems(3) l obtain v where v: "am_filled_subtrees s l = Some v" "v < bn256_modulus"
    and z: "am_zeroes s l = Some (zero l)" using assms(5) by (auto simp: am_levels_ok_def)
  have zl: "zero l < bn256_modulus"
    using get_zeroes_nth_canonical [of l] assms(5,6) l by simp
  show ?case
  proof (cases "odd i")
    case True
    then have i: "i mod 2 = 1" by presburger
    note hash = poseidon2_compress_ok [OF assms(1) v(2) Cons.prems(1)]
    have "am_update_path P (l # ls) i cur s =
        am_update_path P ls (i div 2) (compress_val P v cur) s"
      using v(1) i by (simp add: hash)
    with Cons.IH [OF compress_val_canonical ls Cons.prems(3), of "i div 2" P v cur] True v(1)
    show ?thesis by (simp add: stored_def [of _ l])
  next
    case False
    then have i: "i mod 2 \<noteq> 1" by presburger
    define s' where "s' = s\<lparr>am_filled_subtrees := (am_filled_subtrees s)(l \<mapsto> cur)\<rparr>"
    have ok: "am_levels_ok d s'"
      using Cons.prems(1,3) by (auto simp: am_levels_ok_def s'_def)
    note hash = poseidon2_compress_ok [OF assms(1) Cons.prems(1) zl]
    have "am_update_path P (l # ls) i cur s =
        am_update_path P ls (i div 2) (compress_val P cur (zero l)) s'"
      using z i by (simp add: s'_def Let_def hash)
    moreover have "stored (am_filled_subtrees s') = (stored (am_filled_subtrees s))(l := cur)"
      and "s'\<lparr>am_filled_subtrees := M\<rparr> = s\<lparr>am_filled_subtrees := M\<rparr>" for M
      by (simp_all add: s'_def)
    ultimately show ?thesis
      using Cons.IH [OF compress_val_canonical ls ok, of "i div 2" P cur "zero l"] False
      by (simp only: climb.simps if_False)
  qed
qed

lemma am_insert_leaf_rel:
  assumes host: "host_permutation_ok P" "zero_table_ok P" and rel: "asp_tree_rel P d leaves s"
    and room: "length leaves < 2 ^ d" and canon: "leaf < bn256_modulus"
    and auth: "am_check_insert_auth auth s = Inr ()"
  shows "\<exists>s'. am_insert_leaf P auth leaf s =
      Inr ([\<lparr>la_leaf = leaf, la_index = length leaves,
             la_root = merkle_root_of (compress_val P) (get_zeroes ! 0) d (leaves @ [leaf])\<rparr>], s') \<and>
    asp_tree_rel P d (leaves @ [leaf]) s'"
proof -
  let ?H = "compress_val P" and ?z = "get_zeroes ! 0"
  let ?zero = "zero_chain ?H ?z" and ?n = "length leaves"
  let ?F = "stored (am_filled_subtrees s)" and ?R = "merkle_root_of (compress_val P) (get_zeroes ! 0) d (leaves @ [leaf])"
  have d: "0 < d" "d \<le> 32" and store: "am_levels s = Some d" "am_next_index s = Some ?n"
    "am_admin s \<noteq> None"
    and lv: "am_levels_ok d s" and fill: "filled_ok ?H ?z 0 d leaves ?F"
    using rel by (simp_all add: asp_tree_rel_def)
  have "(2::nat) ^ d \<le> 2 ^ 32" using d by (intro power_increasing) auto
  then have small: "?n + 1 < 2 ^ 64" "(2::nat) ^ d < 2 ^ 64" using room by simp_all
  have zs: "get_zeroes ! l = ?zero l" if "l \<le> d" for l
    by (rule zero_table_chain [OF host(2)]) (use that d(2) in simp)
  have lvls: "list_all (\<lambda>l. l \<le> d) [0..<d]" by (simp add: list_all_iff)
  obtain M where path: "am_update_path P [0..<d] ?n leaf s =
      Inr (fst (climb ?H ?zero [0..<d] ?n leaf ?F), s\<lparr>am_filled_subtrees := M\<rparr>)"
    and M: "stored M = snd (climb ?H ?zero [0..<d] ?n leaf ?F)"
    and lv': "am_levels_ok d (s\<lparr>am_filled_subtrees := M\<rparr>)"
    using am_update_path_climb [OF host(1) canon lvls lv zs d(2)] by blast
  have root: "fst (climb ?H ?zero [0..<d] ?n leaf ?F) = ?R"
    using chain.climb_root [of 0 leaves "[leaf]" d ?H ?z ?F leaf] room fill by (simp add: nth_append)
  have fill': "filled_ok ?H ?z 0 d (leaves @ [leaf]) (stored M)"
    using chain.climb_filled [of 0 leaves "[leaf]" d ?H ?z ?F leaf] fill M by (simp add: nth_append)
  have ins: "am_insert_leaf P auth leaf s =
      Inr ([\<lparr>la_leaf = leaf, la_index = ?n, la_root = ?R\<rparr>],
        s\<lparr>am_filled_subtrees := M, am_root := Some ?R, am_next_index := Some (?n + 1)\<rparr>)"
    using store room small d path auth
    by (simp add: am_insert_leaf_def root nat_checked_add_def u64_checked_shl_def)
  show ?thesis
    using ins d store room lv' fill' by (auto simp: asp_tree_rel_def am_levels_ok_def)
qed

lemma am_insert_leaf_full:
  assumes rel: "asp_tree_rel P d leaves s" and full: "length leaves = 2 ^ d"
    and auth: "am_check_insert_auth auth s = Inr ()"
  shows "am_insert_leaf P auth leaf s = Inl (Err Asp_MerkleTreeFull)"
proof -
  have d: "d \<le> 32" using rel by (simp add: asp_tree_rel_def)
  then have "(2::nat) ^ d \<le> 2 ^ 32" by (intro power_increasing) auto
  then have "(2::nat) ^ d < 2 ^ 64" by simp
  with rel d full auth show ?thesis
    by (simp add: am_insert_leaf_def asp_tree_rel_def u64_checked_shl_def)
qed

text \<open>A successful insertion passed every check.\<close>

lemma am_insert_leaf_InrD:
  assumes host: "host_permutation_ok P" "zero_table_ok P" and rel: "asp_tree_rel P d leaves s"
    and ins: "am_insert_leaf P auth leaf s = Inr r"
  shows "am_check_insert_auth auth s = Inr ()" "length leaves < 2 ^ d" "leaf < bn256_modulus"
proof -
  show auth: "am_check_insert_auth auth s = Inr ()"
    using ins by (auto simp: am_insert_leaf_def outcome_simps)
  show "length leaves < 2 ^ d"
  proof (rule ccontr)
    assume "\<not> length leaves < 2 ^ d"
    with rel have "length leaves = 2 ^ d" by (simp add: asp_tree_rel_def)
    from am_insert_leaf_full [OF rel this auth, of leaf] ins show False by simp
  qed
  show "leaf < bn256_modulus"
  proof (rule ccontr)
    assume out: "\<not> leaf < bn256_modulus"
    have trap: "poseidon2_compress P x leaf = (Inl Trap :: (asp_membership_error, u256) outcome)"
      "poseidon2_compress P leaf x = (Inl Trap :: (asp_membership_error, u256) outcome)" for x
      using out by (simp_all add: poseidon2_compress_trap)
    have "0 < d" using rel by (simp add: asp_tree_rel_def)
    then have "[0..<d] = 0 # [1..<d]" by (simp add: upt_conv_Cons)
    then have "am_update_path P [0..<d] i leaf s \<noteq> Inr r" for i r
      by (auto simp: trap outcome_simps Let_def)
    with ins rel show False
      by (auto simp: am_insert_leaf_def asp_tree_rel_def outcome_simps)
  qed
qed

text \<open>Insertion leaves the administrator and the insertion policy alone.\<close>

lemma am_update_path_frame:
  "am_update_path P ls i cur s = Inr (h, s') \<Longrightarrow>
    am_admin s' = am_admin s \<and> am_admin_insert_only s' = am_admin_insert_only s"
  by (induction P ls i cur s rule: am_update_path.induct)
    (auto simp: outcome_simps Let_def split: if_splits)

lemma am_insert_leaf_frame:
  "am_insert_leaf P auth leaf s = Inr (evs, s') \<Longrightarrow>
    am_admin s' = am_admin s \<and> am_admin_insert_only s' = am_admin_insert_only s"
  by (auto simp: am_insert_leaf_def outcome_simps dest!: am_update_path_frame)

lemma asp_log_append:
  "asp_log P d (leaves @ [leaf]) = asp_log P d leaves @
    [\<lparr>la_leaf = leaf, la_index = length leaves,
      la_root = merkle_root_of (compress_val P) (get_zeroes ! 0) d (leaves @ [leaf])\<rparr>]"
  by (simp add: asp_log_def nth_append)

lemma asp_log_leaves: "map la_leaf (asp_log P d leaves) = leaves"
  by (rule nth_equalityI) (simp_all add: asp_log_def)

lemma am_admin_calls_rel:
  assumes "asp_tree_rel P d leaves s"
  shows "am_update_admin auth a s = Inr s' \<Longrightarrow> asp_tree_rel P d leaves s'"
    and "am_set_admin_insert_only auth b s = Inr s' \<Longrightarrow> asp_tree_rel P d leaves s'"
  using assms
  by (auto simp: am_update_admin_def am_set_admin_insert_only_def outcome_simps
      update_admin_Inr_iff asp_tree_rel_def am_levels_ok_def split: if_splits)

lemma am_reachable_rel:
  assumes "host_permutation_ok P" and "zero_table_ok P" and "am_reachable P d log s"
  shows "asp_tree_rel P d (map la_leaf log) s \<and> asp_log P d (map la_leaf log) = log"
  using assms(3)
proof induction
  case (am_init admin s)
  then have "0 < d \<and> d \<le> 32" by (auto simp: am_constructor_def split: if_splits)
  with am_init am_constructor_rel [OF assms(2), of d admin] show ?case by (auto simp: asp_log_def)
next
  case (am_call log s auth call evs s')
  then show ?case
  proof (cases call)
    case (AM_InsertLeaf leaf)
    then have ins: "am_insert_leaf P auth leaf s = Inr (evs, s')" using am_call by simp
    note rel = am_call.IH [THEN conjunct1]
    note pre = am_insert_leaf_InrD [OF assms(1,2) rel ins]
    from am_insert_leaf_rel [OF assms(1,2) rel pre(2,3,1)] ins am_call.IH show ?thesis
      by (auto simp: asp_log_append)
  next
    case (AM_UpdateAdmin a)
    then have "am_update_admin auth a s = Inr s'" and "evs = []"
      using am_call.hyps(2) by (auto simp: outcome_simps)
    with am_admin_calls_rel(1) am_call.IH show ?thesis by auto
  next
    case (AM_SetAdminInsertOnly b)
    then have "am_set_admin_insert_only auth b s = Inr s'" and "evs = []"
      using am_call.hyps(2) by (auto simp: outcome_simps)
    with am_admin_calls_rel(2) am_call.IH show ?thesis by auto
  qed
qed

section \<open>Properties\<close>

text \<open>
  C3: In every state that the membership contract reaches from its constructor through successful
  calls of any kind, in any order and by any callers, the stored root is the Merkle root of the leaves
  reported by the published events, and the k-th event carries the index k and the root after its
  own leaf: an observer rebuilds the whole tree from the log.
\<close>

theorem asp_membership_log:
  assumes "host_permutation_ok P" and "zero_table_ok P" and "am_reachable P d log s"
  shows "am_get_root s =
      Inr (merkle_root_of (compress_val P) (get_zeroes ! 0) d (map la_leaf log)) \<and>
    log = asp_log P d (map la_leaf log) \<and> length log \<le> 2 ^ d"
  using am_reachable_rel [OF assms] by (auto simp: am_get_root_def asp_tree_rel_def)

lemma sample_asp_reachable:
  "\<exists>log s. am_reachable sample_host 2 log s \<and> map la_leaf log = [11] \<and> am_admin s = Some ''admin'' \<and>
    am_admin_insert_only s = Some True"
proof -
  note host = sample_host_ok sample_host_zero_table
  obtain s0 where s0: "am_constructor ''admin'' 2 empty_asp_membership_store = Inr s0"
    and rel: "asp_tree_rel sample_host 2 [] s0" and adm: "am_admin s0 = Some ''admin''"
    "am_admin_insert_only s0 = Some True"
    using am_constructor_rel [OF host(2), of 2 "''admin''"] by auto
  have auth: "am_check_insert_auth (\<lambda>a. a = ''admin'') s0 = Inr ()"
    using adm by (simp add: am_check_insert_auth_def)
  have lt: "(11::u256) < bn256_modulus" by (simp add: bn256_modulus_eq u256_eval)
  obtain ev s1 where ins: "am_insert_leaf sample_host (\<lambda>a. a = ''admin'') 11 s0 = Inr ([ev], s1)"
    "la_leaf ev = 11" using am_insert_leaf_rel [OF host rel _ lt auth] by auto
  then have "am_reachable sample_host 2 ([] @ [ev]) s1"
    by (intro am_call [OF am_init [OF s0], where call = "AM_InsertLeaf 11"]) simp
  moreover have "am_admin s1 = am_admin s0 \<and> am_admin_insert_only s1 = am_admin_insert_only s0"
    by (rule am_insert_leaf_frame [OF ins(1)])
  ultimately show ?thesis using ins(2) adm by (intro exI [of _ "[ev]"] exI [of _ s1]) simp
qed


lemma asp_membership_log_witness:
  "\<exists>log s. map la_leaf log = [11] \<and> am_get_root s =
      Inr (merkle_root_of (compress_val sample_host) (get_zeroes ! 0) 2 (map la_leaf log)) \<and>
    log = asp_log sample_host 2 (map la_leaf log) \<and> length log \<le> 2 ^ 2"
proof -
  from sample_asp_reachable obtain log s
    where r: "am_reachable sample_host 2 log s" "map la_leaf log = [11]" by (elim exE conjE)
  from asp_membership_log [OF sample_host_ok sample_host_zero_table r(1)] r(2) show ?thesis
    by (intro exI [of _ log] exI [of _ s] conjI) (elim conjE, assumption)+
qed

text \<open>
  Who may do what in a reachable state. The administrator's authorisation is required to hand over
  the role, to change the insertion policy and, while the policy is the default one, to insert; without
  it each of these calls traps and changes nothing. With an open policy any caller inserts. An
  authorised field element goes into every tree that is not full, and a full tree answers
  \<open>MerkleTreeFull\<close>.
\<close>

theorem asp_membership_access:
  assumes "host_permutation_ok P" and "zero_table_ok P" and "am_reachable P d log s"
    and "am_admin s = Some admin"
  shows "(\<not> auth admin \<longrightarrow> am_update_admin auth a s = Inl Trap \<and>
      am_set_admin_insert_only auth b s = Inl Trap \<and>
      (am_admin_insert_only s = Some True \<longrightarrow> am_insert_leaf P auth leaf s = Inl Trap)) \<and>
    (auth admin \<longrightarrow> am_update_admin auth a s = Inr (s\<lparr>am_admin := Some a\<rparr>) \<and>
      am_set_admin_insert_only auth b s = Inr (s\<lparr>am_admin_insert_only := Some b\<rparr>)) \<and>
    (auth admin \<or> am_admin_insert_only s = Some False \<longrightarrow>
      (length log < 2 ^ d \<longrightarrow> is_ok (am_insert_leaf P auth leaf s) = (leaf < bn256_modulus)) \<and>
      (length log = 2 ^ d \<longrightarrow> am_insert_leaf P auth leaf s = Inl (Err Asp_MerkleTreeFull)))"
proof -
  note rel = am_reachable_rel [OF assms(1-3), THEN conjunct1]
  have denied: "am_insert_leaf P auth leaf s = Inl Trap"
    if "\<not> auth admin" "am_admin_insert_only s = Some True"
    using that assms(4) by (simp add: am_insert_leaf_def am_check_insert_auth_def)
  have granted: "am_check_insert_auth auth s = Inr ()"
    if "auth admin \<or> am_admin_insert_only s = Some False"
    using that assms(4) by (auto simp: am_check_insert_auth_def)
  have ok: "is_ok (am_insert_leaf P auth leaf s) = (leaf < bn256_modulus)"
    if "am_check_insert_auth auth s = Inr ()" "length log < 2 ^ d"
    using am_insert_leaf_rel [OF assms(1,2) rel _ _ that(1), of leaf] that(2)
      am_insert_leaf_InrD(3) [OF assms(1,2) rel, of auth leaf] by (auto simp: is_ok_iff)
  have full: "am_insert_leaf P auth leaf s = Inl (Err Asp_MerkleTreeFull)"
    if "am_check_insert_auth auth s = Inr ()" "length log = 2 ^ d"
    using am_insert_leaf_full [OF rel _ that(1)] that(2) by simp
  show ?thesis
    using denied granted ok full assms(4)
    by (auto simp: am_update_admin_def am_set_admin_insert_only_def update_admin_def)
qed

lemma asp_membership_access_witness:
  "\<exists>log s. am_reachable sample_host 2 log s \<and> am_admin s = Some ''admin'' \<and>
    am_update_admin (\<lambda>a. a = ''eve'') ''eve'' s = Inl Trap \<and>
    am_insert_leaf sample_host (\<lambda>a. a = ''eve'') 7 s = Inl Trap \<and>
    is_ok (am_insert_leaf sample_host (\<lambda>a. a = ''admin'') 7 s)"
proof -
  from sample_asp_reachable obtain log s
    where r: "am_reachable sample_host 2 log s" "map la_leaf log = [11]"
      "am_admin s = Some ''admin''" "am_admin_insert_only s = Some True" by (elim exE conjE)
  have len: "length log = 1" using arg_cong [OF r(2), of length] by simp
  have lt: "(7::u256) < bn256_modulus" by (simp add: bn256_modulus_eq u256_eval)
  note acc = asp_membership_access [OF sample_host_ok sample_host_zero_table r(1,3)]
  show ?thesis
    using acc [of "\<lambda>a. a = ''eve''" "''eve''" True 7] acc [of "\<lambda>a. a = ''admin''" "''admin''" True 7]
      r len lt by (intro exI [of _ log] exI [of _ s]) simp
qed

end
