(* ===== verification/Public_Key_Registry.thy ===== *)
theory Public_Key_Registry
  imports Prelude
begin

text \<open>
  The public key registry (\<open>contracts/public-key-registry/src/lib.rs\<close>): one registration per address,
  and one event per change. The theory shows that the event stream determines the stored keys.
\<close>

section \<open>Definitions\<close>

record account =
  acc_owner :: address
  acc_encryption_key :: bytes
  acc_note_key :: bytes

record registration =
  reg_encryption_key :: bytes
  reg_note_key :: bytes

record public_key_event =
  pk_owner :: address
  pk_encryption_key :: bytes
  pk_note_key :: bytes

type_synonym registry = "address \<rightharpoonup> registration"

text \<open>The entry point has no error type: a failed assertion or authorisation is a trap.\<close>

definition register ::
  "(address \<Rightarrow> bool) \<Rightarrow> account \<Rightarrow> registry \<Rightarrow> (unit, public_key_event list \<times> registry) outcome" where
  "register auth account store =
    let_ok (require (auth (acc_owner account)) Trap) (\<lambda>_.
    let_ok (require (length (acc_encryption_key account) = 32) Trap) (\<lambda>_.
    let_ok (require (length (acc_note_key account) = 32) Trap) (\<lambda>_.
    let key = acc_owner account;
        next_reg = \<lparr>reg_encryption_key = acc_encryption_key account,
                reg_note_key = acc_note_key account\<rparr> in
    if store key = Some next_reg then Inr ([], store)
    else Inr ([\<lparr>pk_owner = acc_owner account, pk_encryption_key = acc_encryption_key account,
                pk_note_key = acc_note_key account\<rparr>], store(key \<mapsto> next_reg)))))"

inductive registry_reachable :: "public_key_event list \<Rightarrow> registry \<Rightarrow> bool" where
  registry_init: "registry_reachable [] Map.empty"
| registry_call: "registry_reachable log store \<Longrightarrow> register auth account store = Inr (evs, store') \<Longrightarrow>
    registry_reachable (log @ evs) store'"

text \<open>What an observer of the events computes.\<close>

definition replay_event :: "public_key_event \<Rightarrow> registry \<Rightarrow> registry" where
  "replay_event e store =
    store(pk_owner e \<mapsto> \<lparr>reg_encryption_key = pk_encryption_key e, reg_note_key = pk_note_key e\<rparr>)"

section \<open>Properties\<close>

lemma register_InrD:
  assumes "register auth account store = Inr (evs, store')"
  shows "length (acc_encryption_key account) = 32" "length (acc_note_key account) = 32"
    "store' = store(acc_owner account \<mapsto> \<lparr>reg_encryption_key = acc_encryption_key account,
      reg_note_key = acc_note_key account\<rparr>)"
    "store' = fold replay_event evs store"
proof -
  let ?next = "\<lparr>reg_encryption_key = acc_encryption_key account, reg_note_key = acc_note_key account\<rparr>"
  show "length (acc_encryption_key account) = 32" "length (acc_note_key account) = 32"
    using assms by (auto simp: register_def outcome_simps)
  have "(evs = [] \<and> store' = store \<and> store (acc_owner account) = Some ?next) \<or>
    (\<exists>e. evs = [e] \<and> store' = store(acc_owner account \<mapsto> ?next) \<and> store' = replay_event e store)"
    using assms
    by (auto simp: register_def outcome_simps Let_def replay_event_def split: if_splits)
  then show "store' = store(acc_owner account \<mapsto> ?next)" "store' = fold replay_event evs store"
    using map_upd_triv [of store "acc_owner account" ?next] by auto
qed

text \<open>
  C11: In every reachable state, replaying the published events from the empty registry gives exactly
  the stored registrations, and every stored key has 32 bytes: discovery by events never misses a
  change and never reports one that was not stored.
\<close>

theorem registry_events_replay:
  assumes "registry_reachable log store"
  shows "fold replay_event log Map.empty = store \<and>
    (\<forall>r \<in> ran store. length (reg_encryption_key r) = 32 \<and> length (reg_note_key r) = 32)"
  using assms
proof induction
  case registry_init
  then show ?case by simp
next
  case (registry_call log store auth account evs store')
  note call = register_InrD [OF registry_call.hyps(2)]
  have "fold replay_event (log @ evs) Map.empty = store'" using registry_call.IH call(4) by simp
  moreover have "\<forall>r \<in> ran store'. length (reg_encryption_key r) = 32 \<and> length (reg_note_key r) = 32"
    using call(1,2) registry_call.IH unfolding call(3) ran_def by (auto split: if_splits)
  ultimately show ?case by blast
qed

lemma registry_events_replay_witness:
  "fold replay_event [\<lparr>pk_owner = ''alice'', pk_encryption_key = replicate 32 1,
      pk_note_key = replicate 32 2\<rparr>] Map.empty =
    [''alice'' \<mapsto> \<lparr>reg_encryption_key = replicate 32 1, reg_note_key = replicate 32 2\<rparr>]"
proof -
  let ?acc = "\<lparr>acc_owner = ''alice'', acc_encryption_key = replicate 32 (1::u8),
      acc_note_key = replicate 32 (2::u8)\<rparr>"
  have "register (\<lambda>_. True) ?acc Map.empty =
      Inr ([\<lparr>pk_owner = ''alice'', pk_encryption_key = replicate 32 1, pk_note_key = replicate 32 2\<rparr>],
        [''alice'' \<mapsto> \<lparr>reg_encryption_key = replicate 32 1, reg_note_key = replicate 32 2\<rparr>])"
    by (simp add: register_def)
  from registry_events_replay [OF registry_call [OF registry_init this]] show ?thesis by simp
qed

end
