(* ===== verification/Smt_Spec.thy ===== *)
theory Smt_Spec
  imports Soroban_Utils
begin

text \<open>
  The abstract sparse Merkle tree behind the ASP non-membership contract: trees whose leaves hold a
  key and a value at the position given by the bits of the key, least significant first. The theory
  has the well-formedness invariant, the path to a key as a list of sibling trees, insertion and
  deletion on that path, and the proof that a well-formed tree is determined by its entries.
\<close>

section \<open>Trees and paths\<close>

datatype smt = SE | SL u256 u256 | SN smt smt

fun smt_entries :: "smt \<Rightarrow> (u256 \<times> u256) set" where
  "smt_entries SE = {}"
| "smt_entries (SL k v) = {(k, v)}"
| "smt_entries (SN l r) = smt_entries l \<union> smt_entries r"

fun smt_subtrees :: "smt \<Rightarrow> smt set" where
  "smt_subtrees SE = {SE}"
| "smt_subtrees (SL k v) = {SL k v}"
| "smt_subtrees (SN l r) = {SN l r} \<union> smt_subtrees l \<union> smt_subtrees r"

text \<open>The tree around a subtree: the siblings from the root down, and the side taken at each level.\<close>

fun plug :: "(nat \<Rightarrow> bool) \<Rightarrow> nat \<Rightarrow> smt list \<Rightarrow> smt \<Rightarrow> smt" where
  "plug b i [] t = t"
| "plug b i (s # ss) t =
     (if b i then SN s (plug b (Suc i) ss t) else SN (plug b (Suc i) ss t) s)"

fun descend :: "(nat \<Rightarrow> bool) \<Rightarrow> nat \<Rightarrow> smt \<Rightarrow> smt list \<times> smt" where
  "descend b i (SN l r) =
     (if b i then (case descend b (Suc i) r of (ss, f) \<Rightarrow> (l # ss, f))
      else (case descend b (Suc i) l of (ss, f) \<Rightarrow> (r # ss, f)))"
| "descend b i SE = ([], SE)"
| "descend b i (SL k v) = ([], SL k v)"

definition smt_lookup :: "smt \<Rightarrow> u256 \<Rightarrow> u256 option" where
  "smt_lookup t k = (case snd (descend (bit k) 0 t) of
     SL k' v \<Rightarrow> if k' = k then Some v else None | _ \<Rightarrow> None)"

text \<open>A node with fewer than two leaves below it is never built: such a subtree is a leaf or empty.\<close>

definition collapsible :: "smt \<Rightarrow> smt \<Rightarrow> bool" where
  "collapsible l r \<longleftrightarrow>
    (case (l, r) of (SE, SE) \<Rightarrow> True | (SE, SL _ _) \<Rightarrow> True | (SL _ _, SE) \<Rightarrow> True | _ \<Rightarrow> False)"

text \<open>
  Well-formed subtrees at level \<open>i\<close> below the path \<open>p\<close>: every key lies on the path of its bits, keys and
  values are field elements, and no node is collapsible.
\<close>

fun smt_wf :: "nat \<Rightarrow> (nat \<Rightarrow> bool) \<Rightarrow> smt \<Rightarrow> bool" where
  "smt_wf i p SE = True"
| "smt_wf i p (SL k v) = ((\<forall>j < i. bit k j = p j) \<and> k < bn256_modulus \<and> v < bn256_modulus)"
| "smt_wf i p (SN l r) = (i < 256 \<and> smt_wf (Suc i) (p(i := False)) l \<and>
     smt_wf (Suc i) (p(i := True)) r \<and> \<not> collapsible l r)"

lemma collapsible_simps [simp]:
  "collapsible SE r \<longleftrightarrow> (r = SE \<or> (\<exists>k v. r = SL k v))"
  "collapsible l SE \<longleftrightarrow> (l = SE \<or> (\<exists>k v. l = SL k v))"
  "\<not> collapsible (SN a b) r"
  "\<not> collapsible l (SN a b)"
  "\<not> collapsible (SL k v) (SL k' v')"
  by (auto simp: collapsible_def split: smt.splits)

lemma plug_descend: "descend b i t = (ss, f) \<Longrightarrow> plug b i ss f = t"
  by (induction b i t arbitrary: ss f rule: descend.induct) (auto split: prod.splits if_splits)

lemma descend_focus: "descend b i t = (ss, f) \<Longrightarrow> f = SE \<or> (\<exists>k v. f = SL k v)"
  by (induction b i t arbitrary: ss f rule: descend.induct) (auto split: prod.splits if_splits)

lemma descend_plug:
  "f = SE \<or> (\<exists>k v. f = SL k v) \<Longrightarrow> descend b i (plug b i ss f) = (ss, f)"
  by (induction b i ss f rule: plug.induct) auto

lemma plug_append: "plug b i (ss @ ss') t = plug b i ss (plug b (i + length ss) ss' t)"
  by (induction b i ss t rule: plug.induct) auto

lemma entries_plug: "smt_entries (plug b i ss t) = (\<Union>s \<in> set ss. smt_entries s) \<union> smt_entries t"
  by (induction b i ss t rule: plug.induct) auto

lemma subtrees_refl [simp, intro]: "t \<in> smt_subtrees t"
  by (cases t) auto

lemma subtrees_entries: "u \<in> smt_subtrees t \<Longrightarrow> smt_entries u \<subseteq> smt_entries t"
  by (induction t) auto

lemma subtrees_size: "u \<in> smt_subtrees t \<Longrightarrow> size u \<le> size t"
  by (induction t) auto

lemma finite_subtrees [simp]: "finite (smt_subtrees t)"
  by (induction t) auto

text \<open>The subtrees of a plugged tree: those on the path, those of the siblings and of the focus.\<close>

lemma subtrees_plug:
  "smt_subtrees (plug b i ss t) =
    {plug b (i + j) (drop j ss) t | j. j < length ss} \<union> (\<Union>s \<in> set ss. smt_subtrees s) \<union> smt_subtrees t"
proof (induction ss arbitrary: i)
  case Nil
  then show ?case by simp
next
  case (Cons s ss)
  have "{plug b (i + j) (drop j (s # ss)) t | j. j < length (s # ss)} =
      insert (plug b i (s # ss) t) {plug b (Suc i + j) (drop j ss) t | j. j < length ss}"
    (is "?A = ?B")
  proof
    show "?A \<subseteq> ?B"
    proof
      fix x assume "x \<in> ?A"
      then obtain j where j: "x = plug b (i + j) (drop j (s # ss)) t" "j < length (s # ss)" by blast
      then show "x \<in> ?B" by (cases j) auto
    qed
    show "?B \<subseteq> ?A" by (auto intro: exI [of _ 0] exI [of _ "Suc _"])
  qed
  then show ?case using Cons.IH [of "Suc i"] by auto
qed

section \<open>Entries of well-formed trees\<close>

lemma wf_entries: "smt_wf i p t \<Longrightarrow> (k, v) \<in> smt_entries t \<Longrightarrow> j < i \<Longrightarrow> bit k j = p j"
proof (induction t arbitrary: i p)
  case (SN l r)
  have sub: "smt_wf (Suc i) (p(i := False)) l" "smt_wf (Suc i) (p(i := True)) r" "j < Suc i"
    using SN.prems by simp_all
  from SN.prems(2) have "(k, v) \<in> smt_entries l \<or> (k, v) \<in> smt_entries r" by simp
  then have "bit k j = (p(i := False)) j \<or> bit k j = (p(i := True)) j"
    using SN.IH(1) [OF sub(1) _ sub(3)] SN.IH(2) [OF sub(2) _ sub(3)] by blast
  with SN.prems(3) show ?case by auto
qed auto

lemma wf_entries_canonical:
  "smt_wf i p t \<Longrightarrow> (k, v) \<in> smt_entries t \<Longrightarrow> k < bn256_modulus \<and> v < bn256_modulus"
proof (induction t arbitrary: i p)
  case (SN l r)
  have sub: "smt_wf (Suc i) (p(i := False)) l" "smt_wf (Suc i) (p(i := True)) r"
    using SN.prems by simp_all
  from SN.prems(2) have "(k, v) \<in> smt_entries l \<or> (k, v) \<in> smt_entries r" by simp
  then show ?case using SN.IH(1) [OF sub(1)] SN.IH(2) [OF sub(2)] by blast
qed auto

lemma wf_cong: "(\<And>j. j < i \<Longrightarrow> p j = q j) \<Longrightarrow> smt_wf i p t = smt_wf i q t"
proof (induction t arbitrary: i p q)
  case (SN l r)
  have "smt_wf (Suc i) (p(i := x)) l = smt_wf (Suc i) (q(i := x)) l"
    "smt_wf (Suc i) (p(i := x)) r = smt_wf (Suc i) (q(i := x)) r" for x
    by (intro SN.IH; use SN.prems in \<open>auto simp: less_Suc_eq\<close>)+
  then show ?case by simp
qed auto

lemma wf_sides:
  assumes "smt_wf i p (SN l r)"
  shows "(k, v) \<in> smt_entries l \<Longrightarrow> \<not> bit k i" and "(k, v) \<in> smt_entries r \<Longrightarrow> bit k i"
  using assms wf_entries [of "Suc i" "p(i := False)" l k v i] wf_entries [of "Suc i" "p(i := True)" r k v i]
  by auto

text \<open>A well-formed tree is empty exactly if it has no entries, and a node has at least two.\<close>

lemma wf_two_entries:
  "smt_wf i p (SN l r) \<Longrightarrow> \<exists>e e'. e \<in> smt_entries (SN l r) \<and> e' \<in> smt_entries (SN l r) \<and> e \<noteq> e'"
proof (induction "SN l r" arbitrary: l r i p)
  case (SN l r)
  have sub: "smt_wf (Suc i) (p(i := False)) l" "smt_wf (Suc i) (p(i := True)) r" "\<not> collapsible l r"
    using SN.prems by simp_all
  consider (left) a b where "l = SN a b" | (right) a b where "r = SN a b"
    | (leaves) k v k' v' where "l = SL k v" "r = SL k' v'"
    using sub(3) by (cases l; cases r) auto
  then show ?case
  proof cases
    case left
    from SN.hyps(1) [OF left] sub(1) left show ?thesis by fastforce
  next
    case right
    from SN.hyps(2) [OF right] sub(2) right show ?thesis by fastforce
  next
    case leaves
    moreover from this SN.prems have "\<not> bit k i" "bit k' i" by auto
    ultimately show ?thesis by auto
  qed
qed

lemma wf_no_entries: "smt_wf i p t \<Longrightarrow> smt_entries t = {} \<longleftrightarrow> t = SE"
proof (cases t)
  case (SN l r)
  assume "smt_wf i p t"
  then show ?thesis using wf_two_entries [of i p l r] SN by blast
qed auto

lemma wf_one_entry: "smt_wf i p t \<Longrightarrow> smt_entries t = {(k, v)} \<Longrightarrow> t = SL k v"
proof (cases t)
  case (SN l r)
  assume "smt_wf i p t" and one: "smt_entries t = {(k, v)}"
  then obtain e e' where "e \<in> smt_entries t" "e' \<in> smt_entries t" "e \<noteq> e'"
    using wf_two_entries [of i p l r] SN by blast
  with one show ?thesis by simp
qed auto

lemma wf_split:
  assumes "smt_wf i p (SN l r)"
  shows "smt_entries l = {e \<in> smt_entries (SN l r). \<not> bit (fst e) i}"
    and "smt_entries r = {e \<in> smt_entries (SN l r). bit (fst e) i}"
  using wf_sides [OF assms] by auto

text \<open>A well-formed tree is determined by its entries.\<close>

lemma wf_unique: "smt_wf i p t \<Longrightarrow> smt_wf i p t' \<Longrightarrow> smt_entries t = smt_entries t' \<Longrightarrow> t = t'"
proof (induction t arbitrary: i p t')
  case SE
  then show ?case using wf_no_entries [of i p t'] by auto
next
  case (SL k v)
  then show ?case using wf_one_entry [of i p t' k v] by auto
next
  case (SN l r)
  then obtain l' r' where t': "t' = SN l' r'"
    using wf_two_entries [OF SN.prems(1)] by (cases t') auto
  have side: "smt_entries l = smt_entries l'" "smt_entries r = smt_entries r'"
    unfolding wf_split [OF SN.prems(1)] wf_split [OF SN.prems(2) [unfolded t']]
      SN.prems(3) [unfolded t'] by simp_all
  have "smt_wf (Suc i) (p(i := False)) l" "smt_wf (Suc i) (p(i := False)) l'"
    "smt_wf (Suc i) (p(i := True)) r" "smt_wf (Suc i) (p(i := True)) r'"
    using SN.prems t' by simp_all
  with SN.IH side t' show ?case by blast
qed

text \<open>Lookup along the bits of the key finds exactly the entries.\<close>

lemma lookup_at:
  "smt_wf i p t \<Longrightarrow> (\<And>j. j < i \<Longrightarrow> bit k j = p j) \<Longrightarrow>
    (k, v) \<in> smt_entries t \<longleftrightarrow> snd (descend (bit k) i t) = SL k v"
proof (induction t arbitrary: i p)
  case (SN l r)
  note wf = SN.prems(1)
  have wf_l: "smt_wf (Suc i) (p(i := False)) l" and wf_r: "smt_wf (Suc i) (p(i := True)) r"
    using wf by simp_all
  show ?case
  proof (cases "bit k i")
    case True
    then have "(k, v) \<in> smt_entries (SN l r) \<longleftrightarrow> (k, v) \<in> smt_entries r"
      using wf_sides(1) [OF wf] by auto
    also have "\<dots> \<longleftrightarrow> snd (descend (bit k) (Suc i) r) = SL k v"
      using True SN.prems(2) by (intro SN.IH(2) [OF wf_r]) (auto simp: less_Suc_eq)
    finally show ?thesis using True by (simp split: prod.splits)
  next
    case False
    then have "(k, v) \<in> smt_entries (SN l r) \<longleftrightarrow> (k, v) \<in> smt_entries l"
      using wf_sides(2) [OF wf] by auto
    also have "\<dots> \<longleftrightarrow> snd (descend (bit k) (Suc i) l) = SL k v"
      using False SN.prems(2) by (intro SN.IH(1) [OF wf_l]) (auto simp: less_Suc_eq)
    finally show ?thesis using False by (simp split: prod.splits)
  qed
qed auto

lemma lookup_entries: "smt_wf 0 p t \<Longrightarrow> smt_lookup t k = Some v \<longleftrightarrow> (k, v) \<in> smt_entries t"
  using lookup_at [of 0 p t k v] by (auto simp: smt_lookup_def split: smt.splits if_splits)

lemma wf_lookup_unique:
  assumes "smt_wf 0 p t" and "smt_wf 0 p t'" and "smt_lookup t = smt_lookup t'"
  shows "t = t'"
proof (rule wf_unique [OF assms(1,2)])
  have "(k, v) \<in> smt_entries t \<longleftrightarrow> (k, v) \<in> smt_entries t'" for k v
    using lookup_entries [OF assms(1), of k v] lookup_entries [OF assms(2), of k v] assms(3) by simp
  then show "smt_entries t = smt_entries t'" by auto
qed

lemma lookup_None: "smt_wf 0 p t \<Longrightarrow> smt_lookup t k = None \<longleftrightarrow> (\<forall>v. (k, v) \<notin> smt_entries t)"
  using lookup_entries [of p t k] by (cases "smt_lookup t k") auto

section \<open>Well-formedness along a path\<close>

lemma collapsible_commute: "collapsible l r = collapsible r l"
  by (cases l; cases r) auto

lemma plug_Cons_SN: "\<exists>l r. plug b i (s # ss) f = SN l r"
  by (cases "b i") auto

lemma wf_plug_Cons:
  assumes "\<And>j. j < i \<Longrightarrow> p j = b j"
  shows "smt_wf i p (plug b i (s # ss) f) \<longleftrightarrow>
    i < 256 \<and> smt_wf (Suc i) (b(i := \<not> b i)) s \<and> smt_wf (Suc i) b (plug b (Suc i) ss f) \<and>
    \<not> collapsible s (plug b (Suc i) ss f)"
proof -
  have "smt_wf (Suc i) (p(i := x)) t = smt_wf (Suc i) (b(i := x)) t" for x t
    by (rule wf_cong) (use assms in \<open>auto simp: less_Suc_eq\<close>)
  moreover have "b(i := b i) = b" by simp
  ultimately show ?thesis
    by (cases "b i") (auto simp: collapsible_commute)
qed

text \<open>What is known of the parts of a well-formed tree on a path.\<close>

lemma wf_plug_ConsD:
  assumes "smt_wf i b (plug b i (s # ss) f)"
  shows "i < 256" "smt_wf (Suc i) (b(i := \<not> b i)) s" "smt_wf (Suc i) b (plug b (Suc i) ss f)"
    "\<not> collapsible s (plug b (Suc i) ss f)"
  using assms wf_plug_Cons [of i b b s ss f] by auto

lemma wf_plug_focus: "smt_wf i b (plug b i ss f) \<Longrightarrow> smt_wf (i + length ss) b f"
proof (induction ss arbitrary: i)
  case (Cons s ss)
  from Cons.IH [OF wf_plug_ConsD(3) [OF Cons.prems]] show ?case by simp
qed simp

lemma wf_plug_last: "smt_wf i b (plug b i ss f) \<Longrightarrow> ss \<noteq> [] \<Longrightarrow> \<not> collapsible (last ss) f"
proof (induction ss arbitrary: i)
  case (Cons s ss)
  from Cons.IH [OF wf_plug_ConsD(3) [OF Cons.prems(1)]] wf_plug_ConsD(4) [OF Cons.prems(1)]
  show ?case by (cases ss) simp_all
qed simp

lemma wf_plug_length: "smt_wf i b (plug b i ss f) \<Longrightarrow> ss \<noteq> [] \<Longrightarrow> i + length ss \<le> 256"
proof (induction ss arbitrary: i)
  case (Cons s ss)
  from Cons.IH [OF wf_plug_ConsD(3) [OF Cons.prems(1)]] wf_plug_ConsD(1) [OF Cons.prems(1)]
  show ?case by (cases "ss = []") simp_all
qed simp

lemma wf_plug_sibling:
  "smt_wf i b (plug b i ss f) \<Longrightarrow> j < length ss \<Longrightarrow>
    smt_wf (Suc (i + j)) (b(i + j := \<not> b (i + j))) (ss ! j)"
proof (induction ss arbitrary: i j)
  case (Cons s ss)
  note parts = wf_plug_ConsD [OF Cons.prems(1)]
  show ?case
  proof (cases j)
    case 0
    then show ?thesis using parts(2) by (simp del: fun_upd_apply)
  next
    case (Suc k)
    then show ?thesis using Cons.IH [OF parts(3), of k] Cons.prems(2) by (simp del: fun_upd_apply)
  qed
qed simp

text \<open>Another subtree in the same place.\<close>

lemma wf_plug_change:
  "smt_wf i b (plug b i ss f) \<Longrightarrow> smt_wf (i + length ss) b g \<Longrightarrow>
    (ss \<noteq> [] \<Longrightarrow> \<not> collapsible (last ss) g) \<Longrightarrow> smt_wf i b (plug b i ss g)"
proof (induction ss arbitrary: i)
  case (Cons s ss)
  note parts = wf_plug_ConsD [OF Cons.prems(1)]
  have "smt_wf (Suc i) b (plug b (Suc i) ss g)"
    using parts(3) Cons.prems(2,3) by (intro Cons.IH) auto
  moreover have "\<not> collapsible s (plug b (Suc i) ss g)"
    using Cons.prems(3) plug_Cons_SN [of b "Suc i" "hd ss" "tl ss" g] by (cases ss) auto
  ultimately show ?case using parts wf_plug_Cons [of i b b s ss g] by auto
qed simp

section \<open>Insertion\<close>

text \<open>The number of bits from level \<open>i\<close> on in which two keys agree.\<close>

function common_bits :: "u256 \<Rightarrow> u256 \<Rightarrow> nat \<Rightarrow> nat" where
  "common_bits a b i = (if i < 256 \<and> bit a i = bit b i then Suc (common_bits a b (Suc i)) else 0)"
  by auto
termination by (relation "measure (\<lambda>(_, _, i). 256 - i)") auto

declare common_bits.simps [simp del]

definition smt_insert :: "u256 \<Rightarrow> u256 \<Rightarrow> smt \<Rightarrow> smt" where
  "smt_insert key val t =
    (case descend (bit key) 0 t of
       (ss, SE) \<Rightarrow> plug (bit key) 0 ss (SL key val)
     | (ss, SL k v) \<Rightarrow>
         if k = key then t
         else plug (bit key) 0 (ss @ replicate (common_bits k key (length ss)) SE @ [SL k v]) (SL key val)
     | (ss, SN l r) \<Rightarrow> t)"

lemma common_bits_agree: "j < common_bits a b i \<Longrightarrow> bit a (i + j) = bit b (i + j)"
proof (induction a b i arbitrary: j rule: common_bits.induct)
  case (1 a b i)
  then show ?case
    using common_bits.simps [of a b i] by (cases j) (auto split: if_splits)
qed

lemma common_bits_bound: "i \<le> 256 \<Longrightarrow> i + common_bits a b i \<le> 256"
proof (induction a b i rule: common_bits.induct)
  case (1 a b i)
  then show ?case using common_bits.simps [of a b i] by auto
qed

lemma u256_bit_eqI: "(\<And>j. j < 256 \<Longrightarrow> bit a j = bit (b::u256) j) \<Longrightarrow> a = b"
  by (rule bit_word_eqI) simp

lemma common_bits_differ:
  assumes "a \<noteq> b" and "i \<le> 256" and "\<And>j. j < i \<Longrightarrow> bit a j = bit b j"
  shows "i + common_bits a b i < 256" and "bit a (i + common_bits a b i) \<noteq> bit b (i + common_bits a b i)"
proof -
  let ?n = "i + common_bits a b i"
  have agree: "bit a j = bit b j" if "j < ?n" for j
    using that assms(3) common_bits_agree [of "j - i" a b i] by (cases "j < i") auto
  show lt: "?n < 256"
  proof (rule ccontr)
    assume "\<not> ?n < 256"
    then have "a = b" using agree by (intro u256_bit_eqI) auto
    with assms(1) show False by simp
  qed
  have stop: "k < 256 \<Longrightarrow> common_bits a b k = 0 \<Longrightarrow> bit a k \<noteq> bit b k" for k
    using common_bits.simps [of a b k] by (auto split: if_splits)
  have "common_bits a b (k + common_bits a b k) = 0" for k
  proof (induction a b k rule: common_bits.induct)
    case (1 a b k)
    then show ?case using common_bits.simps [of a b k] by auto
  qed
  from stop [OF lt this] show "bit a ?n \<noteq> bit b ?n" .
qed

lemma wf_extension:
  assumes "key < bn256_modulus" "val < bn256_modulus" "k < bn256_modulus" "v < bn256_modulus"
  shows "n + m < 256 \<Longrightarrow> (\<And>j. j < n + m \<Longrightarrow> bit k j = bit key j) \<Longrightarrow> bit k (n + m) \<noteq> bit key (n + m) \<Longrightarrow>
    smt_wf n (bit key) (plug (bit key) n (replicate m SE @ [SL k v]) (SL key val))"
proof (induction m arbitrary: n)
  case 0
  then show ?case
    using assms wf_plug_Cons [of n "bit key" "bit key" "SL k v" "[]" "SL key val"]
    by (auto simp: less_Suc_eq)
next
  case (Suc m)
  have "smt_wf (Suc n) (bit key) (plug (bit key) (Suc n) (replicate m SE @ [SL k v]) (SL key val))"
    using Suc.prems by (intro Suc.IH) auto
  moreover have "\<exists>l r. plug (bit key) (Suc n) (replicate m SE @ [SL k v]) (SL key val) = SN l r"
    using plug_Cons_SN [of "bit key" "Suc n" "hd (replicate m SE @ [SL k v])"
        "tl (replicate m SE @ [SL k v])" "SL key val"] by (cases m) simp_all
  ultimately show ?case
    using Suc.prems(1) wf_plug_Cons [of n "bit key" "bit key" SE "replicate m SE @ [SL k v]" "SL key val"]
    by auto
qed


lemma smt_insert_spec:
  assumes wf: "smt_wf 0 (bit key) t" and new: "smt_lookup t key = None"
    and canon: "key < bn256_modulus" "val < bn256_modulus"
  shows "smt_wf 0 (bit key) (smt_insert key val t)"
    and "smt_entries (smt_insert key val t) = insert (key, val) (smt_entries t)"
proof -
  obtain ss f where d: "descend (bit key) 0 t = (ss, f)" by force
  have t: "t = plug (bit key) 0 ss f" using plug_descend [OF d] by simp
  note wf' = wf [unfolded t]
  consider (empty) "f = SE" | (leaf) k v where "f = SL k v" using descend_focus [OF d] by blast
  then have "smt_wf 0 (bit key) (smt_insert key val t) \<and>
    smt_entries (smt_insert key val t) = insert (key, val) (smt_entries t)"
  proof cases
    case empty
    have "smt_wf 0 (bit key) (plug (bit key) 0 ss (SL key val))"
    proof (rule wf_plug_change [OF wf'])
      show "\<not> collapsible (last ss) (SL key val)" if "ss \<noteq> []"
        using wf_plug_last [OF wf' that] empty by (cases "last ss") simp_all
    qed (use canon in simp)
    moreover have "smt_insert key val t = plug (bit key) 0 ss (SL key val)"
      using d empty by (simp add: smt_insert_def)
    moreover have "smt_entries t = (\<Union>s \<in> set ss. smt_entries s)"
      using t empty by (simp add: entries_plug)
    ultimately show ?thesis by (simp add: entries_plug)
  next
    case leaf
    have ne: "k \<noteq> key" using new by (auto simp: smt_lookup_def d leaf split: if_splits)
    have bits: "bit k j = bit key j" if "j < length ss" for j
      using wf_plug_focus [OF wf'] that by (simp add: leaf)
    have le: "length ss \<le> 256" using wf_plug_length [OF wf'] by (cases "ss = []") simp_all
    note dif = common_bits_differ [OF ne le bits]
    let ?ex = "replicate (common_bits k key (length ss)) SE @ [SL k v]"
    have kv: "k < bn256_modulus" "v < bn256_modulus" using wf_plug_focus [OF wf'] by (simp_all add: leaf)
    have agree: "bit k j = bit key j" if "j < length ss + common_bits k key (length ss)" for j
      using that bits common_bits_agree [of "j - length ss" k key "length ss"]
      by (cases "j < length ss") auto
    have ext: "smt_wf (length ss) (bit key) (plug (bit key) (length ss) ?ex (SL key val))"
      by (rule wf_extension [OF canon kv dif(1) agree dif(2)])
    obtain l r where sn: "plug (bit key) (length ss) ?ex (SL key val) = SN l r"
      using plug_Cons_SN [of "bit key" "length ss" "hd ?ex" "tl ?ex" "SL key val"]
      by (cases "common_bits k key (length ss)") auto
    have "smt_wf 0 (bit key) (plug (bit key) 0 ss (SN l r))"
      by (rule wf_plug_change [OF wf']) (use ext sn in simp_all)
    then have "smt_wf 0 (bit key) (plug (bit key) 0 (ss @ ?ex) (SL key val))"
      using plug_append [of "bit key" 0 ss ?ex "SL key val"] sn by simp
    moreover have "smt_insert key val t = plug (bit key) 0 (ss @ ?ex) (SL key val)"
      using d leaf ne by (simp add: smt_insert_def)
    moreover have "smt_entries (plug (bit key) 0 (ss @ ?ex) (SL key val)) = insert (key, val) (smt_entries t)"
      by (auto simp: entries_plug t leaf)
    ultimately show ?thesis by simp
  qed
  then show "smt_wf 0 (bit key) (smt_insert key val t)"
    "smt_entries (smt_insert key val t) = insert (key, val) (smt_entries t)" by simp_all
qed

section \<open>Deletion\<close>

definition smt_delete :: "u256 \<Rightarrow> smt \<Rightarrow> smt" where
  "smt_delete key t =
    (case descend (bit key) 0 t of
       (ss, SL k v) \<Rightarrow>
         if k \<noteq> key then t
         else (case rev ss of
             [] \<Rightarrow> SE
           | SL k' v' # rs \<Rightarrow> plug (bit key) 0 (rev (dropWhile ((=) SE) rs)) (SL k' v')
           | _ \<Rightarrow> plug (bit key) 0 ss SE)
     | _ \<Rightarrow> t)"

lemma smt_delete_spec:
  assumes wf: "smt_wf 0 (bit key) t" and old: "smt_lookup t key = Some val"
  shows "smt_wf 0 (bit key) (smt_delete key t)"
    and "smt_entries (smt_delete key t) = smt_entries t - {(key, val)}"
proof -
  obtain ss f where d: "descend (bit key) 0 t = (ss, f)" by force
  have f: "f = SL key val" using old by (auto simp: smt_lookup_def d split: smt.splits if_splits)
  have t: "t = plug (bit key) 0 ss f" using plug_descend [OF d] by simp
  note wf' = wf [unfolded t f]
  have ent: "smt_entries t = (\<Union>s \<in> set ss. smt_entries s) \<union> {(key, val)}"
    using t f by (simp add: entries_plug)
  have fresh: "(key, val) \<notin> (\<Union>s \<in> set ss. smt_entries s)"
  proof
    assume "(key, val) \<in> (\<Union>s \<in> set ss. smt_entries s)"
    then obtain j where j: "j < length ss" "(key, val) \<in> smt_entries (ss ! j)"
      by (auto simp: in_set_conv_nth)
    from wf_entries [OF wf_plug_sibling [OF wf' j(1)] j(2), of j] show False by simp
  qed
  have "smt_wf 0 (bit key) (smt_delete key t) \<and> smt_entries (smt_delete key t) = smt_entries t - {(key, val)}"
  proof (cases "rev ss")
    case Nil
    moreover from this have "smt_delete key t = SE" using d f by (simp add: smt_delete_def)
    ultimately show ?thesis using ent by simp
  next
    case (Cons s rs)
    then have ss: "ss = rev rs @ [s]" by (metis rev.simps(2) rev_rev_ident)
    have nE: "s \<noteq> SE" using wf_plug_last [OF wf'] by (auto simp: ss)
    show ?thesis
    proof (cases s)
      case (SL k v)
      let ?us = "rev (dropWhile ((=) SE) rs)"
      let ?zs = "rev (takeWhile ((=) SE) rs)"
      have rs: "rev rs = ?us @ ?zs" by (metis rev_append takeWhile_dropWhile_id)
      have zE: "z = SE" if "z \<in> set ?zs" for z using that set_takeWhileD [of z _ rs] by auto
      have g: "smt_wf (length ?us) (bit key) (SL k v)"
      proof -
        have "smt_wf (Suc (length (rev rs))) ((bit key)(length (rev rs) := \<not> bit key (length (rev rs)))) s"
          using wf_plug_sibling [OF wf', of "length (rev rs)"] by (simp add: ss nth_append del: fun_upd_apply)
        moreover have "length ?us \<le> length (rev rs)" by (simp add: length_dropWhile_le)
        ultimately show ?thesis by (auto simp: SL)
      qed
      have top: "smt_wf 0 (bit key) (plug (bit key) 0 ?us (plug (bit key) (length ?us) (?zs @ [s]) (SL key val)))"
        using wf' unfolding ss rs by (simp add: plug_append)
      have "\<not> collapsible (last ?us) (SL k v)" if "?us \<noteq> []"
      proof -
        have "last ?us = hd (dropWhile ((=) SE) rs)" using that by (simp add: last_rev)
        with hd_dropWhile [of "(=) SE" rs] that have "last ?us \<noteq> SE" by auto
        then show ?thesis by (cases "last ?us") auto
      qed
      with wf_plug_change [OF top] g have "smt_wf 0 (bit key) (plug (bit key) 0 ?us (SL k v))" by simp
      moreover have "(\<Union>s \<in> set ss. smt_entries s) = (\<Union>s \<in> set ?us. smt_entries s) \<union> {(k, v)}"
      proof -
        have "(\<Union>z \<in> set ?zs. smt_entries z) = {}" using zE by force
        then show ?thesis unfolding ss rs set_append UN_Un by (simp add: SL)
      qed
      moreover have "smt_delete key t = plug (bit key) 0 ?us (SL k v)"
        using d f Cons SL by (simp add: smt_delete_def)
      ultimately show ?thesis using fresh ent by (auto simp: entries_plug)
    next
      case (SN l r)
      have "smt_wf 0 (bit key) (plug (bit key) 0 ss SE)"
        using wf' by (rule wf_plug_change) (auto simp: ss SN)
      moreover have "smt_delete key t = plug (bit key) 0 ss SE"
        using d f Cons SN by (simp add: smt_delete_def)
      ultimately show ?thesis using fresh ent by (auto simp: entries_plug)
    qed (use nE in simp)
  qed
  then show "smt_wf 0 (bit key) (smt_delete key t)"
    "smt_entries (smt_delete key t) = smt_entries t - {(key, val)}" by simp_all
qed

end
