(* ===== verification/Asp_Non_Membership.thy ===== *)
theory Asp_Non_Membership
  imports Smt_Spec Sample_Host
begin

text \<open>
  The ASP non-membership contract (\<open>contracts/asp-non-membership/src/lib.rs\<close>): a sparse Merkle tree of
  blocked keys, every node of which is a storage entry under its hash. The theory has its storage and
  entry points, and the proof that they implement the abstract tree of \<open>Smt_Spec\<close>.
\<close>

section \<open>Definitions\<close>

datatype asp_non_membership_error =
    Smt_NotAuthorized
  | Smt_KeyNotFound
  | Smt_KeyAlreadyExists
  | Smt_InvalidProof
  | Smt_NotInitialized
  | Smt_Overflow

text \<open>One field for each variant of \<open>DataKey\<close>; the nodes are vectors of \<open>U256\<close> under their hash.\<close>

type_synonym smt_nodes = "u256 \<rightharpoonup> u256 list"

record smt_store =
  nm_admin :: "address option"
  nm_root :: "u256 option"
  nm_nodes :: smt_nodes

record find_result =
  fr_found :: bool
  fr_siblings :: "u256 list"
  fr_found_value :: u256
  fr_not_found_key :: u256
  fr_not_found_value :: u256
  fr_is_old0 :: bool

datatype smt_event =
    LeafInsertedEvent u256 u256 u256
  | LeafDeletedEvent u256 u256

definition empty_smt_store :: smt_store where
  "empty_smt_store = \<lparr>nm_admin = None, nm_root = None, nm_nodes = Map.empty\<rparr>"

definition nm_constructor :: "address \<Rightarrow> smt_store \<Rightarrow> (asp_non_membership_error, smt_store) outcome" where
  "nm_constructor admin s = Inr (s\<lparr>nm_admin := Some admin, nm_root := Some 0\<rparr>)"

definition nm_update_admin ::
  "(address \<Rightarrow> bool) \<Rightarrow> address \<Rightarrow> smt_store \<Rightarrow> (asp_non_membership_error, smt_store) outcome" where
  "nm_update_admin auth new_admin s =
    let_ok (update_admin auth (nm_admin s) new_admin) (\<lambda>a. Inr (s\<lparr>nm_admin := a\<rparr>))"

definition hash_leaf :: "poseidon2_host \<Rightarrow> u256 \<Rightarrow> u256 \<Rightarrow> (asp_non_membership_error, u256) outcome" where
  "hash_leaf P key val = poseidon2_hash2 P key val (Some 1)"

definition hash_internal :: "poseidon2_host \<Rightarrow> u256 \<Rightarrow> u256 \<Rightarrow> (asp_non_membership_error, u256) outcome" where
  "hash_internal P left right = poseidon2_compress P left right"

fun split_bits_loop :: "nat \<Rightarrow> u256 \<Rightarrow> bool list" where
  "split_bits_loop 0 k = []"
| "split_bits_loop (Suc n) k = (k mod 2 = 1) # split_bits_loop n (k div 2)"

definition split_bits :: "u256 \<Rightarrow> bool list" where
  "split_bits key = split_bits_loop 256 key"

text \<open>
  The recursion ends at the latest when the level runs past the bits of the key, whatever the storage
  holds.
\<close>

function find_key_internal ::
  "smt_nodes \<Rightarrow> u256 \<Rightarrow> bool list \<Rightarrow> u256 \<Rightarrow> nat \<Rightarrow> (asp_non_membership_error, find_result) outcome" where
  "find_key_internal nodes key key_bits root level =
    (if root = 0 then
       Inr \<lparr>fr_found = False, fr_siblings = [], fr_found_value = 0, fr_not_found_key = key,
            fr_not_found_value = 0, fr_is_old0 = True\<rparr>
     else
       let_ok (ok_or (nodes root) (Err Smt_KeyNotFound)) (\<lambda>node_data.
       if length node_data = 3 \<and> node_data ! 0 = 1 then
         (let stored_key = node_data ! 1; stored_value = node_data ! 2 in
          if stored_key = key then
            Inr \<lparr>fr_found = True, fr_siblings = [], fr_found_value = stored_value,
                 fr_not_found_key = 0, fr_not_found_value = 0, fr_is_old0 = False\<rparr>
          else
            Inr \<lparr>fr_found = False, fr_siblings = [], fr_found_value = 0,
                 fr_not_found_key = stored_key, fr_not_found_value = stored_value,
                 fr_is_old0 = False\<rparr>)
       else if length node_data = 2 then
         (let left = node_data ! 0; right = node_data ! 1 in
          let_ok (ok_or (vec_get key_bits level) (Err Smt_KeyNotFound)) (\<lambda>bit.
          let_ok (ok_or (nat_checked_add 32 level 1) (Err Smt_Overflow)) (\<lambda>next_level.
          let_ok (if \<not> bit then find_key_internal nodes key key_bits left next_level
                  else find_key_internal nodes key key_bits right next_level) (\<lambda>result.
          let sibling = (if \<not> bit then right else left) in
          Inr (result\<lparr>fr_siblings := sibling # fr_siblings result\<rparr>)))))
       else Inl (Err Smt_KeyNotFound)))"
  by pat_completeness auto
termination
  by (relation "measure (\<lambda>(_, _, bits, _, level). length bits - level)")
    (auto simp: vec_get_def nat_checked_add_def outcome_simps split: if_splits)

declare find_key_internal.simps [simp del]

definition stored_root :: "smt_store \<Rightarrow> u256" where
  "stored_root s = (case nm_root s of Some r \<Rightarrow> r | None \<Rightarrow> 0)"

definition nm_find_key :: "u256 \<Rightarrow> smt_store \<Rightarrow> (asp_non_membership_error, find_result) outcome" where
  "nm_find_key key s = find_key_internal (nm_nodes s) key (split_bits key) (stored_root s) 0"

text \<open>The loop that extends the siblings by zeros over the common prefix; the accesses are in range.\<close>

function extend_siblings :: "bool list \<Rightarrow> bool list \<Rightarrow> nat \<Rightarrow> u256 list \<Rightarrow> u256 list" where
  "extend_siblings old_key_bits key_bits i siblings =
    (if i < length old_key_bits \<and> i < length key_bits \<and> old_key_bits ! i = key_bits ! i
     then extend_siblings old_key_bits key_bits (i + 1) (siblings @ [0])
     else siblings)"
  by pat_completeness auto
termination by (relation "measure (\<lambda>(old, _, i, _). length old - i)") auto

declare extend_siblings.simps [simp del]

text \<open>
  One iteration of the loop of \<open>insert_leaf\<close> over \<open>siblings.iter().enumerate().rev()\<close>. The state is
  \<open>(mixed, rt_old, rt, nodes)\<close>.
\<close>

type_synonym smt_build = "bool \<times> u256 \<times> u256 \<times> smt_nodes"

definition insert_step ::
  "poseidon2_host \<Rightarrow> bool list \<Rightarrow> u256 list \<Rightarrow> nat \<Rightarrow> bool \<Rightarrow> nat \<times> u256 \<Rightarrow> smt_build
    \<Rightarrow> (asp_non_membership_error, smt_build) outcome" where
  "insert_step P key_bits found_siblings siblings_len added_one = (\<lambda>(i, sibling) (mixed, rt_old, rt, nodes).
    let is_last_added_leaf = (added_one \<and> i = siblings_len - 1);
        mixed = (if \<not> is_last_added_leaf \<and> i < siblings_len - 1 \<and> sibling \<noteq> 0 then True else mixed) in
    let_ok (if mixed \<and> \<not> is_last_added_leaf then
              let_ok (if i < length found_siblings
                      then ok_or (vec_get found_siblings i) (Err Smt_KeyNotFound) else Inr 0) (\<lambda>old_sibling.
              let_ok (ok_or (vec_get key_bits i) (Err Smt_KeyNotFound)) (\<lambda>bit.
              let_ok (if bit then hash_internal P old_sibling rt_old
                      else hash_internal P rt_old old_sibling) (\<lambda>rt_old.
              Inr (rt_old, nodes(rt_old := None)))))
            else Inr (rt_old, nodes)) (\<lambda>(rt_old, nodes).
    let_ok (ok_or (vec_get key_bits i) (Err Smt_KeyNotFound)) (\<lambda>bit.
    let (left_hash, right_hash) = (if bit then (sibling, rt) else (rt, sibling)) in
    let_ok (hash_internal P left_hash right_hash) (\<lambda>rt.
    Inr (mixed, rt_old, rt, nodes(rt \<mapsto> [left_hash, right_hash]))))))"

fun build_loop :: "('a \<Rightarrow> 's \<Rightarrow> 'e + 's) \<Rightarrow> 'a list \<Rightarrow> 's \<Rightarrow> 'e + 's" where
  "build_loop f [] st = Inr st"
| "build_loop f (x # xs) st = let_ok (f x st) (build_loop f xs)"

text \<open>
  The trimming of the local list of siblings after the loop has no effect on the state and is left
  out.
\<close>

definition nm_insert_leaf ::
  "poseidon2_host \<Rightarrow> (address \<Rightarrow> bool) \<Rightarrow> u256 \<Rightarrow> u256 \<Rightarrow> smt_store
    \<Rightarrow> (asp_non_membership_error, smt_event list \<times> smt_store) outcome" where
  "nm_insert_leaf P auth key val s =
    let_ok (ok_or (nm_admin s) (Err Smt_NotInitialized)) (\<lambda>admin.
    let_ok (require (auth admin) Trap) (\<lambda>_.
    let root = stored_root s; key_bits = split_bits key in
    let_ok (find_key_internal (nm_nodes s) key key_bits root 0) (\<lambda>find_result.
    if fr_found find_result then Inl (Err Smt_KeyAlreadyExists)
    else
      let_ok (if \<not> fr_is_old0 find_result then
                let_ok (hash_leaf P (fr_not_found_key find_result) (fr_not_found_value find_result))
                  (\<lambda>rt_old.
                let siblings = extend_siblings (split_bits (fr_not_found_key find_result)) key_bits
                      (length (fr_siblings find_result)) (fr_siblings find_result) in
                Inr (siblings @ [rt_old], False, rt_old, True))
              else if fr_siblings find_result \<noteq> [] then Inr (fr_siblings find_result, True, 0, False)
              else Inr (fr_siblings find_result, False, 0, False))
        (\<lambda>(siblings, mixed, rt_old, added_one).
      let_ok (hash_leaf P key val) (\<lambda>rt.
      let_ok (build_loop
                (insert_step P key_bits (fr_siblings find_result) (length siblings) added_one)
                (rev (enumerate 0 siblings))
                (mixed, rt_old, rt, (nm_nodes s)(rt \<mapsto> [1, key, val]))) (\<lambda>(_, _, rt, nodes).
      Inr ([LeafInsertedEvent key val rt], s\<lparr>nm_nodes := nodes, nm_root := Some rt\<rparr>)))))))"

text \<open>Which node takes the place of a deleted leaf, and the siblings that remain to be processed.\<close>

definition promote_sibling ::
  "u256 list \<Rightarrow> smt_nodes \<Rightarrow> (asp_non_membership_error, u256 \<times> u256 list) outcome" where
  "promote_sibling siblings nodes =
    (if siblings = [] then Inr (0, siblings)
     else
       let last_sibling = last siblings in
       (case nodes last_sibling of
          None \<Rightarrow> Inl (Err Smt_KeyNotFound)
        | Some node_data \<Rightarrow>
            (if length node_data = 3 \<and> node_data ! 0 = 1 then Inr (last_sibling, butlast siblings)
             else if length node_data = 2 then Inr (0, siblings)
             else Inl (Err Smt_KeyNotFound))))"

text \<open>
  One iteration of the rebuilding loop of \<open>delete_leaf\<close>, for the level \<open>siblings_len - 1 - level_idx\<close>.
  The state is \<open>(mixed, rt_old, rt_new, nodes)\<close>.
\<close>

definition delete_step ::
  "poseidon2_host \<Rightarrow> bool list \<Rightarrow> nat \<times> u256 \<Rightarrow> smt_build
    \<Rightarrow> (asp_non_membership_error, smt_build) outcome" where
  "delete_step P key_bits = (\<lambda>(level, sibling) (mixed, rt_old, rt_new, nodes).
    let_ok (ok_or (vec_get key_bits level) (Err Smt_KeyNotFound)) (\<lambda>bit.
    let_ok (if bit then hash_internal P sibling rt_old else hash_internal P rt_old sibling) (\<lambda>rt_old.
    let nodes = nodes(rt_old := None);
        mixed = (if sibling \<noteq> 0 then True else mixed) in
    if mixed then
      (let (left_hash, right_hash) = (if bit then (sibling, rt_new) else (rt_new, sibling)) in
       let_ok (hash_internal P left_hash right_hash) (\<lambda>rt_new.
       Inr (mixed, rt_old, rt_new, nodes(rt_new \<mapsto> [left_hash, right_hash]))))
    else Inr (mixed, rt_old, rt_new, nodes))))"

definition nm_delete_leaf ::
  "poseidon2_host \<Rightarrow> (address \<Rightarrow> bool) \<Rightarrow> u256 \<Rightarrow> smt_store
    \<Rightarrow> (asp_non_membership_error, smt_event list \<times> smt_store) outcome" where
  "nm_delete_leaf P auth key s =
    let_ok (ok_or (nm_admin s) (Err Smt_NotInitialized)) (\<lambda>admin.
    let_ok (require (auth admin) Trap) (\<lambda>_.
    let_ok (ok_or (nm_root s) (Err Smt_NotInitialized)) (\<lambda>root.
    let key_bits = split_bits key in
    let_ok (find_key_internal (nm_nodes s) key key_bits root 0) (\<lambda>find_result.
    if \<not> fr_found find_result then Inl (Err Smt_KeyNotFound)
    else
      let_ok (hash_leaf P key (fr_found_value find_result)) (\<lambda>rt_old.
      let nodes = (nm_nodes s)(rt_old := None) in
      let_ok (promote_sibling (fr_siblings find_result) nodes) (\<lambda>(rt_new, siblings_to_use).
      let_ok (build_loop (delete_step P key_bits) (rev (enumerate 0 siblings_to_use))
                (False, rt_old, rt_new, nodes)) (\<lambda>(_, _, rt_new, nodes).
      Inr ([LeafDeletedEvent key rt_new], s\<lparr>nm_nodes := nodes, nm_root := Some rt_new\<rparr>))))))))"

definition verify_step ::
  "poseidon2_host \<Rightarrow> bool list \<Rightarrow> nat \<times> u256 \<Rightarrow> u256 \<Rightarrow> (asp_non_membership_error, u256) outcome" where
  "verify_step P key_bits = (\<lambda>(level, sibling) computed_root.
    let_ok (ok_or (vec_get key_bits level) (Err Smt_InvalidProof)) (\<lambda>bit.
    if bit then hash_internal P sibling computed_root else hash_internal P computed_root sibling))"

text \<open>The comparison of the siblings element by element is the comparison of the lists.\<close>

definition nm_verify_non_membership ::
  "poseidon2_host \<Rightarrow> u256 \<Rightarrow> u256 list \<Rightarrow> u256 \<Rightarrow> u256 \<Rightarrow> smt_store
    \<Rightarrow> (asp_non_membership_error, bool) outcome" where
  "nm_verify_non_membership P key siblings not_found_key not_found_value s =
    (let root = stored_root s; key_bits = split_bits key in
     let_ok (find_key_internal (nm_nodes s) key key_bits root 0) (\<lambda>find_result.
     if fr_found find_result then Inr False
     else if length (fr_siblings find_result) \<noteq> length siblings then Inl (Err Smt_InvalidProof)
     else if siblings \<noteq> fr_siblings find_result then Inl (Err Smt_InvalidProof)
     else if fr_not_found_key find_result \<noteq> not_found_key \<or>
             fr_not_found_value find_result \<noteq> not_found_value then Inl (Err Smt_InvalidProof)
     else
       let_ok (if not_found_key \<noteq> key \<and> not_found_value \<noteq> 0
               then hash_leaf P not_found_key not_found_value else Inr 0) (\<lambda>computed_root.
       let_ok (build_loop (verify_step P key_bits) (rev (enumerate 0 siblings)) computed_root)
         (\<lambda>computed_root.
       if computed_root \<noteq> root then Inl (Err Smt_InvalidProof) else Inr True))))"

definition nm_get_root :: "smt_store \<Rightarrow> (asp_non_membership_error, u256) outcome" where
  "nm_get_root s = ok_or (nm_root s) (Err Smt_NotInitialized)"

section \<open>The storage represents a tree\<close>

fun smt_hash :: "poseidon2_host \<Rightarrow> smt \<Rightarrow> u256" where
  "smt_hash P SE = 0"
| "smt_hash P (SL k v) = hash2_val P k v 1"
| "smt_hash P (SN l r) = compress_val P (smt_hash P l) (smt_hash P r)"

fun smt_node :: "poseidon2_host \<Rightarrow> smt \<Rightarrow> u256 list" where
  "smt_node P SE = []"
| "smt_node P (SL k v) = [1, k, v]"
| "smt_node P (SN l r) = [smt_hash P l, smt_hash P r]"

text \<open>Every nonempty tree of a set is stored under its hash.\<close>

definition stores :: "poseidon2_host \<Rightarrow> smt set \<Rightarrow> smt_nodes \<Rightarrow> bool" where
  "stores P S nodes \<longleftrightarrow> (\<forall>u \<in> S. u \<noteq> SE \<longrightarrow> nodes (smt_hash P u) = Some (smt_node P u))"

text \<open>
  What the contract relies on about the hash: no two of the trees in question have the same hash, and
  none has the hash zero of the empty tree.
\<close>

definition collision_free :: "poseidon2_host \<Rightarrow> smt set \<Rightarrow> bool" where
  "collision_free P W \<longleftrightarrow> inj_on (smt_hash P) (insert SE W)"

definition canonical_smt :: "smt \<Rightarrow> bool" where
  "canonical_smt t \<longleftrightarrow> (\<forall>(k, v) \<in> smt_entries t. k < bn256_modulus \<and> v < bn256_modulus)"

lemma canonical_smt_simps [simp]:
  "canonical_smt SE"
  "canonical_smt (SL k v) \<longleftrightarrow> k < bn256_modulus \<and> v < bn256_modulus"
  "canonical_smt (SN l r) \<longleftrightarrow> canonical_smt l \<and> canonical_smt r"
  by (auto simp: canonical_smt_def)

lemma canonical_plug:
  "canonical_smt (plug b i ss t) \<longleftrightarrow> list_all canonical_smt ss \<and> canonical_smt t"
  by (auto simp: canonical_smt_def entries_plug list_all_iff)

lemma wf_canonical: "smt_wf i p t \<Longrightarrow> canonical_smt t"
  using wf_entries_canonical by (fastforce simp: canonical_smt_def)

lemma one_canonical: "(1::u256) < bn256_modulus"
  by (simp add: bn256_modulus_eq u256_eval)

lemma smt_hash_canonical:
  "host_permutation_ok P \<Longrightarrow> canonical_smt t \<Longrightarrow> smt_hash P t < bn256_modulus"
  by (cases t) (simp_all add: bn256_modulus_pos poseidon2_hash2_ok(2) one_canonical)

lemma hash_leaf_ok:
  "host_permutation_ok P \<Longrightarrow> k < bn256_modulus \<Longrightarrow> v < bn256_modulus \<Longrightarrow>
    hash_leaf P k v = Inr (smt_hash P (SL k v))"
  by (simp add: hash_leaf_def poseidon2_hash2_ok(1) one_canonical)

lemma hash_internal_ok:
  "host_permutation_ok P \<Longrightarrow> canonical_smt l \<Longrightarrow> canonical_smt r \<Longrightarrow>
    hash_internal P (smt_hash P l) (smt_hash P r) = Inr (smt_hash P (SN l r))"
  by (simp add: hash_internal_def poseidon2_compress_ok smt_hash_canonical)

lemma collision_free_zero:
  "collision_free P W \<Longrightarrow> u \<in> W \<Longrightarrow> smt_hash P u = 0 \<longleftrightarrow> u = SE"
  by (auto simp: collision_free_def inj_on_def)

lemma collision_free_eq:
  "collision_free P W \<Longrightarrow> u \<in> W \<Longrightarrow> w \<in> W \<Longrightarrow> smt_hash P u = smt_hash P w \<longleftrightarrow> u = w"
  by (auto simp: collision_free_def inj_on_def)

lemma collision_free_mono: "collision_free P W \<Longrightarrow> V \<subseteq> W \<Longrightarrow> collision_free P V"
  by (auto simp: collision_free_def intro: inj_on_subset)

lemma stores_mono: "stores P S nodes \<Longrightarrow> V \<subseteq> S \<Longrightarrow> stores P V nodes"
  by (auto simp: stores_def)

lemma stores_remove:
  "stores P S nodes \<Longrightarrow> collision_free P (insert x S) \<Longrightarrow> x \<notin> S \<Longrightarrow>
    stores P S (nodes(smt_hash P x := None))"
  unfolding stores_def by (metis collision_free_eq fun_upd_apply insertCI)

lemma stores_put:
  "stores P S nodes \<Longrightarrow> collision_free P (insert x S) \<Longrightarrow>
    stores P (insert x S) (nodes(smt_hash P x \<mapsto> smt_node P x))"
  unfolding stores_def by (metis collision_free_eq fun_upd_apply insertCI insertE)

section \<open>Bits\<close>

lemma split_bits_loop_nth: "i < n \<Longrightarrow> split_bits_loop n k ! i = bit k i"
proof (induction n arbitrary: i k)
  case (Suc n)
  then show ?case by (cases i) (simp_all add: bit_0 odd_iff_mod_2_eq_one bit_Suc)
qed simp

lemma length_split_bits_loop [simp]: "length (split_bits_loop n k) = n"
  by (induction n arbitrary: k) simp_all

lemma split_bits_simps [simp]:
  "length (split_bits k) = 256"
  "i < 256 \<Longrightarrow> split_bits k ! i = bit k i"
  "i < 256 \<Longrightarrow> vec_get (split_bits k) i = Some (bit k i)"
  by (simp_all add: split_bits_def split_bits_loop_nth)

section \<open>Search\<close>

definition find_result_of :: "poseidon2_host \<Rightarrow> u256 \<Rightarrow> smt list \<times> smt \<Rightarrow> find_result" where
  "find_result_of P key = (\<lambda>(ss, f). case f of
     SL k v \<Rightarrow>
       if k = key then \<lparr>fr_found = True, fr_siblings = map (smt_hash P) ss, fr_found_value = v,
           fr_not_found_key = 0, fr_not_found_value = 0, fr_is_old0 = False\<rparr>
       else \<lparr>fr_found = False, fr_siblings = map (smt_hash P) ss, fr_found_value = 0,
           fr_not_found_key = k, fr_not_found_value = v, fr_is_old0 = False\<rparr>
   | _ \<Rightarrow> \<lparr>fr_found = False, fr_siblings = map (smt_hash P) ss, fr_found_value = 0,
           fr_not_found_key = key, fr_not_found_value = 0, fr_is_old0 = True\<rparr>)"

lemma find_result_of_Cons:
  "(find_result_of P key (ss, f))\<lparr>fr_siblings := smt_hash P s # fr_siblings (find_result_of P key (ss, f))\<rparr> =
    find_result_of P key (s # ss, f)"
  by (cases f) (simp_all add: find_result_of_def)

lemma find_key_descend:
  "stores P (smt_subtrees t) nodes \<Longrightarrow> collision_free P (smt_subtrees t) \<Longrightarrow> smt_wf i p t \<Longrightarrow>
    find_key_internal nodes key (split_bits key) (smt_hash P t) i =
      Inr (find_result_of P key (descend (bit key) i t))"
proof (induction t arbitrary: i p)
  case SE
  then show ?case by (subst find_key_internal.simps) (simp add: find_result_of_def)
next
  case (SL k v)
  have "smt_hash P (SL k v) \<noteq> 0" using collision_free_zero [OF SL.prems(2), of "SL k v"] by simp
  moreover have "nodes (smt_hash P (SL k v)) = Some [1, k, v]" using SL.prems(1) by (simp add: stores_def)
  ultimately show ?case
    by (subst find_key_internal.simps) (simp add: find_result_of_def numeral_2_eq_2 numeral_3_eq_3)
next
  case (SN l r)
  have nz: "smt_hash P (SN l r) \<noteq> 0" using collision_free_zero [OF SN.prems(2), of "SN l r"] by simp
  have node: "nodes (smt_hash P (SN l r)) = Some [smt_hash P l, smt_hash P r]"
    using SN.prems(1) by (simp add: stores_def)
  have i: "i < 256" and wf: "smt_wf (Suc i) (p(i := False)) l" "smt_wf (Suc i) (p(i := True)) r"
    using SN.prems(3) by simp_all
  have st: "stores P (smt_subtrees l) nodes" "stores P (smt_subtrees r) nodes"
    and cf: "collision_free P (smt_subtrees l)" "collision_free P (smt_subtrees r)"
    using SN.prems(1,2) by (auto elim!: stores_mono collision_free_mono)
  note ih = SN.IH(1) [OF st(1) cf(1) wf(1)] SN.IH(2) [OF st(2) cf(2) wf(2)]
  have bits: "vec_get (split_bits key) i = Some (bit key i)" "nat_checked_add 32 i 1 = Some (Suc i)"
    using i by (simp_all add: nat_checked_add_def)
  show ?case
    using nz node bits ih
    by (subst find_key_internal.simps)
      (auto simp: find_result_of_Cons Let_def split: prod.splits)
qed

section \<open>Loops over the siblings\<close>

lemma build_loop_append: "build_loop f (xs @ ys) st = let_ok (build_loop f xs st) (build_loop f ys)"
  by (induction xs arbitrary: st) (auto simp: let_ok_def split: sum.splits)

lemma build_loop_rev_Cons:
  "build_loop f (rev (enumerate i (s # ss))) st =
    let_ok (build_loop f (rev (enumerate (Suc i) ss)) st) (f (i, s))"
  by (simp add: build_loop_append let_ok_def split: sum.splits)

text \<open>The node that replaces a path node at level \<open>i\<close>, with a sibling \<open>s\<close> beside \<open>t\<close>.\<close>

definition path_node :: "u256 \<Rightarrow> nat \<Rightarrow> smt \<Rightarrow> smt \<Rightarrow> smt" where
  "path_node key i s t = (if bit key i then SN s t else SN t s)"

lemma plug_path_node: "plug (bit key) i (s # ss) t = path_node key i s (plug (bit key) (Suc i) ss t)"
  by (simp add: path_node_def)

lemma canonical_path_node [simp]:
  "canonical_smt (path_node key i s t) \<longleftrightarrow> canonical_smt s \<and> canonical_smt t"
  by (auto simp: path_node_def)

lemma smt_node_path_node:
  "smt_node P (path_node key i s t) =
    (if bit key i then [smt_hash P s, smt_hash P t] else [smt_hash P t, smt_hash P s])"
  by (simp add: path_node_def)

lemma path_node_hash:
  assumes "host_permutation_ok P" and "canonical_smt s" and "canonical_smt t"
  shows "(if bit key i then hash_internal P (smt_hash P s) (smt_hash P t)
      else hash_internal P (smt_hash P t) (smt_hash P s)) = Inr (smt_hash P (path_node key i s t))"
  using assms by (simp add: hash_internal_ok path_node_def)

text \<open>An iteration of insertion without and with the removal of an old node.\<close>

lemma insert_step_plain:
  assumes host: "host_permutation_ok P" and i: "i < 256" and c: "canonical_smt s" "canonical_smt g"
    and skip: "added \<and> i = n - 1 \<or> \<not> mixed \<and> smt_hash P s = 0"
  shows "insert_step P (split_bits key) found n added (i, smt_hash P s) (mixed, ro, smt_hash P g, nodes) =
    Inr (mixed, ro, smt_hash P (path_node key i s g),
      nodes(smt_hash P (path_node key i s g) \<mapsto> smt_node P (path_node key i s g)))"
  using skip i path_node_hash [OF host c, of key i]
  by (elim disjE; cases "bit key i") (simp_all add: insert_step_def smt_node_path_node)

lemma insert_step_mixed:
  assumes host: "host_permutation_ok P" and i: "i < 256"
    and c: "canonical_smt s" "canonical_smt g" "canonical_smt f"
    and upd: "\<not> (added \<and> i = n - 1)" "mixed \<or> i < n - 1 \<and> smt_hash P s \<noteq> 0"
    and found: "i < length found" "found ! i = smt_hash P s"
  shows "insert_step P (split_bits key) found n added (i, smt_hash P s)
      (mixed, smt_hash P f, smt_hash P g, nodes) =
    Inr (True, smt_hash P (path_node key i s f), smt_hash P (path_node key i s g),
      (nodes(smt_hash P (path_node key i s f) := None))
        (smt_hash P (path_node key i s g) \<mapsto> smt_node P (path_node key i s g)))"
  using upd found i path_node_hash [OF host c(1,2), of key i] path_node_hash [OF host c(1,3), of key i]
  by (cases "bit key i") (auto simp: insert_step_def smt_node_path_node)

text \<open>The new nodes of a path, from level \<open>i\<close> on.\<close>

definition path_nodes :: "(nat \<Rightarrow> bool) \<Rightarrow> nat \<Rightarrow> smt list \<Rightarrow> smt \<Rightarrow> smt set" where
  "path_nodes b i ss t = {plug b (i + j) (drop j ss) t | j. j < length ss}"

lemma path_nodes_Nil [simp]: "path_nodes b i [] t = {}"
  by (simp add: path_nodes_def)

lemma path_nodes_Cons:
  "path_nodes b i (s # ss) t = insert (plug b i (s # ss) t) (path_nodes b (Suc i) ss t)"
proof (rule equalityI; rule subsetI)
  fix x assume "x \<in> path_nodes b i (s # ss) t"
  then obtain j where j: "x = plug b (i + j) (drop j (s # ss)) t" "j < length (s # ss)"
    by (auto simp: path_nodes_def)
  then show "x \<in> insert (plug b i (s # ss) t) (path_nodes b (Suc i) ss t)"
    by (cases j) (auto simp: path_nodes_def)
next
  fix x assume "x \<in> insert (plug b i (s # ss) t) (path_nodes b (Suc i) ss t)"
  then show "x \<in> path_nodes b i (s # ss) t"
    by (auto simp: path_nodes_def intro: exI [of _ 0] exI [of _ "Suc _"])
qed

lemma insert_loop_plain:
  assumes host: "host_permutation_ok P" and len: "i + length ss \<le> 256"
    and c: "list_all canonical_smt ss" "canonical_smt g"
    and skip: "\<And>j. j < length ss \<Longrightarrow> added \<and> i + j = n - 1 \<or> ss ! j = SE"
    and st: "stores P S nodes" and cf: "collision_free P (S \<union> path_nodes (bit key) i ss g)"
  shows "\<exists>nodes'. build_loop (insert_step P (split_bits key) found n added)
      (rev (enumerate i (map (smt_hash P) ss))) (False, ro, smt_hash P g, nodes) =
      Inr (False, ro, smt_hash P (plug (bit key) i ss g), nodes') \<and>
    stores P (S \<union> path_nodes (bit key) i ss g) nodes'"
  using len c(1) skip cf
proof (induction ss arbitrary: i)
  case Nil
  then show ?case using st by simp
next
  case (Cons s ss)
  let ?g = "plug (bit key) (Suc i) ss g"
  have "\<exists>nodes'. build_loop (insert_step P (split_bits key) found n added)
      (rev (enumerate (Suc i) (map (smt_hash P) ss))) (False, ro, smt_hash P g, nodes) =
      Inr (False, ro, smt_hash P ?g, nodes') \<and>
    stores P (S \<union> path_nodes (bit key) (Suc i) ss g) nodes'"
  proof (rule Cons.IH)
    show "added \<and> Suc i + j = n - 1 \<or> ss ! j = SE" if "j < length ss" for j
      using Cons.prems(3) [of "Suc j"] that by simp
    show "collision_free P (S \<union> path_nodes (bit key) (Suc i) ss g)"
      by (rule collision_free_mono [OF Cons.prems(4)]) (auto simp: path_nodes_Cons)
  qed (use Cons.prems in simp_all)
  then obtain nodes' where rec: "build_loop (insert_step P (split_bits key) found n added)
      (rev (enumerate (Suc i) (map (smt_hash P) ss))) (False, ro, smt_hash P g, nodes) =
      Inr (False, ro, smt_hash P ?g, nodes')"
    and st': "stores P (S \<union> path_nodes (bit key) (Suc i) ss g) nodes'" by blast
  have step: "insert_step P (split_bits key) found n added (i, smt_hash P s) (False, ro, smt_hash P ?g, nodes') =
    Inr (False, ro, smt_hash P (path_node key i s ?g),
      nodes'(smt_hash P (path_node key i s ?g) \<mapsto> smt_node P (path_node key i s ?g)))"
    using Cons.prems(1,2) Cons.prems(3) [of 0] c(2)
    by (intro insert_step_plain [OF host]) (auto simp: canonical_plug)
  have "stores P (insert (path_node key i s ?g) (S \<union> path_nodes (bit key) (Suc i) ss g))
      (nodes'(smt_hash P (path_node key i s ?g) \<mapsto> smt_node P (path_node key i s ?g)))"
    using Cons.prems(4) by (intro stores_put st') (simp add: path_nodes_Cons plug_path_node del: plug.simps)
  then show ?case
    unfolding list.map build_loop_rev_Cons rec let_ok_simps step path_nodes_Cons plug_path_node
    by (intro exI conjI) (rule refl, simp only: Un_insert_right)
qed

lemma insert_loop_mixed:
  assumes host: "host_permutation_ok P" and len: "i + length ss \<le> 256"
    and c: "list_all canonical_smt ss" "canonical_smt g" "canonical_smt f"
    and upd: "\<And>j. j < length ss \<Longrightarrow> \<not> (added \<and> i + j = n - 1)"
      "mixed \<or> (ss \<noteq> [] \<longrightarrow> i + length ss < n \<and> smt_hash P (last ss) \<noteq> 0)"
    and found: "\<And>j. j < length ss \<Longrightarrow> i + j < length found \<and> found ! (i + j) = smt_hash P (ss ! j)"
    and st: "stores P S nodes"
    and cf: "collision_free P (S \<union> path_nodes (bit key) i ss g \<union> path_nodes (bit key) i ss f)"
    and fresh: "path_nodes (bit key) i ss f \<inter> (S \<union> path_nodes (bit key) i ss g) = {}"
  shows "\<exists>nodes'. build_loop (insert_step P (split_bits key) found n added)
      (rev (enumerate i (map (smt_hash P) ss))) (mixed, smt_hash P f, smt_hash P g, nodes) =
      Inr (mixed \<or> ss \<noteq> [], smt_hash P (plug (bit key) i ss f), smt_hash P (plug (bit key) i ss g), nodes') \<and>
    stores P (S \<union> path_nodes (bit key) i ss g) nodes'"
  using len c(1) upd found cf fresh
proof (induction ss arbitrary: i)
  case Nil
  then show ?case using st by simp
next
  case (Cons s ss)
  let ?g = "plug (bit key) (Suc i) ss g" and ?f = "plug (bit key) (Suc i) ss f"
  let ?S = "S \<union> path_nodes (bit key) (Suc i) ss g"
  let ?ng = "path_node key i s ?g" and ?nf = "path_node key i s ?f"
  have "\<exists>nodes'. build_loop (insert_step P (split_bits key) found n added)
      (rev (enumerate (Suc i) (map (smt_hash P) ss))) (mixed, smt_hash P f, smt_hash P g, nodes) =
      Inr (mixed \<or> ss \<noteq> [], smt_hash P ?f, smt_hash P ?g, nodes') \<and> stores P ?S nodes'"
  proof (rule Cons.IH)
    show "\<not> (added \<and> Suc i + j = n - 1)" if "j < length ss" for j
      using Cons.prems(3) [of "Suc j"] that by simp
    show "Suc i + j < length found \<and> found ! (Suc i + j) = smt_hash P (ss ! j)" if "j < length ss" for j
      using Cons.prems(5) [of "Suc j"] that by simp
    show "collision_free P (S \<union> path_nodes (bit key) (Suc i) ss g \<union> path_nodes (bit key) (Suc i) ss f)"
      by (rule collision_free_mono [OF Cons.prems(6)]) (auto simp: path_nodes_Cons)
    show "path_nodes (bit key) (Suc i) ss f \<inter> (S \<union> path_nodes (bit key) (Suc i) ss g) = {}"
      using Cons.prems(7) by (auto simp: path_nodes_Cons)
  qed (use Cons.prems in auto)
  then obtain nodes' where rec: "build_loop (insert_step P (split_bits key) found n added)
      (rev (enumerate (Suc i) (map (smt_hash P) ss))) (mixed, smt_hash P f, smt_hash P g, nodes) =
      Inr (mixed \<or> ss \<noteq> [], smt_hash P ?f, smt_hash P ?g, nodes')" and st': "stores P ?S nodes'" by blast
  have step: "insert_step P (split_bits key) found n added (i, smt_hash P s)
      (mixed \<or> ss \<noteq> [], smt_hash P ?f, smt_hash P ?g, nodes') =
    Inr (True, smt_hash P ?nf, smt_hash P ?ng,
      (nodes'(smt_hash P ?nf := None))(smt_hash P ?ng \<mapsto> smt_node P ?ng))"
    using Cons.prems(1,2,4) Cons.prems(3) [of 0] Cons.prems(5) [of 0] c(2,3)
    by (intro insert_step_mixed [OF host]) (auto simp: canonical_plug)
  have cf': "collision_free P (insert ?nf ?S)" "collision_free P (insert ?ng ?S)"
    by (rule collision_free_mono [OF Cons.prems(6)]; auto simp: path_nodes_Cons plug_path_node simp del: plug.simps)+
  have mixed_now: "(mixed \<or> s # ss \<noteq> []) = True" by simp
  have "?nf \<notin> ?S" using Cons.prems(7) unfolding path_nodes_Cons plug_path_node by blast
  then have "stores P (insert ?ng ?S) ((nodes'(smt_hash P ?nf := None))(smt_hash P ?ng \<mapsto> smt_node P ?ng))"
    by (intro stores_put stores_remove st' cf')
  then show ?case
    unfolding list.map build_loop_rev_Cons rec let_ok_simps step path_nodes_Cons plug_path_node
      mixed_now
    by (intro exI conjI) (rule refl, simp only: Un_insert_right)
qed

section \<open>Insertion\<close>

definition smt_rel :: "poseidon2_host \<Rightarrow> smt \<Rightarrow> smt_store \<Rightarrow> bool" where
  "smt_rel P t s \<longleftrightarrow> nm_root s = Some (smt_hash P t) \<and> stores P (smt_subtrees t) (nm_nodes s) \<and>
    smt_wf 0 (\<lambda>_. False) t"

lemma wf0_cong: "smt_wf 0 p t \<Longrightarrow> smt_wf 0 q t"
  using wf_cong [of 0 p q t] by simp

lemma smt_wf0_simps [simp]: "smt_wf 0 (\<lambda>_. False) SE" "smt_wf 0 p SE"
  by simp_all

lemma size_plug: "s \<in> set ss \<Longrightarrow> size s < size (plug b i ss f)"
  by (induction b i ss f rule: plug.induct) auto

lemma wf_plug_suffix:
  "smt_wf i b (plug b i ss f) \<Longrightarrow> j \<le> length ss \<Longrightarrow> smt_wf (i + j) b (plug b (i + j) (drop j ss) f)"
proof (induction ss arbitrary: i j)
  case (Cons s ss)
  show ?case
  proof (cases j)
    case 0
    then show ?thesis using Cons.prems(1) by simp
  next
    case (Suc k)
    then show ?thesis
      using Cons.IH [OF wf_plug_ConsD(3) [OF Cons.prems(1)], of k] Cons.prems(2) by simp
  qed
qed simp

lemma path_nodes_fresh:
  assumes wf: "smt_wf 0 b (plug b 0 ss f)"
  shows "path_nodes b 0 ss f \<inter> (\<Union>s \<in> set ss. smt_subtrees s) = {}"
proof (rule ccontr)
  assume "\<not> ?thesis"
  then obtain j k where j: "j < length ss" and k: "k < length ss"
    and x: "plug b j (drop j ss) f \<in> smt_subtrees (ss ! k)"
    by (auto simp: path_nodes_def in_set_conv_nth)
  let ?x = "plug b j (drop j ss) f"
  show False
  proof (cases "j \<le> k")
    case True
    then have "ss ! k \<in> set (drop j ss)" using k by (auto simp: in_set_conv_nth intro!: exI [of _ "k - j"])
    then have "size (ss ! k) < size ?x" by (rule size_plug)
    with subtrees_size [OF x] show False by simp
  next
    case False
    have wfx: "smt_wf j b ?x" using wf_plug_suffix [OF wf, of j] j by simp
    have "?x \<noteq> SE" using plug_Cons_SN [of b j "hd (drop j ss)" "tl (drop j ss)" f] j
      by (cases "drop j ss") auto
    then obtain kk v where e: "(kk, v) \<in> smt_entries ?x" using wf_no_entries [OF wfx] by auto
    have "bit kk k = b k" using wf_entries [OF wfx e] False by simp
    moreover have "(kk, v) \<in> smt_entries (ss ! k)" using subtrees_entries [OF x] e by blast
    from wf_entries [OF wf_plug_sibling [OF wf k] this, of k] have "bit kk k \<noteq> b k" by simp
    ultimately show False by simp
  qed
qed

lemma extend_siblings_common:
  "extend_siblings (split_bits k) (split_bits key) i xs = xs @ replicate (common_bits k key i) 0"
proof (induction k key i arbitrary: xs rule: common_bits.induct)
  case (1 k key i)
  show ?case
  proof (cases "i < 256 \<and> bit k i = bit key i")
    case True
    then have "extend_siblings (split_bits k) (split_bits key) i xs =
        extend_siblings (split_bits k) (split_bits key) (Suc i) (xs @ [0])"
      by (subst extend_siblings.simps) simp
    with True 1 show ?thesis by (subst common_bits.simps) simp
  next
    case False
    then have "extend_siblings (split_bits k) (split_bits key) i xs = xs"
      by (subst extend_siblings.simps) auto
    moreover have "common_bits k key i = 0" using False by (subst common_bits.simps) auto
    ultimately show ?thesis by simp
  qed
qed

text \<open>No node of the old path is a subtree of the new tree, which has the new key everywhere on its path.\<close>

lemma insert_fresh:
  assumes wf: "smt_wf 0 (bit key) (plug (bit key) 0 ss f)"
    and new: "\<And>v. (key, v) \<notin> smt_entries (plug (bit key) 0 ss f)"
    and ex: "\<And>u. u \<in> set ex \<Longrightarrow> u = SE \<or> (\<exists>k v. u = SL k v)"
  shows "path_nodes (bit key) 0 ss f \<inter> smt_subtrees (plug (bit key) 0 (ss @ ex) (SL key val)) = {}"
proof (rule ccontr)
  assume "\<not> ?thesis"
  then obtain j where j: "j < length ss" and x: "plug (bit key) j (drop j ss) f \<in>
      smt_subtrees (plug (bit key) 0 (ss @ ex) (SL key val))"
    by (auto simp: path_nodes_def)
  let ?x = "plug (bit key) j (drop j ss) f"
  obtain l r where sn: "?x = SN l r"
    using plug_Cons_SN [of "bit key" j "hd (drop j ss)" "tl (drop j ss)" f] j by (cases "drop j ss") auto
  have old: "?x \<in> smt_subtrees (plug (bit key) 0 ss f)"
    using j unfolding subtrees_plug by (intro UnI1 CollectI exI [of _ j]) simp
  have "(key, v) \<notin> smt_entries ?x" for v using subtrees_entries [OF old] new by blast
  then have off: "?x \<noteq> plug (bit key) i us (SL key val)" for i us
    by (metis UnI2 entries_plug insertI1 smt_entries.simps(2))
  have "?x \<in> (\<Union>s \<in> set ss. smt_subtrees s) \<or> (\<exists>u \<in> set ex. ?x \<in> smt_subtrees u) \<or> ?x = SL key val"
    using x off unfolding subtrees_plug by auto
  moreover have "?x \<notin> (\<Union>s \<in> set ss. smt_subtrees s)"
    using path_nodes_fresh [OF wf] j by (auto simp: path_nodes_def)
  moreover have "?x \<notin> smt_subtrees u" if "u \<in> set ex" for u using ex [OF that] sn by auto
  ultimately show False using sn by auto
qed

lemma subtrees_as_path_nodes:
  "smt_subtrees (plug b i ss t) =
    path_nodes b i ss t \<union> (\<Union>s \<in> set ss. smt_subtrees s) \<union> smt_subtrees t"
  by (simp add: subtrees_plug path_nodes_def)

lemma path_nodes_append:
  "path_nodes b i (ss @ us) t = path_nodes b i ss (plug b (i + length ss) us t) \<union> path_nodes b (i + length ss) us t"
  by (induction ss arbitrary: i) (simp_all add: path_nodes_Cons plug_append)

text \<open>The whole loop of insertion: the extension of the path first, then the old path.\<close>

lemma insert_loop:
  assumes host: "host_permutation_ok P"
    and wf: "smt_wf 0 (bit key) (plug (bit key) 0 ss f)"
    and len: "length ss + length ex \<le> 256"
    and c: "list_all canonical_smt ex" "canonical_smt (SL key val)"
    and new: "\<And>v. (key, v) \<notin> smt_entries (plug (bit key) 0 ss f)"
    and ex: "\<And>u. u \<in> set ex \<Longrightarrow> u = SE \<or> (\<exists>k v. u = SL k v)"
    and shape: "if ex = [] then mixed \<or> ss = []
      else \<not> mixed \<and> (\<forall>u \<in> set (butlast ex). u = SE) \<and> (ss \<noteq> [] \<longrightarrow> last ss \<noteq> SE)"
    and st: "stores P (smt_subtrees (plug (bit key) 0 ss f)) nodes" "stores P (set ex) nodes"
    and cf: "collision_free P (smt_subtrees (plug (bit key) 0 ss f) \<union>
      smt_subtrees (plug (bit key) 0 (ss @ ex) (SL key val)))"
  shows "\<exists>mixed' ro' nodes'. build_loop
      (insert_step P (split_bits key) (map (smt_hash P) ss) (length ss + length ex) (ex \<noteq> []))
      (rev (enumerate 0 (map (smt_hash P) (ss @ ex))))
      (mixed, smt_hash P f, smt_hash P (SL key val), nodes(smt_hash P (SL key val) \<mapsto> [1, key, val])) =
      Inr (mixed', ro', smt_hash P (plug (bit key) 0 (ss @ ex) (SL key val)), nodes') \<and>
    stores P (smt_subtrees (plug (bit key) 0 (ss @ ex) (SL key val))) nodes'"
proof -
  let ?b = "bit key" and ?L = "SL key val" and ?n = "length ss + length ex"
  let ?g = "plug (bit key) (length ss) ex (SL key val)"
  let ?new = "plug (bit key) 0 (ss @ ex) (SL key val)"
  let ?S = "insert ?L ((\<Union>s \<in> set ss. smt_subtrees s) \<union> set ex)"
  let ?nodes = "nodes(smt_hash P ?L \<mapsto> smt_node P ?L)"
  let ?step = "insert_step P (split_bits key) (map (smt_hash P) ss) ?n (ex \<noteq> [])"
  have ex_sub: "(\<Union>u \<in> set ex. smt_subtrees u) = set ex" using ex by (force split: smt.splits)
  have new_sub: "smt_subtrees ?new = ?S \<union> path_nodes ?b (length ss) ex ?L \<union> path_nodes ?b 0 ss ?g"
    unfolding subtrees_as_path_nodes path_nodes_append using ex_sub by auto
  have old_sub: "path_nodes ?b 0 ss f \<subseteq> smt_subtrees (plug ?b 0 ss f)"
    "(\<Union>s \<in> set ss. smt_subtrees s) \<subseteq> smt_subtrees (plug ?b 0 ss f)"
    unfolding subtrees_as_path_nodes by auto
  have css: "list_all canonical_smt ss" "canonical_smt f"
    using wf_canonical [OF wf] by (simp_all add: canonical_plug)
  have "stores P ((\<Union>s \<in> set ss. smt_subtrees s) \<union> set ex) nodes"
    using st old_sub(2) by (auto simp: stores_def)
  then have st0: "stores P ?S ?nodes"
    by (rule stores_put) (rule collision_free_mono [OF cf], use new_sub in auto)
  have plain: "\<exists>nodes1. build_loop ?step (rev (enumerate (length ss) (map (smt_hash P) ex)))
      (mixed, smt_hash P f, smt_hash P ?L, ?nodes) =
      Inr (mixed, smt_hash P f, smt_hash P ?g, nodes1) \<and>
    stores P (?S \<union> path_nodes ?b (length ss) ex ?L) nodes1"
  proof (cases "ex = []")
    case True
    then show ?thesis using st0 by simp
  next
    case False
    then have m: "\<not> mixed" and E: "\<And>u. u \<in> set (butlast ex) \<Longrightarrow> u = SE" using shape by auto
    have skip: "(ex \<noteq> []) \<and> length ss + j = ?n - 1 \<or> ex ! j = SE" if "j < length ex" for j
    proof (cases "j = length ex - 1")
      case True
      then show ?thesis using False by (cases ex) auto
    next
      case jn: False
      then have "ex ! j \<in> set (butlast ex)" using that by (auto simp: in_set_conv_nth nth_butlast intro!: exI [of _ j])
      then show ?thesis using E by blast
    qed
    have "collision_free P (?S \<union> path_nodes ?b (length ss) ex ?L)"
      by (rule collision_free_mono [OF cf]) (use new_sub in auto)
    from insert_loop_plain [OF host len c(1,2) skip st0 this] m show ?thesis by simp
  qed
  then obtain nodes1 where l1: "build_loop ?step (rev (enumerate (length ss) (map (smt_hash P) ex)))
      (mixed, smt_hash P f, smt_hash P ?L, ?nodes) = Inr (mixed, smt_hash P f, smt_hash P ?g, nodes1)"
    and st1: "stores P (?S \<union> path_nodes ?b (length ss) ex ?L) nodes1" by blast
  have last: "smt_hash P (last ss) \<noteq> 0" if "ex \<noteq> []" "ss \<noteq> []"
  proof -
    have "last ss \<in> smt_subtrees (plug ?b 0 ss f)" using old_sub(2) that(2) by force
    with collision_free_zero [OF cf] shape that show ?thesis by auto
  qed
  have upd: "mixed \<or> (ss \<noteq> [] \<longrightarrow> 0 + length ss < ?n \<and> smt_hash P (last ss) \<noteq> 0)"
    using shape last by (auto split: if_splits)
  have cg: "canonical_smt ?g" using c by (simp add: canonical_plug)
  have cf2: "collision_free P (?S \<union> path_nodes ?b (length ss) ex ?L \<union> path_nodes ?b 0 ss ?g \<union> path_nodes ?b 0 ss f)"
    by (rule collision_free_mono [OF cf]) (use new_sub old_sub in auto)
  have fresh: "path_nodes ?b 0 ss f \<inter> (?S \<union> path_nodes ?b (length ss) ex ?L \<union> path_nodes ?b 0 ss ?g) = {}"
    using insert_fresh [of key ss f ex val, OF wf new ex] by (simp only: new_sub)
  have len0: "0 + length ss \<le> 256" using len by simp
  have "\<exists>nodes2. build_loop ?step (rev (enumerate 0 (map (smt_hash P) ss)))
      (mixed, smt_hash P f, smt_hash P ?g, nodes1) =
      Inr (mixed \<or> ss \<noteq> [], smt_hash P (plug ?b 0 ss f), smt_hash P (plug ?b 0 ss ?g), nodes2) \<and>
    stores P (?S \<union> path_nodes ?b (length ss) ex ?L \<union> path_nodes ?b 0 ss ?g) nodes2"
    by (rule insert_loop_mixed [OF host len0 css(1) cg css(2) _ upd _ st1 cf2 fresh])
      (cases ex; auto)+
  moreover have "rev (enumerate 0 (map (smt_hash P) (ss @ ex))) =
      rev (enumerate (length ss) (map (smt_hash P) ex)) @ rev (enumerate 0 (map (smt_hash P) ss))"
    by (simp add: enumerate_append_eq)
  ultimately show ?thesis
    using l1 unfolding new_sub by (auto simp: build_loop_append plug_append)
qed


lemma find_key_rel:
  assumes "smt_rel P t s" and "collision_free P (smt_subtrees t)"
  shows "find_key_internal (nm_nodes s) key (split_bits key) (stored_root s) 0 =
    Inr (find_result_of P key (descend (bit key) 0 t))"
  using assms find_key_descend [of P t "nm_nodes s" 0 "\<lambda>_. False" key]
  by (simp add: smt_rel_def stored_root_def)

lemma nm_insert_leaf_rel:
  assumes host: "host_permutation_ok P" and rel: "smt_rel P t s"
    and auth: "nm_admin s = Some admin" "auth admin" and new: "smt_lookup t key = None"
    and canon: "key < bn256_modulus" "val < bn256_modulus"
    and cf: "collision_free P (smt_subtrees t \<union> smt_subtrees (smt_insert key val t))"
  shows "\<exists>nodes. let s' = s\<lparr>nm_nodes := nodes, nm_root := Some (smt_hash P (smt_insert key val t))\<rparr> in
    nm_insert_leaf P auth key val s =
      Inr ([LeafInsertedEvent key val (smt_hash P (smt_insert key val t))], s') \<and>
    smt_rel P (smt_insert key val t) s'"
proof -
  obtain ss f where d: "descend (bit key) 0 t = (ss, f)" by force
  have t: "plug (bit key) 0 ss f = t" by (rule plug_descend [OF d])
  have wft: "smt_wf 0 (bit key) t" using rel wf0_cong by (auto simp: smt_rel_def)
  have wf: "smt_wf 0 (bit key) (plug (bit key) 0 ss f)" using wft t by simp
  have st: "stores P (smt_subtrees (plug (bit key) 0 ss f)) (nm_nodes s)"
    using rel t by (simp add: smt_rel_def)
  have absent: "(key, v) \<notin> smt_entries (plug (bit key) 0 ss f)" for v
    using lookup_None [OF wft] new t by simp
  have find: "find_key_internal (nm_nodes s) key (split_bits key) (stored_root s) 0 =
      Inr (find_result_of P key (ss, f))"
    using find_key_rel [OF rel collision_free_mono [OF cf]] d by simp
  have le: "length ss \<le> 256" using wf_plug_length [OF wf] by (cases "ss = []") simp_all
  have wf_new: "smt_wf 0 (\<lambda>_. False) (smt_insert key val t)"
    using smt_insert_spec(1) [OF wft new canon] by (rule wf0_cong)
  note leaf_hash = hash_leaf_ok [OF host canon]
  have concl: ?thesis
    if ins: "smt_insert key val t = plug (bit key) 0 (ss @ ex) (SL key val)"
      and loop: "build_loop
        (insert_step P (split_bits key) (map (smt_hash P) ss) (length ss + length ex) (ex \<noteq> []))
        (rev (enumerate 0 (map (smt_hash P) (ss @ ex))))
        (mixed, smt_hash P f, smt_hash P (SL key val), (nm_nodes s)(smt_hash P (SL key val) \<mapsto> [1, key, val])) =
        Inr (m', ro', smt_hash P (plug (bit key) 0 (ss @ ex) (SL key val)), nodes')"
      and run: "nm_insert_leaf P auth key val s =
        let_ok (build_loop
          (insert_step P (split_bits key) (map (smt_hash P) ss) (length ss + length ex) (ex \<noteq> []))
          (rev (enumerate 0 (map (smt_hash P) (ss @ ex))))
          (mixed, smt_hash P f, smt_hash P (SL key val), (nm_nodes s)(smt_hash P (SL key val) \<mapsto> [1, key, val])))
          (\<lambda>(_, _, rt, nodes). Inr ([LeafInsertedEvent key val rt], s\<lparr>nm_nodes := nodes, nm_root := Some rt\<rparr>))"
      and st': "stores P (smt_subtrees (plug (bit key) 0 (ss @ ex) (SL key val))) nodes'"
    for ex mixed m' ro' nodes'
    using wf_new st' unfolding Let_def run loop
    by (intro exI [of _ nodes']) (simp add: smt_rel_def ins)
  consider (empty) "f = SE" | (leaf) k v where "f = SL k v" using descend_focus [OF d] by blast
  then show ?thesis
  proof cases
    case empty
    have ins: "smt_insert key val t = plug (bit key) 0 (ss @ []) (SL key val)"
      using d empty by (simp add: smt_insert_def)
    have cf': "collision_free P (smt_subtrees (plug (bit key) 0 ss f) \<union>
        smt_subtrees (plug (bit key) 0 (ss @ []) (SL key val)))"
      using cf unfolding ins t .
    have "\<exists>m' ro' nodes'. build_loop
        (insert_step P (split_bits key) (map (smt_hash P) ss) (length ss + length ([] :: smt list)) ([] \<noteq> ([] :: smt list)))
        (rev (enumerate 0 (map (smt_hash P) (ss @ []))))
        (ss \<noteq> [], smt_hash P f, smt_hash P (SL key val), (nm_nodes s)(smt_hash P (SL key val) \<mapsto> [1, key, val])) =
        Inr (m', ro', smt_hash P (plug (bit key) 0 (ss @ []) (SL key val)), nodes') \<and>
      stores P (smt_subtrees (plug (bit key) 0 (ss @ []) (SL key val))) nodes'"
      by (rule insert_loop [OF host wf _ _ _ absent _ _ st _ cf'])
        (use le canon in \<open>simp_all add: stores_def\<close>)
    then obtain m' ro' nodes' where loop: "build_loop
        (insert_step P (split_bits key) (map (smt_hash P) ss) (length ss + length ([] :: smt list)) ([] \<noteq> ([] :: smt list)))
        (rev (enumerate 0 (map (smt_hash P) (ss @ []))))
        (ss \<noteq> [], smt_hash P f, smt_hash P (SL key val), (nm_nodes s)(smt_hash P (SL key val) \<mapsto> [1, key, val])) =
        Inr (m', ro', smt_hash P (plug (bit key) 0 (ss @ []) (SL key val)), nodes')"
      and st': "stores P (smt_subtrees (plug (bit key) 0 (ss @ []) (SL key val))) nodes'" by blast
    show ?thesis
      by (rule concl [OF ins loop _ st'])
        (use auth leaf_hash find in
          \<open>cases "ss = []"; simp add: nm_insert_leaf_def find_result_of_def empty Let_def\<close>)
  next
    case leaf
    have ne: "k \<noteq> key" using new by (auto simp: smt_lookup_def d leaf split: if_splits)
    have kv: "k < bn256_modulus" "v < bn256_modulus" using wf_plug_focus [OF wf] by (simp_all add: leaf)
    let ?ex = "replicate (common_bits k key (length ss)) SE @ [SL k v]"
    have ins: "smt_insert key val t = plug (bit key) 0 (ss @ ?ex) (SL key val)"
      using d leaf ne by (simp add: smt_insert_def)
    have cf': "collision_free P (smt_subtrees (plug (bit key) 0 ss f) \<union>
        smt_subtrees (plug (bit key) 0 (ss @ ?ex) (SL key val)))"
      using cf unfolding ins t .
    have bits: "bit k j = bit key j" if "j < length ss" for j
      using wf_plug_focus [OF wf] that by (simp add: leaf)
    have len: "length ss + length ?ex \<le> 256" using common_bits_differ(1) [OF ne le bits] by simp
    have lastE: "last ss \<noteq> SE" if "ss \<noteq> []" using wf_plug_last [OF wf that] by (auto simp: leaf)
    have stx: "stores P (set ?ex) (nm_nodes s)"
    proof -
      have "f \<in> smt_subtrees (plug (bit key) 0 ss f)" unfolding subtrees_plug by simp
      with st show ?thesis by (auto simp: stores_def leaf)
    qed
    have "\<exists>m' ro' nodes'. build_loop
        (insert_step P (split_bits key) (map (smt_hash P) ss) (length ss + length ?ex) (?ex \<noteq> []))
        (rev (enumerate 0 (map (smt_hash P) (ss @ ?ex))))
        (False, smt_hash P f, smt_hash P (SL key val), (nm_nodes s)(smt_hash P (SL key val) \<mapsto> [1, key, val])) =
        Inr (m', ro', smt_hash P (plug (bit key) 0 (ss @ ?ex) (SL key val)), nodes') \<and>
      stores P (smt_subtrees (plug (bit key) 0 (ss @ ?ex) (SL key val))) nodes'"
      by (rule insert_loop [OF host wf len _ _ absent _ _ st stx cf'])
        (use kv canon lastE in \<open>auto simp: list_all_iff butlast_append\<close>)
    then obtain m' ro' nodes' where loop: "build_loop
        (insert_step P (split_bits key) (map (smt_hash P) ss) (length ss + length ?ex) (?ex \<noteq> []))
        (rev (enumerate 0 (map (smt_hash P) (ss @ ?ex))))
        (False, smt_hash P f, smt_hash P (SL key val), (nm_nodes s)(smt_hash P (SL key val) \<mapsto> [1, key, val])) =
        Inr (m', ro', smt_hash P (plug (bit key) 0 (ss @ ?ex) (SL key val)), nodes')"
      and st': "stores P (smt_subtrees (plug (bit key) 0 (ss @ ?ex) (SL key val))) nodes'" by blast
    show ?thesis
      by (rule concl [OF ins loop _ st'])
        (use auth leaf_hash find ne hash_leaf_ok [OF host kv] in
          \<open>simp add: nm_insert_leaf_def find_result_of_def leaf Let_def extend_siblings_common\<close>)
  qed
qed

section \<open>Deletion\<close>

definition strip_empty :: "smt list \<Rightarrow> smt list" where
  "strip_empty us = rev (dropWhile ((=) SE) (rev us))"

lemma strip_empty_simps:
  "strip_empty [] = []"
  "strip_empty (s # us) =
    (if strip_empty us \<noteq> [] then s # strip_empty us else if s = SE then [] else [s])"
  by (auto simp: strip_empty_def dropWhile_append dropWhile_eq_Nil_conv)

lemma strip_empty_last: "us = [] \<or> last us \<noteq> SE \<Longrightarrow> strip_empty us = us"
  by (induction us) (auto simp: strip_empty_simps split: if_splits)

lemma strip_empty_subset: "set (strip_empty us) \<subseteq> set us"
  using set_dropWhileD by (fastforce simp: strip_empty_def)

lemma delete_step_ok:
  assumes host: "host_permutation_ok P" and i: "i < 256"
    and c: "canonical_smt s" "canonical_smt f" "canonical_smt g"
  shows "delete_step P (split_bits key) (i, smt_hash P s) (mixed, smt_hash P f, smt_hash P g, nodes) =
    (let nodes1 = nodes(smt_hash P (path_node key i s f) := None) in
     if mixed \<or> smt_hash P s \<noteq> 0 then
       Inr (True, smt_hash P (path_node key i s f), smt_hash P (path_node key i s g),
         nodes1(smt_hash P (path_node key i s g) \<mapsto> smt_node P (path_node key i s g)))
     else Inr (False, smt_hash P (path_node key i s f), smt_hash P g, nodes1))"
  using i path_node_hash [OF host c(1,2), of key i] path_node_hash [OF host c(1,3), of key i]
  by (cases "bit key i") (auto simp: delete_step_def smt_node_path_node Let_def)

lemma delete_loop:
  assumes host: "host_permutation_ok P" and len: "i + length us \<le> 256"
    and c: "list_all canonical_smt us" "canonical_smt f" "canonical_smt g"
    and zero: "\<And>s. s \<in> set us \<Longrightarrow> smt_hash P s = 0 \<longleftrightarrow> s = SE"
    and st: "stores P S nodes"
    and cf: "collision_free P (S \<union> path_nodes (bit key) i (strip_empty us) g \<union> path_nodes (bit key) i us f)"
    and fresh: "path_nodes (bit key) i us f \<inter> (S \<union> path_nodes (bit key) i (strip_empty us) g) = {}"
  shows "\<exists>nodes'. build_loop (delete_step P (split_bits key))
      (rev (enumerate i (map (smt_hash P) us))) (False, smt_hash P f, smt_hash P g, nodes) =
      Inr (strip_empty us \<noteq> [], smt_hash P (plug (bit key) i us f),
        smt_hash P (plug (bit key) i (strip_empty us) g), nodes') \<and>
    stores P (S \<union> path_nodes (bit key) i (strip_empty us) g) nodes'"
  using len c(1) zero cf fresh
proof (induction us arbitrary: i)
  case Nil
  then show ?case using st by (simp add: strip_empty_simps)
next
  case (Cons s us)
  let ?g = "plug (bit key) (Suc i) (strip_empty us) g" and ?f = "plug (bit key) (Suc i) us f"
  let ?S = "S \<union> path_nodes (bit key) (Suc i) (strip_empty us) g"
  let ?ng = "path_node key i s ?g" and ?nf = "path_node key i s ?f"
  let ?T = "S \<union> path_nodes (bit key) i (strip_empty (s # us)) g"
  have sub: "?S \<subseteq> ?T"
    by (cases "strip_empty us") (auto simp: strip_empty_simps path_nodes_Cons)
  have subf: "path_nodes (bit key) (Suc i) us f \<subseteq> path_nodes (bit key) i (s # us) f"
    "?nf \<in> path_nodes (bit key) i (s # us) f"
    by (auto simp: path_nodes_Cons plug_path_node simp del: plug.simps)
  have "\<exists>nodes'. build_loop (delete_step P (split_bits key))
      (rev (enumerate (Suc i) (map (smt_hash P) us))) (False, smt_hash P f, smt_hash P g, nodes) =
      Inr (strip_empty us \<noteq> [], smt_hash P ?f, smt_hash P ?g, nodes') \<and> stores P ?S nodes'"
  proof (rule Cons.IH)
    show "collision_free P (?S \<union> path_nodes (bit key) (Suc i) us f)"
      by (rule collision_free_mono [OF Cons.prems(4)]) (use sub subf in blast)
    show "path_nodes (bit key) (Suc i) us f \<inter> ?S = {}" using Cons.prems(5) sub subf by blast
  qed (use Cons.prems in auto)
  then obtain nodes' where rec: "build_loop (delete_step P (split_bits key))
      (rev (enumerate (Suc i) (map (smt_hash P) us))) (False, smt_hash P f, smt_hash P g, nodes) =
      Inr (strip_empty us \<noteq> [], smt_hash P ?f, smt_hash P ?g, nodes')" and st': "stores P ?S nodes'"
    by blast
  have "list_all canonical_smt (strip_empty us)"
    using Cons.prems(2) strip_empty_subset [of us] by (auto simp: list_all_iff)
  then have cc: "canonical_smt s" "canonical_smt ?f" "canonical_smt ?g"
    using Cons.prems(2) c(2,3) by (simp_all add: canonical_plug)
  have i: "i < 256" using Cons.prems(1) by simp
  note step = delete_step_ok [OF host i cc, of key "strip_empty us \<noteq> []" nodes', unfolded Let_def]
  have s0: "smt_hash P s = 0 \<longleftrightarrow> s = SE" using Cons.prems(3) by simp
  have nf: "?nf \<notin> ?S" using Cons.prems(5) sub subf(2) by blast
  have st1: "stores P ?S (nodes'(smt_hash P ?nf := None))"
    by (rule stores_remove [OF st' collision_free_mono [OF Cons.prems(4)] nf]) (use sub subf in blast)
  show ?case
  proof (cases "strip_empty us = [] \<and> s = SE")
    case True
    then show ?thesis
      using st1 s0 unfolding list.map build_loop_rev_Cons rec let_ok_simps step
      by (simp add: strip_empty_simps plug_path_node del: plug.simps(2) fun_upd_apply)
  next
    case False
    then have strip: "strip_empty (s # us) = s # strip_empty us" by (auto simp: strip_empty_simps)
    have "stores P (insert ?ng ?S) ((nodes'(smt_hash P ?nf := None))(smt_hash P ?ng \<mapsto> smt_node P ?ng))"
      by (rule stores_put [OF st1 collision_free_mono [OF Cons.prems(4)]])
        (use strip in \<open>auto simp: path_nodes_Cons plug_path_node simp del: plug.simps\<close>)
    moreover have cond: "(strip_empty us \<noteq> [] \<or> smt_hash P s \<noteq> 0) = True"
      "(s # strip_empty us \<noteq> []) = True" using False s0 by auto
    ultimately show ?thesis
      unfolding strip list.map build_loop_rev_Cons rec let_ok_simps step path_nodes_Cons
        plug_path_node cond if_True
      by (intro exI conjI) (rule refl, simp only: Un_insert_right)
  qed
qed

text \<open>
  The trees that a deletion touches: the old and the new tree, and the trees whose hashes the loop
  removes. When the sibling is promoted the loop starts one level too high, so that these are not
  nodes of the old tree.
\<close>

definition delete_trees :: "u256 \<Rightarrow> smt \<Rightarrow> smt set" where
  "delete_trees key t = smt_subtrees t \<union> smt_subtrees (smt_delete key t) \<union>
    (case descend (bit key) 0 t of (ss, f) \<Rightarrow> path_nodes (bit key) 0 (butlast ss) f)"

lemma nm_delete_leaf_rel:
  assumes host: "host_permutation_ok P" and rel: "smt_rel P t s"
    and auth: "nm_admin s = Some admin" "auth admin" and old: "smt_lookup t key = Some val"
    and cf: "collision_free P (delete_trees key t)"
  shows "\<exists>nodes. let s' = s\<lparr>nm_nodes := nodes, nm_root := Some (smt_hash P (smt_delete key t))\<rparr> in
    nm_delete_leaf P auth key s =
      Inr ([LeafDeletedEvent key (smt_hash P (smt_delete key t))], s') \<and>
    smt_rel P (smt_delete key t) s'"
proof -
  obtain ss f where d: "descend (bit key) 0 t = (ss, f)" by force
  have f: "f = SL key val" using old by (auto simp: smt_lookup_def d split: smt.splits if_splits)
  have t: "plug (bit key) 0 ss (SL key val) = t" using plug_descend [OF d] f by simp
  have wft: "smt_wf 0 (bit key) t" using rel wf0_cong by (auto simp: smt_rel_def)
  have wf: "smt_wf 0 (bit key) (plug (bit key) 0 ss (SL key val))" using wft t by simp
  have st: "stores P (smt_subtrees t) (nm_nodes s)" using rel by (simp add: smt_rel_def)
  have cf_old: "collision_free P (smt_subtrees t)"
    by (rule collision_free_mono [OF cf]) (auto simp: delete_trees_def)
  have find: "find_key_internal (nm_nodes s) key (split_bits key) (smt_hash P t) 0 =
      Inr (find_result_of P key (ss, SL key val))"
    using find_key_rel [OF rel cf_old] d f rel by (simp add: smt_rel_def stored_root_def)
  have canon: "list_all canonical_smt ss" "canonical_smt (SL key val)"
    using wf_canonical [OF wf] by (simp_all add: canonical_plug)
  have le: "length ss \<le> 256" using wf_plug_length [OF wf] by (cases "ss = []") simp_all
  have wf_new: "smt_wf 0 (\<lambda>_. False) (smt_delete key t)"
    using smt_delete_spec(1) [OF wft old] by (rule wf0_cong)
  have gone: "(key, val) \<notin> smt_entries u" if "u \<in> smt_subtrees (smt_delete key t)" for u
    using subtrees_entries [OF that] smt_delete_spec(2) [OF wft old] by blast
  have on_path: "(key, val) \<in> smt_entries u" if "u \<in> insert (SL key val) (path_nodes (bit key) 0 us (SL key val))"
    for u us using that by (auto simp: path_nodes_def entries_plug)
  have sib: "smt_subtrees u \<subseteq> smt_subtrees t" "(key, val) \<notin> smt_entries u" if mem: "u \<in> set ss" for u
  proof -
    show "smt_subtrees u \<subseteq> smt_subtrees t" using mem t subtrees_plug [of "bit key" 0 ss] by blast
    obtain j where j: "j < length ss" "u = ss ! j" using mem by (auto simp: in_set_conv_nth)
    show "(key, val) \<notin> smt_entries u"
      using wf_entries [OF wf_plug_sibling [OF wf j(1)], of key val j] j by auto
  qed
  let ?nodes = "(nm_nodes s)(smt_hash P (SL key val) := None)"
  have sub_path: "insert (SL key val) (path_nodes (bit key) 0 ss (SL key val)) \<subseteq> smt_subtrees t"
    using t subtrees_plug [of "bit key" 0 ss "SL key val"] by (auto simp: path_nodes_def)
  have st0: "stores P (\<Union>u \<in> set ss. smt_subtrees u) ?nodes"
  proof (rule stores_remove)
    show "stores P (\<Union>u \<in> set ss. smt_subtrees u) (nm_nodes s)"
      by (rule stores_mono [OF st]) (use sib(1) in blast)
    show "collision_free P (insert (SL key val) (\<Union>u \<in> set ss. smt_subtrees u))"
      by (rule collision_free_mono [OF cf_old]) (use sib(1) sub_path in blast)
    show "SL key val \<notin> (\<Union>u \<in> set ss. smt_subtrees u)"
      using sib(2) subtrees_entries by fastforce
  qed
  have zero: "smt_hash P u = 0 \<longleftrightarrow> u = SE" if "u \<in> set ss" for u
    using collision_free_zero [OF cf_old, of u] sib(1) [OF that] by blast
  have leaf_hash: "hash_leaf P key val = Inr (smt_hash P (SL key val))"
    using hash_leaf_ok [OF host] canon(2) by simp
  have concl: ?thesis
    if pro: "promote_sibling (map (smt_hash P) ss) ?nodes = Inr (smt_hash P g, map (smt_hash P) us)"
      and us: "set us \<subseteq> set ss" "length us \<le> 256" and g: "g \<in> insert SE (set ss)"
      and new: "smt_delete key t = plug (bit key) 0 (strip_empty us) g"
      and cover: "path_nodes (bit key) 0 us (SL key val) \<subseteq> delete_trees key t"
    for us g
  proof -
    let ?S = "(\<Union>u \<in> set (strip_empty us). smt_subtrees u) \<union> smt_subtrees g"
    have new_sub: "smt_subtrees (smt_delete key t) = ?S \<union> path_nodes (bit key) 0 (strip_empty us) g"
      unfolding new subtrees_as_path_nodes by blast
    have "stores P ?S ?nodes"
    proof (rule stores_mono)
      show "stores P (insert SE (\<Union>u \<in> set ss. smt_subtrees u)) ?nodes"
        using st0 by (simp add: stores_def)
      show "?S \<subseteq> insert SE (\<Union>u \<in> set ss. smt_subtrees u)"
        using us(1) strip_empty_subset [of us] g by (cases "g = SE") auto
    qed
    moreover have "collision_free P (?S \<union> path_nodes (bit key) 0 (strip_empty us) g \<union>
        path_nodes (bit key) 0 us (SL key val))"
      by (rule collision_free_mono [OF cf]) (use new_sub cover in \<open>auto simp: delete_trees_def\<close>)
    moreover have "path_nodes (bit key) 0 us (SL key val) \<inter>
        (?S \<union> path_nodes (bit key) 0 (strip_empty us) g) = {}"
      using gone on_path unfolding new_sub by blast
    moreover have "list_all canonical_smt us" "canonical_smt g"
      using canon(1) us(1) g by (auto simp: list_all_iff)
    ultimately obtain nodes' where loop: "build_loop (delete_step P (split_bits key))
        (rev (enumerate 0 (map (smt_hash P) us))) (False, smt_hash P (SL key val), smt_hash P g, ?nodes) =
        Inr (strip_empty us \<noteq> [], smt_hash P (plug (bit key) 0 us (SL key val)),
          smt_hash P (plug (bit key) 0 (strip_empty us) g), nodes')"
      and st': "stores P (?S \<union> path_nodes (bit key) 0 (strip_empty us) g) nodes'"
      using delete_loop [OF host, of 0 us "SL key val" g ?S ?nodes key] us zero canon(2) by auto
    have "smt_rel P (smt_delete key t)
        (s\<lparr>nm_nodes := nodes', nm_root := Some (smt_hash P (smt_delete key t))\<rparr>)"
      using wf_new st' new_sub by (simp add: smt_rel_def)
    moreover have "nm_root s = Some (smt_hash P t)" using rel by (simp add: smt_rel_def)
    ultimately show ?thesis
      using auth find leaf_hash pro loop new
      by (intro exI [of _ nodes']) (simp add: nm_delete_leaf_def find_result_of_def Let_def)
  qed
  show ?thesis
  proof (cases ss rule: rev_cases)
    case Nil
    show ?thesis
      by (rule concl [of SE "[]"])
        (use d f Nil in \<open>simp_all add: promote_sibling_def smt_delete_def strip_empty_simps\<close>)
  next
    case (snoc us u)
    have node: "u \<noteq> SE \<Longrightarrow> ?nodes (smt_hash P u) = Some (smt_node P u)"
      using st0 snoc by (auto simp: stores_def)
    have uE: "u \<noteq> SE" using wf_plug_last [OF wf] snoc by auto
    show ?thesis
    proof (cases u)
      case (SL k v)
      show ?thesis
      proof (rule concl [of u us])
        show "promote_sibling (map (smt_hash P) ss) ?nodes = Inr (smt_hash P u, map (smt_hash P) us)"
          using node [OF uE] SL snoc by (simp add: promote_sibling_def Let_def)
        show "smt_delete key t = plug (bit key) 0 (strip_empty us) u"
          using d f snoc SL by (simp add: smt_delete_def strip_empty_def)
        show "path_nodes (bit key) 0 us (SL key val) \<subseteq> delete_trees key t"
          using d f snoc by (simp add: delete_trees_def)
      qed (use snoc le in auto)
    next
      case (SN l r)
      show ?thesis
      proof (rule concl [of SE ss])
        show "promote_sibling (map (smt_hash P) ss) ?nodes = Inr (smt_hash P SE, map (smt_hash P) ss)"
          using node [OF uE] SN snoc by (simp add: promote_sibling_def Let_def)
        show "smt_delete key t = plug (bit key) 0 (strip_empty ss) SE"
          using d f snoc SN strip_empty_last [of ss] by (simp add: smt_delete_def)
        show "path_nodes (bit key) 0 ss (SL key val) \<subseteq> delete_trees key t"
          using sub_path by (auto simp: delete_trees_def)
      qed (use le in auto)
    qed (use uE in simp)
  qed
qed

section \<open>Verification of non-membership proofs\<close>

lemma verify_loop:
  assumes host: "host_permutation_ok P" and f: "canonical_smt f"
  shows "i + length ss \<le> 256 \<Longrightarrow> list_all canonical_smt ss \<Longrightarrow>
    build_loop (verify_step P (split_bits key)) (rev (enumerate i (map (smt_hash P) ss))) (smt_hash P f) =
      Inr (smt_hash P (plug (bit key) i ss f))"
proof (induction ss arbitrary: i)
  case (Cons s ss)
  let ?f = "plug (bit key) (Suc i) ss f"
  have c: "canonical_smt s" "canonical_smt ?f" using Cons.prems(2) f by (simp_all add: canonical_plug)
  have "verify_step P (split_bits key) (i, smt_hash P s) (smt_hash P ?f) =
      Inr (smt_hash P (path_node key i s ?f))"
    using Cons.prems(1) path_node_hash [OF host c, of key i] by (simp add: verify_step_def)
  moreover have "build_loop (verify_step P (split_bits key)) (rev (enumerate (Suc i) (map (smt_hash P) ss)))
      (smt_hash P f) = Inr (smt_hash P ?f)"
    using Cons by simp
  ultimately show ?case
    unfolding list.map build_loop_rev_Cons plug_path_node by simp
qed simp

text \<open>
  The proof that the tree itself yields for an absent key: the hashes of the siblings and the leaf in
  its place. It is the only one that is accepted.
\<close>

definition non_membership_proof :: "poseidon2_host \<Rightarrow> smt \<Rightarrow> u256 \<Rightarrow> u256 list \<times> u256 \<times> u256" where
  "non_membership_proof P t key = (case descend (bit key) 0 t of
     (ss, SL k v) \<Rightarrow> (map (smt_hash P) ss, k, v)
   | (ss, _) \<Rightarrow> (map (smt_hash P) ss, key, 0))"

lemma verify_rel:
  assumes host: "host_permutation_ok P" and rel: "smt_rel P t s" and cf: "collision_free P (smt_subtrees t)"
    and nz: "\<And>k. (k, 0) \<notin> smt_entries t"
  shows "nm_verify_non_membership P key siblings nk nv s =
    (if smt_lookup t key \<noteq> None then Inr False
     else if (siblings, nk, nv) = non_membership_proof P t key then Inr True
     else Inl (Err Smt_InvalidProof))"
proof -
  obtain ss f where d: "descend (bit key) 0 t = (ss, f)" by force
  have t: "plug (bit key) 0 ss f = t" by (rule plug_descend [OF d])
  have wft: "smt_wf 0 (bit key) t" using rel wf0_cong by (auto simp: smt_rel_def)
  have wf: "smt_wf 0 (bit key) (plug (bit key) 0 ss f)" using wft t by simp
  have le: "0 + length ss \<le> 256" using wf_plug_length [OF wf] by (cases "ss = []") simp_all
  have c: "list_all canonical_smt ss" "canonical_smt f"
    using wf_canonical [OF wf] by (simp_all add: canonical_plug)
  have loop: "build_loop (verify_step P (split_bits key)) (rev (enumerate 0 (map (smt_hash P) ss)))
      (smt_hash P f) = Inr (smt_hash P t)"
    using verify_loop [OF host c(2) le c(1)] t by simp
  have root: "stored_root s = smt_hash P t" using rel by (simp add: smt_rel_def stored_root_def)
  note find = find_key_rel [OF rel cf, of key, unfolded d]
  consider (empty) "f = SE" | (leaf) k v where "f = SL k v" using descend_focus [OF d] by blast
  then show ?thesis
  proof cases
    case empty
    then show ?thesis using find loop root
      by (auto simp: nm_verify_non_membership_def find_result_of_def smt_lookup_def d
          non_membership_proof_def Let_def)
  next
    case leaf
    have "v \<noteq> 0" using nz [of k] entries_plug [of "bit key" 0 ss f] t leaf by auto
    moreover have "hash_leaf P k v = Inr (smt_hash P f)" using hash_leaf_ok [OF host] c(2) leaf by simp
    ultimately show ?thesis using find loop root leaf
      by (auto simp: nm_verify_non_membership_def find_result_of_def smt_lookup_def d
          non_membership_proof_def Let_def)
  qed
qed

text \<open>A colliding leaf with the value zero: the reconstruction starts from the empty tree instead.\<close>

lemma verify_zero_value:
  assumes host: "host_permutation_ok P" and rel: "smt_rel P t s"
    and d: "descend (bit key) 0 t = (ss, SL k 0)" and ne: "k \<noteq> key"
    and cf: "collision_free P (insert (plug (bit key) 0 ss SE) (smt_subtrees t))"
  shows "nm_verify_non_membership P key (map (smt_hash P) ss) k 0 s = Inl (Err Smt_InvalidProof)"
proof -
  have t: "plug (bit key) 0 ss (SL k 0) = t" by (rule plug_descend [OF d])
  have wft: "smt_wf 0 (bit key) t" using rel wf0_cong by (auto simp: smt_rel_def)
  have wf: "smt_wf 0 (bit key) (plug (bit key) 0 ss (SL k 0))" using wft t by simp
  have le: "0 + length ss \<le> 256" using wf_plug_length [OF wf] by (cases "ss = []") simp_all
  have c: "list_all canonical_smt ss" using wf_canonical [OF wf] by (simp add: canonical_plug)
  have loop: "build_loop (verify_step P (split_bits key)) (rev (enumerate 0 (map (smt_hash P) ss))) 0 =
      Inr (smt_hash P (plug (bit key) 0 ss SE))"
    using verify_loop [OF host, of SE 0 ss key] le c by simp
  have ent: "smt_entries (plug (bit key) 0 ss SE) \<noteq> smt_entries t"
  proof -
    have "(k, 0) \<notin> (\<Union>u \<in> set ss. smt_entries u)"
    proof
      assume "(k, 0) \<in> (\<Union>u \<in> set ss. smt_entries u)"
      then obtain j where j: "j < length ss" "(k, 0) \<in> smt_entries (ss ! j)"
        by (auto simp: in_set_conv_nth)
      from wf_entries [OF wf_plug_sibling [OF wf j(1)] j(2), of j] wf_plug_focus [OF wf] j(1)
      show False by simp
    qed
    then have "(k, 0) \<notin> smt_entries (plug (bit key) 0 ss SE)" by (simp add: entries_plug)
    moreover have "(k, 0) \<in> smt_entries (plug (bit key) 0 ss (SL k 0))" by (simp add: entries_plug)
    ultimately show ?thesis using t by metis
  qed
  have "smt_hash P (plug (bit key) 0 ss SE) \<noteq> smt_hash P t"
    using collision_free_eq [OF cf, of "plug (bit key) 0 ss SE" t] ent by auto
  moreover have "stored_root s = smt_hash P t" using rel by (simp add: smt_rel_def stored_root_def)
  moreover have "collision_free P (smt_subtrees t)" by (rule collision_free_mono [OF cf]) blast
  note find = find_key_rel [OF rel this, of key]
  ultimately show ?thesis
    using find d ne loop
    by (auto simp: nm_verify_non_membership_def find_result_of_def Let_def)
qed

section \<open>Runs\<close>

datatype smt_call = NM_UpdateAdmin address | NM_Insert u256 u256 | NM_Delete u256

fun nm_exec ::
  "poseidon2_host \<Rightarrow> (address \<Rightarrow> bool) \<Rightarrow> smt_call \<Rightarrow> smt_store
    \<Rightarrow> (asp_non_membership_error, smt_event list \<times> smt_store) outcome" where
  "nm_exec P auth (NM_UpdateAdmin a) s = let_ok (nm_update_admin auth a s) (\<lambda>s'. Inr ([], s'))"
| "nm_exec P auth (NM_Insert key val) s = nm_insert_leaf P auth key val s"
| "nm_exec P auth (NM_Delete key) s = nm_delete_leaf P auth key s"

inductive nm_reachable :: "poseidon2_host \<Rightarrow> smt_event list \<Rightarrow> smt_store \<Rightarrow> bool"
  for P :: poseidon2_host
where
  nm_init: "nm_constructor admin empty_smt_store = Inr s \<Longrightarrow> nm_reachable P [] s"
| nm_call: "nm_reachable P log s \<Longrightarrow> nm_exec P auth call s = Inr (evs, s') \<Longrightarrow>
    nm_reachable P (log @ evs) s'"

text \<open>The tree and the map that the published events describe.\<close>

fun smt_apply :: "smt_event \<Rightarrow> smt \<Rightarrow> smt" where
  "smt_apply (LeafInsertedEvent k v r) t = smt_insert k v t"
| "smt_apply (LeafDeletedEvent k r) t = smt_delete k t"

fun map_apply :: "smt_event \<Rightarrow> (u256 \<rightharpoonup> u256) \<Rightarrow> (u256 \<rightharpoonup> u256)" where
  "map_apply (LeafInsertedEvent k v r) m = m(k \<mapsto> v)"
| "map_apply (LeafDeletedEvent k r) m = m(k := None)"

fun touched_trees :: "smt_event \<Rightarrow> smt \<Rightarrow> smt set" where
  "touched_trees (LeafInsertedEvent k v r) t = smt_subtrees t \<union> smt_subtrees (smt_insert k v t)"
| "touched_trees (LeafDeletedEvent k r) t = delete_trees k t"

fun log_trees :: "smt_event list \<Rightarrow> smt \<Rightarrow> smt set" where
  "log_trees [] t = smt_subtrees t"
| "log_trees (e # es) t = touched_trees e t \<union> log_trees es (smt_apply e t)"

definition log_tree :: "smt_event list \<Rightarrow> smt" where
  "log_tree log = fold smt_apply log SE"

definition log_map :: "smt_event list \<Rightarrow> (u256 \<rightharpoonup> u256)" where
  "log_map log = fold map_apply log Map.empty"

lemma log_trees_snoc:
  "log_trees (es @ [e]) t =
    log_trees es t \<union> touched_trees e (fold smt_apply es t) \<union> smt_subtrees (smt_apply e (fold smt_apply es t))"
proof (induction es arbitrary: t)
  case Nil
  have "smt_subtrees t \<subseteq> touched_trees e t" by (cases e) (auto simp: delete_trees_def)
  then show ?case by auto
qed auto

lemma log_tree_collision_free:
  "collision_free P (log_trees log SE) \<Longrightarrow> collision_free P (smt_subtrees (log_tree log))"
proof (erule collision_free_mono)
  have "smt_subtrees (fold smt_apply log t) \<subseteq> log_trees log t" for t
    by (induction log arbitrary: t) auto
  then show "smt_subtrees (log_tree log) \<subseteq> log_trees log SE" by (simp add: log_tree_def)
qed

lemma nm_insert_InrD:
  assumes host: "host_permutation_ok P" and rel: "smt_rel P t s" and cf: "collision_free P (smt_subtrees t)"
    and run: "nm_insert_leaf P auth key val s = Inr (evs, s')"
  shows "\<exists>admin. nm_admin s = Some admin \<and> auth admin" "smt_lookup t key = None"
    "key < bn256_modulus" "val < bn256_modulus" "\<exists>r. evs = [LeafInsertedEvent key val r]"
proof -
  show "\<exists>admin. nm_admin s = Some admin \<and> auth admin"
    using run by (auto simp: nm_insert_leaf_def outcome_simps)
  show "\<exists>r. evs = [LeafInsertedEvent key val r]"
    using run by (auto simp: nm_insert_leaf_def outcome_simps Let_def split: if_splits)
  obtain h where h: "hash_leaf P key val = Inr h"
    using run by (auto simp: nm_insert_leaf_def outcome_simps Let_def split: if_splits)
  have "key < bn256_modulus \<and> val < bn256_modulus"
  proof (rule ccontr)
    assume "\<not> (key < bn256_modulus \<and> val < bn256_modulus)"
    then have "\<not> (key < bn256_modulus \<and> val < bn256_modulus \<and> (1::u256) < bn256_modulus)" by blast
    note trap = poseidon2_hash2_trap [OF this, of P]
    from h show False unfolding hash_leaf_def trap by simp
  qed
  then show "key < bn256_modulus" "val < bn256_modulus" by simp_all
  have "\<not> fr_found (find_result_of P key (descend (bit key) 0 t))"
    using run find_key_rel [OF rel cf, of key]
    by (auto simp: nm_insert_leaf_def outcome_simps Let_def split: if_splits)
  then show "smt_lookup t key = None"
    by (auto simp: smt_lookup_def find_result_of_def split: prod.splits smt.splits if_splits)
qed

lemma nm_delete_InrD:
  assumes rel: "smt_rel P t s" and cf: "collision_free P (smt_subtrees t)"
    and run: "nm_delete_leaf P auth key s = Inr (evs, s')"
  shows "\<exists>admin. nm_admin s = Some admin \<and> auth admin" "\<exists>v. smt_lookup t key = Some v"
    "\<exists>r. evs = [LeafDeletedEvent key r]"
proof -
  show "\<exists>admin. nm_admin s = Some admin \<and> auth admin"
    using run by (auto simp: nm_delete_leaf_def outcome_simps)
  show "\<exists>r. evs = [LeafDeletedEvent key r]"
    using run by (auto simp: nm_delete_leaf_def outcome_simps Let_def split: if_splits)
  have "fr_found (find_result_of P key (descend (bit key) 0 t))"
    using run find_key_rel [OF rel cf, of key] rel
    by (auto simp: nm_delete_leaf_def outcome_simps Let_def smt_rel_def stored_root_def split: if_splits)
  then show "\<exists>v. smt_lookup t key = Some v"
    by (auto simp: smt_lookup_def find_result_of_def split: prod.splits smt.splits if_splits)
qed

lemma lookup_insert:
  assumes "smt_wf 0 p t" and "smt_lookup t key = None" and "key < bn256_modulus" and "val < bn256_modulus"
  shows "smt_lookup (smt_insert key val t) = (smt_lookup t)(key \<mapsto> val)"
proof
  fix k
  have wf: "smt_wf 0 (bit key) t" using assms(1) by (rule wf0_cong)
  note spec = smt_insert_spec [OF wf assms(2-4)]
  have "smt_lookup (smt_insert key val t) k = Some v \<longleftrightarrow> ((smt_lookup t)(key \<mapsto> val)) k = Some v" for v
    using lookup_entries [OF spec(1), of k v] lookup_entries [OF wf, of k v] spec(2)
      lookup_None [OF wf, of key] assms(2) by auto
  then show "smt_lookup (smt_insert key val t) k = ((smt_lookup t)(key \<mapsto> val)) k"
    by (metis not_Some_eq)
qed

lemma lookup_delete:
  assumes "smt_wf 0 p t" and "smt_lookup t key = Some val"
  shows "smt_lookup (smt_delete key t) = (smt_lookup t)(key := None)"
proof
  fix k
  have wf: "smt_wf 0 (bit key) t" using assms(1) by (rule wf0_cong)
  note spec = smt_delete_spec [OF wf assms(2)]
  have "(key, v) \<in> smt_entries t \<Longrightarrow> v = val" for v
    using lookup_entries [OF wf, of key] assms(2) by (metis option.inject)
  then have "smt_lookup (smt_delete key t) k = Some v \<longleftrightarrow> ((smt_lookup t)(key := None)) k = Some v" for v
    using lookup_entries [OF spec(1), of k v] lookup_entries [OF wf, of k v] spec(2) by auto
  then show "smt_lookup (smt_delete key t) k = ((smt_lookup t)(key := None)) k"
    by (metis not_Some_eq)
qed

lemma nm_reachable_rel:
  assumes host: "host_permutation_ok P" and reach: "nm_reachable P log s"
  shows "collision_free P (log_trees log SE) \<Longrightarrow>
    smt_rel P (log_tree log) s \<and> smt_lookup (log_tree log) = log_map log \<and> nm_admin s \<noteq> None"
  using reach
proof induction
  case (nm_init admin s)
  then show ?case
    by (auto simp: nm_constructor_def empty_smt_store_def smt_rel_def log_tree_def log_map_def
        stores_def smt_lookup_def)
next
  case (nm_call log s auth call evs s')
  show ?case
  proof (cases call)
    case (NM_UpdateAdmin a)
    then have "evs = []" "\<exists>b. s' = s\<lparr>nm_admin := Some b\<rparr>"
      using nm_call.hyps(2) by (auto simp: nm_update_admin_def outcome_simps update_admin_Inr_iff)
    then show ?thesis using nm_call.IH nm_call.prems by (auto simp: smt_rel_def)
  next
    case (NM_Insert key val)
    then have run: "nm_insert_leaf P auth key val s = Inr (evs, s')" using nm_call.hyps(2) by simp
    then obtain r where evs: "evs = [LeafInsertedEvent key val r]"
      by (auto simp: nm_insert_leaf_def outcome_simps Let_def split: if_splits)
    let ?t = "log_tree log"
    have cf: "collision_free P (log_trees log SE)"
      "collision_free P (smt_subtrees ?t \<union> smt_subtrees (smt_insert key val ?t))"
      by (rule collision_free_mono [OF nm_call.prems]; auto simp: evs log_trees_snoc log_tree_def)+
    have rel: "smt_rel P ?t s" "smt_lookup ?t = log_map log" using nm_call.IH [OF cf(1)] by simp_all
    have cft: "collision_free P (smt_subtrees ?t)"
      by (rule collision_free_mono [OF cf(2)]) simp
    note pre = nm_insert_InrD [OF host rel(1) cft run]
    obtain admin where admin: "nm_admin s = Some admin" "auth admin" using pre(1) by auto
    from nm_insert_leaf_rel [where auth = auth, OF host rel(1) admin pre(2,3,4) cf(2)] run
    have "smt_rel P (smt_insert key val ?t) s'" "nm_admin s' = nm_admin s" by (auto simp: Let_def)
    moreover have "smt_lookup (smt_insert key val ?t) = (log_map log)(key \<mapsto> val)"
      using lookup_insert [OF _ pre(2,3,4)] rel by (auto simp: smt_rel_def)
    ultimately show ?thesis using admin by (simp add: evs log_tree_def log_map_def)
  next
    case (NM_Delete key)
    then have run: "nm_delete_leaf P auth key s = Inr (evs, s')" using nm_call.hyps(2) by simp
    then obtain r where evs: "evs = [LeafDeletedEvent key r]"
      by (auto simp: nm_delete_leaf_def outcome_simps Let_def split: if_splits)
    let ?t = "log_tree log"
    have cf: "collision_free P (log_trees log SE)" "collision_free P (delete_trees key ?t)"
      by (rule collision_free_mono [OF nm_call.prems]; auto simp: evs log_trees_snoc log_tree_def)+
    have rel: "smt_rel P ?t s" "smt_lookup ?t = log_map log" using nm_call.IH [OF cf(1)] by simp_all
    have cft: "collision_free P (smt_subtrees ?t)"
      by (rule collision_free_mono [OF cf(2)]) (auto simp: delete_trees_def)
    note pre = nm_delete_InrD [OF rel(1) cft run]
    obtain admin v where admin: "nm_admin s = Some admin" "auth admin" and v: "smt_lookup ?t key = Some v"
      using pre by auto
    from nm_delete_leaf_rel [where auth = auth, OF host rel(1) admin v cf(2)] run
    have "smt_rel P (smt_delete key ?t) s'" "nm_admin s' = nm_admin s" by (auto simp: Let_def)
    moreover have "smt_lookup (smt_delete key ?t) = (log_map log)(key := None)"
      using lookup_delete [OF _ v] rel by (auto simp: smt_rel_def)
    ultimately show ?thesis using admin by (simp add: evs log_tree_def log_map_def)
  qed
qed


section \<open>A concrete run\<close>

text \<open>Two insertions with the sample permutation: the keys 1 and 2 differ in their lowest bit.\<close>

definition sample_smt_log :: "smt_event list" where
  "sample_smt_log = [LeafInsertedEvent 1 7 (smt_hash sample_host (SL 1 7)),
     LeafInsertedEvent 2 9 (smt_hash sample_host (SN (SL 2 9) (SL 1 7)))]"

lemma sample_smt_trees:
  "smt_insert 1 7 SE = SL 1 7"
  "smt_insert 2 9 (SL 1 7) = SN (SL 2 9) (SL 1 7)"
  "log_trees sample_smt_log SE = {SE, SL 1 7, SL 2 9, SN (SL 2 9) (SL 1 7)}"
proof -
  have "common_bits (1::u256) 2 0 = 0" by (subst common_bits.simps) (simp add: bit_0)
  then show ins: "smt_insert 1 7 SE = SL 1 7" "smt_insert 2 9 (SL 1 7) = SN (SL 2 9) (SL 1 7)"
    by (simp_all add: smt_insert_def bit_0)
  show "log_trees sample_smt_log SE = {SE, SL 1 7, SL 2 9, SN (SL 2 9) (SL 1 7)}"
    by (auto simp: sample_smt_log_def ins)
qed

lemma sample_smt_hashes:
  "smt_hash sample_host (SL 1 7) = 7001007001"
  "smt_hash sample_host (SL 2 9) = 7002009001"
  "smt_hash sample_host (SN (SL 2 9) (SL 1 7)) = 28005030005"
proof -
  have mod: "(7001007001::u256) mod bn256_modulus = 7001007001"
    "(7002009001::u256) mod bn256_modulus = 7002009001" "(28005030005::u256) mod bn256_modulus = 28005030005"
    by (rule word_mod_less_id, simp add: bn256_modulus_eq u256_eval)+
  show leaves: "smt_hash sample_host (SL 1 7) = 7001007001" "smt_hash sample_host (SL 2 9) = 7002009001"
    by (simp_all add: hash2_val_def sample_host_def sample_mix_def mod)
  have "(7002009001::u256) \<notin> set get_zeroes"
    by (simp only: get_zeroes_def list.set insert_iff empty_iff de_Morgan_disj u256_eval)
  then have "map_of (zip get_zeroes (tl get_zeroes)) (7002009001::u256) = None"
    by (auto simp: map_of_eq_None_iff dest: set_zip_leftD)
  moreover have "(7002009001::u256) < bn256_modulus" by (simp add: bn256_modulus_eq u256_eval)
  ultimately show "smt_hash sample_host (SN (SL 2 9) (SL 1 7)) = 28005030005"
    by (simp add: leaves del: smt_hash.simps(2)) (simp add: sample_compress sample_target_def mod)
qed

lemma sample_smt_collision_free: "collision_free sample_host (log_trees sample_smt_log SE)"
  unfolding collision_free_def sample_smt_trees(3)
  using sample_smt_hashes by (simp add: inj_on_def del: smt_hash.simps(2,3))


lemma insert_step_reachable:
  assumes host: "host_permutation_ok P" and reach: "nm_reachable P log s"
    and adm: "nm_admin s = Some ''admin''" and new: "log_map log k = None"
    and lt: "k < bn256_modulus" "v < bn256_modulus"
    and cf: "collision_free P
      (log_trees (log @ [LeafInsertedEvent k v (smt_hash P (smt_insert k v (log_tree log)))]) SE)"
  shows "\<exists>s'. nm_reachable P
      (log @ [LeafInsertedEvent k v (smt_hash P (smt_insert k v (log_tree log)))]) s' \<and>
    nm_admin s' = Some ''admin''"
proof -
  let ?t = "log_tree log"
  have cfs: "collision_free P (log_trees log SE)"
    "collision_free P (smt_subtrees ?t \<union> smt_subtrees (smt_insert k v ?t))"
    by (rule collision_free_mono [OF cf]; auto simp: log_trees_snoc log_tree_def)+
  note inv = nm_reachable_rel [OF host reach cfs(1)]
  have look: "smt_lookup ?t k = None" using inv new by simp
  from nm_insert_leaf_rel [where auth = "\<lambda>a. a = ''admin''", OF host _ adm refl look lt cfs(2)] inv
  obtain nodes where "nm_insert_leaf P (\<lambda>a. a = ''admin'') k v s =
      Inr ([LeafInsertedEvent k v (smt_hash P (smt_insert k v ?t))],
        s\<lparr>nm_nodes := nodes, nm_root := Some (smt_hash P (smt_insert k v ?t))\<rparr>)"
    by (auto simp: Let_def)
  then have "nm_reachable P (log @ [LeafInsertedEvent k v (smt_hash P (smt_insert k v ?t))])
      (s\<lparr>nm_nodes := nodes, nm_root := Some (smt_hash P (smt_insert k v ?t))\<rparr>)"
    by (intro nm_call [OF reach, where call = "NM_Insert k v"]) simp
  with adm show ?thesis by (intro exI conjI) (assumption, simp)
qed

lemma empty_reachable: "\<exists>s. nm_reachable P [] s \<and> nm_admin s = Some ''admin''"
  using nm_init [of "''admin''" "empty_smt_store\<lparr>nm_admin := Some ''admin'', nm_root := Some 0\<rparr>" P]
  by (auto simp: nm_constructor_def)

lemma sample_smt_canonical: "(1::u256) < bn256_modulus" "(2::u256) < bn256_modulus"
  "(7::u256) < bn256_modulus" "(9::u256) < bn256_modulus" "(0::u256) < bn256_modulus"
  by (simp_all add: bn256_modulus_eq u256_eval)

lemma sample_smt_reachable:
  "\<exists>s. nm_reachable sample_host sample_smt_log s \<and> nm_admin s = Some ''admin''"
proof -
  note cf = collision_free_mono [OF sample_smt_collision_free [unfolded sample_smt_trees(3)]]
  obtain s0 where s0: "nm_reachable sample_host [] s0" "nm_admin s0 = Some ''admin''"
    using empty_reachable by blast
  obtain s1 where s1: "nm_reachable sample_host [LeafInsertedEvent 1 7 (smt_hash sample_host (SL 1 7))] s1"
    "nm_admin s1 = Some ''admin''"
    using insert_step_reachable [OF sample_host_ok s0, of 1 7] cf sample_smt_canonical
    by (auto simp: log_map_def log_tree_def sample_smt_trees)
  show ?thesis
    using insert_step_reachable [OF sample_host_ok s1, of 2 9] sample_smt_canonical sample_smt_collision_free
    by (simp add: log_map_def log_tree_def sample_smt_trees sample_smt_log_def del: smt_hash.simps(2,3))
qed

text \<open>The same entries inserted in the other order.\<close>

definition sample_smt_log' :: "smt_event list" where
  "sample_smt_log' = [LeafInsertedEvent 2 9 (smt_hash sample_host (SL 2 9)),
     LeafInsertedEvent 1 7 (smt_hash sample_host (SN (SL 2 9) (SL 1 7)))]"

lemma sample_smt_trees':
  "smt_insert 2 9 SE = SL 2 9"
  "smt_insert 1 7 (SL 2 9) = SN (SL 2 9) (SL 1 7)"
  "log_trees sample_smt_log' SE = {SE, SL 1 7, SL 2 9, SN (SL 2 9) (SL 1 7)}"
proof -
  have "common_bits (2::u256) 1 0 = 0" by (subst common_bits.simps) (simp add: bit_0)
  then show ins: "smt_insert 2 9 SE = SL 2 9" "smt_insert 1 7 (SL 2 9) = SN (SL 2 9) (SL 1 7)"
    by (simp_all add: smt_insert_def bit_0)
  show "log_trees sample_smt_log' SE = {SE, SL 1 7, SL 2 9, SN (SL 2 9) (SL 1 7)}"
    by (auto simp: sample_smt_log'_def ins)
qed

lemma sample_smt_collision_free': "collision_free sample_host (log_trees sample_smt_log' SE)"
  using sample_smt_collision_free unfolding sample_smt_trees(3) sample_smt_trees'(3) .

lemma sample_smt_reachable': "\<exists>s. nm_reachable sample_host sample_smt_log' s"
proof -
  note cf = collision_free_mono [OF sample_smt_collision_free [unfolded sample_smt_trees(3)]]
  obtain s0 where s0: "nm_reachable sample_host [] s0" "nm_admin s0 = Some ''admin''"
    using empty_reachable by blast
  obtain s1 where s1: "nm_reachable sample_host [LeafInsertedEvent 2 9 (smt_hash sample_host (SL 2 9))] s1"
    "nm_admin s1 = Some ''admin''"
    using insert_step_reachable [OF sample_host_ok s0, of 2 9] cf sample_smt_canonical
    by (auto simp: log_map_def log_tree_def sample_smt_trees')
  show ?thesis
    using insert_step_reachable [OF sample_host_ok s1, of 1 7] sample_smt_canonical sample_smt_collision_free'
    by (auto simp: log_map_def log_tree_def sample_smt_trees' sample_smt_log'_def simp del: smt_hash.simps(2,3))
qed

section \<open>Properties\<close>

text \<open>
  C12: In every state reached by any sequence of successful calls, \<open>find_key\<close> finds exactly the keys that
  the published events leave in the map, with their values: a key is found after its insertion until
  its deletion, and no other operation affects it. The hypothesis is that the hash has no collision
  among the trees that occurred.
\<close>

theorem smt_find_refines_map:
  assumes "host_permutation_ok P" and "nm_reachable P log s" and "collision_free P (log_trees log SE)"
  shows "\<exists>r. nm_find_key key s = Inr r \<and> fr_found r = (log_map log key \<noteq> None) \<and>
    (\<forall>v. log_map log key = Some v \<longrightarrow> fr_found_value r = v)"
proof -
  note inv = nm_reachable_rel [OF assms]
  have cf: "collision_free P (smt_subtrees (log_tree log))" by (rule log_tree_collision_free [OF assms(3)])
  have "nm_find_key key s = Inr (find_result_of P key (descend (bit key) 0 (log_tree log)))"
    unfolding nm_find_key_def using inv find_key_rel [OF _ cf] by blast
  moreover have "log_map log key = smt_lookup (log_tree log) key" using inv by simp
  ultimately show ?thesis
    by (auto simp: smt_lookup_def find_result_of_def split: prod.splits smt.splits if_splits)
qed

lemma smt_find_refines_map_witness:
  "\<exists>s r. nm_find_key 2 s = Inr r \<and> fr_found r \<and> fr_found_value r = 9"
proof -
  from sample_smt_reachable obtain s where r: "nm_reachable sample_host sample_smt_log s" by blast
  from smt_find_refines_map [OF sample_host_ok r sample_smt_collision_free, of 2] show ?thesis
    by (auto simp: log_map_def sample_smt_log_def)
qed

text \<open>
  C13: The root is a commitment to the set of entries alone: two histories of the contract that leave
  the same map have the same root, whatever the order of insertions and whatever was deleted in
  between.
\<close>

theorem smt_history_independent:
  assumes "host_permutation_ok P"
    and "nm_reachable P log s" and "collision_free P (log_trees log SE)"
    and "nm_reachable P log' s'" and "collision_free P (log_trees log' SE)"
    and "log_map log = log_map log'"
  shows "nm_get_root s = nm_get_root s'"
proof -
  note inv = nm_reachable_rel [OF assms(1-3)] and inv' = nm_reachable_rel [OF assms(1,4,5)]
  have "log_tree log = log_tree log'"
    using inv inv' assms(6) by (intro wf_lookup_unique [of "\<lambda>_. False"]) (simp_all add: smt_rel_def)
  with inv inv' show ?thesis by (simp add: smt_rel_def nm_get_root_def)
qed

lemma smt_history_independent_witness:
  "\<exists>s s'. nm_reachable sample_host sample_smt_log s \<and> nm_reachable sample_host sample_smt_log' s' \<and>
    nm_get_root s = nm_get_root s'"
proof -
  from sample_smt_reachable obtain s where r: "nm_reachable sample_host sample_smt_log s" by blast
  from sample_smt_reachable' obtain s' where r': "nm_reachable sample_host sample_smt_log' s'" by blast
  have "log_map sample_smt_log = log_map sample_smt_log'"
    by (simp add: log_map_def sample_smt_log_def sample_smt_log'_def fun_upd_twist)
  from smt_history_independent [OF sample_host_ok r sample_smt_collision_free r' sample_smt_collision_free' this]
  show ?thesis using r r' by blast
qed

text \<open>
  What insertion and deletion answer in a reachable state. Without the administrator both trap.
  With it, inserting a present key is \<open>KeyAlreadyExists\<close> and deleting an absent one \<open>KeyNotFound\<close>;
  inserting an absent key succeeds for field elements and deleting a present one succeeds, with the
  event and the stored root of the tree after the operation (no collision among the trees involved).
\<close>

theorem smt_update_results:
  assumes "host_permutation_ok P" and "nm_reachable P log s" and "collision_free P (log_trees log SE)"
    and "nm_admin s = Some admin"
  shows "(\<not> auth admin \<longrightarrow> nm_insert_leaf P auth key val s = Inl Trap \<and> nm_delete_leaf P auth key s = Inl Trap) \<and>
    (auth admin \<and> log_map log key \<noteq> None \<longrightarrow>
      nm_insert_leaf P auth key val s = Inl (Err Smt_KeyAlreadyExists)) \<and>
    (auth admin \<and> log_map log key = None \<longrightarrow>
      nm_delete_leaf P auth key s = Inl (Err Smt_KeyNotFound)) \<and>
    (auth admin \<and> log_map log key = None \<and> key < bn256_modulus \<and> val < bn256_modulus \<and>
      collision_free P (log_trees (log @ [LeafInsertedEvent key val r]) SE) \<longrightarrow>
      (\<exists>s'. nm_insert_leaf P auth key val s =
          Inr ([LeafInsertedEvent key val (smt_hash P (smt_insert key val (log_tree log)))], s') \<and>
        nm_root s' = Some (smt_hash P (smt_insert key val (log_tree log))))) \<and>
    (auth admin \<and> log_map log key \<noteq> None \<and>
      collision_free P (log_trees (log @ [LeafDeletedEvent key r]) SE) \<longrightarrow>
      (\<exists>s'. nm_delete_leaf P auth key s =
          Inr ([LeafDeletedEvent key (smt_hash P (smt_delete key (log_tree log)))], s') \<and>
        nm_root s' = Some (smt_hash P (smt_delete key (log_tree log)))))"
proof -
  let ?t = "log_tree log"
  have rel: "smt_rel P ?t s" and map: "log_map log = smt_lookup ?t"
    using nm_reachable_rel [OF assms(1-3)] by simp_all
  have cf: "collision_free P (smt_subtrees ?t)" by (rule log_tree_collision_free [OF assms(3)])
  note find = find_key_rel [OF rel cf, of key]
  have found: "fr_found (find_result_of P key (descend (bit key) 0 ?t)) \<longleftrightarrow> smt_lookup ?t key \<noteq> None"
    by (auto simp: smt_lookup_def find_result_of_def split: prod.splits smt.splits)
  have root: "nm_root s = Some (stored_root s)" using rel by (simp add: smt_rel_def stored_root_def)
  have trap: "nm_insert_leaf P auth key val s = Inl Trap \<and> nm_delete_leaf P auth key s = Inl Trap"
    if "\<not> auth admin"
    using that assms(4) by (simp add: nm_insert_leaf_def nm_delete_leaf_def)
  have dup: "nm_insert_leaf P auth key val s = Inl (Err Smt_KeyAlreadyExists)"
    if "auth admin" "smt_lookup ?t key \<noteq> None"
    using that assms(4) find found by (simp add: nm_insert_leaf_def Let_def)
  have absent: "nm_delete_leaf P auth key s = Inl (Err Smt_KeyNotFound)"
    if "auth admin" "smt_lookup ?t key = None"
    using that assms(4) find found root by (simp add: nm_delete_leaf_def Let_def)
  have ins: "\<exists>s'. nm_insert_leaf P auth key val s =
        Inr ([LeafInsertedEvent key val (smt_hash P (smt_insert key val ?t))], s') \<and>
      nm_root s' = Some (smt_hash P (smt_insert key val ?t))"
    if "auth admin" "smt_lookup ?t key = None" "key < bn256_modulus" "val < bn256_modulus"
      "collision_free P (log_trees (log @ [LeafInsertedEvent key val r]) SE)"
  proof -
    have "collision_free P (smt_subtrees ?t \<union> smt_subtrees (smt_insert key val ?t))"
      by (rule collision_free_mono [OF that(5)]) (auto simp: log_trees_snoc log_tree_def)
    from nm_insert_leaf_rel [where auth = auth, OF assms(1) rel assms(4) that(1-4) this]
    show ?thesis by (auto simp: Let_def)
  qed
  have del: "\<exists>s'. nm_delete_leaf P auth key s =
        Inr ([LeafDeletedEvent key (smt_hash P (smt_delete key ?t))], s') \<and>
      nm_root s' = Some (smt_hash P (smt_delete key ?t))"
    if adm: "auth admin" and some: "smt_lookup ?t key \<noteq> None"
      and cfd: "collision_free P (log_trees (log @ [LeafDeletedEvent key r]) SE)"
  proof -
    obtain v where v: "smt_lookup ?t key = Some v" using some by blast
    have "collision_free P (delete_trees key ?t)"
      by (rule collision_free_mono [OF cfd]) (auto simp: log_trees_snoc log_tree_def)
    from nm_delete_leaf_rel [where auth = auth, OF assms(1) rel assms(4) adm v this]
    show ?thesis by (auto simp: Let_def)
  qed
  show ?thesis unfolding map using trap dup absent ins del by blast
qed

lemma smt_update_results_witness:
  "\<exists>s. nm_reachable sample_host sample_smt_log s \<and>
    nm_insert_leaf sample_host (\<lambda>_. True) 1 5 s = Inl (Err Smt_KeyAlreadyExists) \<and>
    nm_delete_leaf sample_host (\<lambda>_. True) 3 s = Inl (Err Smt_KeyNotFound) \<and>
    nm_insert_leaf sample_host (\<lambda>_. False) 3 5 s = Inl Trap"
proof -
  from sample_smt_reachable obtain s where r: "nm_reachable sample_host sample_smt_log s"
    and a: "nm_admin s = Some ''admin''" by blast
  have m: "log_map sample_smt_log 1 = Some 7" "log_map sample_smt_log 3 = None"
    by (simp_all add: log_map_def sample_smt_log_def)
  note res = smt_update_results [OF sample_host_ok r sample_smt_collision_free a]
  have "nm_insert_leaf sample_host (\<lambda>_. True) 1 5 s = Inl (Err Smt_KeyAlreadyExists)"
    using res [of "\<lambda>_. True" 1 5 0] m by simp
  moreover have "nm_delete_leaf sample_host (\<lambda>_. True) 3 s = Inl (Err Smt_KeyNotFound)"
    using res [of "\<lambda>_. True" 3 5 0] m by simp
  moreover have "nm_insert_leaf sample_host (\<lambda>_. False) 3 5 s = Inl Trap"
    using res [of "\<lambda>_. False" 3 5 0] by simp
  ultimately show ?thesis using r by blast
qed

text \<open>
  C14: Non-membership verification is sound and complete while no entry has the value zero: for a key
  in the tree the answer is \<open>false\<close>; for an absent key exactly the proof that the tree yields is
  accepted, and every other siblings, key or value is \<open>InvalidProof\<close>.
\<close>

theorem smt_verify_non_membership:
  assumes "host_permutation_ok P" and "nm_reachable P log s" and "collision_free P (log_trees log SE)"
    and "\<forall>k. log_map log k \<noteq> Some 0"
  shows "nm_verify_non_membership P key siblings nk nv s =
    (if log_map log key \<noteq> None then Inr False
     else if (siblings, nk, nv) = non_membership_proof P (log_tree log) key then Inr True
     else Inl (Err Smt_InvalidProof))"
proof -
  have rel: "smt_rel P (log_tree log) s" and map: "log_map log = smt_lookup (log_tree log)"
    using nm_reachable_rel [OF assms(1-3)] by simp_all
  have nz: "(k, 0) \<notin> smt_entries (log_tree log)" for k
    using assms(4) lookup_entries [of "\<lambda>_. False" "log_tree log" k 0] rel map by (auto simp: smt_rel_def)
  show ?thesis
    unfolding map by (rule verify_rel [OF assms(1) rel log_tree_collision_free [OF assms(3)] nz])
qed

lemma smt_verify_non_membership_witness:
  "\<exists>s. nm_verify_non_membership sample_host 4 [smt_hash sample_host (SL 1 7)] 2 9 s = Inr True \<and>
    nm_verify_non_membership sample_host 1 [] 0 0 s = Inr False"
proof -
  from sample_smt_reachable obtain s where r: "nm_reachable sample_host sample_smt_log s" by blast
  have nz: "\<forall>k. log_map sample_smt_log k \<noteq> Some 0" by (simp add: log_map_def sample_smt_log_def)
  note ver = smt_verify_non_membership [OF sample_host_ok r sample_smt_collision_free nz]
  have "log_tree sample_smt_log = SN (SL 2 9) (SL 1 7)"
    by (simp add: log_tree_def sample_smt_log_def sample_smt_trees)
  then have pf: "non_membership_proof sample_host (log_tree sample_smt_log) 4 =
      ([smt_hash sample_host (SL 1 7)], 2, 9)"
    by (simp add: non_membership_proof_def bit_0)
  have "nm_verify_non_membership sample_host 4 [smt_hash sample_host (SL 1 7)] 2 9 s = Inr True"
    unfolding ver pf by (simp add: log_map_def sample_smt_log_def)
  moreover have "nm_verify_non_membership sample_host 1 [] 0 0 s = Inr False"
    unfolding ver by (simp add: log_map_def sample_smt_log_def)
  ultimately show ?thesis by blast
qed


text \<open>
  C15: A leaf with the value zero defeats the verification of absent keys. If the path of an absent key
  ends at another key whose value is zero, the proof that \<open>find_key\<close> itself returns is rejected with
  \<open>InvalidProof\<close>: the reconstruction takes the leaf for an empty branch.
\<close>

theorem smt_zero_value_rejected:
  assumes "host_permutation_ok P" and "nm_reachable P log s" and "collision_free P (log_trees log SE)"
    and "descend (bit key) 0 (log_tree log) = (ss, SL k 0)" and "k \<noteq> key"
    and "collision_free P (insert (plug (bit key) 0 ss SE) (smt_subtrees (log_tree log)))"
  shows "log_map log key = None \<and>
    nm_verify_non_membership P key (map (smt_hash P) ss) k 0 s = Inl (Err Smt_InvalidProof)"
proof -
  have rel: "smt_rel P (log_tree log) s" and map: "log_map log = smt_lookup (log_tree log)"
    using nm_reachable_rel [OF assms(1-3)] by simp_all
  have "smt_lookup (log_tree log) key = None" using assms(4,5) by (simp add: smt_lookup_def)
  with map verify_zero_value [OF assms(1) rel assms(4-6)] show ?thesis by simp
qed

lemma smt_zero_value_rejected_witness:
  "\<exists>s. nm_reachable sample_host [LeafInsertedEvent 1 0 (smt_hash sample_host (SL 1 0))] s \<and>
    nm_verify_non_membership sample_host 3 [] 1 0 s = Inl (Err Smt_InvalidProof)"
proof -
  have ins: "smt_insert 1 0 SE = SL 1 0" by (simp add: smt_insert_def)
  have "smt_hash sample_host (SL 1 0) = 7001000001"
  proof -
    have "(7001000001::u256) mod bn256_modulus = 7001000001"
      by (rule word_mod_less_id) (simp add: bn256_modulus_eq u256_eval)
    then show ?thesis by (simp add: hash2_val_def sample_host_def sample_mix_def)
  qed
  then have cf: "collision_free sample_host {SE, SL 1 0}"
    by (simp add: collision_free_def inj_on_def del: smt_hash.simps(2))
  obtain s0 where s0: "nm_reachable sample_host [] s0" "nm_admin s0 = Some ''admin''"
    using empty_reachable by blast
  let ?log = "[LeafInsertedEvent 1 0 (smt_hash sample_host (SL 1 0))]"
  have tree: "log_tree ?log = SL 1 0" "log_trees ?log SE = {SE, SL 1 0}"
    by (auto simp: log_tree_def ins)
  obtain s where r: "nm_reachable sample_host ?log s"
    using insert_step_reachable [OF sample_host_ok s0, of 1 0] cf sample_smt_canonical
    by (auto simp: log_map_def log_tree_def ins insert_commute)
  have "nm_verify_non_membership sample_host 3 (map (smt_hash sample_host) []) 1 0 s = Inl (Err Smt_InvalidProof)"
    using smt_zero_value_rejected [OF sample_host_ok r, of 3 "[]" 1] cf tree by simp
  with r show ?thesis by auto
qed

end
