(* ===== verification/Amounts.thy ===== *)
theory Amounts
  imports Prelude Soroban_Constants
begin

text \<open>
  The amount and field types of the client (\<open>app/crates/core/types/src/amounts.rs\<close> and the hexadecimal
  helpers of \<open>types/src/lib.rs\<close>): note amounts (\<open>u128\<close>), signed external amounts (\<open>i128\<close>), elements of
  the BN254 scalar field (\<open>U256\<close>), their checked arithmetic, their text and byte formats and their
  database columns. A panic of the operators \<open>+\<close>, \<open>-\<close> and of \<open>expect\<close> is a trap.

  The \<open>hex\<close> crate is the parameter \<open>hex_codec\<close>; what the code relies on is \<open>hex_ok\<close>. Decimal printing
  and parsing and the UTF-8 check are those of the standard library.
\<close>

section \<open>Decimal text\<close>

definition decimal_digit :: "nat \<Rightarrow> char" where
  "decimal_digit d = char_of (48 + d)"

definition digit_value :: "char \<Rightarrow> nat option" where
  "digit_value c = (let n = of_char c in if 48 \<le> n \<and> n \<le> 57 then Some (n - 48) else None)"

text \<open>\<open>to_string\<close> of an unsigned integer.\<close>

fun show_nat :: "nat \<Rightarrow> string" where
  "show_nat n = (if n < 10 then [decimal_digit n] else show_nat (n div 10) @ [decimal_digit (n mod 10)])"

declare show_nat.simps [simp del]

definition show_int :: "int \<Rightarrow> string" where
  "show_int v = (if v < 0 then CHR ''-'' # show_nat (nat (- v)) else show_nat (nat v))"

text \<open>
  The digit loop of \<open>from_str_radix\<close>: every intermediate value must stay within the bound, and the
  first character that is no digit is an error.
\<close>

fun parse_digits :: "nat \<Rightarrow> nat \<Rightarrow> string \<Rightarrow> nat option" where
  "parse_digits bound acc [] = Some acc"
| "parse_digits bound acc (c # cs) =
    (case digit_value c of None \<Rightarrow> None
     | Some d \<Rightarrow> if acc * 10 + d \<le> bound then parse_digits bound (acc * 10 + d) cs else None)"

text \<open>\<open>str::parse::<u128>\<close>: one sign character \<open>+\<close> is allowed; the empty string and a lone sign are not.\<close>

definition parse_u128 :: "string \<Rightarrow> u128 option" where
  "parse_u128 s =
    (if s = [] \<or> s = ''+'' \<or> s = ''-'' then None
     else map_option of_nat
       (parse_digits (2 ^ 128 - 1) 0 (if hd s = CHR ''+'' then tl s else s)))"

definition parse_i128 :: "string \<Rightarrow> i128 option" where
  "parse_i128 s =
    (if s = [] \<or> s = ''+'' \<or> s = ''-'' then None
     else if hd s = CHR ''-'' then
       map_option (\<lambda>n. word_of_int (- int n)) (parse_digits (2 ^ 127) 0 (tl s))
     else map_option of_nat
       (parse_digits (2 ^ 127 - 1) 0 (if hd s = CHR ''+'' then tl s else s)))"

section \<open>UTF-8\<close>

text \<open>\<open>core::str::from_utf8\<close>: the byte sequences of the Unicode standard, without overlong forms and surrogates.\<close>

definition utf8_cont :: "nat \<Rightarrow> bool" where
  "utf8_cont b \<longleftrightarrow> 128 \<le> b \<and> b \<le> 191"

fun utf8_valid :: "nat list \<Rightarrow> bool" where
  "utf8_valid [] \<longleftrightarrow> True"
| "utf8_valid (a # bs) \<longleftrightarrow>
    (if a < 128 then utf8_valid bs
     else case bs of [] \<Rightarrow> False
     | b # cs \<Rightarrow>
       if 194 \<le> a \<and> a \<le> 223 then utf8_cont b \<and> utf8_valid cs
       else (case cs of [] \<Rightarrow> False
       | c # ds \<Rightarrow>
         if 224 \<le> a \<and> a \<le> 239 then
           (if a = 224 then 160 \<le> b \<and> b \<le> 191 else if a = 237 then 128 \<le> b \<and> b \<le> 159 else utf8_cont b) \<and>
           utf8_cont c \<and> utf8_valid ds
         else (case ds of [] \<Rightarrow> False
         | d # es \<Rightarrow>
           240 \<le> a \<and> a \<le> 244 \<and>
           (if a = 240 then 144 \<le> b \<and> b \<le> 191 else if a = 244 then 128 \<le> b \<and> b \<le> 143 else utf8_cont b) \<and>
           utf8_cont c \<and> utf8_cont d \<and> utf8_valid es)))"

definition from_utf8 :: "string \<Rightarrow> string option" where
  "from_utf8 t = (if utf8_valid (map of_char t) then Some t else None)"

section \<open>Errors\<close>

text \<open>The messages of \<open>anyhow!\<close> in these modules, as constructors.\<close>

datatype types_error =
    ParseIntFailed
  | NoteAmountOutOfRange int
  | ExtAmountOutOfRange
  | ExtAmountOutOfFieldRange
  | ExtAmountAbsOutOfFieldRange
  | FieldElementOutOfRange
  | ExpectedHexChars nat
  | CannotDecodeHex string

section \<open>Note amounts\<close>

datatype note_amount = NoteAmount (note_u128: u128)

abbreviation note_value :: "note_amount \<Rightarrow> nat" where
  "note_value a \<equiv> unat (note_u128 a)"

instantiation note_amount :: linorder
begin

definition less_eq_note_amount :: "note_amount \<Rightarrow> note_amount \<Rightarrow> bool" where
  "less_eq_note_amount a b \<longleftrightarrow> note_u128 a \<le> note_u128 b"

definition less_note_amount :: "note_amount \<Rightarrow> note_amount \<Rightarrow> bool" where
  "less_note_amount a b \<longleftrightarrow> note_u128 a < note_u128 b"

instance
  by standard (auto simp: less_eq_note_amount_def less_note_amount_def note_amount.expand)

end

definition NOTE_MAX :: note_amount where
  "NOTE_MAX = NoteAmount (- 1)"

definition NOTE_ONE :: note_amount where
  "NOTE_ONE = NoteAmount 1"

definition NOTE_ZERO :: note_amount where
  "NOTE_ZERO = NoteAmount 0"

definition note_is_zero :: "note_amount \<Rightarrow> bool" where
  "note_is_zero a \<longleftrightarrow> note_u128 a = 0"

definition note_to_le_bytes :: "note_amount \<Rightarrow> bytes" where
  "note_to_le_bytes a = rev (be_bytes_of_nat 16 (unat (note_u128 a)))"

definition note_checked_add :: "note_amount \<Rightarrow> note_amount \<Rightarrow> note_amount option" where
  "note_checked_add a b = map_option NoteAmount (checked_add (note_u128 a) (note_u128 b))"

definition note_checked_sub :: "note_amount \<Rightarrow> note_amount \<Rightarrow> note_amount option" where
  "note_checked_sub a b = map_option NoteAmount (checked_sub (note_u128 a) (note_u128 b))"

definition note_add :: "note_amount \<Rightarrow> note_amount \<Rightarrow> (types_error, note_amount) outcome" where
  "note_add a b = or_trap (note_checked_add a b)"

definition note_sub :: "note_amount \<Rightarrow> note_amount \<Rightarrow> (types_error, note_amount) outcome" where
  "note_sub a b = or_trap (note_checked_sub a b)"

definition note_display :: "note_amount \<Rightarrow> string" where
  "note_display a = show_nat (unat (note_u128 a))"

definition note_from_str :: "string \<Rightarrow> types_error + note_amount" where
  "note_from_str s = let_ok (ok_or (parse_u128 s) ParseIntFailed) (\<lambda>v. Inr (NoteAmount v))"

section \<open>External amounts\<close>

datatype ext_amount = ExtAmount (ext_i128: i128)

abbreviation ext_value :: "ext_amount \<Rightarrow> int" where
  "ext_value a \<equiv> sint (ext_i128 a)"

lemma ext_value_inject: "ext_value x = ext_value y \<longleftrightarrow> x = y"
  by (cases x; cases y) (auto intro: signed_word_eqI)

instantiation ext_amount :: linorder
begin

definition less_eq_ext_amount :: "ext_amount \<Rightarrow> ext_amount \<Rightarrow> bool" where
  "less_eq_ext_amount a b \<longleftrightarrow> ext_value a \<le> ext_value b"

definition less_ext_amount :: "ext_amount \<Rightarrow> ext_amount \<Rightarrow> bool" where
  "less_ext_amount a b \<longleftrightarrow> ext_value a < ext_value b"

instance
  by standard (auto simp: less_eq_ext_amount_def less_ext_amount_def ext_value_inject)

end

definition EXT_MAX :: ext_amount where
  "EXT_MAX = ExtAmount (2 ^ 127 - 1)"

definition EXT_ONE :: ext_amount where
  "EXT_ONE = ExtAmount 1"

definition EXT_ZERO :: ext_amount where
  "EXT_ZERO = ExtAmount 0"

definition ext_is_zero :: "ext_amount \<Rightarrow> bool" where
  "ext_is_zero a \<longleftrightarrow> ext_i128 a = 0"

definition ext_checked_add :: "ext_amount \<Rightarrow> ext_amount \<Rightarrow> ext_amount option" where
  "ext_checked_add a b = map_option ExtAmount (signed_checked_add (ext_i128 a) (ext_i128 b))"

definition ext_checked_sub :: "ext_amount \<Rightarrow> ext_amount \<Rightarrow> ext_amount option" where
  "ext_checked_sub a b = map_option ExtAmount (signed_checked_sub (ext_i128 a) (ext_i128 b))"

definition ext_checked_neg :: "ext_amount \<Rightarrow> ext_amount option" where
  "ext_checked_neg a = map_option ExtAmount (signed_checked_neg (ext_i128 a))"

definition ext_add :: "ext_amount \<Rightarrow> ext_amount \<Rightarrow> (types_error, ext_amount) outcome" where
  "ext_add a b = or_trap (ext_checked_add a b)"

definition ext_sub :: "ext_amount \<Rightarrow> ext_amount \<Rightarrow> (types_error, ext_amount) outcome" where
  "ext_sub a b = or_trap (ext_checked_sub a b)"

definition ext_neg :: "ext_amount \<Rightarrow> (types_error, ext_amount) outcome" where
  "ext_neg a = or_trap (ext_checked_neg a)"

definition ext_display :: "ext_amount \<Rightarrow> string" where
  "ext_display a = show_int (ext_value a)"

definition ext_from_str :: "string \<Rightarrow> types_error + ext_amount" where
  "ext_from_str s = let_ok (ok_or (parse_i128 s) ParseIntFailed) (\<lambda>v. Inr (ExtAmount v))"

text \<open>\<open>u128::try_from\<close> and \<open>i128::try_from\<close> between the two integer types.\<close>

definition u128_try_from_i128 :: "i128 \<Rightarrow> u128 option" where
  "u128_try_from_i128 v = (if sint v \<ge> 0 then Some v else None)"

definition i128_try_from_u128 :: "u128 \<Rightarrow> i128 option" where
  "i128_try_from_u128 v = (if unat v < 2 ^ 127 then Some v else None)"

definition note_try_from_ext :: "ext_amount \<Rightarrow> types_error + note_amount" where
  "note_try_from_ext e =
    let_ok (ok_or (u128_try_from_i128 (ext_i128 e)) (NoteAmountOutOfRange (ext_value e))) (\<lambda>v.
    Inr (NoteAmount v))"

definition ext_try_from_note :: "note_amount \<Rightarrow> types_error + ext_amount" where
  "ext_try_from_note a =
    let_ok (ok_or (i128_try_from_u128 (note_u128 a)) ExtAmountOutOfRange) (\<lambda>v. Inr (ExtAmount v))"

section \<open>Hexadecimal text\<close>

text \<open>
  The \<open>hex\<close> crate: \<open>hex::encode\<close> and \<open>hex::decode\<close>. The code relies on the decoder to invert the
  encoder and on two characters per byte in both directions.
\<close>

record hex_codec =
  hex_encode :: "bytes \<Rightarrow> string"
  hex_decode :: "string \<Rightarrow> bytes option"

definition hex_ok :: "hex_codec \<Rightarrow> bool" where
  "hex_ok H \<longleftrightarrow>
    (\<forall>bs. hex_decode H (hex_encode H bs) = Some bs \<and> length (hex_encode H bs) = 2 * length bs) \<and>
    (\<forall>s bs. hex_decode H s = Some bs \<longrightarrow> length s = 2 * length bs)"

definition strip_0x :: "string \<Rightarrow> string" where
  "strip_0x s = (if take 2 s = ''0x'' then drop 2 s else s)"

definition encode_0x_hex :: "hex_codec \<Rightarrow> bytes \<Rightarrow> string" where
  "encode_0x_hex H bs = ''0x'' @ hex_encode H bs"

definition parse_0x_hex_32 :: "hex_codec \<Rightarrow> string \<Rightarrow> types_error + bytes" where
  "parse_0x_hex_32 H s0 =
    (let s = strip_0x s0 in
     if length s \<noteq> 64 then Inl (ExpectedHexChars (length s))
     else ok_or (hex_decode H s) (CannotDecodeHex s))"

section \<open>Field elements\<close>

datatype field = Field (field_u256: u256)

instantiation field :: linorder
begin

definition less_eq_field :: "field \<Rightarrow> field \<Rightarrow> bool" where
  "less_eq_field a b \<longleftrightarrow> field_u256 a \<le> field_u256 b"

definition less_field :: "field \<Rightarrow> field \<Rightarrow> bool" where
  "less_field a b \<longleftrightarrow> field_u256 a < field_u256 b"

instance
  by standard (auto simp: less_eq_field_def less_field_def field.expand)

end

definition BN254_MODULUS_BE :: bytes where
  "BN254_MODULUS_BE =
    [48, 100, 78, 114, 225, 49, 160, 41, 184, 80, 69, 182, 129, 129, 88, 93, 40, 51, 232, 72, 121,
     185, 112, 145, 67, 225, 245, 147, 240, 0, 0, 1]"

definition bn254_modulus_u256 :: u256 where
  "bn254_modulus_u256 = u256_from_be_bytes BN254_MODULUS_BE"

text \<open>\<open>U256([l0, l1, l2, l3])\<close>: four 64-bit limbs, least significant first.\<close>

fun u256_of_limbs :: "nat list \<Rightarrow> u256" where
  "u256_of_limbs [] = 0"
| "u256_of_limbs (l # ls) = of_nat l + 2 ^ 64 * u256_of_limbs ls"

definition BN254_PRIME :: u256 where
  "BN254_PRIME =
    u256_of_limbs [0x43e1f593f0000001, 0x2833e84879b97091, 0xb85045b68181585d, 0x30644e72e131a029]"

definition FIELD_ONE :: field where
  "FIELD_ONE = Field (u256_of_limbs [1, 0, 0, 0])"

definition FIELD_ZERO :: field where
  "FIELD_ZERO = Field (u256_of_limbs [0, 0, 0, 0])"

definition field_modulus :: u256 where
  "field_modulus = bn254_modulus_u256"

definition field_is_zero :: "field \<Rightarrow> bool" where
  "field_is_zero f \<longleftrightarrow> f = FIELD_ZERO"

definition field_to_be_bytes :: "field \<Rightarrow> bytes" where
  "field_to_be_bytes f = u256_to_be_bytes (field_u256 f)"

definition field_to_le_bytes :: "field \<Rightarrow> bytes" where
  "field_to_le_bytes f = u256_to_le_bytes (field_u256 f)"

definition field_try_from_u256 :: "u256 \<Rightarrow> types_error + field" where
  "field_try_from_u256 v =
    (let m = field_modulus in if v \<ge> m then Inl FieldElementOutOfRange else Inr (Field v))"

definition field_try_from_be_bytes :: "bytes \<Rightarrow> types_error + field" where
  "field_try_from_be_bytes bs = field_try_from_u256 (u256_from_be_bytes bs)"

definition field_try_from_le_bytes :: "bytes \<Rightarrow> types_error + field" where
  "field_try_from_le_bytes bs = field_try_from_u256 (u256_from_le_bytes bs)"

text \<open>\<open>checked_rem\<close> is \<open>None\<close> for a zero divisor, on which the code panics.\<close>

definition field_from_le_bytes_mod_order :: "bytes \<Rightarrow> (types_error, field) outcome" where
  "field_from_le_bytes_mod_order bs =
    (let v = u256_from_le_bytes bs in
     if BN254_PRIME = 0 then Inl Trap else Inr (Field (v mod BN254_PRIME)))"

definition field_from_0x_hex_le_bytes :: "hex_codec \<Rightarrow> string \<Rightarrow> types_error + field" where
  "field_from_0x_hex_le_bytes H s = let_ok (parse_0x_hex_32 H s) field_try_from_le_bytes"

definition field_from_0x_hex_be :: "hex_codec \<Rightarrow> string \<Rightarrow> types_error + field" where
  "field_from_0x_hex_be H s = let_ok (parse_0x_hex_32 H s) field_try_from_be_bytes"

definition field_to_0x_hex_be :: "hex_codec \<Rightarrow> field \<Rightarrow> string" where
  "field_to_0x_hex_be H f = encode_0x_hex H (field_to_be_bytes f)"

definition field_from_note :: "note_amount \<Rightarrow> field" where
  "field_from_note a = Field (ucast (note_u128 a))"

text \<open>\<open>i128::unsigned_abs\<close>.\<close>

definition i128_unsigned_abs :: "i128 \<Rightarrow> u128" where
  "i128_unsigned_abs v = word_of_int \<bar>sint v\<bar>"

definition field_try_from_ext :: "ext_amount \<Rightarrow> (types_error, field) outcome" where
  "field_try_from_ext e =
    (let m = field_modulus in
     if ext_value e \<ge> 0 then
       let_ok (ok_or (u128_try_from_i128 (ext_i128 e)) (Err ExtAmountOutOfRange)) (\<lambda>u.
       let v = ucast u in
       if v \<ge> m then Inl (Err ExtAmountOutOfFieldRange) else Inr (Field v))
     else
       (let abs_u256 = ucast (i128_unsigned_abs (ext_i128 e)) in
        if abs_u256 \<ge> m then Inl (Err ExtAmountAbsOutOfFieldRange)
        else let_ok (or_trap (checked_sub m abs_u256)) (\<lambda>v. Inr (Field v))))"

definition field_add :: "field \<Rightarrow> field \<Rightarrow> (types_error, field) outcome" where
  "field_add a b =
    (let m = field_modulus in
     let_ok (or_trap (checked_add (field_u256 a) (field_u256 b))) (\<lambda>v.
     if v \<ge> m then let_ok (or_trap (checked_sub v m)) (\<lambda>v'. Inr (Field v')) else Inr (Field v)))"

definition field_sub :: "field \<Rightarrow> field \<Rightarrow> (types_error, field) outcome" where
  "field_sub a b =
    (let m = field_modulus in
     if field_u256 a \<ge> field_u256 b then
       let_ok (or_trap (checked_sub (field_u256 a) (field_u256 b))) (\<lambda>v. Inr (Field v))
     else
       let_ok (or_trap (checked_sub (field_u256 b) (field_u256 a))) (\<lambda>diff.
       let_ok (or_trap (checked_sub m diff)) (\<lambda>v. Inr (Field v))))"

section \<open>Database columns\<close>

text \<open>The values of \<open>rusqlite\<close> and the errors of its conversions.\<close>

datatype sql_value = SqlNull | SqlInteger "64 word" | SqlReal | SqlText string | SqlBlob bytes

datatype sql_error = InvalidType | OutOfRange int | InvalidBlobSize nat nat | ToSqlConversionFailure sql_error

definition note_to_sql :: "note_amount \<Rightarrow> sql_error + sql_value" where
  "note_to_sql a = Inr (SqlText (note_display a))"

definition note_column_result :: "sql_value \<Rightarrow> sql_error + note_amount" where
  "note_column_result v =
    (case v of
       SqlText t \<Rightarrow>
         let_ok (ok_or (from_utf8 t) InvalidType) (\<lambda>s.
         let_ok (ok_or (parse_u128 s) InvalidType) (\<lambda>v. Inr (NoteAmount v)))
     | _ \<Rightarrow> Inl InvalidType)"

definition ext_to_sql :: "ext_amount \<Rightarrow> sql_error + sql_value" where
  "ext_to_sql e =
    let_ok (ok_or (signed_of_int (ext_value e)) (ToSqlConversionFailure (OutOfRange 0))) (\<lambda>v.
    Inr (SqlInteger v))"

definition ext_column_result :: "sql_value \<Rightarrow> sql_error + ext_amount" where
  "ext_column_result v =
    (case v of SqlInteger i \<Rightarrow> Inr (ExtAmount (scast i)) | _ \<Rightarrow> Inl InvalidType)"

definition field_to_sql :: "field \<Rightarrow> sql_error + sql_value" where
  "field_to_sql f = Inr (SqlBlob (field_to_le_bytes f))"

definition field_column_result :: "hex_codec \<Rightarrow> sql_value \<Rightarrow> sql_error + field" where
  "field_column_result H v =
    (case v of
       SqlBlob b \<Rightarrow>
         if length b \<noteq> 32 then Inl (InvalidBlobSize 32 (length b))
         else map_err (\<lambda>_. OutOfRange 0) (field_try_from_le_bytes b)
     | SqlText t \<Rightarrow>
         let_ok (ok_or (from_utf8 t) InvalidType) (\<lambda>s.
         map_err (\<lambda>_. InvalidType) (field_from_0x_hex_le_bytes H s))
     | _ \<Rightarrow> Inl InvalidType)"

section \<open>Keys\<close>

text \<open>The four kinds of keys of \<open>types/src/lib.rs\<close>, each 32 bytes.\<close>

datatype encryption_private_key = EncryptionPrivateKey bytes
datatype encryption_public_key = EncryptionPublicKey bytes
datatype note_private_key = NotePrivateKey bytes
datatype note_public_key = NotePublicKey bytes

definition encryption_public_key_parse :: "hex_codec \<Rightarrow> string \<Rightarrow> types_error + encryption_public_key" where
  "encryption_public_key_parse H s = let_ok (parse_0x_hex_32 H s) (\<lambda>b. Inr (EncryptionPublicKey b))"

definition encryption_private_key_parse :: "hex_codec \<Rightarrow> string \<Rightarrow> types_error + encryption_private_key" where
  "encryption_private_key_parse H s = let_ok (parse_0x_hex_32 H s) (\<lambda>b. Inr (EncryptionPrivateKey b))"

definition note_public_key_parse :: "hex_codec \<Rightarrow> string \<Rightarrow> types_error + note_public_key" where
  "note_public_key_parse H s = let_ok (parse_0x_hex_32 H s) (\<lambda>b. Inr (NotePublicKey b))"

definition note_private_key_parse :: "hex_codec \<Rightarrow> string \<Rightarrow> types_error + note_private_key" where
  "note_private_key_parse H s = let_ok (parse_0x_hex_32 H s) (\<lambda>b. Inr (NotePrivateKey b))"

section \<open>Lemmas on decimal text\<close>

lemma digit_value_decimal [simp]: "d < 10 \<Longrightarrow> digit_value (decimal_digit d) = Some d"
  by (simp add: digit_value_def decimal_digit_def)

lemma decimal_digit_less: "d < 10 \<Longrightarrow> (of_char (decimal_digit d) :: nat) < 128"
  by (simp add: decimal_digit_def)

lemma digit_value_sign: "digit_value CHR ''+'' = None" "digit_value CHR ''-'' = None"
  by (simp_all add: digit_value_def)

lemma parse_digits_append:
  "parse_digits b acc (xs @ ys) =
    (case parse_digits b acc xs of None \<Rightarrow> None | Some a \<Rightarrow> parse_digits b a ys)"
  by (induction b acc xs rule: parse_digits.induct) (auto split: option.splits)

lemma parse_digits_show_nat: "n \<le> b \<Longrightarrow> parse_digits b 0 (show_nat n) = Some n"
proof (induction n rule: show_nat.induct)
  case (1 n)
  show ?case
  proof (cases "n < 10")
    case True
    with 1 show ?thesis by (simp add: show_nat.simps)
  next
    case False
    moreover have "n div 10 \<le> b" using "1.prems" by linarith
    ultimately have "parse_digits b 0 (show_nat (n div 10)) = Some (n div 10)" using "1.IH" by blast
    with False "1.prems" show ?thesis by (simp add: show_nat.simps [of n] parse_digits_append)
  qed
qed

lemma show_nat_digits: "c \<in> set (show_nat n) \<Longrightarrow> \<exists>d < 10. c = decimal_digit d"
proof (induction n rule: show_nat.induct)
  case (1 n)
  have "\<exists>d<10. decimal_digit (n mod 10) = decimal_digit d" by (intro exI [of _ "n mod 10"]) simp
  with 1 show ?case by (cases "n < 10") (auto simp: show_nat.simps [of n])
qed

lemma show_nat_nonempty [simp]: "show_nat n \<noteq> []"
  by (subst show_nat.simps) simp

lemma show_nat_no_sign:
  "CHR ''+'' \<notin> set (show_nat n)" "CHR ''-'' \<notin> set (show_nat n)"
  using show_nat_digits [of _ n] digit_value_sign by fastforce+

lemma show_nat_not_sign [simp]:
  "hd (show_nat n) \<noteq> CHR ''+''" "hd (show_nat n) \<noteq> CHR ''-''"
  "show_nat n \<noteq> ''+''" "show_nat n \<noteq> ''-''"
  using show_nat_no_sign [of n] hd_in_set [OF show_nat_nonempty, of n] by (metis list.set_intros(1))+

lemma parse_u128_show: "parse_u128 (show_nat (unat v)) = Some v"
proof -
  have "unat v < 2 ^ 128" using unsigned_less [of v] by simp
  then have "unat v \<le> 2 ^ 128 - 1" by linarith
  then show ?thesis by (simp add: parse_u128_def parse_digits_show_nat del: One_nat_def)
qed

lemma parse_i128_show: "parse_i128 (show_int (sint v)) = Some v"
proof (cases "sint v < 0")
  case True
  have "- (2 ^ 127) \<le> sint v" using sint_greater_eq [of v] by simp
  then have "nat (- sint v) \<le> 2 ^ 127" by (simp add: nat_le_iff)
  with True show ?thesis
    by (simp add: parse_i128_def show_int_def parse_digits_show_nat del: One_nat_def)
next
  case False
  have "sint v < 2 ^ 127" using sint_less [of v] by simp
  with False have "nat (sint v) \<le> 2 ^ 127 - 1" by (simp add: nat_le_iff)
  with False show ?thesis
    by (simp add: parse_i128_def show_int_def parse_digits_show_nat del: One_nat_def)
qed

lemma utf8_valid_ascii: "list_all (\<lambda>a. a < 128) xs \<Longrightarrow> utf8_valid xs"
  by (induction xs) auto

lemma from_utf8_show_nat [simp]: "from_utf8 (show_nat n) = Some (show_nat n)"
  using show_nat_digits [of _ n] decimal_digit_less
  by (auto simp: from_utf8_def list_all_iff intro!: utf8_valid_ascii) fastforce

section \<open>Lemmas on note amounts\<close>

lemma note_checked_add_iff [checked_simps]:
  "note_checked_add a b = Some c \<longleftrightarrow> note_value c = note_value a + note_value b"
  by (cases c) (auto simp: note_checked_add_def checked_add_Some_iff)

lemma note_checked_add_None [checked_simps]:
  "note_checked_add a b = None \<longleftrightarrow> 2 ^ 128 \<le> note_value a + note_value b"
  by (simp add: note_checked_add_def checked_add_None_iff)

lemma note_checked_sub_iff [checked_simps]:
  "note_checked_sub a b = Some c \<longleftrightarrow> note_value a = note_value b + note_value c"
  by (cases c) (auto simp: note_checked_sub_def checked_sub_Some_iff)

lemma note_checked_sub_None [checked_simps]:
  "note_checked_sub a b = None \<longleftrightarrow> note_value a < note_value b"
  by (simp add: note_checked_sub_def checked_sub_None_iff)

lemma note_less_iff: "a < b \<longleftrightarrow> note_value a < note_value b"
  by (simp add: less_note_amount_def word_less_nat_alt)

lemma note_le_iff: "a \<le> b \<longleftrightarrow> note_value a \<le> note_value b"
  by (simp add: less_eq_note_amount_def word_le_nat_alt)

lemma note_eq_iff: "a = b \<longleftrightarrow> note_value a = note_value b"
  by (cases a; cases b) (simp add: word_unat_eq_iff)

lemma note_zero_value [simp]: "note_value NOTE_ZERO = 0"
  by (simp add: NOTE_ZERO_def)

lemma note_is_zero_iff: "note_is_zero a \<longleftrightarrow> note_value a = 0"
  by (simp add: note_is_zero_def unat_eq_0)

lemma note_value_less: "note_value a < 2 ^ 128"
  using unsigned_less [of "note_u128 a"] by simp

section \<open>Lemmas on field elements\<close>

lemma field_modulus_eq: "field_modulus = bn256_modulus"
  by (simp add: field_modulus_def bn254_modulus_u256_def BN254_MODULUS_BE_def bn256_modulus_def
      BN256_MOD_BYTES_def)

lemma BN254_PRIME_eq: "BN254_PRIME = bn256_modulus"
  by (simp add: BN254_PRIME_def bn256_modulus_eq)

definition field_canonical :: "field \<Rightarrow> bool" where
  "field_canonical f \<longleftrightarrow> field_u256 f < bn256_modulus"

lemma uint_bn256: "uint bn256_modulus = 0x30644e72e131a029b85045b68181585d2833e84879b9709143e1f593f0000001"
  using unat_bn256_modulus by (metis of_nat_numeral uint_nat)

lemma field_try_from_u256_canonical: "v < bn256_modulus \<Longrightarrow> field_try_from_u256 v = Inr (Field v)"
  by (simp add: field_try_from_u256_def field_modulus_eq not_le)

lemma field_try_from_u256_iff: "field_try_from_u256 v = Inr f \<longleftrightarrow> field_u256 f = v \<and> field_canonical f"
  by (cases f) (auto simp: field_try_from_u256_def field_modulus_eq field_canonical_def Let_def)

lemma field_add_canonical:
  assumes "field_canonical a" and "field_canonical b"
  shows "field_add a b =
    Inr (Field (word_of_int ((uint (field_u256 a) + uint (field_u256 b)) mod uint bn256_modulus)))"
proof -
  let ?x = "field_u256 a" and ?y = "field_u256 b" and ?m = "bn256_modulus"
  have lt: "uint ?x < uint ?m" "uint ?y < uint ?m"
    using assms by (simp_all add: field_canonical_def word_less_def)
  have "unat ?x < unat ?m" "unat ?y < unat ?m"
    using assms by (simp_all add: field_canonical_def word_less_nat_alt)
  then have u: "unat (?x + ?y) = unat ?x + unat ?y"
    using bn256_modulus_bounds(2) by (intro unat_add_exact) simp
  then have ui: "uint (?x + ?y) = uint ?x + uint ?y" by (metis of_nat_add uint_nat)
  have add: "checked_add ?x ?y = Some (?x + ?y)" using u by (simp only: checked_add_Some_iff)
  show ?thesis
  proof (cases "?m \<le> ?x + ?y")
    case True
    then have "uint ?m \<le> uint ?x + uint ?y" by (simp only: ui word_le_def)
    then have "(uint ?x + uint ?y - uint ?m) mod uint ?m = uint ?x + uint ?y - uint ?m"
      using lt by (intro mod_pos_pos_trivial) linarith+
    then have "(uint ?x + uint ?y) mod uint ?m = uint ?x + uint ?y - uint ?m"
      by (simp only: minus_mod_self2)
    with True add show ?thesis by (simp add: field_add_def field_modulus_eq checked_sub_def)
  next
    case False
    then have "uint ?x + uint ?y < uint ?m" by (simp only: ui word_le_def not_le)
    then have "(uint ?x + uint ?y) mod uint ?m = uint ?x + uint ?y"
      by (intro mod_pos_pos_trivial) simp_all
    with False add show ?thesis by (simp add: field_add_def field_modulus_eq)
  qed
qed

lemma field_sub_canonical:
  assumes "field_canonical a" and "field_canonical b"
  shows "field_sub a b =
    Inr (Field (word_of_int ((uint (field_u256 a) - uint (field_u256 b)) mod uint bn256_modulus)))"
proof -
  let ?x = "field_u256 a" and ?y = "field_u256 b" and ?m = "bn256_modulus"
  have lt: "uint ?x < uint ?m" "uint ?y < uint ?m"
    using assms by (simp_all add: field_canonical_def word_less_def)
  note pos = uint_ge_0 [of ?x] uint_ge_0 [of ?y]
  show ?thesis
  proof (cases "?y \<le> ?x")
    case True
    then have "uint ?y \<le> uint ?x" by (simp only: word_le_def)
    then have "(uint ?x - uint ?y) mod uint ?m = uint ?x - uint ?y"
      using lt pos by (intro mod_pos_pos_trivial) linarith+
    with True show ?thesis by (simp add: field_sub_def field_modulus_eq checked_sub_def)
  next
    case False
    then have yx: "uint ?x < uint ?y" by (simp add: word_le_def)
    then have "?x \<le> ?y" by (simp add: word_le_def)
    then have d: "uint (?y - ?x) = uint ?y - uint ?x" using uint_minus_simple_alt by blast
    have le: "?y - ?x \<le> ?m" unfolding word_le_def d using lt pos by linarith
    have "(uint ?x - uint ?y + uint ?m) mod uint ?m = uint ?x - uint ?y + uint ?m"
      using lt yx pos by (intro mod_pos_pos_trivial) linarith+
    then have "(uint ?x - uint ?y) mod uint ?m = uint ?x - uint ?y + uint ?m"
      by (simp only: mod_add_self2)
    moreover have "?m - (?y - ?x) = word_of_int (uint ?x - uint ?y + uint ?m)" by simp
    ultimately show ?thesis using False le \<open>?x \<le> ?y\<close>
      by (simp add: field_sub_def field_modulus_eq checked_sub_def)
  qed
qed

lemma uint_ucast_u128: "uint (ucast (v :: u128) :: u256) = uint v"
  by (rule uint_up_ucast) (simp add: is_up)

lemma uint_u128_less: "uint (v :: u128) < uint bn256_modulus"
proof -
  have "uint v < 2 ^ 128" using uint_lt2p [of v] by simp
  then show ?thesis by (simp add: uint_bn256)
qed

lemma ucast_u128_less: "(ucast (v :: u128) :: u256) < bn256_modulus"
  by (simp only: word_less_def uint_ucast_u128 uint_u128_less)

lemma uint_i128_unsigned_abs: "uint (i128_unsigned_abs v) = \<bar>sint v\<bar>"
proof -
  have "\<bar>sint v\<bar> \<le> 2 ^ 127" using sint_greater_eq [of v] sint_less [of v] by simp
  then show ?thesis by (simp add: i128_unsigned_abs_def uint_word_of_int)
qed

lemma field_try_from_ext_eq:
  "field_try_from_ext e = Inr (Field (word_of_int (ext_value e mod uint bn256_modulus)))"
proof (cases "ext_value e \<ge> 0")
  case True
  let ?v = "ucast (ext_i128 e) :: u256"
  have u: "uint (ext_i128 e) = ext_value e" using True by (rule uint_nonneg_sint)
  then have "ext_value e mod uint bn256_modulus = uint ?v"
    using uint_u128_less [of "ext_i128 e"] True by (simp add: uint_ucast_u128)
  then have "word_of_int (ext_value e mod uint bn256_modulus) = ?v" by simp
  with True ucast_u128_less [of "ext_i128 e"] show ?thesis
    by (simp add: field_try_from_ext_def u128_try_from_i128_def field_modulus_eq not_le Let_def)
next
  case False
  let ?a = "ucast (i128_unsigned_abs (ext_i128 e)) :: u256" and ?m = bn256_modulus
  have a: "uint ?a = - ext_value e" using False by (simp add: uint_ucast_u128 uint_i128_unsigned_abs)
  have lt: "?a < ?m" by (rule ucast_u128_less)
  then have "uint ?a < uint ?m" by (simp only: word_less_def)
  then have "(ext_value e + uint ?m) mod uint ?m = ext_value e + uint ?m"
    using a False by (intro mod_pos_pos_trivial) linarith+
  then have "ext_value e mod uint ?m = uint ?m - uint ?a" using a by simp
  then have "word_of_int (ext_value e mod uint ?m) = ?m - ?a" by simp
  with False lt show ?thesis
    by (simp add: field_try_from_ext_def field_modulus_eq checked_sub_def not_le Let_def)
qed

lemma uint_field_rep: "uint (word_of_int (v mod uint bn256_modulus) :: u256) = v mod uint bn256_modulus"
  and uint_field_rep_less: "v mod uint bn256_modulus < uint bn256_modulus"
proof -
  let ?p = "uint bn256_modulus"
  have b: "0 \<le> v mod ?p" and lt: "v mod ?p < ?p" by (simp_all add: uint_bn256)
  moreover have "?p < 2 ^ LENGTH(256)" by (rule uint_lt2p)
  ultimately have "v mod ?p < 2 ^ LENGTH(256)" by linarith
  with b show "uint (word_of_int (v mod ?p) :: u256) = v mod ?p"
    by (simp only: uint_word_of_int mod_pos_pos_trivial)
  show "v mod ?p < ?p" by (rule lt)
qed

lemma ext_value_bounds: "- (2 ^ 127) \<le> ext_value e" "ext_value e < 2 ^ 127"
  using sint_greater_eq [of "ext_i128 e"] sint_less [of "ext_i128 e"] by simp_all

lemma length_field_bytes [simp]: "length (field_to_be_bytes f) = 32" "length (field_to_le_bytes f) = 32"
  by (simp_all add: field_to_be_bytes_def field_to_le_bytes_def)

lemma i128_try_from_u128_iff: "i128_try_from_u128 v = Some w \<longleftrightarrow> sint w = int (unat v)"
proof (cases "unat v < 2 ^ 127")
  case True
  then have "int (unat v) < int (2 ^ 127)" by (simp only: of_nat_less_iff)
  then have "uint v < 2 ^ 127" by simp
  moreover have "- (2 ^ 127) \<le> uint v" by (rule order_trans [OF _ uint_ge_0]) simp
  ultimately have "signed_take_bit 127 (uint v) = uint v" by (rule signed_take_bit_int_eq_self [rotated])
  then have "sint v = uint v" by (simp add: sint_uint)
  then have "sint w = int (unat v) \<longleftrightarrow> v = w" using signed_word_eqI [where 'a = int, of v w] by auto
  with True show ?thesis by (simp add: i128_try_from_u128_def)
next
  case False
  have "sint w < 2 ^ 127" using sint_less [of w] by simp
  moreover have "int (2 ^ 127) \<le> int (unat v)" using False by (simp only: of_nat_le_iff not_less)
  ultimately show ?thesis using False by (auto simp: i128_try_from_u128_def)
qed

lemma u128_try_from_i128_iff: "u128_try_from_i128 v = Some w \<longleftrightarrow> sint v = int (unat w)"
  using uint_nonneg_sint [of v] by (auto simp: u128_try_from_i128_def word_uint_eq_iff)

lemma hex_ok_D:
  assumes "hex_ok H"
  shows "hex_decode H (hex_encode H bs) = Some bs" "length (hex_encode H bs) = 2 * length bs"
  using assms by (auto simp: hex_ok_def)

lemma parse_encode_0x_hex:
  "hex_ok H \<Longrightarrow> length bs = 32 \<Longrightarrow> parse_0x_hex_32 H (encode_0x_hex H bs) = Inr bs"
  by (simp add: parse_0x_hex_32_def encode_0x_hex_def strip_0x_def hex_ok_D)

lemma parse_0x_hex_32_length:
  "hex_ok H \<Longrightarrow> parse_0x_hex_32 H s = Inr bs \<Longrightarrow> length bs = 32"
  by (auto simp: parse_0x_hex_32_def Let_def hex_ok_def outcome_simps split: if_splits)

lemma field_be_bytes_roundtrip:
  "field_canonical f \<Longrightarrow> field_try_from_be_bytes (field_to_be_bytes f) = Inr f"
  by (cases f) (simp add: field_try_from_be_bytes_def field_to_be_bytes_def field_canonical_def
      field_try_from_u256_canonical)

lemma field_le_bytes_roundtrip:
  "field_canonical f \<Longrightarrow> field_try_from_le_bytes (field_to_le_bytes f) = Inr f"
  by (cases f) (simp add: field_try_from_le_bytes_def field_to_le_bytes_def field_canonical_def
      field_try_from_u256_canonical)

section \<open>Sample codec\<close>

text \<open>A hexadecimal codec, the concrete function for the parameter.\<close>

definition hex_digit :: "nat \<Rightarrow> char" where
  "hex_digit d = char_of (if d < 10 then 48 + d else 87 + d)"

definition hex_value :: "char \<Rightarrow> nat option" where
  "hex_value c =
    (let n = of_char c in
     if 48 \<le> n \<and> n \<le> 57 then Some (n - 48)
     else if 97 \<le> n \<and> n \<le> 102 then Some (n - 87)
     else if 65 \<le> n \<and> n \<le> 70 then Some (n - 55) else None)"

fun sample_decode :: "string \<Rightarrow> bytes option" where
  "sample_decode [] = Some []"
| "sample_decode [c] = None"
| "sample_decode (c # d # cs) =
    (case (hex_value c, hex_value d, sample_decode cs) of
       (Some h, Some l, Some bs) \<Rightarrow> Some (of_nat (16 * h + l) # bs)
     | _ \<Rightarrow> None)"

definition sample_hex :: hex_codec where
  "sample_hex =
    \<lparr>hex_encode = \<lambda>bs. concat (map (\<lambda>b. [hex_digit (unat b div 16), hex_digit (unat b mod 16)]) bs),
     hex_decode = sample_decode\<rparr>"

lemma hex_value_digit: "d < 16 \<Longrightarrow> hex_value (hex_digit d) = Some d"
  by (auto simp: hex_value_def hex_digit_def Let_def)

lemma sample_decode_length: "sample_decode s = Some bs \<Longrightarrow> length s = 2 * length bs"
  by (induction s arbitrary: bs rule: sample_decode.induct) (auto split: option.splits)

lemma sample_hex_ok: "hex_ok sample_hex"
proof -
  have "sample_decode (hex_encode sample_hex bs) = Some bs \<and>
      length (hex_encode sample_hex bs) = 2 * length bs" for bs
  proof (induction bs)
    case (Cons b bs)
    have "unat b div 16 < 16" using byte_less [of b] by linarith
    with Cons show ?case by (simp add: sample_hex_def hex_value_digit)
  qed (simp add: sample_hex_def)
  then show ?thesis using sample_decode_length by (auto simp: hex_ok_def sample_hex_def)
qed

section \<open>Properties\<close>

text \<open>
  Field arithmetic of the client. On canonical elements addition and subtraction never panic and
  return the canonical representative of the sum and of the difference modulo the BN254 prime, and the
  constant \<open>BN254_PRIME\<close>, the byte constant and the modulus of the contracts are the same number.
\<close>

theorem field_arithmetic_modular:
  assumes "field_canonical a" and "field_canonical b"
  shows "\<exists>s d. field_add a b = Inr s \<and> field_sub a b = Inr d \<and> field_canonical s \<and> field_canonical d \<and>
    uint (field_u256 s) = (uint (field_u256 a) + uint (field_u256 b)) mod uint BN254_PRIME \<and>
    uint (field_u256 d) = (uint (field_u256 a) - uint (field_u256 b)) mod uint BN254_PRIME \<and>
    field_modulus = BN254_PRIME \<and> bn256_modulus = BN254_PRIME"
  unfolding field_add_canonical [OF assms] field_sub_canonical [OF assms]
  by (simp add: field_canonical_def word_less_def BN254_PRIME_eq field_modulus_eq uint_field_rep
      uint_field_rep_less)

lemma field_arithmetic_modular_witness:
  "\<exists>s d. field_add (Field 3) (Field 5) = Inr s \<and> field_sub (Field 3) (Field 5) = Inr d \<and>
    uint (field_u256 s) = 8 mod uint BN254_PRIME \<and> uint (field_u256 d) = - 2 mod uint BN254_PRIME"
proof -
  have "field_canonical (Field 3)" "field_canonical (Field 5)"
    by (simp_all add: field_canonical_def bn256_modulus_eq u256_eval)
  from field_arithmetic_modular [OF this] show ?thesis by auto
qed

text \<open>
  The client maps every external amount into the field without error, to the canonical
  representative of the signed amount, and no two external amounts to the same element.
\<close>

theorem field_of_ext_amount:
  "\<exists>f. field_try_from_ext e = Inr f \<and> field_canonical f \<and>
    uint (field_u256 f) = ext_value e mod uint BN254_PRIME \<and>
    (field_try_from_ext e' = Inr f \<longleftrightarrow> e' = e)"
proof -
  let ?p = "uint bn256_modulus"
  have inj: "ext_value e' = ext_value e" if "ext_value e' mod ?p = ext_value e mod ?p"
  proof -
    have "2 * 2 ^ 127 < ?p" by (simp add: uint_bn256)
    then have "\<bar>ext_value e' - ext_value e\<bar> < ?p"
      using ext_value_bounds [of e] ext_value_bounds [of e'] by linarith
    moreover have "?p dvd ext_value e' - ext_value e" using that by (simp add: mod_eq_dvd_iff)
    ultimately show ?thesis using dvd_imp_le_int [of "ext_value e' - ext_value e" ?p] by fastforce
  qed
  have "field_try_from_ext e' = Inr (Field (word_of_int (ext_value e mod ?p))) \<longleftrightarrow> e' = e"
  proof
    assume "field_try_from_ext e' = Inr (Field (word_of_int (ext_value e mod ?p)))"
    then have "(word_of_int (ext_value e' mod ?p) :: u256) = word_of_int (ext_value e mod ?p)"
      unfolding field_try_from_ext_eq by blast
    then have "uint (word_of_int (ext_value e' mod ?p) :: u256) = uint (word_of_int (ext_value e mod ?p) :: u256)"
      by (rule arg_cong)
    then show "e' = e" unfolding uint_field_rep using inj ext_value_inject by blast
  next
    assume "e' = e"
    then show "field_try_from_ext e' = Inr (Field (word_of_int (ext_value e mod ?p)))"
      by (simp only: field_try_from_ext_eq)
  qed
  then show ?thesis unfolding field_try_from_ext_eq [of e]
    by (simp add: field_canonical_def word_less_def BN254_PRIME_eq uint_field_rep uint_field_rep_less)
qed

text \<open>
  Every amount survives its text form (\<open>Display\<close> and \<open>FromStr\<close>, which the JSON form uses) and its
  database column: note amounts always, external amounts exactly if they fit in 64 bits, and otherwise
  the conversion to a column reports an error.
\<close>

theorem amounts_roundtrip:
  "note_from_str (note_display a) = Inr a \<and> ext_from_str (ext_display e) = Inr e \<and>
    let_ok (note_to_sql a) note_column_result = Inr a \<and>
    let_ok (ext_to_sql e) ext_column_result =
      (if in_signed_range 64 (ext_value e) then Inr e else Inl (ToSqlConversionFailure (OutOfRange 0)))"
proof -
  have "ext_column_result (SqlInteger v) = Inr e" if "sint (v :: 64 word) = ext_value e" for v
  proof -
    have "sint (scast v :: i128) = sint v" by (rule sint_up_scast) (simp add: is_up)
    with that have "ExtAmount (scast v) = e" by (simp add: ext_value_inject [symmetric])
    then show ?thesis by (simp add: ext_column_result_def)
  qed
  note that = this
  have "let_ok (ext_to_sql e) ext_column_result =
      (if in_signed_range 64 (ext_value e) then Inr e else Inl (ToSqlConversionFailure (OutOfRange 0)))"
  proof (cases "signed_of_int (ext_value e) :: 64 word option")
    case None
    then show ?thesis by (simp add: ext_to_sql_def signed_of_int_def split: if_splits)
  next
    case (Some v)
    moreover from Some have "sint v = ext_value e" by (simp only: signed_of_int_Some_iff)
    moreover from Some have "in_signed_range 64 (ext_value e)"
      by (simp add: signed_of_int_def split: if_splits)
    ultimately show ?thesis using that by (simp add: ext_to_sql_def)
  qed
  then show ?thesis
    by (simp add: note_from_str_def note_display_def parse_u128_show ext_from_str_def ext_display_def
        parse_i128_show note_to_sql_def note_column_result_def)
qed

text \<open>
  Canonical field elements survive their hexadecimal text and their database blob, and whatever
  text or column is accepted is a canonical element: a value at or above the modulus is refused.
\<close>

theorem field_text_roundtrip:
  assumes "hex_ok H"
  shows "(field_canonical f \<longrightarrow>
      field_from_0x_hex_be H (field_to_0x_hex_be H f) = Inr f \<and>
      let_ok (field_to_sql f) (field_column_result H) = Inr f) \<and>
    (field_from_0x_hex_be H s = Inr g \<or> field_from_0x_hex_le_bytes H s = Inr g \<or>
      field_column_result H c = Inr g \<longrightarrow> field_canonical g)"
proof
  show "field_canonical f \<longrightarrow>
      field_from_0x_hex_be H (field_to_0x_hex_be H f) = Inr f \<and>
      let_ok (field_to_sql f) (field_column_result H) = Inr f"
    using assms by (auto simp: field_from_0x_hex_be_def field_to_0x_hex_be_def parse_encode_0x_hex
        field_be_bytes_roundtrip field_to_sql_def field_column_result_def field_le_bytes_roundtrip)
  show "field_from_0x_hex_be H s = Inr g \<or> field_from_0x_hex_le_bytes H s = Inr g \<or>
      field_column_result H c = Inr g \<longrightarrow> field_canonical g"
    by (auto simp: field_from_0x_hex_be_def field_from_0x_hex_le_bytes_def field_column_result_def
        field_try_from_be_bytes_def field_try_from_le_bytes_def field_try_from_u256_iff outcome_simps
        split: sql_value.splits if_splits)
qed

lemma field_text_roundtrip_witness:
  "field_from_0x_hex_be sample_hex (field_to_0x_hex_be sample_hex (Field 258)) = Inr (Field 258)"
proof -
  have "field_canonical (Field 258)" by (simp add: field_canonical_def bn256_modulus_eq u256_eval)
  with field_text_roundtrip [OF sample_hex_ok, of "Field 258"] show ?thesis by blast
qed

text \<open>
  Between note amounts and external amounts: a note amount converts exactly if it is below 2^127,
  an external amount exactly if it is not negative, the value is kept, and the two conversions invert
  each other. Negation fails only for the smallest external amount.
\<close>

lemma amount_conversions:
  "(ext_try_from_note a = Inr e \<longleftrightarrow> ext_value e = int (note_value a)) \<and>
    (is_ok (ext_try_from_note a) \<longleftrightarrow> note_value a < 2 ^ 127) \<and>
    (note_try_from_ext e = Inr a \<longleftrightarrow> ext_value e = int (note_value a)) \<and>
    (is_ok (note_try_from_ext e) \<longleftrightarrow> 0 \<le> ext_value e) \<and>
    (ext_checked_neg e = Some e' \<longleftrightarrow> ext_value e' = - ext_value e) \<and>
    (ext_checked_neg e = None \<longleftrightarrow> ext_value e = - (2 ^ 127))"
proof (intro conjI)
  show "ext_try_from_note a = Inr e \<longleftrightarrow> ext_value e = int (note_value a)"
    by (cases e) (auto simp: ext_try_from_note_def outcome_simps i128_try_from_u128_iff)
  show "is_ok (ext_try_from_note a) \<longleftrightarrow> note_value a < 2 ^ 127"
    by (auto simp: ext_try_from_note_def i128_try_from_u128_def is_ok_def)
  show "note_try_from_ext e = Inr a \<longleftrightarrow> ext_value e = int (note_value a)"
    by (cases a) (auto simp: note_try_from_ext_def outcome_simps u128_try_from_i128_iff)
  show "is_ok (note_try_from_ext e) \<longleftrightarrow> 0 \<le> ext_value e"
    by (auto simp: note_try_from_ext_def u128_try_from_i128_def is_ok_def)
  show "ext_checked_neg e = Some e' \<longleftrightarrow> ext_value e' = - ext_value e"
    by (cases e') (auto simp: ext_checked_neg_def signed_checked_neg_def signed_of_int_Some_iff)
  show "ext_checked_neg e = None \<longleftrightarrow> ext_value e = - (2 ^ 127)"
    using ext_value_bounds [of e]
    by (auto simp: ext_checked_neg_def signed_checked_neg_def signed_of_int_def in_signed_range_def)
qed

end
