(* ===== verification/Coin_Selection.thy ===== *)
theory Coin_Selection
  imports Amounts "HOL-Library.Multiset"
begin

text \<open>
  Coin selection of the transaction planner (\<open>tx-planner/src/plan/combination.rs\<close> and
  \<open>plan/error.rs\<close>): which notes of the wallet pay a goal. Positions and counters (\<open>usize\<close>, 32 bits on
  the WebAssembly target of the wallet) are natural numbers with their overflow checks, the iteration
  budget (\<open>i32\<close>) is an integer with its range check, and an index out of range is a trap.

  \<open>sort_unstable_by_key\<close> leaves the order of equal amounts open, so the sort is the parameter
  \<open>srt\<close>; \<open>unstable_sort_ok\<close> says what the standard library promises of it.
\<close>

section \<open>Errors and results\<close>

datatype plan_error =
    NoSpendableNotes
  | NoCombination
  | TooManyNotes nat nat
  | NoteIndexOutOfRange nat
  | InputAmountOverflow
  | InternalError string
  | InvalidPlan
  | CommitmentNotFound field
  | NoteAmountMismatch field note_amount note_amount
  | NoNoteForAmount note_amount
  | AmbiguousNoteForAmount note_amount

definition TRANSACTION_LIMIT :: nat where
  "TRANSACTION_LIMIT = 10"

datatype combination_result =
    TwoExact nat nat
  | OneExact nat
  | TwoOvershoot nat nat note_amount
  | OneOvershoot nat note_amount
  | ExactK "nat list"
  | Overshoot "nat list" note_amount
  | Impossible

type_synonym indexed_notes = "(nat \<times> note_amount) list"

definition unstable_sort_ok :: "(indexed_notes \<Rightarrow> indexed_notes) \<Rightarrow> bool" where
  "unstable_sort_ok srt \<longleftrightarrow> (\<forall>xs. mset (srt xs) = mset xs \<and> sorted (map snd (srt xs)))"

section \<open>Pairs\<close>

datatype two_scan = TwoScan_Exact nat nat | TwoScan_Overshoot nat nat note_amount | TwoScan_Miss

type_synonym best_pair = "(nat \<times> nat \<times> note_amount) option"

text \<open>
  The two-pointer loop. A difference that is neither zero nor positive would leave both pointers
  where they are; there is none, which the termination proof shows.
\<close>

function two_scan_loop ::
  "indexed_notes \<Rightarrow> note_amount \<Rightarrow> best_pair \<Rightarrow> nat \<Rightarrow> nat \<Rightarrow> (plan_error, two_scan) outcome" where
  "two_scan_loop sorted_vals goal best left right =
    (if left < right then
       let_ok (or_trap (vec_get sorted_vals left)) (\<lambda>(i, x).
       let_ok (or_trap (vec_get sorted_vals right)) (\<lambda>(j, y).
       let_ok (ok_or (note_checked_add x y) (Err InputAmountOverflow)) (\<lambda>tot.
       case note_checked_sub tot goal of
         None \<Rightarrow>
           let_ok (ok_or (nat_checked_add 32 left 1) (Err (InternalError ''two-scan: left index overflow'')))
             (\<lambda>left'. two_scan_loop sorted_vals goal best left' right)
       | Some diff \<Rightarrow>
           if note_is_zero diff then Inr (TwoScan_Exact i j)
           else if diff > NOTE_ZERO then
             let_ok (ok_or (nat_checked_sub right 1) (Err (InternalError ''two-scan: right index underflow'')))
               (\<lambda>right'. two_scan_loop sorted_vals goal
                 (case best of
                    None \<Rightarrow> Some (i, j, diff)
                  | Some (_, _, excess) \<Rightarrow> if diff < excess then Some (i, j, diff) else best)
                 left right')
           else two_scan_loop sorted_vals goal best left right)))
     else
       Inr (case best of Some (i, j, excess) \<Rightarrow> TwoScan_Overshoot i j excess | None \<Rightarrow> TwoScan_Miss))"
  by pat_completeness auto
termination
  by (relation "measure (\<lambda>(srt, goal, best, left, right). right - left)")
    (auto simp: outcome_simps checked_simps note_is_zero_iff note_less_iff)

declare two_scan_loop.simps [simp del]

definition TwoScan_scan :: "indexed_notes \<Rightarrow> note_amount \<Rightarrow> (plan_error, two_scan) outcome" where
  "TwoScan_scan sorted_vals goal =
    (if length sorted_vals < 2 then Inr TwoScan_Miss
     else
       let_ok (ok_or (nat_checked_sub (length sorted_vals) 1)
           (Err (InternalError ''two-scan: right bound underflow''))) (\<lambda>right.
       two_scan_loop sorted_vals goal None 0 right))"

section \<open>Single notes\<close>

datatype one_scan = OneScan_Exact nat | OneScan_Overshoot nat note_amount | OneScan_Miss

fun OneScan_scan :: "indexed_notes \<Rightarrow> note_amount \<Rightarrow> one_scan" where
  "OneScan_scan [] goal = OneScan_Miss"
| "OneScan_scan ((idx, x) # rest) goal =
    (case note_checked_sub x goal of
       None \<Rightarrow> OneScan_scan rest goal
     | Some diff \<Rightarrow>
         if note_is_zero diff then OneScan_Exact idx
         else if diff > NOTE_ZERO then OneScan_Overshoot idx diff
         else OneScan_scan rest goal)"

section \<open>Three and more notes\<close>

datatype k_scan = KScan_Exact "nat list" | KScan_Overshoot "nat list" note_amount | KScan_Miss

fun greedy_loop :: "note_amount \<Rightarrow> indexed_notes \<Rightarrow> note_amount \<Rightarrow> nat list \<Rightarrow> (plan_error, k_scan) outcome" where
  "greedy_loop goal [] tot picks = Inr KScan_Miss"
| "greedy_loop goal ((idx, x) # rest) tot picks =
    let_ok (ok_or (note_checked_add tot x) (Err InputAmountOverflow)) (\<lambda>tot'.
    if tot' \<ge> goal then
      let_ok (ok_or (note_checked_sub tot' goal) (Err (InternalError ''greedy: excess invariant'')))
        (\<lambda>excess. Inr (KScan_Overshoot (picks @ [idx]) excess))
    else greedy_loop goal rest tot' (picks @ [idx]))"

definition greedy_impl :: "indexed_notes \<Rightarrow> note_amount \<Rightarrow> (plan_error, k_scan) outcome" where
  "greedy_impl sorted_vals goal = greedy_loop goal (rev sorted_vals) NOTE_ZERO []"

text \<open>The mutable part of \<open>DfsContext\<close>; the other fields are arguments.\<close>

record dfs_context =
  iteration_limit :: int
  dfs_path :: "nat list"
  best_overshoot :: "(note_amount \<times> nat list) option"

definition i32_checked_sub :: "int \<Rightarrow> int \<Rightarrow> int option" where
  "i32_checked_sub a b = (if in_signed_range 32 (a - b) then Some (a - b) else None)"

function dfs ::
  "indexed_notes \<Rightarrow> note_amount \<Rightarrow> nat \<Rightarrow> note_amount \<Rightarrow> nat \<Rightarrow> dfs_context \<Rightarrow>
    (plan_error, bool \<times> dfs_context) outcome" where
  "dfs candidates goal target_k tot index ctx =
    (if length (dfs_path ctx) = target_k then
       (case note_checked_sub tot goal of
          None \<Rightarrow> Inr (False, ctx)
        | Some diff \<Rightarrow>
            if note_is_zero diff then Inr (True, ctx)
            else if diff > NOTE_ZERO \<and>
                (case best_overshoot ctx of None \<Rightarrow> True | Some (min_ov, _) \<Rightarrow> diff < min_ov) then
              Inr (False, ctx\<lparr>best_overshoot := Some (diff, dfs_path ctx)\<rparr>)
            else Inr (False, ctx))
     else if tot \<ge> goal \<or> index \<ge> length candidates \<or> iteration_limit ctx \<le> 0 then Inr (False, ctx)
     else
       let_ok (ok_or (i32_checked_sub (iteration_limit ctx) 1)
           (Err (InternalError ''dfs: iteration limit underflow''))) (\<lambda>limit.
       let_ok (ok_or (nat_checked_add 32 index 1) (Err (InternalError ''dfs: index overflow''))) (\<lambda>next_index.
       let_ok (or_trap (vec_get candidates index)) (\<lambda>(note_index, amount).
       let_ok (ok_or (note_checked_add tot amount) (Err InputAmountOverflow)) (\<lambda>with_note.
       let_ok (dfs candidates goal target_k with_note next_index
           (ctx\<lparr>iteration_limit := limit, dfs_path := dfs_path ctx @ [note_index]\<rparr>)) (\<lambda>(found, ctx').
       if found then Inr (True, ctx')
       else dfs candidates goal target_k tot next_index
           (ctx'\<lparr>dfs_path := butlast (dfs_path ctx')\<rparr>)))))))"
  by pat_completeness auto
termination
  by (relation "measure (\<lambda>(candidates, goal, k, tot, index, ctx). length candidates - index)")
    (auto simp: outcome_simps checked_simps)

declare dfs.simps [simp del]

fun k_scan_loop ::
  "indexed_notes \<Rightarrow> indexed_notes \<Rightarrow> note_amount \<Rightarrow> nat list \<Rightarrow> (plan_error, k_scan) outcome" where
  "k_scan_loop sorted_vals candidates goal [] = greedy_impl sorted_vals goal"
| "k_scan_loop sorted_vals candidates goal (k # ks) =
    let_ok (dfs candidates goal k NOTE_ZERO 0
        \<lparr>iteration_limit = 5000, dfs_path = [], best_overshoot = None\<rparr>) (\<lambda>(found, ctx).
    if found then Inr (KScan_Exact (dfs_path ctx))
    else case best_overshoot ctx of
        Some (excess, overshoot_path) \<Rightarrow> Inr (KScan_Overshoot overshoot_path excess)
      | None \<Rightarrow> k_scan_loop sorted_vals candidates goal ks)"

definition KScan_scan :: "indexed_notes \<Rightarrow> note_amount \<Rightarrow> (plan_error, k_scan) outcome" where
  "KScan_scan sorted_vals goal =
    (let candidates_desc = rev (filter (\<lambda>(_, x). x < goal) sorted_vals) in
     if length candidates_desc \<ge> 3 then
       (let max_k = min (length candidates_desc) TRANSACTION_LIMIT in
        k_scan_loop sorted_vals candidates_desc goal [3 ..< max_k + 1])
     else greedy_impl sorted_vals goal)"

section \<open>The selection\<close>

definition find_combination ::
  "(indexed_notes \<Rightarrow> indexed_notes) \<Rightarrow> note_amount list \<Rightarrow> note_amount \<Rightarrow>
    (plan_error, combination_result) outcome" where
  "find_combination srt vals goal =
    (if vals = [] then Inr Impossible
     else
       (let sorted_vals = srt (enumerate 0 vals) in
        let_ok (TwoScan_scan sorted_vals goal) (\<lambda>two.
        case two of TwoScan_Exact i j \<Rightarrow> Inr (TwoExact i j)
        | _ \<Rightarrow>
          (let one = OneScan_scan sorted_vals goal in
           case one of OneScan_Exact i \<Rightarrow> Inr (OneExact i)
           | _ \<Rightarrow>
             (case two of TwoScan_Overshoot i j excess \<Rightarrow> Inr (TwoOvershoot i j excess)
              | _ \<Rightarrow>
                (case one of OneScan_Overshoot i excess \<Rightarrow> Inr (OneOvershoot i excess)
                 | _ \<Rightarrow>
                   let_ok (KScan_scan sorted_vals goal) (\<lambda>k.
                   Inr (case k of
                          KScan_Exact indices \<Rightarrow> ExactK indices
                        | KScan_Overshoot indices excess \<Rightarrow> Overshoot indices excess
                        | KScan_Miss \<Rightarrow> Impossible))))))))"

section \<open>The two-pointer scan\<close>

definition note_at :: "indexed_notes \<Rightarrow> nat \<Rightarrow> nat" where
  "note_at xs i = note_value (snd (xs ! i))"

definition best_pair_update :: "nat \<Rightarrow> nat \<Rightarrow> note_amount \<Rightarrow> best_pair \<Rightarrow> best_pair" where
  "best_pair_update i j diff best =
    (case best of None \<Rightarrow> Some (i, j, diff)
     | Some (_, _, excess) \<Rightarrow> if diff < excess then Some (i, j, diff) else best)"

lemma two_scan_loop_step:
  assumes "left < right" and "right < length xs" and "length xs < 2 ^ 32"
  shows "two_scan_loop xs goal best left right =
    (if 2 ^ 128 \<le> note_at xs left + note_at xs right then Inl (Err InputAmountOverflow)
     else if note_at xs left + note_at xs right < note_value goal
       then two_scan_loop xs goal best (left + 1) right
     else if note_at xs left + note_at xs right = note_value goal
       then Inr (TwoScan_Exact (fst (xs ! left)) (fst (xs ! right)))
     else two_scan_loop xs goal (best_pair_update (fst (xs ! left)) (fst (xs ! right))
         (NoteAmount (of_nat (note_at xs left + note_at xs right - note_value goal))) best) left (right - 1))"
proof -
  let ?s = "note_at xs left + note_at xs right"
  obtain i x where l: "xs ! left = (i, x)" by fastforce
  obtain j y where r: "xs ! right = (j, y)" by fastforce
  have s: "?s = note_value x + note_value y" by (simp add: note_at_def l r)
  have get: "vec_get xs left = Some (i, x)" "vec_get xs right = Some (j, y)"
    using assms l r by simp_all
  have idx: "nat_checked_add 32 left 1 = Some (left + 1)" "nat_checked_sub right 1 = Some (right - 1)"
    using assms by (simp_all add: nat_checked_add_def nat_checked_sub_def)
  show ?thesis
  proof (cases "note_checked_add x y")
    case None
    then have "2 ^ 128 \<le> ?s" by (simp only: s note_checked_add_None)
    with None show ?thesis using assms(1) get by (subst two_scan_loop.simps) simp
  next
    case (Some t)
    then have t: "note_value t = ?s" by (simp add: s note_checked_add_iff)
    then have no: "\<not> 2 ^ 128 \<le> ?s" using note_value_less [of t] by simp
    show ?thesis
    proof (cases "note_checked_sub t goal")
      case None
      then have "?s < note_value goal" by (simp only: note_checked_sub_None t)
      with None show ?thesis using assms(1) get Some no idx by (subst two_scan_loop.simps) simp
    next
      case (Some d)
      then have d: "?s = note_value goal + note_value d" using t by (simp add: note_checked_sub_iff)
      then have "NoteAmount (of_nat (?s - note_value goal)) = d" by (cases d) simp
      with d show ?thesis using assms(1) get Some \<open>note_checked_add x y = Some t\<close> no idx
        by (subst two_scan_loop.simps)
          (auto simp: note_is_zero_iff note_less_iff best_pair_update_def l r)
    qed
  qed
qed

definition best_valid :: "indexed_notes \<Rightarrow> note_amount \<Rightarrow> best_pair \<Rightarrow> bool" where
  "best_valid xs goal best \<longleftrightarrow>
    (\<forall>a b e. best = Some (a, b, e) \<longrightarrow> 0 < note_value e \<and>
      (\<exists>i j. i < j \<and> j < length xs \<and> a = fst (xs ! i) \<and> b = fst (xs ! j) \<and>
        note_at xs i + note_at xs j = note_value goal + note_value e))"

text \<open>\<open>best\<close> is at least as good as the pair of positions \<open>i\<close> and \<open>j\<close>.\<close>

definition best_covers :: "indexed_notes \<Rightarrow> note_amount \<Rightarrow> best_pair \<Rightarrow> nat \<Rightarrow> nat \<Rightarrow> bool" where
  "best_covers xs goal best i j \<longleftrightarrow>
    note_at xs i + note_at xs j < note_value goal \<or>
    (\<exists>a b e. best = Some (a, b, e) \<and> note_value goal + note_value e \<le> note_at xs i + note_at xs j)"

fun two_scan_spec :: "indexed_notes \<Rightarrow> note_amount \<Rightarrow> two_scan \<Rightarrow> bool" where
  "two_scan_spec xs goal (TwoScan_Exact a b) \<longleftrightarrow>
    (\<exists>i j. i < j \<and> j < length xs \<and> a = fst (xs ! i) \<and> b = fst (xs ! j) \<and>
      note_at xs i + note_at xs j = note_value goal)"
| "two_scan_spec xs goal (TwoScan_Overshoot a b e) \<longleftrightarrow>
    best_valid xs goal (Some (a, b, e)) \<and>
    (\<forall>i j. i < j \<longrightarrow> j < length xs \<longrightarrow> best_covers xs goal (Some (a, b, e)) i j)"
| "two_scan_spec xs goal TwoScan_Miss \<longleftrightarrow>
    (\<forall>i j. i < j \<longrightarrow> j < length xs \<longrightarrow> best_covers xs goal None i j)"

lemma note_at_mono:
  "sorted (map snd xs) \<Longrightarrow> i \<le> j \<Longrightarrow> j < length xs \<Longrightarrow> note_at xs i \<le> note_at xs j"
  using sorted_nth_mono [of "map snd xs" i j] by (simp add: note_at_def note_le_iff)

lemma best_covers_update:
  assumes "best_covers xs goal best i j"
  shows "best_covers xs goal (best_pair_update a b d best) i j"
  using assms by (auto simp: best_covers_def best_pair_update_def note_less_iff split: option.splits)

lemma best_covers_new:
  assumes "note_value goal + note_value d \<le> note_at xs i + note_at xs j"
  shows "best_covers xs goal (best_pair_update a b d best) i j"
  using assms by (fastforce simp: best_covers_def best_pair_update_def note_less_iff split: option.splits)

lemma two_scan_loop_spec:
  assumes "sorted (map snd xs)" and "length xs < 2 ^ 32" and "right < length xs"
    and "best_valid xs goal best"
    and "\<And>i j. i < j \<Longrightarrow> j < length xs \<Longrightarrow> i < left \<or> right < j \<Longrightarrow> best_covers xs goal best i j"
  shows "(\<exists>i j. i < j \<and> j < length xs \<and> 2 ^ 128 \<le> note_at xs i + note_at xs j \<and>
        two_scan_loop xs goal best left right = Inl (Err InputAmountOverflow)) \<or>
    (\<exists>r. two_scan_loop xs goal best left right = Inr r \<and> two_scan_spec xs goal r)"
  using assms(3-5)
proof (induction "right - left" arbitrary: best left right rule: less_induct)
  case less
  show ?case
  proof (cases "left < right")
    case False
    then have all: "best_covers xs goal best i j" if "i < j" "j < length xs" for i j
      using less.prems(3) [OF that] that by linarith
    have "two_scan_loop xs goal best left right =
        Inr (case best of Some (i, j, excess) \<Rightarrow> TwoScan_Overshoot i j excess | None \<Rightarrow> TwoScan_Miss)"
      using False by (subst two_scan_loop.simps) simp
    with all less.prems(2) show ?thesis by (cases best) auto
  next
    case True
    let ?s = "note_at xs left + note_at xs right"
    note step = two_scan_loop_step [OF True less.prems(1) assms(2), of goal best]
    consider "2 ^ 128 \<le> ?s" | "\<not> 2 ^ 128 \<le> ?s" "?s < note_value goal"
      | "\<not> 2 ^ 128 \<le> ?s" "?s = note_value goal" | "\<not> 2 ^ 128 \<le> ?s" "?s > note_value goal"
      by linarith
    then show ?thesis
    proof cases
      case 1
      with step True less.prems(1) show ?thesis by auto
    next
      case 2
      have "best_covers xs goal best i j" if "i < j" "j < length xs" "i < left + 1 \<or> right < j" for i j
      proof (cases "i < left \<or> right < j")
        case True
        with less.prems(3) that show ?thesis by blast
      next
        case False
        with that have "i = left" "j \<le> right" by simp_all
        with note_at_mono [OF assms(1), of j right] less.prems(1) 2 show ?thesis
          by (simp add: best_covers_def)
      qed
      with less.hyps [of right "left + 1" best] True less.prems step 2 show ?thesis by simp
    next
      case 3
      with step True less.prems(1) show ?thesis by auto
    next
      case 4
      let ?d = "NoteAmount (of_nat (?s - note_value goal))"
      let ?best = "best_pair_update (fst (xs ! left)) (fst (xs ! right)) ?d best"
      have "?s - note_value goal < 2 ^ LENGTH(128)" using 4 by simp
      then have d: "note_value ?d = ?s - note_value goal" by (simp add: unat_of_nat)
      have "best_valid xs goal ?best"
        using less.prems(1,2) True 4 d unfolding best_valid_def best_pair_update_def
        by (fastforce split: option.splits if_splits)
      moreover have "best_covers xs goal ?best i j"
        if "i < j" "j < length xs" "i < left \<or> right - 1 < j" for i j
      proof (cases "i < left \<or> right < j")
        case True
        with less.prems(3) that show ?thesis by (blast intro: best_covers_update)
      next
        case False
        with that \<open>left < right\<close> have "left \<le> i" "j = right" by linarith+
        then show ?thesis using note_at_mono [OF assms(1), of left i] that d 4
          by (intro best_covers_new) simp
      qed
      ultimately show ?thesis
        using less.hyps [of "right - 1" left ?best] True less.prems(1) step 4 by simp
    qed
  qed
qed

lemma TwoScan_scan_spec:
  assumes "sorted (map snd xs)" and "length xs < 2 ^ 32"
  shows "(\<exists>i j. i < j \<and> j < length xs \<and> 2 ^ 128 \<le> note_at xs i + note_at xs j \<and>
        TwoScan_scan xs goal = Inl (Err InputAmountOverflow)) \<or>
    (\<exists>r. TwoScan_scan xs goal = Inr r \<and> two_scan_spec xs goal r)"
proof (cases "length xs < 2")
  case True
  then show ?thesis by (simp add: TwoScan_scan_def)
next
  case False
  then have "TwoScan_scan xs goal = two_scan_loop xs goal None 0 (length xs - 1)"
    by (simp add: TwoScan_scan_def nat_checked_sub_def)
  moreover have "length xs - 1 < length xs" using False by simp
  moreover have "best_valid xs goal None" by (simp add: best_valid_def)
  ultimately show ?thesis
    using two_scan_loop_spec [OF assms, of "length xs - 1" goal None 0] by simp
qed

section \<open>Selections\<close>

text \<open>
  \<open>picks xs is t\<close>: the indices \<open>is\<close> are those of distinct entries of \<open>xs\<close>, whose amounts add up to \<open>t\<close>.
\<close>

definition notes_total :: "indexed_notes \<Rightarrow> nat" where
  "notes_total xs = sum_list (map (note_value \<circ> snd) xs)"

definition picks :: "indexed_notes \<Rightarrow> nat list \<Rightarrow> nat \<Rightarrow> bool" where
  "picks xs is t \<longleftrightarrow> (\<exists>ys. mset ys \<subseteq># mset xs \<and> is = map fst ys \<and> t = notes_total ys)"

lemma notes_total_simps [simp]:
  "notes_total [] = 0"
  "notes_total (x # xs) = note_value (snd x) + notes_total xs"
  "notes_total (xs @ ys) = notes_total xs + notes_total ys"
  "notes_total (rev xs) = notes_total xs"
  by (simp_all add: notes_total_def flip: rev_map)

lemma notes_total_mset: "notes_total xs = sum_mset (image_mset (note_value \<circ> snd) (mset xs))"
  by (simp add: notes_total_def sum_mset_sum_list [symmetric])

lemma notes_total_mono: "mset ys \<subseteq># mset xs \<Longrightarrow> notes_total ys \<le> notes_total xs"
  by (auto simp: notes_total_mset mset_subset_eq_exists_conv)

lemma picks_Nil: "picks xs [] 0"
  by (auto simp: picks_def intro!: exI [of _ "[]"])

lemma picks_mono: "picks xs is t \<Longrightarrow> mset xs \<subseteq># mset zs \<Longrightarrow> picks zs is t"
  unfolding picks_def using subset_mset.order_trans by blast

lemma picks_snoc: "picks xs is t \<Longrightarrow> picks (xs @ [x]) (is @ [fst x]) (t + note_value (snd x))"
  unfolding picks_def
proof (elim exE conjE)
  fix ys assume "mset ys \<subseteq># mset xs" "is = map fst ys" "t = notes_total ys"
  then show "\<exists>zs. mset zs \<subseteq># mset (xs @ [x]) \<and> is @ [fst x] = map fst zs \<and>
      t + note_value (snd x) = notes_total zs"
    by (intro exI [of _ "ys @ [x]"]) simp
qed

lemma picks_total: "picks xs is t \<Longrightarrow> t \<le> notes_total xs"
  by (auto simp: picks_def notes_total_mono)

lemma mset_take_subset: "mset (take n xs) \<subseteq># mset xs"
  by (metis append_take_drop_id mset_append mset_subset_eq_add_left)

lemma picks_take: "picks (take n xs) is t \<Longrightarrow> picks xs is t"
  using picks_mono mset_take_subset by blast

lemma picks_take_Suc:
  "picks (take n xs) is t \<Longrightarrow> picks (take (Suc n) xs) is t"
  by (erule picks_mono) (cases "n < length xs"; simp add: take_Suc_conv_app_nth)

section \<open>The searches\<close>

lemma OneScan_scan_spec:
  assumes "sorted (map snd xs)"
  shows "case OneScan_scan xs goal of
      OneScan_Exact i \<Rightarrow> \<exists>x. (i, x) \<in> set xs \<and> note_value x = note_value goal
    | OneScan_Overshoot i e \<Rightarrow> 0 < note_value e \<and> (\<forall>(j, y) \<in> set xs. note_value y \<noteq> note_value goal) \<and>
        (\<exists>x. (i, x) \<in> set xs \<and> note_value x = note_value goal + note_value e)
    | OneScan_Miss \<Rightarrow> \<forall>(j, y) \<in> set xs. note_value y < note_value goal"
  using assms
proof (induction xs goal rule: OneScan_scan.induct)
  case (2 idx x rest goal)
  show ?case
  proof (cases "note_checked_sub x goal")
    case None
    then have "note_value x < note_value goal" by (simp only: note_checked_sub_None)
    with None 2 show ?thesis by (auto split: one_scan.splits)
  next
    case (Some d)
    then have d: "note_value x = note_value goal + note_value d" by (simp add: note_checked_sub_iff)
    have "note_value x \<le> note_value y" if "(j, y) \<in> set rest" for j y
      using 2(3) that by (force simp: note_le_iff)
    with d have "note_value y \<noteq> note_value goal" if "(j, y) \<in> set rest" "0 < note_value d" for j y
      using that by fastforce
    with Some d show ?thesis by (auto simp: note_is_zero_iff note_less_iff)
  qed
qed simp

definition best_overshoot_ok :: "indexed_notes \<Rightarrow> note_amount \<Rightarrow> nat \<Rightarrow> (note_amount \<times> nat list) option \<Rightarrow> bool" where
  "best_overshoot_ok xs goal k b \<longleftrightarrow>
    (\<forall>e p. b = Some (e, p) \<longrightarrow>
      picks xs p (note_value goal + note_value e) \<and> 0 < note_value e \<and> length p = k)"

text \<open>What a call of \<open>dfs\<close> from the context \<open>ctx\<close> may return.\<close>

definition dfs_result ::
  "indexed_notes \<Rightarrow> note_amount \<Rightarrow> nat \<Rightarrow> nat list \<Rightarrow> (plan_error, bool \<times> dfs_context) outcome \<Rightarrow> bool" where
  "dfs_result xs goal k path m \<longleftrightarrow>
    (m = Inl (Err InputAmountOverflow) \<and> 2 ^ 128 \<le> notes_total xs) \<or>
    (\<exists>found ctx'. m = Inr (found, ctx') \<and>
      best_overshoot_ok xs goal k (best_overshoot ctx') \<and> iteration_limit ctx' \<le> 5000 \<and>
      (if found then picks xs (dfs_path ctx') (note_value goal) \<and> length (dfs_path ctx') = k
       else dfs_path ctx' = path))"

lemma dfs_leaf:
  assumes "length (dfs_path ctx) = k" and "picks xs (dfs_path ctx) (note_value tot)"
    and "best_overshoot_ok xs goal k (best_overshoot ctx)" and "iteration_limit ctx \<le> 5000"
  shows "dfs_result xs goal k (dfs_path ctx) (dfs xs goal k tot index ctx)"
proof (cases "note_checked_sub tot goal")
  case None
  with assms show ?thesis by (subst dfs.simps) (auto simp: dfs_result_def)
next
  case (Some d)
  then have t: "note_value tot = note_value goal + note_value d" by (simp only: note_checked_sub_iff)
  then have "best_overshoot_ok xs goal k (Some (d, dfs_path ctx))" if "0 < note_value d"
    using that assms by (simp add: best_overshoot_ok_def)
  moreover have "note_value d = 0 \<Longrightarrow> picks xs (dfs_path ctx) (note_value goal)" using assms(2) t by simp
  ultimately show ?thesis using Some assms
    by (subst dfs.simps) (auto simp: dfs_result_def note_is_zero_iff note_less_iff)
qed

lemma dfs_go:
  assumes "length (dfs_path ctx) \<noteq> k" and "\<not> (tot \<ge> goal \<or> index \<ge> length xs \<or> iteration_limit ctx \<le> 0)"
    and "xs ! index = (ni, amt)" and "iteration_limit ctx \<le> 5000" and "length xs < 2 ^ 32"
  shows "dfs xs goal k tot index ctx =
    let_ok (ok_or (note_checked_add tot amt) (Err InputAmountOverflow)) (\<lambda>with_note.
    let_ok (dfs xs goal k with_note (Suc index)
        (ctx\<lparr>iteration_limit := iteration_limit ctx - 1, dfs_path := dfs_path ctx @ [ni]\<rparr>)) (\<lambda>(found, ctx').
    if found then Inr (True, ctx')
    else dfs xs goal k tot (Suc index) (ctx'\<lparr>dfs_path := butlast (dfs_path ctx')\<rparr>)))"
  using assms by (subst dfs.simps) (simp add: i32_checked_sub_def in_signed_range_def nat_checked_add_def)

lemma dfs_spec:
  assumes "length xs < 2 ^ 32"
    and "picks (take index xs) (dfs_path ctx) (note_value tot)" and "index \<le> length xs"
    and "best_overshoot_ok xs goal k (best_overshoot ctx)" and "iteration_limit ctx \<le> 5000"
  shows "dfs_result xs goal k (dfs_path ctx) (dfs xs goal k tot index ctx)"
  using assms(2-5)
proof (induction "length xs - index" arbitrary: index tot ctx rule: less_induct)
  case less
  consider (leaf) "length (dfs_path ctx) = k"
    | (stop) "length (dfs_path ctx) \<noteq> k" "tot \<ge> goal \<or> index \<ge> length xs \<or> iteration_limit ctx \<le> 0"
    | (go) "length (dfs_path ctx) \<noteq> k" "\<not> (tot \<ge> goal \<or> index \<ge> length xs \<or> iteration_limit ctx \<le> 0)"
    by blast
  then show ?case
  proof cases
    case leaf
    with dfs_leaf picks_take [OF less.prems(1)] less.prems(3,4) show ?thesis by blast
  next
    case stop
    with less.prems show ?thesis by (subst dfs.simps) (auto simp: dfs_result_def)
  next
    case go
    obtain ni amt where at: "xs ! index = (ni, amt)" by fastforce
    define ctx1 where "ctx1 = ctx\<lparr>iteration_limit := iteration_limit ctx - 1, dfs_path := dfs_path ctx @ [ni]\<rparr>"
    note unf = dfs_go [OF go at less.prems(4) assms(1), folded ctx1_def]
    have c: "length xs - Suc index < length xs - index" "Suc index \<le> length xs" using go by linarith+
    have snoc: "picks (take (Suc index) xs) (dfs_path ctx1) (note_value tot + note_value amt)"
      using picks_snoc [OF less.prems(1), of "(ni, amt)"] go at
      by (simp add: take_Suc_conv_app_nth ctx1_def)
    show ?thesis
    proof (cases "note_checked_add tot amt")
      case None
      then have "2 ^ 128 \<le> note_value tot + note_value amt" by (simp only: note_checked_add_None)
      with picks_total [OF picks_take [OF snoc]] have "2 ^ 128 \<le> notes_total xs" by linarith
      with None unf show ?thesis by (simp add: dfs_result_def)
    next
      case (Some w)
      then have "note_value w = note_value tot + note_value amt" by (simp only: note_checked_add_iff)
      with c snoc less.prems have first: "dfs_result xs goal k (dfs_path ctx1) (dfs xs goal k w (Suc index) ctx1)"
        by (intro less.hyps) (simp_all add: ctx1_def)
      show ?thesis
      proof (cases "\<exists>ctx'. dfs xs goal k w (Suc index) ctx1 = Inr (False, ctx')")
        case True
        then obtain ctx' where f: "dfs xs goal k w (Suc index) ctx1 = Inr (False, ctx')" by blast
        define ctx2 where "ctx2 = ctx'\<lparr>dfs_path := butlast (dfs_path ctx')\<rparr>"
        from first f have b: "dfs_path ctx2 = dfs_path ctx" "best_overshoot_ok xs goal k (best_overshoot ctx2)"
          "iteration_limit ctx2 \<le> 5000"
          by (auto simp: dfs_result_def ctx2_def ctx1_def)
        have eq: "dfs xs goal k tot index ctx = dfs xs goal k tot (Suc index) ctx2"
          using unf Some f by (simp add: ctx2_def)
        have "picks (take (Suc index) xs) (dfs_path ctx2) (note_value tot)"
          using picks_take_Suc [OF less.prems(1)] b(1) by simp
        from less.hyps [OF c(1) this c(2) b(2,3)] show ?thesis by (simp only: eq b(1))
      next
        case False
        with first unf Some show ?thesis by (auto simp: dfs_result_def)
      qed
    qed
  qed
qed

lemma greedy_loop_spec:
  assumes "picks done is0 (note_value tot)" and "note_value tot = notes_total done"
    and "done \<noteq> [] \<longrightarrow> note_value tot < note_value goal"
  shows "(greedy_loop goal ys tot is0 = Inl (Err InputAmountOverflow) \<and> 2 ^ 128 \<le> notes_total (done @ ys)) \<or>
    (greedy_loop goal ys tot is0 = Inr KScan_Miss \<and>
      (done @ ys = [] \<or> notes_total (done @ ys) < note_value goal)) \<or>
    (\<exists>is e. greedy_loop goal ys tot is0 = Inr (KScan_Overshoot is e) \<and>
      picks (done @ ys) is (note_value goal + note_value e))"
  using assms
proof (induction ys arbitrary: "done" tot is0)
  case Nil
  then show ?case by auto
next
  case (Cons y ys)
  obtain i x where y: "y = (i, x)" by fastforce
  have snoc: "picks (done @ [y]) (is0 @ [i]) (note_value tot + note_value x)"
    using picks_snoc [OF Cons.prems(1), of y] y by simp
  show ?case
  proof (cases "note_checked_add tot x")
    case None
    then have "2 ^ 128 \<le> note_value tot + note_value x" by (simp only: note_checked_add_None)
    with None y Cons.prems(2) show ?thesis by simp
  next
    case (Some t)
    then have t: "note_value t = note_value tot + note_value x" by (simp only: note_checked_add_iff)
    show ?thesis
    proof (cases "t \<ge> goal")
      case True
      then obtain e where e: "note_checked_sub t goal = Some e"
        by (cases "note_checked_sub t goal") (auto simp: note_checked_sub_None note_le_iff)
      then have "note_value t = note_value goal + note_value e" by (simp only: note_checked_sub_iff)
      moreover have "mset (done @ [y]) \<subseteq># mset (done @ y # ys)" by simp
      ultimately have "picks (done @ y # ys) (is0 @ [i]) (note_value goal + note_value e)"
        using picks_mono [OF snoc] t by simp
      with True Some e y show ?thesis by simp
    next
      case False
      then have "greedy_loop goal (y # ys) tot is0 = greedy_loop goal ys t (is0 @ [i])"
        using Some y by simp
      moreover have "note_value t < note_value goal" using False by (simp add: note_le_iff)
      ultimately show ?thesis
        using Cons.IH [of "done @ [y]" "is0 @ [i]" t] snoc t y Cons.prems(2) by simp
    qed
  qed
qed

lemma greedy_impl_spec:
  "(greedy_impl xs goal = Inl (Err InputAmountOverflow) \<and> 2 ^ 128 \<le> notes_total xs) \<or>
    (greedy_impl xs goal = Inr KScan_Miss \<and> (xs = [] \<or> notes_total xs < note_value goal)) \<or>
    (\<exists>is e. greedy_impl xs goal = Inr (KScan_Overshoot is e) \<and>
      picks xs is (note_value goal + note_value e))"
proof -
  have "picks xs is t" if "picks (rev xs) is t" for "is" t using picks_mono [OF that] by simp
  then show ?thesis
    using greedy_loop_spec [of "[]" "[]" NOTE_ZERO goal "rev xs"] picks_Nil
    by (auto simp: greedy_impl_def)
qed

fun k_scan_spec :: "indexed_notes \<Rightarrow> note_amount \<Rightarrow> k_scan \<Rightarrow> bool" where
  "k_scan_spec xs goal (KScan_Exact is) \<longleftrightarrow> picks xs is (note_value goal)"
| "k_scan_spec xs goal (KScan_Overshoot is e) \<longleftrightarrow> picks xs is (note_value goal + note_value e)"
| "k_scan_spec xs goal KScan_Miss \<longleftrightarrow> xs = [] \<or> notes_total xs < note_value goal"

text \<open>A search ends in a valid selection, or in an overflow that the notes themselves cause.\<close>

definition scan_ok :: "('r \<Rightarrow> bool) \<Rightarrow> bool \<Rightarrow> (plan_error, 'r) outcome \<Rightarrow> bool" where
  "scan_ok spec overflow m \<longleftrightarrow>
    (m = Inl (Err InputAmountOverflow) \<and> overflow) \<or> (\<exists>r. m = Inr r \<and> spec r)"

lemma greedy_impl_ok: "scan_ok (k_scan_spec xs goal) (2 ^ 128 \<le> notes_total xs) (greedy_impl xs goal)"
  using greedy_impl_spec [of xs goal] by (auto simp: scan_ok_def)

lemma k_scan_loop_ok:
  assumes "length ys < 2 ^ 32" and sub: "mset ys \<subseteq># mset xs"
  shows "scan_ok (k_scan_spec xs goal) (2 ^ 128 \<le> notes_total xs) (k_scan_loop xs ys goal ks)"
proof (induction ks)
  case Nil
  show ?case using greedy_impl_ok by simp
next
  case (Cons k ks)
  let ?ctx = "\<lparr>iteration_limit = 5000, dfs_path = [], best_overshoot = None\<rparr>"
  have r: "dfs_result ys goal k [] (dfs ys goal k NOTE_ZERO 0 ?ctx)"
    using dfs_spec [OF assms(1), of 0 ?ctx NOTE_ZERO goal k] by (simp add: picks_Nil best_overshoot_ok_def)
  show ?case
  proof (cases "dfs ys goal k NOTE_ZERO 0 ?ctx")
    case (Inl f)
    with r notes_total_mono [OF sub] show ?thesis by (auto simp: scan_ok_def dfs_result_def)
  next
    case (Inr res)
    then obtain found ctx' where d: "dfs ys goal k NOTE_ZERO 0 ?ctx = Inr (found, ctx')" by (cases res) simp
    with r Cons.IH picks_mono [OF _ sub] show ?thesis
      by (cases found; cases "best_overshoot ctx'")
        (auto simp: scan_ok_def dfs_result_def best_overshoot_ok_def)
  qed
qed

lemma KScan_scan_ok:
  assumes "length xs < 2 ^ 32"
  shows "scan_ok (k_scan_spec xs goal) (2 ^ 128 \<le> notes_total xs) (KScan_scan xs goal)"
proof -
  let ?ys = "rev (filter (\<lambda>(_, x). x < goal) xs)"
  have "length ?ys < 2 ^ 32" using le_less_trans [OF length_filter_le assms] by simp
  moreover have "mset ?ys \<subseteq># mset xs" by (simp add: multiset_filter_subset)
  ultimately show ?thesis
    using k_scan_loop_ok [of ?ys xs] greedy_impl_ok by (simp add: KScan_scan_def Let_def)
qed

section \<open>Selections of the wallet\<close>

definition selection :: "note_amount list \<Rightarrow> nat list \<Rightarrow> nat \<Rightarrow> bool" where
  "selection vals is t \<longleftrightarrow>
    distinct is \<and> (\<forall>i \<in> set is. i < length vals) \<and> t = sum_list (map (\<lambda>i. note_value (vals ! i)) is)"

definition wallet_total :: "note_amount list \<Rightarrow> nat" where
  "wallet_total vals = sum_list (map note_value vals)"

lemma distinct_sub_mset: "mset xs \<subseteq># mset ys \<Longrightarrow> distinct ys \<Longrightarrow> distinct xs"
proof -
  assume sub: "mset xs \<subseteq># mset ys" and d: "distinct ys"
  have "count (mset xs) a = (if a \<in> set xs then 1 else 0)" for a
  proof -
    have "count (mset xs) a \<le> count (mset ys) a" using sub by (rule mset_subset_eq_count)
    also have "\<dots> \<le> 1" using d by (simp add: distinct_count_atmost_1)
    finally have "count (mset xs) a \<le> 1" .
    moreover have "0 < count (mset xs) a" if "a \<in> set xs" using that by (simp add: count_greater_zero_iff)
    ultimately have "count (mset xs) a = 1" if "a \<in> set xs" using that by (metis le_antisym less_eq_Suc_le One_nat_def)
    then show ?thesis by (simp add: count_eq_zero_iff)
  qed
  then show ?thesis by (simp add: distinct_count_atmost_1)
qed

lemma enumerate_mem: "(i, x) \<in> set (enumerate 0 vals) \<longleftrightarrow> i < length vals \<and> x = vals ! i"
  by (auto simp: in_set_enumerate_eq)

lemma picks_selection:
  assumes "picks xs is t" and "mset xs = mset (enumerate 0 vals)"
  shows "selection vals is t"
proof -
  obtain ys where ys: "mset ys \<subseteq># mset (enumerate 0 vals)" "is = map fst ys" "t = notes_total ys"
    using assms by (auto simp: picks_def)
  have "mset (map fst ys) \<subseteq># mset (map fst (enumerate 0 vals))"
    using image_mset_subseteq_mono [OF ys(1), of fst] by (simp only: mset_map)
  then have "distinct (map fst ys)" by (rule distinct_sub_mset) (simp add: map_fst_enumerate)
  moreover have mem: "(i, x) \<in> set (enumerate 0 vals)" if "(i, x) \<in> set ys" for i x
    using mset_subset_eqD [OF ys(1), of "(i, x)"] that by simp
  moreover have "map (note_value \<circ> snd) ys = map (\<lambda>i. note_value (vals ! i)) (map fst ys)"
    using mem by (auto simp: enumerate_mem)
  ultimately show ?thesis
    using ys by (auto simp: selection_def notes_total_def enumerate_mem simp del: map_map)
qed

lemma notes_total_enumerate:
  "mset xs = mset (enumerate 0 vals) \<Longrightarrow> notes_total xs = wallet_total vals"
  by (metis (no_types, lifting) notes_total_mset notes_total_def wallet_total_def map_map map_snd_enumerate)

lemma picks_pair:
  assumes "i < j" and "j < length xs"
  shows "picks xs [fst (xs ! i), fst (xs ! j)] (note_at xs i + note_at xs j)"
proof -
  have "xs ! i \<in> set (take (Suc i) xs)" using assms by (simp add: take_Suc_conv_app_nth)
  moreover have "xs ! j \<in> set (drop (Suc i) xs)"
    using assms by (auto simp: in_set_conv_nth intro!: exI [of _ "j - Suc i"])
  ultimately have "{#xs ! i#} + {#xs ! j#} \<subseteq># mset (take (Suc i) xs) + mset (drop (Suc i) xs)"
    by (intro mset_subset_eq_mono_add) simp_all
  also have "\<dots> = mset xs" by (simp flip: mset_append)
  finally have "mset [xs ! i, xs ! j] \<subseteq># mset xs" by (simp add: add_mset_commute)
  then show ?thesis unfolding picks_def
    by (intro exI [of _ "[xs ! i, xs ! j]"]) (simp add: note_at_def)
qed

lemma picks_one: "(i, x) \<in> set xs \<Longrightarrow> picks xs [i] (note_value x)"
  unfolding picks_def by (intro exI [of _ "[(i, x)]"]) simp

text \<open>The amount of a wallet entry.\<close>

abbreviation amount_of :: "note_amount list \<Rightarrow> nat \<Rightarrow> nat" where
  "amount_of vals i \<equiv> note_value (vals ! i)"

lemma wallet_entry:
  assumes "mset xs = mset (enumerate 0 vals)"
  shows "(i, x) \<in> set xs \<longleftrightarrow> i < length vals \<and> x = vals ! i"
  using assms by (metis enumerate_mem set_mset_mset)

lemma wallet_pair:
  assumes m: "mset xs = mset (enumerate 0 vals)" and "a < length vals" "b < length vals" "a \<noteq> b"
  shows "\<exists>i j. i < j \<and> j < length xs \<and> note_at xs i + note_at xs j = amount_of vals a + amount_of vals b"
proof -
  have "(a, vals ! a) \<in> set xs" "(b, vals ! b) \<in> set xs" using assms by (simp_all add: wallet_entry)
  then obtain p q where "p < length xs" "q < length xs" "xs ! p = (a, vals ! a)" "xs ! q = (b, vals ! b)"
    by (auto simp: in_set_conv_nth)
  moreover from this assms(4) have "p \<noteq> q" by auto
  ultimately show ?thesis
    by (cases "p < q")
      (force simp: note_at_def intro: exI [of _ p, OF exI [of _ q]] exI [of _ q, OF exI [of _ p]])+
qed

text \<open>Every single note and every pair of notes stays below the goal.\<close>

definition pairs_below :: "note_amount list \<Rightarrow> note_amount \<Rightarrow> bool" where
  "pairs_below vals goal \<longleftrightarrow>
    (\<forall>i < length vals. amount_of vals i < note_value goal) \<and>
    (\<forall>i < length vals. \<forall>j < length vals. i \<noteq> j \<longrightarrow> amount_of vals i + amount_of vals j < note_value goal)"

text \<open>What each answer of \<open>find_combination\<close> means for the wallet.\<close>

fun combination_spec :: "note_amount list \<Rightarrow> note_amount \<Rightarrow> combination_result \<Rightarrow> bool" where
  "combination_spec vals goal (TwoExact i j) \<longleftrightarrow> selection vals [i, j] (note_value goal)"
| "combination_spec vals goal (OneExact i) \<longleftrightarrow>
    selection vals [i] (note_value goal) \<and>
    (\<forall>a b. selection vals [a, b] (amount_of vals a + amount_of vals b) \<longrightarrow>
      amount_of vals a + amount_of vals b \<noteq> note_value goal)"
| "combination_spec vals goal (TwoOvershoot i j e) \<longleftrightarrow>
    selection vals [i, j] (note_value goal + note_value e) \<and> 0 < note_value e \<and>
    (\<forall>a < length vals. amount_of vals a \<noteq> note_value goal) \<and>
    (\<forall>a b t. selection vals [a, b] t \<longrightarrow> t < note_value goal \<or> note_value goal + note_value e \<le> t)"
| "combination_spec vals goal (OneOvershoot i e) \<longleftrightarrow>
    length vals = 1 \<and> selection vals [i] (note_value goal + note_value e) \<and> 0 < note_value e"
| "combination_spec vals goal (ExactK is) \<longleftrightarrow>
    selection vals is (note_value goal) \<and> 3 \<le> length is \<and> pairs_below vals goal"
| "combination_spec vals goal (Overshoot is e) \<longleftrightarrow>
    selection vals is (note_value goal + note_value e) \<and> 3 \<le> length is \<and> pairs_below vals goal"
| "combination_spec vals goal Impossible \<longleftrightarrow> vals = [] \<or> wallet_total vals < note_value goal"

lemma selection_pair:
  "selection vals [a, b] t \<longleftrightarrow>
    a \<noteq> b \<and> a < length vals \<and> b < length vals \<and> t = amount_of vals a + amount_of vals b"
  by (auto simp: selection_def)

lemma selection_at_least_three:
  assumes "selection vals is t" and "note_value goal \<le> t" and "pairs_below vals goal" and "vals \<noteq> []"
  shows "3 \<le> length is"
proof (rule ccontr)
  assume "\<not> 3 \<le> length is"
  then consider "is = []" | a where "is = [a]" | a b where "is = [a, b]"
    by (cases "is"; cases "tl is"; cases "tl (tl is)") auto
  then show False
  proof cases
    case 1
    with assms have "note_value goal = 0" by (simp add: selection_def)
    with assms(3,4) show False by (auto simp: pairs_below_def)
  next
    case (2 a)
    with assms have "amount_of vals a < note_value goal" "note_value goal \<le> amount_of vals a"
      by (simp_all add: selection_def pairs_below_def)
    then show False by simp
  next
    case (3 a b)
    with assms have "amount_of vals a + amount_of vals b < note_value goal"
      by (simp add: selection_def pairs_below_def)
    with 3 assms(1,2) show False by (simp add: selection_def)
  qed
qed

lemma selection_total: "selection vals is t \<Longrightarrow> t \<le> wallet_total vals"
proof -
  assume s: "selection vals is t"
  have "t = sum (amount_of vals) (set is)"
    using s by (simp add: selection_def sum_list_distinct_conv_sum_set)
  also have "\<dots> \<le> sum (amount_of vals) {0..<length vals}"
    using s by (intro sum_mono2) (auto simp: selection_def)
  also have "\<dots> = wallet_total vals" by (simp add: wallet_total_def sum_list_sum_nth)
  finally show ?thesis .
qed

text \<open>The sorted wallet of a run.\<close>

lemma sorted_wallet:
  assumes "unstable_sort_ok srt"
  shows "mset (srt (enumerate 0 vals)) = mset (enumerate 0 vals)"
    and "sorted (map snd (srt (enumerate 0 vals)))"
    and "length (srt (enumerate 0 vals)) = length vals"
  using assms mset_eq_length [of "srt (enumerate 0 vals)" "enumerate 0 vals"]
  by (auto simp: unstable_sort_ok_def)

lemma wallet_Ball:
  assumes "mset xs = mset (enumerate 0 vals)"
  shows "(\<forall>(j, y) \<in> set xs. Q y) \<longleftrightarrow> (\<forall>a < length vals. Q (vals ! a))"
proof -
  have "(\<forall>(j, y) \<in> set xs. Q y) \<longleftrightarrow> (\<forall>j y. (j, y) \<in> set xs \<longrightarrow> Q y)" by auto
  then show ?thesis by (simp add: wallet_entry [OF assms])
qed

lemma pairs_below_of_scans:
  assumes m: "mset xs = mset (enumerate 0 vals)"
    and "two_scan_spec xs goal TwoScan_Miss" and "\<forall>(j, y) \<in> set xs. note_value y < note_value goal"
  shows "pairs_below vals goal"
proof -
  have "\<forall>i < length vals. amount_of vals i < note_value goal"
    using assms(3) by (simp only: wallet_Ball [OF m])
  moreover have "amount_of vals i + amount_of vals j < note_value goal"
    if "i < length vals" "j < length vals" "i \<noteq> j" for i j
    using wallet_pair [OF m that] assms(2) by (auto simp: best_covers_def) metis
  ultimately show ?thesis by (simp add: pairs_below_def)
qed

lemma two_exact_selection:
  assumes m: "mset xs = mset (enumerate 0 vals)" and "two_scan_spec xs goal (TwoScan_Exact a b)"
  shows "selection vals [a, b] (note_value goal)"
  using assms(2) picks_selection [OF picks_pair m] by fastforce

lemma two_overshoot_selection:
  assumes m: "mset xs = mset (enumerate 0 vals)" and spec: "two_scan_spec xs goal (TwoScan_Overshoot a b e)"
  shows "selection vals [a, b] (note_value goal + note_value e)" and "0 < note_value e"
    and "selection vals [c, d] t \<Longrightarrow> t < note_value goal \<or> note_value goal + note_value e \<le> t"
proof -
  from spec obtain i j where "i < j" "j < length xs" "a = fst (xs ! i)" "b = fst (xs ! j)"
    "note_at xs i + note_at xs j = note_value goal + note_value e" and pos: "0 < note_value e"
    by (auto simp: best_valid_def)
  then show "selection vals [a, b] (note_value goal + note_value e)"
    using picks_selection [OF picks_pair m, of i j] by simp
  show "0 < note_value e" by (rule pos)
  show "t < note_value goal \<or> note_value goal + note_value e \<le> t" if "selection vals [c, d] t"
    using that wallet_pair [OF m, of c d] spec by (auto simp: selection_pair best_covers_def) metis
qed

lemma one_overshoot_alone:
  assumes m: "mset xs = mset (enumerate 0 vals)" and miss: "two_scan_spec xs goal TwoScan_Miss"
    and "(i, x) \<in> set xs" and "note_value goal \<le> note_value x"
  shows "length vals = 1"
proof (rule ccontr)
  assume "length vals \<noteq> 1"
  moreover have i: "i < length vals" "x = vals ! i" using wallet_entry [OF m] assms(3) by simp_all
  ultimately obtain j where "j < length vals" "i \<noteq> j"
    by (metis One_nat_def less_one linorder_neqE_nat not_less0 zero_neq_one less_Suc_eq_0_disj nat_neq_iff)
  then obtain p q where "p < q" "q < length xs" "note_at xs p + note_at xs q = note_value x + amount_of vals j"
    using wallet_pair [OF m, of i j] i by auto
  with miss assms(4) show False by (fastforce simp: best_covers_def)
qed

text \<open>The outcome of \<open>find_combination\<close> after each result of the scan over pairs.\<close>

lemma find_combination_two_overshoot:
  assumes m: "mset xs = mset (enumerate 0 vals)" and s: "sorted (map snd xs)"
    and xs: "xs = srt (enumerate 0 vals)" and ne: "vals \<noteq> []"
    and two: "TwoScan_scan xs goal = Inr (TwoScan_Overshoot i j e)"
      "two_scan_spec xs goal (TwoScan_Overshoot i j e)"
  shows "scan_ok (combination_spec vals goal) ov (find_combination srt vals goal)"
proof -
  note unf = find_combination_def [of srt vals goal, folded xs]
  note one = OneScan_scan_spec [OF s, of goal]
  note over = two_overshoot_selection [OF m two(2)]
  have noexact: "amount_of vals a + amount_of vals b \<noteq> note_value goal"
    if "selection vals [a, b] (amount_of vals a + amount_of vals b)" for a b
    using over(2) over(3) [OF that] by linarith
  show ?thesis
  proof (cases "OneScan_scan xs goal")
    case (OneScan_Exact k)
    then obtain x where x: "(k, x) \<in> set xs" "note_value x = note_value goal" using one by auto
    from picks_selection [OF picks_one [OF x(1)] m] x(2) OneScan_Exact two(1) unf ne noexact
    show ?thesis by (simp add: scan_ok_def)
  next
    case (OneScan_Overshoot k d)
    then have "\<forall>a < length vals. amount_of vals a \<noteq> note_value goal"
      using one by (simp add: wallet_Ball [OF m])
    with OneScan_Overshoot two(1) unf ne over show ?thesis by (simp add: scan_ok_def)
  next
    case OneScan_Miss
    then have "\<forall>a < length vals. amount_of vals a < note_value goal"
      using one by (simp add: wallet_Ball [OF m])
    then have "\<forall>a < length vals. amount_of vals a \<noteq> note_value goal" by (metis less_irrefl)
    with OneScan_Miss two(1) unf ne over show ?thesis by (simp add: scan_ok_def)
  qed
qed

lemma find_combination_two_miss:
  assumes m: "mset xs = mset (enumerate 0 vals)" and s: "sorted (map snd xs)"
    and xs: "xs = srt (enumerate 0 vals)" and ne: "vals \<noteq> []" and len: "length xs < 2 ^ 32"
    and two: "TwoScan_scan xs goal = Inr TwoScan_Miss" "two_scan_spec xs goal TwoScan_Miss"
  shows "scan_ok (combination_spec vals goal) (2 ^ 128 \<le> wallet_total vals) (find_combination srt vals goal)"
proof -
  note unf = find_combination_def [of srt vals goal, folded xs]
  note one = OneScan_scan_spec [OF s, of goal]
  have noexact: "amount_of vals a + amount_of vals b \<noteq> note_value goal"
    if "selection vals [a, b] (amount_of vals a + amount_of vals b)" for a b
    using that wallet_pair [OF m, of a b] two(2) by (fastforce simp: selection_pair best_covers_def)
  have single: "selection vals [i] t" if "(i, x) \<in> set xs" "note_value x = t" for i x t
    using picks_selection [OF picks_one [OF that(1)] m] that(2) by simp
  show ?thesis
  proof (cases "OneScan_scan xs goal")
    case (OneScan_Exact k)
    then obtain x where "(k, x) \<in> set xs" "note_value x = note_value goal" using one by auto
    with single OneScan_Exact two(1) unf ne noexact show ?thesis by (simp add: scan_ok_def)
  next
    case (OneScan_Overshoot k d)
    then obtain x where x: "(k, x) \<in> set xs" "note_value x = note_value goal + note_value d" "0 < note_value d"
      using one by auto
    with one_overshoot_alone [OF m two(2) x(1)] single OneScan_Overshoot two(1) unf ne
    show ?thesis by (simp add: scan_ok_def)
  next
    case OneScan_Miss
    then have below: "pairs_below vals goal" using one pairs_below_of_scans [OF m two(2)] by simp
    have three: "3 \<le> length is" if "selection vals is (note_value goal + t)" for "is" t
      using selection_at_least_three [OF that _ below ne] by simp
    have "find_combination srt vals goal = let_ok (KScan_scan xs goal) (\<lambda>k. Inr (case k of
        KScan_Exact indices \<Rightarrow> ExactK indices
      | KScan_Overshoot indices excess \<Rightarrow> Overshoot indices excess | KScan_Miss \<Rightarrow> Impossible))"
      using OneScan_Miss two(1) unf ne by simp
    moreover have "scan_ok (k_scan_spec xs goal) (2 ^ 128 \<le> notes_total xs) (KScan_scan xs goal)"
      using KScan_scan_ok len by simp
    moreover have "xs \<noteq> []" using mset_eq_length [OF m] ne by auto
    ultimately show ?thesis
      using picks_selection [OF _ m] three [of _ 0] three below notes_total_enumerate [OF m]
      by (auto simp: scan_ok_def split: k_scan.splits)
  qed
qed

lemma find_combination_ok:
  assumes "unstable_sort_ok srt" and "length vals < 2 ^ 32"
  shows "scan_ok (combination_spec vals goal) (2 ^ 128 \<le> wallet_total vals) (find_combination srt vals goal)"
proof (cases "vals = []")
  case True
  then show ?thesis by (simp add: find_combination_def scan_ok_def)
next
  case False
  define xs where "xs = srt (enumerate 0 vals)"
  have m: "mset xs = mset (enumerate 0 vals)" and s: "sorted (map snd xs)" and len: "length xs = length vals"
    using sorted_wallet [OF assms(1)] by (simp_all add: xs_def)
  from TwoScan_scan_spec [OF s, of goal] assms(2) len consider
    (overflow) i j where "i < j" "j < length xs" "2 ^ 128 \<le> note_at xs i + note_at xs j"
      "TwoScan_scan xs goal = Inl (Err InputAmountOverflow)"
    | (two) r where "TwoScan_scan xs goal = Inr r" "two_scan_spec xs goal r" by auto
  then show ?thesis
  proof cases
    case overflow
    then have "2 ^ 128 \<le> wallet_total vals"
      using picks_total [OF picks_pair [OF overflow(1,2)]] notes_total_enumerate [OF m] by linarith
    with overflow(4) False show ?thesis by (simp add: find_combination_def xs_def scan_ok_def)
  next
    case (two r)
    then show ?thesis
    proof (cases r)
      case (TwoScan_Exact i j)
      with two two_exact_selection [OF m] False show ?thesis
        by (simp add: find_combination_def xs_def scan_ok_def)
    next
      case (TwoScan_Overshoot i j e)
      with find_combination_two_overshoot [where srt = srt, OF m s xs_def False] two show ?thesis by blast
    next
      case TwoScan_Miss
      with find_combination_two_miss [where srt = srt, OF m s xs_def False] two len assms(2) show ?thesis by simp
    qed
  qed
qed

section \<open>Samples\<close>

lemma sort_key_ok: "unstable_sort_ok (sort_key snd)"
  by (simp add: unstable_sort_ok_def)

lemmas note_eval =
  nat_checked_sub_def nat_checked_add_def vec_get_def note_checked_add_def note_checked_sub_def
  checked_add_def checked_sub_def note_is_zero_def less_note_amount_def less_eq_note_amount_def
  NOTE_ZERO_def

definition sample_notes :: "note_amount list" where
  "sample_notes = [NoteAmount 4, NoteAmount 3, NoteAmount 6]"

lemma sample_sorted:
  "sort_key snd (enumerate 0 sample_notes) = [(1, NoteAmount 3), (0, NoteAmount 4), (2, NoteAmount 6)]"
  by (simp add: sample_notes_def less_eq_note_amount_def)

lemma sample_selection: "find_combination (sort_key snd) sample_notes (NoteAmount 10) = Inr (TwoExact 0 2)"
  unfolding find_combination_def sample_sorted
  by (simp add: sample_notes_def TwoScan_scan_def two_scan_loop.simps note_eval)

section \<open>Properties\<close>

text \<open>
  C16: Coin selection answers as its tiers promise, for every order the unstable sort may give to equal
  amounts. A reported selection consists of distinct notes of the wallet that add up to the goal, or
  to the goal plus the reported excess; a pair that hits the goal is taken whenever there is one; a
  single exact note only if no pair is exact; an overshooting pair has the smallest excess of all
  pairs and is taken only if no pair and no single note is exact; a single overshooting note only
  from a wallet of one note; three or more notes only if no one or two notes reach the goal; and
  \<open>Impossible\<close> only if the whole wallet stays below the goal.
\<close>

theorem coin_selection_correct:
  assumes "unstable_sort_ok srt" and "length vals < 2 ^ 32"
    and "find_combination srt vals goal = Inr r"
  shows "combination_spec vals goal r"
  using find_combination_ok [OF assms(1,2), of goal] assms(3) by (auto simp: scan_ok_def)

lemma coin_selection_correct_witness:
  "combination_spec sample_notes (NoteAmount 10) (TwoExact 0 2) \<and>
    selection sample_notes [0, 2] 10"
proof -
  have "combination_spec sample_notes (NoteAmount 10) (TwoExact 0 2)"
    by (rule coin_selection_correct [OF sort_key_ok _ sample_selection]) (simp add: sample_notes_def)
  then show ?thesis by simp
qed

text \<open>
  Coin selection always terminates with an answer if the wallet's total fits in 128 bits, and then
  answers \<open>Impossible\<close> exactly for an empty wallet or a total below the goal. The only error there
  is, for any wallet, is the overflow of a sum of note amounts: none of the internal errors of the
  code and no panic can occur.
\<close>

theorem coin_selection_total:
  assumes "unstable_sort_ok srt" and "length vals < 2 ^ 32"
  shows "(wallet_total vals < 2 ^ 128 \<longrightarrow>
      (\<exists>r. find_combination srt vals goal = Inr r \<and>
        (r = Impossible \<longleftrightarrow> vals = [] \<or> wallet_total vals < note_value goal))) \<and>
    (\<forall>f. find_combination srt vals goal = Inl f \<longrightarrow>
      f = Err InputAmountOverflow \<and> 2 ^ 128 \<le> wallet_total vals)"
proof -
  have "(r = Impossible \<longleftrightarrow> vals = [] \<or> wallet_total vals < note_value goal)"
    if "combination_spec vals goal r" for r
  proof (cases "vals = []")
    case True
    with that show ?thesis
      by (cases r) (auto simp: selection_def dest: not_less_eq_eq [THEN iffD1])
  next
    case False
    with that selection_total [of vals _ "note_value goal"]
      selection_total [of vals _ "note_value goal + note_value _"]
    show ?thesis by (cases r) (auto dest!: selection_total)
  qed
  then show ?thesis
    using find_combination_ok [OF assms, of goal] by (auto simp: scan_ok_def)
qed

lemma coin_selection_total_witness:
  "\<exists>r. find_combination (sort_key snd) sample_notes (NoteAmount 12) = Inr r \<and> r \<noteq> Impossible"
proof -
  have "length sample_notes < 2 ^ 32" "wallet_total sample_notes = 13" "sample_notes \<noteq> []"
    by (simp_all add: sample_notes_def wallet_total_def)
  with coin_selection_total [OF sort_key_ok, of sample_notes "NoteAmount 12"] show ?thesis by auto
qed

text \<open>
  The search over three and more notes stops at the first size with an overshoot: for the notes 4, 4,
  3, 1 and 1 and the goal 10 it selects 4, 4 and 3, although 4, 4, 1 and 1 are exact.
\<close>

definition sample_five :: "note_amount list" where
  "sample_five = map NoteAmount [4, 4, 3, 1, 1]"

lemma overshoot_before_larger_exact:
  "find_combination (sort_key snd) sample_five (NoteAmount 10) = Inr (Overshoot [1, 0, 2] (NoteAmount 1)) \<and>
    selection sample_five [0, 1, 3, 4] 10"
proof
  have "sort_key snd (enumerate 0 sample_five) =
      [(3, NoteAmount 1), (4, NoteAmount 1), (2, NoteAmount 3), (0, NoteAmount 4), (1, NoteAmount 4)]"
    by (simp add: sample_five_def less_eq_note_amount_def word_le_nat_alt)
  note s = this
  show "find_combination (sort_key snd) sample_five (NoteAmount 10) = Inr (Overshoot [1, 0, 2] (NoteAmount 1))"
    unfolding find_combination_def s
    by (simp add: sample_five_def TwoScan_scan_def two_scan_loop.simps note_eval KScan_scan_def dfs.simps
        i32_checked_sub_def in_signed_range_def TRANSACTION_LIMIT_def upt_rec word_le_nat_alt)
  show "selection sample_five [0, 1, 3, 4] 10"
    by (simp add: selection_def sample_five_def)
qed

end
