(* ===== verification/Tx_Plan.thy ===== *)
theory Tx_Plan
  imports Coin_Selection
begin

text \<open>
  The transaction plan (\<open>tx-planner/src/plan/mod.rs\<close>): the selected notes are merged pairwise, each
  merge one on-chain transaction with two inputs, and the last transaction pays the amount and returns
  the change. An index out of range and a failed \<open>expect\<close> are traps.
\<close>

section \<open>Data\<close>

record spendable_note =
  sn_commitment :: field
  sn_amount :: note_amount

text \<open>An input of a step; a note that does not exist yet at planning time has no commitment.\<close>

record step_note =
  sp_commitment :: "field option"
  sp_amount :: note_amount

datatype step_action =
    Consolidate note_amount
  | Final note_amount "note_amount option"

record planned_step =
  step_inputs :: "step_note \<times> step_note option"
  step_act :: step_action

record transaction_plan =
  plan_steps :: "planned_step list"

definition from_spendable :: "spendable_note \<Rightarrow> step_note" where
  "from_spendable n = \<lparr>sp_commitment = Some (sn_commitment n), sp_amount = sn_amount n\<rparr>"

definition from_amount :: "note_amount \<Rightarrow> step_note" where
  "from_amount a = \<lparr>sp_commitment = None, sp_amount = a\<rparr>"

section \<open>Plans\<close>

definition plan_len :: "transaction_plan \<Rightarrow> nat" where
  "plan_len p = length (plan_steps p)"

definition plan_is_empty :: "transaction_plan \<Rightarrow> bool" where
  "plan_is_empty p \<longleftrightarrow> plan_steps p = []"

definition assemble :: "planned_step list \<Rightarrow> transaction_plan option" where
  "assemble steps =
    (if steps = [] then None
     else case step_act (last steps) of
       Final _ _ \<Rightarrow> Some \<lparr>plan_steps = steps\<rparr>
     | _ \<Rightarrow> None)"

definition final_step :: "transaction_plan \<Rightarrow> planned_step option" where
  "final_step p = (if plan_steps p = [] then None else Some (last (plan_steps p)))"

definition combination_notes :: "combination_result \<Rightarrow> (nat list \<times> note_amount option) option" where
  "combination_notes combo =
    (case combo of
       Impossible \<Rightarrow> None
     | OneExact i \<Rightarrow> Some ([i], None)
     | TwoExact i j \<Rightarrow> Some ([i, j], None)
     | OneOvershoot i excess \<Rightarrow> Some ([i], Some excess)
     | TwoOvershoot i j excess \<Rightarrow> Some ([i, j], Some excess)
     | ExactK indices \<Rightarrow> Some (indices, None)
     | Overshoot indices excess \<Rightarrow> Some (indices, Some excess))"

fun merge_loop ::
  "spendable_note list \<Rightarrow> nat list \<Rightarrow> note_amount \<Rightarrow> step_note \<Rightarrow> planned_step list \<Rightarrow>
    (plan_error, planned_step list) outcome" where
  "merge_loop notes [] tot prev_note steps = Inr steps"
| "merge_loop notes (index # rest) tot prev_note steps =
    let_ok (or_trap (vec_get notes index)) (\<lambda>n.
    let current_note = from_spendable n in
    let_ok (ok_or (note_checked_add tot (sp_amount current_note)) (Err InputAmountOverflow)) (\<lambda>next_sum.
    merge_loop notes rest next_sum (from_amount next_sum)
      (steps @ [\<lparr>step_inputs = (prev_note, Some current_note), step_act = Consolidate next_sum\<rparr>])))"

definition set_last_final :: "note_amount \<Rightarrow> note_amount option \<Rightarrow> planned_step list \<Rightarrow> planned_step list" where
  "set_last_final amount change steps =
    (if steps = [] then [] else butlast steps @ [(last steps)\<lparr>step_act := Final amount change\<rparr>])"

definition plan_of_selection ::
  "note_amount \<Rightarrow> spendable_note list \<Rightarrow> nat list \<Rightarrow> note_amount option \<Rightarrow>
    (plan_error, transaction_plan) outcome" where
  "plan_of_selection amount notes indices change =
    (if length indices > TRANSACTION_LIMIT then Inl (Err (TooManyNotes (length indices) TRANSACTION_LIMIT))
     else case find (\<lambda>i. i \<ge> length notes) indices of
       Some index \<Rightarrow> Inl (Err (NoteIndexOutOfRange index))
     | None \<Rightarrow>
       let_ok (or_trap (vec_get indices 0)) (\<lambda>i0.
       let_ok (or_trap (vec_get notes i0)) (\<lambda>n0.
       let note0 = from_spendable n0 in
       let_ok
         (if length indices = 1 then
            Inr [\<lparr>step_inputs = (note0, None), step_act = Final amount change\<rparr>]
          else
            let_ok (merge_loop notes (drop 1 indices) (sp_amount note0) note0 []) (\<lambda>steps.
            Inr (set_last_final amount change steps)))
         (\<lambda>steps. ok_or (assemble steps) (Err InvalidPlan)))))"

definition plan ::
  "(indexed_notes \<Rightarrow> indexed_notes) \<Rightarrow> note_amount \<Rightarrow> spendable_note list \<Rightarrow>
    (plan_error, transaction_plan) outcome" where
  "plan srt amount notes =
    (if notes = [] then Inl (Err NoSpendableNotes)
     else
       let_ok (find_combination srt (map sn_amount notes) amount) (\<lambda>combo.
       case combination_notes combo of
         None \<Rightarrow> Inl (Err NoCombination)
       | Some (indices, change) \<Rightarrow> plan_of_selection amount notes indices change))"

section \<open>Resolving the inputs of a step\<close>

definition resolve_input_note ::
  "step_note \<Rightarrow> spendable_note list \<Rightarrow> step_note option \<Rightarrow> (plan_error, spendable_note) outcome" where
  "resolve_input_note inp notes sibling =
    (case sp_commitment inp of
       Some commitment \<Rightarrow>
         let_ok (ok_or (find (\<lambda>n. sn_commitment n = commitment) notes) (Err (CommitmentNotFound commitment)))
           (\<lambda>n. if sn_amount n \<noteq> sp_amount inp
                then Inl (Err (NoteAmountMismatch commitment (sn_amount n) (sp_amount inp)))
                else Inr n)
     | None \<Rightarrow>
         (let excluded = Option.bind sibling sp_commitment;
              matches = filter (\<lambda>n. excluded \<noteq> Some (sn_commitment n))
                (filter (\<lambda>n. sn_amount n = sp_amount inp) notes) in
          case matches of
            [] \<Rightarrow> Inl (Err (NoNoteForAmount (sp_amount inp)))
          | [n] \<Rightarrow> Inr n
          | _ \<Rightarrow> Inl (Err (AmbiguousNoteForAmount (sp_amount inp)))))"

definition resolve :: "planned_step \<Rightarrow> spendable_note list \<Rightarrow> (plan_error, spendable_note list) outcome" where
  "resolve step notes =
    let_ok (resolve_input_note (fst (step_inputs step)) notes (snd (step_inputs step))) (\<lambda>first.
    case snd (step_inputs step) of
      None \<Rightarrow> Inr [first]
    | Some second_inp \<Rightarrow>
        let_ok (resolve_input_note second_inp notes (Some (fst (step_inputs step)))) (\<lambda>second.
        Inr [first, second]))"

section \<open>The shape of a plan\<close>

text \<open>The merges that the plan consists of, without the checks of the code.\<close>

fun merge_steps :: "spendable_note list \<Rightarrow> step_note \<Rightarrow> nat list \<Rightarrow> planned_step list" where
  "merge_steps notes prev [] = []"
| "merge_steps notes prev (i # is) =
    (let cur = from_spendable (notes ! i);
         tot = NoteAmount (of_nat (note_value (sp_amount prev) + note_value (sp_amount cur))) in
     \<lparr>step_inputs = (prev, Some cur), step_act = Consolidate tot\<rparr> # merge_steps notes (from_amount tot) is)"

definition step_in :: "planned_step \<Rightarrow> nat" where
  "step_in s = note_value (sp_amount (fst (step_inputs s))) +
    (case snd (step_inputs s) of None \<Rightarrow> 0 | Some n \<Rightarrow> note_value (sp_amount n))"

definition change_value :: "note_amount option \<Rightarrow> nat" where
  "change_value c = (case c of None \<Rightarrow> 0 | Some a \<Rightarrow> note_value a)"

definition step_out :: "planned_step \<Rightarrow> nat" where
  "step_out s = (case step_act s of Consolidate a \<Rightarrow> note_value a | Final a c \<Rightarrow> note_value a + change_value c)"

text \<open>The commitments of the wallet notes that a step spends.\<close>

definition spent_commitments :: "planned_step \<Rightarrow> field list" where
  "spent_commitments s =
    (case sp_commitment (fst (step_inputs s)) of None \<Rightarrow> [] | Some c \<Rightarrow> [c]) @
    (case snd (step_inputs s) of None \<Rightarrow> [] | Some n \<Rightarrow>
      (case sp_commitment n of None \<Rightarrow> [] | Some c \<Rightarrow> [c]))"

text \<open>The first input of a step is the output of the step before it.\<close>

definition feeds :: "planned_step \<Rightarrow> planned_step \<Rightarrow> bool" where
  "feeds s s' \<longleftrightarrow> (\<exists>a. step_act s = Consolidate a \<and> fst (step_inputs s') = from_amount a)"

definition notes_sum :: "spendable_note list \<Rightarrow> nat list \<Rightarrow> nat" where
  "notes_sum notes is = sum_list (map (\<lambda>i. note_value (sn_amount (notes ! i))) is)"

lemma notes_sum_simps [simp]:
  "notes_sum notes [] = 0"
  "notes_sum notes (i # is) = note_value (sn_amount (notes ! i)) + notes_sum notes is"
  by (simp_all add: notes_sum_def)

lemma from_simps [simp]:
  "sp_amount (from_spendable n) = sn_amount n" "sp_commitment (from_spendable n) = Some (sn_commitment n)"
  "sp_amount (from_amount a) = a" "sp_commitment (from_amount a) = None"
  by (simp_all add: from_spendable_def from_amount_def)

lemma note_of_nat: "n < 2 ^ 128 \<Longrightarrow> note_value (NoteAmount (of_nat n)) = n"
  by (simp add: unat_of_nat)

lemma note_checked_add_fits:
  "note_value a + note_value b < 2 ^ 128 \<Longrightarrow>
    note_checked_add a b = Some (NoteAmount (of_nat (note_value a + note_value b)))"
  using note_of_nat by (simp only: note_checked_add_iff)

lemma merge_loop_steps:
  assumes "\<forall>i \<in> set is. i < length notes"
  shows "merge_loop notes is (sp_amount prev) prev acc =
    (if note_value (sp_amount prev) + notes_sum notes is < 2 ^ 128
     then Inr (acc @ merge_steps notes prev is) else Inl (Err InputAmountOverflow))"
  using assms
proof (induction "is" arbitrary: prev acc)
  case Nil
  then show ?case using note_value_less [of "sp_amount prev"] by simp
next
  case (Cons i "is")
  let ?s = "note_value (sp_amount prev) + note_value (sn_amount (notes ! i))"
  show ?case
  proof (cases "?s < 2 ^ 128")
    case True
    with Cons note_checked_add_fits [OF True] note_of_nat [OF True] show ?thesis
      using Cons.IH [of "from_amount (NoteAmount (of_nat ?s))"] by (simp add: Let_def add.assoc)
  next
    case False
    then have "note_checked_add (sp_amount prev) (sn_amount (notes ! i)) = None"
      by (simp only: note_checked_add_None not_less)
    with False Cons.prems show ?thesis by (simp add: Let_def)
  qed
qed

lemma merge_steps_length [simp]: "length (merge_steps notes prev is) = length is"
  by (induction "is" arbitrary: prev) (simp_all add: Let_def)

lemma merge_steps_balance:
  assumes "note_value (sp_amount prev) + notes_sum notes is < 2 ^ 128"
  shows "(\<forall>s \<in> set (merge_steps notes prev is). step_in s = step_out s) \<and>
    (is \<noteq> [] \<longrightarrow> step_in (last (merge_steps notes prev is)) = note_value (sp_amount prev) + notes_sum notes is)"
  using assms
proof (induction "is" arbitrary: prev)
  case (Cons i "is")
  let ?s = "note_value (sp_amount prev) + note_value (sn_amount (notes ! i))"
  have fit: "?s < 2 ^ 128" using Cons.prems by simp
  note v = note_of_nat [OF fit]
  show ?case
    using Cons.IH [of "from_amount (NoteAmount (of_nat ?s))"] Cons.prems v
    by (cases "is") (simp_all add: Let_def step_in_def step_out_def add.assoc)
qed simp

lemma merge_steps_chain:
  "successively feeds (merge_steps notes prev is) \<and>
    (is \<noteq> [] \<longrightarrow> fst (step_inputs (hd (merge_steps notes prev is))) = prev)"
proof (induction "is" arbitrary: prev)
  case (Cons i "is")
  show ?case
    using Cons.IH [of "from_amount (NoteAmount (of_nat
      (note_value (sp_amount prev) + note_value (sn_amount (notes ! i)))))"]
    by (cases "is") (simp_all add: Let_def feeds_def)
qed simp

lemma merge_steps_spent_synthetic:
  "concat (map spent_commitments (merge_steps notes (from_amount a) is)) = map (\<lambda>i. sn_commitment (notes ! i)) is"
  by (induction "is" arbitrary: a) (simp_all add: Let_def, simp add: spent_commitments_def)

lemma merge_steps_spent:
  "is \<noteq> [] \<Longrightarrow> concat (map spent_commitments (merge_steps notes prev is)) =
    (case sp_commitment prev of None \<Rightarrow> [] | Some c \<Rightarrow> [c]) @ map (\<lambda>i. sn_commitment (notes ! i)) is"
  by (cases "is") (simp_all add: Let_def merge_steps_spent_synthetic, simp add: spent_commitments_def)

lemma set_last_final_facts:
  assumes "steps \<noteq> []"
  shows "length (set_last_final amount change steps) = length steps"
    and "map spent_commitments (set_last_final amount change steps) = map spent_commitments steps"
    and "successively feeds steps \<Longrightarrow> successively feeds (set_last_final amount change steps)"
    and "\<forall>s \<in> set steps. step_in s = step_out s \<Longrightarrow>
      step_in (last steps) = note_value amount + change_value change \<Longrightarrow>
      \<forall>s \<in> set (set_last_final amount change steps). step_in s = step_out s"
    and "assemble (set_last_final amount change steps) = Some \<lparr>plan_steps = set_last_final amount change steps\<rparr>"
    and "step_act (last (set_last_final amount change steps)) = Final amount change"
    and "set_last_final amount change steps \<noteq> []"
proof -
  obtain ss s where st: "steps = ss @ [s]" using assms by (cases steps rule: rev_cases) auto
  note d = set_last_final_def st
  show "length (set_last_final amount change steps) = length steps" by (simp add: d)
  show "map spent_commitments (set_last_final amount change steps) = map spent_commitments steps"
    by (simp add: d spent_commitments_def)
  show "successively feeds (set_last_final amount change steps)" if "successively feeds steps"
    using that by (auto simp: d successively_append_iff feeds_def)
  show "\<forall>s \<in> set (set_last_final amount change steps). step_in s = step_out s"
    if "\<forall>s \<in> set steps. step_in s = step_out s" "step_in (last steps) = note_value amount + change_value change"
    using that by (auto simp: d step_in_def step_out_def)
  show "assemble (set_last_final amount change steps) = Some \<lparr>plan_steps = set_last_final amount change steps\<rparr>"
    by (simp add: d assemble_def)
  show "step_act (last (set_last_final amount change steps)) = Final amount change"
    and "set_last_final amount change steps \<noteq> []" by (simp_all add: d)
qed

text \<open>The steps of a plan for the selection \<open>is\<close>.\<close>

definition selection_steps ::
  "note_amount \<Rightarrow> spendable_note list \<Rightarrow> nat list \<Rightarrow> note_amount option \<Rightarrow> planned_step list" where
  "selection_steps amount notes is change =
    (if length is = 1
     then [\<lparr>step_inputs = (from_spendable (notes ! hd is), None), step_act = Final amount change\<rparr>]
     else set_last_final amount change (merge_steps notes (from_spendable (notes ! hd is)) (tl is)))"

lemma plan_of_selection_eq:
  assumes "is \<noteq> []" and "\<forall>i \<in> set is. i < length notes" and "length is \<le> TRANSACTION_LIMIT"
  shows "plan_of_selection amount notes is change =
    (if length is = 1 \<or> notes_sum notes is < 2 ^ 128
     then Inr \<lparr>plan_steps = selection_steps amount notes is change\<rparr>
     else Inl (Err InputAmountOverflow))"
proof -
  obtain i js where is_eq: "is = i # js" using assms(1) by (cases "is") auto
  have "find (\<lambda>i. i \<ge> length notes) is = None" using assms(2) by (auto simp: find_None_iff)
  moreover have "merge_loop notes js (sn_amount (notes ! i)) (from_spendable (notes ! i)) [] =
      (if notes_sum notes is < 2 ^ 128 then Inr (merge_steps notes (from_spendable (notes ! i)) js)
       else Inl (Err InputAmountOverflow))"
    using merge_loop_steps [of js "notes" "from_spendable (notes ! i)" "[]"] assms(2) is_eq by simp
  moreover have "merge_steps notes (from_spendable (notes ! i)) js \<noteq> []" if "js \<noteq> []"
    using that by (cases js) (simp_all add: Let_def)
  ultimately show ?thesis
    using assms is_eq set_last_final_facts(5)
    by (cases "js = []") (auto simp: plan_of_selection_def selection_steps_def vec_get_def assemble_def Let_def)
qed

text \<open>What makes a list of steps a plan for the selection \<open>is\<close>.\<close>

definition steps_for ::
  "note_amount \<Rightarrow> spendable_note list \<Rightarrow> nat list \<Rightarrow> note_amount option \<Rightarrow> planned_step list \<Rightarrow> bool" where
  "steps_for amount notes is change steps \<longleftrightarrow>
    length steps = max 1 (length is - 1) \<and> (\<forall>s \<in> set steps. step_in s = step_out s) \<and>
    successively feeds steps \<and>
    concat (map spent_commitments steps) = map (\<lambda>i. sn_commitment (notes ! i)) is \<and>
    step_act (last steps) = Final amount change"

lemma selection_steps_for:
  assumes "is \<noteq> []" and "length is = 1 \<or> notes_sum notes is < 2 ^ 128"
    and "notes_sum notes is = note_value amount + change_value change"
  shows "steps_for amount notes is change (selection_steps amount notes is change)"
proof -
  obtain i js where is_eq: "is = i # js" using assms(1) by (cases "is") auto
  show ?thesis
  proof (cases "js = []")
    case True
    with assms(3) is_eq show ?thesis
      by (simp add: steps_for_def selection_steps_def step_in_def step_out_def spent_commitments_def)
  next
    case False
    let ?m = "merge_steps notes (from_spendable (notes ! i)) js"
    have ne: "?m \<noteq> []" using False by (cases js) (simp_all add: Let_def)
    note f = set_last_final_facts [OF ne, of amount change]
    have st: "selection_steps amount notes is change = set_last_final amount change ?m"
      using False is_eq by (simp add: selection_steps_def)
    have b: "note_value (sp_amount (from_spendable (notes ! i))) + notes_sum notes js < 2 ^ 128"
      using assms(2) is_eq False by auto
    have "\<forall>s \<in> set (set_last_final amount change ?m). step_in s = step_out s"
      using merge_steps_balance [OF b] assms(3) is_eq False by (intro f(4)) auto
    moreover have "successively feeds (set_last_final amount change ?m)"
      using merge_steps_chain by (intro f(3)) blast
    moreover have "length (set_last_final amount change ?m) = max 1 (length is - 1)"
      using f(1) is_eq False by (cases "length js") simp_all
    ultimately show ?thesis unfolding steps_for_def st
      using merge_steps_spent [OF False, of "notes" "from_spendable (notes ! i)"] f(2,6) is_eq by simp
  qed
qed

lemma combination_notes_selection:
  assumes "combination_spec vals goal r" and "combination_notes r = Some (is, change)"
  shows "selection vals is (note_value goal + change_value change)" and "is \<noteq> []"
    and "3 \<le> length is \<Longrightarrow> pairs_below vals goal"
  using assms by (cases r; auto simp: combination_notes_def change_value_def)+

lemma combination_notes_None: "combination_notes r = None \<longleftrightarrow> r = Impossible"
  by (cases r) (simp_all add: combination_notes_def)

lemma selection_notes:
  "selection (map sn_amount notes) is t \<longleftrightarrow>
    distinct is \<and> (\<forall>i \<in> set is. i < length notes) \<and> t = notes_sum notes is"
  unfolding selection_def notes_sum_def by (auto intro!: arg_cong [of _ _ sum_list])

text \<open>The four ways in which planning can end.\<close>

lemma plan_cases:
  assumes "unstable_sort_ok srt" and "length notes < 2 ^ 32"
  obtains (empty) "notes = []" "plan srt amount notes = Inl (Err NoSpendableNotes)"
  | (overflow) "notes \<noteq> []" "2 ^ 128 \<le> wallet_total (map sn_amount notes)"
      "plan srt amount notes = Inl (Err InputAmountOverflow)"
  | (impossible) "notes \<noteq> []" "wallet_total (map sn_amount notes) < note_value amount"
      "plan srt amount notes = Inl (Err NoCombination)"
  | (selected) "is" change where "notes \<noteq> []" "is \<noteq> []"
      "selection (map sn_amount notes) is (note_value amount + change_value change)"
      "plan srt amount notes = plan_of_selection amount notes is change"
      "3 \<le> length is \<longrightarrow> pairs_below (map sn_amount notes) amount"
proof (cases "notes = []")
  case True
  then show ?thesis by (intro empty) (simp_all add: plan_def)
next
  case False
  let ?vals = "map sn_amount notes"
  from find_combination_ok [OF assms(1), of ?vals amount] assms(2) consider
    "find_combination srt ?vals amount = Inl (Err InputAmountOverflow)" "2 ^ 128 \<le> wallet_total ?vals"
    | r where "find_combination srt ?vals amount = Inr r" "combination_spec ?vals amount r"
    by (auto simp: scan_ok_def)
  then show ?thesis
  proof cases
    case 1
    with False show ?thesis by (intro overflow) (simp_all add: plan_def)
  next
    case (2 r)
    show ?thesis
    proof (cases "combination_notes r")
      case None
      then have "r = Impossible" by (simp only: combination_notes_None)
      with 2 None False show ?thesis by (intro impossible) (simp_all add: plan_def)
    next
      case (Some p)
      then obtain "is" change where p: "combination_notes r = Some (is, change)" by (cases p) auto
      with 2 False show ?thesis
        using selected [OF False combination_notes_selection(2,1) [OF 2(2) p]]
          combination_notes_selection(3) [OF 2(2) p] by (simp add: plan_def)
    qed
  qed
qed

lemma plan_selected:
  assumes "selection (map sn_amount notes) is (note_value amount + change_value change)" and "is \<noteq> []"
  shows "(length is > TRANSACTION_LIMIT \<and>
      plan_of_selection amount notes is change = Inl (Err (TooManyNotes (length is) TRANSACTION_LIMIT))) \<or>
    (length is \<le> TRANSACTION_LIMIT \<and> length is \<noteq> 1 \<and> 2 ^ 128 \<le> notes_sum notes is \<and>
      plan_of_selection amount notes is change = Inl (Err InputAmountOverflow)) \<or>
    (length is \<le> TRANSACTION_LIMIT \<and> (length is = 1 \<or> notes_sum notes is < 2 ^ 128) \<and>
      plan_of_selection amount notes is change = Inr \<lparr>plan_steps = selection_steps amount notes is change\<rparr> \<and>
      steps_for amount notes is change (selection_steps amount notes is change))"
proof (cases "length is > TRANSACTION_LIMIT")
  case True
  then show ?thesis by (simp add: plan_of_selection_def)
next
  case False
  have s: "\<forall>i \<in> set is. i < length notes" "notes_sum notes is = note_value amount + change_value change"
    using assms(1) by (simp_all add: selection_notes)
  from False have le: "length is \<le> TRANSACTION_LIMIT" by simp
  from plan_of_selection_eq [OF assms(2) s(1) le, of amount change] selection_steps_for [OF assms(2) _ s(2)] le
  show ?thesis by (cases "length is = 1 \<or> notes_sum notes is < 2 ^ 128") auto
qed

lemma plan_Inr:
  assumes "unstable_sort_ok srt" and "length notes < 2 ^ 32" and "plan srt amount notes = Inr p"
  obtains "is" change where "is \<noteq> []"
    and "selection (map sn_amount notes) is (note_value amount + change_value change)"
    and "length is \<le> TRANSACTION_LIMIT" and "plan_steps p = selection_steps amount notes is change"
    and "steps_for amount notes is change (plan_steps p)"
    and "3 \<le> length is \<longrightarrow> pairs_below (map sn_amount notes) amount"
    and "length is = 1 \<or> notes_sum notes is < 2 ^ 128"
proof (rule plan_cases [OF assms(1,2), of amount])
  fix "is" change
  assume sel: "is \<noteq> []" "selection (map sn_amount notes) is (note_value amount + change_value change)"
    "plan srt amount notes = plan_of_selection amount notes is change"
    "3 \<le> length is \<longrightarrow> pairs_below (map sn_amount notes) amount"
  from plan_selected [OF sel(2,1)] assms(3) sel(3,4) show ?thesis by (intro that [OF sel(1,2)]) auto
qed (use assms(3) in auto)

section \<open>Samples\<close>

definition sample_wallet :: "spendable_note list" where
  "sample_wallet =
    [\<lparr>sn_commitment = Field 101, sn_amount = NoteAmount 4\<rparr>,
     \<lparr>sn_commitment = Field 102, sn_amount = NoteAmount 3\<rparr>,
     \<lparr>sn_commitment = Field 103, sn_amount = NoteAmount 6\<rparr>]"

lemma sample_wallet_amounts: "map sn_amount sample_wallet = sample_notes"
  by (simp add: sample_wallet_def sample_notes_def)

lemma sample_plan:
  "plan (sort_key snd) (NoteAmount 10) sample_wallet =
    Inr \<lparr>plan_steps = [\<lparr>step_inputs = (from_spendable (sample_wallet ! 0), Some (from_spendable (sample_wallet ! 2))),
      step_act = Final (NoteAmount 10) None\<rparr>]\<rparr>"
proof -
  have "plan (sort_key snd) (NoteAmount 10) sample_wallet =
      plan_of_selection (NoteAmount 10) sample_wallet [0, 2] None"
    using sample_selection
    by (simp add: plan_def sample_wallet_amounts combination_notes_def) (simp add: sample_wallet_def)
  also have "\<dots> = Inr \<lparr>plan_steps = selection_steps (NoteAmount 10) sample_wallet [0, 2] None\<rparr>"
    by (subst plan_of_selection_eq) (simp_all add: sample_wallet_def TRANSACTION_LIMIT_def)
  finally show ?thesis by (simp add: selection_steps_def set_last_final_def Let_def)
qed

section \<open>Properties\<close>

text \<open>
  C17: A plan spends a selection of distinct wallet notes that covers the amount, and nothing else. The
  selected notes appear as the real inputs of the steps, each exactly once and in order; every step
  creates exactly the value it consumes; every later step consumes the merged note of the step before;
  the last step pays the amount and the change; there are one step for one or two notes and \<open>k - 1\<close> steps for \<open>k\<close> notes,
  never more than nine.
\<close>

theorem plan_sound:
  assumes "unstable_sort_ok srt" and "length notes < 2 ^ 32" and "plan srt amount notes = Inr p"
  shows "\<exists>is change. selection (map sn_amount notes) is (note_value amount + change_value change) \<and>
    length is \<le> TRANSACTION_LIMIT \<and> plan_len p = max 1 (length is - 1) \<and> plan_len p \<le> 9 \<and>
    concat (map spent_commitments (plan_steps p)) = map (\<lambda>i. sn_commitment (notes ! i)) is \<and>
    (\<forall>s \<in> set (plan_steps p). step_in s = step_out s) \<and> successively feeds (plan_steps p) \<and>
    map_option step_act (final_step p) = Some (Final amount change)"
proof -
  from plan_Inr [OF assms] obtain "is" change where
    sel: "selection (map sn_amount notes) is (note_value amount + change_value change)"
    and le: "length is \<le> TRANSACTION_LIMIT" and st: "steps_for amount notes is change (plan_steps p)" .
  from st have "plan_steps p \<noteq> []" by (auto simp: steps_for_def)
  with st sel le show ?thesis
    by (intro exI [of _ "is"] exI [of _ change])
      (auto simp: steps_for_def plan_len_def final_step_def TRANSACTION_LIMIT_def)
qed

lemma plan_sound_witness:
  "\<exists>is change. selection sample_notes is (10 + change_value change) \<and>
    [Field 101, Field 103] = map (\<lambda>i. sn_commitment (sample_wallet ! i)) is"
proof -
  have "length sample_wallet < 2 ^ 32" by (simp add: sample_wallet_def)
  from plan_sound [OF sort_key_ok this sample_plan] obtain "is" change where
    "selection (map sn_amount sample_wallet) is (note_value (NoteAmount 10) + change_value change)"
    "concat (map spent_commitments [\<lparr>step_inputs = (from_spendable (sample_wallet ! 0),
      Some (from_spendable (sample_wallet ! 2))), step_act = Final (NoteAmount 10) None\<rparr>]) =
      map (\<lambda>i. sn_commitment (sample_wallet ! i)) is" by auto
  then show ?thesis
    by (intro exI [of _ "is"] exI [of _ change])
      (simp add: sample_wallet_amounts spent_commitments_def, simp add: sample_wallet_def)
qed

text \<open>
  C18: Planning is complete and its errors mean what they say. For a wallet whose total fits in 128 bits
  it fails with \<open>NoSpendableNotes\<close> exactly for the empty wallet, with \<open>NoCombination\<close> exactly if the
  total is below the amount, otherwise only with \<open>TooManyNotes\<close> if more than ten notes are selected;
  so a wallet of at most ten notes that covers the amount always gets a plan. The errors
  \<open>NoteIndexOutOfRange\<close>, \<open>InvalidPlan\<close> and \<open>InternalError\<close> and panics do not occur.
\<close>

theorem plan_complete:
  assumes "unstable_sort_ok srt" and "length notes < 2 ^ 32"
    and "wallet_total (map sn_amount notes) < 2 ^ 128"
  shows "(plan srt amount notes = Inl (Err NoSpendableNotes) \<longleftrightarrow> notes = []) \<and>
    (plan srt amount notes = Inl (Err NoCombination) \<longleftrightarrow>
      notes \<noteq> [] \<and> wallet_total (map sn_amount notes) < note_value amount) \<and>
    (\<forall>f. plan srt amount notes = Inl f \<longrightarrow>
      f = Err NoSpendableNotes \<or> f = Err NoCombination \<or> (\<exists>k > 10. k \<le> length notes \<and> f = Err (TooManyNotes k 10)))"
proof (rule plan_cases [OF assms(1,2), of amount])
  fix "is" change
  assume sel: "notes \<noteq> []" "is \<noteq> []"
    "selection (map sn_amount notes) is (note_value amount + change_value change)"
    "plan srt amount notes = plan_of_selection amount notes is change"
  have total: "notes_sum notes is \<le> wallet_total (map sn_amount notes)"
    "note_value amount \<le> wallet_total (map sn_amount notes)"
    using selection_total [OF sel(3)] sel(3) by (simp_all add: selection_notes)
  have "set is \<subseteq> {..<length notes}" "distinct is" using sel(3) by (auto simp: selection_notes)
  then have "length is \<le> length notes" by (metis card_lessThan card_mono distinct_card finite_lessThan)
  with plan_selected [OF sel(3,2)] total assms(3) sel(1,4) show ?thesis
    by (auto simp: TRANSACTION_LIMIT_def)
qed (use assms(3) in \<open>auto simp: wallet_total_def\<close>)

lemma plan_complete_witness:
  "plan (sort_key snd) (NoteAmount 20) sample_wallet = Inl (Err NoCombination) \<and>
    (\<exists>p. plan (sort_key snd) (NoteAmount 12) sample_wallet = Inr p)"
proof -
  have w: "length sample_wallet < 2 ^ 32" "wallet_total (map sn_amount sample_wallet) < 2 ^ 128"
    "sample_wallet \<noteq> []" "length sample_wallet = 3" "wallet_total (map sn_amount sample_wallet) = 13"
    by (simp_all add: sample_wallet_def wallet_total_def)
  note c = plan_complete [OF sort_key_ok w(1,2)]
  have "plan (sort_key snd) (NoteAmount 12) sample_wallet \<noteq> Inl f" for f
    using c [of "NoteAmount 12"] w(3-5) by auto
  then have "\<exists>p. plan (sort_key snd) (NoteAmount 12) sample_wallet = Inr p"
    by (cases "plan (sort_key snd) (NoteAmount 12) sample_wallet") blast+
  with c [of "NoteAmount 20"] w(3-5) show ?thesis by simp
qed

end
