(* ===== verification/Spend_Session.thy ===== *)
theory Spend_Session
  imports Tx_Plan
begin

text \<open>
  Running a plan (\<open>tx-planner/src/execute/mod.rs\<close> and \<open>execute/error.rs\<close>): a session freezes the plan
  and a snapshot of the wallet; the caller alternates \<open>step\<close>, which gives the arguments of the next
  on-chain call, and \<open>complete_step\<close>, which updates the snapshot with the commitments of the outputs.
\<close>

section \<open>Data\<close>

datatype spend_target =
    Transfer note_public_key encryption_public_key
  | Withdraw string

definition target_transfer :: "note_public_key \<Rightarrow> encryption_public_key \<Rightarrow> spend_target" where
  "target_transfer recipient_note recipient_enc = Transfer recipient_note recipient_enc"

definition target_withdraw :: "string \<Rightarrow> spend_target" where
  "target_withdraw recipient = Withdraw recipient"

record transact_call =
  tc_input_commitments :: "field list"
  tc_output_amounts :: "note_amount \<times> note_amount"
  tc_ext_amount :: ext_amount
  tc_ext_recipient :: string
  tc_out_note_pubkeys :: "note_public_key option \<times> note_public_key option"
  tc_out_enc_pubkeys :: "encryption_public_key option \<times> encryption_public_key option"

datatype spend_session_error =
    SessionPlan plan_error
  | SessionComplete
  | ExtAmountOverflow
  | MissingWithdrawRecipient

record spend_session =
  ss_steps :: "planned_step list"
  ss_wallet :: "spendable_note list"
  ss_pool_address :: string
  ss_target :: spend_target
  ss_step_index :: nat

section \<open>Operations\<close>

definition validate_target :: "spend_target \<Rightarrow> (spend_session_error, unit) outcome" where
  "validate_target target =
    (case target of
       Withdraw recipient \<Rightarrow> if recipient = [] then Inl (Err MissingWithdrawRecipient) else Inr ()
     | _ \<Rightarrow> Inr ())"

definition session_setup ::
  "(indexed_notes \<Rightarrow> indexed_notes) \<Rightarrow> spendable_note list \<Rightarrow> note_amount \<Rightarrow> string \<Rightarrow> spend_target \<Rightarrow>
    (spend_session_error, spend_session) outcome" where
  "session_setup srt wallet amount pool_address target =
    let_ok (validate_target target) (\<lambda>_.
    let_ok (map_err (map_fault SessionPlan) (plan srt amount wallet)) (\<lambda>tx_plan.
    Inr \<lparr>ss_steps = plan_steps tx_plan, ss_wallet = wallet, ss_pool_address = pool_address,
         ss_target = target, ss_step_index = 0\<rparr>))"

definition session_is_done :: "spend_session \<Rightarrow> bool" where
  "session_is_done s \<longleftrightarrow> ss_step_index s \<ge> length (ss_steps s)"

definition session_len :: "spend_session \<Rightarrow> nat" where
  "session_len s = length (ss_steps s)"

definition session_is_empty :: "spend_session \<Rightarrow> bool" where
  "session_is_empty s \<longleftrightarrow> ss_steps s = []"

definition is_consolidate_step :: "spend_session \<Rightarrow> bool" where
  "is_consolidate_step s =
    (case vec_get (ss_steps s) (ss_step_index s) of
       None \<Rightarrow> False
     | Some st \<Rightarrow> (case step_act st of Consolidate _ \<Rightarrow> True | _ \<Rightarrow> False))"

definition materialize_step ::
  "planned_step \<Rightarrow> string \<Rightarrow> spend_target \<Rightarrow> spendable_note list \<Rightarrow>
    (spend_session_error, transact_call) outcome" where
  "materialize_step st pool_address target resolved =
    (let input_commitments = map sn_commitment resolved in
     case step_act st of
       Consolidate outp \<Rightarrow>
         Inr \<lparr>tc_input_commitments = input_commitments, tc_output_amounts = (outp, NOTE_ZERO),
              tc_ext_amount = EXT_ZERO, tc_ext_recipient = pool_address,
              tc_out_note_pubkeys = (None, None), tc_out_enc_pubkeys = (None, None)\<rparr>
     | Final out0 out1 \<Rightarrow>
         (case target of
            Transfer recipient_note recipient_enc \<Rightarrow>
              Inr \<lparr>tc_input_commitments = input_commitments,
                   tc_output_amounts = (out0, case out1 of None \<Rightarrow> NOTE_ZERO | Some c \<Rightarrow> c),
                   tc_ext_amount = EXT_ZERO, tc_ext_recipient = pool_address,
                   tc_out_note_pubkeys =
                     (Some recipient_note, if out1 \<noteq> None then None else Some recipient_note),
                   tc_out_enc_pubkeys =
                     (Some recipient_enc, if out1 \<noteq> None then None else Some recipient_enc)\<rparr>
          | Withdraw recipient \<Rightarrow>
              let_ok (map_err (\<lambda>_. Err ExtAmountOverflow) (ext_try_from_note out0)) (\<lambda>e.
              let_ok (ok_or (ext_checked_neg e) (Err ExtAmountOverflow)) (\<lambda>ext.
              Inr \<lparr>tc_input_commitments = input_commitments,
                   tc_output_amounts = (case out1 of None \<Rightarrow> NOTE_ZERO | Some c \<Rightarrow> c, NOTE_ZERO),
                   tc_ext_amount = ext, tc_ext_recipient = recipient,
                   tc_out_note_pubkeys = (None, None), tc_out_enc_pubkeys = (None, None)\<rparr>))))"

definition session_step :: "spend_session \<Rightarrow> (spend_session_error, transact_call option) outcome" where
  "session_step s =
    (if session_is_done s then Inr None
     else
       let_ok (or_trap (vec_get (ss_steps s) (ss_step_index s))) (\<lambda>st.
       let_ok (map_err (map_fault SessionPlan) (resolve st (ss_wallet s))) (\<lambda>resolved.
       let_ok (materialize_step st (ss_pool_address s) (ss_target s) resolved) (\<lambda>t. Inr (Some t)))))"

fun remove_spent :: "spendable_note list \<Rightarrow> spendable_note list \<Rightarrow> spendable_note list" where
  "remove_spent wallet [] = wallet"
| "remove_spent wallet (n # spent) =
    remove_spent (filter (\<lambda>m. sn_commitment m \<noteq> sn_commitment n) wallet) spent"

definition complete_step ::
  "field \<times> field \<Rightarrow> spend_session \<Rightarrow> (spend_session_error, spend_session) outcome" where
  "complete_step output_commitments s =
    (if session_is_done s then Inl (Err SessionComplete)
     else
       let_ok (or_trap (vec_get (ss_steps s) (ss_step_index s))) (\<lambda>st.
       let_ok (map_err (map_fault SessionPlan) (resolve st (ss_wallet s))) (\<lambda>spent.
       let wallet = (case step_act st of
             Consolidate outp \<Rightarrow>
               remove_spent (ss_wallet s) spent @
                 [\<lparr>sn_commitment = fst output_commitments, sn_amount = outp\<rparr>]
           | Final _ _ \<Rightarrow> remove_spent (ss_wallet s) spent) in
       let_ok (or_trap (nat_checked_add 32 (ss_step_index s) 1)) (\<lambda>index.
       Inr (s\<lparr>ss_wallet := wallet, ss_step_index := index\<rparr>)))))"

section \<open>Runs\<close>

text \<open>The caller's loop: one on-chain call per step, whose output commitments are \<open>outs\<close>.\<close>

fun run_session ::
  "spend_session \<Rightarrow> (field \<times> field) list \<Rightarrow> (spend_session_error, transact_call list \<times> spend_session) outcome" where
  "run_session s [] = Inr ([], s)"
| "run_session s (out # outs) =
    let_ok (session_step s) (\<lambda>t.
    case t of None \<Rightarrow> Inr ([], s)
    | Some tr \<Rightarrow>
        let_ok (complete_step out s) (\<lambda>s'.
        let_ok (run_session s' outs) (\<lambda>(trs, s''). Inr (tr # trs, s''))))"

section \<open>Resolving inputs\<close>

lemma resolve_input_sound:
  assumes "resolve_input_note inp w sib = Inr n"
  shows "n \<in> set w" and "sn_amount n = sp_amount inp"
proof -
  consider (known) c where "sp_commitment inp = Some c" | (synthetic) "sp_commitment inp = None"
    by (cases "sp_commitment inp") auto
  then have "n \<in> set w \<and> sn_amount n = sp_amount inp"
  proof cases
    case known
    with assms show ?thesis
      by (auto simp: resolve_input_note_def outcome_simps find_Some_iff split: if_splits)
  next
    case synthetic
    let ?ms = "filter (\<lambda>n. Option.bind sib sp_commitment \<noteq> Some (sn_commitment n))
        (filter (\<lambda>n. sn_amount n = sp_amount inp) w)"
    from synthetic assms have "?ms = [n]"
      by (auto simp: resolve_input_note_def Let_def split: list.splits)
    then have "n \<in> set ?ms" by simp
    then show ?thesis by simp
  qed
  then show "n \<in> set w" "sn_amount n = sp_amount inp" by simp_all
qed

lemma resolve_sound:
  assumes "resolve st w = Inr rs"
  shows "set rs \<subseteq> set w" and "length rs \<le> 2" and "sum_list (map (note_value \<circ> sn_amount) rs) = step_in st"
proof -
  from assms obtain n where n: "resolve_input_note (fst (step_inputs st)) w (snd (step_inputs st)) = Inr n"
    by (auto simp: resolve_def outcome_simps)
  show "set rs \<subseteq> set w" "length rs \<le> 2" "sum_list (map (note_value \<circ> sn_amount) rs) = step_in st"
    using assms n resolve_input_sound [OF n] resolve_input_sound
    by (cases "snd (step_inputs st)"; fastforce simp: resolve_def outcome_simps step_in_def)+
qed

lemma find_commitment:
  "distinct (map sn_commitment w) \<Longrightarrow> n \<in> set w \<Longrightarrow>
    find (\<lambda>m. sn_commitment m = sn_commitment n) w = Some n"
  by (induction w) (auto simp: rev_image_eqI)

lemma resolve_known:
  assumes "distinct (map sn_commitment w)" and "n \<in> set w"
  shows "resolve_input_note (from_spendable n) w sib = Inr n"
  by (simp add: resolve_input_note_def find_commitment [OF assms])

lemma resolve_merged:
  assumes "sn_amount m = a" and "sn_commitment m \<noteq> sn_commitment cur"
    and "\<forall>n \<in> set w. sn_amount n = a \<longrightarrow> sn_commitment n = sn_commitment cur"
  shows "resolve_input_note (from_amount a) (w @ [m]) (Some (from_spendable cur)) = Inr m"
proof -
  have "filter (\<lambda>n. sn_commitment cur \<noteq> sn_commitment n) (filter (\<lambda>n. sn_amount n = a) w) = []"
    using assms(3) by (auto simp: filter_empty_conv)
  then show ?thesis using assms(1,2) by (simp add: resolve_input_note_def)
qed

lemma remove_spent_filter:
  "remove_spent w spent = filter (\<lambda>m. sn_commitment m \<notin> sn_commitment ` set spent) w"
  by (induction w spent rule: remove_spent.induct) (auto intro!: filter_cong)

section \<open>Sessions\<close>

inductive session_reachable ::
  "(indexed_notes \<Rightarrow> indexed_notes) \<Rightarrow> spendable_note list \<Rightarrow> note_amount \<Rightarrow> spend_target \<Rightarrow>
    spend_session \<Rightarrow> bool"
  for srt wallet amount target where
  session_start: "session_setup srt wallet amount pool target = Inr s \<Longrightarrow> session_reachable srt wallet amount target s"
| session_next: "session_reachable srt wallet amount target s \<Longrightarrow> complete_step outs s = Inr s' \<Longrightarrow>
    session_reachable srt wallet amount target s'"

lemma session_setup_iff:
  "session_setup srt wallet amount pool target = Inr s \<longleftrightarrow>
    validate_target target = Inr () \<and>
    (\<exists>p. plan srt amount wallet = Inr p \<and>
      s = \<lparr>ss_steps = plan_steps p, ss_wallet = wallet, ss_pool_address = pool, ss_target = target,
           ss_step_index = 0\<rparr>)"
  by (auto simp: session_setup_def outcome_simps)

lemma complete_step_steps:
  "complete_step outs s = Inr s' \<Longrightarrow> ss_steps s' = ss_steps s \<and> ss_target s' = ss_target s \<and>
    ss_pool_address s' = ss_pool_address s \<and> ss_step_index s' = Suc (ss_step_index s)"
  by (auto simp: complete_step_def outcome_simps checked_simps Let_def split: if_splits)

lemma session_reachable_steps:
  assumes "session_reachable srt wallet amount target s"
  shows "ss_target s = target \<and> (\<exists>p. plan srt amount wallet = Inr p \<and> ss_steps s = plan_steps p)"
  using assms
proof (induction rule: session_reachable.induct)
  case (session_start pool s)
  then show ?case by (auto simp: session_setup_iff)
next
  case (session_next s outs s')
  then show ?case using complete_step_steps by fastforce
qed

text \<open>What the call takes from and gives to the pool, given that the step is balanced.\<close>

definition call_balanced :: "nat \<Rightarrow> transact_call \<Rightarrow> bool" where
  "call_balanced inp t \<longleftrightarrow>
    int inp + ext_value (tc_ext_amount t) =
      int (note_value (fst (tc_output_amounts t)) + note_value (snd (tc_output_amounts t)))"

lemma ext_zero_value [simp]: "ext_value EXT_ZERO = 0"
  by (simp add: EXT_ZERO_def)

lemma ext_try_from_note_value: "ext_try_from_note a = Inr e \<longleftrightarrow> ext_value e = int (note_value a)"
  by (cases e) (auto simp: ext_try_from_note_def outcome_simps i128_try_from_u128_iff)

lemma ext_checked_neg_value: "ext_checked_neg e = Some e' \<longleftrightarrow> ext_value e' = - ext_value e"
  by (cases e') (auto simp: ext_checked_neg_def signed_checked_neg_def signed_of_int_Some_iff)

lemma materialize_balanced:
  assumes "materialize_step st pool target rs = Inr t" and "step_in st = step_out st"
  shows "call_balanced (step_in st) t" and "tc_input_commitments t = map sn_commitment rs"
proof -
  have "call_balanced (step_in st) t \<and> tc_input_commitments t = map sn_commitment rs"
  proof (cases "step_act st")
    case (Consolidate a)
    with assms show ?thesis by (auto simp: materialize_step_def call_balanced_def step_out_def NOTE_ZERO_def)
  next
    case (Final a c)
    with assms show ?thesis
      by (cases target)
        (auto simp: materialize_step_def call_balanced_def step_out_def change_value_def outcome_simps
          ext_try_from_note_value ext_checked_neg_value NOTE_ZERO_def split: option.splits)
  qed
  then show "call_balanced (step_in st) t" "tc_input_commitments t = map sn_commitment rs" by simp_all
qed

section \<open>Complete runs\<close>

text \<open>
  A withdrawal must fit in a signed amount, and a merged note must be recognisable by its amount: no
  note of the wallet other than the second input of the step has the amount of the merged input.
\<close>

definition payable :: "spend_target \<Rightarrow> note_amount \<Rightarrow> bool" where
  "payable target amount \<longleftrightarrow>
    (case target of Withdraw _ \<Rightarrow> note_value amount < 2 ^ 127 | _ \<Rightarrow> True)"

definition unambiguous :: "spendable_note list \<Rightarrow> planned_step list \<Rightarrow> bool" where
  "unambiguous w steps \<longleftrightarrow>
    (\<forall>s \<in> set steps. sp_commitment (fst (step_inputs s)) = None \<longrightarrow>
      (\<forall>n \<in> set w. sn_amount n = sp_amount (fst (step_inputs s)) \<longrightarrow>
        snd (step_inputs s) = Some (from_spendable n)))"

definition wallet_after :: "planned_step \<Rightarrow> field \<Rightarrow> spendable_note list \<Rightarrow> spendable_note list \<Rightarrow> spendable_note list" where
  "wallet_after st c rs w =
    (case step_act st of
       Consolidate a \<Rightarrow> remove_spent w rs @ [\<lparr>sn_commitment = c, sn_amount = a\<rparr>]
     | Final _ _ \<Rightarrow> remove_spent w rs)"

lemma run_session_step:
  assumes "ss_steps s = pre @ st # post" and "ss_step_index s = length pre" and "length (ss_steps s) < 2 ^ 32"
    and "resolve st (ss_wallet s) = Inr rs"
    and "materialize_step st (ss_pool_address s) (ss_target s) rs = Inr t"
  shows "run_session s (out # outs) =
    let_ok (run_session (s\<lparr>ss_wallet := wallet_after st (fst out) rs (ss_wallet s),
        ss_step_index := Suc (length pre)\<rparr>) outs) (\<lambda>(trs, s''). Inr (t # trs, s''))"
proof -
  have get: "vec_get (ss_steps s) (ss_step_index s) = Some st" using assms(1,2) by (simp add: vec_get_def)
  have nd: "\<not> session_is_done s" using assms(1,2) by (simp add: session_is_done_def)
  have "session_step s = Inr (Some t)" using get nd assms(4,5) by (simp add: session_step_def)
  moreover have "complete_step out s =
      Inr (s\<lparr>ss_wallet := wallet_after st (fst out) rs (ss_wallet s), ss_step_index := Suc (length pre)\<rparr>)"
    using get nd assms by (simp add: complete_step_def wallet_after_def nat_checked_add_def)
  ultimately show ?thesis by simp
qed

lemma materialize_ok:
  assumes "payable target amount" and "step_act st = Consolidate a \<or> step_act st = Final amount change"
  shows "\<exists>t. materialize_step st pool target rs = Inr t"
proof (cases target)
  case (Withdraw recipient)
  then have lt: "note_value amount < 2 ^ 127" using assms(1) by (simp add: payable_def)
  then obtain e where e: "ext_try_from_note amount = Inr e"
    by (auto simp: ext_try_from_note_def i128_try_from_u128_def)
  then have "ext_value e \<ge> 0" by (simp add: ext_try_from_note_value)
  then obtain e' where "ext_checked_neg e = Some e'"
    using ext_value_bounds [of e]
    by (auto simp: ext_checked_neg_def signed_checked_neg_def signed_of_int_def in_signed_range_def)
  with e Withdraw assms(2) show ?thesis by (auto simp: materialize_step_def)
qed (use assms(2) in \<open>auto simp: materialize_step_def\<close>)

lemma resolve_chain_step:
  assumes "step_inputs st = (from_amount (sn_amount m), Some (from_spendable cur))"
    and "cur \<in> set w" and "distinct (map sn_commitment w)" and "sn_commitment m \<notin> sn_commitment ` set w"
    and "unambiguous w (st # sts)"
  shows "resolve st (w @ [m]) = Inr [m, cur]"
proof -
  have "\<forall>n \<in> set w. sn_amount n = sn_amount m \<longrightarrow> sn_commitment n = sn_commitment cur"
    using assms(1,5) by (auto simp: unambiguous_def from_spendable_def)
  moreover have "sn_commitment m \<noteq> sn_commitment cur" using assms(2,4) by auto
  ultimately have "resolve_input_note (from_amount (sn_amount m)) (w @ [m]) (Some (from_spendable cur)) = Inr m"
    by (intro resolve_merged) simp_all
  moreover have "resolve_input_note (from_spendable cur) (w @ [m]) sib = Inr cur" for sib
    using assms(2-4) by (intro resolve_known) simp_all
  ultimately show ?thesis using assms(1) by (simp add: resolve_def)
qed

text \<open>What is known of the steps behind the first one.\<close>

definition chain_steps :: "spendable_note list \<Rightarrow> note_amount \<Rightarrow> note_amount \<Rightarrow> planned_step list \<Rightarrow> bool" where
  "chain_steps w a amount sts \<longleftrightarrow>
    sts \<noteq> [] \<and> successively feeds sts \<and> (\<exists>change. step_act (last sts) = Final amount change) \<and>
    fst (step_inputs (hd sts)) = from_amount a \<and>
    (\<forall>s \<in> set sts. \<exists>n \<in> set w. snd (step_inputs s) = Some (from_spendable n)) \<and>
    distinct (concat (map spent_commitments sts)) \<and> unambiguous w sts"

lemma chain_steps_Cons:
  assumes "chain_steps w a amount (st # sts)"
  obtains cur where "cur \<in> set w" and "step_inputs st = (from_amount a, Some (from_spendable cur))"
    and "spent_commitments st = [sn_commitment cur]"
    and "sts = [] \<Longrightarrow> \<exists>change. step_act st = Final amount change"
    and "sts \<noteq> [] \<Longrightarrow> \<exists>b. step_act st = Consolidate b \<and>
      chain_steps (filter (\<lambda>n. sn_commitment n \<noteq> sn_commitment cur) w) b amount sts"
proof -
  from assms obtain cur where cur: "cur \<in> set w" "step_inputs st = (from_amount a, Some (from_spendable cur))"
    by (cases "step_inputs st") (auto simp: chain_steps_def)
  then have spent: "spent_commitments st = [sn_commitment cur]" by (simp add: spent_commitments_def)
  have "\<exists>b. step_act st = Consolidate b \<and>
      chain_steps (filter (\<lambda>n. sn_commitment n \<noteq> sn_commitment cur) w) b amount sts" if ne: "sts \<noteq> []"
  proof -
    from assms ne have suc: "successively feeds sts" and fd: "feeds st (hd sts)"
      by (simp_all add: chain_steps_def successively_Cons)
    from fd obtain b where b: "step_act st = Consolidate b" "fst (step_inputs (hd sts)) = from_amount b"
      by (auto simp: feeds_def)
    have "\<exists>n \<in> set (filter (\<lambda>n. sn_commitment n \<noteq> sn_commitment cur) w).
        snd (step_inputs s) = Some (from_spendable n)" if s: "s \<in> set sts" for s
    proof -
      from assms s obtain n where n: "n \<in> set w" "snd (step_inputs s) = Some (from_spendable n)"
        by (auto simp: chain_steps_def)
      then have "sn_commitment n \<in> set (spent_commitments s)" by (simp add: spent_commitments_def)
      with assms spent s have "sn_commitment n \<noteq> sn_commitment cur" by (auto simp: chain_steps_def)
      with n show ?thesis by auto
    qed
    with assms ne b suc spent show ?thesis
      by (auto simp: chain_steps_def unambiguous_def)
  qed
  moreover have "\<exists>change. step_act st = Final amount change" if "sts = []"
    using assms that by (simp add: chain_steps_def)
  ultimately show ?thesis using that cur spent by blast
qed

lemma run_chain:
  assumes "chain_steps w (sn_amount m) amount sts" and "payable (ss_target s) amount"
    and "distinct (map sn_commitment w)" and "sn_commitment m \<notin> sn_commitment ` set w"
    and "length outs = length sts" and "fst ` set outs \<inter> sn_commitment ` set w = {}"
    and "ss_steps s = pre @ sts" and "ss_step_index s = length pre" and "length (ss_steps s) < 2 ^ 32"
    and "ss_wallet s = w @ [m]"
  shows "\<exists>ts s'. run_session s outs = Inr (ts, s') \<and> session_is_done s' \<and> length ts = length sts \<and>
    ss_wallet s' = filter (\<lambda>n. sn_commitment n \<notin> set (concat (map spent_commitments sts))) w"
  using assms
proof (induction sts arbitrary: w m s outs pre)
  case Nil
  then show ?case by (simp add: chain_steps_def)
next
  case (Cons st sts)
  from Cons.prems(1) obtain cur where cur: "cur \<in> set w"
      "step_inputs st = (from_amount (sn_amount m), Some (from_spendable cur))"
    and spent: "spent_commitments st = [sn_commitment cur]"
    and fin: "sts = [] \<Longrightarrow> \<exists>change. step_act st = Final amount change"
    and con: "sts \<noteq> [] \<Longrightarrow> \<exists>b. step_act st = Consolidate b \<and>
      chain_steps (filter (\<lambda>n. sn_commitment n \<noteq> sn_commitment cur) w) b amount sts"
    by (rule chain_steps_Cons) blast
  obtain out outs' where outs: "outs = out # outs'" using Cons.prems(5) by (cases outs) auto
  have "unambiguous w (st # sts)" using Cons.prems(1) by (simp add: chain_steps_def)
  then have res: "resolve st (ss_wallet s) = Inr [m, cur]"
    using resolve_chain_step [OF cur(2,1) Cons.prems(3,4)] Cons.prems(10) by simp
  have "\<exists>b change. step_act st = Consolidate b \<or> step_act st = Final amount change" using fin con by blast
  then obtain t where t: "materialize_step st (ss_pool_address s) (ss_target s) [m, cur] = Inr t"
    using materialize_ok [OF Cons.prems(2)] by blast
  note run = run_session_step [OF Cons.prems(7-9) res t, of out outs']
  let ?w = "filter (\<lambda>n. sn_commitment n \<noteq> sn_commitment cur) w"
  have rem: "remove_spent (ss_wallet s) [m, cur] = ?w"
    using Cons.prems(4,10) cur(1) by (auto simp: remove_spent_filter image_iff intro!: filter_cong)
  show ?case
  proof (cases "sts = []")
    case True
    with fin run rem outs Cons.prems(5,7) spent show ?thesis
      by (auto simp: wallet_after_def session_is_done_def intro!: filter_cong)
  next
    case False
    then obtain b where b: "step_act st = Consolidate b" "chain_steps ?w b amount sts" using con by blast
    let ?m = "\<lparr>sn_commitment = fst out, sn_amount = b\<rparr>"
    let ?s = "s\<lparr>ss_wallet := ?w @ [?m], ss_step_index := Suc (length pre)\<rparr>"
    have "\<exists>ts s'. run_session ?s outs' = Inr (ts, s') \<and> session_is_done s' \<and> length ts = length sts \<and>
        ss_wallet s' = filter (\<lambda>n. sn_commitment n \<notin> set (concat (map spent_commitments sts))) ?w"
      using b Cons.prems outs
      by (intro Cons.IH [of _ ?m _ _ "pre @ [st]"])
        (auto simp: distinct_map_filter)
    then show ?thesis using run b(1) rem outs spent
      by (auto simp: wallet_after_def simp del: filter_filter) (auto intro!: filter_cong)
  qed
qed

lemma merge_steps_second:
  "s \<in> set (merge_steps notes prev js) \<Longrightarrow> \<exists>j \<in> set js. snd (step_inputs s) = Some (from_spendable (notes ! j))"
  by (induction js arbitrary: prev) (auto simp: Let_def)

lemma set_last_final_inputs: "map step_inputs (set_last_final amount change steps) = map step_inputs steps"
  by (cases steps rule: rev_cases) (simp_all add: set_last_final_def)

text \<open>The first step of a plan and what follows it.\<close>

lemma selection_steps_split:
  assumes "is \<noteq> []" and "\<forall>i \<in> set is. i < length notes"
  obtains st sts n where "selection_steps amount notes is change = st # sts"
    and "n \<in> set notes" and "fst (step_inputs st) = from_spendable n"
    and "\<forall>x. snd (step_inputs st) = Some x \<longrightarrow> (\<exists>n' \<in> set notes. x = from_spendable n')"
    and "\<forall>s \<in> set sts. \<exists>n' \<in> set notes. snd (step_inputs s) = Some (from_spendable n')"
proof -
  obtain i js where is_eq: "is = i # js" using assms(1) by (cases "is") auto
  show ?thesis
  proof (cases js)
    case Nil
    with is_eq assms(2) show ?thesis by (intro that) (auto simp: selection_steps_def)
  next
    case (Cons j js')
    let ?m = "merge_steps notes (from_spendable (notes ! i)) js"
    have eq: "selection_steps amount notes is change = set_last_final amount change ?m"
      using is_eq Cons by (simp add: selection_steps_def)
    then have inp: "map step_inputs (selection_steps amount notes is change) = map step_inputs ?m"
      by (simp only: set_last_final_inputs)
    obtain st sts where st: "selection_steps amount notes is change = st # sts"
      using inp Cons by (cases "selection_steps amount notes is change") (auto simp: Let_def)
    from inp st Cons have "step_inputs st = (from_spendable (notes ! i), Some (from_spendable (notes ! j)))"
      by (auto simp: Let_def)
    moreover have "\<exists>n' \<in> set notes. snd (step_inputs s) = Some (from_spendable n')" if "s \<in> set sts" for s
    proof -
      have "step_inputs s \<in> set (map step_inputs ?m)" using inp st that by (metis image_eqI list.set_map list.set_intros(2))
      then obtain s' where "s' \<in> set ?m" "step_inputs s' = step_inputs s" by auto
      with merge_steps_second [of s'] assms(2) is_eq show ?thesis by fastforce
    qed
    ultimately show ?thesis using assms(2) is_eq Cons by (intro that [OF st]) auto
  qed
qed

lemma resolve_first:
  assumes "distinct (map sn_commitment w)" and "n \<in> set w" and "fst (step_inputs st) = from_spendable n"
    and "\<And>x. snd (step_inputs st) = Some x \<Longrightarrow> \<exists>n' \<in> set w. x = from_spendable n'"
  shows "\<exists>rs. resolve st w = Inr rs \<and> map sn_commitment rs = spent_commitments st"
proof (cases "snd (step_inputs st)")
  case None
  with resolve_known [OF assms(1,2)] assms(3) show ?thesis
    by (simp add: resolve_def spent_commitments_def)
next
  case (Some x)
  then obtain n' where "n' \<in> set w" "x = from_spendable n'" using assms(4) by blast
  with resolve_known [OF assms(1)] assms(2,3) Some show ?thesis
    by (simp add: resolve_def spent_commitments_def)
qed

lemma chain_steps_tail:
  assumes "successively feeds (st # sts)" and "sts \<noteq> []" and "step_act (last (st # sts)) = Final amount change"
    and "\<forall>s \<in> set sts. \<exists>n \<in> set wallet. snd (step_inputs s) = Some (from_spendable n)"
    and "distinct (concat (map spent_commitments (st # sts)))" and "unambiguous wallet (st # sts)"
  obtains b where "step_act st = Consolidate b"
    and "chain_steps (filter (\<lambda>n. sn_commitment n \<notin> set (spent_commitments st)) wallet) b amount sts"
proof -
  from assms(1,2) obtain b where b: "step_act st = Consolidate b" "fst (step_inputs (hd sts)) = from_amount b"
    and suc: "successively feeds sts" by (auto simp: successively_Cons feeds_def)
  have "\<exists>n \<in> set (filter (\<lambda>n. sn_commitment n \<notin> set (spent_commitments st)) wallet).
      snd (step_inputs s) = Some (from_spendable n)" if s: "s \<in> set sts" for s
  proof -
    from assms(4) s obtain n where n: "n \<in> set wallet" "snd (step_inputs s) = Some (from_spendable n)" by auto
    then have "sn_commitment n \<in> set (spent_commitments s)" by (simp add: spent_commitments_def)
    with assms(5) s have "sn_commitment n \<notin> set (spent_commitments st)" by auto
    with n show ?thesis by auto
  qed
  with assms b suc show ?thesis by (intro that [OF b(1)]) (auto simp: chain_steps_def unambiguous_def)
qed

text \<open>A run of the steps \<open>st # sts\<close> of a plan, from the wallet snapshot to the end.\<close>

lemma run_plan_steps:
  assumes steps: "ss_steps s = st # sts" "ss_step_index s = 0" "length (ss_steps s) < 2 ^ 32"
    and dist: "distinct (map sn_commitment (ss_wallet s))" and pay: "payable (ss_target s) amount"
    and first: "n \<in> set (ss_wallet s)" "fst (step_inputs st) = from_spendable n"
      "\<And>x. snd (step_inputs st) = Some x \<Longrightarrow> \<exists>n' \<in> set (ss_wallet s). x = from_spendable n'"
    and tail: "successively feeds (st # sts)" "step_act (last (st # sts)) = Final amount change"
      "\<forall>s' \<in> set sts. \<exists>n \<in> set (ss_wallet s). snd (step_inputs s') = Some (from_spendable n)"
      "distinct (concat (map spent_commitments (st # sts)))" "unambiguous (ss_wallet s) (st # sts)"
    and outs: "length outs = length (st # sts)" "fst ` set outs \<inter> sn_commitment ` set (ss_wallet s) = {}"
  shows "\<exists>ts s'. run_session s outs = Inr (ts, s') \<and> session_is_done s' \<and> length ts = length (st # sts) \<and>
    ss_wallet s' = filter (\<lambda>n. sn_commitment n \<notin> set (concat (map spent_commitments (st # sts)))) (ss_wallet s)"
proof -
  from resolve_first [OF dist first] obtain rs where rs: "resolve st (ss_wallet s) = Inr rs"
    "map sn_commitment rs = spent_commitments st" by blast
  let ?w = "filter (\<lambda>n. sn_commitment n \<notin> set (spent_commitments st)) (ss_wallet s)"
  have rem: "remove_spent (ss_wallet s) rs = ?w" by (simp add: remove_spent_filter flip: rs(2))
  obtain out outs' where o: "outs = out # outs'" using outs(1) by (cases outs) auto
  have "\<exists>b c. step_act st = Consolidate b \<or> step_act st = Final amount c"
    using tail(1,2) by (cases sts) (auto simp: feeds_def)
  then obtain t where t: "materialize_step st (ss_pool_address s) (ss_target s) rs = Inr t"
    using materialize_ok [OF pay] by blast
  have "run_session s outs = let_ok (run_session (s\<lparr>ss_wallet := wallet_after st (fst out) rs (ss_wallet s),
        ss_step_index := Suc 0\<rparr>) outs') (\<lambda>(trs, s''). Inr (t # trs, s''))"
    using run_session_step [of s "[]" st sts rs t out outs'] steps rs t o by simp
  note run = this
  show ?thesis
  proof (cases "sts = []")
    case True
    with run tail(2) rem outs(1) o steps show ?thesis
      by (simp add: wallet_after_def session_is_done_def)
  next
    case False
    from chain_steps_tail [OF tail(1) False tail(2-5)] obtain b where
      b: "step_act st = Consolidate b" "chain_steps ?w b amount sts" .
    let ?m = "\<lparr>sn_commitment = fst out, sn_amount = b\<rparr>"
    let ?s = "s\<lparr>ss_wallet := ?w @ [?m], ss_step_index := Suc 0\<rparr>"
    have "\<exists>ts s'. run_session ?s outs' = Inr (ts, s') \<and> session_is_done s' \<and> length ts = length sts \<and>
        ss_wallet s' = filter (\<lambda>n. sn_commitment n \<notin> set (concat (map spent_commitments sts))) ?w"
      using b pay dist outs o steps
      by (intro run_chain [of _ ?m amount _ _ _ "[st]"]) (auto simp: distinct_map_filter)
    then show ?thesis using run b(1) rem o
      by (auto simp: wallet_after_def simp del: filter_filter) (auto intro!: filter_cong)
  qed
qed

lemma session_run_completes:
  assumes "unstable_sort_ok srt" and "length wallet < 2 ^ 32" and dist: "distinct (map sn_commitment wallet)"
    and "session_setup srt wallet amount pool target = Inr s" and pay: "payable target amount"
    and unamb: "unambiguous wallet (ss_steps s)"
    and outs: "length outs = session_len s" "fst ` set outs \<inter> sn_commitment ` set wallet = {}"
  shows "\<exists>ts s' is change. run_session s outs = Inr (ts, s') \<and> session_is_done s' \<and>
    length ts = session_len s \<and> selection (map sn_amount wallet) is (note_value amount + change_value change) \<and>
    ss_wallet s' = filter (\<lambda>n. sn_commitment n \<notin> (\<lambda>i. sn_commitment (wallet ! i)) ` set is) wallet"
proof -
  from assms(4) obtain p where p: "plan srt amount wallet = Inr p"
    and s: "ss_steps s = plan_steps p" "ss_wallet s = wallet" "ss_target s = target" "ss_step_index s = 0"
    by (auto simp: session_setup_iff)
  from plan_Inr [OF assms(1,2) p] obtain "is" change where ne: "is \<noteq> []"
    and sel: "selection (map sn_amount wallet) is (note_value amount + change_value change)"
    and le: "length is \<le> TRANSACTION_LIMIT" and ps: "plan_steps p = selection_steps amount wallet is change"
    and st: "steps_for amount wallet is change (plan_steps p)" .
  let ?c = "\<lambda>i. sn_commitment (wallet ! i)"
  have idx: "\<forall>i \<in> set is. i < length wallet" using sel by (simp add: selection_notes)
  have d: "distinct (map ?c is)"
    using sel dist by (auto simp: selection_notes distinct_map inj_on_def nth_eq_iff_index_eq)
      (metis distinct_map inj_on_def nth_eq_iff_index_eq nth_mem)
  have lt: "length (ss_steps s) < 2 ^ 32" using st s(1) le by (simp add: steps_for_def TRANSACTION_LIMIT_def)
  from selection_steps_split [OF ne idx, of amount change] obtain x sts n where
    x: "selection_steps amount wallet is change = x # sts" "n \<in> set wallet"
      "fst (step_inputs x) = from_spendable n"
      "\<forall>y. snd (step_inputs x) = Some y \<longrightarrow> (\<exists>n' \<in> set wallet. y = from_spendable n')"
      "\<forall>s' \<in> set sts. \<exists>n' \<in> set wallet. snd (step_inputs s') = Some (from_spendable n')" .
  have sf: "concat (map spent_commitments (x # sts)) = map ?c is" "successively feeds (x # sts)"
    "step_act (last (x # sts)) = Final amount change"
    using st ps x(1) by (simp_all add: steps_for_def)
  have "\<exists>ts s'. run_session s outs = Inr (ts, s') \<and> session_is_done s' \<and> length ts = length (x # sts) \<and>
    ss_wallet s' = filter (\<lambda>n. sn_commitment n \<notin> set (concat (map spent_commitments (x # sts)))) (ss_wallet s)"
    using s ps x lt dist pay sf d unamb outs
    by (intro run_plan_steps [where n = n and amount = amount and change = change])
      (simp_all add: session_len_def)
  then obtain ts s' where r: "run_session s outs = Inr (ts, s')" "session_is_done s'" "length ts = length (x # sts)"
    "ss_wallet s' = filter (\<lambda>n. sn_commitment n \<notin> ?c ` set is) wallet"
    unfolding sf(1) s(2) set_map by blast
  moreover have "length (x # sts) = session_len s" using s(1) ps x(1) by (simp add: session_len_def)
  ultimately show ?thesis using sel
    by (intro exI [of _ ts] exI [of _ s'] exI [of _ "is"] exI [of _ change]) simp
qed

text \<open>With at most three notes a merged note is never mistaken for another one.\<close>

lemma three_notes_unambiguous:
  assumes sel: "selection (map sn_amount wallet) is (note_value amount + change_value change)"
    and "is \<noteq> []" and "length is \<le> 3" and below: "3 \<le> length is \<longrightarrow> pairs_below (map sn_amount wallet) amount"
    and fit: "length is = 1 \<or> notes_sum wallet is < 2 ^ 128"
  shows "unambiguous wallet (selection_steps amount wallet is change)"
proof -
  consider i where "is = [i]" | i j where "is = [i, j]" | i j k where "is = [i, j, k]"
    using assms(2,3) by (cases "is"; cases "tl is"; cases "tl (tl is)"; cases "tl (tl (tl is))") auto
  then show ?thesis
  proof cases
    case 3
    let ?v = "\<lambda>i. note_value (sn_amount (wallet ! i))"
    have lt: "i < length wallet" "j < length wallet" "k < length wallet"
      and tot: "note_value amount \<le> ?v i + ?v j + ?v k"
      using sel 3 by (auto simp: selection_notes)
    have "?v i + ?v j < 2 ^ 128" using fit 3 by simp
    then have v: "note_value (NoteAmount (of_nat (?v i + ?v j))) = ?v i + ?v j" by (rule note_of_nat)
    have key: "n = wallet ! k" if mem: "n \<in> set wallet" and va: "note_value (sn_amount n) = ?v i + ?v j" for n
    proof (rule ccontr)
      assume ne: "n \<noteq> wallet ! k"
      obtain l where l: "l < length wallet" "n = wallet ! l" using mem by (auto simp: in_set_conv_nth)
      with ne have "l \<noteq> k" by auto
      with below 3 l lt have "?v l + ?v k < note_value amount" by (auto simp: pairs_below_def)
      with va l tot show False by simp
    qed
    have steps: "selection_steps amount wallet is change =
      [\<lparr>step_inputs = (from_spendable (wallet ! i), Some (from_spendable (wallet ! j))),
        step_act = Consolidate (NoteAmount (of_nat (?v i + ?v j)))\<rparr>,
       \<lparr>step_inputs = (from_amount (NoteAmount (of_nat (?v i + ?v j))), Some (from_spendable (wallet ! k))),
        step_act = Final amount change\<rparr>]"
      using 3 by (simp add: selection_steps_def set_last_final_def Let_def)
    show ?thesis unfolding steps unambiguous_def using key v by (auto simp: note_eq_iff)
  qed (auto simp: selection_steps_def set_last_final_def unambiguous_def Let_def)
qed

lemma session_unambiguous:
  assumes "unstable_sort_ok srt" and "length wallet < 2 ^ 32"
    and "session_setup srt wallet amount pool target = Inr s" and "session_len s \<le> 2"
  shows "unambiguous wallet (ss_steps s)"
proof -
  from assms(3) obtain p where p: "plan srt amount wallet = Inr p" "ss_steps s = plan_steps p"
    by (auto simp: session_setup_iff)
  from plan_Inr [OF assms(1,2) p(1)] obtain "is" change where f: "is \<noteq> []"
    "selection (map sn_amount wallet) is (note_value amount + change_value change)"
    "length is \<le> TRANSACTION_LIMIT" "plan_steps p = selection_steps amount wallet is change"
    "steps_for amount wallet is change (plan_steps p)"
    "3 \<le> length is \<longrightarrow> pairs_below (map sn_amount wallet) amount"
    "length is = 1 \<or> notes_sum wallet is < 2 ^ 128" .
  have "length is \<le> 3" using f(5) p(2) assms(4) by (simp add: steps_for_def session_len_def)
  then show ?thesis using three_notes_unambiguous [OF f(2,1) _ f(6,7)] f(4) p(2) by simp
qed

section \<open>Properties\<close>

text \<open>
  C20: Every call that a session asks for conserves value: its inputs are one or two notes of the current
  wallet snapshot, and what they are worth, plus the signed external amount, is exactly what the two
  outputs are worth. So a transfer pays out nothing and a withdrawal takes exactly the difference out
  of the pool.
\<close>

theorem session_calls_balanced:
  assumes "unstable_sort_ok srt" and "length wallet < 2 ^ 32"
    and "session_reachable srt wallet amount target s" and "session_step s = Inr (Some t)"
  shows "\<exists>rs. set rs \<subseteq> set (ss_wallet s) \<and> length rs \<le> 2 \<and> tc_input_commitments t = map sn_commitment rs \<and>
    int (sum_list (map (note_value \<circ> sn_amount) rs)) + ext_value (tc_ext_amount t) =
      int (note_value (fst (tc_output_amounts t)) + note_value (snd (tc_output_amounts t)))"
proof -
  from session_reachable_steps [OF assms(3)] obtain p where p: "plan srt amount wallet = Inr p"
    "ss_steps s = plan_steps p" by blast
  from assms(4) obtain st rs where st: "vec_get (ss_steps s) (ss_step_index s) = Some st"
    and rs: "resolve st (ss_wallet s) = Inr rs"
    and mat: "materialize_step st (ss_pool_address s) (ss_target s) rs = Inr t"
    by (auto simp: session_step_def outcome_simps split: if_splits)
  from plan_Inr [OF assms(1,2) p(1)] obtain "is" change where "steps_for amount wallet is change (plan_steps p)" .
  then have "step_in st = step_out st"
    using st p(2) by (auto simp: steps_for_def vec_get_Some_iff)
  from materialize_balanced [OF mat this] resolve_sound [OF rs] show ?thesis
    by (intro exI [of _ rs]) (simp add: call_balanced_def)
qed

text \<open>
  C19: A session runs to its end. If the wallet lists distinct notes, the outputs get fresh commitments,
  a withdrawal fits in the signed amount and, for plans of more than two steps, no other note has the
  amount of a merged note, then every step succeeds, the session is done after exactly its number of steps, and
  the wallet snapshot has lost exactly the notes of a selection that covers the amount. For plans of
  at most two steps (up to three notes) the merged note is always recognised.
\<close>

theorem session_completes:
  assumes "unstable_sort_ok srt" and "length wallet < 2 ^ 32" and "distinct (map sn_commitment wallet)"
    and "session_setup srt wallet amount pool target = Inr s" and "payable target amount"
    and "session_len s \<le> 2 \<or> unambiguous wallet (ss_steps s)"
    and "length outs = session_len s" and "fst ` set outs \<inter> sn_commitment ` set wallet = {}"
  shows "\<exists>ts s' is change. run_session s outs = Inr (ts, s') \<and> session_is_done s' \<and>
    length ts = session_len s \<and> selection (map sn_amount wallet) is (note_value amount + change_value change) \<and>
    ss_wallet s' = filter (\<lambda>n. sn_commitment n \<notin> (\<lambda>i. sn_commitment (wallet ! i)) ` set is) wallet"
  using session_run_completes [OF assms(1-5) _ assms(7,8)] session_unambiguous [OF assms(1,2,4)] assms(6)
  by blast

definition sample_session :: spend_session where
  "sample_session =
    \<lparr>ss_steps = [\<lparr>step_inputs = (from_spendable (sample_wallet ! 0), Some (from_spendable (sample_wallet ! 2))),
       step_act = Final (NoteAmount 10) None\<rparr>],
     ss_wallet = sample_wallet, ss_pool_address = ''POOL'', ss_target = Withdraw ''G'', ss_step_index = 0\<rparr>"

lemma sample_setup:
  "session_setup (sort_key snd) sample_wallet (NoteAmount 10) ''POOL'' (Withdraw ''G'') = Inr sample_session"
  by (simp add: session_setup_def sample_plan validate_target_def sample_session_def)

lemma session_calls_balanced_witness:
  "\<exists>t rs. session_step sample_session = Inr (Some t) \<and> set rs \<subseteq> set sample_wallet \<and>
    int (sum_list (map (note_value \<circ> sn_amount) rs)) + ext_value (tc_ext_amount t) =
      int (note_value (fst (tc_output_amounts t)) + note_value (snd (tc_output_amounts t)))"
proof -
  have len: "length sample_wallet < 2 ^ 32" by (simp add: sample_wallet_def)
  let ?st = "\<lparr>step_inputs = (from_spendable (sample_wallet ! 0), Some (from_spendable (sample_wallet ! 2))),
       step_act = Final (NoteAmount 10) None\<rparr>"
  have res: "resolve ?st sample_wallet = Inr [sample_wallet ! 0, sample_wallet ! 2]"
    by (simp add: resolve_def resolve_input_note_def sample_wallet_def)
  obtain t where t: "materialize_step ?st ''POOL'' (Withdraw ''G'') [sample_wallet ! 0, sample_wallet ! 2] = Inr t"
    using materialize_ok [of "Withdraw ''G''" "NoteAmount 10" ?st _ None] by (auto simp: payable_def)
  have step: "session_step sample_session = Inr (Some t)"
    using res t by (simp add: session_step_def sample_session_def session_is_done_def vec_get_def)
  have w: "ss_wallet sample_session = sample_wallet" by (simp add: sample_session_def)
  from session_calls_balanced [OF sort_key_ok len session_start [OF sample_setup] step] w step
  show ?thesis by auto
qed

lemma session_completes_witness:
  "\<exists>ts s'. run_session sample_session [(Field 7, Field 8)] = Inr (ts, s') \<and> session_is_done s' \<and> length ts = 1"
proof -
  have w: "length sample_wallet < 2 ^ 32" "distinct (map sn_commitment sample_wallet)"
    "payable (Withdraw ''G'') (NoteAmount 10)" "session_len sample_session = 1"
    "fst ` set [(Field 7, Field 8)] \<inter> sn_commitment ` set sample_wallet = {}"
    by (simp_all add: sample_wallet_def payable_def session_len_def sample_session_def)
  from session_completes [OF sort_key_ok w(1,2) sample_setup w(3) _ _ w(5)] w(4) show ?thesis by auto
qed

end
