(* ===== verification/Poseidon2.thy ===== *)
theory Poseidon2
  imports Prelude "HOL-Library.Monad_Syntax"
begin

text \<open>
  The Poseidon2 permutation of the crate \<open>poseidon2\<close> (\<open>poseidon2/src/poseidon2/poseidon2.rs\<close> and
  \<open>poseidon2_params.rs\<close>), generic in the prime field: an element is the integer \<open>0 \<le> x < p\<close> that
  represents it, and \<open>p\<close> is an argument of every definition. A panic (an assertion, an index out of
  range, an unsupported width or degree) is \<open>None\<close>.

  The specification is the permutation as it is published: linear layers as multiplications by a
  matrix, the S-box as a power. The section on equivalence shows that the optimised layers of the
  code compute it.
\<close>

section \<open>Field operations\<close>

text \<open>\<open>add_assign\<close>, \<open>mul_assign\<close>, \<open>double_in_place\<close> and \<open>square_in_place\<close> of \<open>PrimeField\<close>.\<close>

definition fp_add :: "int \<Rightarrow> int \<Rightarrow> int \<Rightarrow> int" where
  "fp_add p a b = (a + b) mod p"

definition fp_mul :: "int \<Rightarrow> int \<Rightarrow> int \<Rightarrow> int" where
  "fp_mul p a b = (a * b) mod p"

definition fp_double :: "int \<Rightarrow> int \<Rightarrow> int" where
  "fp_double p a = fp_add p a a"

definition fp_square :: "int \<Rightarrow> int \<Rightarrow> int" where
  "fp_square p a = fp_mul p a a"

section \<open>Parameters\<close>

record poseidon2_params =
  width :: nat
  sbox_degree :: nat
  rounds_f_div_2 :: nat
  rounds_p :: nat
  rounds :: nat
  mat_internal_diag_m_1 :: "int list"
  mat_internal :: "int list list"
  round_constants :: "int list list"

definition params_new ::
  "nat \<Rightarrow> nat \<Rightarrow> nat \<Rightarrow> nat \<Rightarrow> int list \<Rightarrow> int list list \<Rightarrow> int list list \<Rightarrow> poseidon2_params option" where
  "params_new t d rounds_f rnds_p diag mat rcs =
    (if \<not> (d = 3 \<or> d = 5 \<or> d = 7 \<or> d = 11) then None
     else if rounds_f mod 2 \<noteq> 0 then None
     else
       let r = rounds_f div 2; rnds = rounds_f + rnds_p in
       Some \<lparr> width = t, sbox_degree = d, rounds_f_div_2 = r, rounds_p = rnds_p, rounds = rnds,
              mat_internal_diag_m_1 = diag, mat_internal = mat, round_constants = rcs \<rparr>)"

text \<open>
  \<open>mat_vec_mul\<close>: every row of the matrix against the whole input; an entry that is missing panics
  (the length check of the code is a debug assertion).
\<close>

fun mat_row_mul :: "int \<Rightarrow> int list \<Rightarrow> int list \<Rightarrow> int \<Rightarrow> int option" where
  "mat_row_mul p row [] out = Some out"
| "mat_row_mul p [] (inp # input) out = None"
| "mat_row_mul p (m # row) (inp # input) out = mat_row_mul p row input (fp_add p out (fp_mul p m inp))"

definition mat_vec_mul :: "int \<Rightarrow> int list list \<Rightarrow> int list \<Rightarrow> int list option" where
  "mat_vec_mul p mat input = those (map (\<lambda>row. mat_row_mul p row input 0) mat)"

section \<open>Layers of the permutation\<close>

definition sbox_p :: "int \<Rightarrow> nat \<Rightarrow> int \<Rightarrow> int option" where
  "sbox_p p d input =
    (let input2 = fp_square p input in
     if d = 3 then Some (fp_mul p input2 input)
     else if d = 5 then Some (fp_mul p (fp_square p input2) input)
     else if d = 7 then Some (fp_mul p (fp_mul p (fp_square p input2) input2) input)
     else None)"

definition sbox :: "int \<Rightarrow> nat \<Rightarrow> int list \<Rightarrow> int list option" where
  "sbox p d input = those (map (sbox_p p d) input)"

definition add_rc :: "int \<Rightarrow> int list \<Rightarrow> int list \<Rightarrow> int list" where
  "add_rc p input rc = map (\<lambda>(a, b). fp_add p a b) (zip input rc)"

text \<open>One iteration of the loop of \<open>matmul_m4\<close>, on the four elements from \<open>4 * i\<close>.\<close>

definition matmul_m4_step :: "int \<Rightarrow> nat \<Rightarrow> int list \<Rightarrow> int list option" where
  "matmul_m4_step p i input =
    (let start_index = i * 4 in
     do { a \<leftarrow> vec_get input start_index;
          b \<leftarrow> vec_get input (start_index + 1);
          c \<leftarrow> vec_get input (start_index + 2);
          d \<leftarrow> vec_get input (start_index + 3);
          let t_0 = fp_add p a b;
          let t_1 = fp_add p c d;
          let t_2 = fp_add p (fp_double p b) t_1;
          let t_3 = fp_add p (fp_double p d) t_0;
          let t_4 = fp_add p (fp_double p (fp_double p t_1)) t_3;
          let t_5 = fp_add p (fp_double p (fp_double p t_0)) t_2;
          let t_6 = fp_add p t_3 t_5;
          let t_7 = fp_add p t_2 t_4;
          Some (input[start_index := t_6, start_index + 1 := t_5, start_index + 2 := t_7,
                      start_index + 3 := t_4]) })"

text \<open>A \<open>for\<close> loop whose body may panic.\<close>

fun loop_opt :: "('i \<Rightarrow> 's \<Rightarrow> 's option) \<Rightarrow> 'i list \<Rightarrow> 's \<Rightarrow> 's option" where
  "loop_opt f [] s = Some s"
| "loop_opt f (i # is) s = f i s \<bind> loop_opt f is"

definition matmul_m4 :: "int \<Rightarrow> nat \<Rightarrow> int list \<Rightarrow> int list option" where
  "matmul_m4 p t input = loop_opt (matmul_m4_step p) [0..<t div 4] input"

text \<open>\<open>stored[l]\<close>: the sum of the elements at \<open>l, l + 4, \<dots>\<close>.\<close>

definition matmul_stored :: "int \<Rightarrow> nat \<Rightarrow> int list \<Rightarrow> nat \<Rightarrow> int option" where
  "matmul_stored p t4 input l =
    do { s \<leftarrow> vec_get input l;
         loop_opt (\<lambda>j s. do { x \<leftarrow> vec_get input (4 * j + l); Some (fp_add p s x) }) [1..<t4] s }"

definition matmul_external :: "int \<Rightarrow> nat \<Rightarrow> int list \<Rightarrow> int list option" where
  "matmul_external p t input =
    (if t = 2 then
       do { a \<leftarrow> vec_get input 0; b \<leftarrow> vec_get input 1;
            let s = fp_add p a b;
            Some (input[0 := fp_add p a s, 1 := fp_add p b s]) }
     else if t = 3 then
       do { a \<leftarrow> vec_get input 0; b \<leftarrow> vec_get input 1; c \<leftarrow> vec_get input 2;
            let s = fp_add p (fp_add p a b) c;
            Some (input[0 := fp_add p a s, 1 := fp_add p b s, 2 := fp_add p c s]) }
     else if t = 4 then matmul_m4 p t input
     else if t \<in> {8, 12, 16, 20, 24} then
       do { input \<leftarrow> matmul_m4 p t input;
            stored \<leftarrow> those (map (matmul_stored p (t div 4) input) [0..<4]);
            Some (map (\<lambda>i. fp_add p (input ! i) (stored ! (i mod 4))) [0..<length input]) }
     else None)"

definition matmul_internal :: "int \<Rightarrow> nat \<Rightarrow> int list \<Rightarrow> int list \<Rightarrow> int list option" where
  "matmul_internal p t input diag =
    (if t = 2 then
       do { a \<leftarrow> vec_get input 0; b \<leftarrow> vec_get input 1;
            let s = fp_add p a b;
            Some (input[0 := fp_add p a s, 1 := fp_add p (fp_double p b) s]) }
     else if t = 3 then
       do { a \<leftarrow> vec_get input 0; b \<leftarrow> vec_get input 1; c \<leftarrow> vec_get input 2;
            let s = fp_add p (fp_add p a b) c;
            Some (input[0 := fp_add p a s, 1 := fp_add p b s, 2 := fp_add p (fp_double p c) s]) }
     else if t \<in> {4, 8, 12, 16, 20, 24} then
       do { a \<leftarrow> vec_get input 0;
            let s = foldl (fp_add p) a (take (t - 1) (drop 1 input));
            those (map (\<lambda>i. do { m \<leftarrow> vec_get diag i; Some (fp_add p (fp_mul p (input ! i) m) s) })
                    [0..<length input]) }
     else None)"

definition full_round :: "int \<Rightarrow> poseidon2_params \<Rightarrow> nat \<Rightarrow> int list \<Rightarrow> int list option" where
  "full_round p pp r state =
    do { rc \<leftarrow> vec_get (round_constants pp) r;
         state \<leftarrow> sbox p (sbox_degree pp) (add_rc p state rc);
         matmul_external p (width pp) state }"

definition partial_round :: "int \<Rightarrow> poseidon2_params \<Rightarrow> nat \<Rightarrow> int list \<Rightarrow> int list option" where
  "partial_round p pp r state =
    do { rc \<leftarrow> vec_get (round_constants pp) r;
         c \<leftarrow> vec_get rc 0;
         x \<leftarrow> vec_get state 0;
         y \<leftarrow> sbox_p p (sbox_degree pp) (fp_add p x c);
         matmul_internal p (width pp) (state[0 := y]) (mat_internal_diag_m_1 pp) }"

definition permutation :: "int \<Rightarrow> poseidon2_params \<Rightarrow> int list \<Rightarrow> int list option" where
  "permutation p pp input =
    (let t = width pp; p_end = rounds_f_div_2 pp + rounds_p pp in
     if length input \<noteq> t then None
     else
       do { state \<leftarrow> matmul_external p t input;
            state \<leftarrow> loop_opt (full_round p pp) [0..<rounds_f_div_2 pp] state;
            state \<leftarrow> loop_opt (partial_round p pp) [rounds_f_div_2 pp..<p_end] state;
            loop_opt (full_round p pp) [p_end..<rounds pp] state })"

section \<open>Specification\<close>

text \<open>The product of the \<open>t \<times> t\<close> matrix with entries \<open>e i j\<close> and a vector.\<close>

definition mat_apply :: "int \<Rightarrow> nat \<Rightarrow> (nat \<Rightarrow> nat \<Rightarrow> int) \<Rightarrow> int list \<Rightarrow> int list" where
  "mat_apply p t e v = map (\<lambda>i. (\<Sum>j<t. e i j * v ! j) mod p) [0..<t]"

text \<open>
  The matrix of the external layer: \<open>circ(2, 1)\<close>, \<open>circ(2, 1, 1)\<close>, the matrix \<open>M4\<close>, and for wider
  states the block matrix \<open>circ(2 M4, M4, \<dots>, M4)\<close>.
\<close>

definition m4_matrix :: "int list list" where
  "m4_matrix = [[5, 7, 1, 3], [4, 6, 1, 1], [1, 3, 5, 7], [1, 1, 4, 6]]"

definition external_entry :: "nat \<Rightarrow> nat \<Rightarrow> nat \<Rightarrow> int" where
  "external_entry t i j =
    (if t < 4 then (if i = j then 2 else 1)
     else (if 4 < t \<and> i div 4 = j div 4 then 2 else 1) * m4_matrix ! (i mod 4) ! (j mod 4))"

text \<open>The matrix of the internal layer: ones everywhere, plus the given diagonal.\<close>

definition internal_entry :: "int list \<Rightarrow> nat \<Rightarrow> nat \<Rightarrow> int" where
  "internal_entry diag i j = (if i = j then 1 + diag ! i else 1)"

definition spec_full :: "int \<Rightarrow> nat \<Rightarrow> nat \<Rightarrow> int list \<Rightarrow> int list \<Rightarrow> int list" where
  "spec_full p t d rc v = mat_apply p t (external_entry t) (map2 (\<lambda>x c. (x + c) ^ d mod p) v rc)"

definition spec_partial :: "int \<Rightarrow> nat \<Rightarrow> nat \<Rightarrow> int list \<Rightarrow> int list \<Rightarrow> int list \<Rightarrow> int list" where
  "spec_partial p t d diag rc v =
    mat_apply p t (internal_entry diag) (v[0 := (v ! 0 + rc ! 0) ^ d mod p])"

definition poseidon2_spec ::
  "int \<Rightarrow> nat \<Rightarrow> nat \<Rightarrow> nat \<Rightarrow> nat \<Rightarrow> int list \<Rightarrow> int list list \<Rightarrow> int list \<Rightarrow> int list" where
  "poseidon2_spec p t d rf rp diag rcs v =
    (let h = rf div 2 in
     fold (spec_full p t d) (drop (h + rp) rcs)
       (fold (spec_partial p t d diag) (take rp (drop h rcs))
         (fold (spec_full p t d) (take h rcs) (mat_apply p t (external_entry t) v))))"

text \<open>
  The parameter sets on which the code does not panic and whose hard-wired internal matrices (widths
  2 and 3) are the ones the diagonal stands for.
\<close>

definition params_wf :: "poseidon2_params \<Rightarrow> bool" where
  "params_wf pp \<longleftrightarrow>
    width pp \<in> {2, 3, 4, 8, 12, 16, 20, 24} \<and> sbox_degree pp \<in> {3, 5, 7} \<and>
    rounds pp = 2 * rounds_f_div_2 pp + rounds_p pp \<and>
    length (round_constants pp) = rounds pp \<and>
    list_all (\<lambda>rc. length rc = width pp) (take (rounds_f_div_2 pp) (round_constants pp)) \<and>
    list_all (\<lambda>rc. rc \<noteq> []) (round_constants pp) \<and>
    list_all (\<lambda>rc. length rc = width pp)
      (drop (rounds_f_div_2 pp + rounds_p pp) (round_constants pp)) \<and>
    length (mat_internal_diag_m_1 pp) = width pp \<and>
    (width pp = 2 \<longrightarrow> mat_internal_diag_m_1 pp = [1, 2]) \<and>
    (width pp = 3 \<longrightarrow> mat_internal_diag_m_1 pp = [1, 1, 2])"

section \<open>Elementary facts\<close>

lemma those_map_Some:
  "(\<And>x. x \<in> set xs \<Longrightarrow> f x = Some (g x)) \<Longrightarrow> those (map f xs) = Some (map g xs)"
  by (induction xs) auto

lemma loop_opt_append: "loop_opt f (xs @ ys) s = loop_opt f xs s \<bind> loop_opt f ys"
proof (induction xs arbitrary: s)
  case (Cons i xs)
  then have "loop_opt f (xs @ ys) = (\<lambda>s. loop_opt f xs s \<bind> loop_opt f ys)" by (rule ext)
  then show ?case by simp
qed simp

lemmas fp_defs = fp_double_def fp_square_def fp_add_def fp_mul_def

lemma sbox_p_power: "d \<in> {3, 5, 7} \<Longrightarrow> sbox_p p d x = Some (x ^ d mod p)"
  by (auto simp: sbox_p_def fp_defs Let_def mod_simps) (simp_all add: power_numeral_reduce mult.assoc)

lemma sbox_add_rc:
  assumes "d \<in> {3, 5, 7}"
  shows "sbox p d (add_rc p v rc) = Some (map2 (\<lambda>x c. (x + c) ^ d mod p) v rc)"
  using those_map_Some [of "add_rc p v rc" "sbox_p p d" "\<lambda>x. x ^ d mod p"] assms
  by (simp add: sbox_def sbox_p_power add_rc_def fp_add_def power_mod case_prod_unfold o_def)

lemma length_mat_apply [simp]: "length (mat_apply p t e v) = t"
  by (simp add: mat_apply_def)

lemma nth_mat_apply [simp]:
  "i < t \<Longrightarrow> mat_apply p t e v ! i = (\<Sum>j<t. e i j * v ! j) mod p"
  by (simp add: mat_apply_def)

lemma upt_two: "[0..<2] = [0, Suc 0]" and upt_three: "[0..<3] = [0, Suc 0, 2]"
  and upt_four: "[0..<4] = [0, Suc 0, 2, 3]"
  by (simp_all add: upt_rec)

lemma sum_four: "(\<Sum>m<(4::nat). f m) = f 0 + f 1 + f 2 + (f 3::int)"
  by (simp add: eval_nat_numeral)

lemma sum_blocks:
  fixes f :: "nat \<Rightarrow> int"
  shows "(\<Sum>j<4 * k. f j) = (\<Sum>q<k. \<Sum>m<4. f (4 * q + m))"
proof (induction k)
  case (Suc k)
  have "4 * Suc k = Suc (Suc (Suc (Suc (4 * k))))" by simp
  with Suc show ?case by (simp add: sum_four eval_nat_numeral add.assoc)
qed simp

section \<open>The linear layers\<close>

lemma matmul_external_small:
  assumes "length v = t" and "t \<in> {2, 3}"
  shows "matmul_external p t v = Some (mat_apply p t (external_entry t) v)"
proof (cases "t = 2")
  case True
  then obtain a b where "v = [a, b]" using assms by (auto simp: numeral_2_eq_2 length_Suc_conv)
  then show ?thesis using True
    by (simp add: matmul_external_def mat_apply_def external_entry_def fp_defs mod_simps
        upt_two numeral_2_eq_2 algebra_simps)
next
  case False
  then have t: "t = 3" using assms by simp
  then obtain a b c where "v = [a, b, c]" using assms
    by (auto simp: numeral_3_eq_3 length_Suc_conv)
  then show ?thesis using t
    by (simp add: matmul_external_def mat_apply_def external_entry_def fp_defs mod_simps
        upt_three eval_nat_numeral algebra_simps)
qed

lemma matmul_internal_small:
  assumes "length v = t" and "t = 2 \<and> diag = [1, 2] \<or> t = 3 \<and> diag = [1, 1, 2]"
  shows "matmul_internal p t v diag = Some (mat_apply p t (internal_entry diag) v)"
proof (cases "t = 2")
  case True
  then obtain a b where "v = [a, b]" using assms by (auto simp: numeral_2_eq_2 length_Suc_conv)
  then show ?thesis using True assms
    by (simp add: matmul_internal_def mat_apply_def internal_entry_def fp_defs mod_simps
        upt_two numeral_2_eq_2 algebra_simps)
next
  case False
  then have t: "t = 3" using assms by simp
  then obtain a b c where "v = [a, b, c]" using assms
    by (auto simp: numeral_3_eq_3 length_Suc_conv)
  then show ?thesis using t assms
    by (simp add: matmul_internal_def mat_apply_def internal_entry_def fp_defs mod_simps
        upt_three eval_nat_numeral algebra_simps)
qed

lemma foldl_fp_add: "foldl (fp_add p) a xs mod p = (a + sum_list xs) mod p"
proof (induction xs arbitrary: a)
  case (Cons x xs)
  have "foldl (fp_add p) a (x # xs) mod p = (fp_add p a x + sum_list xs) mod p"
    using Cons by simp
  also have "\<dots> = (a + sum_list (x # xs)) mod p" by (simp add: fp_add_def mod_simps add.assoc)
  finally show ?case .
qed simp

lemma matmul_internal_large:
  assumes len: "length v = t" "length diag = t" and t: "t \<in> {4, 8, 12, 16, 20, 24}"
  shows "matmul_internal p t v diag = Some (mat_apply p t (internal_entry diag) v)"
proof -
  obtain a w where v: "v = a # w" and w: "length w = t - 1"
    using len t by (cases v) auto
  define s where "s = foldl (fp_add p) a w"
  have s: "s mod p = (\<Sum>j<t. v ! j) mod p"
  proof -
    have "(\<Sum>j<t. v ! j) = sum_list v"
      using len(1) by (simp add: sum_list_sum_nth atLeast0LessThan)
    then show ?thesis by (simp add: s_def foldl_fp_add v)
  qed
  have entry: "fp_add p (fp_mul p (v ! i) (diag ! i)) s = (\<Sum>j<t. internal_entry diag i j * v ! j) mod p"
    if "i < t" for i
  proof -
    have "(\<Sum>j<t. internal_entry diag i j * v ! j) =
        (\<Sum>j<t. v ! j + (if j = i then diag ! i * v ! i else 0))"
      by (intro sum.cong) (auto simp: internal_entry_def algebra_simps)
    also have "\<dots> = (\<Sum>j<t. v ! j) + diag ! i * v ! i"
      using that by (simp add: sum.distrib)
    finally show ?thesis
      using s by (simp add: fp_defs mod_simps) (metis add.commute mod_add_left_eq mult.commute)
  qed
  have "those (map (\<lambda>i. do { m \<leftarrow> vec_get diag i; Some (fp_add p (fp_mul p (v ! i) m) s) }) [0..<t]) =
      Some (mat_apply p t (internal_entry diag) v)"
    unfolding mat_apply_def using len entry by (intro those_map_Some) simp
  moreover have "t \<noteq> 2" "t \<noteq> 3" using t by auto
  ultimately show ?thesis
    using t len v w by (simp add: matmul_internal_def s_def Let_def)
qed

text \<open>One block of four, multiplied by \<open>M4\<close>.\<close>

definition m4_block :: "int list \<Rightarrow> nat \<Rightarrow> nat \<Rightarrow> int" where
  "m4_block v l q = (\<Sum>m<4. m4_matrix ! l ! m * v ! (4 * q + m))"

lemma m4_rows:
  "m4_block v 0 q = 5 * v ! (4 * q) + 7 * v ! (4 * q + 1) + v ! (4 * q + 2) + 3 * v ! (4 * q + 3)"
  "m4_block v (Suc 0) q = 4 * v ! (4 * q) + 6 * v ! (4 * q + 1) + v ! (4 * q + 2) + v ! (4 * q + 3)"
  "m4_block v 2 q = v ! (4 * q) + 3 * v ! (4 * q + 1) + 5 * v ! (4 * q + 2) + 7 * v ! (4 * q + 3)"
  "m4_block v 3 q = v ! (4 * q) + v ! (4 * q + 1) + 4 * v ! (4 * q + 2) + 6 * v ! (4 * q + 3)"
  by (simp_all add: m4_block_def sum_four m4_matrix_def)

text \<open>The addition chain of the loop body computes the four rows.\<close>

lemma m4_chain:
  fixes a b c d p :: int
  defines "t_0 \<equiv> fp_add p a b" and "t_1 \<equiv> fp_add p c d"
  defines "t_2 \<equiv> fp_add p (fp_double p b) t_1" and "t_3 \<equiv> fp_add p (fp_double p d) t_0"
  defines "t_4 \<equiv> fp_add p (fp_double p (fp_double p t_1)) t_3"
    and "t_5 \<equiv> fp_add p (fp_double p (fp_double p t_0)) t_2"
  shows "t_4 = (a + b + 4 * c + 6 * d) mod p" and "t_5 = (4 * a + 6 * b + c + d) mod p"
    and "fp_add p t_3 t_5 = (5 * a + 7 * b + c + 3 * d) mod p"
    and "fp_add p t_2 t_4 = (a + 3 * b + 5 * c + 7 * d) mod p"
proof -
  have t2: "t_2 = (2 * b + c + d) mod p"
    unfolding t_2_def t_1_def fp_defs mod_simps by (rule arg_cong [where f = "\<lambda>x. x mod p"]) simp
  have t3: "t_3 = (2 * d + a + b) mod p"
    unfolding t_3_def t_0_def fp_defs mod_simps by (rule arg_cong [where f = "\<lambda>x. x mod p"]) simp
  show t4: "t_4 = (a + b + 4 * c + 6 * d) mod p"
    unfolding t_4_def t3 t_1_def fp_defs mod_simps by (rule arg_cong [where f = "\<lambda>x. x mod p"]) simp
  show t5: "t_5 = (4 * a + 6 * b + c + d) mod p"
    unfolding t_5_def t2 t_0_def fp_defs mod_simps by (rule arg_cong [where f = "\<lambda>x. x mod p"]) simp
  show "fp_add p t_3 t_5 = (5 * a + 7 * b + c + 3 * d) mod p"
    unfolding t3 t5 fp_defs mod_simps by (rule arg_cong [where f = "\<lambda>x. x mod p"]) simp
  show "fp_add p t_2 t_4 = (a + 3 * b + 5 * c + 7 * d) mod p"
    unfolding t2 t4 fp_defs mod_simps by (rule arg_cong [where f = "\<lambda>x. x mod p"]) simp
qed

lemma matmul_m4_step_rows:
  assumes "4 * q + 3 < length w" and "\<And>m. m < 4 \<Longrightarrow> w ! (4 * q + m) = v ! (4 * q + m)"
  shows "matmul_m4_step p q w = Some (w[4 * q := m4_block v 0 q mod p,
    4 * q + 1 := m4_block v (Suc 0) q mod p, 4 * q + 2 := m4_block v 2 q mod p,
    4 * q + 3 := m4_block v 3 q mod p])"
proof -
  have get: "vec_get w (q * 4) = Some (v ! (4 * q))" "vec_get w (q * 4 + 1) = Some (v ! (4 * q + 1))"
    "vec_get w (q * 4 + 2) = Some (v ! (4 * q + 2))" "vec_get w (q * 4 + 3) = Some (v ! (4 * q + 3))"
    using assms(1) assms(2) [of 0] assms(2) [of 1] assms(2) [of 2] assms(2) [of 3]
    by (simp_all add: vec_get_def mult.commute [of q])
  show ?thesis
    unfolding matmul_m4_step_def Let_def get bind.bind_lunit m4_chain(3,4)
    unfolding m4_chain(1) m4_rows mult.commute [of q 4] by (simp add: ac_simps)
qed

lemma matmul_m4_prefix:
  assumes "length v = 4 * k" and "n \<le> k"
  shows "loop_opt (matmul_m4_step p) [0..<n] v =
    Some (map (\<lambda>i. if i < 4 * n then m4_block v (i mod 4) (i div 4) mod p else v ! i) [0..<4 * k])"
  using assms(2)
proof (induction n)
  case 0
  then show ?case using assms(1) by (simp add: list_eq_iff_nth_eq)
next
  case (Suc n)
  define w where
    "w = map (\<lambda>i. if i < 4 * n then m4_block v (i mod 4) (i div 4) mod p else v ! i) [0..<4 * k]"
  have lw: "length w = 4 * k" by (simp add: w_def)
  have step: "matmul_m4_step p n w = Some (w[4 * n := m4_block v 0 n mod p,
      4 * n + 1 := m4_block v (Suc 0) n mod p, 4 * n + 2 := m4_block v 2 n mod p,
      4 * n + 3 := m4_block v 3 n mod p])" (is "_ = Some ?w'")
    using Suc.prems by (intro matmul_m4_step_rows) (auto simp: w_def)
  have "?w' = map (\<lambda>i. if i < 4 * Suc n then m4_block v (i mod 4) (i div 4) mod p else v ! i) [0..<4 * k]"
  proof (rule nth_equalityI)
    fix i assume "i < length ?w'"
    then have i: "i < 4 * k" by (simp add: lw)
    consider "i < 4 * n" | "i = 4 * n" | "i = 4 * n + 1" | "i = 4 * n + 2" | "i = 4 * n + 3"
      | "4 * Suc n \<le> i" by fastforce
    then show "?w' ! i = map (\<lambda>i. if i < 4 * Suc n then m4_block v (i mod 4) (i div 4) mod p
        else v ! i) [0..<4 * k] ! i"
      using i Suc.prems by cases (simp_all add: lw, simp_all add: w_def mod_Suc div_Suc numeral_2_eq_2)
  qed (simp add: lw)
  with Suc step show ?case by (simp add: loop_opt_append flip: w_def)
qed

lemma matmul_m4_rows:
  "length v = 4 * k \<Longrightarrow> matmul_m4 p (4 * k) v =
     Some (map (\<lambda>i. m4_block v (i mod 4) (i div 4) mod p) [0..<4 * k])"
  by (simp add: matmul_m4_def matmul_m4_prefix [OF _ order.refl])

lemma matmul_stored_sum:
  assumes "length w = 4 * k" and "0 < k" and "l < 4" and "w ! l mod p = w ! l"
  shows "matmul_stored p k w l = Some ((\<Sum>q<k. w ! (4 * q + l)) mod p)"
proof -
  let ?f = "\<lambda>j s. do { x \<leftarrow> vec_get w (4 * j + l); Some (fp_add p s x) }"
  have "loop_opt ?f [1..<Suc n] (w ! l) = Some ((\<Sum>q<Suc n. w ! (4 * q + l)) mod p)"
    if "n < k" for n
    using that
  proof (induction n)
    case 0
    then show ?case using assms(4) by simp
  next
    case (Suc n)
    then have "4 * Suc n + l < length w" using assms(1,3) by simp
    moreover have "[1..<Suc (Suc n)] = [1..<Suc n] @ [Suc n]" by simp
    ultimately show ?case
      using Suc by (simp only: loop_opt_append) (simp add: fp_add_def mod_simps add.assoc)
  qed
  from this [of "k - 1"] show ?thesis
    using assms by (simp add: matmul_stored_def)
qed

lemma external_block_sum:
  assumes i: "i < 4 * k"
  shows "(\<Sum>j<4 * k. external_entry (4 * k) i j * v ! j) =
    (if k = 1 then 0 else m4_block v (i mod 4) (i div 4)) + (if k = 1 then m4_block v (i mod 4) (i div 4)
      else \<Sum>q<k. m4_block v (i mod 4) q)"
proof -
  let ?B = "m4_block v (i mod 4)"
  have ent: "external_entry (4 * k) i (4 * q + m) =
      (if 1 < k \<and> i div 4 = q then 2 else 1) * m4_matrix ! (i mod 4) ! m"
    if "m < 4" for q m
    using that i by (auto simp: external_entry_def)
  have "(\<Sum>j<4 * k. external_entry (4 * k) i j * v ! j) =
      (\<Sum>q<k. \<Sum>m<4. (if 1 < k \<and> i div 4 = q then 2 else 1) * (m4_matrix ! (i mod 4) ! m * v ! (4 * q + m)))"
    unfolding sum_blocks by (intro sum.cong refl) (simp only: lessThan_iff ent mult.assoc)
  also have "\<dots> = (\<Sum>q<k. (if 1 < k \<and> i div 4 = q then 2 else 1) * ?B q)"
    by (simp only: m4_block_def sum_distrib_left)
  also have "\<dots> = (\<Sum>q<k. ?B q + (if 1 < k \<and> q = i div 4 then ?B (i div 4) else 0))"
    by (intro sum.cong) auto
  also have "\<dots> = (\<Sum>q<k. ?B q) + (if 1 < k then ?B (i div 4) else 0)"
    using i by (cases "1 < k") (simp_all add: sum.distrib div_less_iff_less_mult mult.commute)
  finally show ?thesis using i by (cases "k = 1") auto
qed

lemma matmul_external_large:
  assumes len: "length v = t" and t: "t \<in> {4, 8, 12, 16, 20, 24}"
  shows "matmul_external p t v = Some (mat_apply p t (external_entry t) v)"
proof -
  obtain k where k: "t = 4 * k" "0 < k" and one: "k = 1 \<longleftrightarrow> t = 4"
    using t by (intro that [of "t div 4"]) auto
  define w where "w = map (\<lambda>i. m4_block v (i mod 4) (i div 4) mod p) [0..<t]"
  have m4: "matmul_m4 p t v = Some w" using len k by (simp add: matmul_m4_rows w_def)
  have small: "t \<noteq> 2" "t \<noteq> 3" using t by auto
  show ?thesis
  proof (cases "t = 4")
    case True
    then have "w = mat_apply p t (external_entry t) v"
      using one k external_block_sum [of _ 1 v] unfolding w_def mat_apply_def
      by (intro map_cong refl) simp
    with m4 True show ?thesis by (simp add: matmul_external_def)
  next
    case False
    have sum: "(\<Sum>q<k. w ! (4 * q + l)) mod p = (\<Sum>q<k. m4_block v l q) mod p" if "l < 4" for l
    proof -
      have "(\<Sum>q<k. w ! (4 * q + l)) = (\<Sum>q<k. m4_block v l q mod p)"
        using that k by (intro sum.cong) (auto simp: w_def)
      then show ?thesis by (simp add: mod_sum_eq)
    qed
    have "those (map (matmul_stored p k w) [0..<4]) =
        Some (map (\<lambda>l. (\<Sum>q<k. m4_block v l q) mod p) [0..<4])"
      using k by (intro those_map_Some) (simp add: matmul_stored_sum [OF _ k(2)] w_def flip: sum)
    moreover have "map (\<lambda>i. fp_add p (w ! i) (map (\<lambda>l. (\<Sum>q<k. m4_block v l q) mod p) [0..<4] ! (i mod 4)))
        [0..<t] = mat_apply p t (external_entry t) v"
      unfolding mat_apply_def using False one k
      by (intro map_cong refl) (simp add: w_def external_block_sum fp_add_def mod_simps)
    moreover have "t div 4 = k" "length w = t" using k by (simp_all add: w_def)
    ultimately show ?thesis
      using t False small m4 by (simp add: matmul_external_def)
  qed
qed

section \<open>The code computes the published permutation\<close>

lemma loop_opt_fold:
  assumes "\<And>i s. i \<in> set is \<Longrightarrow> P s \<Longrightarrow> f i s = Some (g (h i) s) \<and> P (g (h i) s)" and "P s"
  shows "loop_opt f is s = Some (fold g (map h is) s) \<and> P (fold g (map h is) s)"
  using assms by (induction "is" arbitrary: s) auto

lemma map_nth_upt: "b \<le> length xs \<Longrightarrow> map ((!) xs) [a..<b] = take (b - a) (drop a xs)"
  by (rule nth_equalityI) auto

lemma matmul_external_spec:
  "length v = t \<Longrightarrow> t \<in> {2, 3, 4, 8, 12, 16, 20, 24} \<Longrightarrow>
     matmul_external p t v = Some (mat_apply p t (external_entry t) v)"
  by (cases "t \<in> {2, 3}") (auto simp: matmul_external_small matmul_external_large)

lemma matmul_internal_spec:
  assumes "params_wf pp" and "length v = width pp"
  shows "matmul_internal p (width pp) v (mat_internal_diag_m_1 pp) =
    Some (mat_apply p (width pp) (internal_entry (mat_internal_diag_m_1 pp)) v)"
proof (cases "width pp \<in> {2, 3}")
  case True
  with assms show ?thesis by (intro matmul_internal_small) (auto simp: params_wf_def)
next
  case False
  with assms show ?thesis by (intro matmul_internal_large) (auto simp: params_wf_def)
qed

lemma full_round_spec:
  assumes "params_wf pp" and "length v = width pp"
    and "r < rounds_f_div_2 pp \<or> rounds_f_div_2 pp + rounds_p pp \<le> r \<and> r < rounds pp"
  shows "full_round p pp r v =
    Some (spec_full p (width pp) (sbox_degree pp) (round_constants pp ! r) v)"
proof -
  let ?h = "rounds_f_div_2 pp" and ?rcs = "round_constants pp"
  have r: "r < length ?rcs" using assms by (auto simp: params_wf_def)
  have "?rcs ! r \<in> set (take ?h ?rcs) \<union> set (drop (?h + rounds_p pp) ?rcs)"
    using assms(3)
  proof
    assume "r < ?h"
    then show ?thesis using r by (auto simp: in_set_conv_nth intro!: exI [of _ r])
  next
    assume "?h + rounds_p pp \<le> r \<and> r < rounds pp"
    then show ?thesis using r
      by (auto simp: in_set_conv_nth intro!: exI [of _ "r - (?h + rounds_p pp)"])
  qed
  then have "length (?rcs ! r) = width pp"
    using assms(1) by (auto simp: params_wf_def list_all_iff)
  then show ?thesis
    using assms r
    by (simp add: full_round_def sbox_add_rc matmul_external_spec spec_full_def params_wf_def)
qed

lemma partial_round_spec:
  assumes "params_wf pp" and "length v = width pp" and "r < rounds pp"
  shows "partial_round p pp r v = Some (spec_partial p (width pp) (sbox_degree pp)
    (mat_internal_diag_m_1 pp) (round_constants pp ! r) v)"
proof -
  have r: "r < length (round_constants pp)" and d: "sbox_degree pp \<in> {3, 5, 7}"
    using assms by (auto simp: params_wf_def)
  then have "round_constants pp ! r \<noteq> []" and "0 < length v"
    using assms by (auto simp: params_wf_def list_all_length)
  then show ?thesis
    using r assms
    by (simp add: partial_round_def sbox_p_power [OF d] matmul_internal_spec spec_partial_def
        fp_add_def power_mod)
qed

lemma permutation_wf:
  assumes wf: "params_wf pp" and len: "length v = width pp"
  shows "permutation p pp v = Some (poseidon2_spec p (width pp) (sbox_degree pp)
    (2 * rounds_f_div_2 pp) (rounds_p pp) (mat_internal_diag_m_1 pp) (round_constants pp) v)"
proof -
  define t d h rp rcs where
    "t = width pp" "d = sbox_degree pp" "h = rounds_f_div_2 pp" "rp = rounds_p pp"
    "rcs = round_constants pp"
  note defs = this
  have rnds: "rounds pp = 2 * h + rp" "length rcs = 2 * h + rp"
    using wf by (auto simp: params_wf_def defs)
  let ?P = "\<lambda>s. length s = t" and ?F = "spec_full p t d"
    and ?I = "spec_partial p t d (mat_internal_diag_m_1 pp)"
  have P: "?P (?F rc s)" "?P (?I rc s)" for rc s
    by (simp_all add: spec_full_def spec_partial_def)
  define s0 where "s0 = mat_apply p t (external_entry t) v"
  define s1 where "s1 = fold ?F (map ((!) rcs) [0..<h]) s0"
  define s2 where "s2 = fold ?I (map ((!) rcs) [h..<h + rp]) s1"
  have "matmul_external p t v = Some s0"
    using wf len by (simp add: s0_def defs params_wf_def matmul_external_spec)
  moreover have "loop_opt (full_round p pp) [0..<h] s0 = Some s1 \<and> ?P s1"
    unfolding s1_def using wf rnds
    by (intro loop_opt_fold) (auto simp: full_round_spec P s0_def simp flip: defs)
  moreover then have "loop_opt (partial_round p pp) [h..<h + rp] s1 = Some s2 \<and> ?P s2"
    unfolding s2_def using wf rnds
    by (intro loop_opt_fold) (auto simp: partial_round_spec P simp flip: defs)
  moreover then have "loop_opt (full_round p pp) [h + rp..<2 * h + rp] s2 =
      Some (fold ?F (map ((!) rcs) [h + rp..<2 * h + rp]) s2) \<and>
      ?P (fold ?F (map ((!) rcs) [h + rp..<2 * h + rp]) s2)"
    using wf rnds by (intro loop_opt_fold) (auto simp: full_round_spec P simp flip: defs)
  ultimately have "permutation p pp v = Some (fold ?F (map ((!) rcs) [h + rp..<2 * h + rp]) s2)"
    using len by (simp add: permutation_def rnds Let_def flip: defs)
  also have "map ((!) rcs) [h + rp..<2 * h + rp] = drop (h + rp) rcs"
    using rnds by (simp add: map_nth_upt)
  finally show ?thesis
    using rnds by (simp add: poseidon2_spec_def s2_def s1_def s0_def map_nth_upt flip: defs)
qed

lemma fold_mat_length: "(\<And>rc v. length (g rc v) = t) \<Longrightarrow> length v = t \<Longrightarrow> length (fold g rcs v) = t"
  by (induction rcs arbitrary: v) auto

lemma fold_mat_range:
  "(\<And>rc v x. x \<in> set (g rc v) \<Longrightarrow> 0 \<le> x \<and> x < p) \<Longrightarrow> (\<And>x. x \<in> set v \<Longrightarrow> 0 \<le> x \<and> x < p) \<Longrightarrow>
     x \<in> set (fold g rcs v) \<Longrightarrow> 0 \<le> x \<and> x < (p::int)"
  by (induction rcs arbitrary: v) auto

lemma mat_apply_range: "0 < p \<Longrightarrow> x \<in> set (mat_apply p t e v) \<Longrightarrow> 0 \<le> x \<and> x < p"
  by (auto simp: mat_apply_def)

lemma length_poseidon2_spec [simp]: "length (poseidon2_spec p t d rf rp diag rcs v) = t"
  unfolding poseidon2_spec_def Let_def
  by (intro fold_mat_length) (simp_all add: spec_full_def spec_partial_def)

lemma poseidon2_spec_range:
  assumes "0 < p" and "x \<in> set (poseidon2_spec p t d rf rp diag rcs v)"
  shows "0 \<le> x \<and> x < p"
proof -
  note range = mat_apply_range [OF assms(1)]
  have F: "0 \<le> x \<and> x < p" if "x \<in> set (spec_full p t d rc v)" for rc v x
    using that unfolding spec_full_def by (rule range)
  have I: "0 \<le> x \<and> x < p" if "x \<in> set (spec_partial p t d diag rc v)" for rc v x
    using that unfolding spec_partial_def by (rule range)
  show ?thesis
    using assms(2) unfolding poseidon2_spec_def Let_def
    by (elim fold_mat_range [rotated -1, of _ "spec_full p t d"] F fold_mat_range [rotated -1, of _ "spec_partial p t d diag"] I) (auto dest: range)
qed

end
