(* ===== verification/Prover_Crypto.thy ===== *)
theory Prover_Crypto
  imports Amounts Poseidon2_BN256
begin

text \<open>
  The byte formats and the hashes of the prover (\<open>app/crates/core/prover/src/serialization.rs\<close>,
  \<open>crypto.rs\<close> and \<open>types.rs\<close>). A scalar of \<open>FpBN256\<close> is the integer that represents it. The messages of
  \<open>anyhow!\<close> are constructors of \<open>prover_error\<close>; a panic is a trap. Text is a string of bytes in UTF-8.
\<close>

section \<open>Errors\<close>

datatype prover_error =
    ExpectedBytes nat nat
  | HexTooLong
  | InvalidHexCharacter
  | IndexOverflow
  | WitnessNotMultiple nat nat
  | InvalidWitnessLength
  | WitnessCountExceedsU32
  | InvalidDecimal
  | LeafExpected32Bytes
  | TreeDepthTooLarge
  | DepthOutOfRange
  | DepthOverflow
  | LeafIndexOutOfRange nat nat
  | SignatureNot64Bytes
  | RandomFailed
  | PublicKeyNot32Bytes
  | PlaintextNot48Bytes nat
  | EncryptionFailed
  | PrivateKeyNot32Bytes
  | EncryptedDataTooShort
  | TypesError types_error

abbreviation lift_types :: "types_error + 'a \<Rightarrow> (prover_error, 'a) outcome" where
  "lift_types \<equiv> map_err (\<lambda>e. Err (TypesError e))"

section \<open>Scalars and bytes\<close>

definition FIELD_SIZE :: nat where
  "FIELD_SIZE = 32"

abbreviation nat_of_le_bytes :: "bytes \<Rightarrow> nat" where
  "nat_of_le_bytes bs \<equiv> nat_of_be_bytes (rev bs)"

definition bytes_to_prime_field :: "int \<Rightarrow> bytes \<Rightarrow> (prover_error, int) outcome" where
  "bytes_to_prime_field p bs =
    (if length bs \<noteq> FIELD_SIZE then Inl (Err (ExpectedBytes FIELD_SIZE (length bs)))
     else Inr (int (nat_of_le_bytes bs) mod p))"

text \<open>\<open>into_bigint().to_bytes_le()\<close> of a field of four 64-bit limbs.\<close>

definition bigint_to_bytes_le :: "int \<Rightarrow> bytes" where
  "bigint_to_bytes_le f = rev (be_bytes_of_nat 32 (nat f))"

definition prime_field_to_bytes :: "int \<Rightarrow> (prover_error, bytes) outcome" where
  "prime_field_to_bytes f =
    (let src = bigint_to_bytes_le f in
     if length src > FIELD_SIZE then Inl Trap
     else Inr (src @ replicate (FIELD_SIZE - length src) 0))"

text \<open>The field \<open>Fr\<close> of \<open>ark_bn254\<close>: its modulus is an argument.\<close>

definition bytes_to_fr :: "int \<Rightarrow> bytes \<Rightarrow> (prover_error, int) outcome" where
  "bytes_to_fr fr_modulus bs = bytes_to_prime_field fr_modulus bs"

definition fr_to_bytes :: "int \<Rightarrow> (prover_error, bytes) outcome" where
  "fr_to_bytes fr = prime_field_to_bytes fr"

definition bytes_to_scalar :: "bytes \<Rightarrow> (prover_error, int) outcome" where
  "bytes_to_scalar bs = bytes_to_prime_field FpBN256_MODULUS bs"

definition scalar_to_bytes :: "int \<Rightarrow> (prover_error, bytes) outcome" where
  "scalar_to_bytes s = prime_field_to_bytes s"

definition field_to_scalar :: "field \<Rightarrow> int" where
  "field_to_scalar f = int (nat_of_le_bytes (field_to_le_bytes f)) mod FpBN256_MODULUS"

definition or_panic :: "'e + 'a \<Rightarrow> ('f, 'a) outcome" where
  "or_panic m = map_err (\<lambda>_. Trap) m"

definition scalar_to_field :: "int \<Rightarrow> (prover_error, field) outcome" where
  "scalar_to_field s =
    let_ok (scalar_to_bytes s) (\<lambda>le.
    let_ok (require (length le = 32) Trap) (\<lambda>_.
    or_panic (field_try_from_le_bytes le)))"

section \<open>Hexadecimal text\<close>

definition hex_digit :: "nat \<Rightarrow> char" where
  "hex_digit d = (if d < 10 then char_of (48 + d) else char_of (87 + d))"

text \<open>\<open>format!("{:02x}", byte)\<close>.\<close>

definition hex_byte :: "u8 \<Rightarrow> string" where
  "hex_byte b = [hex_digit (unat b div 16), hex_digit (unat b mod 16)]"

definition scalar_to_hex :: "int \<Rightarrow> (prover_error, string) outcome" where
  "scalar_to_hex s =
    let_ok (scalar_to_bytes s) (\<lambda>bs. Inr (''0x'' @ concat (map hex_byte (rev bs))))"

definition hex_digit_value :: "char \<Rightarrow> nat option" where
  "hex_digit_value c =
    (let n = of_char c in
     if 48 \<le> n \<and> n \<le> 57 then Some (n - 48)
     else if 97 \<le> n \<and> n \<le> 102 then Some (n - 87)
     else if 65 \<le> n \<and> n \<le> 70 then Some (n - 55)
     else None)"

text \<open>
  \<open>u8::from_str_radix(s, 16)\<close>: a leading \<open>+\<close> is skipped unless it is the whole string; a value above
  255 is an error.
\<close>

fun hex_digits_value :: "nat \<Rightarrow> string \<Rightarrow> nat option" where
  "hex_digits_value acc [] = Some acc"
| "hex_digits_value acc (c # cs) =
    (case hex_digit_value c of None \<Rightarrow> None
     | Some d \<Rightarrow> if acc * 16 + d < 256 then hex_digits_value (acc * 16 + d) cs else None)"

definition u8_from_hex :: "string \<Rightarrow> u8 option" where
  "u8_from_hex s =
    (if s = [] \<or> s = ''+'' \<or> s = ''-'' then None
     else map_option of_nat (hex_digits_value 0 (if hd s = CHR ''+'' then tl s else s)))"

text \<open>\<open>chunks(2)\<close>: the last chunk may be shorter.\<close>

fun chunks2 :: "'a list \<Rightarrow> 'a list list" where
  "chunks2 [] = []"
| "chunks2 [a] = [[a]]"
| "chunks2 (a # b # xs) = [a, b] # chunks2 xs"

text \<open>\<open>format!("{:0>64}", hex)\<close> counts characters: the bytes that do not continue a character.\<close>

definition char_count :: "string \<Rightarrow> nat" where
  "char_count s = length (filter (\<lambda>c. \<not> utf8_cont (of_char c)) s)"

fun hex_loop :: "nat \<Rightarrow> string list \<Rightarrow> bytes \<Rightarrow> (prover_error, bytes) outcome" where
  "hex_loop i [] bs = Inr bs"
| "hex_loop i (chunk # chunks) bs =
    let_ok (ok_or (from_utf8 chunk) (Err InvalidHexCharacter)) (\<lambda>byte_str.
    let_ok (ok_or (nat_checked_sub (FIELD_SIZE - 1) i) (Err IndexOverflow)) (\<lambda>idx.
    let_ok (ok_or (u8_from_hex byte_str) (Err InvalidHexCharacter)) (\<lambda>b.
    hex_loop (Suc i) chunks (bs[idx := b]))))"

definition hex_to_scalar :: "string \<Rightarrow> (prover_error, int) outcome" where
  "hex_to_scalar hex0 =
    (let hex = strip_0x hex0 in
     if length hex > 64 then Inl (Err HexTooLong)
     else
       let padded = replicate (64 - char_count hex) CHR ''0'' @ hex in
       let_ok (hex_loop 0 (chunks2 padded) (replicate FIELD_SIZE 0)) (\<lambda>bs.
       Inr (int (nat_of_le_bytes bs) mod FpBN256_MODULUS)))"

section \<open>Witness bytes and numbers\<close>

definition parse_witness :: "bytes \<Rightarrow> prover_error + bytes" where
  "parse_witness w =
    (if length w mod FIELD_SIZE \<noteq> 0 then Inl (WitnessNotMultiple (length w) FIELD_SIZE) else Inr w)"

definition witness_element_count :: "bytes \<Rightarrow> prover_error + nat" where
  "witness_element_count w =
    (if length w mod FIELD_SIZE \<noteq> 0 then Inl InvalidWitnessLength
     else let count = length w div FIELD_SIZE in
       if count < 2 ^ 32 then Inr count else Inl WitnessCountExceedsU32)"

definition u64_to_field_bytes :: "64 word \<Rightarrow> (prover_error, bytes) outcome" where
  "u64_to_field_bytes v = scalar_to_bytes (uint v mod FpBN256_MODULUS)"

definition decimal_to_field_bytes :: "string \<Rightarrow> (prover_error, bytes) outcome" where
  "decimal_to_field_bytes decimal =
    (let p = FpBN256_MODULUS in
     let_ok (ok_or (parse_u128 decimal) (Err InvalidDecimal)) (\<lambda>v.
     let low = uint v mod 2 ^ 64;
         high = uint v div 2 ^ 64;
         scalar = fp_add p (low mod p) (fp_mul p (high mod p) (fp_square p (2 ^ 32 mod p))) in
     scalar_to_bytes scalar))"

definition field_bytes_to_hex :: "bytes \<Rightarrow> (prover_error, string) outcome" where
  "field_bytes_to_hex bs = let_ok (bytes_to_scalar bs) scalar_to_hex"

definition hex_to_field_bytes :: "string \<Rightarrow> (prover_error, bytes) outcome" where
  "hex_to_field_bytes hex = let_ok (hex_to_scalar hex) scalar_to_bytes"

section \<open>Hashes\<close>

definition ZERO_LEAF_BYTES :: bytes where
  "ZERO_LEAF_BYTES =
    [37, 48, 34, 136, 219, 153, 53, 3, 68, 151, 65, 131, 206, 49, 13, 99, 181, 58, 187, 158, 240,
     248, 87, 87, 83, 238, 211, 110, 1, 24, 249, 206]"

definition CRYPTO_MOD_BYTES :: bytes where
  "CRYPTO_MOD_BYTES =
    [48, 100, 78, 114, 225, 49, 160, 41, 184, 80, 69, 182, 129, 129, 88, 93, 40, 51, 232, 72, 121,
     185, 112, 145, 67, 225, 245, 147, 240, 0, 0, 1]"

definition poseidon2_hash2_internal :: "int \<Rightarrow> int \<Rightarrow> int option \<Rightarrow> (prover_error, int) outcome" where
  "poseidon2_hash2_internal a b domain =
    (let input = (case domain of Some d \<Rightarrow> [a, b, d] | None \<Rightarrow> [a, b, 0]) in
     let_ok (or_trap (bn256_permutation POSEIDON2_BN256_PARAMS_3 input)) (\<lambda>perm.
     or_trap (vec_get perm 0)))"

definition poseidon2_hash3_internal ::
  "int \<Rightarrow> int \<Rightarrow> int \<Rightarrow> int option \<Rightarrow> (prover_error, int) outcome" where
  "poseidon2_hash3_internal a b c domain =
    (let input = (case domain of Some d \<Rightarrow> [a, b, c, d] | None \<Rightarrow> [a, b, c, 0]) in
     let_ok (or_trap (bn256_permutation POSEIDON2_BN256_PARAMS_4 input)) (\<lambda>perm.
     or_trap (vec_get perm 0)))"

definition poseidon2_compression :: "int \<Rightarrow> int \<Rightarrow> (prover_error, int) outcome" where
  "poseidon2_compression left right =
    (let input = [left, right] in
     let_ok (or_trap (bn256_permutation POSEIDON2_BN256_PARAMS_2 input)) (\<lambda>perm.
     let_ok (or_trap (vec_get perm 0)) (\<lambda>perm_0.
     Inr (fp_add FpBN256_MODULUS perm_0 left))))"

definition poseidon2_hash2_bytes :: "bytes \<Rightarrow> bytes \<Rightarrow> u8 \<Rightarrow> (prover_error, bytes) outcome" where
  "poseidon2_hash2_bytes input0 input1 domain_separation =
    let_ok (bytes_to_scalar input0) (\<lambda>a.
    let_ok (bytes_to_scalar input1) (\<lambda>b.
    let_ok (poseidon2_hash2_internal a b (Some (uint domain_separation))) scalar_to_bytes))"

definition derive_public_key_internal :: "int \<Rightarrow> (prover_error, int) outcome" where
  "derive_public_key_internal private_key = poseidon2_hash2_internal private_key 0 (Some 3)"

definition derive_public_key :: "bytes \<Rightarrow> (prover_error, bytes) outcome" where
  "derive_public_key private_key =
    let_ok (bytes_to_scalar private_key) (\<lambda>sk.
    let_ok (derive_public_key_internal sk) scalar_to_bytes)"

definition compute_commitment :: "bytes \<Rightarrow> bytes \<Rightarrow> bytes \<Rightarrow> (prover_error, bytes) outcome" where
  "compute_commitment amount public_key blinding =
    let_ok (bytes_to_scalar amount) (\<lambda>amt.
    let_ok (bytes_to_scalar public_key) (\<lambda>pk.
    let_ok (bytes_to_scalar blinding) (\<lambda>blind.
    let_ok (poseidon2_hash3_internal amt pk blind (Some 1)) scalar_to_bytes)))"

definition compute_signature :: "bytes \<Rightarrow> bytes \<Rightarrow> bytes \<Rightarrow> (prover_error, bytes) outcome" where
  "compute_signature private_key commitment merkle_path =
    let_ok (bytes_to_scalar private_key) (\<lambda>sk.
    let_ok (bytes_to_scalar commitment) (\<lambda>comm.
    let_ok (bytes_to_scalar merkle_path) (\<lambda>path.
    let_ok (poseidon2_hash3_internal sk comm path (Some 4)) scalar_to_bytes)))"

definition compute_nullifier :: "bytes \<Rightarrow> bytes \<Rightarrow> bytes \<Rightarrow> (prover_error, bytes) outcome" where
  "compute_nullifier commitment path_indices signature =
    let_ok (bytes_to_scalar commitment) (\<lambda>comm.
    let_ok (bytes_to_scalar path_indices) (\<lambda>indices.
    let_ok (bytes_to_scalar signature) (\<lambda>sig.
    let_ok (poseidon2_hash3_internal comm indices sig (Some 2)) scalar_to_bytes)))"

fun asp_membership_leaf :: "note_public_key \<Rightarrow> field \<Rightarrow> (prover_error, field) outcome" where
  "asp_membership_leaf (NotePublicKey note_pubkey) membership_blinding =
    let_ok (poseidon2_hash2_bytes note_pubkey (field_to_le_bytes membership_blinding) 1) (\<lambda>leaf_le.
    let_ok (require (length leaf_le = 32) (Err LeafExpected32Bytes)) (\<lambda>_.
    lift_types (field_try_from_le_bytes leaf_le)))"

section \<open>Values\<close>

lemma uint_modulus_Fp: "uint bn256_modulus = FpBN256_MODULUS"
  unfolding uint_nat [of bn256_modulus] unat_bn256_modulus FpBN256_MODULUS_def by simp

lemma FpBN256_less: "FpBN256_MODULUS < 2 ^ 256"
  by (simp add: FpBN256_MODULUS_def)

lemma FIELD_SIZE_32 [simp]: "FIELD_SIZE = 32"
  by (simp add: FIELD_SIZE_def)

lemma length_bigint_to_bytes_le [simp]: "length (bigint_to_bytes_le f) = 32"
  by (simp add: bigint_to_bytes_le_def)

lemma scalar_to_bytes_eq: "scalar_to_bytes s = Inr (bigint_to_bytes_le s)"
  by (simp add: scalar_to_bytes_def prime_field_to_bytes_def)

lemma le_value_bigint:
  assumes "0 \<le> s" and "s < FpBN256_MODULUS"
  shows "nat_of_le_bytes (bigint_to_bytes_le s) = nat s"
proof -
  have "nat s < 256 ^ 32" using assms FpBN256_less by (simp add: FpBN256_MODULUS_def nat_less_iff)
  then show ?thesis by (simp only: bigint_to_bytes_le_def rev_rev_ident nat_of_be_bytes_of_nat mod_less)
qed

lemma bytes_to_scalar_iff:
  "bytes_to_scalar bs = Inr s \<longleftrightarrow> length bs = 32 \<and> s = int (nat_of_le_bytes bs) mod FpBN256_MODULUS"
  by (auto simp: bytes_to_scalar_def bytes_to_prime_field_def)

lemma bytes_to_scalar_bigint:
  "0 \<le> s \<Longrightarrow> s < FpBN256_MODULUS \<Longrightarrow> bytes_to_scalar (bigint_to_bytes_le s) = Inr s"
  by (simp add: bytes_to_scalar_iff le_value_bigint)

lemma u256_from_le_bigint: "u256_from_le_bytes (bigint_to_bytes_le s) = word_of_int s" if "0 \<le> s" "s < FpBN256_MODULUS"
  using le_value_bigint [OF that] that(1)
  by (simp add: u256_from_le_bytes_def u256_from_be_bytes_def)

lemma uint_of_scalar: "uint (word_of_int s :: u256) = s" if "0 \<le> s" "s < FpBN256_MODULUS"
  using that by (simp add: uint_word_of_int FpBN256_MODULUS_def)

lemma scalar_to_field_eq:
  assumes "0 \<le> s" and "s < FpBN256_MODULUS"
  shows "scalar_to_field s = Inr (Field (word_of_int s))"
proof -
  have "(word_of_int s :: u256) < bn256_modulus"
    using assms by (simp add: word_less_def uint_modulus_Fp uint_of_scalar)
  then show ?thesis
    using assms by (simp add: scalar_to_field_def scalar_to_bytes_eq or_panic_def
        field_try_from_le_bytes_def u256_from_le_bigint field_try_from_u256_canonical)
qed

lemma field_to_scalar_eq:
  assumes "field_canonical f" shows "field_to_scalar f = uint (field_u256 f)"
proof -
  have "uint (field_u256 f) < FpBN256_MODULUS"
    using assms by (simp add: field_canonical_def word_less_def uint_modulus_Fp)
  moreover have "int (nat_of_le_bytes (field_to_le_bytes f)) = uint (field_u256 f)"
    unfolding uint_nat [of "field_u256 f"]
    using unat_u256_from_be_bytes [of "u256_to_be_bytes (field_u256 f)"]
    by (simp add: field_to_le_bytes_def u256_to_le_bytes_def)
  ultimately show ?thesis by (simp add: field_to_scalar_def)
qed

lemma field_of_scalar:
  assumes "0 \<le> s" and "s < FpBN256_MODULUS"
  shows "field_canonical (Field (word_of_int s))" and "field_to_scalar (Field (word_of_int s)) = s"
proof -
  show can: "field_canonical (Field (word_of_int s))"
    using assms by (simp add: field_canonical_def word_less_def uint_modulus_Fp uint_of_scalar)
  then show "field_to_scalar (Field (word_of_int s)) = s"
    using assms by (simp add: field_to_scalar_eq uint_of_scalar)
qed

section \<open>Hexadecimal text\<close>

lemma hex_digit_value_digit: "d < 16 \<Longrightarrow> hex_digit_value (hex_digit d) = Some d"
  by (auto simp: hex_digit_value_def hex_digit_def)

lemma hex_digit_range: "d < 16 \<Longrightarrow> (of_char (hex_digit d) :: nat) < 128"
  and hex_digit_not_sign: "d < 16 \<Longrightarrow> hex_digit d \<noteq> CHR ''+''" "d < 16 \<Longrightarrow> hex_digit d \<noteq> CHR ''-''"
  and hex_digit_not_x: "d < 16 \<Longrightarrow> hex_digit d \<noteq> CHR ''x''"
proof -
  show "(of_char (hex_digit d) :: nat) < 128" if "d < 16" using that by (simp add: hex_digit_def)
  show "hex_digit d \<noteq> CHR ''+''" if "d < 16"
    using hex_digit_value_digit [OF that] by (auto simp: hex_digit_value_def)
  show "hex_digit d \<noteq> CHR ''-''" if "d < 16"
    using hex_digit_value_digit [OF that] by (auto simp: hex_digit_value_def)
  show "hex_digit d \<noteq> CHR ''x''" if "d < 16"
    using hex_digit_value_digit [OF that] by (auto simp: hex_digit_value_def)
qed

lemma byte_nibbles: "unat (b::u8) div 16 < 16" "unat (b::u8) mod 16 < 16"
  using byte_less [of b] by auto

lemma u8_from_hex_byte: "u8_from_hex (hex_byte b) = Some b"
proof -
  have "unat b div 16 * 16 + unat b mod 16 = unat b" by simp
  then show ?thesis
    using byte_nibbles [of b] byte_less [of b] hex_digit_not_sign [OF byte_nibbles(1) [of b]]
    by (simp add: u8_from_hex_def hex_byte_def hex_digit_value_digit)
qed

lemma hex_byte_utf8: "from_utf8 (hex_byte b) = Some (hex_byte b)"
  using hex_digit_range [OF byte_nibbles(1) [of b]] hex_digit_range [OF byte_nibbles(2) [of b]]
  by (simp add: from_utf8_def hex_byte_def)

lemma chunks2_hex: "chunks2 (concat (map hex_byte bs)) = map hex_byte bs"
  by (induction bs) (simp_all add: hex_byte_def)

lemma length_hex_bytes: "length (concat (map hex_byte bs)) = 2 * length bs"
  by (induction bs) (simp_all add: hex_byte_def)

lemma char_count_hex: "char_count (concat (map hex_byte bs)) = 2 * length bs"
proof (induction bs)
  case (Cons b bs)
  then show ?case
    using hex_digit_range [OF byte_nibbles(1) [of b]] hex_digit_range [OF byte_nibbles(2) [of b]]
    by (simp add: char_count_def hex_byte_def utf8_cont_def)
qed (simp add: char_count_def)

lemma hex_loop_bytes:
  "i + length xs = 32 \<Longrightarrow> length ys = i \<Longrightarrow>
     hex_loop i (map hex_byte xs) (replicate (length xs) 0 @ ys) = Inr (rev xs @ ys)"
proof (induction xs arbitrary: i ys)
  case (Cons x xs)
  have "nat_checked_sub (FIELD_SIZE - 1) i = Some (length xs)"
    using Cons.prems by (simp add: nat_checked_sub_def)
  moreover have "(replicate (length (x # xs)) 0 @ ys)[length xs := x] = replicate (length xs) 0 @ x # ys"
  proof -
    have "replicate (length (x # xs)) (0::u8) = replicate (length xs) 0 @ [0]"
      by (simp add: replicate_append_same)
    then show ?thesis by (simp only: append_assoc) (simp add: list_update_append)
  qed
  ultimately show ?case
    using Cons.IH [of "Suc i" "x # ys"] Cons.prems
    by (simp add: hex_byte_utf8 u8_from_hex_byte del: replicate_Suc)
qed simp

lemma strip_0x_prefix [simp]: "strip_0x (''0x'' @ s) = s"
  by (simp add: strip_0x_def)

lemma hex_to_scalar_bytes:
  assumes "length bs = 32"
  shows "hex_to_scalar (''0x'' @ concat (map hex_byte (rev bs))) = Inr (int (nat_of_le_bytes bs) mod FpBN256_MODULUS)"
  using assms hex_loop_bytes [of 0 "rev bs" "[]"]
  by (simp add: hex_to_scalar_def length_hex_bytes char_count_hex chunks2_hex Let_def del: append_Cons)

section \<open>Values of the hashes\<close>

definition client_compress :: "int \<Rightarrow> int \<Rightarrow> int" where
  "client_compress l r = (bn256_spec MAT_DIAG2_M_1 RC2 [l, r] ! 0 + l) mod FpBN256_MODULUS"

definition client_hash2 :: "int \<Rightarrow> int \<Rightarrow> int \<Rightarrow> int" where
  "client_hash2 a b d = bn256_spec MAT_DIAG3_M_1 RC3 [a, b, d] ! 0"

definition client_hash3 :: "int \<Rightarrow> int \<Rightarrow> int \<Rightarrow> int \<Rightarrow> int" where
  "client_hash3 a b c d = bn256_spec MAT_DIAG4_M_1 RC4 [a, b, c, d] ! 0"

lemma bn256_spec_nth_range:
  assumes "i < length v"
  shows "0 \<le> bn256_spec diag rcs v ! i \<and> bn256_spec diag rcs v ! i < FpBN256_MODULUS"
proof -
  have "bn256_spec diag rcs v ! i \<in> set (bn256_spec diag rcs v)"
    using assms by (intro nth_mem) (simp add: bn256_spec_def)
  then show ?thesis
    unfolding bn256_spec_def by (rule poseidon2_spec_range [OF FpBN256_pos])
qed

lemma client_hash_range:
  "0 \<le> client_compress l r" "client_compress l r < FpBN256_MODULUS"
  "0 \<le> client_hash2 a b d" "client_hash2 a b d < FpBN256_MODULUS"
  "0 \<le> client_hash3 a b c d" "client_hash3 a b c d < FpBN256_MODULUS"
  using bn256_spec_nth_range [of 0 "[a, b, d]"] bn256_spec_nth_range [of 0 "[a, b, c, d]"]
  by (simp_all add: client_compress_def client_hash2_def client_hash3_def FpBN256_pos)

lemma poseidon2_compression_eq: "poseidon2_compression l r = Inr (client_compress l r)"
  by (simp add: poseidon2_compression_def bn256_permutation_2 client_compress_def fp_add_def
      bn256_spec_def)

lemma poseidon2_hash2_internal_eq: "poseidon2_hash2_internal a b (Some d) = Inr (client_hash2 a b d)"
  by (simp add: poseidon2_hash2_internal_def bn256_permutation_3 client_hash2_def bn256_spec_def)

lemma poseidon2_hash3_internal_eq: "poseidon2_hash3_internal a b c (Some d) = Inr (client_hash3 a b c d)"
  by (simp add: poseidon2_hash3_internal_def bn256_permutation_4 client_hash3_def bn256_spec_def)

text \<open>The scalar that 32 bytes stand for.\<close>

definition le_scalar :: "bytes \<Rightarrow> int" where
  "le_scalar bs = int (nat_of_le_bytes bs) mod FpBN256_MODULUS"

lemma bytes_to_scalar_32: "length bs = 32 \<Longrightarrow> bytes_to_scalar bs = Inr (le_scalar bs)"
  by (simp add: bytes_to_scalar_iff le_scalar_def)

lemma le_scalar_bigint: "0 \<le> s \<Longrightarrow> s < FpBN256_MODULUS \<Longrightarrow> le_scalar (bigint_to_bytes_le s) = s"
  by (simp add: le_scalar_def le_value_bigint)

lemma bytes_to_scalar_bad: "length bs \<noteq> 32 \<Longrightarrow> bytes_to_scalar bs = Inl (Err (ExpectedBytes 32 (length bs)))"
  by (simp add: bytes_to_scalar_def bytes_to_prime_field_def)

lemma note_hashes_eq:
  assumes "length a = 32" "length b = 32" "length c = 32"
  shows "derive_public_key a = Inr (bigint_to_bytes_le (client_hash2 (le_scalar a) 0 3))"
    and "compute_commitment a b c = Inr (bigint_to_bytes_le (client_hash3 (le_scalar a) (le_scalar b) (le_scalar c) 1))"
    and "compute_signature a b c = Inr (bigint_to_bytes_le (client_hash3 (le_scalar a) (le_scalar b) (le_scalar c) 4))"
    and "compute_nullifier a b c = Inr (bigint_to_bytes_le (client_hash3 (le_scalar a) (le_scalar b) (le_scalar c) 2))"
  using assms
  by (simp_all add: derive_public_key_def derive_public_key_internal_def compute_commitment_def
      compute_signature_def compute_nullifier_def bytes_to_scalar_32 poseidon2_hash2_internal_eq
      poseidon2_hash3_internal_eq scalar_to_bytes_eq)

lemma asp_membership_leaf_eq:
  assumes "length pk = 32" and "field_canonical f"
  shows "asp_membership_leaf (NotePublicKey pk) f =
    Inr (Field (word_of_int (client_hash2 (le_scalar pk) (field_to_scalar f) 1)))"
proof -
  define h where "h = client_hash2 (le_scalar pk) (field_to_scalar f) 1"
  have h: "0 \<le> h" "h < FpBN256_MODULUS" by (simp_all add: h_def client_hash_range)
  have "le_scalar (field_to_le_bytes f) = field_to_scalar f"
    by (simp add: le_scalar_def field_to_scalar_def)
  then have "poseidon2_hash2_bytes pk (field_to_le_bytes f) 1 = Inr (bigint_to_bytes_le h)"
    using assms(1) by (simp add: poseidon2_hash2_bytes_def bytes_to_scalar_32
        poseidon2_hash2_internal_eq scalar_to_bytes_eq h_def)
  moreover have "field_try_from_le_bytes (bigint_to_bytes_le h) = Inr (Field (word_of_int h))"
    using h scalar_to_field_eq [OF h]
    by (auto simp: scalar_to_field_def scalar_to_bytes_eq or_panic_def outcome_simps)
  ultimately show ?thesis by (simp add: h_def)
qed

section \<open>Properties\<close>

lemma decimal_value:
  assumes "n < 2 ^ 128"
  shows "decimal_to_field_bytes (show_nat n) = Inr (bigint_to_bytes_le (int n))"
proof -
  define v :: u128 where "v = of_nat n"
  have un: "unat v = n" using assms by (simp add: v_def unat_of_nat)
  have n: "uint v = int n" "int n < FpBN256_MODULUS"
    using assms un by (simp_all add: uint_nat [of v] FpBN256_MODULUS_def)
  have parse: "parse_u128 (show_nat n) = Some v"
    using parse_u128_show [of v] un by simp
  have high: "fp_add p (a mod p) (fp_mul p (b mod p) (fp_square p (c mod p))) = (a + b * (c * c)) mod p"
    for a b c p by (simp add: fp_defs mod_simps)
  have "int n mod 2 ^ 64 + int n div 2 ^ 64 * (2 ^ 32 * 2 ^ 32) = int n"
    by (simp flip: power_add)
  then show ?thesis
    unfolding decimal_to_field_bytes_def Let_def parse n ok_or_simps let_ok_simps high
    using n(2) by (simp only: scalar_to_bytes_eq) simp
qed

text \<open>
  A scalar survives every text and byte format of the prover. Its bytes are 32 bytes that read
  back as the same scalar, its hexadecimal text reads back as the same scalar, the conversions
  between the two formats agree with them, and a scalar below \<open>2 ^ 128\<close> written in decimal gives the same
  bytes.
\<close>

theorem scalar_formats_roundtrip:
  assumes "0 \<le> s" and "s < FpBN256_MODULUS"
  shows "\<exists>bs hx. scalar_to_bytes s = Inr bs \<and> length bs = 32 \<and> bytes_to_scalar bs = Inr s \<and>
    scalar_to_hex s = Inr hx \<and> hex_to_scalar hx = Inr s \<and>
    field_bytes_to_hex bs = Inr hx \<and> hex_to_field_bytes hx = Inr bs \<and>
    (s < 2 ^ 128 \<longrightarrow> decimal_to_field_bytes (show_nat (nat s)) = Inr bs)"
proof -
  let ?bs = "bigint_to_bytes_le s"
  let ?hx = "''0x'' @ concat (map hex_byte (rev ?bs))"
  have "hex_to_scalar ?hx = Inr s"
    using assms hex_to_scalar_bytes [of ?bs] by (simp add: le_value_bigint)
  moreover have "s < 2 ^ 128 \<Longrightarrow> decimal_to_field_bytes (show_nat (nat s)) = Inr ?bs"
    using decimal_value [of "nat s"] assms(1) by (simp add: nat_less_iff)
  ultimately show ?thesis
    using assms
    by (intro exI [of _ ?bs] exI [of _ ?hx])
      (simp add: scalar_to_bytes_eq bytes_to_scalar_bigint scalar_to_hex_def field_bytes_to_hex_def
        hex_to_field_bytes_def)
qed

theorem scalar_formats_roundtrip_witness:
  "\<exists>bs hx. scalar_to_bytes 123 = Inr bs \<and> length bs = 32 \<and> bytes_to_scalar bs = Inr 123 \<and>
    scalar_to_hex 123 = Inr hx \<and> hex_to_scalar hx = Inr 123 \<and>
    field_bytes_to_hex bs = Inr hx \<and> hex_to_field_bytes hx = Inr bs \<and>
    decimal_to_field_bytes (show_nat (nat 123)) = Inr bs"
proof -
  have "0 \<le> (123::int)" "123 < FpBN256_MODULUS" by (simp_all add: FpBN256_MODULUS_def)
  from scalar_formats_roundtrip [OF this] show ?thesis by simp
qed

end
