(* ===== verification/Prover_Merkle.thy ===== *)
theory Prover_Merkle
  imports Prover_Crypto Merkle_Spec
begin

text \<open>
  The Merkle trees of the client: the full-tree functions of \<open>circuits/src/core/merkle.rs\<close> and the prefix
  tree of \<open>app/crates/core/prover/src/merkle.rs\<close>, which keeps only the leaves that exist and pads with
  the hashes of empty subtrees. Indices are \<open>usize\<close> of 32 bits (the client runs in WebAssembly); the
  overflow checks of the code are written out.
\<close>

unbundle bit_operations_syntax

section \<open>Full trees\<close>

text \<open>\<open>chunks_exact(2)\<close> with a hash of every pair; an odd last element is dropped.\<close>

fun compress_pairs :: "int list \<Rightarrow> (prover_error, int list) outcome" where
  "compress_pairs (a # b # xs) =
    let_ok (poseidon2_compression a b) (\<lambda>h.
    let_ok (compress_pairs xs) (\<lambda>hs. Inr (h # hs)))"
| "compress_pairs xs = Inr []"

lemma compress_pairs_length: "compress_pairs xs = Inr ys \<Longrightarrow> length ys = length xs div 2"
  by (induction xs arbitrary: ys rule: compress_pairs.induct) (auto simp: outcome_simps)

text \<open>The \<open>while\<close> loop of \<open>merkle_root\<close>.\<close>

function merkle_root_loop :: "int list \<Rightarrow> (prover_error, int) outcome" where
  "merkle_root_loop leaves =
    (if length leaves > 1 then let_ok (compress_pairs leaves) merkle_root_loop
     else or_trap (vec_get leaves 0))"
  by auto
termination
  by (relation "measure length") (auto dest: compress_pairs_length)

declare merkle_root_loop.simps [simp del]

definition is_power_of_two :: "nat \<Rightarrow> bool" where
  "is_power_of_two n \<longleftrightarrow> 0 < n \<and> n AND (n - 1) = 0"

definition merkle_root :: "int list \<Rightarrow> (prover_error, int) outcome" where
  "merkle_root leaves =
    (if leaves = [] then Inl Trap
     else if \<not> is_power_of_two (length leaves) then Inl Trap
     else merkle_root_loop leaves)"

text \<open>\<open>ilog2\<close> of a positive number.\<close>

fun ilog2 :: "nat \<Rightarrow> nat" where
  "ilog2 n = (if n < 2 then 0 else Suc (ilog2 (n div 2)))"

declare ilog2.simps [simp del]

text \<open>One iteration of the loop of \<open>merkle_proof\<close>: the sibling, the bit of the path, the next level.\<close>

fun merkle_proof_loop ::
  "nat \<Rightarrow> int list \<Rightarrow> nat \<Rightarrow> int list \<Rightarrow> nat list \<Rightarrow> (prover_error, int list \<times> nat list) outcome" where
  "merkle_proof_loop 0 level_nodes index path_elems bits = Inr (path_elems, bits)"
| "merkle_proof_loop (Suc n) level_nodes index path_elems bits =
    let_ok (if index mod 2 = 0 then or_trap (nat_checked_add 32 index 1)
            else or_trap (nat_checked_sub index 1)) (\<lambda>sib_index.
    let_ok (or_trap (vec_get level_nodes sib_index)) (\<lambda>sib.
    let_ok (compress_pairs level_nodes) (\<lambda>next.
    merkle_proof_loop n next (index div 2) (path_elems @ [sib]) (bits @ [index AND 1]))))"

text \<open>\<open>path_indices |= b << i\<close> over the bits, in 64 bits.\<close>

fun or_bits :: "nat \<Rightarrow> nat list \<Rightarrow> nat \<Rightarrow> nat" where
  "or_bits i [] acc = acc"
| "or_bits i (b # bs) acc = or_bits (Suc i) bs (acc OR (push_bit i b mod 2 ^ 64))"

definition merkle_proof :: "int list \<Rightarrow> nat \<Rightarrow> (prover_error, int list \<times> nat \<times> nat) outcome" where
  "merkle_proof leaves index =
    (if leaves = [] \<or> \<not> is_power_of_two (length leaves) then Inl Trap
     else
       let levels = ilog2 (length leaves) in
       let_ok (merkle_proof_loop levels leaves index [] []) (\<lambda>(path_elems, bits).
       Inr (path_elems, or_bits 0 bits 0, levels)))"

section \<open>Prefix trees\<close>

definition hash_pair :: "field \<Rightarrow> field \<Rightarrow> (prover_error, field) outcome" where
  "hash_pair left right =
    (let left_s = field_to_scalar left; right_s = field_to_scalar right in
     let_ok (poseidon2_compression left_s right_s) scalar_to_field)"

record merkle_path =
  path_elements :: "field list"
  path_indices :: field
  path_root :: field
  path_levels :: nat

record merkle_prefix_tree =
  tree_depth :: nat
  tree_leaves :: "field list"
  tree_empty :: "field list"

record merkle_prefix_tree_built =
  built_depth :: nat
  built_empty :: "field list"
  built_levels :: "field list list"

text \<open>The loop that extends the chain of empty subtrees: \<open>empty.push(hash_pair(empty[i], empty[i]))\<close>.\<close>

fun empty_loop :: "nat \<Rightarrow> nat \<Rightarrow> field list \<Rightarrow> (prover_error, field list) outcome" where
  "empty_loop 0 i emp = Inr emp"
| "empty_loop (Suc n) i emp =
    let_ok (or_trap (vec_get emp i)) (\<lambda>e.
    let_ok (hash_pair e e) (\<lambda>h.
    empty_loop n (Suc i) (emp @ [h])))"

definition prefix_tree_new :: "nat \<Rightarrow> field list \<Rightarrow> (prover_error, merkle_prefix_tree) outcome" where
  "prefix_tree_new depth leaves =
    (if \<not> depth < 2 ^ 32 then Inl (Err TreeDepthTooLarge)
     else if depth = 0 \<or> depth > 32 then Inl (Err DepthOutOfRange)
     else
       let zero_leaf_le = rev ZERO_LEAF_BYTES in
       let_ok (require (length zero_leaf_le = 32) (Err LeafExpected32Bytes)) (\<lambda>_.
       let_ok (lift_types (field_try_from_le_bytes zero_leaf_le)) (\<lambda>zero.
       let_ok (ok_or (nat_checked_add 32 depth 1) (Err DepthOverflow)) (\<lambda>empty_cap.
       let_ok (empty_loop depth 0 [zero]) (\<lambda>emp.
       Inr \<lparr> tree_depth = depth, tree_leaves = leaves, tree_empty = emp \<rparr>)))))"

definition prefix_leaf_count :: "merkle_prefix_tree \<Rightarrow> nat" where
  "prefix_leaf_count t = length (tree_leaves t)"

text \<open>
  The inner loop that both \<open>build_from_parts\<close> and \<open>root\<close> run: position \<open>i\<close> of the next level hashes
  positions \<open>2 i\<close> and \<open>2 i + 1\<close>, with the empty node where there is none.
\<close>

definition next_node :: "field list \<Rightarrow> field \<Rightarrow> nat \<Rightarrow> (prover_error, field) outcome" where
  "next_node nodes e i =
    let_ok (or_trap (if i * 2 < 2 ^ 32 then Some (i * 2) else None)) (\<lambda>left_idx.
    let_ok (or_trap (nat_checked_add 32 left_idx 1)) (\<lambda>right_idx.
    let left = (case vec_get nodes left_idx of Some x \<Rightarrow> x | None \<Rightarrow> e);
        right = (case vec_get nodes right_idx of Some x \<Rightarrow> x | None \<Rightarrow> e) in
    hash_pair left right))"

fun next_level :: "field list \<Rightarrow> field \<Rightarrow> nat list \<Rightarrow> (prover_error, field list) outcome" where
  "next_level nodes e [] = Inr []"
| "next_level nodes e (i # is) =
    let_ok (next_node nodes e i) (\<lambda>h. let_ok (next_level nodes e is) (\<lambda>hs. Inr (h # hs)))"

text \<open>\<open>div_ceil(2)\<close>.\<close>

definition div_ceil2 :: "nat \<Rightarrow> nat" where
  "div_ceil2 n = (n + 1) div 2"

text \<open>
  One iteration of \<open>build_from_parts\<close> on the last level: an empty level receives the empty node first.
  The result is that level and the next one.
\<close>

definition build_level ::
  "field list \<Rightarrow> nat \<Rightarrow> field list \<Rightarrow> (prover_error, field list \<times> field list) outcome" where
  "build_level emp level nodes =
    let_ok (or_trap (vec_get emp level)) (\<lambda>e.
    let nodes = (if nodes = [] then [e] else nodes) in
    let_ok (next_level nodes e [0..<div_ceil2 (length nodes)]) (\<lambda>next.
    Inr (nodes, next)))"

fun build_levels :: "field list \<Rightarrow> nat list \<Rightarrow> field list \<Rightarrow> (prover_error, field list list) outcome" where
  "build_levels emp [] nodes = Inr [nodes]"
| "build_levels emp (level # ls) nodes =
    let_ok (build_level emp level nodes) (\<lambda>(nodes, next).
    let_ok (build_levels emp ls next) (\<lambda>rest. Inr (nodes # rest)))"

definition build_from_parts ::
  "nat \<Rightarrow> field list \<Rightarrow> field list \<Rightarrow> (prover_error, merkle_prefix_tree_built) outcome" where
  "build_from_parts depth leaves emp =
    let_ok (or_trap (nat_checked_add 32 depth 1)) (\<lambda>levels_cap.
    let_ok (build_levels emp [0..<depth] leaves) (\<lambda>levels.
    Inr \<lparr> built_depth = depth, built_empty = emp, built_levels = levels \<rparr>))"

definition prefix_build :: "merkle_prefix_tree \<Rightarrow> (prover_error, merkle_prefix_tree_built) outcome" where
  "prefix_build t = build_from_parts (tree_depth t) (tree_leaves t) (tree_empty t)"

fun root_loop :: "field list \<Rightarrow> nat list \<Rightarrow> field list \<Rightarrow> (prover_error, field list) outcome" where
  "root_loop emp [] nodes = Inr nodes"
| "root_loop emp (level # ls) nodes =
    let_ok (or_trap (vec_get emp level)) (\<lambda>e.
    let nodes = (if nodes = [] then [e] else nodes) in
    let_ok (next_level nodes e [0..<div_ceil2 (length nodes)]) (\<lambda>next.
    root_loop emp ls next))"

definition prefix_root :: "merkle_prefix_tree \<Rightarrow> (prover_error, field) outcome" where
  "prefix_root t =
    let_ok (root_loop (tree_empty t) [0..<tree_depth t] (tree_leaves t)) (\<lambda>nodes.
    let_ok (or_trap (vec_get (tree_empty t) (tree_depth t))) (\<lambda>e.
    Inr (case vec_get nodes 0 of Some x \<Rightarrow> x | None \<Rightarrow> e)))"

definition built_leaf_count :: "merkle_prefix_tree_built \<Rightarrow> nat" where
  "built_leaf_count b = (case built_levels b of [] \<Rightarrow> 0 | v # _ \<Rightarrow> length v)"

definition built_root :: "merkle_prefix_tree_built \<Rightarrow> (prover_error, field) outcome" where
  "built_root b =
    let_ok (or_trap (vec_get (built_empty b) (built_depth b))) (\<lambda>e.
    Inr (case vec_get (built_levels b) (built_depth b) of
           Some v \<Rightarrow> (case vec_get v 0 of Some x \<Rightarrow> x | None \<Rightarrow> e) | None \<Rightarrow> e))"

text \<open>
  The loop of \<open>proof\<close> over the levels: \<open>sib_index = current_index ^ 1\<close>, the sibling or the empty node,
  and the bit of the path set where the index is odd (\<open>1u64 << level\<close> overflows from level 64 on).
\<close>

fun proof_loop ::
  "merkle_prefix_tree_built \<Rightarrow> nat list \<Rightarrow> nat \<Rightarrow> field list \<Rightarrow> nat \<Rightarrow>
    (prover_error, field list \<times> nat) outcome" where
  "proof_loop b [] current_index elems bits = Inr (elems, bits)"
| "proof_loop b (level # ls) current_index elems bits =
    (let sib_index = current_index XOR 1 in
     let_ok (or_trap (vec_get (built_levels b) level)) (\<lambda>nodes.
     let_ok (or_trap (vec_get (built_empty b) level)) (\<lambda>e.
     let sib = (case vec_get nodes sib_index of Some x \<Rightarrow> x | None \<Rightarrow> e) in
     let_ok (if current_index mod 2 \<noteq> 0
             then or_trap (map_option (\<lambda>m. bits OR m) (u64_checked_shl 1 level))
             else Inr bits) (\<lambda>bits.
     proof_loop b ls (current_index div 2) (elems @ [sib]) bits))))"

definition built_proof :: "merkle_prefix_tree_built \<Rightarrow> nat \<Rightarrow> (prover_error, merkle_path) outcome" where
  "built_proof b index =
    (if index \<ge> built_leaf_count b then Inl (Err (LeafIndexOutOfRange index (built_leaf_count b)))
     else
       let_ok (proof_loop b [0..<built_depth b] index [] 0) (\<lambda>(elems, bits).
       let_ok (lift_types (field_try_from_le_bytes (rev (be_bytes_of_nat 8 bits) @ replicate 24 0))) (\<lambda>indices.
       let_ok (built_root b) (\<lambda>root.
       Inr \<lparr> path_elements = elems, path_indices = indices, path_root = root,
             path_levels = built_depth b \<rparr>))))"

section \<open>The hash of two nodes\<close>

definition field_compress :: "field \<Rightarrow> field \<Rightarrow> field" where
  "field_compress l r = Field (word_of_int (client_compress (field_to_scalar l) (field_to_scalar r)))"

definition ZERO_LEAF :: field where
  "ZERO_LEAF = Field (u256_from_be_bytes ZERO_LEAF_BYTES)"

lemma hash_pair_eq: "hash_pair l r = Inr (field_compress l r)"
  by (simp add: hash_pair_def poseidon2_compression_eq scalar_to_field_eq client_hash_range
      field_compress_def)

lemma field_compress_canonical [simp]: "field_canonical (field_compress l r)"
  by (simp add: field_compress_def field_of_scalar client_hash_range)

lemma field_to_scalar_compress [simp]:
  "field_to_scalar (field_compress l r) = client_compress (field_to_scalar l) (field_to_scalar r)"
  by (simp add: field_compress_def field_of_scalar client_hash_range)

lemma zero_leaf_field: "field_try_from_le_bytes (rev ZERO_LEAF_BYTES) = Inr ZERO_LEAF"
proof -
  have "u256_from_be_bytes ZERO_LEAF_BYTES < bn256_modulus"
    by (simp add: u256_from_be_bytes_def ZERO_LEAF_BYTES_def nat_of_be_bytes_def word_less_nat_alt
        unat_bn256_modulus)
  then show ?thesis
    by (simp add: field_try_from_le_bytes_def u256_from_le_bytes_def field_try_from_u256_canonical
        ZERO_LEAF_def)
qed

section \<open>Prefix trees\<close>

abbreviation fnode :: "field list \<Rightarrow> nat \<Rightarrow> nat \<Rightarrow> field" where
  "fnode \<equiv> merkle_node field_compress ZERO_LEAF"

abbreviation fempty :: "nat \<Rightarrow> field list" where
  "fempty d \<equiv> map (zero_chain field_compress ZERO_LEAF) [0..<Suc d]"

lemma empty_loop_chain:
  "empty_loop n i (map (zero_chain field_compress ZERO_LEAF) [0..<Suc i]) = Inr (fempty (i + n))"
proof (induction n arbitrary: i)
  case (Suc n)
  let ?e = "map (zero_chain field_compress ZERO_LEAF)"
  have "vec_get (?e [0..<Suc i]) i = Some (zero_chain field_compress ZERO_LEAF i)"
    by (simp add: vec_get_def nth_append)
  moreover have "?e [0..<Suc i] @ [zero_chain field_compress ZERO_LEAF (Suc i)] = ?e [0..<Suc (Suc i)]"
    by simp
  ultimately show ?case
    using Suc [of "Suc i"] by (simp add: hash_pair_eq del: upt_Suc)
qed simp

lemma prefix_tree_new_eq:
  "prefix_tree_new d xs =
    (if 1 \<le> d \<and> d \<le> 32 then Inr \<lparr> tree_depth = d, tree_leaves = xs, tree_empty = fempty d \<rparr>
     else if d < 2 ^ 32 then Inl (Err DepthOutOfRange) else Inl (Err TreeDepthTooLarge))"
proof -
  have "empty_loop d 0 [ZERO_LEAF] = Inr (fempty d)" using empty_loop_chain [of d 0] by simp
  moreover have "length (rev ZERO_LEAF_BYTES) = 32" by (simp add: ZERO_LEAF_BYTES_def)
  ultimately show ?thesis
    unfolding prefix_tree_new_def Let_def by (simp add: zero_leaf_field nat_checked_add_def del: upt_Suc)
qed

lemma next_level_nodes:
  assumes "level_ok field_compress ZERO_LEAF xs l nodes" and "\<And>i. i \<in> set is \<Longrightarrow> 2 * i + 1 < 2 ^ 32"
  shows "next_level nodes (zero_chain field_compress ZERO_LEAF l) is = Inr (map (fnode xs (Suc l)) is)"
  using assms(2)
proof (induction "is")
  case (Cons i "is")
  then have "2 * i + 1 < 2 ^ 32" by simp
  then have "next_node nodes (zero_chain field_compress ZERO_LEAF l) i = Inr (fnode xs (Suc l) i)"
    by (simp add: next_node_def nat_checked_add_def hash_pair_eq level_ok_get [OF assms(1)]
        mult.commute [of i])
  with Cons show ?case by simp
qed simp

text \<open>One level up: the invariant of both loops.\<close>

lemma level_up:
  assumes ok: "level_ok field_compress ZERO_LEAF xs l nodes" and len: "length nodes < 2 ^ 32"
  defines "nodes' \<equiv> if nodes = [] then [zero_chain field_compress ZERO_LEAF l] else nodes"
  defines "up \<equiv> map (fnode xs (Suc l)) [0..<div_ceil2 (length nodes')]"
  shows "next_level nodes' (zero_chain field_compress ZERO_LEAF l) [0..<div_ceil2 (length nodes')] = Inr up"
    and "level_ok field_compress ZERO_LEAF xs (Suc l) up" and "length up < 2 ^ 32" and "up \<noteq> []"
    and "level_ok field_compress ZERO_LEAF xs l nodes'"
proof -
  have len': "0 < length nodes'" "length nodes' < 2 ^ 32"
    using len by (auto simp: nodes'_def)
  show ok': "level_ok field_compress ZERO_LEAF xs l nodes'"
    unfolding nodes'_def using ok by (rule level_ok_pad)
  show "next_level nodes' (zero_chain field_compress ZERO_LEAF l) [0..<div_ceil2 (length nodes')] = Inr up"
    unfolding up_def using len' by (intro next_level_nodes ok') (simp add: div_ceil2_def)
  show "level_ok field_compress ZERO_LEAF xs (Suc l) up"
    unfolding up_def using ok' by (rule level_ok_next) (simp add: div_ceil2_def)
  show "length up < 2 ^ 32" "up \<noteq> []" using len' by (auto simp: up_def div_ceil2_def)
qed

lemma root_loop_nodes:
  assumes "level_ok field_compress ZERO_LEAF xs l nodes" and "length nodes < 2 ^ 32" and "l \<le> d"
  shows "\<exists>top. root_loop (fempty d) [l..<d] nodes = Inr top \<and>
    level_ok field_compress ZERO_LEAF xs d top"
  using assms
proof (induction "d - l" arbitrary: l nodes)
  case 0
  then show ?case by simp
next
  case (Suc n)
  then have l: "l < d" and upt: "[l..<d] = l # [Suc l..<d]" by (simp_all add: upt_conv_Cons)
  have e: "vec_get (fempty d) l = Some (zero_chain field_compress ZERO_LEAF l)"
    using l by (simp add: vec_get_def nth_append)
  note up = level_up [OF Suc.prems(1,2)]
  have "n = d - Suc l" "Suc l \<le> d" using Suc.hyps(2) l by simp_all
  from Suc.hyps(1) [OF this(1) up(2,3) this(2)] show ?case
    unfolding upt root_loop.simps e or_trap_simps let_ok_simps Let_def up(1) .
qed

lemma prefix_root_node:
  assumes "length xs < 2 ^ 32"
  shows "prefix_root \<lparr> tree_depth = d, tree_leaves = xs, tree_empty = fempty d \<rparr> =
    Inr (merkle_root_of field_compress ZERO_LEAF d xs)"
proof -
  obtain top where top: "root_loop (fempty d) [0..<d] xs = Inr top"
    and ok: "level_ok field_compress ZERO_LEAF xs d top"
    using root_loop_nodes [OF level_ok_leaves assms, of d] by auto
  have "vec_get (fempty d) d = Some (zero_chain field_compress ZERO_LEAF d)"
    by (simp add: vec_get_def nth_append)
  then show ?thesis
    by (simp add: prefix_root_def top level_ok_get [OF ok] merkle_root_of_def del: upt_Suc)
qed

lemma build_levels_nodes:
  assumes "level_ok field_compress ZERO_LEAF xs l nodes" and "length nodes < 2 ^ 32" and "l \<le> d"
  shows "\<exists>levels. build_levels (fempty d) [l..<d] nodes = Inr levels \<and> length levels = Suc (d - l) \<and>
    (\<forall>k \<le> d - l. level_ok field_compress ZERO_LEAF xs (l + k) (levels ! k)) \<and>
    (l < d \<longrightarrow> length (levels ! 0) = max 1 (length nodes))"
  using assms
proof (induction "d - l" arbitrary: l nodes)
  case 0
  then show ?case by simp
next
  case (Suc n)
  then have l: "l < d" and upt: "[l..<d] = l # [Suc l..<d]" by (simp_all add: upt_conv_Cons)
  have e: "vec_get (fempty d) l = Some (zero_chain field_compress ZERO_LEAF l)"
    using l by (simp add: vec_get_def nth_append)
  define nodes' where "nodes' = (if nodes = [] then [zero_chain field_compress ZERO_LEAF l] else nodes)"
  define up where "up = map (fnode xs (Suc l)) [0..<div_ceil2 (length nodes')]"
  note lu = level_up [OF Suc.prems(1,2), folded nodes'_def, folded up_def]
  have "n = d - Suc l" "Suc l \<le> d" using Suc.hyps(2) l by simp_all
  from Suc.hyps(1) [OF this(1) lu(2,3) this(2)] obtain rest where
    rest: "build_levels (fempty d) [Suc l..<d] up = Inr rest" "length rest = Suc (d - Suc l)"
    and ok: "\<And>k. k \<le> d - Suc l \<Longrightarrow> level_ok field_compress ZERO_LEAF xs (Suc l + k) (rest ! k)"
    by blast
  have "build_levels (fempty d) [l..<d] nodes = Inr (nodes' # rest)"
    unfolding upt build_levels.simps build_level_def e or_trap_simps let_ok_simps Let_def
      nodes'_def [symmetric] lu(1) using rest(1) by (simp del: upt_Suc)
  moreover have "level_ok field_compress ZERO_LEAF xs (l + k) ((nodes' # rest) ! k)" if "k \<le> d - l" for k
    using that lu(5) ok [of "k - 1"] by (cases k) auto
  moreover have "length nodes' = max 1 (length nodes)" by (cases nodes) (auto simp: nodes'_def)
  ultimately show ?case using rest(2) l by (intro exI [of _ "nodes' # rest"]) auto
qed

lemma prefix_build_nodes:
  assumes "length xs < 2 ^ 32" and "1 \<le> d" and "d \<le> 32"
  obtains levels where
    "prefix_build \<lparr> tree_depth = d, tree_leaves = xs, tree_empty = fempty d \<rparr> =
      Inr \<lparr> built_depth = d, built_empty = fempty d, built_levels = levels \<rparr>"
    and "length levels = Suc d" and "\<And>l. l \<le> d \<Longrightarrow> level_ok field_compress ZERO_LEAF xs l (levels ! l)"
    and "length (levels ! 0) = max 1 (length xs)"
proof -
  from build_levels_nodes [OF level_ok_leaves assms(1), of d] assms(2) obtain levels where
    "build_levels (fempty d) [0..<d] xs = Inr levels" and "length levels = Suc d"
    and "\<And>l. l \<le> d \<Longrightarrow> level_ok field_compress ZERO_LEAF xs l (levels ! l)"
    and "length (levels ! 0) = max 1 (length xs)"
    by auto
  then show thesis
    using assms(3)
    by (intro that [of levels])
      (simp_all add: prefix_build_def build_from_parts_def nat_checked_add_def del: upt_Suc)
qed

lemma xor_1_sibling: "i XOR 1 = sibling_of i"
  by (simp add: sibling_of_def xor_Suc_0_eq)

lemma take_bit_or_power:
  "(if odd (i div 2 ^ l) then take_bit l i OR 2 ^ l else take_bit l i) = take_bit (Suc l) (i::nat)"
proof -
  have "odd (i div 2 ^ l) = bit i l" by (simp add: bit_iff_odd)
  then show ?thesis
    by (intro bit_eqI) (auto simp: bit_simps less_Suc_eq)
qed

text \<open>The proof loop collects the siblings and the low bits of the index.\<close>

lemma proof_loop_nodes:
  assumes lv: "length levels = Suc d" "\<And>l. l \<le> d \<Longrightarrow> level_ok field_compress ZERO_LEAF xs l (levels ! l)"
    and "d \<le> 32" and "l \<le> d"
  defines "b \<equiv> \<lparr> built_depth = d, built_empty = fempty d, built_levels = levels \<rparr>"
  shows "proof_loop b [l..<d] (i div 2 ^ l) elems (take_bit l i) =
    Inr (elems @ map (\<lambda>k. fnode xs k (sibling_of (i div 2 ^ k))) [l..<d], take_bit d i)"
  using assms(4)
proof (induction "d - l" arbitrary: l elems)
  case 0
  then show ?case by simp
next
  case (Suc n)
  then have l: "l < d" and upt: "[l..<d] = l # [Suc l..<d]" by (simp_all add: upt_conv_Cons)
  have e: "vec_get (built_empty b) l = Some (zero_chain field_compress ZERO_LEAF l)"
    using l by (simp add: b_def vec_get_def nth_append)
  have nodes: "vec_get (built_levels b) l = Some (levels ! l)" using l lv(1) by (simp add: b_def)
  have sib: "(case vec_get (levels ! l) j of Some x \<Rightarrow> x | None \<Rightarrow> zero_chain field_compress ZERO_LEAF l) =
      fnode xs l j" for j
    using lv(2) [of l] l by (intro level_ok_get) simp
  have bits: "(if (i div 2 ^ l) mod 2 \<noteq> 0
      then or_trap (map_option (\<lambda>m. take_bit l i OR m) (u64_checked_shl 1 l)) else Inr (take_bit l i)) =
      (Inr (take_bit (Suc l) i) :: (prover_error, nat) outcome)"
  proof -
    have "(2::nat) ^ l < 2 ^ 64" using l assms(3) by (intro power_strict_increasing) auto
    then have "u64_checked_shl 1 l = Some (2 ^ l)" using l assms(3) by (simp add: u64_checked_shl_def)
    then show ?thesis using take_bit_or_power [of i l] by (auto simp: odd_iff_mod_2_eq_one split: if_splits)
  qed
  have div: "i div 2 ^ l div 2 = i div 2 ^ Suc l" by (simp only: power_Suc2 div_mult2_eq)
  have "n = d - Suc l" "Suc l \<le> d" using Suc.hyps(2) l by simp_all
  from Suc.hyps(1) [OF this] show ?case
    unfolding upt proof_loop.simps Let_def nodes e or_trap_simps let_ok_simps sib bits div xor_1_sibling
    by simp
qed

lemma path_indices_field:
  assumes "n < 2 ^ 64"
  shows "field_try_from_le_bytes (rev (be_bytes_of_nat 8 n) @ replicate 24 0) = Inr (Field (of_nat n))"
proof -
  have pad: "nat_of_be_bytes (replicate k 0 @ bs) = nat_of_be_bytes bs" for k bs
    by (induction k) (simp_all add: nat_of_be_bytes_def)
  have "nat_of_be_bytes (be_bytes_of_nat 8 n) = n"
    using assms by (simp add: nat_of_be_bytes_of_nat)
  then have eq: "u256_from_le_bytes (rev (be_bytes_of_nat 8 n) @ replicate 24 0) = of_nat n"
    by (simp add: u256_from_le_bytes_def u256_from_be_bytes_def pad)
  have "(of_nat n :: u256) < bn256_modulus"
    using assms by (simp add: word_less_nat_alt unat_of_nat unat_bn256_modulus)
  then show ?thesis by (simp only: field_try_from_le_bytes_def eq field_try_from_u256_canonical)
qed

lemma built_root_node:
  assumes "length levels = Suc d" and "level_ok field_compress ZERO_LEAF xs d (levels ! d)"
  shows "built_root \<lparr> built_depth = d, built_empty = fempty d, built_levels = levels \<rparr> =
    Inr (merkle_root_of field_compress ZERO_LEAF d xs)"
proof -
  have "vec_get (fempty d) d = Some (zero_chain field_compress ZERO_LEAF d)"
    by (simp add: vec_get_def nth_append)
  then show ?thesis
    using assms by (simp add: built_root_def level_ok_get merkle_root_of_def del: upt_Suc)
qed

lemma built_proof_node:
  assumes lv: "length levels = Suc d" "\<And>l. l \<le> d \<Longrightarrow> level_ok field_compress ZERO_LEAF xs l (levels ! l)"
    and d: "d \<le> 32" and i: "i < length (levels ! 0)"
  shows "built_proof \<lparr> built_depth = d, built_empty = fempty d, built_levels = levels \<rparr> i =
    Inr \<lparr> path_elements = merkle_siblings field_compress ZERO_LEAF xs d i,
          path_indices = Field (of_nat (i mod 2 ^ d)),
          path_root = merkle_root_of field_compress ZERO_LEAF d xs, path_levels = d \<rparr>"
proof -
  let ?b = "\<lparr> built_depth = d, built_empty = fempty d, built_levels = levels \<rparr>"
  have "i mod 2 ^ d < 2 ^ d" by simp
  also have "(2::nat) ^ d < 2 ^ 64" using d by (intro power_strict_increasing) auto
  finally have "i mod 2 ^ d < 2 ^ 64" .
  then have idx: "field_try_from_le_bytes (rev (be_bytes_of_nat 8 (take_bit d i)) @ replicate 24 0) =
      Inr (Field (of_nat (i mod 2 ^ d)))"
    unfolding take_bit_eq_mod by (rule path_indices_field)
  have "built_leaf_count ?b = length (levels ! 0)"
    using lv(1) by (cases levels) (simp_all add: built_leaf_count_def)
  moreover have "proof_loop ?b [0..<d] i [] 0 =
      Inr (merkle_siblings field_compress ZERO_LEAF xs d i, take_bit d i)"
    using proof_loop_nodes [OF lv d, of 0 i "[]"] by (simp add: merkle_siblings_def)
  ultimately show ?thesis
    using i built_root_node [OF lv(1) lv(2) [OF order.refl]]
    by (simp add: built_proof_def idx del: upt_Suc)
qed

section \<open>Full trees\<close>

abbreviation snode :: "int \<Rightarrow> int list \<Rightarrow> nat \<Rightarrow> nat \<Rightarrow> int" where
  "snode \<equiv> merkle_node client_compress"

lemma compress_pairs_eq:
  "compress_pairs xs = Inr (map (\<lambda>i. client_compress (xs ! (2 * i)) (xs ! (2 * i + 1))) [0..<length xs div 2])"
proof (induction xs rule: compress_pairs.induct)
  case (1 a b xs)
  have "length (a # b # xs) div 2 = Suc (length xs div 2)" by simp
  then show ?case
    by (simp add: 1 poseidon2_compression_eq upt_conv_Cons map_Suc_upt [symmetric] o_def del: upt_Suc)
qed simp_all

lemma compress_level:
  "compress_pairs (map (snode z xs l) [0..<2 ^ Suc k]) = Inr (map (snode z xs (Suc l)) [0..<2 ^ k])"
proof -
  have "2 * i + 1 < 2 ^ Suc k" if "i < 2 ^ k" for i :: nat using that by simp
  then show ?thesis by (simp add: compress_pairs_eq)
qed

lemma merkle_root_loop_level:
  "merkle_root_loop (map (snode z xs l) [0..<2 ^ k]) = Inr (snode z xs (l + k) 0)"
proof (induction k arbitrary: l)
  case 0
  then show ?case by (simp add: merkle_root_loop.simps)
next
  case (Suc k)
  have "1 < (2::nat) ^ Suc k" by (rule one_less_power) simp_all
  then show ?case
    using Suc [of "Suc l"] by (subst merkle_root_loop.simps) (simp only: compress_level length_map
        length_upt diff_zero if_True let_ok_simps add_Suc_shift)
qed

lemma is_power_of_two_power [simp]: "is_power_of_two (2 ^ k)"
proof -
  have "(2::nat) ^ k AND (2 ^ k - 1) = take_bit k (2 ^ k)"
    by (simp add: take_bit_eq_mask mask_eq_exp_minus_1)
  then show ?thesis by (simp add: is_power_of_two_def)
qed

lemma ilog2_power [simp]: "ilog2 (2 ^ k) = k"
proof (induction k)
  case (Suc k)
  have "1 \<le> (2::nat) ^ k" by simp
  then have "\<not> (2::nat) ^ Suc k < 2" by simp
  then show ?case by (subst ilog2.simps) (simp add: Suc)
qed (simp add: ilog2.simps)

lemma full_leaves: "length xs = n \<Longrightarrow> xs = map (snode z xs 0) [0..<n]"
  by (simp add: list_eq_iff_nth_eq)

lemma full_nonempty: "length xs = 2 ^ k \<Longrightarrow> xs \<noteq> []"
  by auto

lemma merkle_root_eq:
  assumes "length xs = 2 ^ k" shows "merkle_root xs = Inr (merkle_root_of client_compress z k xs)"
  using merkle_root_loop_level [of z xs 0 k] full_leaves [OF assms, of z, symmetric] full_nonempty [OF assms]
  by (simp add: merkle_root_def assms merkle_root_of_def)

lemma merkle_proof_loop_level:
  assumes "idx < 2 ^ k" and "k \<le> 31"
  shows "merkle_proof_loop k (map (snode z xs l) [0..<2 ^ k]) idx elems bits =
    Inr (elems @ map (\<lambda>j. snode z xs (l + j) (sibling_of (idx div 2 ^ j))) [0..<k],
         bits @ map (\<lambda>j. idx div 2 ^ j mod 2) [0..<k])"
  using assms
proof (induction k arbitrary: l idx elems bits)
  case (Suc k)
  define s where "s = sibling_of idx"
  have s: "s < 2 ^ Suc k"
    using Suc.prems(1) by (auto simp: s_def sibling_of_def elim!: evenE)
  have "(2::nat) ^ Suc k \<le> 2 ^ 31" using Suc.prems(2) by (intro power_increasing) auto
  then have sib: "(if idx mod 2 = 0 then or_trap (nat_checked_add 32 idx 1)
      else or_trap (nat_checked_sub idx 1)) = (Inr s :: (prover_error, nat) outcome)"
    using Suc.prems(1) by (auto simp: s_def sibling_of_def nat_checked_add_def nat_checked_sub_def
        even_iff_mod_2_eq_zero)
  have get: "vec_get (map (snode z xs l) [0..<2 ^ Suc k]) s = Some (snode z xs l s)"
    using s by (simp del: power_Suc)
  have half: "idx div 2 < 2 ^ k" "k \<le> 31" using Suc.prems by auto
  have div: "idx div 2 div 2 ^ j = idx div 2 ^ Suc j" for j
    by (simp only: power_Suc div_mult2_eq)
  have upt: "[0..<Suc k] = 0 # map Suc [0..<k]" by (simp add: upt_conv_Cons map_Suc_upt del: upt_Suc)
  show ?case
    unfolding merkle_proof_loop.simps sib let_ok_simps get or_trap_simps compress_level Suc.IH [OF half]
      div upt by (simp add: s_def o_def and_one_eq)
qed simp

lemma or_bits_take:
  assumes "i + n \<le> 64"
  shows "or_bits i (map (\<lambda>j. m div 2 ^ j mod 2) [i..<i + n]) (take_bit i m) = take_bit (i + n) m"
  using assms
proof (induction n arbitrary: i)
  case (Suc n)
  have upt: "[i..<i + Suc n] = i # [Suc i..<Suc i + n]" by (simp add: upt_conv_Cons)
  have "(2::nat) ^ i < 2 ^ 64" using Suc.prems by (intro power_strict_increasing) auto
  then have "take_bit i m OR (push_bit i (m div 2 ^ i mod 2) mod 2 ^ 64) = take_bit (Suc i) m"
    using take_bit_or_power [of m i] by (cases "odd (m div 2 ^ i)") (simp_all add: push_bit_eq_mult mod_2_eq_odd)
  then show ?case
    unfolding upt list.map or_bits.simps using Suc.IH [of "Suc i"] Suc.prems by simp
qed simp

lemma merkle_proof_eq:
  assumes "length xs = 2 ^ k" and "i < 2 ^ k" and "k \<le> 31"
  shows "merkle_proof xs i = Inr (merkle_siblings client_compress z xs k i, i, k)"
proof -
  have "or_bits 0 (map (\<lambda>j. i div 2 ^ j mod 2) [0..<k]) 0 = take_bit k i"
    using or_bits_take [of 0 k i] assms(3) by simp
  also have "\<dots> = i" using assms(2) by (simp add: take_bit_eq_mod)
  finally have bits: "or_bits 0 (map (\<lambda>j. i div 2 ^ j mod 2) [0..<k]) 0 = i" .
  show ?thesis
    using merkle_proof_loop_level [OF assms(2,3), of z xs 0 "[]" "[]"]
      full_leaves [OF assms(1), of z, symmetric] full_nonempty [OF assms(1)]
    by (simp add: merkle_proof_def assms(1) bits merkle_siblings_def)
qed

section \<open>Properties\<close>

text \<open>The leaves of a prefix tree as the full list of scalars that the circuit functions take.\<close>

definition full_scalars :: "nat \<Rightarrow> field list \<Rightarrow> int list" where
  "full_scalars d xs = map field_to_scalar (xs @ replicate (2 ^ d - length xs) ZERO_LEAF)"

lemma full_scalars_node:
  "snode (field_to_scalar ZERO_LEAF) (full_scalars d xs) l i = field_to_scalar (fnode xs l i)"
  using merkle_node_map [of field_to_scalar field_compress client_compress ZERO_LEAF
      "xs @ replicate (2 ^ d - length xs) ZERO_LEAF" l i]
  by (simp add: full_scalars_def merkle_node_padded)

lemma length_full_scalars: "length xs \<le> 2 ^ d \<Longrightarrow> length (full_scalars d xs) = 2 ^ d"
  by (simp add: full_scalars_def)

lemma full_root: "length xs \<le> 2 ^ d \<Longrightarrow>
    merkle_root (full_scalars d xs) = Inr (field_to_scalar (merkle_root_of field_compress ZERO_LEAF d xs))"
  using merkle_root_eq [OF length_full_scalars, of xs d "field_to_scalar ZERO_LEAF"]
  by (simp add: merkle_root_of_def full_scalars_node)

lemma full_proof:
  assumes "length xs \<le> 2 ^ d" and "i < 2 ^ d" and "d \<le> 31"
  shows "merkle_proof (full_scalars d xs) i =
    Inr (map field_to_scalar (merkle_siblings field_compress ZERO_LEAF xs d i), i, d)"
  using merkle_proof_eq [OF length_full_scalars [OF assms(1)] assms(2,3), of "field_to_scalar ZERO_LEAF"]
  by (simp add: merkle_siblings_def full_scalars_node)

lemma prefix_cases:
  assumes "prefix_tree_new d xs = Inr t" and "length xs < 2 ^ 32"
  obtains levels where "1 \<le> d" "d \<le> 32"
    and "t = \<lparr> tree_depth = d, tree_leaves = xs, tree_empty = fempty d \<rparr>"
    and "prefix_build t = Inr \<lparr> built_depth = d, built_empty = fempty d, built_levels = levels \<rparr>"
    and "length levels = Suc d" and "\<And>l. l \<le> d \<Longrightarrow> level_ok field_compress ZERO_LEAF xs l (levels ! l)"
    and "length (levels ! 0) = max 1 (length xs)"
proof -
  have d: "1 \<le> d" "d \<le> 32" and t: "t = \<lparr> tree_depth = d, tree_leaves = xs, tree_empty = fempty d \<rparr>"
    using assms(1) by (auto simp: prefix_tree_new_eq simp del: upt_Suc split: if_splits)
  from prefix_build_nodes [OF assms(2) d] show thesis
    using that [OF d t] unfolding t by blast
qed

text \<open>
  C23: The three ways in which the client computes a Merkle root agree. The root that a prefix tree
  computes on the fly, the root of its built form and, where the leaves fit the depth, the root that
  \<open>circuits::core::merkle::merkle_root\<close> computes from the full list of leaves padded with the zero leaf
  are the root of the complete tree; none of them panics or fails. The built form counts at least one
  leaf, also for a tree without leaves.
\<close>

theorem prefix_tree_roots:
  assumes "prefix_tree_new d xs = Inr t" and "length xs < 2 ^ 32"
  shows "\<exists>b root. prefix_build t = Inr b \<and> prefix_root t = Inr root \<and> built_root b = Inr root \<and>
    root = merkle_root_of field_compress ZERO_LEAF d xs \<and>
    (length xs \<le> 2 ^ d \<longrightarrow> merkle_root (full_scalars d xs) = Inr (field_to_scalar root)) \<and>
    prefix_leaf_count t = length xs \<and> built_leaf_count b = max 1 (length xs)"
proof -
  from prefix_cases [OF assms] obtain levels where t: "t = \<lparr> tree_depth = d, tree_leaves = xs, tree_empty = fempty d \<rparr>"
    and b: "prefix_build t = Inr \<lparr> built_depth = d, built_empty = fempty d, built_levels = levels \<rparr>"
    and lv: "length levels = Suc d" "\<And>l. l \<le> d \<Longrightarrow> level_ok field_compress ZERO_LEAF xs l (levels ! l)"
    and n: "length (levels ! 0) = max 1 (length xs)" by metis
  have "prefix_root t = Inr (merkle_root_of field_compress ZERO_LEAF d xs)"
    unfolding t by (rule prefix_root_node [OF assms(2)])
  moreover have "built_leaf_count \<lparr> built_depth = d, built_empty = fempty d, built_levels = levels \<rparr> =
      max 1 (length xs)"
    using lv(1) n by (cases levels) (simp_all add: built_leaf_count_def)
  moreover have "prefix_leaf_count t = length xs" by (simp add: t prefix_leaf_count_def)
  ultimately show ?thesis
    using b built_root_node [OF lv(1) lv(2) [OF order.refl]] full_root by blast
qed

lemma sample_prefix_tree:
  "\<exists>t. prefix_tree_new 2 [Field 1, Field 2, Field 3] = Inr t"
  by (simp add: prefix_tree_new_eq del: upt_Suc)

theorem prefix_tree_roots_witness:
  "\<exists>t b root. prefix_tree_new 2 [Field 1, Field 2, Field 3] = Inr t \<and> prefix_build t = Inr b \<and>
    prefix_root t = Inr root \<and> built_root b = Inr root \<and>
    root = merkle_root_of field_compress ZERO_LEAF 2 [Field 1, Field 2, Field 3] \<and>
    merkle_root (full_scalars 2 [Field 1, Field 2, Field 3]) = Inr (field_to_scalar root) \<and>
    prefix_leaf_count t = 3 \<and> built_leaf_count b = 3"
proof -
  obtain t where t: "prefix_tree_new 2 [Field 1, Field 2, Field 3] = Inr t"
    using sample_prefix_tree by blast
  from prefix_tree_roots [OF t] t show ?thesis by (intro exI [of _ t]) (simp add: numeral_3_eq_3)
qed

text \<open>
  C24: Merkle proofs of the client are right. For every leaf of a prefix tree within the depth the
  built tree returns a proof with one element per level, whose root is the root of the tree, whose
  packed path is the index, and from which hashing upwards from the leaf (the element on the left
  where the index is odd) gives the root; it is the proof that
  \<open>circuits::core::merkle::merkle_proof\<close> computes from the full list. Beyond the last leaf the index
  is rejected.
\<close>

theorem prefix_tree_proofs:
  assumes "prefix_tree_new d xs = Inr t" and "length xs < 2 ^ 32" and "prefix_build t = Inr b"
  shows "(i < length xs \<and> i < 2 ^ d \<longrightarrow>
      (\<exists>p. built_proof b i = Inr p \<and> length (path_elements p) = d \<and> path_levels p = d \<and>
         prefix_root t = Inr (path_root p) \<and> path_indices p = Field (of_nat i) \<and>
         path_fold field_compress i (xs ! i) (path_elements p) = path_root p \<and>
         (length xs \<le> 2 ^ d \<and> d \<le> 31 \<longrightarrow>
           merkle_proof (full_scalars d xs) i = Inr (map field_to_scalar (path_elements p), i, d)))) \<and>
    (max 1 (length xs) \<le> i \<longrightarrow>
      built_proof b i = Inl (Err (LeafIndexOutOfRange i (max 1 (length xs))))) \<and>
    hash_pair l r = Inr (field_compress l r)"
proof (intro conjI)
  from prefix_cases [OF assms(1,2)] assms(3) obtain levels where d: "d \<le> 32"
    and t: "t = \<lparr> tree_depth = d, tree_leaves = xs, tree_empty = fempty d \<rparr>"
    and b: "b = \<lparr> built_depth = d, built_empty = fempty d, built_levels = levels \<rparr>"
    and lv: "length levels = Suc d" "\<And>l. l \<le> d \<Longrightarrow> level_ok field_compress ZERO_LEAF xs l (levels ! l)"
    and n: "length (levels ! 0) = max 1 (length xs)" by (metis sum.inject(2))
  show "i < length xs \<and> i < 2 ^ d \<longrightarrow>
      (\<exists>p. built_proof b i = Inr p \<and> length (path_elements p) = d \<and> path_levels p = d \<and>
         prefix_root t = Inr (path_root p) \<and> path_indices p = Field (of_nat i) \<and>
         path_fold field_compress i (xs ! i) (path_elements p) = path_root p \<and>
         (length xs \<le> 2 ^ d \<and> d \<le> 31 \<longrightarrow>
           merkle_proof (full_scalars d xs) i = Inr (map field_to_scalar (path_elements p), i, d)))"
  proof
    assume i: "i < length xs \<and> i < 2 ^ d"
    then have "i < length (levels ! 0)" using n by simp
    note p = built_proof_node [OF lv d this, folded b]
    have "path_fold field_compress i (xs ! i) (merkle_siblings field_compress ZERO_LEAF xs d i) =
        merkle_root_of field_compress ZERO_LEAF d xs"
      using path_fold_root [of i d field_compress ZERO_LEAF xs] i by simp
    moreover have "prefix_root t = Inr (merkle_root_of field_compress ZERO_LEAF d xs)"
      unfolding t by (rule prefix_root_node [OF assms(2)])
    ultimately show "\<exists>p. built_proof b i = Inr p \<and> length (path_elements p) = d \<and> path_levels p = d \<and>
         prefix_root t = Inr (path_root p) \<and> path_indices p = Field (of_nat i) \<and>
         path_fold field_compress i (xs ! i) (path_elements p) = path_root p \<and>
         (length xs \<le> 2 ^ d \<and> d \<le> 31 \<longrightarrow>
           merkle_proof (full_scalars d xs) i = Inr (map field_to_scalar (path_elements p), i, d))"
      using i by (simp add: p full_proof) (simp add: merkle_siblings_def)
  qed
  have "built_leaf_count b = max 1 (length xs)"
    using lv(1) n by (cases levels) (simp_all add: built_leaf_count_def b)
  then show "max 1 (length xs) \<le> i \<longrightarrow>
      built_proof b i = Inl (Err (LeafIndexOutOfRange i (max 1 (length xs))))"
    by (simp add: built_proof_def)
  show "hash_pair l r = Inr (field_compress l r)" by (rule hash_pair_eq)
qed

theorem prefix_tree_proofs_witness:
  "\<exists>t b p. prefix_tree_new 2 [Field 1, Field 2, Field 3] = Inr t \<and> prefix_build t = Inr b \<and>
    built_proof b 2 = Inr p \<and> length (path_elements p) = 2 \<and> prefix_root t = Inr (path_root p) \<and>
    path_indices p = Field 2 \<and>
    path_fold field_compress 2 (Field 3) (path_elements p) = path_root p \<and>
    merkle_proof (full_scalars 2 [Field 1, Field 2, Field 3]) 2 =
      Inr (map field_to_scalar (path_elements p), 2, 2) \<and>
    built_proof b 3 = Inl (Err (LeafIndexOutOfRange 3 3))"
proof -
  obtain t where t: "prefix_tree_new 2 [Field 1, Field 2, Field 3] = Inr t"
    using sample_prefix_tree by blast
  have len: "length [Field 1, Field 2, Field 3] < 2 ^ 32" by simp
  from prefix_cases [OF t len] obtain b where b: "prefix_build t = Inr b" by metis
  show ?thesis
    using prefix_tree_proofs [OF t len b, of 2] prefix_tree_proofs [OF t len b, of 3] t b
    by (intro exI [of _ t] exI [of _ b]) auto
qed

end
