(* ===== verification/Hash_Agreement.thy ===== *)
theory Hash_Agreement
  imports Soroban_Utils Prover_Merkle
begin

text \<open>
  The contracts hash with a host function of Soroban, the client with the crate \<open>poseidon2\<close>. This
  theory states what the host function is documented to compute (\<open>host_is_poseidon2\<close>: the Poseidon2
  permutation of the parameters it is handed) and shows that both sides then compute the same hashes:
  the round constants that the contracts embed are those of the crate wherever the permutation reads
  them, although one row of the contract's table is short.
\<close>

section \<open>What the host computes\<close>

text \<open>The parameters a contract hands over, as a parameter set of the crate.\<close>

definition host_params ::
  "nat \<Rightarrow> nat \<Rightarrow> nat \<Rightarrow> nat \<Rightarrow> u256 list \<Rightarrow> u256 list list \<Rightarrow> poseidon2_params option" where
  "host_params t d rf rp diag rc = params_new t d rf rp (map uint diag) [] (map (map uint) rc)"

text \<open>
  On parameters that the permutation is defined for, the host returns the Poseidon2 permutation of
  the input.
\<close>

definition host_is_poseidon2 :: "poseidon2_host \<Rightarrow> bool" where
  "host_is_poseidon2 P \<longleftrightarrow>
    (\<forall>inp t d rf rp diag rc pp.
       host_params t d rf rp diag rc = Some pp \<longrightarrow> params_wf pp \<longrightarrow>
       length inp = t \<longrightarrow> list_all (\<lambda>x. x < bn256_modulus) inp \<longrightarrow>
       map uint (P inp ''BN254'' t d rf rp diag rc) =
         poseidon2_spec FpBN256_MODULUS t d rf rp (map uint diag) (map (map uint) rc) (map uint inp))"

text \<open>A host that does: the specification itself, on words.\<close>

definition reference_host :: poseidon2_host where
  "reference_host inp field t d rf rp diag rc =
    map word_of_int (poseidon2_spec FpBN256_MODULUS t d rf rp (map uint diag) (map (map uint) rc)
      (map uint inp))"

lemma reference_host_words:
  "map uint (reference_host inp field t d rf rp diag rc) =
     poseidon2_spec FpBN256_MODULUS t d rf rp (map uint diag) (map (map uint) rc) (map uint inp)"
  unfolding reference_host_def map_map
  by (rule map_idI) (simp add: uint_of_scalar poseidon2_spec_range [OF FpBN256_pos])

lemma reference_host_is_poseidon2: "host_is_poseidon2 reference_host"
  by (simp add: host_is_poseidon2_def reference_host_words)

lemma reference_host_ok: "host_permutation_ok reference_host"
proof -
  have "y < bn256_modulus" if "y \<in> set (reference_host inp field t d rf rp diag rc)"
    for y inp field t d rf rp diag rc
  proof -
    have "uint y \<in> set (map uint (reference_host inp field t d rf rp diag rc))" using that by simp
    then have "uint y < FpBN256_MODULUS"
      unfolding reference_host_words using poseidon2_spec_range [OF FpBN256_pos] by blast
    then show ?thesis by (simp add: word_less_def uint_modulus_Fp)
  qed
  then show ?thesis
    by (auto simp: host_permutation_ok_def list_all_iff) (simp add: reference_host_def)
qed

section \<open>The tables\<close>

lemma uint_u256_numeral:
  assumes "(numeral a::int) <
    115792089237316195423570985008687907853269984665640564039457584007913129639936"
  shows "uint (numeral a :: u256) = numeral a"
proof -
  have "int (numeral a) < int
      115792089237316195423570985008687907853269984665640564039457584007913129639936"
    using assms by (simp only: of_nat_numeral)
  then have "unat (numeral a :: u256) = numeral a"
    by (intro unat_u256_numeral) (simp only: of_nat_less_iff)
  then show ?thesis by (simp only: uint_nat of_nat_numeral)
qed

lemmas table_eval = list.map uint_u256_numeral uint_0_eq uint_1_eq arith_simps rel_simps simp_thms


lemma contract_rc3: "map (map uint) get_round_constants_t3 = RC3"
  unfolding get_round_constants_t3_def RC3_eval by (simp only: table_eval)

text \<open>For width 2 the tables agree except for row 29, whose second entry the contract leaves out.\<close>

lemmas contract_rc2_eval =
  arg_cong [OF get_round_constants_t2_def, of "map (map uint)", simplified table_eval]

lemma contract_rc2: "map (map uint) get_round_constants_t2 = RC2[29 := take 1 (RC2 ! 29)]"
  unfolding contract_rc2_eval RC2_eval by (simp add: eval_nat_numeral)

text \<open>The permutation reads only the first constant of a partial round.\<close>

lemma fold_partial_first:
  "map (\<lambda>rc. rc ! 0) rcs = map (\<lambda>rc. rc ! 0) rcs' \<Longrightarrow>
     fold (spec_partial p t d diag) rcs v = fold (spec_partial p t d diag) rcs' v"
proof (induction rcs arbitrary: rcs' v)
  case (Cons rc rcs)
  then obtain rc' rest where "rcs' = rc' # rest" "rc ! 0 = rc' ! 0"
    "map (\<lambda>rc. rc ! 0) rcs = map (\<lambda>rc. rc ! 0) rest"
    by (cases rcs') auto
  with Cons.IH [of rest] show ?case by (simp add: spec_partial_def)
qed simp

lemma poseidon2_spec_short_row:
  assumes "rf div 2 \<le> r" and "r < rf div 2 + rp" and "r < length rcs"
  shows "poseidon2_spec p t d rf rp diag (rcs[r := take 1 (rcs ! r)]) v =
    poseidon2_spec p t d rf rp diag rcs v"
proof -
  have "map (\<lambda>rc. rc ! 0) (rcs[r := take 1 (rcs ! r)]) = map (\<lambda>rc. rc ! 0) rcs"
    using assms(3) by (intro nth_equalityI) (simp_all add: nth_list_update)
  note rows = arg_cong [OF this, of "\<lambda>xs. take rp (drop (rf div 2) xs)", unfolded take_map drop_map]
  have "take (rf div 2) (rcs[r := take 1 (rcs ! r)]) = take (rf div 2) rcs"
    using assms(1) by (rule take_update_cancel)
  moreover have "drop (rf div 2 + rp) (rcs[r := take 1 (rcs ! r)]) = drop (rf div 2 + rp) rcs"
    using assms(2) by (rule drop_update_cancel)
  ultimately show ?thesis
    unfolding poseidon2_spec_def Let_def by (simp only: fold_partial_first [OF rows])
qed

section \<open>The hashes agree\<close>

lemma RC2_row: "length RC2 = 64" "i < 64 \<Longrightarrow> length (RC2 ! i) = 2"
proof -
  show "length RC2 = 64" using arg_cong [OF RC_shape(1), of length] by simp
  then show "length (RC2 ! i) = 2" if "i < 64" using all_lengths [OF RC_shape(1), of "RC2 ! i"] that by simp
qed

lemma host_params_2:
  obtains pp where "host_params 2 5 8 56 [1, 2] get_round_constants_t2 = Some pp" and "params_wf pp"
proof -
  define rcs where "rcs = RC2[29 := take 1 (RC2 ! 29)]"
  have len: "length rcs = 64" by (simp add: rcs_def RC2_row)
  have row: "length (rcs ! i) = (if i = 29 then 1 else 2)" if "i < 64" for i
    using that by (simp add: rcs_def nth_list_update RC2_row)
  have "list_all (\<lambda>rc. length rc = 2) (take 4 rcs)" "list_all (\<lambda>rc. length rc = 2) (drop 60 rcs)"
    "list_all (\<lambda>rc. rc \<noteq> []) rcs"
    using row len by (auto simp: list_all_length) (metis length_0_conv zero_neq_numeral zero_neq_one)
  then have "params_wf \<lparr> width = 2, sbox_degree = 5, rounds_f_div_2 = 4, rounds_p = 56, rounds = 64,
      mat_internal_diag_m_1 = [1, 2], mat_internal = [], round_constants = rcs \<rparr>"
    using len by (simp add: params_wf_def)
  then show thesis
    by (intro that) (auto simp: host_params_def params_new_def contract_rc2 rcs_def)
qed

lemma host_params_3:
  obtains pp where "host_params 3 5 8 56 [1, 1, 2] get_round_constants_t3 = Some pp" and "params_wf pp"
proof -
  obtain pp where "params_new 3 5 8 56 [1, 1, 2] [] RC3 = Some pp" "params_wf pp"
    by (rule params_new_wf [of RC3 8 56 3 5 "[1, 1, 2]" "[]"]) (simp_all add: RC_shape)
  then show thesis by (intro that) (simp_all add: host_params_def contract_rc3)
qed

lemma bn256_spec_widths:
  "bn256_spec diag rcs [a, b] = poseidon2_spec FpBN256_MODULUS 2 5 8 56 diag rcs [a, b]"
  "bn256_spec diag rcs [a, b, c] = poseidon2_spec FpBN256_MODULUS 3 5 8 56 diag rcs [a, b, c]"
proof -
  have "length [a, b] = 2" "length [a, b, c] = 3" by simp_all
  then show "bn256_spec diag rcs [a, b] = poseidon2_spec FpBN256_MODULUS 2 5 8 56 diag rcs [a, b]"
    "bn256_spec diag rcs [a, b, c] = poseidon2_spec FpBN256_MODULUS 3 5 8 56 diag rcs [a, b, c]"
    by (simp_all only: bn256_spec_def)
qed

lemma hd_uint: "map uint xs = ys \<Longrightarrow> 0 < length ys \<Longrightarrow> uint (xs ! 0) = ys ! 0"
  by (cases xs) auto

lemma host_spec:
  assumes "host_is_poseidon2 P" and "host_params t d rf rp diag rc = Some pp" and "params_wf pp"
    and "length inp = t" and "list_all (\<lambda>x. x < bn256_modulus) inp"
  shows "map uint (P inp ''BN254'' t d rf rp diag rc) =
    poseidon2_spec FpBN256_MODULUS t d rf rp (map uint diag) (map (map uint) rc) (map uint inp)"
  using assms unfolding host_is_poseidon2_def by blast

lemma contract_perm_2:
  assumes "host_is_poseidon2 P" and "l < bn256_modulus" and "r < bn256_modulus"
  shows "uint (P [l, r] ''BN254'' 2 5 8 56 [1, 2] get_round_constants_t2 ! 0) =
    bn256_spec MAT_DIAG2_M_1 RC2 [uint l, uint r] ! 0"
proof (rule host_params_2)
  fix pp assume "host_params 2 5 8 56 [1, 2] get_round_constants_t2 = Some pp" "params_wf pp"
  then have "map uint (P [l, r] ''BN254'' 2 5 8 56 [1, 2] get_round_constants_t2) =
      poseidon2_spec FpBN256_MODULUS 2 5 8 56 (map uint [1, 2 :: u256])
        (map (map uint) get_round_constants_t2) (map uint [l, r])"
    by (rule host_spec [OF assms(1)]) (use assms in auto)
  also have "\<dots> = bn256_spec MAT_DIAG2_M_1 RC2 [uint l, uint r]"
  proof -
    have "poseidon2_spec FpBN256_MODULUS 2 5 8 56 [1, 2] (RC2[29 := take 1 (RC2 ! 29)]) v =
        poseidon2_spec FpBN256_MODULUS 2 5 8 56 [1, 2] RC2 v" for v
      by (intro poseidon2_spec_short_row) (simp_all add: RC2_row)
    then show ?thesis unfolding contract_rc2 bn256_spec_widths MAT_eval by simp
  qed
  finally show ?thesis by (rule hd_uint) (simp add: bn256_spec_def)
qed

lemma contract_perm_3:
  assumes "host_is_poseidon2 P" and "a < bn256_modulus" and "b < bn256_modulus" and "s < bn256_modulus"
  shows "uint (P [a, b, s] ''BN254'' 3 5 8 56 [1, 1, 2] get_round_constants_t3 ! 0) =
    client_hash2 (uint a) (uint b) (uint s)"
proof (rule host_params_3)
  fix pp assume "host_params 3 5 8 56 [1, 1, 2] get_round_constants_t3 = Some pp" "params_wf pp"
  then have "map uint (P [a, b, s] ''BN254'' 3 5 8 56 [1, 1, 2] get_round_constants_t3) =
      poseidon2_spec FpBN256_MODULUS 3 5 8 56 (map uint [1, 1, 2 :: u256])
        (map (map uint) get_round_constants_t3) (map uint [a, b, s])"
    by (rule host_spec [OF assms(1)]) (use assms in auto)
  also have "\<dots> = bn256_spec MAT_DIAG3_M_1 RC3 [uint a, uint b, uint s]"
    unfolding contract_rc3 bn256_spec_widths MAT_eval by simp
  finally show ?thesis unfolding client_hash2_def by (rule hd_uint) (simp add: bn256_spec_def)
qed

lemma compress_val_client:
  assumes "host_permutation_ok P" and "host_is_poseidon2 P" and "l < bn256_modulus" and "r < bn256_modulus"
  shows "uint (compress_val P l r) = client_compress (uint l) (uint r)"
proof -
  define x where "x = P [l, r] ''BN254'' 2 5 8 56 [1, 2] get_round_constants_t2 ! 0"
  have x: "uint x = bn256_spec MAT_DIAG2_M_1 RC2 [uint l, uint r] ! 0"
    unfolding x_def by (rule contract_perm_2 [OF assms(2-4)])
  have "uint x < FpBN256_MODULUS"
    unfolding x using bn256_spec_nth_range [of 0 "[uint l, uint r]"] by simp
  moreover have "uint l < FpBN256_MODULUS"
    using assms(3) by (simp add: word_less_def uint_modulus_Fp)
  ultimately have "uint x + uint l < 2 ^ LENGTH(256)" by (simp add: FpBN256_MODULUS_def)
  then have "uint (x + l) = uint x + uint l" by (simp only: uint_add_lem)
  then show ?thesis
    unfolding compress_val_def x_def [symmetric]
    by (simp add: uint_mod uint_modulus_Fp client_compress_def x)
qed

lemma hash2_val_client:
  assumes "host_is_poseidon2 P" and "a < bn256_modulus" and "b < bn256_modulus" and "s < bn256_modulus"
  shows "uint (hash2_val P a b s) = client_hash2 (uint a) (uint b) (uint s)"
  unfolding hash2_val_def by (rule contract_perm_3 [OF assms])

lemma field_compress_val:
  assumes "host_permutation_ok P" and "host_is_poseidon2 P" and "l < bn256_modulus" and "r < bn256_modulus"
  shows "field_compress (Field l) (Field r) = Field (compress_val P l r)"
proof -
  have "field_to_scalar (Field l) = uint l" "field_to_scalar (Field r) = uint r"
    using assms(3,4) by (simp_all add: field_to_scalar_eq field_canonical_def)
  then have "field_compress (Field l) (Field r) = Field (word_of_int (uint (compress_val P l r)))"
    by (simp add: field_compress_def compress_val_client [OF assms])
  then show ?thesis by simp
qed

text \<open>
  C21: Contracts and client hash alike. On field elements the contracts' compression and their
  two-input hash with a domain separator return the numbers that the prover's
  \<open>poseidon2_compression\<close> and \<open>poseidon2_hash2_internal\<close> return, and \<open>hash_pair\<close> of the client's tree
  returns the node the contract computes. The round constants that the contracts hand to the host are
  those of the client's crate wherever they are read.
\<close>

theorem contract_client_hashes:
  assumes "host_permutation_ok P" and "host_is_poseidon2 P"
    and "a < bn256_modulus" and "b < bn256_modulus" and "s < bn256_modulus"
  shows "\<exists>h k. poseidon2_compress P a b = Inr h \<and> poseidon2_compression (uint a) (uint b) = Inr (uint h) \<and>
    hash_pair (Field a) (Field b) = Inr (Field h) \<and>
    poseidon2_hash2 P a b (Some s) = Inr k \<and>
    poseidon2_hash2_internal (uint a) (uint b) (Some (uint s)) = Inr (uint k)"
  using assms
  by (simp add: poseidon2_compress_ok poseidon2_hash2_ok poseidon2_compression_eq
      poseidon2_hash2_internal_eq compress_val_client hash2_val_client hash_pair_eq field_compress_val)

theorem contract_client_hashes_witness:
  "\<exists>h k. poseidon2_compress reference_host 5 6 = Inr h \<and> poseidon2_compression (uint (5::u256)) (uint (6::u256)) = Inr (uint h) \<and>
    hash_pair (Field 5) (Field 6) = Inr (Field h) \<and>
    poseidon2_hash2 reference_host 5 6 (Some 1) = Inr k \<and>
    poseidon2_hash2_internal (uint (5::u256)) (uint (6::u256)) (Some (uint (1::u256))) = Inr (uint k)"
  by (rule contract_client_hashes [OF reference_host_ok reference_host_is_poseidon2])
    (simp_all only: bn256_modulus_eq u256_eval)

section \<open>The trees agree\<close>

lemma zero_leaf_contract: "Field (get_zeroes ! 0) = ZERO_LEAF"
proof -
  have "unat (get_zeroes ! 0) = nat_of_be_bytes ZERO_LEAF_BYTES"
    by (simp add: get_zeroes_def unat_u256_numeral ZERO_LEAF_BYTES_def nat_of_be_bytes_def)
  then have "of_nat (unat (get_zeroes ! 0)) = u256_from_be_bytes ZERO_LEAF_BYTES"
    by (simp only: u256_from_be_bytes_def)
  then have "get_zeroes ! 0 = u256_from_be_bytes ZERO_LEAF_BYTES" by simp
  then show ?thesis by (simp add: ZERO_LEAF_def)
qed

lemma tree_node_client:
  assumes "host_permutation_ok P" and "host_is_poseidon2 P" and "list_all (\<lambda>x. x < bn256_modulus) xs"
  shows "fnode (map Field xs) l i = Field (merkle_node (compress_val P) (get_zeroes ! 0) xs l i) \<and>
    merkle_node (compress_val P) (get_zeroes ! 0) xs l i < bn256_modulus"
proof (induction l arbitrary: i)
  case 0
  then show ?case
    using assms(3) by (simp add: zero_leaf_contract list_all_length get_zeroes_nth_canonical)
next
  case (Suc l)
  then show ?case by (simp add: field_compress_val [OF assms(1,2)])
qed

lemma client_root_contract:
  assumes "host_permutation_ok P" and "host_is_poseidon2 P" and "list_all (\<lambda>x. x < bn256_modulus) xs"
    and "1 \<le> d" and "d \<le> 32" and "length xs < 2 ^ 32"
  shows "let_ok (prefix_tree_new d (map Field xs)) prefix_root =
    Inr (Field (merkle_root_of (compress_val P) (get_zeroes ! 0) d xs))"
proof -
  have "length (map Field xs) < 2 ^ 32" using assms(6) by simp
  from prefix_root_node [OF this, of d] show ?thesis
    using assms(4,5) tree_node_client [OF assms(1-3), of d 0]
    by (simp add: prefix_tree_new_eq merkle_root_of_def del: upt_Suc)
qed

text \<open>
  The contracts' table of zero hashes is right exactly where the client's chain of empty subtrees
  says so.
\<close>

lemma zero_table_client:
  assumes "host_permutation_ok P" and "host_is_poseidon2 P"
  shows "zero_table_ok P \<longleftrightarrow> (\<forall>i \<le> 32. Field (get_zeroes ! i) = fempty 32 ! i)"
proof
  have empty: "fempty 32 ! i = fnode (map Field []) i 0" if "i \<le> 32" for i
    using that by (simp add: nth_append merkle_node_zero_chain)
  have "list_all (\<lambda>x. x < bn256_modulus) []" by simp
  note nil = tree_node_client [OF assms this]
  show "\<forall>i \<le> 32. Field (get_zeroes ! i) = fempty 32 ! i" if "zero_table_ok P"
  proof (intro allI impI)
    fix i :: nat assume "i \<le> 32"
    then show "Field (get_zeroes ! i) = fempty 32 ! i"
      using zero_table_chain [OF that \<open>i \<le> 32\<close>] nil [of i 0] by (simp add: empty merkle_node_zero_chain del: upt_Suc)
  qed
  show "zero_table_ok P" if *: "\<forall>i \<le> 32. Field (get_zeroes ! i) = fempty 32 ! i"
    unfolding zero_table_ok_def
  proof (intro allI impI)
    fix i :: nat assume i: "i < 32"
    have "Field (compress_val P (get_zeroes ! i) (get_zeroes ! i)) =
        field_compress (Field (get_zeroes ! i)) (Field (get_zeroes ! i))"
      using i by (simp add: field_compress_val [OF assms] get_zeroes_nth_canonical)
    also have "\<dots> = Field (get_zeroes ! Suc i)"
      using * i by (simp add: nth_append del: upt_Suc)
    finally show "compress_val P (get_zeroes ! i) (get_zeroes ! i) = get_zeroes ! Suc i" by simp
  qed
qed

end
