(* ===== verification/Note_Encryption.thy ===== *)
theory Note_Encryption
  imports Prover_Crypto
begin

text \<open>
  Key derivation, encryption of output notes and note discovery
  (\<open>app/crates/core/prover/src/encryption.rs\<close> and \<open>notes.rs\<close>). SHA-256, X25519, XSalsa20-Poly1305 and the
  field \<open>Fr\<close> of \<open>ark_bn254\<close> are other crates and the fields of the parameter \<open>crypto_env\<close>; what the code
  relies on about them is \<open>crypto_env_ok\<close>. The results of the calls of \<open>getrandom\<close> are arguments:
  \<open>None\<close> is a failed call.
\<close>

section \<open>Parameters\<close>

record crypto_env =
  sha256 :: "bytes \<Rightarrow> bytes"
  static_secret :: "bytes \<Rightarrow> bytes"
  x25519_public :: "bytes \<Rightarrow> bytes"
  diffie_hellman :: "bytes \<Rightarrow> bytes \<Rightarrow> bytes"
  box_encrypt :: "bytes \<Rightarrow> bytes \<Rightarrow> bytes \<Rightarrow> bytes option"
  box_decrypt :: "bytes \<Rightarrow> bytes \<Rightarrow> bytes \<Rightarrow> bytes option"
  fr_modulus :: int

text \<open>
  Digests and public keys have 32 bytes; \<open>StaticSecret\<close> keeps its 32 bytes; both ends of a key
  exchange compute the same secret; decryption inverts encryption under the same key and nonce, and a
  ciphertext is 16 bytes longer than its plaintext; \<open>Fr\<close> is the scalar field of BN254.
\<close>

definition crypto_env_ok :: "crypto_env \<Rightarrow> bool" where
  "crypto_env_ok E \<longleftrightarrow>
    (\<forall>m. length (sha256 E m) = 32) \<and>
    (\<forall>s. length s = 32 \<longrightarrow> static_secret E s = s \<and> length (x25519_public E s) = 32) \<and>
    (\<forall>s s'. length s = 32 \<longrightarrow> length s' = 32 \<longrightarrow>
       diffie_hellman E s (x25519_public E s') = diffie_hellman E s' (x25519_public E s)) \<and>
    (\<forall>k n m c. box_encrypt E k n m = Some c \<longrightarrow>
       box_decrypt E k n c = Some m \<and> length c = length m + 16) \<and>
    fr_modulus E = FpBN256_MODULUS"

section \<open>Key derivation\<close>

definition KEY_DERIVATION_MESSAGE :: string where
  "KEY_DERIVATION_MESSAGE = ''Privacy Pool Key Derivation [v1]''"

definition ascii :: "string \<Rightarrow> bytes" where
  "ascii s = map (\<lambda>c. of_nat (of_char c)) s"

definition NOTE_KEY_DOMAIN :: bytes where
  "NOTE_KEY_DOMAIN = ascii ''privacy-pool/note-key/v1''"

definition ENCRYPTION_KEY_DOMAIN :: bytes where
  "ENCRYPTION_KEY_DOMAIN = ascii ''privacy-pool/encryption-key/v1''"

definition MEMBERSHIP_BLINDING_DOMAIN :: bytes where
  "MEMBERSHIP_BLINDING_DOMAIN = ascii ''privacy-pool/asp-secret/v1''"

record note_key_pair =
  note_private :: note_private_key
  note_public :: note_public_key

record encryption_key_pair =
  encryption_private :: encryption_private_key
  encryption_public :: encryption_public_key

definition hash_signature_with_domain :: "crypto_env \<Rightarrow> bytes \<Rightarrow> bytes \<Rightarrow> bytes" where
  "hash_signature_with_domain E signature domain = sha256 E (domain @ signature)"

definition hash_signature_with_domain_and_context ::
  "crypto_env \<Rightarrow> bytes \<Rightarrow> bytes \<Rightarrow> bytes \<Rightarrow> bytes" where
  "hash_signature_with_domain_and_context E signature domain context =
    sha256 E (domain @ [0] @ context @ [0] @ signature)"

text \<open>\<open>Fr::from_le_bytes_mod_order\<close> followed by \<open>serialize_compressed\<close>: 32 bytes, little endian.\<close>

definition reduce_fr :: "crypto_env \<Rightarrow> bytes \<Rightarrow> bytes" where
  "reduce_fr E bs = bigint_to_bytes_le (int (nat_of_le_bytes bs) mod fr_modulus E)"

definition derive_note_private_key :: "crypto_env \<Rightarrow> bytes \<Rightarrow> (prover_error, note_private_key) outcome" where
  "derive_note_private_key E signature =
    (if length signature \<noteq> 64 then Inl (Err SignatureNot64Bytes)
     else
       let key = hash_signature_with_domain E signature NOTE_KEY_DOMAIN in
       Inr (NotePrivateKey (reduce_fr E key)))"

definition derive_keypair_from_signature ::
  "crypto_env \<Rightarrow> bytes \<Rightarrow> (prover_error, encryption_key_pair) outcome" where
  "derive_keypair_from_signature E signature =
    (if length signature \<noteq> 64 then Inl (Err SignatureNot64Bytes)
     else
       let seed = hash_signature_with_domain E signature ENCRYPTION_KEY_DOMAIN in
       let_ok (require (length seed = 32) Trap) (\<lambda>_.
       Inr \<lparr> encryption_private = EncryptionPrivateKey (static_secret E seed),
             encryption_public = EncryptionPublicKey (x25519_public E seed) \<rparr>))"

fun private_bytes :: "note_private_key \<Rightarrow> bytes" where
  "private_bytes (NotePrivateKey b) = b"

fun public_bytes :: "note_public_key \<Rightarrow> bytes" where
  "public_bytes (NotePublicKey b) = b"

definition derive_encryption_and_note_keypairs ::
  "crypto_env \<Rightarrow> bytes \<Rightarrow> (prover_error, note_key_pair \<times> encryption_key_pair) outcome" where
  "derive_encryption_and_note_keypairs E signature =
    let_ok (derive_note_private_key E signature) (\<lambda>note_private_key.
    let_ok (derive_public_key (private_bytes note_private_key)) (\<lambda>pubkey.
    let_ok (require (length pubkey = 32) (Err (ExpectedBytes 32 (length pubkey)))) (\<lambda>_.
    let note_keypair = \<lparr> note_private = note_private_key, note_public = NotePublicKey pubkey \<rparr> in
    let_ok (derive_keypair_from_signature E signature) (\<lambda>encryption_keypair.
    Inr (note_keypair, encryption_keypair)))))"

definition derive_membership_blinding ::
  "crypto_env \<Rightarrow> bytes \<Rightarrow> bytes \<Rightarrow> (prover_error, field) outcome" where
  "derive_membership_blinding E signature network_context =
    (if length signature \<noteq> 64 then Inl (Err SignatureNot64Bytes)
     else
       let key = hash_signature_with_domain_and_context E signature MEMBERSHIP_BLINDING_DOMAIN
             network_context in
       lift_types (field_try_from_le_bytes (reduce_fr E key)))"

definition generate_random_blinding :: "crypto_env \<Rightarrow> bytes option \<Rightarrow> (prover_error, field) outcome" where
  "generate_random_blinding E random =
    let_ok (ok_or random (Err RandomFailed)) (\<lambda>random_bytes.
    let le = reduce_fr E random_bytes in
    let_ok (require (length le = 32) (Err (ExpectedBytes 32 (length le)))) (\<lambda>_.
    lift_types (field_try_from_le_bytes le)))"

section \<open>Encryption\<close>

definition encrypt_note_data ::
  "crypto_env \<Rightarrow> bytes option \<Rightarrow> bytes option \<Rightarrow> bytes \<Rightarrow> bytes \<Rightarrow> (prover_error, bytes) outcome" where
  "encrypt_note_data E eph_random nonce_random recipient_pubkey plaintext =
    (if length recipient_pubkey \<noteq> 32 then Inl (Err PublicKeyNot32Bytes)
     else if length plaintext \<noteq> 48 then Inl (Err (PlaintextNot48Bytes (length plaintext)))
     else
       let_ok (ok_or eph_random (Err RandomFailed)) (\<lambda>ephemeral_bytes.
       let ephemeral_public = x25519_public E ephemeral_bytes;
           shared_secret = diffie_hellman E ephemeral_bytes recipient_pubkey in
       let_ok (ok_or nonce_random (Err RandomFailed)) (\<lambda>nonce_bytes.
       let_ok (ok_or (box_encrypt E shared_secret nonce_bytes plaintext) (Err EncryptionFailed)) (\<lambda>ciphertext.
       let_ok (or_trap (nat_checked_add 32 (length ciphertext) 56)) (\<lambda>capacity.
       Inr (ephemeral_public @ nonce_bytes @ ciphertext))))))"

definition decrypt_note_data :: "crypto_env \<Rightarrow> bytes \<Rightarrow> bytes \<Rightarrow> (prover_error, bytes) outcome" where
  "decrypt_note_data E private_key encrypted_data =
    (if length private_key \<noteq> 32 then Inl (Err PrivateKeyNot32Bytes)
     else if length encrypted_data < 120 then Inl (Err EncryptedDataTooShort)
     else
       let ephemeral_pubkey = take 32 encrypted_data;
           nonce_bytes = take 24 (drop 32 encrypted_data);
           ciphertext_with_tag = drop 56 encrypted_data;
           shared_secret = diffie_hellman E private_key ephemeral_pubkey in
       case box_decrypt E shared_secret nonce_bytes ciphertext_with_tag of
         Some plaintext \<Rightarrow> Inr plaintext
       | None \<Rightarrow> Inr [])"

fun encrypt_output_note ::
  "crypto_env \<Rightarrow> bytes option \<Rightarrow> bytes option \<Rightarrow> encryption_public_key \<Rightarrow> note_amount \<Rightarrow> field \<Rightarrow>
    (prover_error, bytes) outcome" where
  "encrypt_output_note E eph_random nonce_random (EncryptionPublicKey recipient_pubkey) amount blinding =
    encrypt_note_data E eph_random nonce_random recipient_pubkey
      (note_to_le_bytes amount @ field_to_le_bytes blinding)"

definition u128_from_le_bytes :: "bytes \<Rightarrow> u128" where
  "u128_from_le_bytes bs = of_nat (nat_of_le_bytes bs)"

fun decrypt_output_note ::
  "crypto_env \<Rightarrow> encryption_private_key \<Rightarrow> bytes \<Rightarrow> (prover_error, (note_amount \<times> field) option) outcome" where
  "decrypt_output_note E (EncryptionPrivateKey recipient_privkey) encrypted_output =
    let_ok (decrypt_note_data E recipient_privkey encrypted_output) (\<lambda>plaintext.
    if plaintext = [] then Inr None
    else if length plaintext \<noteq> 48 then Inl (Err (PlaintextNot48Bytes (length plaintext)))
    else
      let amount = NoteAmount (u128_from_le_bytes (take 16 plaintext)) in
      let_ok (lift_types (field_try_from_le_bytes (drop 16 plaintext))) (\<lambda>blinding.
      Inr (Some (amount, blinding))))"

section \<open>Note discovery\<close>

record derived_user_note =
  derived_amount :: note_amount
  derived_blinding :: field
  expected_nullifier :: field

text \<open>\<open>path_indices_le[..8]\<close> is the leaf index as a \<open>u64\<close>, little endian.\<close>

definition leaf_index_bytes :: "nat \<Rightarrow> bytes" where
  "leaf_index_bytes i = rev (be_bytes_of_nat 8 i) @ replicate 24 0"

definition try_decrypt_and_derive_user_note ::
  "crypto_env \<Rightarrow> note_key_pair \<Rightarrow> encryption_private_key \<Rightarrow> field \<Rightarrow> nat \<Rightarrow> bytes \<Rightarrow>
    (prover_error, derived_user_note option) outcome" where
  "try_decrypt_and_derive_user_note E note_keypair encryption_private_key commitment leaf_index encrypted_output =
    let_ok (decrypt_output_note E encryption_private_key encrypted_output) (\<lambda>found.
    case found of
      None \<Rightarrow> Inr None
    | Some (amount, blinding) \<Rightarrow>
        if note_is_zero amount then Inr None
        else
          let_ok (compute_commitment (field_to_le_bytes (field_from_note amount))
              (public_bytes (note_public note_keypair)) (field_to_le_bytes blinding)) (\<lambda>computed.
          let_ok (require (length computed = 32) (Err (ExpectedBytes 32 (length computed)))) (\<lambda>_.
          if computed \<noteq> field_to_le_bytes commitment then Inr None
          else
            let commitment_le = field_to_le_bytes commitment;
                path_indices_le = leaf_index_bytes leaf_index in
            let_ok (compute_signature (private_bytes (note_private note_keypair)) commitment_le path_indices_le) (\<lambda>signature.
            let_ok (compute_nullifier commitment_le path_indices_le signature) (\<lambda>nullifier.
            let_ok (require (length nullifier = 32) (Err (ExpectedBytes 32 (length nullifier)))) (\<lambda>_.
            let_ok (lift_types (field_try_from_le_bytes nullifier)) (\<lambda>expected.
            Inr (Some \<lparr> derived_amount = amount, derived_blinding = blinding,
                        expected_nullifier = expected \<rparr>))))))))"

section \<open>Lemmas\<close>

lemma crypto_env_okD:
  assumes "crypto_env_ok E"
  shows "length (sha256 E m) = 32" and "length s = 32 \<Longrightarrow> static_secret E s = s"
    and "length s = 32 \<Longrightarrow> length (x25519_public E s) = 32"
    and "length s = 32 \<Longrightarrow> length s' = 32 \<Longrightarrow>
      diffie_hellman E s (x25519_public E s') = diffie_hellman E s' (x25519_public E s)"
    and "box_encrypt E k n m = Some c \<Longrightarrow> box_decrypt E k n c = Some m"
    and "box_encrypt E k n m = Some c \<Longrightarrow> length c = length m + 16"
    and "fr_modulus E = FpBN256_MODULUS"
  using assms by (auto simp: crypto_env_ok_def)

lemma length_note_to_le_bytes [simp]: "length (note_to_le_bytes a) = 16"
  by (simp add: note_to_le_bytes_def)

lemma u128_from_note_bytes: "u128_from_le_bytes (note_to_le_bytes a) = note_u128 a"
proof -
  have "unat (note_u128 a) < 2 ^ LENGTH(128)" by (rule unsigned_less)
  then have "unat (note_u128 a) mod 256 ^ 16 = unat (note_u128 a)" by simp
  then show ?thesis
    by (simp add: u128_from_le_bytes_def note_to_le_bytes_def nat_of_be_bytes_of_nat)
qed

lemma field_le_bytes_canonical:
  assumes "field_canonical f" shows "field_try_from_le_bytes (field_to_le_bytes f) = Inr f"
  using assms by (cases f) (simp add: field_try_from_le_bytes_def field_to_le_bytes_def
      field_try_from_u256_canonical field_canonical_def)

lemma reduce_fr_canonical:
  assumes "crypto_env_ok E"
  shows "\<exists>f. field_try_from_le_bytes (reduce_fr E bs) = Inr f \<and> field_canonical f"
proof -
  define s where "s = int (nat_of_le_bytes bs) mod FpBN256_MODULUS"
  have s: "0 \<le> s" "s < FpBN256_MODULUS" by (simp_all add: s_def FpBN256_pos)
  have "(word_of_int s :: u256) < bn256_modulus"
    using s by (simp add: word_less_def uint_modulus_Fp uint_of_scalar)
  then have "field_try_from_le_bytes (bigint_to_bytes_le s) = Inr (Field (word_of_int s))"
    by (simp add: field_try_from_le_bytes_def u256_from_le_bigint [OF s] field_try_from_u256_canonical)
  then show ?thesis
    using field_of_scalar(1) [OF s] crypto_env_okD(7) [OF assms] by (auto simp: reduce_fr_def s_def)
qed

lemma encrypt_note_data_Inr:
  assumes "crypto_env_ok E" and "length eph = 32" and "length nonce = 24"
    and "encrypt_note_data E (Some eph) (Some nonce) pk pt = Inr ct"
  shows "\<exists>c. box_encrypt E (diffie_hellman E eph pk) nonce pt = Some c \<and>
    ct = x25519_public E eph @ nonce @ c \<and> length pt = 48 \<and> length c = 64 \<and> length ct = 120"
proof -
  obtain c where c: "box_encrypt E (diffie_hellman E eph pk) nonce pt = Some c"
    "ct = x25519_public E eph @ nonce @ c" "length pt = 48"
    using assms(4) by (auto simp: encrypt_note_data_def Let_def outcome_simps split: if_splits)
  have "length c = 64" using crypto_env_okD(6) [OF assms(1) c(1)] c(3) by simp
  with c show ?thesis using crypto_env_okD(3) [OF assms(1,2)] assms(3) by auto
qed

lemma decrypt_encrypted:
  assumes "crypto_env_ok E" and "length eph = 32" and "length nonce = 24" and "length sk = 32"
    and "encrypt_note_data E (Some eph) (Some nonce) (x25519_public E sk) pt = Inr ct"
  shows "decrypt_note_data E sk ct = Inr pt"
proof -
  obtain c where c: "box_encrypt E (diffie_hellman E eph (x25519_public E sk)) nonce pt = Some c"
    "ct = x25519_public E eph @ nonce @ c" "length ct = 120"
    using encrypt_note_data_Inr [OF assms(1-3,5)] by blast
  have len: "length (x25519_public E eph) = 32" using crypto_env_okD(3) [OF assms(1,2)] .
  have parts: "take 32 ct = x25519_public E eph" "take 24 (drop 32 ct) = nonce" "drop 56 ct = c"
    using c(2) len assms(3) by simp_all
  have "box_decrypt E (diffie_hellman E sk (x25519_public E eph)) nonce c = Some pt"
    using crypto_env_okD(5) [OF assms(1) c(1)] crypto_env_okD(4) [OF assms(1,2,4)] by simp
  then show ?thesis
    using assms(4) c(3) by (simp add: decrypt_note_data_def parts Let_def)
qed

lemma decrypt_encrypted_note:
  assumes "crypto_env_ok E" and "length eph = 32" and "length nonce = 24" and "length sk = 32"
    and "field_canonical blinding"
    and "encrypt_output_note E (Some eph) (Some nonce) (EncryptionPublicKey (x25519_public E sk)) amount blinding = Inr ct"
  shows "decrypt_output_note E (EncryptionPrivateKey sk) ct = Inr (Some (amount, blinding))"
proof -
  have "decrypt_note_data E sk ct = Inr (note_to_le_bytes amount @ field_to_le_bytes blinding)"
    using assms(6) by (intro decrypt_encrypted [OF assms(1-4)]) simp
  moreover have "note_to_le_bytes amount \<noteq> []" by (metis length_note_to_le_bytes list.size(3) zero_neq_numeral)
  ultimately show ?thesis
    by (simp add: u128_from_note_bytes field_le_bytes_canonical [OF assms(5)])
qed

lemma derive_keypairs_eq:
  assumes "crypto_env_ok E"
  shows "derive_encryption_and_note_keypairs E sig =
    (if length sig \<noteq> 64 then Inl (Err SignatureNot64Bytes)
     else let nsk = reduce_fr E (sha256 E (NOTE_KEY_DOMAIN @ sig));
              esk = sha256 E (ENCRYPTION_KEY_DOMAIN @ sig) in
       Inr (\<lparr> note_private = NotePrivateKey nsk,
              note_public = NotePublicKey (bigint_to_bytes_le (client_hash2 (le_scalar nsk) 0 3)) \<rparr>,
            \<lparr> encryption_private = EncryptionPrivateKey esk,
              encryption_public = EncryptionPublicKey (x25519_public E esk) \<rparr>))"
proof -
  have pk: "derive_public_key b = Inr (bigint_to_bytes_le (client_hash2 (le_scalar b) 0 3))"
    if "length b = 32" for b using note_hashes_eq(1) [OF that that that] .
  have "length (reduce_fr E bs) = 32" for bs by (simp add: reduce_fr_def)
  then show ?thesis
    using crypto_env_okD(1,2) [OF assms]
    by (simp add: derive_encryption_and_note_keypairs_def derive_note_private_key_def
        derive_keypair_from_signature_def hash_signature_with_domain_def pk Let_def)
qed

text \<open>The hash of a scalar result as a field element.\<close>

lemma bigint_le_field:
  assumes "0 \<le> s" and "s < FpBN256_MODULUS"
  shows "field_to_le_bytes (Field (word_of_int s)) = bigint_to_bytes_le s"
    and "field_try_from_le_bytes (bigint_to_bytes_le s) = Inr (Field (word_of_int s))"
proof -
  have "unat (word_of_int s :: u256) = nat s" using uint_of_scalar [OF assms] by (simp add: unat_eq_nat_uint)
  then show "field_to_le_bytes (Field (word_of_int s)) = bigint_to_bytes_le s"
    by (simp add: field_to_le_bytes_def u256_to_le_bytes_def u256_to_be_bytes_def bigint_to_bytes_le_def)
  show "field_try_from_le_bytes (bigint_to_bytes_le s) = Inr (Field (word_of_int s))"
    using scalar_to_field_eq [OF assms]
    by (auto simp: scalar_to_field_def scalar_to_bytes_eq or_panic_def outcome_simps)
qed

lemma field_to_le_bytes_inject: "field_to_le_bytes f = field_to_le_bytes g \<longleftrightarrow> f = g"
  by (cases f; cases g) (metis field.sel field_to_le_bytes_def u256_from_to_le_bytes)

text \<open>The commitment to a note and the nullifier of a committed note, as scalars.\<close>

definition note_commitment :: "note_amount \<Rightarrow> bytes \<Rightarrow> field \<Rightarrow> int" where
  "note_commitment amount pk blinding =
    client_hash3 (uint (note_u128 amount)) (le_scalar pk) (field_to_scalar blinding) 1"

definition note_nullifier :: "bytes \<Rightarrow> int \<Rightarrow> nat \<Rightarrow> int" where
  "note_nullifier sk commitment i =
    client_hash3 commitment (int i) (client_hash3 (le_scalar sk) commitment (int i) 4) 2"

lemma le_scalar_field: "le_scalar (field_to_le_bytes f) = field_to_scalar f"
  by (simp add: le_scalar_def field_to_scalar_def)

lemma le_scalar_index: "i < 2 ^ 32 \<Longrightarrow> le_scalar (leaf_index_bytes i) = int i"
proof -
  assume i: "i < 2 ^ 32"
  have pad: "nat_of_be_bytes (replicate k 0 @ bs) = nat_of_be_bytes bs" for k bs
    by (induction k) (simp_all add: nat_of_be_bytes_def)
  have "nat_of_le_bytes (leaf_index_bytes i) = i"
    using i by (simp add: leaf_index_bytes_def pad nat_of_be_bytes_of_nat)
  then show ?thesis using i by (simp add: le_scalar_def FpBN256_MODULUS_def)
qed

lemma amount_scalar: "field_to_scalar (field_from_note a) = uint (note_u128 a)"
proof -
  have u: "uint (field_u256 (field_from_note a)) = uint (note_u128 a)"
    by (simp add: field_from_note_def uint_up_ucast is_up)
  have "uint (note_u128 a) < 2 ^ 128" using uint_lt2p [of "note_u128 a"] by simp
  then have "field_canonical (field_from_note a)"
    by (simp add: field_canonical_def word_less_def uint_modulus_Fp u FpBN256_MODULUS_def)
  then show ?thesis by (simp add: field_to_scalar_eq u)
qed

lemma compute_commitment_eq:
  assumes "length pk = 32"
  shows "compute_commitment (field_to_le_bytes (field_from_note amount)) pk (field_to_le_bytes blinding) =
    Inr (bigint_to_bytes_le (note_commitment amount pk blinding))"
  using assms by (simp add: note_hashes_eq le_scalar_field amount_scalar note_commitment_def)

lemma compute_nullifier_eq:
  assumes "length sk = 32" and "i < 2 ^ 32" and "0 \<le> c" and "c < FpBN256_MODULUS"
  shows "compute_signature sk (bigint_to_bytes_le c) (leaf_index_bytes i) =
      Inr (bigint_to_bytes_le (client_hash3 (le_scalar sk) c (int i) 4))"
    and "compute_nullifier (bigint_to_bytes_le c) (leaf_index_bytes i)
      (bigint_to_bytes_le (client_hash3 (le_scalar sk) c (int i) 4)) =
      Inr (bigint_to_bytes_le (note_nullifier sk c i))"
proof -
  have "length (leaf_index_bytes i) = 32" by (simp add: leaf_index_bytes_def)
  then show "compute_signature sk (bigint_to_bytes_le c) (leaf_index_bytes i) =
      Inr (bigint_to_bytes_le (client_hash3 (le_scalar sk) c (int i) 4))"
    and "compute_nullifier (bigint_to_bytes_le c) (leaf_index_bytes i)
      (bigint_to_bytes_le (client_hash3 (le_scalar sk) c (int i) 4)) =
      Inr (bigint_to_bytes_le (note_nullifier sk c i))"
    using assms by (simp_all add: note_hashes_eq le_scalar_bigint le_scalar_index note_nullifier_def
        client_hash_range)
qed

lemma discover_decrypted:
  assumes "length pk = 32" and "length sk = 32" and "i < 2 ^ 32"
    and "decrypt_output_note E esk ct = Inr (Some (amount, blinding))"
  shows "try_decrypt_and_derive_user_note E \<lparr> note_private = NotePrivateKey sk, note_public = NotePublicKey pk \<rparr>
      esk commitment i ct =
    (if note_is_zero amount \<or> commitment \<noteq> Field (word_of_int (note_commitment amount pk blinding)) then Inr None
     else Inr (Some \<lparr> derived_amount = amount, derived_blinding = blinding,
       expected_nullifier = Field (word_of_int (note_nullifier sk (note_commitment amount pk blinding) i)) \<rparr>))"
proof -
  define c where "c = note_commitment amount pk blinding"
  have c: "0 \<le> c" "c < FpBN256_MODULUS" by (simp_all add: c_def note_commitment_def client_hash_range)
  have eq: "bigint_to_bytes_le c = field_to_le_bytes commitment \<longleftrightarrow> commitment = Field (word_of_int c)"
    using bigint_le_field(1) [OF c] field_to_le_bytes_inject by metis
  have comm: "compute_commitment (field_to_le_bytes (field_from_note amount)) pk (field_to_le_bytes blinding) =
      Inr (bigint_to_bytes_le c)" unfolding c_def by (rule compute_commitment_eq [OF assms(1)])
  have n: "0 \<le> note_nullifier sk c i" "note_nullifier sk c i < FpBN256_MODULUS"
    by (simp_all add: note_nullifier_def client_hash_range)
  show ?thesis
    unfolding try_decrypt_and_derive_user_note_def assms(4) let_ok_simps
    by (auto simp: comm eq bigint_le_field [OF c] compute_nullifier_eq [OF assms(2,3) c]
        bigint_le_field [OF n] simp flip: c_def)
qed

section \<open>A concrete instance of the parameters\<close>

text \<open>
  It satisfies \<open>crypto_env_ok\<close> and serves only to show that the hypotheses can hold together; it is no
  cryptography.
\<close>

definition sample_crypto :: crypto_env where
  "sample_crypto = \<lparr> sha256 = (\<lambda>m. be_bytes_of_nat 32 (nat_of_be_bytes m)),
     static_secret = (\<lambda>s. s), x25519_public = (\<lambda>s. s),
     diffie_hellman = (\<lambda>s p. map2 (+) s p),
     box_encrypt = (\<lambda>k n m. Some (m @ replicate 16 7)),
     box_decrypt = (\<lambda>k n c. if drop (length c - 16) c = replicate 16 7 then Some (take (length c - 16) c) else None),
     fr_modulus = FpBN256_MODULUS \<rparr>"

lemma map2_add_commute: "map2 (+) xs ys = map2 (+) ys (xs :: u8 list)"
  by (induction xs ys rule: list_induct2') (simp_all add: add.commute)

lemma sample_crypto_ok: "crypto_env_ok sample_crypto"
  by (auto simp: crypto_env_ok_def sample_crypto_def intro: map2_add_commute)

section \<open>Properties\<close>

text \<open>
  Encryption of an output note to a recipient is inverted by the recipient's key. With the two
  random strings the code draws, encrypting an amount and a blinding to the public key of a secret
  gives 120 bytes (unless the cipher itself fails), and decrypting them with the secret returns exactly
  the amount and the blinding. Data shorter than 120 bytes is refused.
\<close>

theorem note_encryption_roundtrip:
  assumes "crypto_env_ok E" and "length sk = 32" and "length eph = 32" and "length nonce = 24"
    and "field_canonical blinding"
  shows "(case box_encrypt E (diffie_hellman E eph (x25519_public E sk)) nonce
        (note_to_le_bytes amount @ field_to_le_bytes blinding) of
      None \<Rightarrow> encrypt_output_note E (Some eph) (Some nonce) (EncryptionPublicKey (x25519_public E sk))
        amount blinding = Inl (Err EncryptionFailed)
    | Some c \<Rightarrow> \<exists>ct. encrypt_output_note E (Some eph) (Some nonce)
          (EncryptionPublicKey (x25519_public E sk)) amount blinding = Inr ct \<and> length ct = 120 \<and>
        decrypt_output_note E (EncryptionPrivateKey sk) ct = Inr (Some (amount, blinding))) \<and>
    (length short < 120 \<longrightarrow>
      decrypt_output_note E (EncryptionPrivateKey sk) short = Inl (Err EncryptedDataTooShort))"
proof -
  let ?pk = "x25519_public E sk" and ?pt = "note_to_le_bytes amount @ field_to_le_bytes blinding"
  have pk: "length ?pk = 32" using crypto_env_okD(3) [OF assms(1,2)] .
  have short: "length short < 120 \<longrightarrow>
      decrypt_output_note E (EncryptionPrivateKey sk) short = Inl (Err EncryptedDataTooShort)"
    using assms(2) by (simp add: decrypt_note_data_def)
  show ?thesis
  proof (cases "box_encrypt E (diffie_hellman E eph ?pk) nonce ?pt")
    case None
    with pk short show ?thesis by (simp add: encrypt_note_data_def Let_def)
  next
    case (Some c)
    have "length c = 64" using crypto_env_okD(6) [OF assms(1) Some] by simp
    then have enc: "encrypt_output_note E (Some eph) (Some nonce) (EncryptionPublicKey ?pk) amount blinding =
        Inr (x25519_public E eph @ nonce @ c)"
      using pk Some by (simp add: encrypt_note_data_def Let_def nat_checked_add_def)
    moreover have "length (x25519_public E eph @ nonce @ c) = 120"
      using \<open>length c = 64\<close> crypto_env_okD(3) [OF assms(1,3)] assms(4) by simp
    ultimately show ?thesis
      using Some short decrypt_encrypted_note [OF assms(1,3,4,2,5) enc] by auto
  qed
qed

theorem note_encryption_roundtrip_witness:
  "\<exists>ct. encrypt_output_note sample_crypto (Some (replicate 32 3)) (Some (replicate 24 4))
      (EncryptionPublicKey (x25519_public sample_crypto (replicate 32 5))) (NoteAmount 1000) (Field 9) = Inr ct \<and>
    length ct = 120 \<and>
    decrypt_output_note sample_crypto (EncryptionPrivateKey (replicate 32 5)) ct =
      Inr (Some (NoteAmount 1000, Field 9)) \<and>
    decrypt_output_note sample_crypto (EncryptionPrivateKey (replicate 32 5)) [1, 2] =
      Inl (Err EncryptedDataTooShort)"
proof -
  have can: "field_canonical (Field 9)"
    unfolding field_canonical_def field.sel by (simp only: bn256_modulus_eq u256_eval)
  have len: "length (replicate 32 (5::u8)) = 32" "length (replicate 32 (3::u8)) = 32"
    "length (replicate 24 (4::u8)) = 24" by simp_all
  have box: "box_encrypt sample_crypto k n m = Some (m @ replicate 16 7)" for k n m
    by (simp add: sample_crypto_def)
  show ?thesis
    using note_encryption_roundtrip [OF sample_crypto_ok len can, of "NoteAmount 1000" "[1, 2]"]
    unfolding box option.case by simp
qed

text \<open>
  C25: A note sent to a user is discovered by that user, and only against its commitment. Whoever
  encrypts an amount and a blinding to the encryption key that a wallet signature derives, scanning
  the ciphertext with the keys of the same signature returns the note with its amount, its blinding
  and the nullifier that spending it will publish, provided the on-chain commitment is the commitment
  to amount, note key and blinding; for any other commitment, and for a dummy output of amount zero,
  it returns nothing. The commitment, the signature and the nullifier are the hashes with domain
  separators 1, 4 and 2.
\<close>

theorem note_discovery:
  assumes "crypto_env_ok E" and "derive_encryption_and_note_keypairs E sig = Inr (nk, ek)"
    and "length eph = 32" and "length nonce = 24" and "field_canonical blinding" and "i < 2 ^ 32"
    and "encrypt_output_note E (Some eph) (Some nonce) (encryption_public ek) amount blinding = Inr ct"
  defines "c \<equiv> note_commitment amount (public_bytes (note_public nk)) blinding"
  shows "try_decrypt_and_derive_user_note E nk (encryption_private ek) commitment i ct =
      (if note_is_zero amount \<or> commitment \<noteq> Field (word_of_int c) then Inr None
       else Inr (Some \<lparr> derived_amount = amount, derived_blinding = blinding,
         expected_nullifier =
           Field (word_of_int (note_nullifier (private_bytes (note_private nk)) c i)) \<rparr>)) \<and>
    compute_commitment (field_to_le_bytes (field_from_note amount)) (public_bytes (note_public nk))
      (field_to_le_bytes blinding) = Inr (field_to_le_bytes (Field (word_of_int c)))"
proof -
  obtain nsk npk esk where nk: "nk = \<lparr> note_private = NotePrivateKey nsk, note_public = NotePublicKey npk \<rparr>"
    and len: "length nsk = 32" "length npk = 32" "length esk = 32"
    and ek: "ek = \<lparr> encryption_private = EncryptionPrivateKey esk,
      encryption_public = EncryptionPublicKey (x25519_public E esk) \<rparr>"
    using assms(2) crypto_env_okD(1) [OF assms(1)]
    by (auto simp: derive_keypairs_eq [OF assms(1)] Let_def reduce_fr_def split: if_splits)
  have dec: "decrypt_output_note E (EncryptionPrivateKey esk) ct = Inr (Some (amount, blinding))"
    using assms(7) by (intro decrypt_encrypted_note [OF assms(1,3,4) len(3) assms(5)]) (simp add: ek)
  have c: "0 \<le> c" "c < FpBN256_MODULUS" by (simp_all add: c_def note_commitment_def client_hash_range)
  show ?thesis
    using discover_decrypted [OF len(2,1) assms(6) dec, of commitment]
      compute_commitment_eq [OF len(2)] bigint_le_field(1) [OF c]
    by (simp add: nk ek c_def)
qed

theorem note_discovery_witness:
  "\<exists>nk ek ct c. derive_encryption_and_note_keypairs sample_crypto (replicate 64 1) = Inr (nk, ek) \<and>
    encrypt_output_note sample_crypto (Some (replicate 32 3)) (Some (replicate 24 4))
      (encryption_public ek) (NoteAmount 1000) (Field 9) = Inr ct \<and>
    c = note_commitment (NoteAmount 1000) (public_bytes (note_public nk)) (Field 9) \<and>
    try_decrypt_and_derive_user_note sample_crypto nk (encryption_private ek) (Field (word_of_int c)) 6 ct =
      Inr (Some \<lparr> derived_amount = NoteAmount 1000, derived_blinding = Field 9,
        expected_nullifier = Field (word_of_int (note_nullifier (private_bytes (note_private nk)) c 6)) \<rparr>)"
proof -
  have can: "field_canonical (Field 9)"
    unfolding field_canonical_def field.sel by (simp only: bn256_modulus_eq u256_eval)
  obtain nk ek where keys: "derive_encryption_and_note_keypairs sample_crypto (replicate 64 1) = Inr (nk, ek)"
    by (simp add: derive_keypairs_eq [OF sample_crypto_ok] Let_def)
  then obtain esk where esk: "length esk = 32"
    "encryption_public ek = EncryptionPublicKey (x25519_public sample_crypto esk)"
    using crypto_env_okD(1) [OF sample_crypto_ok]
    by (intro that [of "sha256 sample_crypto (ENCRYPTION_KEY_DOMAIN @ replicate 64 1)"])
      (auto simp: derive_keypairs_eq [OF sample_crypto_ok] Let_def)
  have len: "length (replicate 32 (3::u8)) = 32" "length (replicate 24 (4::u8)) = 24" by simp_all
  obtain ct where ct: "encrypt_output_note sample_crypto (Some (replicate 32 3)) (Some (replicate 24 4))
      (encryption_public ek) (NoteAmount 1000) (Field 9) = Inr ct"
    using esk crypto_env_okD(3) [OF sample_crypto_ok esk(1)]
    by (simp add: encrypt_note_data_def Let_def sample_crypto_def nat_checked_add_def)
  have six: "(6::nat) < 2 ^ 32" by simp
  define c where "c = note_commitment (NoteAmount 1000) (public_bytes (note_public nk)) (Field 9)"
  have "try_decrypt_and_derive_user_note sample_crypto nk (encryption_private ek) (Field (word_of_int c)) 6 ct =
      Inr (Some \<lparr> derived_amount = NoteAmount 1000, derived_blinding = Field 9,
        expected_nullifier = Field (word_of_int (note_nullifier (private_bytes (note_private nk)) c 6)) \<rparr>)"
    by (rule trans [OF conjunct1 [OF note_discovery [OF sample_crypto_ok keys len can six ct]]])
      (simp add: note_is_zero_def c_def)
  with keys ct c_def show ?thesis by blast
qed

end
