(* ===== verification/Flows.thy ===== *)
theory Flows
  imports Note_Encryption
begin

text \<open>
  The transaction flows of the client (\<open>app/crates/core/prover/src/flows.rs\<close>): the builder \<open>transact\<close>
  with the wrappers \<open>deposit\<close>, \<open>withdraw\<close> and \<open>transfer\<close>, the inputs of the disclosure circuit, and the
  session that pays several recipients from one note. The random source is the parameter \<open>R\<close>:
  \<open>R n k\<close> is what the call number \<open>n\<close> of \<open>getrandom\<close> fills a buffer of \<open>k\<close> bytes with, \<open>None\<close> a failed
  call. A flow threads the number of calls made so far. The hash of the external data is the
  callback \<open>H\<close> of the source.
\<close>

section \<open>Errors and flows\<close>

datatype flow_error =
    TreeDepthZero
  | SmtDepthZero
  | MembershipPathLength nat nat
  | NonMembershipSiblingsLength nat nat
  | TooManyOutputs nat nat
  | TooManyInputs nat nat
  | OverflowSummingInputs
  | OverflowSummingOutputs
  | OverflowLhs
  | OverflowRhs
  | PublicAmountNegation
  | NotBalanced note_amount ext_amount note_amount
  | InputPathLength nat nat nat
  | RecipientKeysUnpaired nat
  | PathCapacityOverflow
  | InsufficientInput note_amount ext_amount
  | InsufficientInputAmount
  | WithdrawAmountOverflow
  | HashExtDataFailed
  | BulkNoRecipient
  | BulkRecipientAmount nat
  | BulkExceedsBalance nat
  | BulkComplete
  | BulkStepAmount nat
  | BulkInsufficientBalance nat note_amount note_amount
  | FlowProver prover_error
  | FlowTypes types_error

type_synonym random_source = "nat \<Rightarrow> nat \<Rightarrow> bytes option"

type_synonym 'a flow = "nat \<Rightarrow> (flow_error, 'a \<times> nat) outcome"

definition flow_bind :: "'a flow \<Rightarrow> ('a \<Rightarrow> 'b flow) \<Rightarrow> 'b flow" where
  "flow_bind m f = (\<lambda>n. let_ok (m n) (\<lambda>(x, n'). f x n'))"

definition flow_return :: "'a \<Rightarrow> 'a flow" where
  "flow_return x = (\<lambda>n. Inr (x, n))"

text \<open>A computation without random numbers, inside a flow.\<close>

definition flow_lift :: "(flow_error, 'a) outcome \<Rightarrow> 'a flow" where
  "flow_lift r = (\<lambda>n. let_ok r (\<lambda>x. Inr (x, n)))"

definition getrandom :: "random_source \<Rightarrow> nat \<Rightarrow> bytes option flow" where
  "getrandom R k = (\<lambda>n. Inr (R n k, Suc n))"

text \<open>A loop that collects one result per element.\<close>

fun flow_map :: "('a \<Rightarrow> 'b flow) \<Rightarrow> 'a list \<Rightarrow> 'b list flow" where
  "flow_map f [] = flow_return []"
| "flow_map f (x # xs) = flow_bind (f x) (\<lambda>y. flow_bind (flow_map f xs) (\<lambda>ys. flow_return (y # ys)))"

abbreviation of_prover :: "(prover_error, 'a) outcome \<Rightarrow> (flow_error, 'a) outcome" where
  "of_prover \<equiv> map_err (map_fault FlowProver)"

abbreviation of_types :: "types_error + 'a \<Rightarrow> (flow_error, 'a) outcome" where
  "of_types \<equiv> map_err (\<lambda>e. Err (FlowTypes e))"

abbreviation of_types_outcome :: "(types_error, 'a) outcome \<Rightarrow> (flow_error, 'a) outcome" where
  "of_types_outcome \<equiv> map_err (map_fault FlowTypes)"

fun map_ok :: "('a \<Rightarrow> 'e + 'b) \<Rightarrow> 'a list \<Rightarrow> 'e + 'b list" where
  "map_ok f [] = Inr []"
| "map_ok f (x # xs) = let_ok (f x) (\<lambda>y. let_ok (map_ok f xs) (\<lambda>ys. Inr (y # ys)))"

section \<open>Data\<close>

definition N_INPUTS :: nat where
  "N_INPUTS = 2"

definition N_OUTPUTS :: nat where
  "N_OUTPUTS = 2"

text \<open>The inputs of a circuit: a map from signal names to hexadecimal numbers.\<close>

datatype input_value = Single string | Array "string list"

type_synonym circuit_inputs = "string \<rightharpoonup> input_value"

definition set_single :: "string \<Rightarrow> string \<Rightarrow> circuit_inputs \<Rightarrow> circuit_inputs" where
  "set_single name v signals = signals(name \<mapsto> Single v)"

definition set_array :: "string \<Rightarrow> string list \<Rightarrow> circuit_inputs \<Rightarrow> circuit_inputs" where
  "set_array name vs signals = signals(name \<mapsto> Array vs)"

record asp_membership_proof =
  mp_leaf :: field
  mp_blinding :: field
  mp_path_elements :: "field list"
  mp_path_indices :: field
  mp_root :: field

record asp_non_membership_proof =
  np_key :: field
  np_old_key :: field
  np_old_value :: field
  np_is_old0 :: bool
  np_siblings :: "field list"
  np_root :: field

record client_ext_data =
  cx_recipient :: string
  cx_ext_amount :: ext_amount
  cx_encrypted_output0 :: bytes
  cx_encrypted_output1 :: bytes

record transact_input_note =
  in_amount :: note_amount
  in_blinding :: field
  in_path_elements :: "field list"
  in_path_indices :: field

record transact_output =
  out_amount :: note_amount
  out_blinding :: field
  out_note_pubkey :: "note_public_key option"
  out_encryption_pubkey :: "encryption_public_key option"

record prepared_tx =
  pt_pool_root :: field
  pt_input_nullifiers :: "field list"
  pt_output_commitments :: "field list"
  pt_public_amount :: field
  pt_ext_data_hash_be :: bytes
  pt_asp_membership_root :: field
  pt_asp_non_membership_root :: field

record transact_artifacts =
  ta_circuit_inputs :: circuit_inputs
  ta_ext_data :: client_ext_data
  ta_prepared :: prepared_tx

text \<open>The fields that all flows share, and those of each flow.\<close>

record flow_common =
  fc_priv_key :: note_private_key
  fc_encryption_pubkey :: encryption_public_key
  fc_pool_root :: field
  fc_membership_proof :: asp_membership_proof
  fc_non_membership_proof :: asp_non_membership_proof
  fc_tree_depth :: nat
  fc_smt_depth :: nat

record transact_params = flow_common +
  tp_ext_recipient :: string
  tp_ext_amount :: ext_amount
  tp_inputs :: "transact_input_note list"
  tp_outputs :: "transact_output list"

record deposit_params = flow_common +
  dp_pool_address :: string
  dp_amount :: ext_amount
  dp_outputs :: "transact_output list"

record withdraw_params = flow_common +
  wp_recipient :: string
  wp_amount :: ext_amount
  wp_inputs :: "transact_input_note list"
  wp_outputs :: "transact_output list option"

record transfer_params = flow_common +
  rp_pool_address :: string
  rp_inputs :: "transact_input_note list"
  rp_outputs :: "transact_output list"

section \<open>Helpers\<close>

definition flow_random_blinding :: "crypto_env \<Rightarrow> random_source \<Rightarrow> field flow" where
  "flow_random_blinding E R =
    flow_bind (getrandom R 32) (\<lambda>r. flow_lift (of_prover (generate_random_blinding E r)))"

definition dummy_input :: "crypto_env \<Rightarrow> random_source \<Rightarrow> nat \<Rightarrow> transact_input_note flow" where
  "dummy_input E R tree_depth =
    flow_bind (flow_random_blinding E R) (\<lambda>blinding.
    flow_return \<lparr> in_amount = NOTE_ZERO, in_blinding = blinding,
      in_path_elements = replicate tree_depth FIELD_ZERO, in_path_indices = FIELD_ZERO \<rparr>)"

definition self_output :: "note_amount \<Rightarrow> field \<Rightarrow> transact_output" where
  "self_output amount blinding =
    \<lparr> out_amount = amount, out_blinding = blinding, out_note_pubkey = None, out_encryption_pubkey = None \<rparr>"

definition note_amount_to_field :: "note_amount \<Rightarrow> field" where
  "note_amount_to_field amount = field_from_note amount"

definition field_to_circuit_hex :: "field \<Rightarrow> (flow_error, string) outcome" where
  "field_to_circuit_hex f = of_prover (field_bytes_to_hex (field_to_le_bytes f))"

definition ext_amount_to_circuit_hex :: "ext_amount \<Rightarrow> (flow_error, string) outcome" where
  "ext_amount_to_circuit_hex amount =
    let_ok (of_types_outcome (field_try_from_ext amount)) field_to_circuit_hex"

definition be32_to_0x_hex :: "bytes \<Rightarrow> string" where
  "be32_to_0x_hex be = ''0x'' @ concat (map hex_byte be)"

fun sum_inputs_loop :: "note_amount \<Rightarrow> transact_input_note list \<Rightarrow> (flow_error, note_amount) outcome" where
  "sum_inputs_loop acc [] = Inr acc"
| "sum_inputs_loop acc (n # ns) =
     let_ok (ok_or (note_checked_add acc (in_amount n)) (Err OverflowSummingInputs)) (\<lambda>acc'.
     sum_inputs_loop acc' ns)"

definition sum_note_amounts_inputs :: "transact_input_note list \<Rightarrow> (flow_error, note_amount) outcome" where
  "sum_note_amounts_inputs inputs = sum_inputs_loop NOTE_ZERO inputs"

fun sum_outputs_loop :: "note_amount \<Rightarrow> transact_output list \<Rightarrow> (flow_error, note_amount) outcome" where
  "sum_outputs_loop acc [] = Inr acc"
| "sum_outputs_loop acc (n # ns) =
     let_ok (ok_or (note_checked_add acc (out_amount n)) (Err OverflowSummingOutputs)) (\<lambda>acc'.
     sum_outputs_loop acc' ns)"

definition sum_note_amounts_outputs :: "transact_output list \<Rightarrow> (flow_error, note_amount) outcome" where
  "sum_note_amounts_outputs outputs = sum_outputs_loop NOTE_ZERO outputs"

section \<open>The builder\<close>

text \<open>The conservation equation.\<close>

definition balanced ::
  "ext_amount \<Rightarrow> note_amount \<Rightarrow> note_amount \<Rightarrow> (flow_error, bool) outcome" where
  "balanced ext_amount inputs_sum outputs_sum =
    (if ext_amount \<ge> EXT_ZERO then
       let_ok (of_types (note_try_from_ext ext_amount)) (\<lambda>public_note.
       let_ok (ok_or (note_checked_add inputs_sum public_note) (Err OverflowLhs)) (\<lambda>lhs.
       Inr (lhs = outputs_sum)))
     else
       let_ok (ok_or (ext_checked_neg ext_amount) (Err PublicAmountNegation)) (\<lambda>neg.
       let_ok (of_types (note_try_from_ext neg)) (\<lambda>public_note.
       let_ok (ok_or (note_checked_add outputs_sum public_note) (Err OverflowRhs)) (\<lambda>rhs.
       Inr (inputs_sum = rhs)))))"

text \<open>Up to two inputs, the missing ones filled with dummies.\<close>

fun pad_inputs_loop ::
  "nat \<Rightarrow> crypto_env \<Rightarrow> random_source \<Rightarrow> nat \<Rightarrow> transact_input_note list \<Rightarrow> transact_input_note list flow" where
  "pad_inputs_loop 0 E R depth slots = flow_return slots"
| "pad_inputs_loop (Suc missing) E R depth slots =
     flow_bind (dummy_input E R depth) (\<lambda>d. pad_inputs_loop missing E R depth (slots @ [d]))"

definition pad_inputs ::
  "crypto_env \<Rightarrow> random_source \<Rightarrow> nat \<Rightarrow> transact_input_note list \<Rightarrow> transact_input_note list flow" where
  "pad_inputs E R depth inputs =
    (if inputs = [] then
       flow_bind (dummy_input E R depth) (\<lambda>d0.
       flow_bind (dummy_input E R depth) (\<lambda>d1. flow_return [d0, d1]))
     else if length inputs > N_INPUTS then
       flow_lift (Inl (Err (TooManyInputs N_INPUTS (length inputs))))
     else pad_inputs_loop (N_INPUTS - length inputs) E R depth inputs)"

fun check_input_paths :: "nat \<Rightarrow> nat \<Rightarrow> transact_input_note list \<Rightarrow> (flow_error, unit) outcome" where
  "check_input_paths depth i [] = Inr ()"
| "check_input_paths depth i (x # xs) =
     let_ok (require (length (in_path_elements x) = depth)
       (Err (InputPathLength i depth (length (in_path_elements x))))) (\<lambda>_.
     check_input_paths depth (Suc i) xs)"

fun pad_outputs_loop ::
  "nat \<Rightarrow> crypto_env \<Rightarrow> random_source \<Rightarrow> transact_output list \<Rightarrow> transact_output list flow" where
  "pad_outputs_loop 0 E R slots = flow_return slots"
| "pad_outputs_loop (Suc missing) E R slots =
     flow_bind (flow_random_blinding E R) (\<lambda>blinding.
     pad_outputs_loop missing E R (slots @ [self_output NOTE_ZERO blinding]))"

definition pad_outputs :: "crypto_env \<Rightarrow> random_source \<Rightarrow> transact_output list \<Rightarrow> transact_output list flow" where
  "pad_outputs E R outputs = pad_outputs_loop (N_OUTPUTS - length outputs) E R outputs"

fun check_recipients :: "nat \<Rightarrow> transact_output list \<Rightarrow> (flow_error, unit) outcome" where
  "check_recipients i [] = Inr ()"
| "check_recipients i (x # xs) =
     let_ok (require ((out_note_pubkey x \<noteq> None) = (out_encryption_pubkey x \<noteq> None))
       (Err (RecipientKeysUnpaired i))) (\<lambda>_.
     check_recipients (Suc i) xs)"

text \<open>What the loops over the slots push for one input and for one output.\<close>

record input_wires =
  iw_nullifier :: field
  iw_nullifier_hex :: string
  iw_amount_hex :: string
  iw_private_hex :: string
  iw_blinding_hex :: string
  iw_indices_hex :: string
  iw_path_hex :: "string list"

definition build_input ::
  "bytes \<Rightarrow> bytes \<Rightarrow> string \<Rightarrow> transact_input_note \<Rightarrow> (flow_error, input_wires) outcome" where
  "build_input priv_key sender_note_pubkey priv_key_hex inp =
    (let amount_field = note_amount_to_field (in_amount inp);
         inp_blinding_le = field_to_le_bytes (in_blinding inp);
         merkle_path_indices = field_to_le_bytes (in_path_indices inp) in
     let_ok (of_prover (compute_commitment (field_to_le_bytes amount_field) sender_note_pubkey
       inp_blinding_le)) (\<lambda>commitment.
     let_ok (of_prover (compute_signature priv_key commitment merkle_path_indices)) (\<lambda>signature.
     let_ok (of_prover (compute_nullifier commitment merkle_path_indices signature)) (\<lambda>nullifier.
     let_ok (require (length nullifier = 32) (Err (FlowProver (ExpectedBytes 32 (length nullifier))))) (\<lambda>_.
     let_ok (of_types (field_try_from_le_bytes nullifier)) (\<lambda>nullifier_field.
     let_ok (field_to_circuit_hex nullifier_field) (\<lambda>nullifier_hex.
     let_ok (field_to_circuit_hex amount_field) (\<lambda>amount_hex.
     let_ok (of_prover (field_bytes_to_hex inp_blinding_le)) (\<lambda>blinding_hex.
     let_ok (field_to_circuit_hex (in_path_indices inp)) (\<lambda>indices_hex.
     let_ok (map_ok field_to_circuit_hex (in_path_elements inp)) (\<lambda>path_hex.
     Inr \<lparr> iw_nullifier = nullifier_field, iw_nullifier_hex = nullifier_hex, iw_amount_hex = amount_hex,
           iw_private_hex = priv_key_hex, iw_blinding_hex = blinding_hex, iw_indices_hex = indices_hex,
           iw_path_hex = path_hex \<rparr>)))))))))))"

record output_wires =
  ow_commitment :: field
  ow_encrypted :: bytes
  ow_amount_hex :: string
  ow_pubkey_hex :: string
  ow_blinding_hex :: string
  ow_commitment_hex :: string

definition recipient_note_key :: "bytes \<Rightarrow> transact_output \<Rightarrow> bytes" where
  "recipient_note_key sender_note_pubkey out =
    (case out_note_pubkey out of Some k \<Rightarrow> public_bytes k | None \<Rightarrow> sender_note_pubkey)"

definition recipient_encryption_key :: "encryption_public_key \<Rightarrow> transact_output \<Rightarrow> encryption_public_key" where
  "recipient_encryption_key sender_key out =
    (case out_encryption_pubkey out of Some k \<Rightarrow> k | None \<Rightarrow> sender_key)"

definition build_output ::
  "crypto_env \<Rightarrow> random_source \<Rightarrow> bytes \<Rightarrow> encryption_public_key \<Rightarrow> transact_output \<Rightarrow> output_wires flow" where
  "build_output E R sender_note_pubkey encryption_pubkey out =
    (let note_key = recipient_note_key sender_note_pubkey out;
         enc_key = recipient_encryption_key encryption_pubkey out;
         amount_field = note_amount_to_field (out_amount out);
         out_blinding_le = field_to_le_bytes (out_blinding out) in
     flow_bind (flow_lift (of_prover (compute_commitment (field_to_le_bytes amount_field) note_key
       out_blinding_le))) (\<lambda>commitment.
     flow_bind (flow_lift (require (length commitment = 32)
       (Err (FlowProver (ExpectedBytes 32 (length commitment)))))) (\<lambda>_.
     flow_bind (flow_lift (of_types (field_try_from_le_bytes commitment))) (\<lambda>commitment_field.
     flow_bind (getrandom R 32) (\<lambda>eph.
     flow_bind (getrandom R 24) (\<lambda>nonce.
     flow_bind (flow_lift (of_prover (encrypt_output_note E eph nonce enc_key (out_amount out)
       (out_blinding out)))) (\<lambda>enc.
     flow_bind (flow_lift (field_to_circuit_hex amount_field)) (\<lambda>amount_hex.
     flow_bind (flow_lift (of_prover (field_bytes_to_hex note_key))) (\<lambda>pubkey_hex.
     flow_bind (flow_lift (of_prover (field_bytes_to_hex out_blinding_le))) (\<lambda>blinding_hex.
     flow_bind (flow_lift (field_to_circuit_hex commitment_field)) (\<lambda>commitment_hex.
     flow_return \<lparr> ow_commitment = commitment_field, ow_encrypted = enc, ow_amount_hex = amount_hex,
       ow_pubkey_hex = pubkey_hex, ow_blinding_hex = blinding_hex, ow_commitment_hex = commitment_hex \<rparr>)))))))))))"

text \<open>The signals of the ASP proofs for one input slot.\<close>

definition wire_asp ::
  "asp_membership_proof \<Rightarrow> asp_non_membership_proof \<Rightarrow> nat \<Rightarrow> circuit_inputs \<Rightarrow>
    (flow_error, circuit_inputs) outcome" where
  "wire_asp mp np slot circuit =
    (let prefix_m = ''membershipProofs['' @ show_nat slot @ ''][0].'';
         prefix_n = ''nonMembershipProofs['' @ show_nat slot @ ''][0].'' in
     let_ok (field_to_circuit_hex (mp_leaf mp)) (\<lambda>leaf_hex.
     let_ok (field_to_circuit_hex (mp_blinding mp)) (\<lambda>blinding_hex.
     let_ok (field_to_circuit_hex (mp_path_indices mp)) (\<lambda>indices_hex.
     let_ok (map_ok field_to_circuit_hex (mp_path_elements mp)) (\<lambda>elements_hex.
     let_ok (field_to_circuit_hex (mp_root mp)) (\<lambda>root_hex.
     let_ok (field_to_circuit_hex (np_key np)) (\<lambda>key_hex.
     let_ok (field_to_circuit_hex (np_old_key np)) (\<lambda>old_key_hex.
     let_ok (field_to_circuit_hex (np_old_value np)) (\<lambda>old_value_hex.
     let_ok (field_to_circuit_hex (if np_is_old0 np then field_from_note NOTE_ONE else FIELD_ZERO)) (\<lambda>is_old0_hex.
     let_ok (map_ok field_to_circuit_hex (np_siblings np)) (\<lambda>siblings_hex.
     let_ok (field_to_circuit_hex (np_root np)) (\<lambda>non_root_hex.
     Inr (set_single (prefix_n @ ''root'') non_root_hex
         (set_array (prefix_n @ ''siblings'') siblings_hex
         (set_single (prefix_n @ ''isOld0'') is_old0_hex
         (set_single (prefix_n @ ''oldValue'') old_value_hex
         (set_single (prefix_n @ ''oldKey'') old_key_hex
         (set_single (prefix_n @ ''key'') key_hex
         (set_single (prefix_m @ ''root'') root_hex
         (set_array (prefix_m @ ''pathElements'') elements_hex
         (set_single (prefix_m @ ''pathIndices'') indices_hex
         (set_single (prefix_m @ ''blinding'') blinding_hex
         (set_single (prefix_m @ ''leaf'') leaf_hex circuit)))))))))))))))))))))))"

text \<open>The signals of the notes.\<close>

definition wire_notes :: "input_wires list \<Rightarrow> output_wires list \<Rightarrow> circuit_inputs \<Rightarrow> circuit_inputs" where
  "wire_notes ins outs circuit =
    set_array ''outBlinding'' (map ow_blinding_hex outs)
    (set_array ''outPubkey'' (map ow_pubkey_hex outs)
    (set_array ''outAmount'' (map ow_amount_hex outs)
    (set_array ''inPathElements'' (concat (map iw_path_hex ins))
    (set_array ''inPathIndices'' (map iw_indices_hex ins)
    (set_array ''inBlinding'' (map iw_blinding_hex ins)
    (set_array ''inPrivateKey'' (map iw_private_hex ins)
    (set_array ''inAmount'' (map iw_amount_hex ins)
    (set_array ''outputCommitment'' (map ow_commitment_hex outs)
    (set_array ''inputNullifier'' (map iw_nullifier_hex ins) circuit)))))))))"

text \<open>The checks before any random number is drawn.\<close>

definition transact_guards :: "transact_params \<Rightarrow> (flow_error, unit) outcome" where
  "transact_guards p =
    let_ok (require (fc_tree_depth p \<noteq> 0) (Err TreeDepthZero)) (\<lambda>_.
    let_ok (require (fc_smt_depth p \<noteq> 0) (Err SmtDepthZero)) (\<lambda>_.
    let_ok (require (length (mp_path_elements (fc_membership_proof p)) = fc_tree_depth p)
      (Err (MembershipPathLength (fc_tree_depth p) (length (mp_path_elements (fc_membership_proof p)))))) (\<lambda>_.
    let_ok (require (length (np_siblings (fc_non_membership_proof p)) = fc_smt_depth p)
      (Err (NonMembershipSiblingsLength (fc_smt_depth p) (length (np_siblings (fc_non_membership_proof p)))))) (\<lambda>_.
    let_ok (require (length (tp_outputs p) \<le> N_OUTPUTS)
      (Err (TooManyOutputs N_OUTPUTS (length (tp_outputs p))))) (\<lambda>_.
    let_ok (sum_note_amounts_inputs (tp_inputs p)) (\<lambda>inputs_sum.
    let_ok (sum_note_amounts_outputs (tp_outputs p)) (\<lambda>outputs_sum.
    let_ok (balanced (tp_ext_amount p) inputs_sum outputs_sum) (\<lambda>ok.
    require ok (Err (NotBalanced inputs_sum (tp_ext_amount p) outputs_sum))))))))))"

definition flow_transact ::
  "crypto_env \<Rightarrow> random_source \<Rightarrow> (client_ext_data \<Rightarrow> bytes option) \<Rightarrow> transact_params \<Rightarrow>
    transact_artifacts flow" where
  "flow_transact E R H p =
    flow_bind (flow_lift (transact_guards p)) (\<lambda>_.
    flow_bind (flow_lift (of_prover (derive_public_key (private_bytes (fc_priv_key p))))) (\<lambda>sender_note_pubkey.
    flow_bind (flow_lift (require (length sender_note_pubkey = 32)
      (Err (FlowProver (ExpectedBytes 32 (length sender_note_pubkey)))))) (\<lambda>_.
    flow_bind (pad_inputs E R (fc_tree_depth p) (tp_inputs p)) (\<lambda>input_slots.
    flow_bind (flow_lift (check_input_paths (fc_tree_depth p) 0 input_slots)) (\<lambda>_.
    flow_bind (pad_outputs E R (tp_outputs p)) (\<lambda>output_slots.
    flow_bind (flow_lift (check_recipients 0 output_slots)) (\<lambda>_.
    flow_bind (flow_lift (field_to_circuit_hex (fc_pool_root p))) (\<lambda>pool_root_hex.
    flow_bind (flow_lift (of_types_outcome (field_try_from_ext (tp_ext_amount p)))) (\<lambda>public_amount_field.
    flow_bind (flow_lift (ext_amount_to_circuit_hex (tp_ext_amount p))) (\<lambda>public_amount_hex.
    flow_bind (flow_lift (of_prover (field_bytes_to_hex (private_bytes (fc_priv_key p))))) (\<lambda>priv_key_hex.
    flow_bind (flow_lift (require (N_INPUTS * fc_tree_depth p < 2 ^ 32) (Err PathCapacityOverflow))) (\<lambda>_.
    flow_bind (flow_lift (map_ok (build_input (private_bytes (fc_priv_key p)) sender_note_pubkey
      priv_key_hex) input_slots)) (\<lambda>ins.
    flow_bind (flow_map (build_output E R sender_note_pubkey (fc_encryption_pubkey p)) output_slots) (\<lambda>outs.
    flow_bind (flow_lift (field_to_circuit_hex (mp_root (fc_membership_proof p)))) (\<lambda>membership_root_hex.
    flow_bind (flow_lift (field_to_circuit_hex (np_root (fc_non_membership_proof p)))) (\<lambda>non_membership_root_hex.
    let circuit0 = set_single ''publicAmount'' public_amount_hex (set_single ''root'' pool_root_hex Map.empty);
        circuit1 = set_array ''nonMembershipRoots'' [non_membership_root_hex, non_membership_root_hex]
          (set_array ''membershipRoots'' [membership_root_hex, membership_root_hex]
            (wire_notes ins outs circuit0)) in
    flow_bind (flow_lift (wire_asp (fc_membership_proof p) (fc_non_membership_proof p) 0 circuit1)) (\<lambda>circuit2.
    flow_bind (flow_lift (wire_asp (fc_membership_proof p) (fc_non_membership_proof p) 1 circuit2)) (\<lambda>circuit3.
    let ext_data = \<lparr> cx_recipient = tp_ext_recipient p, cx_ext_amount = tp_ext_amount p,
          cx_encrypted_output0 = ow_encrypted (outs ! 0), cx_encrypted_output1 = ow_encrypted (outs ! 1) \<rparr> in
    flow_bind (flow_lift (ok_or (H ext_data) (Err HashExtDataFailed))) (\<lambda>ext_data_hash_be.
    flow_return
      \<lparr> ta_circuit_inputs = set_single ''extDataHash'' (be32_to_0x_hex ext_data_hash_be) circuit3,
        ta_ext_data = ext_data,
        ta_prepared = \<lparr> pt_pool_root = fc_pool_root p, pt_input_nullifiers = map iw_nullifier ins,
          pt_output_commitments = map ow_commitment outs, pt_public_amount = public_amount_field,
          pt_ext_data_hash_be = ext_data_hash_be,
          pt_asp_membership_root = mp_root (fc_membership_proof p),
          pt_asp_non_membership_root = np_root (fc_non_membership_proof p) \<rparr> \<rparr>)))))))))))))))))))"

definition flow_deposit ::
  "crypto_env \<Rightarrow> random_source \<Rightarrow> (client_ext_data \<Rightarrow> bytes option) \<Rightarrow> deposit_params \<Rightarrow>
    transact_artifacts flow" where
  "flow_deposit E R H p =
    flow_transact E R H (flow_common.extend (flow_common.truncate p)
      \<lparr> tp_ext_recipient = dp_pool_address p, tp_ext_amount = dp_amount p, tp_inputs = [],
        tp_outputs = dp_outputs p \<rparr>)"

definition withdraw_outputs ::
  "crypto_env \<Rightarrow> random_source \<Rightarrow> note_amount \<Rightarrow> transact_output list option \<Rightarrow> transact_output list flow" where
  "withdraw_outputs E R change outputs =
    (case outputs of
       Some v \<Rightarrow> flow_return v
     | None \<Rightarrow>
         flow_bind (flow_random_blinding E R) (\<lambda>change_blinding.
         flow_bind (flow_random_blinding E R) (\<lambda>dummy_blinding.
         flow_return [self_output change change_blinding, self_output NOTE_ZERO dummy_blinding])))"

definition flow_withdraw ::
  "crypto_env \<Rightarrow> random_source \<Rightarrow> (client_ext_data \<Rightarrow> bytes option) \<Rightarrow> withdraw_params \<Rightarrow>
    transact_artifacts flow" where
  "flow_withdraw E R H p =
    flow_bind (flow_lift (sum_note_amounts_inputs (wp_inputs p))) (\<lambda>input_total.
    flow_bind (flow_lift (of_types (note_try_from_ext (wp_amount p)))) (\<lambda>withdraw_note_amount.
    flow_bind (flow_lift (require (\<not> input_total < withdraw_note_amount)
      (Err (InsufficientInput input_total (wp_amount p))))) (\<lambda>_.
    flow_bind (flow_lift (ok_or (note_checked_sub input_total withdraw_note_amount)
      (Err InsufficientInputAmount))) (\<lambda>change.
    flow_bind (withdraw_outputs E R change (wp_outputs p)) (\<lambda>outputs.
    flow_bind (flow_lift (ok_or (ext_checked_neg (wp_amount p)) (Err WithdrawAmountOverflow))) (\<lambda>ext_amount.
    flow_transact E R H (flow_common.extend (flow_common.truncate p)
      \<lparr> tp_ext_recipient = wp_recipient p, tp_ext_amount = ext_amount, tp_inputs = wp_inputs p,
        tp_outputs = outputs \<rparr>)))))))"

definition flow_transfer ::
  "crypto_env \<Rightarrow> random_source \<Rightarrow> (client_ext_data \<Rightarrow> bytes option) \<Rightarrow> transfer_params \<Rightarrow>
    transact_artifacts flow" where
  "flow_transfer E R H p =
    flow_transact E R H (flow_common.extend (flow_common.truncate p)
      \<lparr> tp_ext_recipient = rp_pool_address p, tp_ext_amount = EXT_ZERO, tp_inputs = rp_inputs p,
        tp_outputs = rp_outputs p \<rparr>)"

section \<open>Selective disclosure\<close>

record selective_disclosure_1_params =
  sd_root :: field
  sd_note_commitment :: field
  sd_note_amount :: note_amount
  sd_note_private_key :: note_private_key
  sd_note_blinding :: field
  sd_path_indices :: field
  sd_path_elements :: "field list"
  sd_ext_context_hash :: field

record disclosure_artifacts =
  da_circuit_inputs :: circuit_inputs
  da_ext_context_hash :: field

definition selective_disclosure_1 ::
  "selective_disclosure_1_params \<Rightarrow> (flow_error, disclosure_artifacts) outcome" where
  "selective_disclosure_1 p =
    let_ok (field_to_circuit_hex (sd_root p)) (\<lambda>root_hex.
    let_ok (field_to_circuit_hex (sd_note_commitment p)) (\<lambda>commitment_hex.
    let_ok (field_to_circuit_hex (sd_ext_context_hash p)) (\<lambda>context_hex.
    let_ok (field_to_circuit_hex (note_amount_to_field (sd_note_amount p))) (\<lambda>amount_hex.
    let_ok (of_prover (field_bytes_to_hex (private_bytes (sd_note_private_key p)))) (\<lambda>priv_key_hex.
    let_ok (of_prover (field_bytes_to_hex (field_to_le_bytes (sd_note_blinding p)))) (\<lambda>blinding_hex.
    let_ok (field_to_circuit_hex (sd_path_indices p)) (\<lambda>indices_hex.
    let_ok (map_ok field_to_circuit_hex (sd_path_elements p)) (\<lambda>path_elements_hex.
    Inr \<lparr> da_circuit_inputs =
            set_array ''inPathElements'' path_elements_hex
            (set_array ''inPathIndices'' [indices_hex]
            (set_array ''inBlinding'' [blinding_hex]
            (set_array ''inPrivateKey'' [priv_key_hex]
            (set_array ''inAmount'' [amount_hex]
            (set_single ''extContextHash'' context_hex
            (set_array ''noteCommitments'' [commitment_hex]
            (set_array ''roots'' [root_hex] Map.empty))))))),
          da_ext_context_hash = sd_ext_context_hash p \<rparr>))))))))"

section \<open>Bulk withdrawals\<close>

record bulk_withdraw_recipient =
  bw_address :: string
  bw_amount :: ext_amount

record step_merkle_witness =
  sw_pool_root :: field
  sw_path_elements :: "field list"
  sw_path_indices :: field

record bulk_withdraw_session =
  bs_priv_key :: note_private_key
  bs_encryption_pubkey :: encryption_public_key
  bs_membership_proof :: asp_membership_proof
  bs_non_membership_proof :: asp_non_membership_proof
  bs_tree_depth :: nat
  bs_smt_depth :: nat
  bs_recipients :: "bulk_withdraw_recipient list"
  bs_change_blindings :: "field list"
  bs_current_step :: nat
  bs_note_blinding :: field
  bs_note_amount :: note_amount

fun bulk_check_loop ::
  "nat \<Rightarrow> note_amount \<Rightarrow> bulk_withdraw_recipient list \<Rightarrow> (flow_error, note_amount) outcome" where
  "bulk_check_loop i running [] = Inr running"
| "bulk_check_loop i running (r # rs) =
     let_ok (map_err (\<lambda>_. Err (BulkRecipientAmount i)) (note_try_from_ext (bw_amount r))) (\<lambda>payout.
     let_ok (ok_or (note_checked_sub running payout) (Err (BulkExceedsBalance i))) (\<lambda>running'.
     bulk_check_loop (Suc i) running' rs))"

definition bulk_new ::
  "crypto_env \<Rightarrow> random_source \<Rightarrow> note_private_key \<Rightarrow> encryption_public_key \<Rightarrow> field \<Rightarrow> note_amount \<Rightarrow>
    bulk_withdraw_recipient list \<Rightarrow> asp_membership_proof \<Rightarrow> asp_non_membership_proof \<Rightarrow> nat \<Rightarrow> nat \<Rightarrow>
    bulk_withdraw_session flow" where
  "bulk_new E R priv_key encryption_pubkey initial_note_blinding initial_note_amount recipients
     membership_proof non_membership_proof tree_depth smt_depth =
    flow_bind (flow_lift (require (recipients \<noteq> []) (Err BulkNoRecipient))) (\<lambda>_.
    flow_bind (flow_lift (bulk_check_loop 0 initial_note_amount recipients)) (\<lambda>_.
    flow_bind (flow_map (\<lambda>_. flow_random_blinding E R) recipients) (\<lambda>change_blindings.
    flow_return
      \<lparr> bs_priv_key = priv_key, bs_encryption_pubkey = encryption_pubkey,
        bs_membership_proof = membership_proof, bs_non_membership_proof = non_membership_proof,
        bs_tree_depth = tree_depth, bs_smt_depth = smt_depth, bs_recipients = recipients,
        bs_change_blindings = change_blindings, bs_current_step = 0,
        bs_note_blinding = initial_note_blinding, bs_note_amount = initial_note_amount \<rparr>)))"

definition bulk_is_done :: "bulk_withdraw_session \<Rightarrow> bool" where
  "bulk_is_done s \<longleftrightarrow> bs_current_step s \<ge> length (bs_recipients s)"

text \<open>\<open>self.recipients[step]\<close> and \<open>self.change_blindings[step]\<close>: out of range is a panic.\<close>

definition index_or_panic :: "'a list \<Rightarrow> nat \<Rightarrow> ('e, 'a) outcome" where
  "index_or_panic xs i = (if i < length xs then Inr (xs ! i) else Inl Trap)"

definition build_step ::
  "crypto_env \<Rightarrow> random_source \<Rightarrow> step_merkle_witness \<Rightarrow> bulk_withdraw_session \<Rightarrow> withdraw_params flow" where
  "build_step E R witness s =
    flow_bind (flow_lift (require (\<not> bulk_is_done s) (Err BulkComplete))) (\<lambda>_.
    let step = bs_current_step s in
    flow_bind (flow_lift (index_or_panic (bs_recipients s) step)) (\<lambda>recipient.
    let withdraw_amount = bw_amount recipient in
    flow_bind (flow_lift (map_err (\<lambda>_. Err (BulkStepAmount step)) (note_try_from_ext withdraw_amount))) (\<lambda>payout_note.
    flow_bind (flow_lift (ok_or (note_checked_sub (bs_note_amount s) payout_note)
      (Err (BulkInsufficientBalance step (bs_note_amount s) payout_note)))) (\<lambda>change_amount.
    flow_bind (flow_lift (index_or_panic (bs_change_blindings s) step)) (\<lambda>change_blinding.
    let input = \<lparr> in_amount = bs_note_amount s, in_blinding = bs_note_blinding s,
          in_path_elements = sw_path_elements witness, in_path_indices = sw_path_indices witness \<rparr> in
    flow_bind (flow_random_blinding E R) (\<lambda>dummy_blinding.
    flow_return
      \<lparr> fc_priv_key = bs_priv_key s, fc_encryption_pubkey = bs_encryption_pubkey s,
        fc_pool_root = sw_pool_root witness, fc_membership_proof = bs_membership_proof s,
        fc_non_membership_proof = bs_non_membership_proof s, fc_tree_depth = bs_tree_depth s,
        fc_smt_depth = bs_smt_depth s, wp_recipient = bw_address recipient,
        wp_amount = withdraw_amount, wp_inputs = [input],
        wp_outputs = Some [self_output change_amount change_blinding,
                           self_output NOTE_ZERO dummy_blinding] \<rparr>))))))"

definition advance :: "bulk_withdraw_session \<Rightarrow> (flow_error, bulk_withdraw_session) outcome" where
  "advance s =
    let_ok (require (\<not> bulk_is_done s) (Err BulkComplete)) (\<lambda>_.
    let step = bs_current_step s in
    let_ok (index_or_panic (bs_recipients s) step) (\<lambda>recipient.
    let_ok (or_panic (note_try_from_ext (bw_amount recipient))) (\<lambda>payout_note.
    let_ok (or_trap (note_checked_sub (bs_note_amount s) payout_note)) (\<lambda>new_amount.
    let_ok (index_or_panic (bs_change_blindings s) step) (\<lambda>change_blinding.
    Inr (s\<lparr> bs_note_blinding := change_blinding, bs_note_amount := new_amount,
            bs_current_step := min (bs_current_step s + 1) (2 ^ 32 - 1) \<rparr>))))))"

definition bulk_total_steps :: "bulk_withdraw_session \<Rightarrow> nat" where
  "bulk_total_steps s = length (bs_recipients s)"

definition change_blinding_for_step :: "nat \<Rightarrow> bulk_withdraw_session \<Rightarrow> field option" where
  "change_blinding_for_step step s =
    (if step < length (bs_change_blindings s) then Some (bs_change_blindings s ! step) else None)"

section \<open>Rules for flows\<close>

named_theorems flow_simps \<open>when a step of a flow succeeds\<close>

lemma flow_bind_Inr_iff [flow_simps]:
  "flow_bind m f n = Inr (y, k) \<longleftrightarrow> (\<exists>x n'. m n = Inr (x, n') \<and> f x n' = Inr (y, k))"
  by (auto simp: flow_bind_def outcome_simps)

lemma flow_lift_Inr_iff [flow_simps]: "flow_lift r n = Inr (x, k) \<longleftrightarrow> r = Inr x \<and> k = n"
  by (auto simp: flow_lift_def outcome_simps)

lemma flow_return_Inr_iff [flow_simps]: "flow_return x n = Inr (y, k) \<longleftrightarrow> y = x \<and> k = n"
  by (auto simp: flow_return_def)

lemma getrandom_Inr_iff [flow_simps]: "getrandom R j n = Inr (r, k) \<longleftrightarrow> r = R n j \<and> k = Suc n"
  by (auto simp: getrandom_def)

lemma flow_run [simp]:
  "m n = Inr (x, n') \<Longrightarrow> flow_bind m f n = f x n'"
  "flow_lift (Inr x) n = Inr (x, n)"
  "flow_return x n = Inr (x, n)"
  "getrandom R j n = Inr (R n j, Suc n)"
  by (simp_all add: flow_bind_def flow_lift_def flow_return_def getrandom_def)

lemma map_ok_all:
  "(\<And>x. x \<in> set xs \<Longrightarrow> f x = Inr (g x)) \<Longrightarrow> map_ok f xs = Inr (map g xs)"
  by (induction xs) simp_all

text \<open>A loop of steps that all succeed, each with its own number of random calls.\<close>

lemma flow_map_Inr_length: "flow_map f xs n = Inr (ys, k) \<Longrightarrow> length ys = length xs"
  by (induction xs arbitrary: n ys k) (auto simp: flow_simps)

lemma flow_map_nth:
  "flow_map f xs n = Inr (ys, k) \<Longrightarrow> i < length xs \<Longrightarrow> \<exists>m m'. f (xs ! i) m = Inr (ys ! i, m')"
proof (induction xs arbitrary: n ys k i)
  case (Cons x xs)
  from Cons.prems(1) obtain y m' zs where y: "f x n = Inr (y, m')" "flow_map f xs m' = Inr (zs, k)" "ys = y # zs"
    by (auto simp: flow_simps)
  then show ?case using Cons.IH [OF y(2)] Cons.prems(2) by (cases i) auto
qed simp

lemma flow_map_total:
  assumes "\<And>x m. x \<in> set xs \<Longrightarrow> \<exists>y m'. f x m = Inr (y, m')"
  shows "\<exists>ys k. flow_map f xs n = Inr (ys, k)"
  using assms
proof (induction xs arbitrary: n)
  case (Cons x xs)
  then obtain y m' where y: "f x n = Inr (y, m')" by fastforce
  obtain ys k where "flow_map f xs m' = Inr (ys, k)" using Cons.IH [of m'] Cons.prems by auto
  with y show ?case by simp
qed simp

section \<open>Values of the steps\<close>

definition circuit_hex :: "int \<Rightarrow> string" where
  "circuit_hex s = ''0x'' @ concat (map hex_byte (rev (bigint_to_bytes_le s)))"

lemma field_bytes_to_hex_eq:
  "length bs = 32 \<Longrightarrow> field_bytes_to_hex bs = Inr (circuit_hex (le_scalar bs))"
  by (simp add: field_bytes_to_hex_def bytes_to_scalar_32 scalar_to_hex_def scalar_to_bytes_eq circuit_hex_def)

lemma field_to_circuit_hex_eq [simp]: "field_to_circuit_hex f = Inr (circuit_hex (field_to_scalar f))"
  by (simp add: field_to_circuit_hex_def field_bytes_to_hex_eq le_scalar_field)

lemma map_ok_circuit_hex [simp]:
  "map_ok field_to_circuit_hex fs = Inr (map (\<lambda>f. circuit_hex (field_to_scalar f)) fs)"
  by (rule map_ok_all) simp

text \<open>The field element that represents an external amount.\<close>

definition ext_field :: "ext_amount \<Rightarrow> field" where
  "ext_field e = Field (word_of_int (ext_value e mod uint bn256_modulus))"

lemma field_try_from_ext_field: "field_try_from_ext e = Inr (ext_field e)"
  by (simp add: field_try_from_ext_eq ext_field_def)

lemma ext_amount_to_circuit_hex_eq [simp]:
  "ext_amount_to_circuit_hex e = Inr (circuit_hex (field_to_scalar (ext_field e)))"
  by (simp add: ext_amount_to_circuit_hex_def field_try_from_ext_field)

text \<open>The note public key of a private key, and the nullifier and the commitment of a slot.\<close>

definition sender_key :: "bytes \<Rightarrow> bytes" where
  "sender_key sk = bigint_to_bytes_le (client_hash2 (le_scalar sk) 0 3)"

definition slot_nullifier :: "bytes \<Rightarrow> transact_input_note \<Rightarrow> int" where
  "slot_nullifier sk inp = note_nullifier sk
    (note_commitment (in_amount inp) (sender_key sk) (in_blinding inp))
    (nat (field_to_scalar (in_path_indices inp)))"

definition slot_commitment :: "bytes \<Rightarrow> transact_output \<Rightarrow> int" where
  "slot_commitment sk out =
    note_commitment (out_amount out) (recipient_note_key (sender_key sk) out) (out_blinding out)"

lemma note_hash_range:
  "0 \<le> note_commitment a pk b" "note_commitment a pk b < FpBN256_MODULUS"
  "0 \<le> note_nullifier sk c i" "note_nullifier sk c i < FpBN256_MODULUS"
  by (simp_all add: note_commitment_def note_nullifier_def client_hash_range)

lemma length_sender_key [simp]: "length (sender_key sk) = 32"
  by (simp add: sender_key_def)

lemma derive_sender_key: "length sk = 32 \<Longrightarrow> derive_public_key sk = Inr (sender_key sk)"
  by (simp add: note_hashes_eq sender_key_def)

lemma field_to_scalar_range: "0 \<le> field_to_scalar f" "field_to_scalar f < FpBN256_MODULUS"
  by (simp_all add: field_to_scalar_def FpBN256_pos)

lemma field_to_scalar_word:
  assumes "0 \<le> s" and "s < FpBN256_MODULUS"
  shows "field_to_scalar (Field (word_of_int s)) = s"
  using bigint_le_field(1) [OF assms] le_scalar_bigint [OF assms] le_scalar_field by metis

lemma build_input_eq:
  assumes "length sk = 32"
  shows "build_input sk (sender_key sk) sk_hex inp = Inr
    \<lparr> iw_nullifier = Field (word_of_int (slot_nullifier sk inp)),
      iw_nullifier_hex = circuit_hex (slot_nullifier sk inp),
      iw_amount_hex = circuit_hex (uint (note_u128 (in_amount inp))),
      iw_private_hex = sk_hex,
      iw_blinding_hex = circuit_hex (field_to_scalar (in_blinding inp)),
      iw_indices_hex = circuit_hex (field_to_scalar (in_path_indices inp)),
      iw_path_hex = map (\<lambda>f. circuit_hex (field_to_scalar f)) (in_path_elements inp) \<rparr>"
proof -
  define c where "c = note_commitment (in_amount inp) (sender_key sk) (in_blinding inp)"
  define i where "i = field_to_scalar (in_path_indices inp)"
  have c: "0 \<le> c" "c < FpBN256_MODULUS" by (simp_all add: c_def note_hash_range)
  have i: "0 \<le> i" by (simp add: i_def field_to_scalar_range)
  have n: "0 \<le> slot_nullifier sk inp" "slot_nullifier sk inp < FpBN256_MODULUS"
    by (simp_all add: slot_nullifier_def note_hash_range)
  have sig: "compute_signature sk (bigint_to_bytes_le c) (field_to_le_bytes (in_path_indices inp)) =
      Inr (bigint_to_bytes_le (client_hash3 (le_scalar sk) c i 4))"
    using assms c by (simp add: note_hashes_eq le_scalar_bigint le_scalar_field i_def)
  have nul: "compute_nullifier (bigint_to_bytes_le c) (field_to_le_bytes (in_path_indices inp))
      (bigint_to_bytes_le (client_hash3 (le_scalar sk) c i 4)) = Inr (bigint_to_bytes_le (slot_nullifier sk inp))"
    using c i by (simp add: note_hashes_eq le_scalar_bigint le_scalar_field client_hash_range
        slot_nullifier_def note_nullifier_def flip: c_def i_def)
  show ?thesis
    unfolding build_input_def note_amount_to_field_def Let_def
    by (simp add: compute_commitment_eq flip: c_def)
      (simp add: sig nul bigint_le_field [OF n] field_to_scalar_word [OF n] amount_scalar
        field_bytes_to_hex_eq le_scalar_field)
qed

section \<open>The guards\<close>

abbreviation inputs_total :: "transact_input_note list \<Rightarrow> nat" where
  "inputs_total ns \<equiv> (\<Sum>x\<leftarrow>ns. note_value (in_amount x))"

abbreviation outputs_total :: "transact_output list \<Rightarrow> nat" where
  "outputs_total ns \<equiv> (\<Sum>x\<leftarrow>ns. note_value (out_amount x))"

lemma note_of_value: "v < 2 ^ 128 \<Longrightarrow> \<exists>t. note_value t = v"
  by (rule exI [of _ "NoteAmount (of_nat v)"]) (simp add: unat_of_nat)

lemma note_partial_sum: "note_value t = v + w \<Longrightarrow> \<exists>s. note_value s = v"
  using note_value_less [of t] by (intro note_of_value) simp

lemma sum_inputs_loop_iff:
  "sum_inputs_loop acc ns = Inr t \<longleftrightarrow> note_value t = note_value acc + inputs_total ns"
proof (induction ns arbitrary: acc)
  case (Cons x ns)
  let ?b = "note_value acc + note_value (in_amount x)"
  have "sum_inputs_loop acc (x # ns) = Inr t \<longleftrightarrow>
      (\<exists>a. note_value a = ?b \<and> note_value t = note_value a + inputs_total ns)"
    by (simp add: outcome_simps note_checked_add_iff Cons.IH)
  also have "\<dots> \<longleftrightarrow> note_value t = ?b + inputs_total ns"
    using note_partial_sum [of t ?b "inputs_total ns"] by metis
  finally show ?case by (simp add: add.assoc)
qed (auto simp: note_eq_iff)

lemma sum_outputs_loop_iff:
  "sum_outputs_loop acc ns = Inr t \<longleftrightarrow> note_value t = note_value acc + outputs_total ns"
proof (induction ns arbitrary: acc)
  case (Cons x ns)
  let ?b = "note_value acc + note_value (out_amount x)"
  have "sum_outputs_loop acc (x # ns) = Inr t \<longleftrightarrow>
      (\<exists>a. note_value a = ?b \<and> note_value t = note_value a + outputs_total ns)"
    by (simp add: outcome_simps note_checked_add_iff Cons.IH)
  also have "\<dots> \<longleftrightarrow> note_value t = ?b + outputs_total ns"
    using note_partial_sum [of t ?b "outputs_total ns"] by metis
  finally show ?case by (simp add: add.assoc)
qed (auto simp: note_eq_iff)

lemma sum_inputs_iff: "sum_note_amounts_inputs ns = Inr t \<longleftrightarrow> note_value t = inputs_total ns"
  by (simp add: sum_note_amounts_inputs_def sum_inputs_loop_iff)

lemma sum_outputs_iff: "sum_note_amounts_outputs ns = Inr t \<longleftrightarrow> note_value t = outputs_total ns"
  by (simp add: sum_note_amounts_outputs_def sum_outputs_loop_iff)

lemma note_try_from_ext_iff: "note_try_from_ext e = Inr a \<longleftrightarrow> ext_value e = int (note_value a)"
  using amount_conversions by blast

lemma ext_checked_neg_iff: "ext_checked_neg e = Some e' \<longleftrightarrow> ext_value e' = - ext_value e"
  using amount_conversions by blast

lemma ext_zero_le: "EXT_ZERO \<le> e \<longleftrightarrow> 0 \<le> ext_value e"
  by (simp add: less_eq_ext_amount_def EXT_ZERO_def)

lemma ext_of_value: "- (2 ^ 127) \<le> v \<Longrightarrow> v < 2 ^ 127 \<Longrightarrow> \<exists>e. ext_value e = v"
  by (rule exI [of _ "ExtAmount (word_of_int v)"])
    (simp flip: signed_of_int_Some_iff add: signed_of_int_def in_signed_range_def)

lemma balanced_iff:
  "balanced e i out = Inr True \<longleftrightarrow>
    ext_value e \<noteq> - (2 ^ 127) \<and> int (note_value i) + ext_value e = int (note_value out)"
proof (cases "0 \<le> ext_value e")
  case True
  have "nat (ext_value e) < 2 ^ 128" using ext_value_bounds(2) [of e] by simp
  then obtain a where "int (note_value a) = ext_value e"
    using note_of_value [of "nat (ext_value e)"] True by (metis int_nat_eq)
  then have a: "note_try_from_ext e = Inr a" "ext_value e = int (note_value a)"
    using note_try_from_ext_iff by auto
  have "balanced e i out = Inr True \<longleftrightarrow>
      (\<exists>l. note_value l = note_value i + note_value a \<and> note_value l = note_value out)"
    using True a(1) by (simp add: balanced_def ext_zero_le outcome_simps note_checked_add_iff note_eq_iff)
  also have "\<dots> \<longleftrightarrow> note_value i + note_value a = note_value out" by metis
  also have "\<dots> \<longleftrightarrow> int (note_value i) + ext_value e = int (note_value out)"
    unfolding a(2) by linarith
  finally show ?thesis using True by auto
next
  case False
  show ?thesis
  proof (cases "ext_value e = - (2 ^ 127)")
    case True
    then have "ext_checked_neg e = None" using amount_conversions by blast
    with False True show ?thesis by (simp add: balanced_def ext_zero_le)
  next
    case neq: False
    obtain e' where e': "ext_value e' = - ext_value e"
      using ext_of_value [of "- ext_value e"] ext_value_bounds [of e] False neq by auto
    have "nat (- ext_value e) < 2 ^ 128" using ext_value_bounds(1) [of e] by simp
    then obtain a where a: "int (note_value a) = - ext_value e"
      using note_of_value [of "nat (- ext_value e)"] False by (metis int_nat_eq linear neg_0_le_iff_le)
    have "ext_checked_neg e = Some e'" "note_try_from_ext e' = Inr a"
      using e' a ext_checked_neg_iff note_try_from_ext_iff by auto
    then have "balanced e i out = Inr True \<longleftrightarrow>
        (\<exists>r. note_value r = note_value out + note_value a \<and> note_value i = note_value r)"
      using False by (simp add: balanced_def ext_zero_le outcome_simps note_checked_add_iff note_eq_iff)
    also have "\<dots> \<longleftrightarrow> note_value i = note_value out + note_value a" by metis
    also have "\<dots> \<longleftrightarrow> int (note_value i) + ext_value e = int (note_value out)"
      using a by linarith
    finally show ?thesis using neq by simp
  qed
qed

text \<open>What the parameters of \<open>transact\<close> have to satisfy before random numbers are drawn.\<close>

definition guards_ok :: "transact_params \<Rightarrow> bool" where
  "guards_ok p \<longleftrightarrow>
    0 < fc_tree_depth p \<and> 0 < fc_smt_depth p \<and>
    length (mp_path_elements (fc_membership_proof p)) = fc_tree_depth p \<and>
    length (np_siblings (fc_non_membership_proof p)) = fc_smt_depth p \<and>
    length (tp_outputs p) \<le> 2 \<and>
    inputs_total (tp_inputs p) < 2 ^ 128 \<and> outputs_total (tp_outputs p) < 2 ^ 128 \<and>
    ext_value (tp_ext_amount p) \<noteq> - (2 ^ 127) \<and>
    int (inputs_total (tp_inputs p)) + ext_value (tp_ext_amount p) = int (outputs_total (tp_outputs p))"

lemma transact_guards_iff: "transact_guards p = Inr u \<longleftrightarrow> guards_ok p"
proof -
  have "(\<exists>i. note_value i = inputs_total (tp_inputs p) \<and> (\<exists>out. note_value out = outputs_total (tp_outputs p) \<and>
      balanced (tp_ext_amount p) i out = Inr True)) \<longleftrightarrow>
    inputs_total (tp_inputs p) < 2 ^ 128 \<and> outputs_total (tp_outputs p) < 2 ^ 128 \<and>
    ext_value (tp_ext_amount p) \<noteq> - (2 ^ 127) \<and>
    int (inputs_total (tp_inputs p)) + ext_value (tp_ext_amount p) = int (outputs_total (tp_outputs p))"
    using note_of_value note_value_less unfolding balanced_iff by metis
  then show ?thesis
    unfolding transact_guards_def guards_ok_def
    by (auto simp: outcome_simps sum_inputs_iff sum_outputs_iff N_OUTPUTS_def)
qed

section \<open>Random numbers and padding\<close>

text \<open>The random source fills the whole buffer when it answers; it is total when it always answers.\<close>

definition random_sized :: "random_source \<Rightarrow> bool" where
  "random_sized R \<longleftrightarrow> (\<forall>n k b. R n k = Some b \<longrightarrow> length b = k)"

definition random_total :: "random_source \<Rightarrow> bool" where
  "random_total R \<longleftrightarrow> (\<forall>n k. R n k \<noteq> None)"

lemma generate_random_blinding_total:
  assumes "crypto_env_ok E"
  shows "\<exists>f. generate_random_blinding E (Some b) = Inr f \<and> field_canonical f"
proof -
  obtain f where "field_try_from_le_bytes (reduce_fr E b) = Inr f" "field_canonical f"
    using reduce_fr_canonical [OF assms] by blast
  then show ?thesis by (simp add: generate_random_blinding_def reduce_fr_def)
qed

lemma flow_random_blinding_Inr:
  assumes "crypto_env_ok E" and "flow_random_blinding E R n = Inr (f, k)"
  shows "field_canonical f" and "k = Suc n" and "R n 32 \<noteq> None"
proof -
  have run: "generate_random_blinding E (R n 32) = Inr f" "k = Suc n"
    using assms(2) by (auto simp: flow_random_blinding_def flow_simps outcome_simps)
  then obtain b where b: "R n 32 = Some b"
    by (cases "R n 32") (simp_all add: generate_random_blinding_def)
  then show "field_canonical f" using run generate_random_blinding_total [OF assms(1), of b] by auto
  show "k = Suc n" "R n 32 \<noteq> None" using run b by simp_all
qed

lemma flow_random_blinding_total:
  assumes "crypto_env_ok E" and "random_total R"
  shows "\<exists>f. flow_random_blinding E R n = Inr (f, Suc n)"
proof -
  obtain b where "R n 32 = Some b" using assms(2) by (auto simp: random_total_def)
  then show ?thesis
    using generate_random_blinding_total [OF assms(1), of b] by (auto simp: flow_random_blinding_def)
qed

definition is_dummy_input :: "nat \<Rightarrow> transact_input_note \<Rightarrow> bool" where
  "is_dummy_input depth x \<longleftrightarrow> note_value (in_amount x) = 0 \<and> field_canonical (in_blinding x) \<and>
    in_path_elements x = replicate depth FIELD_ZERO \<and> in_path_indices x = FIELD_ZERO"

definition is_dummy_output :: "transact_output \<Rightarrow> bool" where
  "is_dummy_output x \<longleftrightarrow> (\<exists>b. x = self_output NOTE_ZERO b \<and> field_canonical b)"

lemma dummy_input_Inr:
  assumes "crypto_env_ok E" and "dummy_input E R depth n = Inr (x, k)"
  shows "is_dummy_input depth x"
  using assms(2) flow_random_blinding_Inr(1) [OF assms(1)]
  by (auto simp: dummy_input_def flow_simps is_dummy_input_def)

lemma dummy_input_total:
  assumes "crypto_env_ok E" and "random_total R"
  shows "\<exists>x. dummy_input E R depth n = Inr (x, Suc n)"
  using flow_random_blinding_total [OF assms, of n] by (auto simp: dummy_input_def)

lemma pad_inputs_loop_Inr:
  assumes "crypto_env_ok E" and "pad_inputs_loop m E R depth xs n = Inr (slots, k)"
  shows "\<exists>ds. slots = xs @ ds \<and> length ds = m \<and> list_all (is_dummy_input depth) ds"
  using assms(2)
proof (induction m arbitrary: xs n)
  case (Suc m)
  then obtain d n' where "dummy_input E R depth n = Inr (d, n')"
    and rest: "pad_inputs_loop m E R depth (xs @ [d]) n' = Inr (slots, k)"
    by (auto simp: flow_simps)
  then have "is_dummy_input depth d" using dummy_input_Inr [OF assms(1)] by blast
  then show ?case using Suc.IH [OF rest] by auto
qed (simp add: flow_simps)

lemma pad_inputs_Inr:
  assumes "crypto_env_ok E" and "pad_inputs E R depth xs n = Inr (slots, k)"
  shows "\<exists>ds. slots = xs @ ds \<and> length slots = 2 \<and> list_all (is_dummy_input depth) ds"
proof (cases "xs = []")
  case True
  then show ?thesis
    using assms(2) dummy_input_Inr [OF assms(1)] by (auto simp: pad_inputs_def flow_simps)
next
  case False
  then show ?thesis
    using assms(2) pad_inputs_loop_Inr [OF assms(1)]
    by (fastforce simp: pad_inputs_def N_INPUTS_def flow_simps split: if_splits)
qed

lemma pad_inputs_total:
  assumes "crypto_env_ok E" and "random_total R" and "length xs \<le> 2"
  shows "\<exists>slots k. pad_inputs E R depth xs n = Inr (slots, k)"
proof -
  have "\<exists>slots k. pad_inputs_loop m E R depth xs n = Inr (slots, k)" for m xs n
  proof (induction m arbitrary: xs n)
    case (Suc m)
    then show ?case using dummy_input_total [OF assms(1,2), of depth n] by auto
  qed simp
  moreover obtain d0 d1 where "dummy_input E R depth n = Inr (d0, Suc n)"
    "dummy_input E R depth (Suc n) = Inr (d1, Suc (Suc n))"
    using dummy_input_total [OF assms(1,2)] by meson
  ultimately show ?thesis using assms(3) by (auto simp: pad_inputs_def N_INPUTS_def)
qed

lemma pad_outputs_Inr:
  assumes "crypto_env_ok E" and "pad_outputs E R xs n = Inr (slots, k)" and "length xs \<le> 2"
  shows "\<exists>ds. slots = xs @ ds \<and> length slots = 2 \<and> list_all is_dummy_output ds"
proof -
  have "\<exists>ds. slots = xs @ ds \<and> length ds = m \<and> list_all is_dummy_output ds"
    if "pad_outputs_loop m E R xs n = Inr (slots, k)" for m xs n
    using that
  proof (induction m arbitrary: xs n)
    case (Suc m)
    then obtain b n' where "flow_random_blinding E R n = Inr (b, n')"
      and rest: "pad_outputs_loop m E R (xs @ [self_output NOTE_ZERO b]) n' = Inr (slots, k)"
      by (auto simp: flow_simps)
    then have "is_dummy_output (self_output NOTE_ZERO b)"
      using flow_random_blinding_Inr(1) [OF assms(1)] by (auto simp: is_dummy_output_def)
    then show ?case using Suc.IH [OF rest] by auto
  qed (simp add: flow_simps)
  from this [OF assms(2) [unfolded pad_outputs_def]] show ?thesis
    using assms(3) by (auto simp: N_OUTPUTS_def)
qed

lemma pad_outputs_total:
  assumes "crypto_env_ok E" and "random_total R"
  shows "\<exists>slots k. pad_outputs E R xs n = Inr (slots, k)"
proof -
  have "\<exists>slots k. pad_outputs_loop m E R xs n = Inr (slots, k)" for m
  proof (induction m arbitrary: xs n)
    case (Suc m)
    then show ?case using flow_random_blinding_total [OF assms, of n] by auto
  qed simp
  then show ?thesis by (simp add: pad_outputs_def)
qed

lemma check_input_paths_iff:
  "check_input_paths depth i xs = Inr u \<longleftrightarrow> list_all (\<lambda>x. length (in_path_elements x) = depth) xs"
  by (induction xs arbitrary: i) (auto simp: outcome_simps)

lemma check_recipients_iff:
  "check_recipients i xs = Inr u \<longleftrightarrow>
    list_all (\<lambda>x. (out_note_pubkey x \<noteq> None) = (out_encryption_pubkey x \<noteq> None)) xs"
  by (induction xs arbitrary: i) (auto simp: outcome_simps)

section \<open>Outputs\<close>

text \<open>The wires of an output whose encryption is \<open>enc\<close>.\<close>

definition output_wires_of :: "bytes \<Rightarrow> bytes \<Rightarrow> transact_output \<Rightarrow> output_wires" where
  "output_wires_of sk enc out =
    \<lparr> ow_commitment = Field (word_of_int (slot_commitment sk out)), ow_encrypted = enc,
      ow_amount_hex = circuit_hex (uint (note_u128 (out_amount out))),
      ow_pubkey_hex = circuit_hex (le_scalar (recipient_note_key (sender_key sk) out)),
      ow_blinding_hex = circuit_hex (field_to_scalar (out_blinding out)),
      ow_commitment_hex = circuit_hex (slot_commitment sk out) \<rparr>"

lemma build_output_eq:
  assumes "length (recipient_note_key (sender_key sk) out) = 32"
  shows "build_output E R (sender_key sk) ek out n =
    let_ok (of_prover (encrypt_output_note E (R n 32) (R (Suc n) 24) (recipient_encryption_key ek out)
      (out_amount out) (out_blinding out))) (\<lambda>enc. Inr (output_wires_of sk enc out, Suc (Suc n)))"
proof -
  have c: "0 \<le> slot_commitment sk out" "slot_commitment sk out < FpBN256_MODULUS"
    by (simp_all add: slot_commitment_def note_hash_range)
  have comm: "compute_commitment (field_to_le_bytes (field_from_note (out_amount out)))
      (recipient_note_key (sender_key sk) out) (field_to_le_bytes (out_blinding out)) =
      Inr (bigint_to_bytes_le (slot_commitment sk out))"
    using compute_commitment_eq [OF assms] by (simp add: slot_commitment_def)
  show ?thesis
    unfolding build_output_def note_amount_to_field_def Let_def output_wires_of_def
    by (simp add: comm bigint_le_field [OF c] field_to_scalar_word [OF c] amount_scalar
        field_bytes_to_hex_eq [OF assms] field_bytes_to_hex_eq le_scalar_field)
      (simp add: flow_bind_def flow_lift_def let_ok_def split: sum.splits)
qed

lemma build_output_Inr:
  assumes "build_output E R (sender_key sk) ek out n = Inr (w, k)"
  shows "length (recipient_note_key (sender_key sk) out) = 32"
    and "\<exists>enc. encrypt_output_note E (R n 32) (R (Suc n) 24) (recipient_encryption_key ek out)
      (out_amount out) (out_blinding out) = Inr enc \<and> w = output_wires_of sk enc out"
proof -
  obtain c where "compute_commitment (field_to_le_bytes (field_from_note (out_amount out)))
      (recipient_note_key (sender_key sk) out) (field_to_le_bytes (out_blinding out)) = Inr c"
    using assms by (auto simp: build_output_def Let_def flow_simps outcome_simps note_amount_to_field_def)
  then show len: "length (recipient_note_key (sender_key sk) out) = 32"
    using bytes_to_scalar_bad by (fastforce simp: compute_commitment_def outcome_simps)
  show "\<exists>enc. encrypt_output_note E (R n 32) (R (Suc n) 24) (recipient_encryption_key ek out)
      (out_amount out) (out_blinding out) = Inr enc \<and> w = output_wires_of sk enc out"
    using assms by (auto simp: build_output_eq [OF len] outcome_simps)
qed

section \<open>What the builder returns\<close>

text \<open>Input and output slots: the given notes, filled up with dummies to two each.\<close>

definition slots_of ::
  "transact_params \<Rightarrow> transact_input_note list \<Rightarrow> transact_output list \<Rightarrow> bool" where
  "slots_of p ins outs \<longleftrightarrow>
    (\<exists>din dout. ins = tp_inputs p @ din \<and> outs = tp_outputs p @ dout \<and>
      list_all (is_dummy_input (fc_tree_depth p)) din \<and> list_all is_dummy_output dout) \<and>
    length ins = 2 \<and> length outs = 2 \<and>
    list_all (\<lambda>x. length (in_path_elements x) = fc_tree_depth p) ins \<and>
    list_all (\<lambda>x. (out_note_pubkey x \<noteq> None) = (out_encryption_pubkey x \<noteq> None)) outs"

text \<open>The ciphertext of an output: an encryption under two strings of the random source.\<close>

definition encrypted_output ::
  "crypto_env \<Rightarrow> random_source \<Rightarrow> encryption_public_key \<Rightarrow> transact_output \<Rightarrow> bytes \<Rightarrow> bool" where
  "encrypted_output E R ek out enc \<longleftrightarrow>
    (\<exists>m. encrypt_output_note E (R m 32) (R (Suc m) 24) (recipient_encryption_key ek out)
      (out_amount out) (out_blinding out) = Inr enc)"

text \<open>The values for the submission of the transaction.\<close>

definition prepared_of ::
  "transact_params \<Rightarrow> transact_input_note list \<Rightarrow> transact_output list \<Rightarrow> bytes \<Rightarrow> prepared_tx" where
  "prepared_of p ins outs h =
    (let sk = private_bytes (fc_priv_key p) in
     \<lparr> pt_pool_root = fc_pool_root p,
       pt_input_nullifiers = map (\<lambda>x. Field (word_of_int (slot_nullifier sk x))) ins,
       pt_output_commitments = map (\<lambda>x. Field (word_of_int (slot_commitment sk x))) outs,
       pt_public_amount = ext_field (tp_ext_amount p), pt_ext_data_hash_be = h,
       pt_asp_membership_root = mp_root (fc_membership_proof p),
       pt_asp_non_membership_root = np_root (fc_non_membership_proof p) \<rparr>)"

text \<open>The signals of the transaction circuit, public and private, apart from those of the ASP proofs.\<close>

definition note_signals ::
  "transact_params \<Rightarrow> transact_input_note list \<Rightarrow> transact_output list \<Rightarrow> bytes \<Rightarrow> (string \<times> input_value) list" where
  "note_signals p ins outs h =
    (let sk = private_bytes (fc_priv_key p); hex = (\<lambda>f. circuit_hex (field_to_scalar f)) in
     [(''root'', Single (hex (fc_pool_root p))),
      (''publicAmount'', Single (hex (ext_field (tp_ext_amount p)))),
      (''extDataHash'', Single (be32_to_0x_hex h)),
      (''inputNullifier'', Array (map (\<lambda>x. circuit_hex (slot_nullifier sk x)) ins)),
      (''outputCommitment'', Array (map (\<lambda>x. circuit_hex (slot_commitment sk x)) outs)),
      (''membershipRoots'', Array (replicate 2 (hex (mp_root (fc_membership_proof p))))),
      (''nonMembershipRoots'', Array (replicate 2 (hex (np_root (fc_non_membership_proof p))))),
      (''inAmount'', Array (map (\<lambda>x. circuit_hex (uint (note_u128 (in_amount x)))) ins)),
      (''inPrivateKey'', Array (map (\<lambda>_. circuit_hex (le_scalar sk)) ins)),
      (''inBlinding'', Array (map (\<lambda>x. hex (in_blinding x)) ins)),
      (''inPathIndices'', Array (map (\<lambda>x. hex (in_path_indices x)) ins)),
      (''inPathElements'', Array (concat (map (\<lambda>x. map hex (in_path_elements x)) ins))),
      (''outAmount'', Array (map (\<lambda>x. circuit_hex (uint (note_u128 (out_amount x)))) outs)),
      (''outPubkey'', Array (map (\<lambda>x. circuit_hex (le_scalar (recipient_note_key (sender_key sk) x))) outs)),
      (''outBlinding'', Array (map (\<lambda>x. hex (out_blinding x)) outs))])"

text \<open>The signals of the two ASP proofs, for one input slot and for both.\<close>

definition asp_slot_signals :: "transact_params \<Rightarrow> string \<Rightarrow> (string \<times> input_value) list" where
  "asp_slot_signals p slot =
    (let mp = fc_membership_proof p; np = fc_non_membership_proof p; hex = (\<lambda>f. circuit_hex (field_to_scalar f));
         m = (\<lambda>s. ''membershipProofs['' @ slot @ ''][0].'' @ s); n = (\<lambda>s. ''nonMembershipProofs['' @ slot @ ''][0].'' @ s) in
     [(m ''leaf'', Single (hex (mp_leaf mp))),
      (m ''blinding'', Single (hex (mp_blinding mp))),
      (m ''pathIndices'', Single (hex (mp_path_indices mp))),
      (m ''pathElements'', Array (map hex (mp_path_elements mp))),
      (m ''root'', Single (hex (mp_root mp))),
      (n ''key'', Single (hex (np_key np))),
      (n ''oldKey'', Single (hex (np_old_key np))),
      (n ''oldValue'', Single (hex (np_old_value np))),
      (n ''isOld0'', Single (circuit_hex (if np_is_old0 np then 1 else 0))),
      (n ''siblings'', Array (map hex (np_siblings np))),
      (n ''root'', Single (hex (np_root np)))])"

definition asp_signals :: "transact_params \<Rightarrow> (string \<times> input_value) list" where
  "asp_signals p = asp_slot_signals p ''0'' @ asp_slot_signals p ''1''"

text \<open>The wiring of the ASP proofs always succeeds and touches only its own signals.\<close>

definition asp_wired ::
  "asp_membership_proof \<Rightarrow> asp_non_membership_proof \<Rightarrow> nat \<Rightarrow> circuit_inputs \<Rightarrow> circuit_inputs" where
  "asp_wired mp np slot c = projr (wire_asp mp np slot c)"

lemma wire_asp_eq: "wire_asp mp np slot c = Inr (asp_wired mp np slot c)"
  by (simp add: wire_asp_def asp_wired_def Let_def)

lemma show_slots: "show_nat 0 = ''0''" "show_nat 1 = ''1''" "show_nat (Suc 0) = ''1''"
  by code_simp+

lemma asp_wired_eq:
  "asp_wired mp np slot c =
    (let hex = (\<lambda>f. circuit_hex (field_to_scalar f));
         prefix_m = ''membershipProofs['' @ show_nat slot @ ''][0].'';
         prefix_n = ''nonMembershipProofs['' @ show_nat slot @ ''][0].'' in
     set_single (prefix_n @ ''root'') (hex (np_root np))
         (set_array (prefix_n @ ''siblings'') (map hex (np_siblings np))
         (set_single (prefix_n @ ''isOld0'') (circuit_hex (if np_is_old0 np then 1 else 0))
         (set_single (prefix_n @ ''oldValue'') (hex (np_old_value np))
         (set_single (prefix_n @ ''oldKey'') (hex (np_old_key np))
         (set_single (prefix_n @ ''key'') (hex (np_key np))
         (set_single (prefix_m @ ''root'') (hex (mp_root mp))
         (set_array (prefix_m @ ''pathElements'') (map hex (mp_path_elements mp))
         (set_single (prefix_m @ ''pathIndices'') (hex (mp_path_indices mp))
         (set_single (prefix_m @ ''blinding'') (hex (mp_blinding mp))
         (set_single (prefix_m @ ''leaf'') (hex (mp_leaf mp)) c)))))))))))"
proof -
  have "field_to_scalar (if np_is_old0 np then field_from_note NOTE_ONE else FIELD_ZERO) = (if np_is_old0 np then 1 else 0)"
    using amount_scalar [of NOTE_ONE] field_to_scalar_word [of 0] by (simp add: NOTE_ONE_def FIELD_ZERO_def FpBN256_MODULUS_def)
  then show ?thesis by (simp add: asp_wired_def wire_asp_def Let_def)
qed

lemma asp_wired_other:
  assumes "take 17 name \<noteq> ''membershipProofs[''" and "take 20 name \<noteq> ''nonMembershipProofs[''"
  shows "asp_wired mp np slot c name = c name"
proof -
  define pm pn where "pm = ''membershipProofs[''" and "pn = ''nonMembershipProofs[''"
  have "name \<noteq> pm @ y" "name \<noteq> pn @ y" for y using assms by (auto simp: pm_def pn_def)
  then show ?thesis
    unfolding asp_wired_def wire_asp_def Let_def pm_def [symmetric] pn_def [symmetric]
    by (simp add: set_single_def set_array_def)
qed

definition input_wires_of :: "bytes \<Rightarrow> transact_input_note \<Rightarrow> input_wires" where
  "input_wires_of sk inp =
    \<lparr> iw_nullifier = Field (word_of_int (slot_nullifier sk inp)),
      iw_nullifier_hex = circuit_hex (slot_nullifier sk inp),
      iw_amount_hex = circuit_hex (uint (note_u128 (in_amount inp))),
      iw_private_hex = circuit_hex (le_scalar sk),
      iw_blinding_hex = circuit_hex (field_to_scalar (in_blinding inp)),
      iw_indices_hex = circuit_hex (field_to_scalar (in_path_indices inp)),
      iw_path_hex = map (\<lambda>f. circuit_hex (field_to_scalar f)) (in_path_elements inp) \<rparr>"

lemma build_inputs_eq:
  assumes "length sk = 32"
  shows "map_ok (build_input sk (sender_key sk) (circuit_hex (le_scalar sk))) inps = Inr (map (input_wires_of sk) inps)"
  by (rule map_ok_all) (simp add: build_input_eq [OF assms] input_wires_of_def)

definition circuit_of ::
  "transact_params \<Rightarrow> transact_input_note list \<Rightarrow> output_wires list \<Rightarrow> bytes \<Rightarrow> circuit_inputs" where
  "circuit_of p ins ows h =
    (let hex = (\<lambda>f. circuit_hex (field_to_scalar f));
         mp = fc_membership_proof p; np = fc_non_membership_proof p in
     set_single ''extDataHash'' (be32_to_0x_hex h) (asp_wired mp np 1 (asp_wired mp np 0
       (set_array ''nonMembershipRoots'' [hex (np_root np), hex (np_root np)]
       (set_array ''membershipRoots'' [hex (mp_root mp), hex (mp_root mp)]
       (wire_notes (map (input_wires_of (private_bytes (fc_priv_key p))) ins) ows
       (set_single ''publicAmount'' (hex (ext_field (tp_ext_amount p)))
       (set_single ''root'' (hex (fc_pool_root p)) Map.empty))))))))"

lemma flow_lift_bind [simp]: "flow_bind (flow_lift (Inr x)) f = f x"
  by (simp add: flow_bind_def flow_lift_def)

lemma flow_transact_eq:
  assumes "length (private_bytes (fc_priv_key p)) = 32"
  defines "sk \<equiv> private_bytes (fc_priv_key p)"
  shows "flow_transact E R H p =
    flow_bind (flow_lift (transact_guards p)) (\<lambda>_.
    flow_bind (pad_inputs E R (fc_tree_depth p) (tp_inputs p)) (\<lambda>ins.
    flow_bind (flow_lift (check_input_paths (fc_tree_depth p) 0 ins)) (\<lambda>_.
    flow_bind (pad_outputs E R (tp_outputs p)) (\<lambda>outs.
    flow_bind (flow_lift (check_recipients 0 outs)) (\<lambda>_.
    flow_bind (flow_lift (require (2 * fc_tree_depth p < 2 ^ 32) (Err PathCapacityOverflow))) (\<lambda>_.
    flow_bind (flow_map (build_output E R (sender_key sk) (fc_encryption_pubkey p)) outs) (\<lambda>ows.
    let ext = \<lparr> cx_recipient = tp_ext_recipient p, cx_ext_amount = tp_ext_amount p,
          cx_encrypted_output0 = ow_encrypted (ows ! 0), cx_encrypted_output1 = ow_encrypted (ows ! 1) \<rparr> in
    flow_bind (flow_lift (ok_or (H ext) (Err HashExtDataFailed))) (\<lambda>h.
    flow_return \<lparr> ta_circuit_inputs = circuit_of p ins ows h, ta_ext_data = ext,
      ta_prepared = \<lparr> pt_pool_root = fc_pool_root p,
        pt_input_nullifiers = map (\<lambda>x. Field (word_of_int (slot_nullifier sk x))) ins,
        pt_output_commitments = map ow_commitment ows,
        pt_public_amount = ext_field (tp_ext_amount p), pt_ext_data_hash_be = h,
        pt_asp_membership_root = mp_root (fc_membership_proof p),
        pt_asp_non_membership_root = np_root (fc_non_membership_proof p) \<rparr> \<rparr>))))))))"
proof -
  have sk: "length sk = 32" using assms by simp
  have nul: "map iw_nullifier (map (input_wires_of sk) ins) =
      map (\<lambda>x. Field (word_of_int (slot_nullifier sk x))) ins" for ins
    by (simp add: input_wires_of_def)
  show ?thesis
    unfolding flow_transact_def circuit_of_def sk_def [symmetric]
    by (simp only: derive_sender_key [OF sk] length_sender_key field_bytes_to_hex_eq [OF sk] build_inputs_eq [OF sk]
        field_try_from_ext_field ext_amount_to_circuit_hex_eq field_to_circuit_hex_eq map_err_simps
        flow_lift_bind require_simps wire_asp_eq Let_def nul N_INPUTS_def simp_thms)
qed

lemma circuit_of_signals:
  assumes "ows = map2 (output_wires_of (private_bytes (fc_priv_key p))) encs outs"
    and "length encs = length outs"
  shows "list_all (\<lambda>(name, v). circuit_of p ins ows h name = Some v) (note_signals p ins outs h)"
proof -
  let ?sk = "private_bytes (fc_priv_key p)"
  have ow: "map f ows = map g outs" if "\<And>enc x. f (output_wires_of ?sk enc x) = g x" for f :: "output_wires \<Rightarrow> string" and g
    unfolding assms(1) using assms(2) by (induction encs outs rule: list_induct2) (simp_all add: that)
  have outs: "map ow_amount_hex ows = map (\<lambda>x. circuit_hex (uint (note_u128 (out_amount x)))) outs"
    "map ow_pubkey_hex ows = map (\<lambda>x. circuit_hex (le_scalar (recipient_note_key (sender_key ?sk) x))) outs"
    "map ow_blinding_hex ows = map (\<lambda>x. circuit_hex (field_to_scalar (out_blinding x))) outs"
    "map ow_commitment_hex ows = map (\<lambda>x. circuit_hex (slot_commitment ?sk x)) outs"
    by (rule ow, simp add: output_wires_of_def)+
  show ?thesis
    unfolding note_signals_def circuit_of_def Let_def wire_notes_def
    by (simp add: set_single_def set_array_def asp_wired_other outs input_wires_of_def o_def numeral_2_eq_2)
qed

lemma circuit_of_asp_signals: "list_all (\<lambda>(name, v). circuit_of p ins ows h name = Some v) (asp_signals p)"
  unfolding asp_signals_def asp_slot_signals_def circuit_of_def Let_def asp_wired_eq
  by (simp add: set_single_def set_array_def show_slots)

lemma flow_map_outputs:
  assumes "flow_map (build_output E R (sender_key sk) ek) outs n = Inr (ows, k)"
  shows "\<exists>encs. length encs = length outs \<and> ows = map2 (output_wires_of sk) encs outs \<and>
    (\<forall>i < length outs. encrypted_output E R ek (outs ! i) (encs ! i)) \<and>
    list_all (\<lambda>x. length (recipient_note_key (sender_key sk) x) = 32) outs"
  using assms
proof (induction outs arbitrary: n ows)
  case (Cons x outs)
  then obtain w m ws where w: "build_output E R (sender_key sk) ek x n = Inr (w, m)"
    and ws: "flow_map (build_output E R (sender_key sk) ek) outs m = Inr (ws, k)" "ows = w # ws"
    by (auto simp: flow_simps)
  obtain enc where enc: "encrypted_output E R ek x enc" "w = output_wires_of sk enc x"
    using build_output_Inr(2) [OF w] by (auto simp: encrypted_output_def)
  obtain encs where "length encs = length outs" "ws = map2 (output_wires_of sk) encs outs"
    "\<forall>i < length outs. encrypted_output E R ek (outs ! i) (encs ! i)"
    "list_all (\<lambda>x. length (recipient_note_key (sender_key sk) x) = 32) outs"
    using Cons.IH [OF ws(1)] by blast
  then show ?case using enc ws(2) build_output_Inr(1) [OF w]
    by (intro exI [of _ "enc # encs"]) (auto simp: nth_Cons split: nat.splits)
qed (simp add: flow_simps)

text \<open>Everything that a successful run of the builder establishes.\<close>

definition built ::
  "crypto_env \<Rightarrow> random_source \<Rightarrow> (client_ext_data \<Rightarrow> bytes option) \<Rightarrow> transact_params \<Rightarrow>
    transact_input_note list \<Rightarrow> transact_output list \<Rightarrow> transact_artifacts \<Rightarrow> bool" where
  "built E R H p ins outs ta \<longleftrightarrow>
    slots_of p ins outs \<and>
    encrypted_output E R (fc_encryption_pubkey p) (outs ! 0) (cx_encrypted_output0 (ta_ext_data ta)) \<and>
    encrypted_output E R (fc_encryption_pubkey p) (outs ! 1) (cx_encrypted_output1 (ta_ext_data ta)) \<and>
    cx_recipient (ta_ext_data ta) = tp_ext_recipient p \<and>
    cx_ext_amount (ta_ext_data ta) = tp_ext_amount p \<and>
    (\<exists>h. H (ta_ext_data ta) = Some h \<and> ta_prepared ta = prepared_of p ins outs h \<and>
      list_all (\<lambda>(name, v). ta_circuit_inputs ta name = Some v) (note_signals p ins outs h @ asp_signals p))"

lemma flow_transact_key:
  assumes "flow_transact E R H p n = Inr (ta, k)"
  shows "length (private_bytes (fc_priv_key p)) = 32"
proof -
  obtain pk where "derive_public_key (private_bytes (fc_priv_key p)) = Inr pk"
    using assms unfolding flow_transact_def flow_simps by (auto simp: outcome_simps)
  then show ?thesis using bytes_to_scalar_bad by (fastforce simp: derive_public_key_def outcome_simps)
qed

lemma flow_transact_Inr:
  assumes E: "crypto_env_ok E" and run: "flow_transact E R H p n = Inr (ta, k)"
  defines "sk \<equiv> private_bytes (fc_priv_key p)"
  shows "guards_ok p" and "2 * fc_tree_depth p < 2 ^ 32"
    and "\<exists>ins outs. built E R H p ins outs ta \<and>
      list_all (\<lambda>x. length (recipient_note_key (sender_key sk) x) = 32) outs"
proof -
  note eq = flow_transact_eq [OF flow_transact_key [OF run], folded sk_def]
  obtain ins outs n1 n2 ows n3 h where g: "guards_ok p" and cap: "2 * fc_tree_depth p < 2 ^ 32"
    and ins: "pad_inputs E R (fc_tree_depth p) (tp_inputs p) n = Inr (ins, n1)"
    and paths: "check_input_paths (fc_tree_depth p) 0 ins = Inr ()"
    and outs: "pad_outputs E R (tp_outputs p) n1 = Inr (outs, n2)"
    and keys: "check_recipients 0 outs = Inr ()"
    and ows: "flow_map (build_output E R (sender_key sk) (fc_encryption_pubkey p)) outs n2 = Inr (ows, n3)"
    and h: "H (ta_ext_data ta) = Some h"
    and ext: "ta_ext_data ta = \<lparr> cx_recipient = tp_ext_recipient p, cx_ext_amount = tp_ext_amount p,
          cx_encrypted_output0 = ow_encrypted (ows ! 0), cx_encrypted_output1 = ow_encrypted (ows ! 1) \<rparr>"
    and circuit: "ta_circuit_inputs ta = circuit_of p ins ows h"
    and prep: "ta_prepared ta = \<lparr> pt_pool_root = fc_pool_root p,
        pt_input_nullifiers = map (\<lambda>x. Field (word_of_int (slot_nullifier sk x))) ins,
        pt_output_commitments = map ow_commitment ows,
        pt_public_amount = ext_field (tp_ext_amount p), pt_ext_data_hash_be = h,
        pt_asp_membership_root = mp_root (fc_membership_proof p),
        pt_asp_non_membership_root = np_root (fc_non_membership_proof p) \<rparr>"
    using run unfolding eq Let_def flow_simps outcome_simps transact_guards_iff
    by (auto simp: ok_or_Inr_iff)
  show "guards_ok p" "2 * fc_tree_depth p < 2 ^ 32" by (fact g cap)+
  have len: "length (tp_outputs p) \<le> 2" using g by (simp add: guards_ok_def)
  obtain din where din: "ins = tp_inputs p @ din" "length ins = 2" "list_all (is_dummy_input (fc_tree_depth p)) din"
    using pad_inputs_Inr [OF E ins] by blast
  obtain dout where dout: "outs = tp_outputs p @ dout" "length outs = 2" "list_all is_dummy_output dout"
    using pad_outputs_Inr [OF E outs len] by blast
  have slots: "slots_of p ins outs"
    using din dout paths keys by (auto simp: slots_of_def check_input_paths_iff check_recipients_iff)
  obtain encs where encs: "length encs = length outs" "ows = map2 (output_wires_of sk) encs outs"
    "\<forall>i < length outs. encrypted_output E R (fc_encryption_pubkey p) (outs ! i) (encs ! i)"
    and rkeys: "list_all (\<lambda>x. length (recipient_note_key (sender_key sk) x) = 32) outs"
    using flow_map_outputs [OF ows] by blast
  have "ow_encrypted (ows ! i) = encs ! i" if "i < 2" for i
    using that encs(1,2) dout(2) by (simp add: output_wires_of_def)
  moreover have "map ow_commitment ows = map (\<lambda>x. Field (word_of_int (slot_commitment sk x))) outs"
    using encs(1,2) by (intro nth_equalityI) (simp_all add: output_wires_of_def)
  moreover have "list_all (\<lambda>(name, v). circuit_of p ins ows h name = Some v) (note_signals p ins outs h @ asp_signals p)"
    using circuit_of_signals [OF encs(2)[unfolded sk_def] encs(1)] circuit_of_asp_signals by (simp add: list_all_append)
  ultimately have "built E R H p ins outs ta"
    unfolding built_def using slots encs(3) dout(2) h
    by (auto simp: ext circuit prep prepared_of_def Let_def sk_def simp del: list_all_append)
  with rkeys show "\<exists>ins outs. built E R H p ins outs ta \<and>
      list_all (\<lambda>x. length (recipient_note_key (sender_key sk) x) = 32) outs" by blast
qed

lemma encrypted_output_length:
  assumes "crypto_env_ok E" and "random_sized R" and "encrypted_output E R ek out enc"
  shows "length enc = 120"
proof -
  obtain m pk where m: "encrypt_note_data E (R m 32) (R (Suc m) 24) pk
      (note_to_le_bytes (out_amount out) @ field_to_le_bytes (out_blinding out)) = Inr enc"
    using assms(3) by (cases "recipient_encryption_key ek out") (auto simp: encrypted_output_def)
  obtain eph nonce where r: "R m 32 = Some eph" "R (Suc m) 24 = Some nonce"
    using m by (cases "R m 32"; cases "R (Suc m) 24") (auto simp: encrypt_note_data_def Let_def split: if_splits)
  then have "length eph = 32" "length nonce = 24" using assms(2) by (auto simp: random_sized_def)
  then show ?thesis using encrypt_note_data_Inr [OF assms(1) _ _ m [unfolded r]] by blast
qed

section \<open>When the builder succeeds\<close>

text \<open>Keys are arrays of 32 bytes in the source.\<close>

fun encryption_bytes :: "encryption_public_key \<Rightarrow> bytes" where
  "encryption_bytes (EncryptionPublicKey b) = b"

definition output_keys_typed :: "transact_output \<Rightarrow> bool" where
  "output_keys_typed x \<longleftrightarrow>
    (\<forall>k. out_note_pubkey x = Some k \<longrightarrow> length (public_bytes k) = 32) \<and>
    (\<forall>k. out_encryption_pubkey x = Some k \<longrightarrow> length (encryption_bytes k) = 32)"

definition keys_typed :: "'a flow_common_scheme \<Rightarrow> transact_output list \<Rightarrow> bool" where
  "keys_typed p outs \<longleftrightarrow> length (private_bytes (fc_priv_key p)) = 32 \<and>
    length (encryption_bytes (fc_encryption_pubkey p)) = 32 \<and> list_all output_keys_typed outs"

text \<open>
  The external services answer: random numbers, encryption of 48 bytes, the hash of external data with
  two encrypted notes.
\<close>

definition services_ok ::
  "crypto_env \<Rightarrow> random_source \<Rightarrow> (client_ext_data \<Rightarrow> bytes option) \<Rightarrow> bool" where
  "services_ok E R H \<longleftrightarrow> crypto_env_ok E \<and> random_total R \<and> random_sized R \<and>
    (\<forall>k n m. length m = 48 \<longrightarrow> box_encrypt E k n m \<noteq> None) \<and>
    (\<forall>x. length (cx_encrypted_output0 x) = 120 \<and> length (cx_encrypted_output1 x) = 120 \<longrightarrow> H x \<noteq> None)"

lemma encrypt_output_note_total:
  assumes "services_ok E R H" and "length (encryption_bytes ek) = 32"
  shows "\<exists>ct. encrypt_output_note E (R n 32) (R m 24) ek amount blinding = Inr ct"
proof -
  obtain eph nonce where r: "R n 32 = Some eph" "R m 24 = Some nonce"
    using assms(1) by (metis services_ok_def random_total_def option.exhaust)
  obtain pk where ek: "ek = EncryptionPublicKey pk" "length pk = 32" using assms(2) by (cases ek) auto
  let ?pt = "note_to_le_bytes amount @ field_to_le_bytes blinding"
  obtain c where c: "box_encrypt E (diffie_hellman E eph pk) nonce ?pt = Some c"
    using assms(1) by (fastforce simp: services_ok_def)
  moreover have "length c = 64"
    using assms(1) crypto_env_okD(6) [OF _ c] by (auto simp: services_ok_def)
  ultimately show ?thesis
    by (simp add: r ek encrypt_note_data_def Let_def nat_checked_add_def)
qed

lemma recipient_keys_typed:
  assumes "output_keys_typed x" and "length (encryption_bytes ek) = 32"
  shows "length (recipient_note_key (sender_key sk) x) = 32"
    and "length (encryption_bytes (recipient_encryption_key ek x)) = 32"
  using assms by (auto simp: output_keys_typed_def recipient_note_key_def recipient_encryption_key_def
      split: option.splits)

lemma build_output_total:
  assumes "services_ok E R H" and "output_keys_typed x" and "length (encryption_bytes ek) = 32"
  shows "\<exists>w k. build_output E R (sender_key sk) ek x n = Inr (w, k)"
proof -
  note keys = recipient_keys_typed [OF assms(2,3)]
  obtain ct where "encrypt_output_note E (R n 32) (R (Suc n) 24) (recipient_encryption_key ek x)
      (out_amount x) (out_blinding x) = Inr ct"
    using encrypt_output_note_total [OF assms(1) keys(2)] by blast
  then show ?thesis by (simp add: build_output_eq [OF keys(1)])
qed

lemma dummies_ok:
  "list_all (is_dummy_input d) din \<Longrightarrow> list_all (\<lambda>x. length (in_path_elements x) = d) din"
  "list_all is_dummy_output dout \<Longrightarrow>
    list_all output_keys_typed dout \<and>
    list_all (\<lambda>x. (out_note_pubkey x \<noteq> None) = (out_encryption_pubkey x \<noteq> None)) dout"
  by (auto simp: list_all_iff is_dummy_input_def is_dummy_output_def self_output_def output_keys_typed_def)

lemma dummies_total:
  "list_all (is_dummy_input d) din \<Longrightarrow> inputs_total din = 0"
  "list_all is_dummy_output dout \<Longrightarrow> outputs_total dout = 0"
  by (auto simp: list_all_iff is_dummy_input_def is_dummy_output_def self_output_def sum_list_eq_0_iff)

lemma slots_total:
  "slots_of p ins outs \<Longrightarrow> inputs_total ins = inputs_total (tp_inputs p) \<and>
    outputs_total outs = outputs_total (tp_outputs p)"
  using dummies_total by (fastforce simp: slots_of_def)

definition params_ok :: "transact_params \<Rightarrow> bool" where
  "params_ok p \<longleftrightarrow> guards_ok p \<and> length (tp_inputs p) \<le> 2 \<and> 2 * fc_tree_depth p < 2 ^ 32 \<and>
    list_all (\<lambda>x. length (in_path_elements x) = fc_tree_depth p) (tp_inputs p) \<and>
    list_all (\<lambda>x. (out_note_pubkey x \<noteq> None) = (out_encryption_pubkey x \<noteq> None)) (tp_outputs p)"

lemma flow_transact_total:
  assumes S: "services_ok E R H" and K: "keys_typed p (tp_outputs p)" and P: "params_ok p"
  shows "\<exists>ta k. flow_transact E R H p n = Inr (ta, k)"
proof -
  let ?sk = "private_bytes (fc_priv_key p)"
  have E: "crypto_env_ok E" and R: "random_total R" using S by (simp_all add: services_ok_def)
  have g: "transact_guards p = Inr ()" and len: "length (tp_outputs p) \<le> 2"
    using P transact_guards_iff by (auto simp: params_ok_def guards_ok_def)
  obtain ins n1 where ins: "pad_inputs E R (fc_tree_depth p) (tp_inputs p) n = Inr (ins, n1)"
    using pad_inputs_total [OF E R] P by (meson params_ok_def)
  obtain outs n2 where outs: "pad_outputs E R (tp_outputs p) n1 = Inr (outs, n2)"
    using pad_outputs_total [OF E R] by meson
  obtain din where din: "ins = tp_inputs p @ din" "list_all (is_dummy_input (fc_tree_depth p)) din"
    using pad_inputs_Inr [OF E ins] by blast
  obtain dout where dout: "outs = tp_outputs p @ dout" "list_all is_dummy_output dout"
    using pad_outputs_Inr [OF E outs len] by blast
  have paths: "check_input_paths (fc_tree_depth p) 0 ins = Inr ()"
    using P din dummies_ok(1) by (simp add: check_input_paths_iff params_ok_def)
  have keys: "check_recipients 0 outs = Inr ()"
    using P dout dummies_ok(2) by (simp add: check_recipients_iff params_ok_def)
  have "list_all output_keys_typed outs" using K dout dummies_ok(2) by (simp add: keys_typed_def)
  then obtain ows n3 where ows:
    "flow_map (build_output E R (sender_key ?sk) (fc_encryption_pubkey p)) outs n2 = Inr (ows, n3)"
    using flow_map_total [of outs "build_output E R (sender_key ?sk) (fc_encryption_pubkey p)" n2]
      build_output_total [OF S] K by (fastforce simp: keys_typed_def list_all_iff)
  have "length (ow_encrypted (ows ! i)) = 120" if "i < 2" for i
  proof -
    obtain encs where encs: "length encs = length outs" "ows = map2 (output_wires_of ?sk) encs outs"
      "\<forall>i < length outs. encrypted_output E R (fc_encryption_pubkey p) (outs ! i) (encs ! i)"
      using flow_map_outputs [OF ows] by blast
    have two: "length outs = 2" using pad_outputs_Inr [OF E outs len] by blast
    then have "encrypted_output E R (fc_encryption_pubkey p) (outs ! i) (encs ! i)" using encs(3) that by simp
    then have "length (encs ! i) = 120"
      using encrypted_output_length [OF E] S by (auto simp: services_ok_def)
    then show ?thesis using encs(1,2) two that by (simp add: output_wires_of_def)
  qed
  then obtain h where "H \<lparr> cx_recipient = tp_ext_recipient p, cx_ext_amount = tp_ext_amount p,
      cx_encrypted_output0 = ow_encrypted (ows ! 0), cx_encrypted_output1 = ow_encrypted (ows ! 1) \<rparr> = Some h"
    using S by (fastforce simp: services_ok_def)
  moreover have "length ?sk = 32" "2 * fc_tree_depth p < 2 ^ 32" using K P by (simp_all add: keys_typed_def params_ok_def)
  ultimately show ?thesis using g ins outs paths keys ows by (simp add: flow_transact_eq Let_def)
qed

lemma flow_transact_params_ok:
  assumes "crypto_env_ok E" and "flow_transact E R H p n = Inr (ta, k)"
  shows "params_ok p"
proof -
  obtain ins outs where "slots_of p ins outs"
    using flow_transact_Inr(3) [OF assms] by (auto simp: built_def)
  then show ?thesis
    using flow_transact_Inr(1,2) [OF assms] by (auto simp: params_ok_def slots_of_def)
qed

section \<open>Withdrawals\<close>

lemma flow_withdraw_eq:
  assumes "note_value tot = inputs_total (wp_inputs p)" and "0 \<le> ext_value (wp_amount p)"
    and "int (inputs_total (wp_inputs p)) = ext_value (wp_amount p) + int (note_value change)"
    and "ext_value e = - ext_value (wp_amount p)"
  shows "flow_withdraw E R H p =
    flow_bind (withdraw_outputs E R change (wp_outputs p)) (\<lambda>outputs.
    flow_transact E R H (flow_common.extend (flow_common.truncate p)
      \<lparr> tp_ext_recipient = wp_recipient p, tp_ext_amount = e, tp_inputs = wp_inputs p,
        tp_outputs = outputs \<rparr>))"
proof -
  have "nat (ext_value (wp_amount p)) < 2 ^ 128" using ext_value_bounds(2) [of "wp_amount p"] by simp
  then obtain a where a: "int (note_value a) = ext_value (wp_amount p)"
    using note_of_value assms(2) by (metis int_nat_eq)
  then have "note_try_from_ext (wp_amount p) = Inr a" by (simp add: note_try_from_ext_iff)
  moreover have "note_value tot = note_value a + note_value change" using assms(1,3) a by linarith
  then have "note_checked_sub tot a = Some change" "\<not> tot < a"
    by (simp_all add: note_checked_sub_iff note_less_iff)
  moreover have "ext_checked_neg (wp_amount p) = Some e" using assms(4) by (simp add: ext_checked_neg_iff)
  moreover have "sum_note_amounts_inputs (wp_inputs p) = Inr tot" using assms(1) by (simp add: sum_inputs_iff)
  ultimately show ?thesis by (simp add: flow_withdraw_def)
qed

lemma flow_withdraw_Inr:
  assumes "flow_withdraw E R H p n = Inr (ta, k)"
  shows "0 \<le> ext_value (wp_amount p)"
    and "ext_value (wp_amount p) \<le> int (inputs_total (wp_inputs p))"
    and "inputs_total (wp_inputs p) < 2 ^ 128"
proof -
  obtain tot a where t: "note_value tot = inputs_total (wp_inputs p)"
    and a: "ext_value (wp_amount p) = int (note_value a)" and le: "\<not> tot < a"
    using assms unfolding flow_withdraw_def flow_simps
    by (auto simp: outcome_simps sum_inputs_iff note_try_from_ext_iff simp del: of_nat_unat)
  show "0 \<le> ext_value (wp_amount p)" using a by simp
  show "ext_value (wp_amount p) \<le> int (inputs_total (wp_inputs p))"
    using le t unfolding a note_less_iff by linarith
  show "inputs_total (wp_inputs p) < 2 ^ 128" using t note_value_less [of tot] by simp
qed

section \<open>Bulk withdrawals\<close>

definition payout :: "bulk_withdraw_recipient \<Rightarrow> nat" where
  "payout r = nat (ext_value (bw_amount r))"

abbreviation payouts :: "bulk_withdraw_recipient list \<Rightarrow> nat" where
  "payouts rs \<equiv> (\<Sum>r\<leftarrow>rs. payout r)"

lemma note_of_payout:
  assumes "0 \<le> ext_value (bw_amount r)"
  obtains a where "note_try_from_ext (bw_amount r) = Inr a" and "note_value a = payout r"
proof -
  have "payout r < 2 ^ 128" using ext_value_bounds(2) [of "bw_amount r"] by (simp add: payout_def)
  then obtain a where a: "note_value a = payout r" using note_of_value by blast
  then have "ext_value (bw_amount r) = int (note_value a)" using assms by (simp only: payout_def int_nat_eq if_True)
  then show ?thesis using that a note_try_from_ext_iff by blast
qed

lemma bulk_check_loop_Inr:
  assumes "bulk_check_loop i running rs = Inr r"
  shows "list_all (\<lambda>x. 0 \<le> ext_value (bw_amount x)) rs \<and> note_value running = note_value r + payouts rs"
  using assms
proof (induction rs arbitrary: i running)
  case (Cons x rs)
  then obtain a running' where a: "ext_value (bw_amount x) = int (note_value a)"
    and sub: "note_value running = note_value a + note_value running'"
    and rest: "bulk_check_loop (Suc i) running' rs = Inr r"
    by (auto simp: outcome_simps note_try_from_ext_iff note_checked_sub_iff simp del: of_nat_unat)
  from a have "payout x = note_value a" "0 \<le> ext_value (bw_amount x)" by (simp_all add: payout_def del: of_nat_unat)
  then show ?case using Cons.IH [OF rest] sub by simp
qed simp

text \<open>What holds of a session in every state: \<open>initial\<close> and \<open>b0\<close> are those of the note it started from.\<close>

definition bulk_inv :: "nat \<Rightarrow> field \<Rightarrow> bulk_withdraw_session \<Rightarrow> bool" where
  "bulk_inv initial b0 s \<longleftrightarrow>
    bs_current_step s \<le> length (bs_recipients s) \<and>
    length (bs_change_blindings s) = length (bs_recipients s) \<and>
    list_all field_canonical (bs_change_blindings s) \<and>
    list_all (\<lambda>x. 0 \<le> ext_value (bw_amount x)) (bs_recipients s) \<and>
    payouts (bs_recipients s) \<le> initial \<and>
    note_value (bs_note_amount s) + payouts (take (bs_current_step s) (bs_recipients s)) = initial \<and>
    bs_note_blinding s = (b0 # bs_change_blindings s) ! bs_current_step s"

lemma bulk_new_inv:
  assumes "crypto_env_ok E"
    and "bulk_new E R sk ek b0 amount rs mp np td sd n = Inr (s, k)"
  shows "bulk_inv (note_value amount) b0 s" and "bs_current_step s = 0" and "bs_recipients s = rs" and "rs \<noteq> []"
    and "bs_priv_key s = sk" and "bs_encryption_pubkey s = ek" and "bs_membership_proof s = mp"
    and "bs_non_membership_proof s = np" and "bs_tree_depth s = td" and "bs_smt_depth s = sd"
proof -
  obtain r bl where ne: "rs \<noteq> []" and check: "bulk_check_loop 0 amount rs = Inr r"
    and bl: "flow_map (\<lambda>_. flow_random_blinding E R) rs n = Inr (bl, k)"
    and s: "s = \<lparr> bs_priv_key = sk, bs_encryption_pubkey = ek, bs_membership_proof = mp,
        bs_non_membership_proof = np, bs_tree_depth = td, bs_smt_depth = sd, bs_recipients = rs,
        bs_change_blindings = bl, bs_current_step = 0, bs_note_blinding = b0, bs_note_amount = amount \<rparr>"
    using assms(2) unfolding bulk_new_def flow_simps by (auto simp: outcome_simps)
  have len: "length bl = length rs" using flow_map_Inr_length [OF bl] .
  have "field_canonical (bl ! i)" if "i < length rs" for i
    using flow_map_nth [OF bl that] flow_random_blinding_Inr(1) [OF assms(1)] by blast
  then have "list_all field_canonical bl" using len by (auto simp: list_all_length)
  then show "bulk_inv (note_value amount) b0 s"
    using bulk_check_loop_Inr [OF check] len by (simp add: bulk_inv_def s)
  show "bs_current_step s = 0" and "bs_recipients s = rs" and "rs \<noteq> []"
    and "bs_priv_key s = sk" and "bs_encryption_pubkey s = ek" and "bs_membership_proof s = mp"
    and "bs_non_membership_proof s = np" and "bs_tree_depth s = td" and "bs_smt_depth s = sd"
    using ne by (simp_all add: s)
qed

text \<open>The change that the current step leaves.\<close>

lemma bulk_change:
  assumes "bulk_inv initial b0 s" and "bs_current_step s < length (bs_recipients s)"
  obtains a change where "note_try_from_ext (bw_amount (bs_recipients s ! bs_current_step s)) = Inr a"
    and "note_value a = payout (bs_recipients s ! bs_current_step s)"
    and "note_checked_sub (bs_note_amount s) a = Some change"
    and "note_value change + payouts (take (Suc (bs_current_step s)) (bs_recipients s)) = initial"
proof -
  let ?i = "bs_current_step s" and ?rs = "bs_recipients s"
  have nonneg: "0 \<le> ext_value (bw_amount (?rs ! ?i))"
    using assms by (simp add: bulk_inv_def list_all_length)
  obtain a where a: "note_try_from_ext (bw_amount (?rs ! ?i)) = Inr a" "note_value a = payout (?rs ! ?i)"
    using note_of_payout [OF nonneg] .
  have next_sum: "payouts (take (Suc ?i) ?rs) = payouts (take ?i ?rs) + payout (?rs ! ?i)"
    using assms(2) by (simp add: take_Suc_conv_app_nth)
  have "payouts (take (Suc ?i) ?rs) + payouts (drop (Suc ?i) ?rs) = payouts ?rs"
    by (metis append_take_drop_id map_append sum_list_append)
  then have "payouts (take (Suc ?i) ?rs) \<le> initial" using assms(1) by (simp add: bulk_inv_def)
  then have "payout (?rs ! ?i) \<le> note_value (bs_note_amount s)"
    using next_sum assms(1) by (simp add: bulk_inv_def)
  then obtain change where c: "note_checked_sub (bs_note_amount s) a = Some change"
    using a(2) note_checked_sub_None [of "bs_note_amount s" a] by (cases "note_checked_sub (bs_note_amount s) a") auto
  then have "note_value (bs_note_amount s) = note_value a + note_value change" by (simp add: note_checked_sub_iff)
  then have "note_value change + payouts (take (Suc ?i) ?rs) = initial"
    using a(2) next_sum assms(1) by (simp add: bulk_inv_def)
  with a c show ?thesis using that by blast
qed

lemma advance_step:
  assumes "bulk_inv initial b0 s" and "bs_current_step s < length (bs_recipients s)"
    and "length (bs_recipients s) < 2 ^ 32"
  shows "\<exists>change. note_value change + payouts (take (Suc (bs_current_step s)) (bs_recipients s)) = initial \<and>
    advance s = Inr (s\<lparr> bs_note_blinding := bs_change_blindings s ! bs_current_step s,
      bs_note_amount := change, bs_current_step := Suc (bs_current_step s) \<rparr>) \<and>
    bulk_inv initial b0 (s\<lparr> bs_note_blinding := bs_change_blindings s ! bs_current_step s,
      bs_note_amount := change, bs_current_step := Suc (bs_current_step s) \<rparr>)"
proof -
  obtain a change where a: "note_try_from_ext (bw_amount (bs_recipients s ! bs_current_step s)) = Inr a"
    and c: "note_checked_sub (bs_note_amount s) a = Some change"
    and sum: "note_value change + payouts (take (Suc (bs_current_step s)) (bs_recipients s)) = initial"
    using bulk_change [OF assms(1,2)] by metis
  have len: "length (bs_change_blindings s) = length (bs_recipients s)" using assms(1) by (simp add: bulk_inv_def)
  have "min (bs_current_step s + 1) (2 ^ 32 - 1) = Suc (bs_current_step s)" using assms(2,3) by simp
  then show ?thesis
    using assms(1,2) a c sum len
    by (intro exI [of _ change])
      (simp add: advance_def bulk_is_done_def index_or_panic_def or_panic_def bulk_inv_def Let_def)
qed

fun advance_times :: "nat \<Rightarrow> bulk_withdraw_session \<Rightarrow> (flow_error, bulk_withdraw_session) outcome" where
  "advance_times 0 s = Inr s"
| "advance_times (Suc j) s = let_ok (advance_times j s) advance"

text \<open>The parts of a session that never change.\<close>

definition same_session :: "bulk_withdraw_session \<Rightarrow> bulk_withdraw_session \<Rightarrow> bool" where
  "same_session s t \<longleftrightarrow> bs_priv_key t = bs_priv_key s \<and> bs_encryption_pubkey t = bs_encryption_pubkey s \<and>
    bs_membership_proof t = bs_membership_proof s \<and> bs_non_membership_proof t = bs_non_membership_proof s \<and>
    bs_tree_depth t = bs_tree_depth s \<and> bs_smt_depth t = bs_smt_depth s \<and>
    bs_recipients t = bs_recipients s \<and> bs_change_blindings t = bs_change_blindings s"

lemma advance_times_inv:
  assumes "bulk_inv initial b0 s" and "bs_current_step s = 0" and "length (bs_recipients s) < 2 ^ 32"
    and "j \<le> length (bs_recipients s)"
  shows "\<exists>t. advance_times j s = Inr t \<and> bulk_inv initial b0 t \<and> bs_current_step t = j \<and> same_session s t"
  using assms(4)
proof (induction j)
  case 0
  then show ?case using assms by (simp add: same_session_def)
next
  case (Suc j)
  then obtain t where t: "advance_times j s = Inr t" "bulk_inv initial b0 t" "bs_current_step t = j"
    "same_session s t" by auto
  then have len: "bs_current_step t < length (bs_recipients t)" "length (bs_recipients t) < 2 ^ 32"
    using Suc.prems assms(3) by (simp_all add: same_session_def)
  then show ?case using advance_step [OF t(2) len] t by (auto simp: same_session_def)
qed

text \<open>The shape of the proofs that a session and its caller supply.\<close>

definition bulk_shape :: "bulk_withdraw_session \<Rightarrow> step_merkle_witness \<Rightarrow> bool" where
  "bulk_shape s w \<longleftrightarrow> 0 < bs_tree_depth s \<and> 2 * bs_tree_depth s < 2 ^ 32 \<and> 0 < bs_smt_depth s \<and>
    length (mp_path_elements (bs_membership_proof s)) = bs_tree_depth s \<and>
    length (np_siblings (bs_non_membership_proof s)) = bs_smt_depth s \<and>
    length (sw_path_elements w) = bs_tree_depth s \<and>
    length (private_bytes (bs_priv_key s)) = 32 \<and> length (encryption_bytes (bs_encryption_pubkey s)) = 32"

lemma built_commitment:
  assumes "built E R H p ins outs ta" and "i < length (tp_outputs p)"
  shows "pt_output_commitments (ta_prepared ta) ! i =
    Field (word_of_int (slot_commitment (private_bytes (fc_priv_key p)) (tp_outputs p ! i)))"
  using assms by (auto simp: built_def slots_of_def prepared_of_def Let_def nth_append)

lemma built_nullifier:
  assumes "built E R H p ins outs ta" and "i < length (tp_inputs p)"
  shows "pt_input_nullifiers (ta_prepared ta) ! i =
    Field (word_of_int (slot_nullifier (private_bytes (fc_priv_key p)) (tp_inputs p ! i)))"
  using assms by (auto simp: built_def slots_of_def prepared_of_def Let_def nth_append)

lemma bulk_step_withdraws:
  assumes S: "services_ok E R H" and I: "bulk_inv initial b0 s" and W: "bulk_shape s w"
    and step: "bs_current_step s < length (bs_recipients s)"
    and adv: "advance s = Inr s'"
  shows "\<exists>wp k ta k'. build_step E R w s n = Inr (wp, k) \<and> flow_withdraw E R H wp k = Inr (ta, k') \<and>
    cx_recipient (ta_ext_data ta) = bw_address (bs_recipients s ! bs_current_step s) \<and>
    ext_value (cx_ext_amount (ta_ext_data ta)) = - int (payout (bs_recipients s ! bs_current_step s)) \<and>
    pt_output_commitments (ta_prepared ta) ! 0 = Field (word_of_int (note_commitment (bs_note_amount s')
      (sender_key (private_bytes (bs_priv_key s))) (bs_note_blinding s')))"
proof -
  let ?r = "bs_recipients s ! bs_current_step s"
  have E: "crypto_env_ok E" and R: "random_total R" using S by (simp_all add: services_ok_def)
  obtain a change where a: "note_try_from_ext (bw_amount ?r) = Inr a" "note_value a = payout ?r"
    and c: "note_checked_sub (bs_note_amount s) a = Some change"
    using bulk_change [OF I step] by metis
  have len: "length (bs_change_blindings s) = length (bs_recipients s)" using I by (simp add: bulk_inv_def)
  have s': "bs_note_amount s' = change" "bs_note_blinding s' = bs_change_blindings s ! bs_current_step s"
    using adv a(1) c step len
    by (auto simp: advance_def bulk_is_done_def index_or_panic_def or_panic_def Let_def)
  obtain b where b: "flow_random_blinding E R n = Inr (b, Suc n)" using flow_random_blinding_total [OF E R] by blast
  define wp where "wp = \<lparr> fc_priv_key = bs_priv_key s, fc_encryption_pubkey = bs_encryption_pubkey s,
        fc_pool_root = sw_pool_root w, fc_membership_proof = bs_membership_proof s,
        fc_non_membership_proof = bs_non_membership_proof s, fc_tree_depth = bs_tree_depth s,
        fc_smt_depth = bs_smt_depth s, wp_recipient = bw_address ?r, wp_amount = bw_amount ?r,
        wp_inputs = [\<lparr> in_amount = bs_note_amount s, in_blinding = bs_note_blinding s,
          in_path_elements = sw_path_elements w, in_path_indices = sw_path_indices w \<rparr>],
        wp_outputs = Some [self_output change (bs_change_blindings s ! bs_current_step s),
          self_output NOTE_ZERO b] \<rparr>"
  have wp: "build_step E R w s n = Inr (wp, Suc n)"
    using step a(1) c b len
    by (simp add: build_step_def bulk_is_done_def index_or_panic_def Let_def wp_def)
  have amount: "ext_value (wp_amount wp) = int (note_value a)"
    using a(1) by (simp add: wp_def note_try_from_ext_iff)
  have sub: "note_value (bs_note_amount s) = note_value a + note_value change"
    using c by (simp add: note_checked_sub_iff)
  have "- (2 ^ 127) \<le> - ext_value (wp_amount wp)" "- ext_value (wp_amount wp) < 2 ^ 127"
    using ext_value_bounds [of "wp_amount wp"] unfolding amount by linarith+
  then obtain e where e: "ext_value e = - ext_value (wp_amount wp)" using ext_of_value by blast
  define p where "p = flow_common.extend (flow_common.truncate wp)
      \<lparr> tp_ext_recipient = wp_recipient wp, tp_ext_amount = e, tp_inputs = wp_inputs wp,
        tp_outputs = the (wp_outputs wp) \<rparr>"
  have run: "flow_withdraw E R H wp = flow_transact E R H p"
    unfolding p_def
    by (subst flow_withdraw_eq [where tot = "bs_note_amount s" and change = change and e = e])
      (use e amount sub in \<open>simp_all add: wp_def withdraw_outputs_def flow_bind_def flow_return_def\<close>)
  have "params_ok p"
    using W e amount sub note_value_less [of "bs_note_amount s"] note_value_less [of change]
      ext_value_bounds [of "wp_amount wp"]
    by (simp add: params_ok_def guards_ok_def p_def wp_def bulk_shape_def self_output_def
        flow_common.defs)
  moreover have "keys_typed p (tp_outputs p)"
    using W by (simp add: keys_typed_def p_def wp_def bulk_shape_def self_output_def output_keys_typed_def flow_common.defs)
  ultimately obtain ta k' where ta: "flow_transact E R H p (Suc n) = Inr (ta, k')"
    using flow_transact_total [OF S] by blast
  obtain ins outs where built: "built E R H p ins outs ta" using flow_transact_Inr(3) [OF E ta] by blast
  have "pt_output_commitments (ta_prepared ta) ! 0 = Field (word_of_int (note_commitment (bs_note_amount s')
      (sender_key (private_bytes (bs_priv_key s))) (bs_note_blinding s')))"
    using built_commitment [OF built, of 0]
    by (simp add: p_def wp_def s' slot_commitment_def recipient_note_key_def self_output_def flow_common.defs)
  moreover have "cx_recipient (ta_ext_data ta) = bw_address ?r"
    "ext_value (cx_ext_amount (ta_ext_data ta)) = - int (payout ?r)"
    using built e amount a(2) by (simp_all add: built_def p_def wp_def flow_common.defs)
  ultimately show ?thesis using wp ta run by auto
qed

end
