(* ===== verification/Soroban_Encode.thy ===== *)
theory Soroban_Encode
  imports Flows "HOL-Library.List_Lexorder" "HOL-Library.Char_ord"
begin

text \<open>
  The encoding of contract calls by the client (\<open>app/crates/core/stellar/src/conversions.rs\<close>,
  \<open>soroban_encode.rs\<close>, \<open>ext_data_hash.rs\<close>) into the values \<open>ScVal\<close> of Stellar's XDR. The XDR serialiser,
  Keccak-256 and the text form of addresses are other crates and the fields of \<open>stellar_env\<close>. A key or
  text is a string of bytes; keys are compared byte by byte.
\<close>

section \<open>Values\<close>

type_synonym u64 = "64 word"
type_synonym i64 = "64 word"

text \<open>The variants of \<open>ScVal\<close> and \<open>ScAddress\<close> that the source uses; \<open>ScOther\<close> and \<open>OtherAddress\<close> are all others.\<close>

datatype sc_address = AccountAddress bytes | ContractAddress bytes | OtherAddress bytes

datatype sc_val =
    ScBool bool
  | ScVoid
  | ScU32 nat
  | ScU64 nat
  | ScU256 u64 u64 u64 u64
  | ScI256 i64 u64 u64 u64
  | ScBytes bytes
  | ScSymbol string
  | ScVec "sc_val list option"
  | ScMap "(sc_val \<times> sc_val) list option"
  | ScAddress sc_address
  | ScOther bytes

record stellar_env =
  parse_address :: "string \<Rightarrow> sc_address option"
  account_to_string :: "bytes \<Rightarrow> string"
  contract_to_string :: "bytes \<Rightarrow> string"
  to_xdr :: "sc_val \<Rightarrow> bytes option"
  from_xdr_base64 :: "string \<Rightarrow> sc_val option"
  keccak256 :: "bytes \<Rightarrow> bytes"

datatype encode_error =
    UnexpectedScVal
  | BytesTooLong
  | InvalidMapKey
  | TooManyEntries
  | InvalidAddress
  | ProofNot256Bytes nat
  | XdrFailed
  | NoTopic
  | InvalidUtf8

section \<open>Conversions\<close>

definition u64_from_be_bytes :: "bytes \<Rightarrow> u64" where
  "u64_from_be_bytes bs = of_nat (nat_of_be_bytes bs)"

definition scval_to_address_string :: "stellar_env \<Rightarrow> sc_val \<Rightarrow> encode_error + string" where
  "scval_to_address_string S v =
    (case v of
       ScAddress (AccountAddress bs) \<Rightarrow> Inr (account_to_string S bs)
     | ScAddress (ContractAddress bs) \<Rightarrow> Inr (contract_to_string S bs)
     | _ \<Rightarrow> Inl UnexpectedScVal)"

definition scval_to_bytes :: "sc_val \<Rightarrow> encode_error + bytes" where
  "scval_to_bytes v = (case v of ScBytes bs \<Rightarrow> Inr bs | _ \<Rightarrow> Inl UnexpectedScVal)"

definition field_to_scval_u256 :: "field \<Rightarrow> sc_val" where
  "field_to_scval_u256 f =
    (let be = field_to_be_bytes f in
     ScU256 (u64_from_be_bytes (take 8 be)) (u64_from_be_bytes (take 8 (drop 8 be)))
       (u64_from_be_bytes (take 8 (drop 16 be))) (u64_from_be_bytes (take 8 (drop 24 be))))"

definition i128_to_be_bytes :: "i128 \<Rightarrow> bytes" where
  "i128_to_be_bytes n = be_bytes_of_nat 16 (unat n)"

definition i64_to_be_bytes :: "i64 \<Rightarrow> bytes" where
  "i64_to_be_bytes n = be_bytes_of_nat 8 (unat n)"

definition i128_to_i256_scval :: "i128 \<Rightarrow> sc_val" where
  "i128_to_i256_scval n =
    (let hi = (if sint n < 0 then - 1 else 0);
         hi_lo = u64_from_be_bytes (i64_to_be_bytes hi);
         bs = i128_to_be_bytes n in
     ScI256 hi hi_lo (u64_from_be_bytes (take 8 bs)) (u64_from_be_bytes (drop 8 bs)))"

text \<open>Byte strings and lists of XDR have at most \<open>u32::MAX\<close> elements.\<close>

definition bytes_to_scval :: "bytes \<Rightarrow> encode_error + sc_val" where
  "bytes_to_scval bs = (if length bs < 2 ^ 32 then Inr (ScBytes bs) else Inl BytesTooLong)"

definition scval_to_u256 :: "sc_val \<Rightarrow> encode_error + u256" where
  "scval_to_u256 v =
    (case v of
       ScU256 p_hi_hi p_hi_lo p_lo_hi p_lo_lo \<Rightarrow>
         let hi_hi = ucast p_hi_hi; hi_lo = ucast p_hi_lo; lo_hi = ucast p_lo_hi; lo_lo = ucast p_lo_lo;
             out = push_bit 192 hi_hi in
         let_ok (ok_or (checked_add out (push_bit 128 hi_lo)) UnexpectedScVal) (\<lambda>out.
         let_ok (ok_or (checked_add out (push_bit 64 lo_hi)) UnexpectedScVal) (\<lambda>out.
         ok_or (checked_add out lo_lo) UnexpectedScVal))
     | _ \<Rightarrow> Inl UnexpectedScVal)"

definition scval_to_u32 :: "sc_val \<Rightarrow> encode_error + nat" where
  "scval_to_u32 v = (case v of ScU32 n \<Rightarrow> Inr n | _ \<Rightarrow> Inl UnexpectedScVal)"

definition scval_to_u64 :: "sc_val \<Rightarrow> encode_error + nat" where
  "scval_to_u64 v = (case v of ScU64 n \<Rightarrow> Inr n | _ \<Rightarrow> Inl UnexpectedScVal)"

definition scval_to_bool :: "sc_val \<Rightarrow> encode_error + bool" where
  "scval_to_bool v = (case v of ScBool b \<Rightarrow> Inr b | _ \<Rightarrow> Inl UnexpectedScVal)"

section \<open>Maps\<close>

definition map_entry :: "string \<Rightarrow> sc_val \<Rightarrow> encode_error + (sc_val \<times> sc_val)" where
  "map_entry key v = (if length key \<le> 32 then Inr (ScSymbol key, v) else Inl InvalidMapKey)"

text \<open>The comparison of two entries: their keys, or equal when a key is not a symbol.\<close>

definition entry_greater :: "sc_val \<times> sc_val \<Rightarrow> sc_val \<times> sc_val \<Rightarrow> bool" where
  "entry_greater a b =
    (case (fst a, fst b) of (ScSymbol ka, ScSymbol kb) \<Rightarrow> ka > kb | _ \<Rightarrow> False)"

text \<open>\<open>sort_by\<close>, the stable sort of the standard library, by insertion from the right.\<close>

fun insert_entry :: "sc_val \<times> sc_val \<Rightarrow> (sc_val \<times> sc_val) list \<Rightarrow> (sc_val \<times> sc_val) list" where
  "insert_entry e [] = [e]"
| "insert_entry e (x # xs) = (if entry_greater e x then x # insert_entry e xs else e # x # xs)"

definition sort_entries :: "(sc_val \<times> sc_val) list \<Rightarrow> (sc_val \<times> sc_val) list" where
  "sort_entries es = foldr insert_entry es []"

definition sorted_map :: "(sc_val \<times> sc_val) list \<Rightarrow> encode_error + sc_val" where
  "sorted_map entries =
    (if length entries < 2 ^ 32 then Inr (ScMap (Some (sort_entries entries))) else Inl TooManyEntries)"

section \<open>Calls of the contracts\<close>

definition BASE_FEE :: nat where
  "BASE_FEE = 100"

definition groth16_proof_to_scval :: "bytes \<Rightarrow> encode_error + sc_val" where
  "groth16_proof_to_scval proof_uncompressed =
    (if length proof_uncompressed \<noteq> 256 then Inl (ProofNot256Bytes (length proof_uncompressed))
     else
       let_ok (bytes_to_scval (take 64 proof_uncompressed)) (\<lambda>a.
       let_ok (map_entry ''a'' a) (\<lambda>ea.
       let_ok (bytes_to_scval (take 128 (drop 64 proof_uncompressed))) (\<lambda>b.
       let_ok (map_entry ''b'' b) (\<lambda>eb.
       let_ok (bytes_to_scval (take 64 (drop 192 proof_uncompressed))) (\<lambda>c.
       let_ok (map_entry ''c'' c) (\<lambda>ec.
       sorted_map [ea, eb, ec])))))))"

definition pool_proof_to_scval ::
  "bytes \<Rightarrow> field \<Rightarrow> field list \<Rightarrow> field \<Rightarrow> field \<Rightarrow> field \<Rightarrow> bytes \<Rightarrow> field \<Rightarrow> field \<Rightarrow> encode_error + sc_val" where
  "pool_proof_to_scval proof_uncompressed root input_nullifiers output_commitment0 output_commitment1
     public_amount ext_data_hash_be asp_membership_root asp_non_membership_root =
    let_ok (require (length input_nullifiers < 2 ^ 32) TooManyEntries) (\<lambda>_.
    let nullifiers = map field_to_scval_u256 input_nullifiers in
    let_ok (map_entry ''asp_membership_root'' (field_to_scval_u256 asp_membership_root)) (\<lambda>e1.
    let_ok (map_entry ''asp_non_membership_root'' (field_to_scval_u256 asp_non_membership_root)) (\<lambda>e2.
    let_ok (bytes_to_scval ext_data_hash_be) (\<lambda>hash_val.
    let_ok (map_entry ''ext_data_hash'' hash_val) (\<lambda>e3.
    let_ok (map_entry ''input_nullifiers'' (ScVec (Some nullifiers))) (\<lambda>e4.
    let_ok (map_entry ''output_commitment0'' (field_to_scval_u256 output_commitment0)) (\<lambda>e5.
    let_ok (map_entry ''output_commitment1'' (field_to_scval_u256 output_commitment1)) (\<lambda>e6.
    let_ok (groth16_proof_to_scval proof_uncompressed) (\<lambda>proof_val.
    let_ok (map_entry ''proof'' proof_val) (\<lambda>e7.
    let_ok (map_entry ''public_amount'' (field_to_scval_u256 public_amount)) (\<lambda>e8.
    let_ok (map_entry ''root'' (field_to_scval_u256 root)) (\<lambda>e9.
    sorted_map [e1, e2, e3, e4, e5, e6, e7, e8, e9]))))))))))))"

definition pool_ext_data_to_scval :: "stellar_env \<Rightarrow> client_ext_data \<Rightarrow> encode_error + sc_val" where
  "pool_ext_data_to_scval S ext =
    let_ok (bytes_to_scval (cx_encrypted_output0 ext)) (\<lambda>v0.
    let_ok (map_entry ''encrypted_output0'' v0) (\<lambda>e0.
    let_ok (bytes_to_scval (cx_encrypted_output1 ext)) (\<lambda>v1.
    let_ok (map_entry ''encrypted_output1'' v1) (\<lambda>e1.
    let_ok (map_entry ''ext_amount'' (i128_to_i256_scval (ext_i128 (cx_ext_amount ext)))) (\<lambda>e2.
    let_ok (ok_or (parse_address S (cx_recipient ext)) InvalidAddress) (\<lambda>addr.
    let_ok (map_entry ''recipient'' (ScAddress addr)) (\<lambda>e3.
    sorted_map [e0, e1, e2, e3])))))))"

definition register_account_to_scval ::
  "stellar_env \<Rightarrow> string \<Rightarrow> bytes \<Rightarrow> bytes \<Rightarrow> encode_error + sc_val" where
  "register_account_to_scval S owner encryption_key note_key =
    let_ok (bytes_to_scval encryption_key) (\<lambda>v0.
    let_ok (map_entry ''encryption_key'' v0) (\<lambda>e0.
    let_ok (bytes_to_scval note_key) (\<lambda>v1.
    let_ok (map_entry ''note_key'' v1) (\<lambda>e1.
    let_ok (ok_or (parse_address S owner) InvalidAddress) (\<lambda>addr.
    let_ok (map_entry ''owner'' (ScAddress addr)) (\<lambda>e2.
    sorted_map [e0, e1, e2]))))))"

section \<open>The hash of the external data\<close>

text \<open>The entries are sorted by their text keys before the symbols are made.\<close>

fun insert_pair :: "string \<times> sc_val \<Rightarrow> (string \<times> sc_val) list \<Rightarrow> (string \<times> sc_val) list" where
  "insert_pair e [] = [e]"
| "insert_pair e (x # xs) = (if fst e > fst x then x # insert_pair e xs else e # x # xs)"

definition hash_ext_data_offchain :: "stellar_env \<Rightarrow> client_ext_data \<Rightarrow> encode_error + bytes" where
  "hash_ext_data_offchain S ext =
    let_ok (bytes_to_scval (cx_encrypted_output0 ext)) (\<lambda>v0.
    let_ok (bytes_to_scval (cx_encrypted_output1 ext)) (\<lambda>v1.
    let_ok (ok_or (parse_address S (cx_recipient ext)) InvalidAddress) (\<lambda>addr.
    let entries = [(''encrypted_output0'', v0), (''encrypted_output1'', v1),
          (''ext_amount'', i128_to_i256_scval (ext_i128 (cx_ext_amount ext))),
          (''recipient'', ScAddress addr)];
        sorted_entries = foldr insert_pair entries [] in
    let_ok (map_ok (\<lambda>(k, v). map_entry k v) sorted_entries) (\<lambda>map_entries.
    let_ok (require (length map_entries < 2 ^ 32) TooManyEntries) (\<lambda>_.
    let_ok (ok_or (to_xdr S (ScMap (Some map_entries))) XdrFailed) (\<lambda>payload.
    let digest_u256 = u256_from_be_bytes (keccak256 S payload);
        modulus = u256_from_be_bytes BN254_MODULUS_BE;
        reduced = digest_u256 mod modulus in
    Inr (u256_to_be_bytes reduced)))))))"

section \<open>Events\<close>

record contract_event =
  ce_id :: string
  ce_ledger :: nat
  ce_contract_id :: string
  ce_topics :: "string list"
  ce_value :: string

record parsed_contract_event =
  pe_id :: string
  pe_ledger :: nat
  pe_contract_id :: string
  pe_name :: string
  pe_topics :: "sc_val list"
  pe_values :: "string \<rightharpoonup> sc_val"

text \<open>\<open>ScSymbol::to_utf8_string\<close>.\<close>

definition symbol_to_string :: "sc_val \<Rightarrow> encode_error + string" where
  "symbol_to_string v =
    (case v of ScSymbol s \<Rightarrow> ok_or (from_utf8 s) InvalidUtf8 | _ \<Rightarrow> Inl UnexpectedScVal)"

fun event_fields :: "(sc_val \<times> sc_val) list \<Rightarrow> (string \<rightharpoonup> sc_val) \<Rightarrow> encode_error + (string \<rightharpoonup> sc_val)" where
  "event_fields [] values = Inr values"
| "event_fields ((key, v) # es) values =
     let_ok (symbol_to_string key) (\<lambda>field_name. event_fields es (values(field_name \<mapsto> v)))"

definition parse_event_metadata :: "stellar_env \<Rightarrow> contract_event \<Rightarrow> encode_error + parsed_contract_event" where
  "parse_event_metadata S event =
    (case ce_topics event of
       [] \<Rightarrow> Inl NoTopic
     | first # rest \<Rightarrow>
         let_ok (map_ok (\<lambda>s. ok_or (from_xdr_base64 S s) XdrFailed) rest) (\<lambda>topics.
         let_ok (ok_or (from_xdr_base64 S first) XdrFailed) (\<lambda>first_val.
         let_ok (symbol_to_string first_val) (\<lambda>name.
         let_ok (ok_or (from_xdr_base64 S (ce_value event)) XdrFailed) (\<lambda>data.
         let_ok (case data of
             ScMap (Some entries) \<Rightarrow> event_fields entries Map.empty
           | ScVoid \<Rightarrow> Inr Map.empty
           | _ \<Rightarrow> Inl UnexpectedScVal) (\<lambda>values.
         Inr \<lparr> pe_id = ce_id event, pe_ledger = ce_ledger event, pe_contract_id = ce_contract_id event,
               pe_name = name, pe_topics = topics, pe_values = values \<rparr>))))))"

section \<open>Sorted maps\<close>

lemma char_less_iff: "(c :: char) < d \<longleftrightarrow> (of_char c :: nat) < of_char d"
  by (simp add: less_char_def)

lemma groth16_proof_to_scval_eq:
  assumes "length p = 256"
  shows "groth16_proof_to_scval p = Inr (ScMap (Some [(ScSymbol ''a'', ScBytes (take 64 p)),
    (ScSymbol ''b'', ScBytes (take 128 (drop 64 p))), (ScSymbol ''c'', ScBytes (drop 192 p))]))"
  using assms by (simp add: groth16_proof_to_scval_def bytes_to_scval_def map_entry_def sorted_map_def
      sort_entries_def entry_greater_def char_less_iff)

lemma pool_proof_to_scval_eq:
  assumes "length p = 256" and "length ns < 2 ^ 32" and "length h < 2 ^ 32"
  shows "pool_proof_to_scval p root ns c0 c1 amount h m n = Inr (ScMap (Some
    [(ScSymbol ''asp_membership_root'', field_to_scval_u256 m),
     (ScSymbol ''asp_non_membership_root'', field_to_scval_u256 n),
     (ScSymbol ''ext_data_hash'', ScBytes h),
     (ScSymbol ''input_nullifiers'', ScVec (Some (map field_to_scval_u256 ns))),
     (ScSymbol ''output_commitment0'', field_to_scval_u256 c0),
     (ScSymbol ''output_commitment1'', field_to_scval_u256 c1),
     (ScSymbol ''proof'', projr (groth16_proof_to_scval p)),
     (ScSymbol ''public_amount'', field_to_scval_u256 amount),
     (ScSymbol ''root'', field_to_scval_u256 root)]))"
  using assms by (simp add: pool_proof_to_scval_def groth16_proof_to_scval_eq bytes_to_scval_def map_entry_def
      sorted_map_def sort_entries_def entry_greater_def char_less_iff)

lemma pool_ext_data_to_scval_eq:
  assumes "length (cx_encrypted_output0 ext) < 2 ^ 32" and "length (cx_encrypted_output1 ext) < 2 ^ 32"
  shows "pool_ext_data_to_scval S ext = (case parse_address S (cx_recipient ext) of
      None \<Rightarrow> Inl InvalidAddress
    | Some addr \<Rightarrow> Inr (ScMap (Some
       [(ScSymbol ''encrypted_output0'', ScBytes (cx_encrypted_output0 ext)),
        (ScSymbol ''encrypted_output1'', ScBytes (cx_encrypted_output1 ext)),
        (ScSymbol ''ext_amount'', i128_to_i256_scval (ext_i128 (cx_ext_amount ext))),
        (ScSymbol ''recipient'', ScAddress addr)])))"
  using assms by (simp add: pool_ext_data_to_scval_def bytes_to_scval_def map_entry_def
      sorted_map_def sort_entries_def entry_greater_def char_less_iff split: option.splits)

text \<open>The hash is taken of exactly the value that the transaction carries.\<close>

lemma hash_ext_data_offchain_eq:
  assumes "length (cx_encrypted_output0 ext) < 2 ^ 32" and "length (cx_encrypted_output1 ext) < 2 ^ 32"
  shows "hash_ext_data_offchain S ext =
    let_ok (pool_ext_data_to_scval S ext) (\<lambda>v.
    let_ok (ok_or (to_xdr S v) XdrFailed) (\<lambda>payload.
    Inr (u256_to_be_bytes (u256_from_be_bytes (keccak256 S payload) mod bn256_modulus))))"
proof -
  have "u256_from_be_bytes BN254_MODULUS_BE = bn256_modulus"
    by (simp add: BN254_MODULUS_BE_def bn256_modulus_def BN256_MOD_BYTES_def)
  then show ?thesis
    using assms by (simp add: hash_ext_data_offchain_def pool_ext_data_to_scval_eq bytes_to_scval_def map_entry_def
        char_less_iff Let_def split: option.splits)
qed

section \<open>Limbs\<close>

lemma nat_of_be_bytes_append:
  "nat_of_be_bytes (xs @ ys) = nat_of_be_bytes xs * 256 ^ length ys + nat_of_be_bytes ys"
proof (induction ys rule: rev_induct)
  case (snoc y ys)
  then show ?case by (simp flip: append_assoc add: algebra_simps)
qed simp

lemma unat_u64_from_be: "length bs = 8 \<Longrightarrow> unat (u64_from_be_bytes bs) = nat_of_be_bytes bs"
proof -
  assume "length bs = 8"
  then have "nat_of_be_bytes bs < 2 ^ LENGTH(64)" using nat_of_be_bytes_less [of bs] by simp
  then show ?thesis by (simp add: u64_from_be_bytes_def unat_of_nat)
qed

definition of_limbs :: "u64 \<Rightarrow> u64 \<Rightarrow> u64 \<Rightarrow> u64 \<Rightarrow> nat" where
  "of_limbs a b c d = unat a * 2 ^ 192 + unat b * 2 ^ 128 + unat c * 2 ^ 64 + unat d"

lemma of_limbs_less: "of_limbs a b c d < 2 ^ 256"
proof -
  have "unat a < 2 ^ 64" "unat b < 2 ^ 64" "unat c < 2 ^ 64" "unat d < 2 ^ 64"
    using unsigned_less [of a] unsigned_less [of b] unsigned_less [of c] unsigned_less [of d] by simp_all
  then show ?thesis unfolding of_limbs_def by simp
qed

lemma limbs_of_bytes:
  assumes "length bs = 32"
  shows "of_limbs (u64_from_be_bytes (take 8 bs)) (u64_from_be_bytes (take 8 (drop 8 bs)))
    (u64_from_be_bytes (take 8 (drop 16 bs))) (u64_from_be_bytes (take 8 (drop 24 bs))) = nat_of_be_bytes bs"
proof -
  define a b c d where "a = take 8 bs" and "b = take 8 (drop 8 bs)" and "c = take 8 (drop 16 bs)"
    and "d = take 8 (drop 24 bs)"
  have len: "length a = 8" "length b = 8" "length c = 8" "length d = 8"
    using assms by (simp_all add: a_def b_def c_def d_def)
  have "bs = a @ drop 8 bs" "drop 8 bs = b @ drop 16 bs" "drop 16 bs = c @ drop 24 bs" "drop 24 bs = d"
    using append_take_drop_id [of 8 bs, symmetric] append_take_drop_id [of 8 "drop 8 bs", symmetric]
      append_take_drop_id [of 8 "drop 16 bs", symmetric] assms
    by (simp_all del: append_take_drop_id add: a_def b_def c_def d_def)
  then have bs: "bs = a @ b @ c @ d" by simp
  have "nat_of_be_bytes bs = of_limbs (u64_from_be_bytes a) (u64_from_be_bytes b) (u64_from_be_bytes c) (u64_from_be_bytes d)"
    unfolding bs by (simp add: nat_of_be_bytes_append len unat_u64_from_be of_limbs_def)
  then show ?thesis by (simp add: a_def b_def c_def d_def)
qed

lemma scval_to_u256_limbs: "scval_to_u256 (ScU256 a b c d) = Inr (of_nat (of_limbs a b c d))"
proof -
  have lt: "unat a < 2 ^ 64" "unat b < 2 ^ 64" "unat c < 2 ^ 64" "unat d < 2 ^ 64"
    using unsigned_less [of a] unsigned_less [of b] unsigned_less [of c] unsigned_less [of d] by simp_all
  have shift: "unat (push_bit k (ucast (x :: u64)) :: u256) = unat x * 2 ^ k" if "k \<le> 192" for k x
  proof -
    have x: "unat x < 2 ^ 64" using unsigned_less [of x] by simp
    have "unat x * 2 ^ k < 2 ^ 64 * 2 ^ k" using x by simp
    also have "\<dots> = 2 ^ (64 + k)" by (simp only: power_add)
    also have "\<dots> \<le> (2::nat) ^ 256" using that by (intro power_increasing) simp_all
    finally have "unat x * 2 ^ k < 2 ^ LENGTH(256)" by simp
    moreover have "(push_bit k (ucast x) :: u256) = of_nat (unat x * 2 ^ k)"
      by (simp add: push_bit_eq_mult)
    ultimately show ?thesis by (simp only: unat_of_nat mod_less)
  qed
  have val: "unat (of_nat n :: u256) = n" if "n < 2 ^ 256" for n using that by (simp add: unat_of_nat)
  let ?x = "unat a * 2 ^ 192" and ?y = "unat b * 2 ^ 128" and ?z = "unat c * 2 ^ 64"
  have b1: "?x + ?y + ?z + unat d < 2 ^ 256" using of_limbs_less [of a b c d] by (simp add: of_limbs_def)
  have v: "unat (of_nat (?x + ?y) :: u256) = ?x + ?y" "unat (of_nat (?x + ?y + ?z) :: u256) = ?x + ?y + ?z"
    "unat (of_nat (?x + ?y + ?z + unat d) :: u256) = ?x + ?y + ?z + unat d"
    by (rule val, use b1 in linarith)+
  have d: "unat (ucast d :: u256) = unat d" using shift [of 0 d] by simp
  have "checked_add (push_bit 192 (ucast a) :: u256) (push_bit 128 (ucast b)) = Some (of_nat (?x + ?y))"
    by (simp only: checked_add_Some_iff v shift)
  moreover have "checked_add (of_nat (?x + ?y) :: u256) (push_bit 64 (ucast c)) = Some (of_nat (?x + ?y + ?z))"
    by (simp only: checked_add_Some_iff v shift)
  moreover have "checked_add (of_nat (?x + ?y + ?z) :: u256) (ucast d) = Some (of_nat (?x + ?y + ?z + unat d))"
    by (simp only: checked_add_Some_iff v d)
  ultimately show ?thesis by (simp only: scval_to_u256_def sc_val.case Let_def ok_or_simps let_ok_simps of_limbs_def)
qed

lemma field_scval_roundtrip: "scval_to_u256 (field_to_scval_u256 f) = Inr (field_u256 f)"
proof -
  have "nat_of_be_bytes (field_to_be_bytes f) = unat (field_u256 f)"
    using unat_u256_from_be_bytes [of "u256_to_be_bytes (field_u256 f)"] by (simp add: field_to_be_bytes_def)
  then show ?thesis using limbs_of_bytes [of "field_to_be_bytes f"]
    by (simp add: field_to_scval_u256_def Let_def scval_to_u256_limbs)
qed

text \<open>The layout of a 256-bit integer in two's complement: four limbs, the most significant first.\<close>

definition i256_to_scval :: "i256 \<Rightarrow> sc_val" where
  "i256_to_scval v = ScI256 (of_nat (unat v div 2 ^ 192)) (of_nat (unat v div 2 ^ 128))
    (of_nat (unat v div 2 ^ 64)) (of_nat (unat v))"

lemma limbs_div:
  fixes a b c d :: nat
  assumes "b < 2 ^ 64" and "c < 2 ^ 64" and "d < 2 ^ 64"
  shows "(a * 2 ^ 192 + b * 2 ^ 128 + c * 2 ^ 64 + d) div 2 ^ 192 = a"
    and "(a * 2 ^ 192 + b * 2 ^ 128 + c * 2 ^ 64 + d) div 2 ^ 128 = a * 2 ^ 64 + b"
    and "(a * 2 ^ 192 + b * 2 ^ 128 + c * 2 ^ 64 + d) div 2 ^ 64 = a * 2 ^ 128 + b * 2 ^ 64 + c"
proof -
  have q: "(x * m + y) div m = x" if "y < m" for x y m :: nat using that by simp
  have "b * 2 ^ 128 + c * 2 ^ 64 + d < 2 ^ 192" using assms by simp
  then show "(a * 2 ^ 192 + b * 2 ^ 128 + c * 2 ^ 64 + d) div 2 ^ 192 = a"
    using q [of "b * 2 ^ 128 + c * 2 ^ 64 + d" "2 ^ 192" a] by (simp add: add.assoc)
  have "c * 2 ^ 64 + d < 2 ^ 128" using assms by simp
  then show "(a * 2 ^ 192 + b * 2 ^ 128 + c * 2 ^ 64 + d) div 2 ^ 128 = a * 2 ^ 64 + b"
    using q [of "c * 2 ^ 64 + d" "2 ^ 128" "a * 2 ^ 64 + b"] by (simp add: algebra_simps)
  show "(a * 2 ^ 192 + b * 2 ^ 128 + c * 2 ^ 64 + d) div 2 ^ 64 = a * 2 ^ 128 + b * 2 ^ 64 + c"
    using q [of d "2 ^ 64" "a * 2 ^ 128 + b * 2 ^ 64 + c"] assms(3) by (simp add: algebra_simps)
qed

lemma i256_to_scval_limbs:
  assumes "unat v = of_limbs a b c d"
  shows "i256_to_scval v = ScI256 a b c d"
proof -
  have lt: "unat b < 2 ^ 64" "unat c < 2 ^ 64" "unat d < 2 ^ 64"
    using unsigned_less [of b] unsigned_less [of c] unsigned_less [of d] by simp_all
  have m: "(of_nat (x * 2 ^ 64 + unat y) :: u64) = y" for x and y :: u64
  proof -
    have "unat y < 2 ^ LENGTH(64)" by (rule unsigned_less)
    then have "(x * 2 ^ 64 + unat y) mod 2 ^ LENGTH(64) = unat y" by simp
    then show ?thesis by (simp only: word_unat_eq_iff unat_of_nat)
  qed
  have "unat a * 2 ^ 128 + unat b * 2 ^ 64 + unat c = (unat a * 2 ^ 64 + unat b) * 2 ^ 64 + unat c"
    "of_limbs a b c d = (unat a * 2 ^ 128 + unat b * 2 ^ 64 + unat c) * 2 ^ 64 + unat d"
    by (simp_all add: of_limbs_def)
  then show ?thesis
    unfolding i256_to_scval_def assms using m limbs_div [OF lt, of "unat a"]
    by (simp only: of_limbs_def) simp
qed

lemma i128_to_i256_scval_eq: "i128_to_i256_scval n = i256_to_scval (scast n)"
proof -
  define hi :: i64 where "hi = (if sint n < 0 then - 1 else 0)"
  have hi_bytes: "u64_from_be_bytes (i64_to_be_bytes hi) = hi"
  proof -
    have "unat hi < 2 ^ 64" using unsigned_less [of hi] by simp
    then have "nat_of_be_bytes (i64_to_be_bytes hi) = unat hi" by (simp add: i64_to_be_bytes_def nat_of_be_bytes_of_nat)
    then show ?thesis by (simp add: u64_from_be_bytes_def)
  qed
  have n: "nat_of_be_bytes (i128_to_be_bytes n) = unat n"
  proof -
    have "unat n < 2 ^ LENGTH(128)" by (rule unsigned_less)
    then show ?thesis by (simp add: i128_to_be_bytes_def nat_of_be_bytes_of_nat)
  qed
  let ?a = "take 8 (i128_to_be_bytes n)" and ?b = "drop 8 (i128_to_be_bytes n)"
  have len: "length ?a = 8" "length ?b = 8" by (simp_all add: i128_to_be_bytes_def)
  have split: "unat n = unat (u64_from_be_bytes ?a) * 2 ^ 64 + unat (u64_from_be_bytes ?b)"
    using nat_of_be_bytes_append [of ?a ?b] n len by (simp add: unat_u64_from_be)
  have "unat (scast n :: i256) = of_limbs hi hi (u64_from_be_bytes ?a) (u64_from_be_bytes ?b)"
  proof -
    have bounds: "- (2 ^ 127) \<le> sint n" "sint n < 2 ^ 127"
      using sint_greater_eq [of n] sint_less [of n] by simp_all
    have neg: "x mod m = (if x < 0 then x + m else x)" if "- m \<le> x" "x < m" for x m :: int
    proof (cases "x < 0")
      case True
      then have "(x + m) mod m = x + m" using that by (intro mod_pos_pos_trivial) linarith+
      with True show ?thesis by simp
    qed (use that in \<open>simp add: mod_pos_pos_trivial\<close>)
    have "uint (scast n :: i256) = sint n mod 2 ^ 256" unfolding scast_eq uint_word_of_int by simp
    moreover have "uint n = sint n mod 2 ^ 128" unfolding uint_sint [of n] take_bit_eq_mod by simp
    moreover have "unat hi = (if sint n < 0 then 2 ^ 64 - 1 else 0)" 
    proof -
      have "uint (- 1 :: u64) = 2 ^ 64 - 1" using uint_word_of_int [of "- 1", where 'a = 64] by simp
      then have "unat (- 1 :: u64) = nat (2 ^ 64 - 1)" by (simp only: unat_eq_nat_uint)
      then show ?thesis by (simp add: hi_def)
    qed
    moreover have "sint n mod 2 ^ 256 = (if sint n < 0 then sint n + 2 ^ 256 else sint n)"
      "sint n mod 2 ^ 128 = (if sint n < 0 then sint n + 2 ^ 128 else sint n)"
      using neg [of "2 ^ 256" "sint n"] neg [of "2 ^ 128" "sint n"] bounds by simp_all
    ultimately have "int (unat (scast n :: i256)) = int (of_limbs hi hi (u64_from_be_bytes ?a) (u64_from_be_bytes ?b))"
      using arg_cong [OF split, of int] unfolding of_limbs_def by (cases "sint n < 0") auto
    then show ?thesis by (rule of_nat_eq_iff [THEN iffD1])
  qed
  then show ?thesis
    using i256_to_scval_limbs by (simp add: i128_to_i256_scval_def Let_def hi_bytes flip: hi_def)
qed

end
