(* ===== verification/Event_Parsers.thy ===== *)
theory Event_Parsers
  imports Soroban_Encode
begin

text \<open>
  The parsers of contract events (\<open>app/crates/core/state/src/events_parsers.rs\<close>) over the decoded form of
  \<open>conversions.rs\<close>. The texts of events are decoded by the parameter \<open>from_xdr_base64\<close>.
\<close>

section \<open>Definitions\<close>

datatype parse_error =
    EventEncoding encode_error
  | EventField types_error
  | MissingTopic string
  | MissingValue string
  | KeyLength nat
  | IndexExceedsU32
  | UnhandledEvent string

text \<open>The structs of \<open>types/src/chain_data.rs\<close> with their fields in order; the first is the event id.\<close>

datatype processed_event =
    Nullifier string field
  | Commitment string field nat bytes
  | PublicKey string string encryption_public_key note_public_key
  | LeafAdded string field nat field
  | LeafInserted string field field field
  | LeafUpdated string field field field field
  | LeafDeleted string field field

abbreviation of_encoding :: "encode_error + 'a \<Rightarrow> parse_error + 'a" where
  "of_encoding \<equiv> map_err EventEncoding"

text \<open>\<open>Field::try_from_u256(scval_to_u256(v)?)?\<close>.\<close>

definition scval_to_field :: "sc_val \<Rightarrow> parse_error + field" where
  "scval_to_field v =
    let_ok (of_encoding (scval_to_u256 v)) (\<lambda>u. map_err EventField (field_try_from_u256 u))"

definition first_topic :: "parsed_contract_event \<Rightarrow> parse_error + sc_val" where
  "first_topic parsed = ok_or (vec_get (pe_topics parsed) 0) (MissingTopic (pe_name parsed))"

definition event_value :: "parsed_contract_event \<Rightarrow> string \<Rightarrow> parse_error + sc_val" where
  "event_value parsed name = ok_or (pe_values parsed name) (MissingValue name)"

definition key_from_bytes :: "bytes \<Rightarrow> parse_error + bytes" where
  "key_from_bytes bs = (if length bs \<noteq> 32 then Inl (KeyLength (length bs)) else Inr bs)"

definition parse_new_nullifier_event :: "parsed_contract_event \<Rightarrow> parse_error + processed_event" where
  "parse_new_nullifier_event parsed =
    let_ok (first_topic parsed) (\<lambda>v.
    let_ok (scval_to_field v) (\<lambda>nullifier.
    Inr (Nullifier (pe_id parsed) nullifier)))"

definition parse_new_commitment_event :: "parsed_contract_event \<Rightarrow> parse_error + processed_event" where
  "parse_new_commitment_event parsed =
    let_ok (first_topic parsed) (\<lambda>v.
    let_ok (scval_to_field v) (\<lambda>commitment.
    let_ok (event_value parsed ''index'') (\<lambda>index_scval.
    let_ok (of_encoding (scval_to_u32 index_scval)) (\<lambda>index.
    let_ok (event_value parsed ''encrypted_output'') (\<lambda>encrypted_scval.
    let_ok (of_encoding (scval_to_bytes encrypted_scval)) (\<lambda>encrypted_output.
    Inr (Commitment (pe_id parsed) commitment index encrypted_output)))))))"

definition parse_public_key_event ::
  "stellar_env \<Rightarrow> parsed_contract_event \<Rightarrow> parse_error + processed_event" where
  "parse_public_key_event S parsed =
    let_ok (first_topic parsed) (\<lambda>v.
    let_ok (of_encoding (scval_to_address_string S v)) (\<lambda>owner.
    let_ok (event_value parsed ''encryption_key'') (\<lambda>encryption_scval.
    let_ok (of_encoding (scval_to_bytes encryption_scval)) (\<lambda>encryption_bytes.
    let_ok (key_from_bytes encryption_bytes) (\<lambda>encryption_key.
    let_ok (event_value parsed ''note_key'') (\<lambda>note_scval.
    let_ok (of_encoding (scval_to_bytes note_scval)) (\<lambda>note_bytes.
    let_ok (key_from_bytes note_bytes) (\<lambda>note_key.
    Inr (PublicKey (pe_id parsed) owner (EncryptionPublicKey encryption_key) (NotePublicKey note_key))))))))))"

definition parse_leaf_added :: "parsed_contract_event \<Rightarrow> parse_error + processed_event" where
  "parse_leaf_added parsed =
    let_ok (event_value parsed ''leaf'') (\<lambda>leaf_scval.
    let_ok (scval_to_field leaf_scval) (\<lambda>leaf.
    let_ok (event_value parsed ''index'') (\<lambda>index_scval.
    let_ok (of_encoding (scval_to_u64 index_scval)) (\<lambda>index64.
    let_ok (require (index64 < 2 ^ 32) IndexExceedsU32) (\<lambda>_.
    let_ok (event_value parsed ''root'') (\<lambda>root_scval.
    let_ok (scval_to_field root_scval) (\<lambda>root.
    Inr (LeafAdded (pe_id parsed) leaf index64 root))))))))"

definition parse_leaf_inserted :: "parsed_contract_event \<Rightarrow> parse_error + processed_event" where
  "parse_leaf_inserted parsed =
    let_ok (event_value parsed ''key'') (\<lambda>key_scval.
    let_ok (scval_to_field key_scval) (\<lambda>key.
    let_ok (event_value parsed ''value'') (\<lambda>value_scval.
    let_ok (scval_to_field value_scval) (\<lambda>val.
    let_ok (event_value parsed ''root'') (\<lambda>root_scval.
    let_ok (scval_to_field root_scval) (\<lambda>root.
    Inr (LeafInserted (pe_id parsed) key val root)))))))"

definition parse_leaf_updated :: "parsed_contract_event \<Rightarrow> parse_error + processed_event" where
  "parse_leaf_updated parsed =
    let_ok (event_value parsed ''key'') (\<lambda>key_scval.
    let_ok (scval_to_field key_scval) (\<lambda>key.
    let_ok (event_value parsed ''old_value'') (\<lambda>old_scval.
    let_ok (scval_to_field old_scval) (\<lambda>old_value.
    let_ok (event_value parsed ''new_value'') (\<lambda>new_scval.
    let_ok (scval_to_field new_scval) (\<lambda>new_value.
    let_ok (event_value parsed ''root'') (\<lambda>root_scval.
    let_ok (scval_to_field root_scval) (\<lambda>root.
    Inr (LeafUpdated (pe_id parsed) key old_value new_value root)))))))))"

definition parse_leaf_deleted :: "parsed_contract_event \<Rightarrow> parse_error + processed_event" where
  "parse_leaf_deleted parsed =
    let_ok (event_value parsed ''key'') (\<lambda>key_scval.
    let_ok (scval_to_field key_scval) (\<lambda>key.
    let_ok (event_value parsed ''root'') (\<lambda>root_scval.
    let_ok (scval_to_field root_scval) (\<lambda>root.
    Inr (LeafDeleted (pe_id parsed) key root)))))"

definition parse_event :: "stellar_env \<Rightarrow> contract_event \<Rightarrow> parse_error + processed_event" where
  "parse_event S event =
    let_ok (of_encoding (parse_event_metadata S event)) (\<lambda>parsed.
    let name = pe_name parsed in
    if name = ''new_nullifier_event'' \<or> name = ''NewNullifierEvent'' then parse_new_nullifier_event parsed
    else if name = ''new_commitment_event'' \<or> name = ''NewCommitmentEvent'' then parse_new_commitment_event parsed
    else if name = ''public_key_event'' \<or> name = ''PublicKeyEvent'' then parse_public_key_event S parsed
    else if name = ''leaf_added'' \<or> name = ''LeafAdded'' then parse_leaf_added parsed
    else if name = ''leaf_inserted'' \<or> name = ''LeafInserted'' then parse_leaf_inserted parsed
    else if name = ''leaf_updated'' \<or> name = ''LeafUpdated'' then parse_leaf_updated parsed
    else if name = ''leaf_deleted'' \<or> name = ''LeafDeleted'' then parse_leaf_deleted parsed
    else Inl (UnhandledEvent name))"

section \<open>Events on the wire\<close>

text \<open>The limbs of an unsigned 256-bit integer.\<close>

definition u256_to_scval :: "u256 \<Rightarrow> sc_val" where
  "u256_to_scval v = field_to_scval_u256 (Field v)"

text \<open>
  An event as the contract SDK documents it: the first topic is the name, the others follow, and the
  remaining fields are a map from their names; an event without such fields has no data or an empty map.
\<close>

definition wire_event ::
  "stellar_env \<Rightarrow> string \<Rightarrow> sc_val list \<Rightarrow> (string \<times> sc_val) list \<Rightarrow> contract_event \<Rightarrow> bool" where
  "wire_event S name topics flds ev \<longleftrightarrow>
    (\<exists>t ts. ce_topics ev = t # ts \<and> from_xdr_base64 S t = Some (ScSymbol name) \<and>
      map (from_xdr_base64 S) ts = map Some topics) \<and>
    (from_xdr_base64 S (ce_value ev) = Some (ScMap (Some (map (\<lambda>(k, v). (ScSymbol k, v)) flds))) \<or>
      flds = [] \<and> from_xdr_base64 S (ce_value ev) = Some ScVoid)"

section \<open>Lemmas\<close>

lemma scval_to_field_u256:
  "scval_to_field (u256_to_scval v) = map_err EventField (field_try_from_u256 v)"
  by (simp add: scval_to_field_def u256_to_scval_def field_scval_roundtrip)

lemma map_ok_decode:
  "map f ts = map Some vs \<Longrightarrow> map_ok (\<lambda>s. ok_or (f s) e) ts = Inr vs"
  by (induction ts arbitrary: vs) auto

lemma event_fields_eq:
  assumes "list_all (\<lambda>(k, _). from_utf8 k = Some k) flds"
  shows "event_fields (map (\<lambda>(k, v). (ScSymbol k, v)) flds) m = Inr (m ++ map_of (rev flds))"
  using assms
proof (induction flds arbitrary: m)
  case (Cons f flds)
  obtain k v where f: "f = (k, v)" by (cases f)
  have "from_utf8 k = Some k" using Cons.prems f by simp
  then show ?case
    using Cons f by (simp add: symbol_to_string_def map_add_upd_left flip: map_add_assoc)
      (simp add: map_add_def fun_eq_iff split: option.splits)
qed simp

lemma parse_event_metadata_wire:
  assumes "wire_event S name topics flds ev" and "from_utf8 name = Some name"
    and "list_all (\<lambda>(k, _). from_utf8 k = Some k) flds"
  shows "parse_event_metadata S ev = Inr \<lparr> pe_id = ce_id ev, pe_ledger = ce_ledger ev,
    pe_contract_id = ce_contract_id ev, pe_name = name, pe_topics = topics, pe_values = map_of (rev flds) \<rparr>"
proof -
  obtain t ts where t: "ce_topics ev = t # ts" "from_xdr_base64 S t = Some (ScSymbol name)"
    "map (from_xdr_base64 S) ts = map Some topics"
    using assms(1) by (auto simp: wire_event_def)
  have topics: "map_ok (\<lambda>s. ok_or (from_xdr_base64 S s) XdrFailed) ts = Inr topics"
    using t(3) by (rule map_ok_decode)
  have flds: "event_fields (map (\<lambda>(k, v). (ScSymbol k, v)) flds) Map.empty = Inr (map_of (rev flds))"
    using event_fields_eq [OF assms(3)] by simp
  show ?thesis
    using assms(1,2) t topics flds
    by (auto simp: wire_event_def parse_event_metadata_def symbol_to_string_def)
qed

end
