(* ===== verification/Flow_Properties.thy ===== *)
theory Flow_Properties
  imports Flows
begin

text \<open>
  The properties of the transaction flows: when the builder accepts, what it returns, conservation in
  each flow, the way of a note from the transaction that creates it to the one that spends it, and the
  completion of bulk withdrawals. The sample services only show that the hypotheses can hold together.
\<close>

section \<open>Sample services and parameters\<close>

definition sample_random :: random_source where
  "sample_random n k = Some (replicate k (of_nat n))"

definition sample_hash :: "client_ext_data \<Rightarrow> bytes option" where
  "sample_hash x = Some (replicate 32 0)"

lemma sample_services: "services_ok sample_crypto sample_random sample_hash"
  by (simp add: services_ok_def sample_crypto_ok random_total_def random_sized_def sample_random_def sample_hash_def)
    (simp add: sample_crypto_def)

lemma sample_random_sized: "random_sized sample_random"
  by (simp add: random_sized_def sample_random_def)

definition sample_secret :: bytes where
  "sample_secret = replicate 32 1"

definition sample_encryption_secret :: bytes where
  "sample_encryption_secret = replicate 32 2"

definition sample_common :: flow_common where
  "sample_common = \<lparr> fc_priv_key = NotePrivateKey sample_secret,
     fc_encryption_pubkey = EncryptionPublicKey (x25519_public sample_crypto sample_encryption_secret),
     fc_pool_root = Field 7,
     fc_membership_proof = \<lparr> mp_leaf = Field 1, mp_blinding = Field 2, mp_path_elements = [Field 3],
       mp_path_indices = Field 0, mp_root = Field 3 \<rparr>,
     fc_non_membership_proof = \<lparr> np_key = Field 1, np_old_key = Field 0, np_old_value = Field 0,
       np_is_old0 = True, np_siblings = [Field 0], np_root = Field 4 \<rparr>,
     fc_tree_depth = 1, fc_smt_depth = 1 \<rparr>"

definition sample_input :: "nat \<Rightarrow> transact_input_note" where
  "sample_input v = \<lparr> in_amount = NoteAmount (of_nat v), in_blinding = Field 5,
     in_path_elements = [Field 6], in_path_indices = Field (of_nat 1) \<rparr>"

definition sample_deposit :: deposit_params where
  "sample_deposit = flow_common.extend sample_common
     \<lparr> dp_pool_address = ''pool'', dp_amount = ExtAmount 9,
       dp_outputs = [self_output (NoteAmount (of_nat 9)) (Field 5)] \<rparr>"

definition sample_transact :: transact_params where
  "sample_transact = flow_common.extend sample_common
     \<lparr> tp_ext_recipient = ''pool'', tp_ext_amount = ExtAmount 9, tp_inputs = [],
       tp_outputs = [self_output (NoteAmount (of_nat 9)) (Field 5)] \<rparr>"

definition sample_spend :: transact_params where
  "sample_spend = flow_common.extend sample_common
     \<lparr> tp_ext_recipient = ''someone'', tp_ext_amount = ExtAmount (- 9), tp_inputs = [sample_input 9],
       tp_outputs = [] \<rparr>"

lemmas sample_flow_defs = sample_transact_def sample_spend_def sample_common_def sample_input_def
  sample_secret_def sample_encryption_secret_def flow_common.defs self_output_def

lemma sample_transact_ok: "params_ok sample_transact" "keys_typed sample_transact (tp_outputs sample_transact)"
  by (simp_all add: params_ok_def guards_ok_def keys_typed_def output_keys_typed_def sample_flow_defs
      sample_crypto_def)

lemma sample_spend_ok: "params_ok sample_spend" "keys_typed sample_spend (tp_outputs sample_spend)"
  by (simp_all add: params_ok_def guards_ok_def keys_typed_def output_keys_typed_def sample_flow_defs
      sample_crypto_def)

section \<open>Properties\<close>

text \<open>
  The builder accepts exactly the sound transactions. With keys of the right size and services
  that answer, \<open>transact\<close> succeeds if and only if the tree depths are positive, the proofs have the
  length of their tree, there are at most two inputs and two outputs, recipient keys come in pairs, the
  sums fit in 128 bits, the external amount is not the smallest one, and the sum of the inputs plus the
  external amount equals the sum of the outputs.
\<close>

theorem transact_accepts:
  assumes "services_ok E R H" and "keys_typed p (tp_outputs p)"
  shows "(\<exists>ta k. flow_transact E R H p n = Inr (ta, k)) \<longleftrightarrow>
    0 < fc_tree_depth p \<and> 2 * fc_tree_depth p < 2 ^ 32 \<and> 0 < fc_smt_depth p \<and>
    length (mp_path_elements (fc_membership_proof p)) = fc_tree_depth p \<and>
    length (np_siblings (fc_non_membership_proof p)) = fc_smt_depth p \<and>
    length (tp_inputs p) \<le> 2 \<and> length (tp_outputs p) \<le> 2 \<and>
    list_all (\<lambda>x. length (in_path_elements x) = fc_tree_depth p) (tp_inputs p) \<and>
    list_all (\<lambda>x. (out_note_pubkey x \<noteq> None) = (out_encryption_pubkey x \<noteq> None)) (tp_outputs p) \<and>
    inputs_total (tp_inputs p) < 2 ^ 128 \<and> outputs_total (tp_outputs p) < 2 ^ 128 \<and>
    ext_value (tp_ext_amount p) \<noteq> - (2 ^ 127) \<and>
    int (inputs_total (tp_inputs p)) + ext_value (tp_ext_amount p) = int (outputs_total (tp_outputs p))"
proof -
  have "crypto_env_ok E" using assms(1) by (simp add: services_ok_def)
  then have "(\<exists>ta k. flow_transact E R H p n = Inr (ta, k)) \<longleftrightarrow> params_ok p"
    using flow_transact_total [OF assms] flow_transact_params_ok by blast
  then show ?thesis unfolding params_ok_def guards_ok_def by blast
qed

theorem transact_accepts_witness:
  "\<exists>ta k. flow_transact sample_crypto sample_random sample_hash sample_transact 0 = Inr (ta, k)"
  by (subst transact_accepts [OF sample_services sample_transact_ok(2)])
    (simp add: sample_flow_defs)

text \<open>
  C28: What the builder returns. A successful \<open>transact\<close> has two input and two output slots, the given
  notes first and dummies of amount zero after them; values are conserved; the prepared nullifiers and
  commitments are the Poseidon2 hashes of the slots, the public amount is the field element of the
  external amount, the external data carries the recipient, the amount and the encryptions of the two
  outputs, its hash is the one that the callback returns, and every signal of the circuit (public
  values, notes, keys, paths, and for each input slot the signals of both ASP proofs) encodes the same numbers.
\<close>

theorem transact_builds:
  assumes "crypto_env_ok E" and "flow_transact E R H p n = Inr (ta, k)"
  shows "\<exists>ins outs h.
    (\<exists>din. ins = tp_inputs p @ din \<and> list_all (is_dummy_input (fc_tree_depth p)) din) \<and> length ins = 2 \<and>
    (\<exists>dout. outs = tp_outputs p @ dout \<and> list_all is_dummy_output dout) \<and> length outs = 2 \<and>
    int (inputs_total ins) + ext_value (tp_ext_amount p) = int (outputs_total outs) \<and>
    ta_prepared ta = prepared_of p ins outs h \<and>
    encrypted_output E R (fc_encryption_pubkey p) (outs ! 0) (cx_encrypted_output0 (ta_ext_data ta)) \<and>
    encrypted_output E R (fc_encryption_pubkey p) (outs ! 1) (cx_encrypted_output1 (ta_ext_data ta)) \<and>
    cx_recipient (ta_ext_data ta) = tp_ext_recipient p \<and> cx_ext_amount (ta_ext_data ta) = tp_ext_amount p \<and>
    H (ta_ext_data ta) = Some h \<and>
    list_all (\<lambda>(name, v). ta_circuit_inputs ta name = Some v) (note_signals p ins outs h @ asp_signals p)"
proof -
  obtain ins outs where b: "built E R H p ins outs ta" using flow_transact_Inr(3) [OF assms] by blast
  then have slots: "slots_of p ins outs" by (simp add: built_def)
  have "int (inputs_total ins) + ext_value (tp_ext_amount p) = int (outputs_total outs)"
    using flow_transact_Inr(1) [OF assms] slots_total [OF slots] by (simp add: guards_ok_def)
  with b show ?thesis unfolding built_def slots_of_def by blast
qed

theorem transact_builds_witness:
  "\<exists>ta k ins outs h. flow_transact sample_crypto sample_random sample_hash sample_transact 0 = Inr (ta, k) \<and>
    length ins = 2 \<and> inputs_total ins = 0 \<and> length outs = 2 \<and> outputs_total outs = 9 \<and>
    ta_prepared ta = prepared_of sample_transact ins outs h \<and>
    ta_circuit_inputs ta ''nonMembershipProofs[1][0].key'' = Some (Single (circuit_hex (field_to_scalar (Field 1))))"
proof -
  obtain ta k where run: "flow_transact sample_crypto sample_random sample_hash sample_transact 0 = Inr (ta, k)"
    using flow_transact_total [OF sample_services sample_transact_ok(2,1)] by blast
  obtain ins outs h din dout where
    "ins = tp_inputs sample_transact @ din" "list_all (is_dummy_input (fc_tree_depth sample_transact)) din"
    "length ins = 2" "outs = tp_outputs sample_transact @ dout" "list_all is_dummy_output dout" "length outs = 2"
    "ta_prepared ta = prepared_of sample_transact ins outs h"
    and "list_all (\<lambda>(name, v). ta_circuit_inputs ta name = Some v) (note_signals sample_transact ins outs h @ asp_signals sample_transact)"
    using transact_builds [OF sample_crypto_ok run] by blast
  moreover from this(8) have "ta_circuit_inputs ta ''nonMembershipProofs[1][0].key'' = Some (Single (circuit_hex (field_to_scalar (Field 1))))"
    by (simp add: asp_signals_def asp_slot_signals_def Let_def sample_flow_defs)
  ultimately show ?thesis using run dummies_total
    by (intro exI [of _ ta] exI [of _ k] exI [of _ ins] exI [of _ outs] exI [of _ h])
      (auto simp: sample_flow_defs)
qed

lemma transact_conserves:
  assumes "crypto_env_ok E" and "flow_transact E R H p n = Inr (ta, k)"
  shows "int (inputs_total (tp_inputs p)) + ext_value (tp_ext_amount p) = int (outputs_total (tp_outputs p))"
    and "cx_recipient (ta_ext_data ta) = tp_ext_recipient p" and "cx_ext_amount (ta_ext_data ta) = tp_ext_amount p"
  using flow_transact_Inr(1,3) [OF assms] by (auto simp: guards_ok_def built_def)

text \<open>
  Conservation in each flow. A deposit that succeeds creates notes worth exactly its amount, which
  is not negative. A transfer creates notes worth exactly the notes it spends and has external amount
  zero. A withdrawal without given outputs creates change worth the spent notes less the amount, names
  the recipient, and has the negated amount as its external amount; more than the notes are worth is
  never withdrawn.
\<close>

theorem flows_conserve:
  assumes "crypto_env_ok E"
  shows "(flow_deposit E R H d n = Inr (ta, k) \<longrightarrow>
      int (outputs_total (dp_outputs d)) = ext_value (dp_amount d) \<and>
      cx_ext_amount (ta_ext_data ta) = dp_amount d) \<and>
    (flow_transfer E R H t n = Inr (ta, k) \<longrightarrow>
      inputs_total (rp_inputs t) = outputs_total (rp_outputs t) \<and>
      cx_ext_amount (ta_ext_data ta) = EXT_ZERO) \<and>
    (flow_withdraw E R H w n = Inr (ta, k) \<longrightarrow>
      0 \<le> ext_value (wp_amount w) \<and>
      (\<exists>outs. (case wp_outputs w of Some given \<Rightarrow> outs = given
               | None \<Rightarrow> \<exists>change b0 b1. outs = [self_output change b0, self_output NOTE_ZERO b1]) \<and>
        int (inputs_total (wp_inputs w)) = ext_value (wp_amount w) + int (outputs_total outs)) \<and>
      cx_recipient (ta_ext_data ta) = wp_recipient w \<and>
      ext_value (cx_ext_amount (ta_ext_data ta)) = - ext_value (wp_amount w))"
proof (intro conjI impI)
  assume "flow_deposit E R H d n = Inr (ta, k)"
  note run = transact_conserves [OF assms this [unfolded flow_deposit_def]]
  show "int (outputs_total (dp_outputs d)) = ext_value (dp_amount d)" "cx_ext_amount (ta_ext_data ta) = dp_amount d"
    using run(1,3) by (simp_all add: flow_common.defs)
next
  assume "flow_transfer E R H t n = Inr (ta, k)"
  note run = transact_conserves [OF assms this [unfolded flow_transfer_def]]
  have "int (inputs_total (rp_inputs t)) = int (outputs_total (rp_outputs t))"
    using run(1) by (simp add: flow_common.defs EXT_ZERO_def)
  then show "inputs_total (rp_inputs t) = outputs_total (rp_outputs t)" by (rule of_nat_eq_iff [THEN iffD1])
  show "cx_ext_amount (ta_ext_data ta) = EXT_ZERO" using run(3) by (simp add: flow_common.defs)
next
  assume run: "flow_withdraw E R H w n = Inr (ta, k)"
  note bounds = flow_withdraw_Inr [OF run]
  show "0 \<le> ext_value (wp_amount w)" by (rule bounds)
  obtain tot where tot: "note_value tot = inputs_total (wp_inputs w)" using note_of_value [OF bounds(3)] by blast
  let ?c = "nat (int (inputs_total (wp_inputs w)) - ext_value (wp_amount w))"
  have "?c < 2 ^ 128" using bounds by linarith
  then obtain change where c: "note_value change = ?c" using note_of_value by blast
  have "- (2 ^ 127) \<le> - ext_value (wp_amount w)" "- ext_value (wp_amount w) < 2 ^ 127"
    using ext_value_bounds [of "wp_amount w"] bounds(1) by linarith+
  then obtain e where e: "ext_value e = - ext_value (wp_amount w)" using ext_of_value by blast
  have "int (inputs_total (wp_inputs w)) = ext_value (wp_amount w) + int (note_value change)"
    using c bounds(2) by linarith
  from run [unfolded flow_withdraw_eq [OF tot bounds(1) this e]] obtain outs n' where
    outs: "withdraw_outputs E R change (wp_outputs w) n = Inr (outs, n')"
    and tr: "flow_transact E R H (flow_common.extend (flow_common.truncate w)
      \<lparr> tp_ext_recipient = wp_recipient w, tp_ext_amount = e, tp_inputs = wp_inputs w,
        tp_outputs = outs \<rparr>) n' = Inr (ta, k)"
    by (auto simp: flow_simps)
  note res = transact_conserves [OF assms tr]
  show "cx_recipient (ta_ext_data ta) = wp_recipient w"
    "ext_value (cx_ext_amount (ta_ext_data ta)) = - ext_value (wp_amount w)"
    using res(2,3) e by (simp_all add: flow_common.defs)
  have "int (inputs_total (wp_inputs w)) = ext_value (wp_amount w) + int (outputs_total outs)"
    using res(1) e by (simp add: flow_common.defs)
  moreover have "case wp_outputs w of Some given \<Rightarrow> outs = given
      | None \<Rightarrow> \<exists>change b0 b1. outs = [self_output change b0, self_output NOTE_ZERO b1]"
    using outs by (auto simp: withdraw_outputs_def flow_simps split: option.splits)
  ultimately show "\<exists>outs. (case wp_outputs w of Some given \<Rightarrow> outs = given
      | None \<Rightarrow> \<exists>change b0 b1. outs = [self_output change b0, self_output NOTE_ZERO b1]) \<and>
      int (inputs_total (wp_inputs w)) = ext_value (wp_amount w) + int (outputs_total outs)" by blast
qed

theorem flows_conserve_witness:
  "\<exists>ta k. flow_deposit sample_crypto sample_random sample_hash sample_deposit 0 = Inr (ta, k) \<and>
    int (outputs_total (dp_outputs sample_deposit)) = ext_value (dp_amount sample_deposit)"
proof -
  have "flow_deposit sample_crypto sample_random sample_hash sample_deposit 0 =
      flow_transact sample_crypto sample_random sample_hash sample_transact 0"
    by (simp add: flow_deposit_def sample_deposit_def sample_transact_def flow_common.defs)
  then obtain ta k where "flow_deposit sample_crypto sample_random sample_hash sample_deposit 0 = Inr (ta, k)"
    using flow_transact_total [OF sample_services sample_transact_ok(2,1), of 0] by auto
  then show ?thesis using flows_conserve [OF sample_crypto_ok] by blast
qed

lemma field_to_scalar_index: "i < 2 ^ 32 \<Longrightarrow> field_to_scalar (Field (of_nat i)) = int i"
proof -
  assume i: "i < 2 ^ 32"
  have "field_to_scalar (Field (word_of_int (int i))) = int i"
    using i by (intro field_to_scalar_word) (simp_all add: FpBN256_MODULUS_def)
  then show ?thesis by simp
qed

lemma encrypted_output_decrypts:
  assumes "crypto_env_ok E" and "random_sized R" and "length esk = 32" and "field_canonical (out_blinding out)"
    and "recipient_encryption_key ek out = EncryptionPublicKey (x25519_public E esk)"
    and "encrypted_output E R ek out enc"
  shows "decrypt_output_note E (EncryptionPrivateKey esk) enc = Inr (Some (out_amount out, out_blinding out))"
proof -
  obtain m where m: "encrypt_output_note E (R m 32) (R (Suc m) 24) (EncryptionPublicKey (x25519_public E esk))
      (out_amount out) (out_blinding out) = Inr enc"
    using assms(5,6) by (auto simp: encrypted_output_def)
  have pk: "length (x25519_public E esk) = 32" using crypto_env_okD(3) [OF assms(1,3)] .
  obtain eph nonce where r: "R m 32 = Some eph" "R (Suc m) 24 = Some nonce"
    using m pk by (cases "R m 32"; cases "R (Suc m) 24") (auto simp: encrypt_note_data_def Let_def)
  then have "length eph = 32" "length nonce = 24" using assms(2) by (auto simp: random_sized_def)
  then show ?thesis using decrypt_encrypted_note [OF assms(1) _ _ assms(3,4) m [unfolded r]] by blast
qed

lemma output_discovered:
  assumes "crypto_env_ok E" and "random_sized R" and "flow_transact E R H p n = Inr (ta, k)"
    and "i < length (tp_outputs p)" and "tp_outputs p ! i = out"
    and "field_canonical (out_blinding out)" and "0 < note_value (out_amount out)"
    and "length esk = 32" and "length nsk = 32" and "leaf < 2 ^ 32"
    and "recipient_encryption_key (fc_encryption_pubkey p) out = EncryptionPublicKey (x25519_public E esk)"
    and "recipient_note_key (sender_key (private_bytes (fc_priv_key p))) out = sender_key nsk"
  shows "try_decrypt_and_derive_user_note E
      \<lparr> note_private = NotePrivateKey nsk, note_public = NotePublicKey (sender_key nsk) \<rparr>
      (EncryptionPrivateKey esk) (pt_output_commitments (ta_prepared ta) ! i) leaf
      (if i = 0 then cx_encrypted_output0 (ta_ext_data ta) else cx_encrypted_output1 (ta_ext_data ta)) =
    Inr (Some \<lparr> derived_amount = out_amount out, derived_blinding = out_blinding out,
      expected_nullifier = Field (word_of_int (note_nullifier nsk
        (note_commitment (out_amount out) (sender_key nsk) (out_blinding out)) leaf)) \<rparr>)"
proof -
  obtain ins outs where b: "built E R H p ins outs ta" using flow_transact_Inr(3) [OF assms(1,3)] by blast
  then have slots: "slots_of p ins outs" by (simp add: built_def)
  have outs: "outs ! i = out" and i: "i < 2"
    using slots assms(4,5) by (auto simp: slots_of_def nth_append)
  let ?enc = "if i = 0 then cx_encrypted_output0 (ta_ext_data ta) else cx_encrypted_output1 (ta_ext_data ta)"
  have "encrypted_output E R (fc_encryption_pubkey p) out ?enc"
    using b i outs by (cases "i = 0") (auto simp: built_def less_2_cases_iff)
  then have dec: "decrypt_output_note E (EncryptionPrivateKey esk) ?enc = Inr (Some (out_amount out, out_blinding out))"
    by (rule encrypted_output_decrypts [OF assms(1,2,8,6,11)])
  have "pt_output_commitments (ta_prepared ta) ! i =
      Field (word_of_int (note_commitment (out_amount out) (sender_key nsk) (out_blinding out)))"
    using built_commitment [OF b assms(4)] assms(5,12) by (simp add: slot_commitment_def)
  then show ?thesis
    unfolding discover_decrypted [OF length_sender_key assms(9,10) dec]
    using assms(7) by (simp add: note_is_zero_iff)
qed

text \<open>
  The way of a note. Let a transaction create an output note of positive amount for a recipient,
  and let a later transaction of the recipient spend the note with the leaf index at which the pool
  recorded the commitment. Then the recipient's wallet discovers the note from the first transaction's
  commitment and ciphertext, with the right amount and blinding, and the nullifier it predicts is exactly
  the one that the spending transaction publishes.
\<close>

theorem note_lifecycle:
  assumes "crypto_env_ok E" and "random_sized R" and "flow_transact E R H p n = Inr (ta, k)"
    and "i < length (tp_outputs p)" and "tp_outputs p ! i = out"
    and "field_canonical (out_blinding out)" and "0 < note_value (out_amount out)"
    and "length esk = 32" and "length nsk = 32" and "leaf < 2 ^ 32"
    and "recipient_encryption_key (fc_encryption_pubkey p) out = EncryptionPublicKey (x25519_public E esk)"
    and "recipient_note_key (sender_key (private_bytes (fc_priv_key p))) out = sender_key nsk"
    and "flow_transact E R' H' q m = Inr (tq, k')" and "private_bytes (fc_priv_key q) = nsk"
    and "j < length (tp_inputs q)"
    and "tp_inputs q ! j = \<lparr> in_amount = out_amount out, in_blinding = out_blinding out,
      in_path_elements = path, in_path_indices = Field (of_nat leaf) \<rparr>"
  shows "try_decrypt_and_derive_user_note E
      \<lparr> note_private = NotePrivateKey nsk, note_public = NotePublicKey (sender_key nsk) \<rparr>
      (EncryptionPrivateKey esk) (pt_output_commitments (ta_prepared ta) ! i) leaf
      (if i = 0 then cx_encrypted_output0 (ta_ext_data ta) else cx_encrypted_output1 (ta_ext_data ta)) =
    Inr (Some \<lparr> derived_amount = out_amount out, derived_blinding = out_blinding out,
      expected_nullifier = pt_input_nullifiers (ta_prepared tq) ! j \<rparr>)"
proof -
  obtain ins outs where b: "built E R' H' q ins outs tq"
    using flow_transact_Inr(3) [OF assms(1,13)] by blast
  have "pt_input_nullifiers (ta_prepared tq) ! j = Field (word_of_int (note_nullifier nsk
      (note_commitment (out_amount out) (sender_key nsk) (out_blinding out)) leaf))"
    using built_nullifier [OF b assms(15)] assms(14,16) field_to_scalar_index [OF assms(10)]
    by (simp add: slot_nullifier_def)
  then show ?thesis using output_discovered [OF assms(1-12)] by simp
qed

theorem note_lifecycle_witness:
  "\<exists>ta k tq k'. flow_transact sample_crypto sample_random sample_hash sample_transact 0 = Inr (ta, k) \<and>
    flow_transact sample_crypto sample_random sample_hash sample_spend 0 = Inr (tq, k') \<and>
    try_decrypt_and_derive_user_note sample_crypto
      \<lparr> note_private = NotePrivateKey sample_secret, note_public = NotePublicKey (sender_key sample_secret) \<rparr>
      (EncryptionPrivateKey sample_encryption_secret) (pt_output_commitments (ta_prepared ta) ! 0) 1
      (cx_encrypted_output0 (ta_ext_data ta)) =
    Inr (Some \<lparr> derived_amount = NoteAmount 9, derived_blinding = Field 5,
      expected_nullifier = pt_input_nullifiers (ta_prepared tq) ! 0 \<rparr>)"
proof -
  obtain ta k where ta: "flow_transact sample_crypto sample_random sample_hash sample_transact 0 = Inr (ta, k)"
    using flow_transact_total [OF sample_services sample_transact_ok(2,1)] by blast
  obtain tq k' where tq: "flow_transact sample_crypto sample_random sample_hash sample_spend 0 = Inr (tq, k')"
    using flow_transact_total [OF sample_services sample_spend_ok(2,1)] by blast
  have five: "field_canonical (Field 5)" by (simp add: field_canonical_def bn256_modulus_eq u256_eval)
  have "try_decrypt_and_derive_user_note sample_crypto
      \<lparr> note_private = NotePrivateKey sample_secret, note_public = NotePublicKey (sender_key sample_secret) \<rparr>
      (EncryptionPrivateKey sample_encryption_secret) (pt_output_commitments (ta_prepared ta) ! 0) 1
      (if (0::nat) = 0 then cx_encrypted_output0 (ta_ext_data ta) else cx_encrypted_output1 (ta_ext_data ta)) =
    Inr (Some \<lparr> derived_amount = out_amount (self_output (NoteAmount (of_nat 9)) (Field 5)),
      derived_blinding = out_blinding (self_output (NoteAmount (of_nat 9)) (Field 5)),
      expected_nullifier = pt_input_nullifiers (ta_prepared tq) ! 0 \<rparr>)"
    by (rule note_lifecycle [OF sample_crypto_ok sample_random_sized ta _ _ _ _ _ _ _ _ _ tq,
          where path = "[Field 6]"])
      (simp_all add: five sample_flow_defs recipient_encryption_key_def recipient_note_key_def)
  then show ?thesis using ta tq by (auto simp: self_output_def)
qed

lemma bulk_run:
  assumes "crypto_env_ok E" and "length rs < 2 ^ 32"
    and "bulk_new E R sk ek b0 amount rs mp np td sd n = Inr (s, k)"
  shows "(\<exists>t. advance_times j s = Inr t) \<longleftrightarrow> j \<le> length rs"
    and "advance_times j s = Inr t \<Longrightarrow> j \<le> length rs \<and> bulk_inv (note_value amount) b0 t \<and>
      bs_current_step t = j \<and> same_session s t"
proof -
  note new = bulk_new_inv [OF assms(1,3)]
  have len: "length (bs_recipients s) < 2 ^ 32" using assms(2) new(3) by simp
  have reach: "\<exists>t. advance_times j s = Inr t \<and> bulk_inv (note_value amount) b0 t \<and>
      bs_current_step t = j \<and> same_session s t" if "j \<le> length rs" for j
    using advance_times_inv [OF new(1,2) len] that new(3) by simp
  have stuck: "advance_times (Suc (length rs) + d) s = Inl (Err BulkComplete)" for d
    using reach [of "length rs"] new(3)
    by (induction d) (auto simp: advance_def bulk_is_done_def same_session_def)
  show steps: "(\<exists>t. advance_times j s = Inr t) \<longleftrightarrow> j \<le> length rs"
    using reach [of j] stuck [of "j - Suc (length rs)"] by (cases "j \<le> length rs") auto
  show "advance_times j s = Inr t \<Longrightarrow> j \<le> length rs \<and> bulk_inv (note_value amount) b0 t \<and>
      bs_current_step t = j \<and> same_session s t"
    using steps reach [of j] by auto
qed

text \<open>
  C29: A bulk withdrawal completes. A session that \<open>new\<close> accepts has a recipient and enough balance for
  all payouts, none of them negative. It advances exactly once per recipient and never panics; after \<open>j\<close>
  steps its note is worth the initial amount less the first \<open>j\<close> payouts, and it is done exactly after the
  last one, when a further advance or step is refused. In every state before, given a Merkle path of
  the right length and services that answer, the built step is accepted by \<open>withdraw\<close>, pays exactly the
  recipient's amount to the recipient's address, and its first output commits to the very note that the
  session holds after the step.
\<close>

theorem bulk_session_completes:
  assumes "services_ok E R H" and "length rs < 2 ^ 32"
    and "bulk_new E R sk ek b0 amount rs mp np td sd n = Inr (s, k)"
  shows "rs \<noteq> [] \<and> list_all (\<lambda>r. 0 \<le> ext_value (bw_amount r)) rs \<and> payouts rs \<le> note_value amount \<and>
    (\<forall>j. (\<exists>t. advance_times j s = Inr t) \<longleftrightarrow> j \<le> length rs) \<and>
    (\<forall>j t. advance_times j s = Inr t \<longrightarrow>
      note_value (bs_note_amount t) = note_value amount - payouts (take j rs) \<and>
      (bulk_is_done t \<longleftrightarrow> j = length rs) \<and>
      (bulk_is_done t \<longrightarrow> advance t = Inl (Err BulkComplete) \<and>
        (\<forall>w i. build_step E R w t i = Inl (Err BulkComplete))) \<and>
      (\<forall>w i. \<not> bulk_is_done t \<and> bulk_shape s w \<longrightarrow>
        (\<exists>t' wp k1 ta k2. advance_times (Suc j) s = Inr t' \<and> build_step E R w t i = Inr (wp, k1) \<and>
          flow_withdraw E R H wp k1 = Inr (ta, k2) \<and>
          cx_recipient (ta_ext_data ta) = bw_address (rs ! j) \<and>
          ext_value (cx_ext_amount (ta_ext_data ta)) = - int (payout (rs ! j)) \<and>
          pt_output_commitments (ta_prepared ta) ! 0 = Field (word_of_int (note_commitment
            (bs_note_amount t') (sender_key (private_bytes sk)) (bs_note_blinding t'))))))"
proof -
  have E: "crypto_env_ok E" using assms(1) by (simp add: services_ok_def)
  note new = bulk_new_inv [OF E assms(3)]
  note steps = bulk_run(1) [OF E assms(2,3)] and inv = bulk_run(2) [OF E assms(2,3)]
  have "list_all (\<lambda>r. 0 \<le> ext_value (bw_amount r)) rs" "payouts rs \<le> note_value amount"
    using new(1,3) by (auto simp: bulk_inv_def)
  moreover have "note_value (bs_note_amount t) = note_value amount - payouts (take j rs)"
    "bulk_is_done t \<longleftrightarrow> j = length rs" if "advance_times j s = Inr t" for j t
    using inv [OF that] new(3) by (auto simp: bulk_inv_def bulk_is_done_def same_session_def)
  moreover have "advance t = Inl (Err BulkComplete)" "build_step E R w t i = Inl (Err BulkComplete)"
    if "bulk_is_done t" for t w i
    using that by (simp_all add: advance_def build_step_def flow_bind_def flow_lift_def)
  moreover have "\<exists>t' wp k1 ta k2. advance_times (Suc j) s = Inr t' \<and> build_step E R w t i = Inr (wp, k1) \<and>
      flow_withdraw E R H wp k1 = Inr (ta, k2) \<and>
      cx_recipient (ta_ext_data ta) = bw_address (rs ! j) \<and>
      ext_value (cx_ext_amount (ta_ext_data ta)) = - int (payout (rs ! j)) \<and>
      pt_output_commitments (ta_prepared ta) ! 0 = Field (word_of_int (note_commitment
        (bs_note_amount t') (sender_key (private_bytes sk)) (bs_note_blinding t')))"
    if run: "advance_times j s = Inr t" and "\<not> bulk_is_done t" and shape: "bulk_shape s w" for j t w i
  proof -
    have t: "bulk_inv (note_value amount) b0 t" "bs_current_step t = j" "same_session s t" "bs_recipients t = rs"
      using inv [OF run] new(3) by (auto simp: same_session_def)
    have lt: "bs_current_step t < length (bs_recipients t)" using that(2) by (simp add: bulk_is_done_def)
    then obtain t' where t': "advance_times (Suc j) s = Inr t'" using steps [of "Suc j"] t(2,4) by auto
    then have "advance t = Inr t'" using run by simp
    moreover have "bulk_shape t w" using shape t(3) by (simp add: bulk_shape_def same_session_def)
    moreover have "bs_priv_key t = sk" using t(3) new(5) by (simp add: same_session_def)
    ultimately show ?thesis
      using bulk_step_withdraws [OF assms(1) t(1) _ lt, of w t' i] t(2,4) t' by metis
  qed
  ultimately show ?thesis using new(4) steps by (intro conjI allI impI; (elim conjE)?; blast)
qed

theorem bulk_session_completes_witness:
  "\<exists>s k t. bulk_new sample_crypto sample_random (fc_priv_key sample_common) (fc_encryption_pubkey sample_common)
      (Field 5) (NoteAmount 9) [\<lparr> bw_address = ''a'', bw_amount = ExtAmount 3 \<rparr>, \<lparr> bw_address = ''b'', bw_amount = ExtAmount 4 \<rparr>]
      (fc_membership_proof sample_common) (fc_non_membership_proof sample_common) 1 1 0 = Inr (s, k) \<and>
    advance_times 2 s = Inr t \<and> bulk_is_done t \<and> note_value (bs_note_amount t) = 2"
proof -
  let ?rs = "[\<lparr> bw_address = ''a'', bw_amount = ExtAmount 3 \<rparr>, \<lparr> bw_address = ''b'', bw_amount = ExtAmount 4 \<rparr>]"
  let ?new = "bulk_new sample_crypto sample_random (fc_priv_key sample_common) (fc_encryption_pubkey sample_common)
      (Field 5) (NoteAmount 9) ?rs (fc_membership_proof sample_common) (fc_non_membership_proof sample_common) 1 1 0"
  have R: "random_total sample_random" using sample_services by (simp add: services_ok_def)
  have "\<exists>bs k. flow_map (\<lambda>_. flow_random_blinding sample_crypto sample_random) ?rs 0 = Inr (bs, k)"
    by (rule flow_map_total) (use flow_random_blinding_total [OF sample_crypto_ok R] in blast)
  moreover have "bulk_check_loop 0 (NoteAmount 9) ?rs = Inr (NoteAmount 2)"
    by (simp add: note_try_from_ext_def u128_try_from_i128_def note_checked_sub_def checked_sub_def)
  ultimately obtain s k where new: "?new = Inr (s, k)"
    unfolding bulk_new_def by (auto simp del: flow_map.simps bulk_check_loop.simps)
  have len: "length ?rs < 2 ^ 32" by simp
  note all = bulk_session_completes [OF sample_services len new]
  have two: "(2::nat) = length ?rs" by simp
  have "\<exists>t. advance_times 2 s = Inr t" using all unfolding two by blast
  then obtain t where t: "advance_times 2 s = Inr t" by blast
  have "bulk_is_done t" using all t unfolding two by blast
  moreover have "note_value (bs_note_amount t) = note_value (NoteAmount 9) - payouts (take 2 ?rs)"
    using all t by blast
  moreover have "payouts (take 2 ?rs) = 7" by (simp add: payout_def)
  ultimately show ?thesis using new t by (auto simp del: advance_times.simps)
qed

end
