(* ===== verification/Contract_Calls.thy ===== *)
theory Contract_Calls
  imports Pool Asp_Membership Public_Key_Registry Asp_Non_Membership Event_Parsers Flow_Properties
begin

text \<open>
  Client and contracts together: the values that the client submits are the wire forms of the structs
  that the pool contract receives, both sides hash the external data alike, the events of the
  contracts are parsed back to what was emitted, and a transaction built by the client meets every check
  of the pool that depends on the client alone.
\<close>

section \<open>Wire forms\<close>

text \<open>
  The contract SDK documents the wire form of a struct as a map from the names of its fields, in
  alphabetical order; integers of 256 bits are four limbs.
\<close>

definition groth16_wire :: "groth16_proof \<Rightarrow> sc_val" where
  "groth16_wire g = ScMap (Some [(ScSymbol ''a'', ScBytes (proof_a g)), (ScSymbol ''b'', ScBytes (proof_b g)),
    (ScSymbol ''c'', ScBytes (proof_c g))])"

definition pool_proof_wire :: "pool_proof \<Rightarrow> sc_val" where
  "pool_proof_wire p = ScMap (Some
    [(ScSymbol ''asp_membership_root'', u256_to_scval (pp_asp_membership_root p)),
     (ScSymbol ''asp_non_membership_root'', u256_to_scval (pp_asp_non_membership_root p)),
     (ScSymbol ''ext_data_hash'', ScBytes (pp_ext_data_hash p)),
     (ScSymbol ''input_nullifiers'', ScVec (Some (map u256_to_scval (pp_input_nullifiers p)))),
     (ScSymbol ''output_commitment0'', u256_to_scval (pp_output_commitment0 p)),
     (ScSymbol ''output_commitment1'', u256_to_scval (pp_output_commitment1 p)),
     (ScSymbol ''proof'', groth16_wire (pp_proof p)),
     (ScSymbol ''public_amount'', u256_to_scval (pp_public_amount p)),
     (ScSymbol ''root'', u256_to_scval (pp_root p))])"

definition ext_data_wire :: "sc_address \<Rightarrow> ext_data \<Rightarrow> sc_val" where
  "ext_data_wire addr x = ScMap (Some
    [(ScSymbol ''encrypted_output0'', ScBytes (ed_encrypted_output0 x)),
     (ScSymbol ''encrypted_output1'', ScBytes (ed_encrypted_output1 x)),
     (ScSymbol ''ext_amount'', i256_to_scval (ed_ext_amount x)),
     (ScSymbol ''recipient'', ScAddress addr)])"

text \<open>
  The host serialises the external data in its wire form with the same XDR encoding and the same
  Keccak-256 as the client.
\<close>

definition same_serialiser :: "stellar_env \<Rightarrow> 't pool_env \<Rightarrow> bool" where
  "same_serialiser S e \<longleftrightarrow> env_keccak256 e = keccak256 S \<and>
    (\<forall>x addr. parse_address S (ed_recipient x) = Some addr \<longrightarrow> to_xdr S (ext_data_wire addr x) = Some (env_xdr e x))"

section \<open>What the client submits\<close>

text \<open>
  \<open>OnchainProofPublicInputs\<close> from \<open>PreparedTx\<close> (\<open>services/prover-api/src/proof.rs\<close>,
  \<open>platforms/web/src/workers/prover.rs\<close>) with the 256 bytes of the proof.
\<close>

definition submitted_proof :: "bytes \<Rightarrow> prepared_tx \<Rightarrow> pool_proof" where
  "submitted_proof proof_bytes prepared =
    \<lparr> pp_proof = \<lparr> proof_a = take 64 proof_bytes, proof_b = take 128 (drop 64 proof_bytes),
        proof_c = drop 192 proof_bytes \<rparr>,
      pp_root = field_u256 (pt_pool_root prepared),
      pp_input_nullifiers = map field_u256 (pt_input_nullifiers prepared),
      pp_output_commitment0 = field_u256 (pt_output_commitments prepared ! 0),
      pp_output_commitment1 = field_u256 (pt_output_commitments prepared ! 1),
      pp_public_amount = field_u256 (pt_public_amount prepared),
      pp_ext_data_hash = pt_ext_data_hash_be prepared,
      pp_asp_membership_root = field_u256 (pt_asp_membership_root prepared),
      pp_asp_non_membership_root = field_u256 (pt_asp_non_membership_root prepared) \<rparr>"

definition submitted_ext :: "client_ext_data \<Rightarrow> ext_data" where
  "submitted_ext x = \<lparr> ed_recipient = cx_recipient x, ed_ext_amount = scast (ext_i128 (cx_ext_amount x)),
     ed_encrypted_output0 = cx_encrypted_output0 x, ed_encrypted_output1 = cx_encrypted_output1 x \<rparr>"

section \<open>Lemmas\<close>

lemma u256_to_scval_inject: "u256_to_scval v = u256_to_scval w \<longleftrightarrow> v = w"
  by (metis field.sel field_scval_roundtrip sum.inject(2) u256_to_scval_def)

lemma field_wire: "field_to_scval_u256 f = u256_to_scval (field_u256 f)"
  by (simp add: u256_to_scval_def)

lemma of_limbs_div:
  fixes v :: u256
  shows "of_limbs (of_nat (unat v div 2 ^ 192)) (of_nat (unat v div 2 ^ 128)) (of_nat (unat v div 2 ^ 64))
    (of_nat (unat v)) = unat v"
proof -
  have v: "unat v < 2 ^ LENGTH(256)" by (rule unsigned_less)
  have m: "unat (of_nat n :: u64) = n mod 2 ^ 64" for n by (simp add: unat_of_nat)
  have split: "n mod 2 ^ 256 = (n div 2 ^ 192 mod 2 ^ 64) * 2 ^ 192 + (n div 2 ^ 128 mod 2 ^ 64) * 2 ^ 128 +
      (n div 2 ^ 64 mod 2 ^ 64) * 2 ^ 64 + n mod 2 ^ 64" for n :: nat
  proof -
    have step: "a mod (2 ^ 64 * b) = (a div b mod 2 ^ 64) * b + a mod b" for a b :: nat
      by (metis mod_mult2_eq mult.commute)
    have "(2::nat) ^ 256 = 2 ^ 64 * 2 ^ 192" "(2::nat) ^ 192 = 2 ^ 64 * 2 ^ 128" "(2::nat) ^ 128 = 2 ^ 64 * 2 ^ 64"
      by simp_all
    then show ?thesis using step [of n "2 ^ 192"] step [of n "2 ^ 128"] step [of n "2 ^ 64"] by presburger
  qed
  have "unat v mod 2 ^ 256 = unat v" using v by simp
  then show ?thesis using split [of "unat v"] by (simp only: of_limbs_def m)
qed

lemma i256_to_scval_inject: "i256_to_scval v = i256_to_scval w \<longleftrightarrow> v = w"
proof
  assume "i256_to_scval v = i256_to_scval w"
  then have eq: "(of_nat (unat v div 2 ^ 192) :: u64) = of_nat (unat w div 2 ^ 192)"
    "(of_nat (unat v div 2 ^ 128) :: u64) = of_nat (unat w div 2 ^ 128)"
    "(of_nat (unat v div 2 ^ 64) :: u64) = of_nat (unat w div 2 ^ 64)" "(of_nat (unat v) :: u64) = of_nat (unat w)"
    by (simp_all only: i256_to_scval_def sc_val.inject)
  have "unat v = of_limbs (of_nat (unat v div 2 ^ 192)) (of_nat (unat v div 2 ^ 128)) (of_nat (unat v div 2 ^ 64))
    (of_nat (unat v))" by (rule of_limbs_div [symmetric])
  also have "\<dots> = unat w" unfolding eq by (rule of_limbs_div)
  finally have "unat v = unat w" .
  then show "v = w" by (simp add: word_unat_eq_iff)
qed simp

lemma encode_proof:
  assumes "length g = 256" and "length (pt_input_nullifiers prepared) < 2 ^ 32"
    and "length (pt_ext_data_hash_be prepared) = 32"
  shows "pool_proof_to_scval g (pt_pool_root prepared) (pt_input_nullifiers prepared)
    (pt_output_commitments prepared ! 0) (pt_output_commitments prepared ! 1) (pt_public_amount prepared)
    (pt_ext_data_hash_be prepared) (pt_asp_membership_root prepared) (pt_asp_non_membership_root prepared) =
    Inr (pool_proof_wire (submitted_proof g prepared))"
  using assms by (simp add: pool_proof_to_scval_eq groth16_proof_to_scval_eq pool_proof_wire_def
      submitted_proof_def groth16_wire_def field_wire o_def)

lemma encode_ext:
  assumes "length (cx_encrypted_output0 x) < 2 ^ 32" and "length (cx_encrypted_output1 x) < 2 ^ 32"
  shows "pool_ext_data_to_scval S x = (case parse_address S (cx_recipient x) of None \<Rightarrow> Inl InvalidAddress
    | Some addr \<Rightarrow> Inr (ext_data_wire addr (submitted_ext x)))"
  using assms by (simp add: pool_ext_data_to_scval_eq ext_data_wire_def submitted_ext_def
      i128_to_i256_scval_eq split: option.splits)

lemma hash_ext_agrees:
  assumes "same_serialiser S e" and "length (cx_encrypted_output0 x) < 2 ^ 32"
    and "length (cx_encrypted_output1 x) < 2 ^ 32" and "parse_address S (cx_recipient x) = Some addr"
  shows "hash_ext_data_offchain S x = Inr (hash_ext_data e (submitted_ext x))"
proof -
  have "to_xdr S (ext_data_wire addr (submitted_ext x)) = Some (env_xdr e (submitted_ext x))"
    using assms(1,4) by (simp add: same_serialiser_def submitted_ext_def)
  then show ?thesis
    using assms(1,4) by (simp add: hash_ext_data_offchain_eq [OF assms(2,3)] encode_ext [OF assms(2,3)]
        hash_ext_data_def same_serialiser_def Let_def)
qed

section \<open>A transaction of the client at the pool\<close>

definition client_hash :: "stellar_env \<Rightarrow> client_ext_data \<Rightarrow> bytes option" where
  "client_hash S x = (case hash_ext_data_offchain S x of Inl _ \<Rightarrow> None | Inr h \<Rightarrow> Some h)"

lemma client_hash_Some:
  assumes "client_hash S x = Some h" and "length (cx_encrypted_output0 x) < 2 ^ 32"
    and "length (cx_encrypted_output1 x) < 2 ^ 32" and "same_serialiser S e"
  shows "h = hash_ext_data e (submitted_ext x)"
proof -
  obtain addr where addr: "parse_address S (cx_recipient x) = Some addr"
    using assms(1) by (cases "parse_address S (cx_recipient x)")
      (auto simp: client_hash_def hash_ext_data_offchain_eq [OF assms(2,3)] encode_ext [OF assms(2,3)])
  then show ?thesis
    using assms(1) hash_ext_agrees [OF assms(4,2,3) addr] by (simp add: client_hash_def)
qed

lemma scalar_field_canonical:
  assumes "0 \<le> s" and "s < FpBN256_MODULUS" shows "(word_of_int s :: u256) < bn256_modulus"
  using assms by (simp add: word_less_def uint_modulus_Fp uint_of_scalar)

lemma built_canonical:
  assumes b: "built E R H p ins outs ta" and "field_canonical (fc_pool_root p)"
    and "field_canonical (mp_root (fc_membership_proof p))" and "field_canonical (np_root (fc_non_membership_proof p))"
  shows "canonical_inputs (submitted_proof g (ta_prepared ta))"
proof -
  obtain h where prep: "ta_prepared ta = prepared_of p ins outs h" and len: "length outs = 2"
    using b by (auto simp: built_def slots_of_def)
  let ?sk = "private_bytes (fc_priv_key p)"
  have n: "word_of_int (slot_nullifier ?sk x) < bn256_modulus" for x
    by (intro scalar_field_canonical) (simp_all add: slot_nullifier_def note_hash_range)
  have c: "word_of_int (slot_commitment ?sk x) < bn256_modulus" for x
    by (intro scalar_field_canonical) (simp_all add: slot_commitment_def note_hash_range)
  have "field_u256 (ext_field (tp_ext_amount p)) < bn256_modulus"
  proof -
    have "0 < uint bn256_modulus" by (simp add: uint_modulus_Fp FpBN256_pos)
    then show ?thesis by (simp add: ext_field_def word_less_def uint_field_rep pos_mod_bound)
  qed
  then show ?thesis
    using assms(2-4) n c len
    by (simp add: canonical_inputs_def submitted_proof_def prep prepared_of_def Let_def field_canonical_def
        list_all_iff)
qed

lemma built_public_amount:
  assumes "built E R H p ins outs ta"
  shows "\<bar>sint (ed_ext_amount (submitted_ext (ta_ext_data ta)))\<bar> < 2 ^ 248"
    and "uint (pp_public_amount (submitted_proof g (ta_prepared ta))) =
      sint (ed_ext_amount (submitted_ext (ta_ext_data ta))) mod uint bn256_modulus"
proof -
  have sint: "sint (ed_ext_amount (submitted_ext (ta_ext_data ta))) = ext_value (tp_ext_amount p)"
    using assms by (simp add: submitted_ext_def built_def sint_up_scast is_up)
  have "\<bar>ext_value (tp_ext_amount p)\<bar> < 2 ^ 248" using ext_value_bounds [of "tp_ext_amount p"] by (simp add: abs_less_iff)
  then show "\<bar>sint (ed_ext_amount (submitted_ext (ta_ext_data ta)))\<bar> < 2 ^ 248" by (simp add: sint)
  show "uint (pp_public_amount (submitted_proof g (ta_prepared ta))) =
      sint (ed_ext_amount (submitted_ext (ta_ext_data ta))) mod uint bn256_modulus"
    using assms by (auto simp: sint built_def submitted_proof_def prepared_of_def Let_def ext_field_def uint_field_rep)
qed

lemma built_hash:
  assumes "crypto_env_ok E" and "random_sized R" and "same_serialiser S e"
    and "built E R (client_hash S) p ins outs ta"
  shows "pp_ext_data_hash (submitted_proof g (ta_prepared ta)) = hash_ext_data e (submitted_ext (ta_ext_data ta))"
proof -
  obtain h where h: "client_hash S (ta_ext_data ta) = Some h" "ta_prepared ta = prepared_of p ins outs h"
    and enc: "length (cx_encrypted_output0 (ta_ext_data ta)) = 120" "length (cx_encrypted_output1 (ta_ext_data ta)) = 120"
    using assms(4) encrypted_output_length [OF assms(1,2)] by (auto simp: built_def)
  have "h = hash_ext_data e (submitted_ext (ta_ext_data ta))"
    by (rule client_hash_Some [OF h(1) _ _ assms(3)]) (simp_all add: enc)
  then show ?thesis by (simp add: submitted_proof_def h(2) prepared_of_def Let_def)
qed

section \<open>Properties\<close>

text \<open>
  C30: The client encodes contract calls in the wire form that the pool contract receives, and both
  sides hash the external data alike. The encoded proof is the wire form of the struct with the prepared
  values, the encoded external data that of the struct with the amount sign-extended to 256 bits, no two
  integers share a wire form, and for an address that parses the off-chain hash is exactly the hash that
  the contract computes. A recipient that does not parse is refused.
\<close>

theorem client_call_encoding:
  assumes "same_serialiser S e" and "length g = 256" and "length (pt_input_nullifiers prepared) < 2 ^ 32"
    and "length (pt_ext_data_hash_be prepared) = 32"
    and "length (cx_encrypted_output0 x) < 2 ^ 32" and "length (cx_encrypted_output1 x) < 2 ^ 32"
  shows "pool_proof_to_scval g (pt_pool_root prepared) (pt_input_nullifiers prepared)
      (pt_output_commitments prepared ! 0) (pt_output_commitments prepared ! 1) (pt_public_amount prepared)
      (pt_ext_data_hash_be prepared) (pt_asp_membership_root prepared) (pt_asp_non_membership_root prepared) =
      Inr (pool_proof_wire (submitted_proof g prepared)) \<and>
    (u256_to_scval v = u256_to_scval w \<longleftrightarrow> v = w) \<and> (i256_to_scval v = i256_to_scval w \<longleftrightarrow> v = w) \<and>
    sint (ed_ext_amount (submitted_ext x)) = ext_value (cx_ext_amount x) \<and>
    (case parse_address S (cx_recipient x) of
       None \<Rightarrow> pool_ext_data_to_scval S x = Inl InvalidAddress \<and> hash_ext_data_offchain S x = Inl InvalidAddress
     | Some addr \<Rightarrow> pool_ext_data_to_scval S x = Inr (ext_data_wire addr (submitted_ext x)) \<and>
         hash_ext_data_offchain S x = Inr (hash_ext_data e (submitted_ext x)))"
proof (intro conjI)
  show "pool_proof_to_scval g (pt_pool_root prepared) (pt_input_nullifiers prepared)
      (pt_output_commitments prepared ! 0) (pt_output_commitments prepared ! 1) (pt_public_amount prepared)
      (pt_ext_data_hash_be prepared) (pt_asp_membership_root prepared) (pt_asp_non_membership_root prepared) =
      Inr (pool_proof_wire (submitted_proof g prepared))" by (rule encode_proof [OF assms(2-4)])
  show "sint (ed_ext_amount (submitted_ext x)) = ext_value (cx_ext_amount x)"
    by (simp add: submitted_ext_def sint_up_scast is_up)
  show "case parse_address S (cx_recipient x) of
       None \<Rightarrow> pool_ext_data_to_scval S x = Inl InvalidAddress \<and> hash_ext_data_offchain S x = Inl InvalidAddress
     | Some addr \<Rightarrow> pool_ext_data_to_scval S x = Inr (ext_data_wire addr (submitted_ext x)) \<and>
         hash_ext_data_offchain S x = Inr (hash_ext_data e (submitted_ext x))"
    using hash_ext_agrees [OF assms(1,5,6)]
    by (auto simp: encode_ext [OF assms(5,6)] hash_ext_data_offchain_eq [OF assms(5,6)] split: option.splits)
qed (rule u256_to_scval_inject, rule i256_to_scval_inject)

definition sample_stellar :: stellar_env where
  "sample_stellar = \<lparr> parse_address = (\<lambda>s. Some (AccountAddress (ascii s))),
     account_to_string = map (\<lambda>b. char_of (unat b)), contract_to_string = map (\<lambda>b. char_of (unat b)),
     to_xdr = (\<lambda>_. Some []), from_xdr_base64 = (\<lambda>_. None), keccak256 = (\<lambda>_. u256_to_be_bytes 0) \<rparr>"

lemma sample_serialiser: "same_serialiser sample_stellar sample_env"
  by (simp add: same_serialiser_def sample_stellar_def sample_env_def)

definition sample_client :: transact_params where
  "sample_client = sample_transact\<lparr> fc_pool_root := Field (get_zeroes ! 2) \<rparr>"

lemma sample_client_run:
  "\<exists>ta k. flow_transact sample_crypto sample_random (client_hash sample_stellar) sample_client 0 = Inr (ta, k)"
proof (rule flow_transact_total)
  have "client_hash sample_stellar x \<noteq> None"
    if "length (cx_encrypted_output0 x) = 120" "length (cx_encrypted_output1 x) = 120" for x
    using hash_ext_agrees [OF sample_serialiser, of x] that by (simp add: client_hash_def sample_stellar_def)
  then show "services_ok sample_crypto sample_random (client_hash sample_stellar)"
    using sample_services by (simp add: services_ok_def)
  show "keys_typed sample_client (tp_outputs sample_client)" "params_ok sample_client"
    using sample_transact_ok by (simp_all add: sample_client_def keys_typed_def params_ok_def guards_ok_def)
qed

theorem client_call_encoding_witness:
  "hash_ext_data_offchain sample_stellar \<lparr> cx_recipient = ''bob'', cx_ext_amount = ExtAmount (- 3),
      cx_encrypted_output0 = [1], cx_encrypted_output1 = [2] \<rparr> =
    Inr (hash_ext_data sample_env (submitted_ext \<lparr> cx_recipient = ''bob'', cx_ext_amount = ExtAmount (- 3),
      cx_encrypted_output0 = [1], cx_encrypted_output1 = [2] \<rparr>))"
  using client_call_encoding [OF sample_serialiser, of "replicate 256 1"
      "\<lparr> pt_pool_root = Field 1, pt_input_nullifiers = [Field 2, Field 3], pt_output_commitments = [Field 4, Field 5],
         pt_public_amount = Field 6, pt_ext_data_hash_be = replicate 32 0, pt_asp_membership_root = Field 7,
         pt_asp_non_membership_root = Field 8 \<rparr>"
      "\<lparr> cx_recipient = ''bob'', cx_ext_amount = ExtAmount (- 3), cx_encrypted_output0 = [1], cx_encrypted_output1 = [2] \<rparr>"]
  by (simp add: sample_stellar_def)

lemma client_checks:
  assumes "crypto_env_ok E" and "random_sized R" and "same_serialiser S e" and "length g = 256"
    and "flow_transact E R (client_hash S) p n = Inr (ta, k)"
    and "field_canonical (fc_pool_root p)"
    and "field_canonical (mp_root (fc_membership_proof p))" and "field_canonical (np_root (fc_non_membership_proof p))"
  shows "proof_accepted e d leaves spent s (submitted_proof g (ta_prepared ta)) (submitted_ext (ta_ext_data ta)) \<longleftrightarrow>
    field_u256 (fc_pool_root p) \<noteq> 0 \<and>
    field_u256 (fc_pool_root p) \<in> set (recent_roots (root_history (env_poseidon e) d leaves)) \<and>
    field_u256 ` set (pt_input_nullifiers (ta_prepared ta)) \<inter> spent = {} \<and>
    env_membership_root e (the (ps_asp_membership s)) = Some (field_u256 (mp_root (fc_membership_proof p))) \<and>
    env_non_membership_root e (the (ps_asp_non_membership s)) =
      Some (field_u256 (np_root (fc_non_membership_proof p))) \<and>
    env_verify e (the (ps_verifier s)) (pp_proof (submitted_proof g (ta_prepared ta)))
      (pool_public_inputs (submitted_proof g (ta_prepared ta))) = Some True"
proof -
  obtain ins outs where b: "built E R (client_hash S) p ins outs ta"
    using flow_transact_Inr(3) [OF assms(1,5)] by blast
  then obtain h where prep: "ta_prepared ta = prepared_of p ins outs h" by (auto simp: built_def)
  have fields: "pp_root (submitted_proof g (ta_prepared ta)) = field_u256 (fc_pool_root p)"
    "pp_asp_membership_root (submitted_proof g (ta_prepared ta)) = field_u256 (mp_root (fc_membership_proof p))"
    "pp_asp_non_membership_root (submitted_proof g (ta_prepared ta)) = field_u256 (np_root (fc_non_membership_proof p))"
    by (simp_all add: submitted_proof_def prep prepared_of_def Let_def)
  have nulls: "set (pp_input_nullifiers (submitted_proof g (ta_prepared ta))) =
      field_u256 ` set (pt_input_nullifiers (ta_prepared ta))" by (simp add: submitted_proof_def)
  have "\<not> groth16_proof_is_empty (pp_proof (submitted_proof g (ta_prepared ta)))"
    using assms(4) by (auto simp: groth16_proof_is_empty_def submitted_proof_def)
  then show ?thesis
    unfolding proof_accepted_def fields nulls
    using built_hash [OF assms(1-3) b] built_public_amount [OF b] built_canonical [OF b assms(6-8)] by simp
qed

lemma sample_client_accepted:
  assumes "flow_transact sample_crypto sample_random (client_hash sample_stellar) sample_client 0 = Inr (ta, k)"
  shows "proof_accepted sample_env 2 [] {} s (submitted_proof (replicate 256 1) (ta_prepared ta))
      (submitted_ext (ta_ext_data ta))"
proof -
  have c: "field_canonical (Field 3)" "field_canonical (Field 4)" "field_canonical (Field (get_zeroes ! 2))"
    using get_zeroes_nth_canonical [of 2] by (simp_all add: field_canonical_def bn256_modulus_eq u256_eval)
  show ?thesis
    by (subst client_checks [OF sample_crypto_ok sample_random_sized sample_serialiser _ assms])
      (use c sample_root_known in \<open>simp_all add: sample_client_def sample_flow_defs sample_env_def\<close>)
qed

text \<open>
  C27: The pool accepts what the client builds. For a transaction that the client's \<open>transact\<close> returns,
  with the client's hash of the external data, the checks of the pool contract reduce to those that
  depend on the chain: the root is a recent one, the nullifiers are unspent, the two ASP roots are
  current, and the verifier accepts the proof. The hash of the external data, the public amount, its
  range and the canonicity of every public input hold by construction.
\<close>

theorem client_transaction_accepted:
  assumes "crypto_env_ok E" and "random_sized R" and "same_serialiser S e" and "length g = 256"
    and "flow_transact E R (client_hash S) p n = Inr (ta, k)"
    and "field_canonical (fc_pool_root p)"
    and "field_canonical (mp_root (fc_membership_proof p))" and "field_canonical (np_root (fc_non_membership_proof p))"
  shows "proof_accepted e d leaves spent s (submitted_proof g (ta_prepared ta)) (submitted_ext (ta_ext_data ta)) \<longleftrightarrow>
    field_u256 (fc_pool_root p) \<noteq> 0 \<and>
    field_u256 (fc_pool_root p) \<in> set (recent_roots (root_history (env_poseidon e) d leaves)) \<and>
    field_u256 ` set (pt_input_nullifiers (ta_prepared ta)) \<inter> spent = {} \<and>
    env_membership_root e (the (ps_asp_membership s)) = Some (field_u256 (mp_root (fc_membership_proof p))) \<and>
    env_non_membership_root e (the (ps_asp_non_membership s)) =
      Some (field_u256 (np_root (fc_non_membership_proof p))) \<and>
    env_verify e (the (ps_verifier s)) (pp_proof (submitted_proof g (ta_prepared ta)))
      (pool_public_inputs (submitted_proof g (ta_prepared ta))) = Some True"
  by (rule client_checks [OF assms])

theorem client_transaction_accepted_witness:
  "\<exists>ta k s. flow_transact sample_crypto sample_random (client_hash sample_stellar) sample_client 0 = Inr (ta, k) \<and>
    pool_constructor ''admin'' ''token'' ''verifier'' ''aspm'' ''aspn'' 2 empty_pool_store = Inr s \<and>
    proof_accepted sample_env 2 [] {} s (submitted_proof (replicate 256 1) (ta_prepared ta))
      (submitted_ext (ta_ext_data ta))"
proof -
  obtain ta k where run: "flow_transact sample_crypto sample_random (client_hash sample_stellar) sample_client 0 = Inr (ta, k)"
    using sample_client_run by blast
  obtain s where s: "pool_constructor ''admin'' ''token'' ''verifier'' ''aspm'' ''aspn'' 2 empty_pool_store = Inr s"
    using sample_constructed by blast
  have c: "field_canonical (Field 3)" "field_canonical (Field 4)" "field_canonical (Field (get_zeroes ! 2))"
    using get_zeroes_nth_canonical [of 2] by (simp_all add: field_canonical_def bn256_modulus_eq u256_eval)
  have "proof_accepted sample_env 2 [] {} s (submitted_proof (replicate 256 1) (ta_prepared ta))
      (submitted_ext (ta_ext_data ta))"
    by (subst client_transaction_accepted [OF sample_crypto_ok sample_random_sized sample_serialiser _ run])
      (use c sample_root_known in \<open>simp_all add: sample_client_def sample_flow_defs sample_env_def\<close>)
  with run s show ?thesis by blast
qed

section \<open>Events of the contracts\<close>

text \<open>Names, topics and fields as the attributes of the event structs declare them.\<close>

fun pool_event_wire :: "stellar_env \<Rightarrow> pool_event \<Rightarrow> contract_event \<Rightarrow> bool" where
  "pool_event_wire S (NewCommitmentEvent c i enc) ev \<longleftrightarrow>
    wire_event S ''new_commitment_event'' [u256_to_scval c]
      [(''encrypted_output'', ScBytes enc), (''index'', ScU32 i)] ev"
| "pool_event_wire S (NewNullifierEvent n) ev \<longleftrightarrow>
    wire_event S ''new_nullifier_event'' [u256_to_scval n] [] ev"

definition leaf_added_wire :: "stellar_env \<Rightarrow> leaf_added_event \<Rightarrow> contract_event \<Rightarrow> bool" where
  "leaf_added_wire S l ev \<longleftrightarrow>
    wire_event S ''LeafAdded'' [] [(''index'', ScU64 (la_index l)), (''leaf'', u256_to_scval (la_leaf l)),
      (''root'', u256_to_scval (la_root l))] ev"

definition public_key_wire :: "stellar_env \<Rightarrow> sc_address \<Rightarrow> public_key_event \<Rightarrow> contract_event \<Rightarrow> bool" where
  "public_key_wire S addr p ev \<longleftrightarrow>
    scval_to_address_string S (ScAddress addr) = Inr (pk_owner p) \<and>
    wire_event S ''public_key_event'' [ScAddress addr] [(''encryption_key'', ScBytes (pk_encryption_key p)),
      (''note_key'', ScBytes (pk_note_key p))] ev"

fun smt_event_wire :: "stellar_env \<Rightarrow> smt_event \<Rightarrow> contract_event \<Rightarrow> bool" where
  "smt_event_wire S (LeafInsertedEvent key val root) ev \<longleftrightarrow>
    wire_event S ''LeafInserted'' [] [(''key'', u256_to_scval key), (''root'', u256_to_scval root),
      (''value'', u256_to_scval val)] ev"
| "smt_event_wire S (LeafDeletedEvent key root) ev \<longleftrightarrow>
    wire_event S ''LeafDeleted'' [] [(''key'', u256_to_scval key), (''root'', u256_to_scval root)] ev"

lemma from_utf8_ascii: "list_all (\<lambda>c. (of_char c :: nat) < 128) s \<Longrightarrow> from_utf8 s = Some s"
  by (simp add: from_utf8_def utf8_valid_ascii list_all_iff)

lemma scval_to_field_canonical: "v < bn256_modulus \<Longrightarrow> scval_to_field (u256_to_scval v) = Inr (Field v)"
  by (simp add: scval_to_field_u256 field_try_from_u256_canonical)

lemmas parse_defs = parse_event_def parse_new_commitment_event_def parse_new_nullifier_event_def
  parse_leaf_added_def parse_public_key_event_def parse_leaf_inserted_def parse_leaf_deleted_def
  first_topic_def event_value_def vec_get_def scval_to_u32_def scval_to_u64_def scval_to_bytes_def
  key_from_bytes_def

lemma pool_events_parse:
  "pool_event_wire S (NewCommitmentEvent c i enc) ev \<Longrightarrow> parse_event S ev =
    (if c < bn256_modulus then Inr (Commitment (ce_id ev) (Field c) i enc)
     else Inl (EventField FieldElementOutOfRange))"
  "pool_event_wire S (NewNullifierEvent c) ev \<Longrightarrow> parse_event S ev =
    (if c < bn256_modulus then Inr (Nullifier (ce_id ev) (Field c))
     else Inl (EventField FieldElementOutOfRange))"
  by (simp_all add: parse_event_metadata_wire from_utf8_ascii parse_defs scval_to_field_u256
      field_try_from_u256_def field_modulus_eq Let_def linorder_not_less [symmetric])

lemma asp_events_parse:
  "leaf_added_wire S l ev \<Longrightarrow> la_leaf l < bn256_modulus \<Longrightarrow> la_root l < bn256_modulus \<Longrightarrow> la_index l < 2 ^ 32 \<Longrightarrow>
    parse_event S ev = Inr (LeafAdded (ce_id ev) (Field (la_leaf l)) (la_index l) (Field (la_root l)))"
  "smt_event_wire S (LeafInsertedEvent key val root) ev \<Longrightarrow> key < bn256_modulus \<Longrightarrow> val < bn256_modulus \<Longrightarrow>
    root < bn256_modulus \<Longrightarrow> parse_event S ev = Inr (LeafInserted (ce_id ev) (Field key) (Field val) (Field root))"
  "smt_event_wire S (LeafDeletedEvent key root) ev \<Longrightarrow> key < bn256_modulus \<Longrightarrow> root < bn256_modulus \<Longrightarrow>
    parse_event S ev = Inr (LeafDeleted (ce_id ev) (Field key) (Field root))"
  by (simp_all add: leaf_added_wire_def parse_event_metadata_wire from_utf8_ascii parse_defs scval_to_field_canonical)

lemma public_key_event_parse:
  "public_key_wire S addr p ev \<Longrightarrow> length (pk_encryption_key p) = 32 \<Longrightarrow> length (pk_note_key p) = 32 \<Longrightarrow>
    parse_event S ev = Inr (PublicKey (ce_id ev) (pk_owner p) (EncryptionPublicKey (pk_encryption_key p))
      (NotePublicKey (pk_note_key p)))"
  unfolding public_key_wire_def
  by (elim conjE) (simp add: parse_event_metadata_wire from_utf8_ascii parse_defs)

text \<open>
  C31: The client's parsers invert the events of the contracts. An event of the pool, of the ASP
  contracts or of the key registry in the wire form that the SDK documents is parsed to exactly the
  values that the contract emitted, provided that field elements are below the modulus, keys have 32 bytes
  and a leaf index is below \<open>2 ^ 32\<close>, as the contracts ensure; a commitment or nullifier out of range is
  refused.
\<close>

theorem contract_events_parse:
  "(pool_event_wire S (NewCommitmentEvent c i enc) ev \<longrightarrow> parse_event S ev =
      (if c < bn256_modulus then Inr (Commitment (ce_id ev) (Field c) i enc)
       else Inl (EventField FieldElementOutOfRange))) \<and>
    (pool_event_wire S (NewNullifierEvent c) ev \<longrightarrow> parse_event S ev =
      (if c < bn256_modulus then Inr (Nullifier (ce_id ev) (Field c))
       else Inl (EventField FieldElementOutOfRange))) \<and>
    (leaf_added_wire S l ev \<and> la_leaf l < bn256_modulus \<and> la_root l < bn256_modulus \<and> la_index l < 2 ^ 32 \<longrightarrow>
      parse_event S ev = Inr (LeafAdded (ce_id ev) (Field (la_leaf l)) (la_index l) (Field (la_root l)))) \<and>
    (smt_event_wire S (LeafInsertedEvent key val root) ev \<and> key < bn256_modulus \<and> val < bn256_modulus \<and>
      root < bn256_modulus \<longrightarrow> parse_event S ev = Inr (LeafInserted (ce_id ev) (Field key) (Field val) (Field root))) \<and>
    (smt_event_wire S (LeafDeletedEvent key root) ev \<and> key < bn256_modulus \<and> root < bn256_modulus \<longrightarrow>
      parse_event S ev = Inr (LeafDeleted (ce_id ev) (Field key) (Field root))) \<and>
    (public_key_wire S addr p ev \<and> length (pk_encryption_key p) = 32 \<and> length (pk_note_key p) = 32 \<longrightarrow>
      parse_event S ev = Inr (PublicKey (ce_id ev) (pk_owner p) (EncryptionPublicKey (pk_encryption_key p))
        (NotePublicKey (pk_note_key p))))"
  by (intro conjI impI) (simp_all add: pool_events_parse asp_events_parse public_key_event_parse [of S addr p ev]
      del: pool_event_wire.simps smt_event_wire.simps)

text \<open>An event store that decodes three texts.\<close>

definition sample_events :: stellar_env where
  "sample_events = sample_stellar\<lparr> from_xdr_base64 := (\<lambda>t. if t = ''n'' then Some (ScSymbol ''new_commitment_event'')
     else if t = ''c'' then Some (u256_to_scval 5)
     else Some (ScMap (Some [(ScSymbol ''encrypted_output'', ScBytes [1]), (ScSymbol ''index'', ScU32 7)]))) \<rparr>"

theorem contract_events_parse_witness:
  "parse_event sample_events \<lparr> ce_id = ''e1'', ce_ledger = 3, ce_contract_id = ''pool'', ce_topics = [''n'', ''c''],
      ce_value = ''v'' \<rparr> = Inr (Commitment ''e1'' (Field 5) 7 [1])"
proof -
  let ?ev = "\<lparr> ce_id = ''e1'', ce_ledger = 3, ce_contract_id = ''pool'', ce_topics = [''n'', ''c''], ce_value = ''v'' \<rparr>"
  have "pool_event_wire sample_events (NewCommitmentEvent 5 7 [1]) ?ev"
    by (simp add: wire_event_def sample_events_def sample_stellar_def)
  moreover have "(5 :: u256) < bn256_modulus" by (simp add: bn256_modulus_eq u256_eval)
  ultimately show ?thesis
    using contract_events_parse [of sample_events 5 7 "[1]" ?ev] by auto
qed

text \<open>
  C26: A note reaches its recipient. Let the client build a transaction with an output of positive amount
  for a recipient, let the pool contract execute it (on a tree with room), and let the recipient's client
  receive the commitment event of that output in the wire form. Then the event parses to the commitment
  at the next free leaf of the pool's tree, and note discovery with the recipient's keys returns the
  amount and the blinding of the output.
\<close>

theorem note_reaches_recipient:
  assumes "crypto_env_ok E" and "random_sized R" and "flow_transact E R (client_hash S) p n = Inr (ta, k)"
    and "i < length (tp_outputs p)" and "tp_outputs p ! i = out"
    and "field_canonical (out_blinding out)" and "0 < note_value (out_amount out)"
    and "length esk = 32" and "length nsk = 32"
    and "recipient_encryption_key (fc_encryption_pubkey p) out = EncryptionPublicKey (x25519_public E esk)"
    and "recipient_note_key (sender_key (private_bytes (fc_priv_key p))) out = sender_key nsk"
    and "host_permutation_ok (env_poseidon e)" and "zero_table_ok (env_poseidon e)"
    and "pool_rel (env_poseidon e) d leaves spent s" and "length leaves + 2 \<le> 2 ^ d"
    and "internal_transact e (submitted_proof g (ta_prepared ta)) (submitted_ext (ta_ext_data ta)) s w =
      Inr (evs, s', w')"
    and "pool_event_wire S (evs ! (2 + i)) ev"
  shows "\<exists>c enc nullifier. parse_event S ev = Inr (Commitment (ce_id ev) c (length leaves + i) enc) \<and>
    pool_rel (env_poseidon e) d (leaves @ map field_u256 (pt_output_commitments (ta_prepared ta)))
      (spent \<union> field_u256 ` set (pt_input_nullifiers (ta_prepared ta))) s' \<and>
    c = pt_output_commitments (ta_prepared ta) ! i \<and>
    try_decrypt_and_derive_user_note E
      \<lparr> note_private = NotePrivateKey nsk, note_public = NotePublicKey (sender_key nsk) \<rparr>
      (EncryptionPrivateKey esk) c (length leaves + i) enc =
    Inr (Some \<lparr> derived_amount = out_amount out, derived_blinding = out_blinding out,
      expected_nullifier = nullifier \<rparr>)"
proof -
  let ?proof = "submitted_proof g (ta_prepared ta)" and ?ext = "submitted_ext (ta_ext_data ta)"
  obtain ins outs h where b: "built E R (client_hash S) p ins outs ta"
    and prep: "ta_prepared ta = prepared_of p ins outs h"
    using flow_transact_Inr(3) [OF assms(1,3)] by (auto simp: built_def)
  have len: "length ins = 2" "length outs = 2" and i: "i < 2"
    using b assms(4) by (auto simp: built_def slots_of_def)
  have acc: "proof_accepted e d leaves spent s ?proof ?ext"
    using assms(16) transact_checks_iff [OF assms(14)] by (simp add: internal_transact_Inr_iff)
  obtain tree m where run: "\<And>w evs s' w'. internal_transact e ?proof ?ext s w = Inr (evs, s', w') \<longleftrightarrow>
      process_withdrawal e ?ext s w = Inr w' \<and> evs = tx_events ?proof ?ext (length leaves) \<and>
      s' = s\<lparr>ps_nullifiers := Some m, ps_tree := tree\<rparr>"
    and rel: "pool_rel (env_poseidon e) d (leaves @ [pp_output_commitment0 ?proof, pp_output_commitment1 ?proof])
      (spent \<union> set (pp_input_nullifiers ?proof)) (s\<lparr>ps_nullifiers := Some m, ps_tree := tree\<rparr>)"
    using internal_transact_accepted [OF assms(12-14) acc assms(15)] by blast
  have evs: "evs = tx_events ?proof ?ext (length leaves)" and s': "s' = s\<lparr>ps_nullifiers := Some m, ps_tree := tree\<rparr>"
    using assms(16) run by auto
  have comms: "pt_output_commitments (ta_prepared ta) = [pt_output_commitments (ta_prepared ta) ! 0,
      pt_output_commitments (ta_prepared ta) ! 1]" and nulls: "length (pp_input_nullifiers ?proof) = 2"
    using len by (auto simp: prep prepared_of_def Let_def submitted_proof_def length_Suc_conv numeral_2_eq_2)
  let ?c = "pt_output_commitments (ta_prepared ta) ! i"
  let ?enc = "if i = 0 then cx_encrypted_output0 (ta_ext_data ta) else cx_encrypted_output1 (ta_ext_data ta)"
  have ev: "evs ! (2 + i) = NewCommitmentEvent (field_u256 ?c) (length leaves + i) ?enc"
    using i nulls by (auto simp: evs tx_events_def nth_append submitted_proof_def submitted_ext_def less_2_cases_iff)
  have "field_u256 ?c < bn256_modulus"
    using acc i by (auto simp: proof_accepted_def canonical_inputs_def submitted_proof_def less_2_cases_iff)
  then have parse: "parse_event S ev = Inr (Commitment (ce_id ev) ?c (length leaves + i) ?enc)"
    using pool_events_parse(1) assms(17) unfolding ev by simp
  have "d \<le> 32" using assms(14) by (simp add: pool_rel_def pool_tree_rel_def)
  then have "length leaves + i < 2 ^ 32"
    using assms(15) i power_increasing [of d 32 "2::nat"] by linarith
  note found = output_discovered [OF assms(1-9) this assms(10,11)]
  have "pool_rel (env_poseidon e) d (leaves @ map field_u256 (pt_output_commitments (ta_prepared ta)))
      (spent \<union> field_u256 ` set (pt_input_nullifiers (ta_prepared ta))) s'"
    using rel unfolding s' by (subst comms) (simp add: submitted_proof_def)
  with parse found show ?thesis by blast
qed

text \<open>An event store that holds one commitment event.\<close>

definition stored_event :: "u256 \<Rightarrow> nat \<Rightarrow> bytes \<Rightarrow> stellar_env" where
  "stored_event c i enc = sample_stellar\<lparr> from_xdr_base64 := (\<lambda>t.
     if t = ''n'' then Some (ScSymbol ''new_commitment_event'') else if t = ''c'' then Some (u256_to_scval c)
     else Some (ScMap (Some [(ScSymbol ''encrypted_output'', ScBytes enc), (ScSymbol ''index'', ScU32 i)]))) \<rparr>"

lemma stored_event_hash: "client_hash (stored_event c i enc) = client_hash sample_stellar"
  by (simp add: fun_eq_iff client_hash_def hash_ext_data_offchain_def stored_event_def)

lemma sample_internal_transact:
  assumes "flow_transact sample_crypto sample_random (client_hash sample_stellar) sample_client 0 = Inr (ta, k)"
  shows "\<exists>s evs s'. pool_rel sample_host 2 [] {} s \<and>
    internal_transact sample_env (submitted_proof (replicate 256 1) (ta_prepared ta)) (submitted_ext (ta_ext_data ta))
      s sample_ledger = Inr (evs, s', sample_ledger) \<and>
    evs ! 2 = NewCommitmentEvent (field_u256 (pt_output_commitments (ta_prepared ta) ! 0)) 0
      (cx_encrypted_output0 (ta_ext_data ta))"
proof -
  let ?proof = "submitted_proof (replicate 256 1) (ta_prepared ta)" and ?ext = "submitted_ext (ta_ext_data ta)"
  obtain s where s: "pool_constructor ''admin'' ''token'' ''verifier'' ''aspm'' ''aspn'' 2 empty_pool_store = Inr s"
    using sample_constructed by blast
  have P: "env_poseidon sample_env = sample_host" by (simp add: sample_env_def)
  have rel: "pool_rel sample_host 2 [] {} s" by (rule pool_constructor_rel [OF sample_host_zero_table s])
  obtain ins outs where b: "built sample_crypto sample_random (client_hash sample_stellar) sample_client ins outs ta"
    using flow_transact_Inr(3) [OF sample_crypto_ok assms] by blast
  have nulls: "length (pp_input_nullifiers ?proof) = 2"
    using b by (auto simp: built_def slots_of_def submitted_proof_def prepared_of_def Let_def)
  have "0 \<le> sint (ed_ext_amount ?ext)"
    using b by (simp add: built_def submitted_ext_def sint_up_scast is_up sample_client_def sample_flow_defs)
  then have "process_withdrawal sample_env ?ext s sample_ledger = Inr sample_ledger"
    using rel by (auto simp: process_withdrawal_def get_token_def pool_rel_def outcome_simps)
  then obtain s' where "internal_transact sample_env ?proof ?ext s sample_ledger =
      Inr (tx_events ?proof ?ext 0, s', sample_ledger)"
    using internal_transact_accepted [of sample_env 2 "[]" "{}" s ?proof ?ext] sample_client_accepted [OF assms, of s]
      rel sample_host_ok sample_host_zero_table unfolding P by auto
  moreover have "tx_events ?proof ?ext 0 ! 2 = NewCommitmentEvent (field_u256 (pt_output_commitments (ta_prepared ta) ! 0)) 0
      (cx_encrypted_output0 (ta_ext_data ta))"
    using nulls by (simp add: tx_events_def nth_append) (simp add: submitted_proof_def submitted_ext_def)
  ultimately show ?thesis using rel by metis
qed

theorem note_reaches_recipient_witness:
  "\<exists>S ta k s evs s' ev c enc nullifier.
    flow_transact sample_crypto sample_random (client_hash S) sample_client 0 = Inr (ta, k) \<and>
    internal_transact sample_env (submitted_proof (replicate 256 1) (ta_prepared ta)) (submitted_ext (ta_ext_data ta))
      s sample_ledger = Inr (evs, s', sample_ledger) \<and>
    parse_event S ev = Inr (Commitment (ce_id ev) c 0 enc) \<and>
    try_decrypt_and_derive_user_note sample_crypto
      \<lparr> note_private = NotePrivateKey sample_secret, note_public = NotePublicKey (sender_key sample_secret) \<rparr>
      (EncryptionPrivateKey sample_encryption_secret) c 0 enc =
    Inr (Some \<lparr> derived_amount = NoteAmount 9, derived_blinding = Field 5, expected_nullifier = nullifier \<rparr>)"
proof -
  obtain ta k where ta: "flow_transact sample_crypto sample_random (client_hash sample_stellar) sample_client 0 = Inr (ta, k)"
    using sample_client_run by blast
  obtain s evs s' where rel: "pool_rel sample_host 2 [] {} s"
    and run: "internal_transact sample_env (submitted_proof (replicate 256 1) (ta_prepared ta))
      (submitted_ext (ta_ext_data ta)) s sample_ledger = Inr (evs, s', sample_ledger)"
    and evs: "evs ! 2 = NewCommitmentEvent (field_u256 (pt_output_commitments (ta_prepared ta) ! 0)) 0
      (cx_encrypted_output0 (ta_ext_data ta))"
    using sample_internal_transact [OF ta] by blast
  define S where "S = stored_event (field_u256 (pt_output_commitments (ta_prepared ta) ! 0)) 0
    (cx_encrypted_output0 (ta_ext_data ta))"
  define ev where "ev = \<lparr> ce_id = ''e1'', ce_ledger = 3, ce_contract_id = ''pool'', ce_topics = [''n'', ''c''], ce_value = ''v'' \<rparr>"
  have wire: "pool_event_wire S (evs ! (2 + 0)) ev"
    by (simp add: evs wire_event_def S_def ev_def stored_event_def)
  have ta': "flow_transact sample_crypto sample_random (client_hash S) sample_client 0 = Inr (ta, k)"
    using ta by (simp add: S_def stored_event_hash)
  have P: "env_poseidon sample_env = sample_host" by (simp add: sample_env_def)
  have five: "field_canonical (Field 5)" by (simp add: field_canonical_def bn256_modulus_eq u256_eval)
  let ?out = "self_output (NoteAmount (of_nat 9)) (Field 5)"
  have "\<exists>c enc nullifier. parse_event S ev = Inr (Commitment (ce_id ev) c (length ([] :: u256 list) + 0) enc) \<and>
    pool_rel (env_poseidon sample_env) 2 ([] @ map field_u256 (pt_output_commitments (ta_prepared ta)))
      ({} \<union> field_u256 ` set (pt_input_nullifiers (ta_prepared ta))) s' \<and>
    c = pt_output_commitments (ta_prepared ta) ! 0 \<and>
    try_decrypt_and_derive_user_note sample_crypto
      \<lparr> note_private = NotePrivateKey sample_secret, note_public = NotePublicKey (sender_key sample_secret) \<rparr>
      (EncryptionPrivateKey sample_encryption_secret) c (length ([] :: u256 list) + 0) enc =
    Inr (Some \<lparr> derived_amount = out_amount ?out, derived_blinding = out_blinding ?out, expected_nullifier = nullifier \<rparr>)"
    by (rule note_reaches_recipient [OF sample_crypto_ok sample_random_sized ta' _ _ _ _ _ _ _ _ _ _ _ _ run wire])
      (simp_all add: P sample_host_ok sample_host_zero_table rel five sample_client_def sample_flow_defs
        recipient_encryption_key_def recipient_note_key_def)
  then obtain c enc nullifier where res: "parse_event S ev = Inr (Commitment (ce_id ev) c 0 enc)"
    "try_decrypt_and_derive_user_note sample_crypto
      \<lparr> note_private = NotePrivateKey sample_secret, note_public = NotePublicKey (sender_key sample_secret) \<rparr>
      (EncryptionPrivateKey sample_encryption_secret) c 0 enc =
    Inr (Some \<lparr> derived_amount = NoteAmount 9, derived_blinding = Field 5, expected_nullifier = nullifier \<rparr>)"
    by (auto simp: self_output_def)
  show ?thesis by (intro exI conjI) (rule ta' run res)+
qed

end
