(* ===== verification/Storage.thy ===== *)
theory Storage
  imports Event_Parsers "HOL-Library.Product_Lexorder" "HOL-Library.Multiset"
begin

text \<open>
  The local database of the client (\<open>app/crates/core/state/src/storage.rs\<close>, \<open>schema.sql\<close>) and the
  statements it runs. A table is the list of its rows in the order of insertion; a row is a record with
  the columns of the schema, holding the Rust values, which \<open>Amounts\<close> shows to survive the conversion to
  columns and back. An \<open>INTEGER PRIMARY KEY\<close> takes the successor of the largest key, as SQLite documents.
  A query whose \<open>ORDER BY\<close> leaves rows tied, or that has none, may return them in any order: the parameter
  \<open>plan\<close> picks the order in which SQLite visits \<open>n\<close> rows. Failures of the disk are not modelled.
\<close>

section \<open>Rows\<close>

record contract_row =
  ct_id :: nat
  ct_address :: string

record indexing_row =
  ix_contract :: nat
  ix_last_cursor :: "string option"
  ix_last_indexed :: nat
  ix_last_fully_indexed :: nat

record raw_event_row =
  raw_id :: string
  raw_ledger :: nat
  raw_contract :: nat
  raw_topics :: string
  raw_value :: string

record account_row =
  acc_id :: nat
  acc_address :: string

record stored_user_keys =
  sk_note_keypair :: note_key_pair
  sk_encryption_keypair :: encryption_key_pair
  sk_membership_blinding :: field

record keypair_row =
  kp_id :: nat
  kp_keys :: stored_user_keys
  kp_account :: "nat option"

record nullifier_row =
  nl_id :: nat
  nl_nullifier :: field
  nl_event :: string

record commitment_row =
  cm_id :: nat
  cm_commitment :: field
  cm_leaf_index :: nat
  cm_encrypted_output :: bytes
  cm_event :: string

record public_key_row =
  pk_owner :: string
  pk_encryption_key :: encryption_public_key
  pk_note_key :: note_public_key
  pk_event :: string

record asp_leaf_row =
  al_index :: nat
  al_leaf :: field
  al_root :: field
  al_event :: string

record user_note_row =
  un_id :: field
  un_account :: nat
  un_commitment :: nat
  un_nullifier :: "nat option"
  un_expected :: field
  un_blinding :: field
  un_amount :: note_amount

record commitment_scan_row =
  cs_pool :: nat
  cs_account :: nat
  cs_last :: nat

record nullifier_scan_row =
  ns_pool :: nat
  ns_last :: nat

record acceptance_row =
  da_account :: nat
  da_hash :: string
  da_accepted_at :: nat

record operation_row =
  op_id :: nat
  op_address :: string
  op_pool :: string
  op_type :: string
  op_amount :: string
  op_direction :: string
  op_counterparty :: "string option"
  op_tx_hash :: "string option"
  op_created_at :: nat

record storage =
  db_contracts :: "contract_row list"
  db_indexing :: "indexing_row list"
  db_raw :: "raw_event_row list"
  db_accounts :: "account_row list"
  db_keypairs :: "keypair_row list"
  db_nullifiers :: "nullifier_row list"
  db_commitments :: "commitment_row list"
  db_public_keys :: "public_key_row list"
  db_asp_leaves :: "asp_leaf_row list"
  db_user_notes :: "user_note_row list"
  db_commitment_scan :: "commitment_scan_row list"
  db_nullifier_scan :: "nullifier_scan_row list"
  db_acceptances :: "acceptance_row list"
  db_settings :: "(string \<times> string) list"
  db_operations :: "operation_row list"

definition empty_storage :: storage where
  "empty_storage =
    \<lparr> db_contracts = [], db_indexing = [], db_raw = [], db_accounts = [], db_keypairs = [], db_nullifiers = [],
      db_commitments = [], db_public_keys = [], db_asp_leaves = [], db_user_notes = [],
      db_commitment_scan = [], db_nullifier_scan = [], db_acceptances = [], db_settings = [], db_operations = [] \<rparr>"

datatype storage_error =
    ConstraintViolation
  | QueryReturnedNoRows
  | IntegralValueOutOfRange nat nat
  | DisclaimerHashMismatch
  | SettingDecode
  | BalanceOverflow
  | IndexGap nat nat
  | IndexOverflow
  | RootMismatch nat
  | PoolCountExceedsU32
  | BatchExceedsU32
  | DeriveFailed "prover_error fault"

section \<open>Statements\<close>

text \<open>
  A method that opens a transaction returns its result with the new database; when the transaction is
  dropped before \<open>commit\<close>, SQLite rolls it back. A method with several transactions keeps those that
  committed before a failure, so that a failed method may still return a changed database.
\<close>

type_synonym 'a stored = "(storage_error + 'a) \<times> storage"

definition transaction :: "(storage \<Rightarrow> storage_error + 'a \<times> storage) \<Rightarrow> storage \<Rightarrow> 'a stored" where
  "transaction f s = (case f s of Inl e \<Rightarrow> (Inl e, s) | Inr (x, s') \<Rightarrow> (Inr x, s'))"

definition and_then :: "'a stored \<Rightarrow> ('a \<Rightarrow> storage \<Rightarrow> 'b stored) \<Rightarrow> 'b stored" where
  "and_then m f = (case m of (Inl e, s) \<Rightarrow> (Inl e, s) | (Inr x, s) \<Rightarrow> f x s)"

fun fold_ok :: "('a \<Rightarrow> 's \<Rightarrow> 'e + 's) \<Rightarrow> 'a list \<Rightarrow> 's \<Rightarrow> 'e + 's" where
  "fold_ok f [] s = Inr s"
| "fold_ok f (x # xs) s = let_ok (f x s) (fold_ok f xs)"

definition next_rowid :: "nat list \<Rightarrow> nat" where
  "next_rowid ids = Suc (foldr max ids 0)"

text \<open>The row with a given key: a join on a primary or unique key.\<close>

definition row_by :: "('r \<Rightarrow> 'k) \<Rightarrow> 'r list \<Rightarrow> 'k \<Rightarrow> 'r option" where
  "row_by key rows k = List.find (\<lambda>r. key r = k) rows"

definition visited :: "(nat \<Rightarrow> nat list) \<Rightarrow> 'r list \<Rightarrow> 'r list" where
  "visited plan rows = map ((!) rows) (plan (length rows))"

definition plan_ok :: "(nat \<Rightarrow> nat list) \<Rightarrow> bool" where
  "plan_ok plan \<longleftrightarrow> (\<forall>n. mset (plan n) = mset [0..<n])"

definition order_by_desc :: "(nat \<Rightarrow> nat list) \<Rightarrow> ('r \<Rightarrow> nat) \<Rightarrow> 'r list \<Rightarrow> 'r list" where
  "order_by_desc plan key rows = rev (sort_key key (visited plan rows))"

definition order_by :: "(nat \<Rightarrow> nat list) \<Rightarrow> ('r \<Rightarrow> 'k::linorder) \<Rightarrow> 'r list \<Rightarrow> 'r list" where
  "order_by plan key rows = sort_key key (visited plan rows)"

text \<open>
  \<open>INSERT ... ON CONFLICT(key) DO NOTHING\<close> into a table that is derived from events: a row whose key is
  taken is skipped, before the uniqueness of \<open>event_id\<close> and its foreign key are checked.
\<close>

definition insert_derived ::
  "('r \<Rightarrow> 'k) \<Rightarrow> ('r \<Rightarrow> string) \<Rightarrow> raw_event_row list \<Rightarrow> 'r \<Rightarrow> 'r list \<Rightarrow> storage_error + 'r list" where
  "insert_derived key event raw r rows =
    (if key r \<in> key ` set rows then Inr rows
     else if event r \<in> event ` set rows \<or> event r \<notin> raw_id ` set raw then Inl ConstraintViolation
     else Inr (rows @ [r]))"

definition col_u32 :: "nat \<Rightarrow> nat \<Rightarrow> storage_error + nat" where
  "col_u32 val col = (if val < 2 ^ 32 then Inr val else Inl (IntegralValueOutOfRange col val))"

section \<open>Contracts and accounts\<close>

definition get_or_create_account :: "string \<Rightarrow> storage \<Rightarrow> nat \<times> storage" where
  "get_or_create_account address s =
    (case row_by acc_address (db_accounts s) address of
       Some a \<Rightarrow> (acc_id a, s)
     | None \<Rightarrow>
         let i = next_rowid (map acc_id (db_accounts s)) in
         (i, s\<lparr> db_accounts := db_accounts s @ [\<lparr> acc_id = i, acc_address = address \<rparr>] \<rparr>))"

definition get_or_create_contract_id :: "string \<Rightarrow> storage \<Rightarrow> nat \<times> storage" where
  "get_or_create_contract_id address s =
    (case row_by ct_address (db_contracts s) address of
       Some c \<Rightarrow> (ct_id c, s)
     | None \<Rightarrow>
         let i = next_rowid (map ct_id (db_contracts s)) in
         (i, s\<lparr> db_contracts := db_contracts s @ [\<lparr> ct_id = i, ct_address = address \<rparr>] \<rparr>))"

text \<open>The joins that most queries share: the event of a derived row and the contract that emitted it.\<close>

definition event_row :: "storage \<Rightarrow> string \<Rightarrow> raw_event_row option" where
  "event_row s eid = row_by raw_id (db_raw s) eid"

definition event_contract :: "storage \<Rightarrow> string \<Rightarrow> nat option" where
  "event_contract s eid = map_option raw_contract (event_row s eid)"

definition event_address :: "storage \<Rightarrow> string \<Rightarrow> string option" where
  "event_address s eid =
    Option.bind (event_contract s eid) (\<lambda>c. map_option ct_address (row_by ct_id (db_contracts s) c))"

text \<open>The event of a derived row when a given contract emitted it.\<close>

definition emitted_row :: "storage \<Rightarrow> string \<Rightarrow> string \<Rightarrow> raw_event_row option" where
  "emitted_row s contract eid = (if event_address s eid = Some contract then event_row s eid else None)"

section \<open>Ingestion\<close>

record contracts_event_data =
  ed_events :: "contract_event list"
  ed_cursor :: string
  ed_latest_ledger :: nat

record sync_metadata =
  sm_contract_id :: string
  sm_cursor :: string
  sm_last_indexed :: nat
  sm_last_fully_indexed :: nat

fun join_topics :: "string list \<Rightarrow> string" where
  "join_topics [] = []"
| "join_topics [t] = t"
| "join_topics (t # u # ts) = t @ CHR '','' # join_topics (u # ts)"

fun split_topics :: "string \<Rightarrow> string list" where
  "split_topics [] = [[]]"
| "split_topics (c # cs) =
    (if c = CHR '','' then [] # split_topics cs
     else case split_topics cs of [] \<Rightarrow> [[c]] | t # ts \<Rightarrow> (c # t) # ts)"

definition save_event :: "contract_event \<Rightarrow> storage \<Rightarrow> storage" where
  "save_event e s =
    (let (cid, s') = get_or_create_contract_id (ce_contract_id e) s in
     if ce_id e \<in> raw_id ` set (db_raw s') then s'
     else s'\<lparr> db_raw := db_raw s' @ [\<lparr> raw_id = ce_id e, raw_ledger = ce_ledger e, raw_contract = cid,
                raw_topics = join_topics (ce_topics e), raw_value = ce_value e \<rparr>] \<rparr>)"

definition save_events_batch :: "contracts_event_data \<Rightarrow> storage \<Rightarrow> unit stored" where
  "save_events_batch data = transaction (\<lambda>s. Inr ((), fold save_event (ed_events data) s))"

definition save_progress :: "bool \<Rightarrow> sync_metadata \<Rightarrow> storage \<Rightarrow> storage" where
  "save_progress fully_indexed entry s =
    (let (cid, s') = get_or_create_contract_id (sm_contract_id entry) s;
         fresh = \<lparr> ix_contract = cid, ix_last_cursor = Some (sm_cursor entry),
                   ix_last_indexed = sm_last_indexed entry, ix_last_fully_indexed = 0 \<rparr>;
         rows = (if cid \<in> ix_contract ` set (db_indexing s') then db_indexing s' else db_indexing s' @ [fresh]);
         upd = (\<lambda>r. if ix_contract r \<noteq> cid then r
                else if fully_indexed then
                  r\<lparr> ix_last_cursor := Some (sm_cursor entry), ix_last_indexed := sm_last_indexed entry,
                     ix_last_fully_indexed := sm_last_indexed entry \<rparr>
                else r\<lparr> ix_last_cursor := Some (sm_cursor entry), ix_last_indexed := sm_last_indexed entry \<rparr>) in
     s'\<lparr> db_indexing := map upd rows \<rparr>)"

definition save_sync_progress :: "sync_metadata list \<Rightarrow> bool \<Rightarrow> storage \<Rightarrow> unit stored" where
  "save_sync_progress metadata fully_indexed =
    transaction (\<lambda>s. Inr ((), fold (save_progress fully_indexed) metadata s))"

definition clear_indexing_cursors :: "storage \<Rightarrow> unit stored" where
  "clear_indexing_cursors s =
    (Inr (), s\<lparr> db_indexing := map (\<lambda>r. r\<lparr> ix_last_cursor := None \<rparr>) (db_indexing s) \<rparr>)"

definition sync_row :: "storage \<Rightarrow> indexing_row \<Rightarrow> (contract_row \<times> indexing_row) option" where
  "sync_row s m = map_option (\<lambda>c. (c, m)) (row_by ct_id (db_contracts s) (ix_contract m))"

definition get_sync_metadata :: "storage \<Rightarrow> storage_error + sync_metadata list" where
  "get_sync_metadata s =
    map_ok (\<lambda>(c, m).
        let_ok (col_u32 (ix_last_indexed m) 1) (\<lambda>indexed.
        let_ok (col_u32 (ix_last_fully_indexed m) 2) (\<lambda>fully.
        Inr \<lparr> sm_contract_id = ct_address c,
              sm_cursor = (case ix_last_cursor m of None \<Rightarrow> [] | Some cursor \<Rightarrow> cursor),
              sm_last_indexed = indexed, sm_last_fully_indexed = fully \<rparr>)))
      (List.map_filter (sync_row s) (sort_key ix_contract (db_indexing s)))"

definition network_tip_ledger :: "storage \<Rightarrow> storage_error + nat" where
  "network_tip_ledger s =
    let_ok (get_sync_metadata s) (\<lambda>metadata.
    Inr (foldr max (map (\<lambda>e. max (sm_last_indexed e) (sm_last_fully_indexed e)) metadata) 0))"

section \<open>Keys, disclaimer and settings\<close>

definition get_user_keys :: "string \<Rightarrow> storage \<Rightarrow> stored_user_keys option" where
  "get_user_keys address s =
    (case rev (sort_key kp_id (filter
        (\<lambda>k. \<exists>a\<in>set (db_accounts s). kp_account k = Some (acc_id a) \<and> acc_address a = address) (db_keypairs s))) of
       [] \<Rightarrow> None
     | k # _ \<Rightarrow> Some (kp_keys k))"

definition save_encryption_and_note_keypairs ::
  "string \<Rightarrow> note_key_pair \<Rightarrow> encryption_key_pair \<Rightarrow> field \<Rightarrow> storage \<Rightarrow> unit stored" where
  "save_encryption_and_note_keypairs account_address note_keypair encryption_keypair membership_blinding =
    transaction (\<lambda>s.
      let (account_id, s') = get_or_create_account account_address s in
      Inr ((), s'\<lparr> db_keypairs := db_keypairs s' @
        [\<lparr> kp_id = next_rowid (map kp_id (db_keypairs s')),
           kp_keys = \<lparr> sk_note_keypair = note_keypair, sk_encryption_keypair = encryption_keypair,
                       sk_membership_blinding = membership_blinding \<rparr>,
           kp_account = Some account_id \<rparr>] \<rparr>))"

text \<open>
  The text of the disclaimer and its hash are files of the build: arguments, as is the clock of the
  database.
\<close>

record disclaimer_state =
  ds_text :: string
  ds_hash :: string
  ds_accepted :: bool

definition get_disclaimer_state :: "string \<Rightarrow> string \<Rightarrow> string \<Rightarrow> storage \<Rightarrow> disclaimer_state stored" where
  "get_disclaimer_state current_text current_hash address =
    transaction (\<lambda>s.
      let (account_id, s') = get_or_create_account address s;
          accepted = (\<exists>d\<in>set (db_acceptances s'). da_account d = account_id \<and> da_hash d = current_hash) in
      Inr (\<lparr> ds_text = current_text, ds_hash = current_hash, ds_accepted = accepted \<rparr>, s'))"

definition accept_current_disclaimer :: "string \<Rightarrow> nat \<Rightarrow> string \<Rightarrow> string \<Rightarrow> storage \<Rightarrow> unit stored" where
  "accept_current_disclaimer current_hash now address disclaimer_hash s =
    (if disclaimer_hash \<noteq> current_hash then (Inl DisclaimerHashMismatch, s)
     else transaction (\<lambda>s.
       let (account_id, s') = get_or_create_account address s in
       if \<exists>d\<in>set (db_acceptances s'). da_account d = account_id \<and> da_hash d = disclaimer_hash then Inr ((), s')
       else Inr ((), s'\<lparr> db_acceptances := db_acceptances s' @
              [\<lparr> da_account = account_id, da_hash = disclaimer_hash, da_accepted_at = now \<rparr>] \<rparr>)) s)"

definition get_setting_json :: "(string \<Rightarrow> 'a option) \<Rightarrow> string \<Rightarrow> storage \<Rightarrow> storage_error + 'a option" where
  "get_setting_json from_str key s =
    (case map_of (db_settings s) key of
       None \<Rightarrow> Inr None
     | Some raw \<Rightarrow> let_ok (ok_or (from_str raw) SettingDecode) (\<lambda>v. Inr (Some v)))"

definition set_setting_json :: "('a \<Rightarrow> string option) \<Rightarrow> string \<Rightarrow> 'a \<Rightarrow> storage \<Rightarrow> unit stored" where
  "set_setting_json to_string key v s =
    (case to_string v of
       None \<Rightarrow> (Inl SettingDecode, s)
     | Some json \<Rightarrow>
         (Inr (), s\<lparr> db_settings :=
           (if key \<in> fst ` set (db_settings s)
            then map (\<lambda>(k, old). (k, if k = key then json else old)) (db_settings s)
            else db_settings s @ [(key, json)]) \<rparr>))"

record bootnode_setting =
  bn_enabled :: bool
  bn_url :: string

definition APP_SETTING_BOOTNODE_CONFIG :: string where
  "APP_SETTING_BOOTNODE_CONFIG = ''bootnode_config''"

definition get_bootnode_setting ::
  "(string \<Rightarrow> bootnode_setting option) \<Rightarrow> storage \<Rightarrow> storage_error + bootnode_setting" where
  "get_bootnode_setting from_str s =
    let_ok (get_setting_json from_str APP_SETTING_BOOTNODE_CONFIG s) (\<lambda>found.
    Inr (case found of None \<Rightarrow> \<lparr> bn_enabled = False, bn_url = [] \<rparr> | Some b \<Rightarrow> b))"

definition set_bootnode_setting ::
  "(bootnode_setting \<Rightarrow> string option) \<Rightarrow> bool \<Rightarrow> string \<Rightarrow> storage \<Rightarrow> unit stored" where
  "set_bootnode_setting to_string enabled url =
    set_setting_json to_string APP_SETTING_BOOTNODE_CONFIG \<lparr> bn_enabled = enabled, bn_url = url \<rparr>"

section \<open>Log of operations\<close>

definition insert_operation ::
  "nat \<Rightarrow> string \<Rightarrow> string \<Rightarrow> string \<Rightarrow> string \<Rightarrow> string \<Rightarrow> string option \<Rightarrow> string option \<Rightarrow> storage \<Rightarrow> unit stored" where
  "insert_operation now address pool kind amount direction counterparty tx_hash s =
    (Inr (), s\<lparr> db_operations := db_operations s @
      [\<lparr> op_id = next_rowid (map op_id (db_operations s)), op_address = address, op_pool = pool, op_type = kind,
         op_amount = amount, op_direction = direction, op_counterparty = counterparty, op_tx_hash = tx_hash,
         op_created_at = now \<rparr>] \<rparr>)"

record user_operation =
  uo_type :: string
  uo_amount :: string
  uo_direction :: string
  uo_counterparty :: "string option"
  uo_tx_hash :: "string option"
  uo_created_at :: nat

definition list_operations :: "string \<Rightarrow> string \<Rightarrow> nat \<Rightarrow> storage \<Rightarrow> user_operation list" where
  "list_operations address pool limit s =
    map (\<lambda>r. \<lparr> uo_type = op_type r, uo_amount = op_amount r, uo_direction = op_direction r,
               uo_counterparty = op_counterparty r, uo_tx_hash = op_tx_hash r, uo_created_at = op_created_at r \<rparr>)
      (take limit (rev (sort_key (\<lambda>r. (op_created_at r, op_id r))
        (filter (\<lambda>r. op_address r = address \<and> op_pool r = pool) (db_operations s)))))"

section \<open>Derived tables\<close>

text \<open>
  The arguments are the fields of the event structs: nullifier and event id; commitment, index, encrypted
  output and event id; owner, keys and event id; leaf, index, root and event id.
\<close>

definition save_nullifier :: "string \<times> field \<Rightarrow> storage \<Rightarrow> storage_error + storage" where
  "save_nullifier = (\<lambda>(eid, nullifier) s.
    let_ok (insert_derived nl_nullifier nl_event (db_raw s)
        \<lparr> nl_id = next_rowid (map nl_id (db_nullifiers s)), nl_nullifier = nullifier, nl_event = eid \<rparr>
        (db_nullifiers s)) (\<lambda>rows.
    Inr (s\<lparr> db_nullifiers := rows \<rparr>)))"

definition save_nullifier_events_batch :: "(string \<times> field) list \<Rightarrow> storage \<Rightarrow> unit stored" where
  "save_nullifier_events_batch events =
    transaction (\<lambda>s. let_ok (fold_ok save_nullifier events s) (\<lambda>s'. Inr ((), s')))"

definition save_commitment :: "string \<times> field \<times> nat \<times> bytes \<Rightarrow> storage \<Rightarrow> storage_error + storage" where
  "save_commitment = (\<lambda>(eid, commitment, index, encrypted_output) s.
    let_ok (insert_derived cm_commitment cm_event (db_raw s)
        \<lparr> cm_id = next_rowid (map cm_id (db_commitments s)), cm_commitment = commitment, cm_leaf_index = index,
          cm_encrypted_output = encrypted_output, cm_event = eid \<rparr> (db_commitments s)) (\<lambda>rows.
    Inr (s\<lparr> db_commitments := rows \<rparr>)))"

definition save_commitment_events_batch :: "(string \<times> field \<times> nat \<times> bytes) list \<Rightarrow> storage \<Rightarrow> unit stored" where
  "save_commitment_events_batch events =
    transaction (\<lambda>s. let_ok (fold_ok save_commitment events s) (\<lambda>s'. Inr ((), s')))"

definition save_public_key ::
  "string \<times> string \<times> encryption_public_key \<times> note_public_key \<Rightarrow> storage \<Rightarrow> storage_error + storage" where
  "save_public_key = (\<lambda>(eid, owner, encryption_key, note_key) s.
    let_ok (insert_derived pk_event pk_event (db_raw s)
        \<lparr> pk_owner = owner, pk_encryption_key = encryption_key, pk_note_key = note_key, pk_event = eid \<rparr>
        (db_public_keys s)) (\<lambda>rows.
    Inr (s\<lparr> db_public_keys := rows \<rparr>)))"

definition save_public_key_events_batch ::
  "(string \<times> string \<times> encryption_public_key \<times> note_public_key) list \<Rightarrow> storage \<Rightarrow> unit stored" where
  "save_public_key_events_batch events =
    transaction (\<lambda>s. let_ok (fold_ok save_public_key events s) (\<lambda>s'. Inr ((), s')))"

definition save_leaf_added :: "string \<times> field \<times> nat \<times> field \<Rightarrow> storage \<Rightarrow> storage_error + storage" where
  "save_leaf_added = (\<lambda>(eid, leaf, index, root) s.
    let_ok (insert_derived al_index al_event (db_raw s)
        \<lparr> al_index = index, al_leaf = leaf, al_root = root, al_event = eid \<rparr> (db_asp_leaves s)) (\<lambda>rows.
    Inr (s\<lparr> db_asp_leaves := rows \<rparr>)))"

definition save_leaf_added_events_batch :: "(string \<times> field \<times> nat \<times> field) list \<Rightarrow> storage \<Rightarrow> unit stored" where
  "save_leaf_added_events_batch events =
    transaction (\<lambda>s. let_ok (fold_ok save_leaf_added events s) (\<lambda>s'. Inr ((), s')))"

text \<open>The common loop of the two readers of ordered leaves.\<close>

fun collect_ordered :: "(nat \<times> field) list \<Rightarrow> nat \<Rightarrow> storage_error + field list" where
  "collect_ordered [] expected_index = Inr []"
| "collect_ordered ((idx, leaf) # rows) expected_index =
    let_ok (col_u32 idx 0) (\<lambda>idx.
    if idx \<noteq> expected_index then Inl (IndexGap expected_index idx)
    else
      let_ok (ok_or (nat_checked_add 32 expected_index 1) IndexOverflow) (\<lambda>next_index.
      let_ok (collect_ordered rows next_index) (\<lambda>leaves. Inr (leaf # leaves))))"

definition get_pool_commitment_leaves_ordered ::
  "(nat \<Rightarrow> nat list) \<Rightarrow> string \<Rightarrow> storage \<Rightarrow> storage_error + field list" where
  "get_pool_commitment_leaves_ordered plan pool_contract_id s =
    collect_ordered (map (\<lambda>c. (cm_leaf_index c, cm_commitment c))
      (order_by plan cm_leaf_index
        (filter (\<lambda>c. event_address s (cm_event c) = Some pool_contract_id) (db_commitments s)))) 0"

definition get_all_asp_membership_leaves_ordered :: "string \<Rightarrow> storage \<Rightarrow> storage_error + field list" where
  "get_all_asp_membership_leaves_ordered asp_membership_contract_id s =
    collect_ordered (map (\<lambda>l. (al_index l, al_leaf l))
      (sort_key al_index
        (filter (\<lambda>l. event_address s (al_event l) = Some asp_membership_contract_id) (db_asp_leaves s)))) 0"

datatype asp_membership_sync = SyncRequired "nat option" | RegisterAtASP | UserIndex nat

definition check_asp_membership_precondition ::
  "(nat \<Rightarrow> nat list) \<Rightarrow> string \<Rightarrow> field \<Rightarrow> field \<Rightarrow> nat \<Rightarrow> storage \<Rightarrow> storage_error + asp_membership_sync" where
  "check_asp_membership_precondition plan contract user_leaf current_root current_ledger s =
    let_ok (get_sync_metadata s) (\<lambda>metadata.
    case List.find (\<lambda>meta. sm_contract_id meta = contract) metadata of
      None \<Rightarrow> Inr (SyncRequired (Some current_ledger))
    | Some meta \<Rightarrow>
        if sm_last_fully_indexed meta < current_ledger then
          Inr (SyncRequired (Some (current_ledger - sm_last_fully_indexed meta)))
        else
          let rows = List.map_filter (\<lambda>l. map_option (Pair l) (emitted_row s contract (al_event l))) (db_asp_leaves s) in
          case rev (sort_key (al_index \<circ> fst) rows) of
            [] \<Rightarrow> Inr RegisterAtASP
          | (l, r) # _ \<Rightarrow>
              let_ok (col_u32 (raw_ledger r) 1) (\<lambda>last_leaf_ledger.
              if current_root \<noteq> al_root l then
                if last_leaf_ledger < current_ledger then
                  Inr (SyncRequired (Some (current_ledger - last_leaf_ledger)))
                else Inl (RootMismatch current_ledger)
              else
                case visited plan (filter (\<lambda>(l, r). al_leaf l = user_leaf) rows) of
                  [] \<Rightarrow> Inr RegisterAtASP
                | (u, _) # _ \<Rightarrow> let_ok (col_u32 (al_index u) 0) (\<lambda>i. Inr (UserIndex i))))"

end
