(* ===== verification/Storage_Notes.thy ===== *)
theory Storage_Notes
  imports Storage
begin

text \<open>
  The processing of events and notes: unprocessed events, the scan of commitments for the notes of the
  accounts, the reconciliation of nullifiers (\<open>app/crates/core/state/src/storage.rs\<close>), the processor
  (\<open>processor.rs\<close>) and the loop of the storage worker that runs it
  (\<open>app/crates/platforms/web/src/workers/storage.rs\<close>).
\<close>

section \<open>Unprocessed events\<close>

definition processed_ids :: "storage \<Rightarrow> string list" where
  "processed_ids s =
    map cm_event (db_commitments s) @ map pk_event (db_public_keys s) @ map al_event (db_asp_leaves s) @
    map nl_event (db_nullifiers s)"

definition event_of_raw :: "storage \<Rightarrow> raw_event_row \<Rightarrow> contract_event option" where
  "event_of_raw s r =
    map_option (\<lambda>c. \<lparr> ce_id = raw_id r, ce_ledger = raw_ledger r, ce_contract_id = ct_address c,
        ce_topics = split_topics (raw_topics r), ce_value = raw_value r \<rparr>)
      (row_by ct_id (db_contracts s) (raw_contract r))"

definition get_unprocessed_events :: "nat \<Rightarrow> storage \<Rightarrow> storage_error + contract_event list" where
  "get_unprocessed_events limit s =
    map_ok (\<lambda>e. let_ok (col_u32 (ce_ledger e) 1) (\<lambda>_. Inr e))
      (take limit (List.map_filter (event_of_raw s)
        (sort_key (\<lambda>r. (raw_ledger r, raw_id r))
          (filter (\<lambda>r. raw_id r \<notin> set (processed_ids s)) (db_raw s)))))"

section \<open>Scan of commitments\<close>

record account_keys =
  ak_account :: nat
  ak_keys :: stored_user_keys

record pool_commitment_row =
  pc_commitment_id :: nat
  pc_commitment :: field
  pc_leaf_index :: nat
  pc_encrypted_output :: bytes

record derived_user_note_row =
  dn_amount :: note_amount
  dn_blinding :: field
  dn_expected_nullifier :: field

type_synonym derive_note_fn = "account_keys \<Rightarrow> pool_commitment_row \<Rightarrow> storage_error + derived_user_note_row option"

definition latest_keypair :: "storage \<Rightarrow> account_row \<Rightarrow> account_keys option" where
  "latest_keypair s a =
    (case rev (sort_key kp_id (filter (\<lambda>k. kp_account k = Some (acc_id a)) (db_keypairs s))) of
       [] \<Rightarrow> None
     | k # _ \<Rightarrow> Some \<lparr> ak_account = acc_id a, ak_keys = kp_keys k \<rparr>)"

definition get_accounts_with_latest_keypairs :: "storage \<Rightarrow> account_keys list" where
  "get_accounts_with_latest_keypairs s = List.map_filter (latest_keypair s) (sort_key acc_id (db_accounts s))"

definition ACCOUNT_CHUNK :: nat where
  "ACCOUNT_CHUNK = 4"

abbreviation U32_MAX :: nat where
  "U32_MAX \<equiv> 4294967295"

text \<open>\<open>SELECT DISTINCT r.contract_id ... ORDER BY r.contract_id\<close> over a table of derived rows.\<close>

definition pool_ids_of :: "storage \<Rightarrow> string list \<Rightarrow> nat list" where
  "pool_ids_of s events = sort (remdups (List.map_filter (event_contract s) events))"

text \<open>The loop that hands out the remainder of the quota round-robin.\<close>

fun distribute :: "nat \<Rightarrow> nat \<Rightarrow> nat list \<Rightarrow> nat list" where
  "distribute 0 next_pool quotas = quotas"
| "distribute (Suc remainder) next_pool quotas =
    distribute remainder ((next_pool + 1) mod length quotas)
      (quotas[next_pool := min (quotas ! next_pool + 1) U32_MAX])"

definition pool_quotas :: "nat \<Rightarrow> nat \<Rightarrow> nat list" where
  "pool_quotas total_limit pool_count =
    (let base_quota = (if pool_count = 0 then 0 else if pool_count \<le> total_limit then total_limit div pool_count else 1);
         assigned = min (base_quota * pool_count) U32_MAX in
     distribute (total_limit - assigned) 0 (replicate pool_count base_quota))"

definition open_scan :: "nat \<Rightarrow> account_keys \<Rightarrow> storage \<Rightarrow> storage" where
  "open_scan pool account s =
    (if \<exists>r\<in>set (db_commitment_scan s). cs_pool r = pool \<and> cs_account r = ak_account account then s
     else s\<lparr> db_commitment_scan := db_commitment_scan s @
            [\<lparr> cs_pool = pool, cs_account = ak_account account, cs_last = 0 \<rparr>] \<rparr>)"

definition scan_mark :: "nat \<Rightarrow> nat \<Rightarrow> storage \<Rightarrow> nat option" where
  "scan_mark pool account s =
    map_option cs_last (List.find (\<lambda>r. cs_pool r = pool \<and> cs_account r = account) (db_commitment_scan s))"

definition set_scan_mark :: "nat \<Rightarrow> nat \<Rightarrow> nat \<Rightarrow> storage \<Rightarrow> storage" where
  "set_scan_mark pool account last_id s =
    s\<lparr> db_commitment_scan := map (\<lambda>r. if cs_pool r = pool \<and> cs_account r = account
        then r\<lparr> cs_last := last_id \<rparr> else r) (db_commitment_scan s) \<rparr>"

definition commitments_after :: "nat \<Rightarrow> nat \<Rightarrow> nat \<Rightarrow> storage \<Rightarrow> storage_error + pool_commitment_row list" where
  "commitments_after pool last_id quota s =
    map_ok (\<lambda>c.
        let_ok (col_u32 (cm_leaf_index c) 2) (\<lambda>leaf_index.
        Inr \<lparr> pc_commitment_id = cm_id c, pc_commitment = cm_commitment c, pc_leaf_index = leaf_index,
              pc_encrypted_output = cm_encrypted_output c \<rparr>))
      (take quota (sort_key cm_id
        (filter (\<lambda>c. event_contract s (cm_event c) = Some pool \<and> last_id < cm_id c) (db_commitments s))))"

definition nullifier_of_pool :: "nat \<Rightarrow> field \<Rightarrow> storage \<Rightarrow> nat option" where
  "nullifier_of_pool pool nullifier s =
    map_option nl_id (List.find (\<lambda>n. event_contract s (nl_event n) = Some pool \<and> nl_nullifier n = nullifier)
      (db_nullifiers s))"

text \<open>\<open>INSERT OR IGNORE INTO user_notes\<close>: the unique columns are \<open>id\<close>, \<open>commitment_id\<close> and \<open>nullifier_id\<close>.\<close>

definition note_clash :: "user_note_row \<Rightarrow> user_note_row \<Rightarrow> bool" where
  "note_clash n m \<longleftrightarrow> un_id n = un_id m \<or> un_commitment n = un_commitment m \<or>
    (un_nullifier n \<noteq> None \<and> un_nullifier n = un_nullifier m)"

definition insert_note :: "user_note_row \<Rightarrow> storage \<Rightarrow> storage" where
  "insert_note n s =
    (if \<exists>m\<in>set (db_user_notes s). note_clash n m then s
     else s\<lparr> db_user_notes := db_user_notes s @ [n] \<rparr>)"

definition scan_row ::
  "derive_note_fn \<Rightarrow> nat \<Rightarrow> account_keys \<Rightarrow> pool_commitment_row \<Rightarrow> storage \<Rightarrow> storage_error + storage" where
  "scan_row derive pool account row s =
    let_ok (derive account row) (\<lambda>found.
    case found of
      None \<Rightarrow> Inr s
    | Some derived \<Rightarrow>
        Inr (insert_note
          \<lparr> un_id = pc_commitment row, un_account = ak_account account, un_commitment = pc_commitment_id row,
            un_nullifier = nullifier_of_pool pool (dn_expected_nullifier derived) s,
            un_expected = dn_expected_nullifier derived, un_blinding = dn_blinding derived,
            un_amount = dn_amount derived \<rparr> s))"

text \<open>One iteration of the loop over accounts: the database, the quota left, and whether rows were found.\<close>

definition scan_account ::
  "derive_note_fn \<Rightarrow> nat \<Rightarrow> account_keys \<Rightarrow> storage \<times> nat \<times> bool \<Rightarrow> storage_error + storage \<times> nat \<times> bool" where
  "scan_account derive pool account = (\<lambda>(s, pool_quota, progressed).
    if pool_quota = 0 then Inr (s, pool_quota, progressed)
    else
      let_ok (ok_or (scan_mark pool (ak_account account) s) QueryReturnedNoRows) (\<lambda>last_id.
      let_ok (commitments_after pool last_id (min pool_quota ACCOUNT_CHUNK) s) (\<lambda>rows.
      if rows = [] then Inr (s, pool_quota, progressed)
      else
        let_ok (require (length rows \<le> U32_MAX) BatchExceedsU32) (\<lambda>_.
        let_ok (fold_ok (scan_row derive pool account) rows s) (\<lambda>s'.
        Inr (set_scan_mark pool (ak_account account) (fold max (map pc_commitment_id rows) last_id) s',
             pool_quota - length rows, True))))))"

definition scan_cycle ::
  "derive_note_fn \<Rightarrow> nat \<Rightarrow> account_keys list \<Rightarrow> storage \<times> nat \<Rightarrow> storage_error + storage \<times> nat \<times> bool" where
  "scan_cycle derive pool accounts = (\<lambda>(s, pool_quota). fold_ok (scan_account derive pool) accounts (s, pool_quota, False))"

lemma fold_ok_invariant:
  assumes "fold_ok f xs s = Inr s'" and "P s" and "\<And>x s s'. x \<in> set xs \<Longrightarrow> P s \<Longrightarrow> f x s = Inr s' \<Longrightarrow> P s'"
  shows "P s'"
  using assms by (induction xs arbitrary: s) (auto simp: let_ok_Inr_iff)

lemma length_map_ok: "map_ok f xs = Inr ys \<Longrightarrow> length ys = length xs"
  by (induction xs arbitrary: ys) (auto simp: let_ok_Inr_iff)

lemma scan_account_quota:
  assumes "scan_account derive pool account (s, q, b) = Inr (s', q', b')"
  shows "q' \<le> q \<and> (b' \<longrightarrow> b \<or> q' < q)"
  using assms by (auto simp: scan_account_def outcome_simps split: if_splits)

lemma scan_cycle_quota:
  assumes "scan_cycle derive pool accounts (s, q) = Inr (s', q', True)"
  shows "q' < q"
proof -
  let ?P = "\<lambda>(t::storage, r, b). r \<le> q \<and> (b \<longrightarrow> r < q)"
  have "?P (s', q', True)"
    by (rule fold_ok_invariant [of "scan_account derive pool" accounts "(s, q, False)" "(s', q', True)" ?P])
      (use assms in \<open>auto simp: scan_cycle_def dest!: scan_account_quota\<close>)
  then show ?thesis by simp
qed

text \<open>The loop \<open>while pool_quota > 0\<close>: a cycle that finds rows lowers the quota.\<close>

function scan_cycles ::
  "derive_note_fn \<Rightarrow> nat \<Rightarrow> account_keys list \<Rightarrow> storage \<Rightarrow> nat \<Rightarrow> bool \<Rightarrow> storage_error + bool \<times> storage" where
  "scan_cycles derive pool accounts s pool_quota did_progress =
    (if pool_quota = 0 then Inr (did_progress, s)
     else case scan_cycle derive pool accounts (s, pool_quota) of
       Inl e \<Rightarrow> Inl e
     | Inr (s', quota', progressed) \<Rightarrow>
         if \<not> progressed then Inr (did_progress, s')
         else scan_cycles derive pool accounts s' quota' True)"
  by pat_completeness auto
termination
  by (relation "measure (\<lambda>(_, _, _, _, q, _). q)") (auto dest: scan_cycle_quota)

declare scan_cycles.simps [simp del]

definition scan_pool ::
  "derive_note_fn \<Rightarrow> account_keys list \<Rightarrow> nat \<Rightarrow> nat \<Rightarrow> storage \<Rightarrow> storage_error + bool \<times> storage" where
  "scan_pool derive accounts pool pool_quota s =
    scan_cycles derive pool accounts (fold (open_scan pool) accounts s) pool_quota False"

fun scan_pools ::
  "derive_note_fn \<Rightarrow> account_keys list \<Rightarrow> (nat \<times> nat) list \<Rightarrow> bool \<Rightarrow> storage \<Rightarrow> bool stored" where
  "scan_pools derive accounts [] did_any s = (Inr did_any, s)"
| "scan_pools derive accounts ((pool, pool_quota) # rest) did_any s =
    (if pool_quota = 0 then scan_pools derive accounts rest did_any s
     else and_then (transaction (scan_pool derive accounts pool pool_quota) s)
       (\<lambda>progressed. scan_pools derive accounts rest (did_any \<or> progressed)))"

definition scan_commitments_for_user_notes :: "nat \<Rightarrow> derive_note_fn \<Rightarrow> storage \<Rightarrow> bool stored" where
  "scan_commitments_for_user_notes total_limit derive s =
    (let accounts = get_accounts_with_latest_keypairs s in
     if accounts = [] \<or> total_limit = 0 then (Inr False, s)
     else
       let pool_ids = pool_ids_of s (map cm_event (db_commitments s)) in
       if pool_ids = [] then (Inr False, s)
       else if U32_MAX < length pool_ids then (Inl PoolCountExceedsU32, s)
       else scan_pools derive accounts (zip pool_ids (pool_quotas total_limit (length pool_ids))) False s)"

section \<open>Reconciliation of nullifiers\<close>

definition note_in_pool :: "storage \<Rightarrow> nat \<Rightarrow> user_note_row \<Rightarrow> bool" where
  "note_in_pool s pool n \<longleftrightarrow>
    (\<exists>c\<in>set (db_commitments s). cm_id c = un_commitment n \<and> event_contract s (cm_event c) = Some pool)"

definition spent_by :: "storage \<Rightarrow> nat \<Rightarrow> field \<Rightarrow> user_note_row \<Rightarrow> bool" where
  "spent_by s pool nullifier n \<longleftrightarrow>
    un_nullifier n = None \<and> un_expected n = nullifier \<and> note_in_pool s pool n"

text \<open>
  \<open>UPDATE user_notes SET nullifier_id\<close>: \<open>nullifier_id\<close> is unique, so the statement fails when a second row
  would get the same value.
\<close>

definition mark_note_spent :: "nat \<Rightarrow> nat \<times> field \<Rightarrow> storage \<Rightarrow> storage_error + storage" where
  "mark_note_spent pool = (\<lambda>(nullifier_id, nullifier) s.
    let hits = filter (spent_by s pool nullifier) (db_user_notes s) in
    if hits \<noteq> [] \<and> (length hits > 1 \<or> Some nullifier_id \<in> un_nullifier ` set (db_user_notes s))
    then Inl ConstraintViolation
    else Inr (s\<lparr> db_user_notes := map (\<lambda>n. if spent_by s pool nullifier n
      then n\<lparr> un_nullifier := Some nullifier_id \<rparr> else n) (db_user_notes s) \<rparr>))"

definition open_nullifier_scan :: "nat \<Rightarrow> storage \<Rightarrow> storage" where
  "open_nullifier_scan pool s =
    (if pool \<in> ns_pool ` set (db_nullifier_scan s) then s
     else s\<lparr> db_nullifier_scan := db_nullifier_scan s @ [\<lparr> ns_pool = pool, ns_last = 0 \<rparr>] \<rparr>)"

definition nullifier_mark :: "nat \<Rightarrow> storage \<Rightarrow> nat option" where
  "nullifier_mark pool s = map_option ns_last (row_by ns_pool (db_nullifier_scan s) pool)"

definition set_nullifier_mark :: "nat \<Rightarrow> nat \<Rightarrow> storage \<Rightarrow> storage" where
  "set_nullifier_mark pool last_id s =
    s\<lparr> db_nullifier_scan := map (\<lambda>r. if ns_pool r = pool then r\<lparr> ns_last := last_id \<rparr> else r) (db_nullifier_scan s) \<rparr>"

definition nullifiers_after :: "nat \<Rightarrow> nat \<Rightarrow> nat \<Rightarrow> storage \<Rightarrow> (nat \<times> field) list" where
  "nullifiers_after pool last_id limit s =
    map (\<lambda>n. (nl_id n, nl_nullifier n))
      (take limit (sort_key nl_id
        (filter (\<lambda>n. event_contract s (nl_event n) = Some pool \<and> last_id < nl_id n) (db_nullifiers s))))"

definition reconcile_pool :: "nat \<Rightarrow> nat \<Rightarrow> storage \<Rightarrow> storage_error + bool \<times> storage" where
  "reconcile_pool limit pool s =
    (let s = open_nullifier_scan pool s in
     let_ok (ok_or (nullifier_mark pool s) QueryReturnedNoRows) (\<lambda>last_id.
     let rows = nullifiers_after pool last_id limit s; max_id = fold max (map fst rows) last_id in
     let_ok (fold_ok (mark_note_spent pool) rows s) (\<lambda>s'.
     Inr (rows \<noteq> [], if last_id < max_id then set_nullifier_mark pool max_id s' else s'))))"

fun reconcile_pools :: "nat \<Rightarrow> nat list \<Rightarrow> bool \<Rightarrow> storage \<Rightarrow> bool stored" where
  "reconcile_pools limit [] did_any s = (Inr did_any, s)"
| "reconcile_pools limit (pool # rest) did_any s =
    and_then (transaction (reconcile_pool limit pool) s) (\<lambda>did. reconcile_pools limit rest (did_any \<or> did))"

definition reconcile_nullifiers :: "nat \<Rightarrow> storage \<Rightarrow> bool stored" where
  "reconcile_nullifiers limit s =
    (if limit = 0 then (Inr False, s)
     else
       let pool_ids = pool_ids_of s (map nl_event (db_nullifiers s)) in
       if pool_ids = [] then (Inr False, s)
       else reconcile_pools limit pool_ids False s)"

section \<open>Processor\<close>

text \<open>The parsed events, last event of the batch first, as \<open>Vec::pop\<close> yields them.\<close>

fun parsed_events :: "stellar_env \<Rightarrow> contract_event list \<Rightarrow> processed_event list" where
  "parsed_events S [] = []"
| "parsed_events S (e # es) =
    (case parse_event S e of Inl _ \<Rightarrow> parsed_events S es | Inr p \<Rightarrow> p # parsed_events S es)"

definition nullifier_events :: "processed_event list \<Rightarrow> (string \<times> field) list" where
  "nullifier_events = List.map_filter (\<lambda>p. case p of Nullifier i n \<Rightarrow> Some (i, n) | _ \<Rightarrow> None)"

definition commitment_events :: "processed_event list \<Rightarrow> (string \<times> field \<times> nat \<times> bytes) list" where
  "commitment_events = List.map_filter (\<lambda>p. case p of Commitment i c x enc \<Rightarrow> Some (i, c, x, enc) | _ \<Rightarrow> None)"

definition public_key_events ::
  "processed_event list \<Rightarrow> (string \<times> string \<times> encryption_public_key \<times> note_public_key) list" where
  "public_key_events = List.map_filter (\<lambda>p. case p of PublicKey i w e n \<Rightarrow> Some (i, w, e, n) | _ \<Rightarrow> None)"

definition leaf_added_events :: "processed_event list \<Rightarrow> (string \<times> field \<times> nat \<times> field) list" where
  "leaf_added_events = List.map_filter (\<lambda>p. case p of LeafAdded i l x r \<Rightarrow> Some (i, l, x, r) | _ \<Rightarrow> None)"

definition process_events :: "stellar_env \<Rightarrow> nat \<Rightarrow> storage \<Rightarrow> bool stored" where
  "process_events S limit s =
    (case get_unprocessed_events limit s of
       Inl e \<Rightarrow> (Inl e, s)
     | Inr unprocessed \<Rightarrow>
       if unprocessed = [] then (Inr False, s)
       else
       let parsed = parsed_events S (rev unprocessed) in
       and_then (save_nullifier_events_batch (nullifier_events parsed) s) (\<lambda>_ s.
       and_then (save_commitment_events_batch (commitment_events parsed) s) (\<lambda>_ s.
       and_then (save_public_key_events_batch (public_key_events parsed) s) (\<lambda>_ s.
       and_then (save_leaf_added_events_batch (leaf_added_events parsed) s) (\<lambda>_ s.
       (Inr True, s))))))"

definition process_notes :: "nat \<Rightarrow> derive_note_fn \<Rightarrow> storage \<Rightarrow> bool stored" where
  "process_notes limit derive s =
    and_then (scan_commitments_for_user_notes limit derive s) (\<lambda>scanned s.
    and_then (reconcile_nullifiers limit s) (\<lambda>reconciled s.
    (Inr (scanned \<or> reconciled), s)))"

section \<open>The storage worker\<close>

definition FETCH_LIMIT :: nat where
  "FETCH_LIMIT = 50"

text \<open>The closure of the worker: notes are derived with the keys of the account.\<close>

definition derive_note :: "crypto_env \<Rightarrow> derive_note_fn" where
  "derive_note E account row =
    (case try_decrypt_and_derive_user_note E (sk_note_keypair (ak_keys account))
        (encryption_private (sk_encryption_keypair (ak_keys account))) (pc_commitment row) (pc_leaf_index row)
        (pc_encrypted_output row) of
       Inl e \<Rightarrow> Inl (DeriveFailed e)
     | Inr found \<Rightarrow>
         Inr (map_option (\<lambda>d. \<lparr> dn_amount = derived_amount d, dn_blinding = derived_blinding d,
                                dn_expected_nullifier = expected_nullifier d \<rparr>) found))"

text \<open>The loop of the worker; \<open>None\<close> is a loop that does not end.\<close>

definition process_round :: "stellar_env \<Rightarrow> derive_note_fn \<Rightarrow> storage \<Rightarrow> bool stored" where
  "process_round S derive s =
    and_then (process_events S FETCH_LIMIT s) (\<lambda>did_raw s.
    and_then (process_notes FETCH_LIMIT derive s) (\<lambda>did_notes s.
    (Inr (did_raw \<or> did_notes), s)))"

partial_function (option) process_until_empty ::
  "stellar_env \<Rightarrow> derive_note_fn \<Rightarrow> storage \<Rightarrow> unit stored option" where
  "process_until_empty S derive s =
    (case process_round S derive s of
       (Inl e, s') \<Rightarrow> Some (Inl e, s')
     | (Inr did_work, s') \<Rightarrow> if did_work then process_until_empty S derive s' else Some (Inr (), s'))"

end
