(* ===== verification/Storage_Invariant.thy ===== *)
theory Storage_Invariant
  imports Storage_Notes
begin

text \<open>
  The invariant of the local database. The four tables derived from events obey one contract, the locale
  \<open>derived_table\<close>; the wallet tables (\<open>user_notes\<close> and the two scan states) have invariants of their own.
  Every operation keeps all of them.
\<close>

section \<open>Tables derived from events\<close>

locale derived_table =
  fixes rows :: "storage \<Rightarrow> 'r list"
    and upd :: "'r list \<Rightarrow> storage \<Rightarrow> storage"
    and key :: "'r \<Rightarrow> 'k"
    and event :: "'r \<Rightarrow> string"
    and save :: "'e \<Rightarrow> storage \<Rightarrow> storage_error + storage"
    and mk :: "'e \<Rightarrow> storage \<Rightarrow> 'r"
    and key_of :: "'e \<Rightarrow> 'k"
    and id_of :: "'e \<Rightarrow> string"
  assumes save_eq: "save e s = let_ok (insert_derived key event (db_raw s) (mk e s) (rows s)) (\<lambda>r. Inr (upd r s))"
    and rows_upd: "rows (upd r s) = r"
    and upd_upd: "upd r (upd q s) = upd r s"
    and upd_rows: "upd (rows s) s = s"
    and raw_upd: "db_raw (upd r s) = db_raw s"
    and key_mk: "key (mk e s) = key_of e"
    and event_mk: "event (mk e s) = id_of e"
begin

definition table_ok :: "storage \<Rightarrow> bool" where
  "table_ok s \<longleftrightarrow> distinct (map key (rows s)) \<and> distinct (map event (rows s)) \<and>
    event ` set (rows s) \<subseteq> raw_id ` set (db_raw s)"

lemma save_Inr:
  assumes "save e s = Inr s'"
  obtains "key_of e \<in> key ` set (rows s)" "s' = s"
  | "key_of e \<notin> key ` set (rows s)" "id_of e \<notin> event ` set (rows s)" "id_of e \<in> raw_id ` set (db_raw s)"
    "s' = upd (rows s @ [mk e s]) s"
  using assms
  by (cases "key_of e \<in> key ` set (rows s)")
    (auto simp: save_eq insert_derived_def key_mk event_mk upd_rows split: if_splits)

lemma save_ok: "save e s = Inr s' \<Longrightarrow> table_ok s \<Longrightarrow> table_ok s'"
  by (erule save_Inr) (auto simp: table_ok_def rows_upd raw_upd key_mk event_mk)

lemma save_all:
  assumes "fold_ok save es s = Inr s'"
  shows "s' = upd (rows s') s" and "db_raw s' = db_raw s"
    and "\<exists>new. rows s' = rows s @ new \<and> (\<forall>r\<in>set new. \<exists>e\<in>set es. \<exists>t. r = mk e t)"
    and "table_ok s \<Longrightarrow> table_ok s'"
    and "key ` set (rows s') = key ` set (rows s) \<union> key_of ` set es"
proof -
  have "(s' = upd (rows s') s \<and> db_raw s' = db_raw s \<and>
      (\<exists>new. rows s' = rows s @ new \<and> (\<forall>r\<in>set new. \<exists>e\<in>set es. \<exists>t. r = mk e t))) \<and>
      (table_ok s \<longrightarrow> table_ok s') \<and> key ` set (rows s') = key ` set (rows s) \<union> key_of ` set es"
    using assms
  proof (induction es arbitrary: s)
    case Nil
    then show ?case by (simp add: upd_rows)
  next
    case (Cons e es)
    then obtain t where t: "save e s = Inr t" "fold_ok save es t = Inr s'" by (auto simp: let_ok_Inr_iff)
    note IH = Cons.IH [OF t(2)]
    from t(1) show ?case
    proof (cases rule: save_Inr)
      case 1
      then show ?thesis using IH by auto
    next
      case 2
      from IH obtain new where "rows s' = rows t @ new" "\<forall>r\<in>set new. \<exists>e\<in>set es. \<exists>t. r = mk e t" by auto
      then have "rows s' = rows s @ mk e s # new \<and> (\<forall>r\<in>set (mk e s # new). \<exists>e'\<in>set (e # es). \<exists>t. r = mk e' t)"
        using 2 by (auto simp: rows_upd)
      moreover have "s' = upd (rows s') s" using IH 2 by (metis upd_upd)
      moreover have "db_raw s' = db_raw s" using IH 2 by (simp add: raw_upd)
      moreover have "table_ok s \<longrightarrow> table_ok s'" using IH save_ok [OF t(1)] by blast
      moreover have "key ` set (rows s') = key ` set (rows s) \<union> key_of ` set (e # es)"
        using IH 2 by (auto simp: rows_upd key_mk)
      ultimately show ?thesis by blast
    qed
  qed
  then show "s' = upd (rows s') s" "db_raw s' = db_raw s"
    "\<exists>new. rows s' = rows s @ new \<and> (\<forall>r\<in>set new. \<exists>e\<in>set es. \<exists>t. r = mk e t)"
    "table_ok s \<Longrightarrow> table_ok s'" "key ` set (rows s') = key ` set (rows s) \<union> key_of ` set es"
    by blast+
qed

lemma save_all_succeeds:
  assumes "distinct (map id_of es)" and "id_of ` set es \<inter> event ` set (rows s) = {}"
    and "id_of ` set es \<subseteq> raw_id ` set (db_raw s)"
  shows "\<exists>s'. fold_ok save es s = Inr s'"
  using assms
proof (induction es arbitrary: s)
  case Nil
  then show ?case by simp
next
  case (Cons e es)
  show ?case
  proof (cases "key_of e \<in> key ` set (rows s)")
    case True
    then have "save e s = Inr s" by (simp add: save_eq insert_derived_def key_mk upd_rows)
    then show ?thesis using Cons.IH [of s] Cons.prems by auto
  next
    case False
    then have "save e s = Inr (upd (rows s @ [mk e s]) s)"
      using Cons.prems by (auto simp: save_eq insert_derived_def key_mk event_mk)
    then show ?thesis using Cons.IH [of "upd (rows s @ [mk e s]) s"] Cons.prems
      by (auto simp: rows_upd raw_upd event_mk)
  qed
qed

lemma save_all_events:
  assumes "fold_ok save es s = Inr s'" and "distinct (map key_of es)" and "key_of ` set es \<inter> key ` set (rows s) = {}"
  shows "event ` set (rows s') = event ` set (rows s) \<union> id_of ` set es"
    and "(\<lambda>r. (key r, event r)) ` set (rows s') =
      (\<lambda>r. (key r, event r)) ` set (rows s) \<union> (\<lambda>e. (key_of e, id_of e)) ` set es"
proof -
  have "(\<lambda>r. (key r, event r)) ` set (rows s') =
      (\<lambda>r. (key r, event r)) ` set (rows s) \<union> (\<lambda>e. (key_of e, id_of e)) ` set es"
    using assms
  proof (induction es arbitrary: s)
    case (Cons e es)
    then obtain t where t: "save e s = Inr t" "fold_ok save es t = Inr s'" by (auto simp: let_ok_Inr_iff)
    from t(1) have *: "t = upd (rows s @ [mk e s]) s"
      by (cases rule: save_Inr) (use Cons.prems in auto)
    have "key_of ` set es \<inter> key ` set (rows t) = {}" using Cons.prems by (auto simp: * rows_upd key_mk)
    then have "(\<lambda>r. (key r, event r)) ` set (rows s') =
        (\<lambda>r. (key r, event r)) ` set (rows t) \<union> (\<lambda>e. (key_of e, id_of e)) ` set es"
      using Cons.IH [OF t(2)] Cons.prems(2) by simp
    also have "(\<lambda>r. (key r, event r)) ` set (rows t) =
        (\<lambda>r. (key r, event r)) ` set (rows s) \<union> {(key_of e, id_of e)}"
      by (auto simp: * rows_upd key_mk event_mk)
    finally show ?case by auto
  qed simp
  then show pairs: "(\<lambda>r. (key r, event r)) ` set (rows s') =
      (\<lambda>r. (key r, event r)) ` set (rows s) \<union> (\<lambda>e. (key_of e, id_of e)) ` set es" .
  show "event ` set (rows s') = event ` set (rows s) \<union> id_of ` set es"
    using arg_cong [OF pairs, of "image snd"] by (simp add: image_image image_Un)
qed

end

interpretation nullifier_table: derived_table db_nullifiers "\<lambda>r s. s\<lparr> db_nullifiers := r \<rparr>" nl_nullifier nl_event
  save_nullifier "\<lambda>(eid, n) s. \<lparr> nl_id = next_rowid (map nl_id (db_nullifiers s)), nl_nullifier = n, nl_event = eid \<rparr>"
  snd fst
  by unfold_locales (auto simp: save_nullifier_def)

interpretation commitment_table: derived_table db_commitments "\<lambda>r s. s\<lparr> db_commitments := r \<rparr>" cm_commitment cm_event
  save_commitment "\<lambda>(eid, c, i, enc) s. \<lparr> cm_id = next_rowid (map cm_id (db_commitments s)), cm_commitment = c,
     cm_leaf_index = i, cm_encrypted_output = enc, cm_event = eid \<rparr>" "fst \<circ> snd" fst
  by unfold_locales (auto simp: save_commitment_def)

interpretation public_key_table: derived_table db_public_keys "\<lambda>r s. s\<lparr> db_public_keys := r \<rparr>" pk_event pk_event
  save_public_key "\<lambda>(eid, w, e, n) s. \<lparr> pk_owner = w, pk_encryption_key = e, pk_note_key = n, pk_event = eid \<rparr>" fst fst
  by unfold_locales (auto simp: save_public_key_def)

interpretation asp_leaf_table: derived_table db_asp_leaves "\<lambda>r s. s\<lparr> db_asp_leaves := r \<rparr>" al_index al_event
  save_leaf_added "\<lambda>(eid, l, i, root) s. \<lparr> al_index = i, al_leaf = l, al_root = root, al_event = eid \<rparr>"
  "fst \<circ> snd \<circ> snd" fst
  by unfold_locales (auto simp: save_leaf_added_def)

section \<open>Keys of tables\<close>

lemma less_next_rowid: "i \<in> set ids \<Longrightarrow> i < next_rowid ids"
proof -
  have "i \<in> set ids \<Longrightarrow> i \<le> foldr max ids 0" by (induction ids) auto
  then show "i \<in> set ids \<Longrightarrow> i < next_rowid ids" by (simp add: next_rowid_def less_Suc_eq_le)
qed

lemma next_rowid_positive [simp]: "0 < next_rowid ids"
  by (simp add: next_rowid_def)

lemma next_rowid_fresh [simp]: "next_rowid ids \<notin> set ids"
  using less_next_rowid by blast

lemma next_rowid_append: "next_rowid ids \<le> next_rowid (ids @ ids2)"
proof -
  have "foldr max ids a \<le> foldr max ids b" if "a \<le> b" for a b :: nat using that by (induction ids) auto
  then show ?thesis by (simp add: next_rowid_def)
qed

lemma sorted_next_rowid:
  "sorted_wrt (<) (0 # ids) \<Longrightarrow> sorted_wrt (<) (0 # ids @ [next_rowid ids])"
  by (auto simp: sorted_wrt_append less_next_rowid)

lemma row_by_Some_iff:
  "distinct (map key rows) \<Longrightarrow> row_by key rows k = Some r \<longleftrightarrow> r \<in> set rows \<and> key r = k"
  unfolding row_by_def by (induction rows) auto

lemma row_by_None_iff: "row_by key rows k = None \<longleftrightarrow> k \<notin> key ` set rows"
  unfolding row_by_def by (induction rows) auto

lemma row_by_append: "k \<in> key ` set rows \<Longrightarrow> row_by key (rows @ rows2) k = row_by key rows k"
  unfolding row_by_def by (induction rows) auto

section \<open>Invariant of the event tables\<close>

definition directory_ok :: "storage \<Rightarrow> bool" where
  "directory_ok s \<longleftrightarrow>
    distinct (map ct_id (db_contracts s)) \<and> distinct (map ct_address (db_contracts s)) \<and>
    distinct (map acc_id (db_accounts s)) \<and> distinct (map acc_address (db_accounts s)) \<and>
    kp_account ` set (db_keypairs s) \<subseteq> Some ` acc_id ` set (db_accounts s) \<and>
    distinct (map raw_id (db_raw s)) \<and> raw_contract ` set (db_raw s) \<subseteq> ct_id ` set (db_contracts s) \<and>
    (\<forall>r\<in>set (db_raw s). raw_ledger r < 2 ^ 32) \<and>
    distinct (map ix_contract (db_indexing s)) \<and> ix_contract ` set (db_indexing s) \<subseteq> ct_id ` set (db_contracts s) \<and>
    (\<forall>m\<in>set (db_indexing s). ix_last_indexed m < 2 ^ 32 \<and> ix_last_fully_indexed m < 2 ^ 32)"

definition events_ok :: "storage \<Rightarrow> bool" where
  "events_ok s \<longleftrightarrow>
    nullifier_table.table_ok s \<and> commitment_table.table_ok s \<and> public_key_table.table_ok s \<and>
    asp_leaf_table.table_ok s \<and>
    sorted_wrt (<) (0 # map nl_id (db_nullifiers s)) \<and> sorted_wrt (<) (0 # map cm_id (db_commitments s))"

lemmas table_ok_defs = nullifier_table.table_ok_def commitment_table.table_ok_def
  public_key_table.table_ok_def asp_leaf_table.table_ok_def

lemma get_or_create_contract_id_spec:
  assumes "get_or_create_contract_id address s = (i, s')" and "directory_ok s"
  shows "directory_ok s'" and "\<exists>new. s' = s\<lparr> db_contracts := db_contracts s @ new \<rparr>"
    and "i \<in> ct_id ` set (db_contracts s')"
    and "map_option ct_address (row_by ct_id (db_contracts s') i) = Some address"
proof -
  have "directory_ok s' \<and> (\<exists>new. s' = s\<lparr> db_contracts := db_contracts s @ new \<rparr>) \<and>
    (\<exists>c\<in>set (db_contracts s'). ct_id c = i \<and> ct_address c = address)"
  proof (cases "row_by ct_address (db_contracts s) address")
    case None
    then have new: "i = next_rowid (map ct_id (db_contracts s))"
      "s' = s\<lparr> db_contracts := db_contracts s @ [\<lparr> ct_id = i, ct_address = address \<rparr>] \<rparr>"
      using assms(1) by (auto simp: get_or_create_contract_id_def Let_def)
    have "i \<notin> ct_id ` set (db_contracts s)"
      using next_rowid_fresh [of "map ct_id (db_contracts s)"] by (auto simp: new(1) simp del: next_rowid_fresh)
    then show ?thesis using assms(2) None by (auto simp: directory_ok_def new(2) row_by_None_iff)
  next
    case (Some c)
    then have "s' = s" "i = ct_id c" "c \<in> set (db_contracts s)" "ct_address c = address"
      using assms by (auto simp: get_or_create_contract_id_def row_by_Some_iff directory_ok_def)
    then show ?thesis using assms(2) by (auto intro: exI [of _ "[]"])
  qed
  then show "directory_ok s'" "\<exists>new. s' = s\<lparr> db_contracts := db_contracts s @ new \<rparr>"
    "i \<in> ct_id ` set (db_contracts s')" "map_option ct_address (row_by ct_id (db_contracts s') i) = Some address"
    by (auto simp: directory_ok_def row_by_Some_iff)
qed

lemma get_or_create_account_spec:
  assumes "get_or_create_account address s = (i, s')" and "directory_ok s"
  shows "directory_ok s'" and "\<exists>new. s' = s\<lparr> db_accounts := db_accounts s @ new \<rparr>"
    and "\<exists>a\<in>set (db_accounts s'). acc_id a = i \<and> acc_address a = address"
proof -
  have "directory_ok s' \<and> (\<exists>new. s' = s\<lparr> db_accounts := db_accounts s @ new \<rparr>) \<and>
    (\<exists>a\<in>set (db_accounts s'). acc_id a = i \<and> acc_address a = address)"
  proof (cases "row_by acc_address (db_accounts s) address")
    case None
    then have new: "i = next_rowid (map acc_id (db_accounts s))"
      "s' = s\<lparr> db_accounts := db_accounts s @ [\<lparr> acc_id = i, acc_address = address \<rparr>] \<rparr>"
      using assms(1) by (auto simp: get_or_create_account_def Let_def)
    have "i \<notin> acc_id ` set (db_accounts s)"
      using next_rowid_fresh [of "map acc_id (db_accounts s)"] by (auto simp: new(1) simp del: next_rowid_fresh)
    then show ?thesis using assms(2) None by (auto simp: directory_ok_def new(2) row_by_None_iff)
  next
    case (Some a)
    then have "s' = s" "i = acc_id a" "a \<in> set (db_accounts s)" "acc_address a = address"
      using assms by (auto simp: get_or_create_account_def row_by_Some_iff directory_ok_def)
    then show ?thesis using assms(2) by (auto intro: exI [of _ "[]"])
  qed
  then show "directory_ok s'" "\<exists>new. s' = s\<lparr> db_accounts := db_accounts s @ new \<rparr>"
    "\<exists>a\<in>set (db_accounts s'). acc_id a = i \<and> acc_address a = address" by auto
qed

text \<open>
  The relation between the databases before and after an operation that only brings new facts from the
  chain: tables grow, the keys of new rows are larger, and what is known of stored events does not change.
\<close>

definition grows :: "('r \<Rightarrow> nat) \<Rightarrow> 'r list \<Rightarrow> 'r list \<Rightarrow> bool" where
  "grows f xs ys \<longleftrightarrow> (\<exists>new. ys = xs @ new \<and> (\<forall>r\<in>set new. next_rowid (map f xs) \<le> f r))"

lemma grows_refl [simp]: "grows f xs xs"
  by (simp add: grows_def)

lemma grows_trans:
  assumes "grows f xs ys" and "grows f ys zs"
  shows "grows f xs zs"
proof -
  from assms obtain a b where *: "ys = xs @ a" "\<forall>r\<in>set a. next_rowid (map f xs) \<le> f r"
    "zs = ys @ b" "\<forall>r\<in>set b. next_rowid (map f ys) \<le> f r" unfolding grows_def by blast
  show ?thesis
    unfolding grows_def
  proof (intro exI [of _ "a @ b"] conjI ballI)
    fix n assume "n \<in> set (a @ b)"
    then show "next_rowid (map f xs) \<le> f n"
      using * next_rowid_append [of "map f xs" "map f a"] by fastforce
  qed (simp add: *)
qed

lemma growsD:
  assumes "grows f xs ys" and "r \<in> set ys"
  shows "r \<in> set xs \<or> (\<forall>i\<in>set (map f xs). i < f r) \<and> next_rowid (map f xs) \<le> f r"
  using assms less_next_rowid [of _ "map f xs"] by (fastforce simp: grows_def)

lemma grows_set: "grows f xs ys \<Longrightarrow> set xs \<subseteq> set ys"
  by (auto simp: grows_def)

lemma grows_sorted:
  assumes "grows f xs ys" and "r \<in> set ys" and "f r < next_rowid (map f xs)"
  shows "r \<in> set xs"
  using growsD [OF assms(1,2)] assms(3) by auto

definition extends :: "storage \<Rightarrow> storage \<Rightarrow> bool" where
  "extends s s' \<longleftrightarrow>
    grows nl_id (db_nullifiers s) (db_nullifiers s') \<and> grows cm_id (db_commitments s) (db_commitments s') \<and>
    (\<forall>eid\<in>raw_id ` set (db_raw s). event_contract s' eid = event_contract s eid) \<and>
    raw_id ` set (db_raw s) \<subseteq> raw_id ` set (db_raw s') \<and>
    db_user_notes s' = db_user_notes s \<and> db_commitment_scan s' = db_commitment_scan s \<and>
    db_nullifier_scan s' = db_nullifier_scan s \<and> db_keypairs s' = db_keypairs s"

lemma extends_refl: "extends s s"
  by (simp add: extends_def)

lemma extends_trans:
  assumes "extends s t" and "extends t u"
  shows "extends s u"
  unfolding extends_def
proof (intro conjI)
  show "grows nl_id (db_nullifiers s) (db_nullifiers u)" "grows cm_id (db_commitments s) (db_commitments u)"
    using assms unfolding extends_def by (metis grows_trans)+
  show "\<forall>eid\<in>raw_id ` set (db_raw s). event_contract u eid = event_contract s eid"
    using assms unfolding extends_def by (metis subset_iff)
  show "raw_id ` set (db_raw s) \<subseteq> raw_id ` set (db_raw u)"
    using assms unfolding extends_def by (metis subset_trans)
qed (use assms in \<open>auto simp: extends_def\<close>)

section \<open>Ingestion keeps the invariants\<close>

lemma save_event_spec:
  assumes "directory_ok s" and "ce_ledger e < 2 ^ 32"
  shows "directory_ok (save_event e s)" and "extends s (save_event e s)"
    and "events_ok s \<Longrightarrow> events_ok (save_event e s)"
proof -
  obtain i t where t: "get_or_create_contract_id (ce_contract_id e) s = (i, t)" by fastforce
  note g = get_or_create_contract_id_spec [OF t assms(1)]
  obtain new where new: "t = s\<lparr> db_contracts := db_contracts s @ new \<rparr>" using g(2) by blast
  define r where "r = \<lparr> raw_id = ce_id e, raw_ledger = ce_ledger e, raw_contract = i,
                raw_topics = join_topics (ce_topics e), raw_value = ce_value e \<rparr>"
  have eq: "save_event e s = (if ce_id e \<in> raw_id ` set (db_raw t) then t else t\<lparr> db_raw := db_raw t @ [r] \<rparr>)"
    by (simp add: save_event_def t r_def)
  have r: "raw_id r = ce_id e" "raw_contract r = i" "raw_ledger r = ce_ledger e" by (simp_all add: r_def)
  show "directory_ok (save_event e s)"
    using g(1,3) assms(2) by (auto simp: eq directory_ok_def r)
  show "extends s (save_event e s)"
    by (auto simp: eq new extends_def event_contract_def event_row_def row_by_append)
  show "events_ok (save_event e s)" if "events_ok s"
    using that by (auto simp: eq new events_ok_def table_ok_defs)
qed

lemma save_events_batch_spec:
  assumes "save_events_batch data s = (r, s')" and "directory_ok s"
    and "list_all (\<lambda>e. ce_ledger e < 2 ^ 32) (ed_events data)"
  shows "directory_ok s' \<and> extends s s' \<and> (events_ok s \<longrightarrow> events_ok s')"
proof -
  have "directory_ok (fold save_event es t) \<and> extends t (fold save_event es t) \<and>
      (events_ok t \<longrightarrow> events_ok (fold save_event es t))"
    if "list_all (\<lambda>e. ce_ledger e < 2 ^ 32) es" and "directory_ok t" for es t
    using that
  proof (induction es arbitrary: t)
    case (Cons e es)
    then show ?case
      using save_event_spec [of t e] extends_trans [of t "save_event e t" "fold save_event es (save_event e t)"]
      by simp
  qed (simp add: extends_refl)
  moreover have "s' = fold save_event (ed_events data) s"
    using assms(1) by (auto simp: save_events_batch_def transaction_def)
  ultimately show ?thesis using assms(2,3) by simp
qed

lemma save_progress_spec:
  assumes "directory_ok s" and "sm_last_indexed e < 2 ^ 32"
  shows "directory_ok (save_progress fully e s)" and "extends s (save_progress fully e s)"
    and "events_ok s \<Longrightarrow> events_ok (save_progress fully e s)"
proof -
  obtain i t where t: "get_or_create_contract_id (sm_contract_id e) s = (i, t)" by fastforce
  note g = get_or_create_contract_id_spec [OF t assms(1)]
  obtain new where new: "t = s\<lparr> db_contracts := db_contracts s @ new \<rparr>" using g(2) by blast
  have eq: "\<exists>f g. save_progress fully e s =
      t\<lparr> db_indexing := map f (if i \<in> ix_contract ` set (db_indexing t) then db_indexing t else db_indexing t @ [g]) \<rparr> \<and>
      ix_contract g = i \<and> ix_last_indexed g < 2 ^ 32 \<and> ix_last_fully_indexed g < 2 ^ 32 \<and>
      (\<forall>r. ix_contract (f r) = ix_contract r) \<and>
      (\<forall>r. ix_last_indexed r < 2 ^ 32 \<and> ix_last_fully_indexed r < 2 ^ 32 \<longrightarrow>
        ix_last_indexed (f r) < 2 ^ 32 \<and> ix_last_fully_indexed (f r) < 2 ^ 32)"
    unfolding save_progress_def t Let_def prod.case
    by (rule exI, rule exI, rule conjI, rule refl) (use assms(2) in auto)
  then obtain f g where fg: "save_progress fully e s =
      t\<lparr> db_indexing := map f (if i \<in> ix_contract ` set (db_indexing t) then db_indexing t else db_indexing t @ [g]) \<rparr>"
    "ix_contract g = i" "ix_last_indexed g < 2 ^ 32" "ix_last_fully_indexed g < 2 ^ 32"
    "\<And>r. ix_contract (f r) = ix_contract r"
    "\<And>r. ix_last_indexed r < 2 ^ 32 \<and> ix_last_fully_indexed r < 2 ^ 32 \<Longrightarrow>
        ix_last_indexed (f r) < 2 ^ 32 \<and> ix_last_fully_indexed (f r) < 2 ^ 32" by blast
  have f: "map (ix_contract \<circ> f) rs = map ix_contract rs" for rs by (simp add: fg(5))
  have "directory_ok (t\<lparr> db_indexing := map f (db_indexing t) \<rparr>)"
    using g(1) fg(5,6) by (auto simp: directory_ok_def f)
  moreover have "directory_ok (t\<lparr> db_indexing := map f (db_indexing t @ [g]) \<rparr>)"
    if "i \<notin> ix_contract ` set (db_indexing t)"
    using g(1,3) fg that by (auto simp: directory_ok_def f)
  ultimately show "directory_ok (save_progress fully e s)" unfolding fg(1) by simp
  show "extends s (save_progress fully e s)"
    by (auto simp: fg(1) new extends_def event_contract_def event_row_def)
  show "events_ok (save_progress fully e s)" if "events_ok s"
    using that by (auto simp: fg(1) new events_ok_def table_ok_defs)
qed

lemma save_sync_progress_spec:
  assumes "save_sync_progress metadata fully s = (r, s')" and "directory_ok s"
    and "list_all (\<lambda>m. sm_last_indexed m < 2 ^ 32) metadata"
  shows "directory_ok s' \<and> extends s s' \<and> (events_ok s \<longrightarrow> events_ok s')"
proof -
  have "directory_ok (fold (save_progress fully) es t) \<and> extends t (fold (save_progress fully) es t) \<and>
      (events_ok t \<longrightarrow> events_ok (fold (save_progress fully) es t))"
    if "list_all (\<lambda>m. sm_last_indexed m < 2 ^ 32) es" and "directory_ok t" for es t
    using that
  proof (induction es arbitrary: t)
    case (Cons e es)
    then show ?case
      using save_progress_spec [of t e fully]
        extends_trans [of t "save_progress fully e t" "fold (save_progress fully) es (save_progress fully e t)"]
      by simp
  qed (simp add: extends_refl)
  moreover have "s' = fold (save_progress fully) metadata s"
    using assms(1) by (auto simp: save_sync_progress_def transaction_def)
  ultimately show ?thesis using assms(2,3) by simp
qed

section \<open>Event processing keeps the invariants\<close>

definition base_ok :: "storage \<Rightarrow> bool" where
  "base_ok s \<longleftrightarrow> directory_ok s \<and> events_ok s"

lemma transaction_simps [simp]:
  "f s = Inl e \<Longrightarrow> transaction f s = (Inl e, s)"
  "f s = Inr (x, s') \<Longrightarrow> transaction f s = (Inr x, s')"
  by (simp_all add: transaction_def)

lemma transaction_cases:
  assumes "transaction f s = (r, s')"
  obtains e where "f s = Inl e" "r = Inl e" "s' = s" | x where "f s = Inr (x, s')" "r = Inr x"
  using assms by (auto simp: transaction_def split: sum.splits)

lemma and_then_cases:
  assumes "and_then m f = (r, s')"
  obtains e where "m = (Inl e, s')" "r = Inl e" | x t where "m = (Inr x, t)" "f x t = (r, s')"
  using assms by (auto simp: and_then_def split: prod.splits sum.splits)

lemma and_then_simps [simp]:
  "and_then (Inl e, s) f = (Inl e, s)" "and_then (Inr x, s) f = f x s"
  by (simp_all add: and_then_def)

lemma save_nullifier_spec:
  assumes "save_nullifier e s = Inr s'" and "base_ok s"
  shows "base_ok s' \<and> extends s s'"
  using assms(1)
proof (cases rule: nullifier_table.save_Inr)
  case 1
  then show ?thesis using assms(2) by (simp add: extends_refl)
next
  case 2
  have "nullifier_table.table_ok s'" using nullifier_table.save_ok [OF assms(1)] assms(2) by (simp add: base_ok_def events_ok_def)
  moreover have "directory_ok s'" using assms(2) 2 by (auto simp: base_ok_def directory_ok_def)
  moreover have "extends s s'"
    using 2 by (auto simp: extends_def grows_def event_contract_def event_row_def split: prod.splits)
  moreover have "sorted_wrt (<) (0 # map nl_id (db_nullifiers s'))"
    using 2 assms(2) sorted_next_rowid [of "map nl_id (db_nullifiers s)"]
    by (auto simp: base_ok_def events_ok_def split: prod.splits)
  moreover have "commitment_table.table_ok s'" "public_key_table.table_ok s'" "asp_leaf_table.table_ok s'"
    "sorted_wrt (<) (0 # map cm_id (db_commitments s'))"
    using 2 assms(2) by (auto simp: base_ok_def events_ok_def table_ok_defs)
  ultimately show ?thesis by (simp add: base_ok_def events_ok_def)
qed

lemma save_commitment_spec:
  assumes "save_commitment e s = Inr s'" and "base_ok s"
  shows "base_ok s' \<and> extends s s'"
  using assms(1)
proof (cases rule: commitment_table.save_Inr)
  case 1
  then show ?thesis using assms(2) by (simp add: extends_refl)
next
  case 2
  have "commitment_table.table_ok s'" using commitment_table.save_ok [OF assms(1)] assms(2) by (simp add: base_ok_def events_ok_def)
  moreover have "directory_ok s'" using assms(2) 2 by (auto simp: base_ok_def directory_ok_def)
  moreover have "extends s s'"
    using 2 by (auto simp: extends_def grows_def event_contract_def event_row_def split: prod.splits)
  moreover have "sorted_wrt (<) (0 # map cm_id (db_commitments s'))"
    using 2 assms(2) sorted_next_rowid [of "map cm_id (db_commitments s)"]
    by (auto simp: base_ok_def events_ok_def split: prod.splits)
  moreover have "nullifier_table.table_ok s'" "public_key_table.table_ok s'" "asp_leaf_table.table_ok s'"
    "sorted_wrt (<) (0 # map nl_id (db_nullifiers s'))"
    using 2 assms(2) by (auto simp: base_ok_def events_ok_def table_ok_defs)
  ultimately show ?thesis by (simp add: base_ok_def events_ok_def)
qed

lemma save_public_key_spec:
  assumes "save_public_key e s = Inr s'" and "base_ok s"
  shows "base_ok s' \<and> extends s s'"
  using assms(1)
proof (cases rule: public_key_table.save_Inr)
  case 1
  then show ?thesis using assms(2) by (simp add: extends_refl)
next
  case 2
  have "public_key_table.table_ok s'" using public_key_table.save_ok [OF assms(1)] assms(2) by (simp add: base_ok_def events_ok_def)
  moreover have "directory_ok s'" "extends s s'" "nullifier_table.table_ok s'" "commitment_table.table_ok s'"
    "asp_leaf_table.table_ok s'" "sorted_wrt (<) (0 # map nl_id (db_nullifiers s'))" "sorted_wrt (<) (0 # map cm_id (db_commitments s'))"
    using 2 assms(2) by (auto simp: base_ok_def directory_ok_def events_ok_def table_ok_defs extends_def
        event_contract_def event_row_def)
  ultimately show ?thesis by (simp add: base_ok_def events_ok_def)
qed

lemma save_leaf_added_spec:
  assumes "save_leaf_added e s = Inr s'" and "base_ok s"
  shows "base_ok s' \<and> extends s s'"
  using assms(1)
proof (cases rule: asp_leaf_table.save_Inr)
  case 1
  then show ?thesis using assms(2) by (simp add: extends_refl)
next
  case 2
  have "asp_leaf_table.table_ok s'" using asp_leaf_table.save_ok [OF assms(1)] assms(2) by (simp add: base_ok_def events_ok_def)
  moreover have "directory_ok s'" "extends s s'" "nullifier_table.table_ok s'" "commitment_table.table_ok s'"
    "public_key_table.table_ok s'" "sorted_wrt (<) (0 # map nl_id (db_nullifiers s'))" "sorted_wrt (<) (0 # map cm_id (db_commitments s'))"
    using 2 assms(2) by (auto simp: base_ok_def directory_ok_def events_ok_def table_ok_defs extends_def
        event_contract_def event_row_def)
  ultimately show ?thesis by (simp add: base_ok_def events_ok_def)
qed

lemma batch_spec:
  assumes "transaction (\<lambda>s. let_ok (fold_ok save es s) (\<lambda>s'. Inr ((), s'))) s = (r, s')" and "base_ok s"
    and "\<And>e s s'. save e s = Inr s' \<Longrightarrow> base_ok s \<Longrightarrow> base_ok s' \<and> extends s s'"
  shows "base_ok s' \<and> extends s s'"
  using assms(1)
proof (cases rule: transaction_cases)
  case 1
  then show ?thesis using assms(2) by (simp add: extends_refl)
next
  case 2
  then have "fold_ok save es s = Inr s'" by (auto simp: let_ok_Inr_iff)
  then show ?thesis
    by (rule fold_ok_invariant [where P = "\<lambda>t. base_ok t \<and> extends s t"])
      (use assms(2,3) extends_refl extends_trans in blast)+
qed

lemma batch_specs:
  assumes "base_ok s"
  shows "save_nullifier_events_batch ns s = (r, s') \<Longrightarrow> base_ok s' \<and> extends s s'"
    and "save_commitment_events_batch cs s = (r, s') \<Longrightarrow> base_ok s' \<and> extends s s'"
    and "save_public_key_events_batch ks s = (r, s') \<Longrightarrow> base_ok s' \<and> extends s s'"
    and "save_leaf_added_events_batch ls s = (r, s') \<Longrightarrow> base_ok s' \<and> extends s s'"
  unfolding save_nullifier_events_batch_def save_commitment_events_batch_def save_public_key_events_batch_def
    save_leaf_added_events_batch_def
  by (erule batch_spec [OF _ assms], erule save_nullifier_spec save_commitment_spec save_public_key_spec
      save_leaf_added_spec, assumption)+

lemma process_events_spec:
  assumes "process_events S limit s = (r, s')" and "base_ok s"
  shows "base_ok s' \<and> extends s s'"
proof (cases "get_unprocessed_events limit s")
  case (Inl e)
  then show ?thesis using assms by (simp add: process_events_def extends_refl)
next
  case (Inr es)
  show ?thesis
  proof (cases "es = []")
    case True
    then show ?thesis using assms Inr by (simp add: process_events_def extends_refl)
  next
    case False
    let ?P = "parsed_events S (rev es)"
    from assms(1) have "and_then (save_nullifier_events_batch (nullifier_events ?P) s) (\<lambda>_ s.
       and_then (save_commitment_events_batch (commitment_events ?P) s) (\<lambda>_ s.
       and_then (save_public_key_events_batch (public_key_events ?P) s) (\<lambda>_ s.
       and_then (save_leaf_added_events_batch (leaf_added_events ?P) s) (\<lambda>_ s. (Inr True, s))))) = (r, s')"
      using Inr False by (simp add: process_events_def Let_def)
    then show ?thesis using assms(2)
      by (elim and_then_cases) (blast dest: batch_specs intro: extends_trans | simp)+
  qed
qed

end
