(* ===== verification/Storage_Wallet.thy ===== *)
theory Storage_Wallet
  imports Storage_Invariant
begin

text \<open>
  The wallet tables of the local database: \<open>user_notes\<close>, the scan marks of the accounts and the marks of the
  reconciliation. Scan and reconciliation keep their invariant, and a run of either that makes no progress
  leaves nothing to do.
\<close>

section \<open>Invariant of the wallet tables\<close>

definition pool_row :: "commitment_row \<Rightarrow> pool_commitment_row" where
  "pool_row c = \<lparr> pc_commitment_id = cm_id c, pc_commitment = cm_commitment c, pc_leaf_index = cm_leaf_index c,
      pc_encrypted_output = cm_encrypted_output c \<rparr>"

definition account_keys_of :: "nat \<Rightarrow> keypair_row \<Rightarrow> account_keys" where
  "account_keys_of account k = \<lparr> ak_account = account, ak_keys = kp_keys k \<rparr>"

definition same_pool :: "storage \<Rightarrow> commitment_row \<Rightarrow> nullifier_row \<Rightarrow> bool" where
  "same_pool s c m \<longleftrightarrow> event_contract s (nl_event m) = event_contract s (cm_event c)"

definition derived_of :: "user_note_row \<Rightarrow> derived_user_note_row" where
  "derived_of n = \<lparr> dn_amount = un_amount n, dn_blinding = un_blinding n, dn_expected_nullifier = un_expected n \<rparr>"

text \<open>
  A note stems from its commitment and the keys of its account. It is marked with a nullifier of its own
  pool, or its nullifier has not been reached by the reconciliation of that pool.
\<close>

definition spent_ok :: "storage \<Rightarrow> commitment_row \<Rightarrow> user_note_row \<Rightarrow> bool" where
  "spent_ok s c n \<longleftrightarrow>
    (case un_nullifier n of
       Some i \<Rightarrow> (\<exists>m\<in>set (db_nullifiers s). nl_id m = i \<and> nl_nullifier m = un_expected n \<and> same_pool s c m)
     | None \<Rightarrow> (\<forall>m\<in>set (db_nullifiers s). nl_nullifier m = un_expected n \<longrightarrow> same_pool s c m \<longrightarrow>
         (\<forall>r\<in>set (db_nullifier_scan s). event_contract s (cm_event c) = Some (ns_pool r) \<longrightarrow> ns_last r < nl_id m)))"

definition note_ok :: "derive_note_fn \<Rightarrow> storage \<Rightarrow> user_note_row \<Rightarrow> bool" where
  "note_ok D s n \<longleftrightarrow>
    (\<exists>c\<in>set (db_commitments s). cm_id c = un_commitment n \<and> cm_commitment c = un_id n \<and>
      (\<exists>k\<in>set (db_keypairs s). kp_account k = Some (un_account n) \<and>
        D (account_keys_of (un_account n) k) (pool_row c) = Inr (Some (derived_of n))) \<and>
      spent_ok s c n)"

text \<open>
  Every commitment below the mark of an account that its keys can derive has its note; the alternative
  is a second note with the same nullifier, which the unique column rejects.
\<close>

definition found :: "storage \<Rightarrow> commitment_row \<Rightarrow> derived_user_note_row \<Rightarrow> bool" where
  "found s c d \<longleftrightarrow> (\<exists>n\<in>set (db_user_notes s). un_commitment n = cm_id c \<or> un_expected n = dn_expected_nullifier d)"

definition scanned :: "derive_note_fn \<Rightarrow> storage \<Rightarrow> nat \<Rightarrow> nat \<Rightarrow> commitment_row \<Rightarrow> bool" where
  "scanned D s pool account c \<longleftrightarrow>
    (\<forall>k\<in>set (db_keypairs s). kp_account k = Some account \<longrightarrow> event_contract s (cm_event c) = Some pool \<longrightarrow>
      (\<forall>d. D (account_keys_of account k) (pool_row c) = Inr (Some d) \<longrightarrow> found s c d))"

definition mark_ok :: "derive_note_fn \<Rightarrow> storage \<Rightarrow> commitment_scan_row \<Rightarrow> bool" where
  "mark_ok D s r \<longleftrightarrow>
    (\<exists>k\<in>set (db_keypairs s). kp_account k = Some (cs_account r)) \<and>
    cs_last r < next_rowid (map cm_id (db_commitments s)) \<and>
    (\<forall>c\<in>set (db_commitments s). cm_id c \<le> cs_last r \<longrightarrow> scanned D s (cs_pool r) (cs_account r) c)"

definition wallet_ok :: "derive_note_fn \<Rightarrow> storage \<Rightarrow> bool" where
  "wallet_ok D s \<longleftrightarrow>
    distinct (map un_commitment (db_user_notes s)) \<and> (\<forall>n\<in>set (db_user_notes s). note_ok D s n) \<and>
    distinct (map (\<lambda>r. (cs_pool r, cs_account r)) (db_commitment_scan s)) \<and>
    (\<forall>r\<in>set (db_commitment_scan s). mark_ok D s r) \<and>
    distinct (map ns_pool (db_nullifier_scan s)) \<and>
    (\<forall>r\<in>set (db_nullifier_scan s). ns_last r < next_rowid (map nl_id (db_nullifiers s))) \<and>
    distinct (map kp_id (db_keypairs s)) \<and>
    (\<forall>k\<in>set (db_keypairs s). \<forall>k'\<in>set (db_keypairs s). kp_account k = kp_account k' \<longrightarrow> kp_keys k = kp_keys k')"

lemma note_okE:
  assumes "note_ok D s n"
  obtains c k where "c \<in> set (db_commitments s)" "cm_id c = un_commitment n" "cm_commitment c = un_id n"
    "k \<in> set (db_keypairs s)" "kp_account k = Some (un_account n)"
    "D (account_keys_of (un_account n) k) (pool_row c) = Inr (Some (derived_of n))" "spent_ok s c n"
  using assms unfolding note_ok_def by blast

lemma note_okI:
  "c \<in> set (db_commitments s) \<Longrightarrow> cm_id c = un_commitment n \<Longrightarrow> cm_commitment c = un_id n \<Longrightarrow>
    k \<in> set (db_keypairs s) \<Longrightarrow> kp_account k = Some (un_account n) \<Longrightarrow>
    D (account_keys_of (un_account n) k) (pool_row c) = Inr (Some (derived_of n)) \<Longrightarrow> spent_ok s c n \<Longrightarrow> note_ok D s n"
  unfolding note_ok_def by blast

lemma wallet_okD:
  assumes "wallet_ok D s"
  shows "n \<in> set (db_user_notes s) \<Longrightarrow> note_ok D s n" and "r \<in> set (db_commitment_scan s) \<Longrightarrow> mark_ok D s r"
    and "q \<in> set (db_nullifier_scan s) \<Longrightarrow> ns_last q < next_rowid (map nl_id (db_nullifiers s))"
    and "distinct (map un_commitment (db_user_notes s))" and "distinct (map ns_pool (db_nullifier_scan s))"
    and "distinct (map (\<lambda>r. (cs_pool r, cs_account r)) (db_commitment_scan s))"
    and "k \<in> set (db_keypairs s) \<Longrightarrow> k' \<in> set (db_keypairs s) \<Longrightarrow> kp_account k = kp_account k' \<Longrightarrow> kp_keys k = kp_keys k'"
    and "distinct (map kp_id (db_keypairs s))"
  using assms unfolding wallet_ok_def by blast+

lemma event_in_raw:
  assumes "events_ok s"
  shows "c \<in> set (db_commitments s) \<Longrightarrow> cm_event c \<in> raw_id ` set (db_raw s)"
    and "m \<in> set (db_nullifiers s) \<Longrightarrow> nl_event m \<in> raw_id ` set (db_raw s)"
  using assms by (auto simp: events_ok_def table_ok_defs)

lemma commitment_unique:
  assumes "events_ok s" and "c \<in> set (db_commitments s)" and "c' \<in> set (db_commitments s)"
    and "cm_id c = cm_id c' \<or> cm_commitment c = cm_commitment c'"
  shows "c = c'"
proof -
  have "distinct (map cm_id (db_commitments s))"
    using assms(1) strict_sorted_iff by (auto simp: events_ok_def)
  moreover have "distinct (map cm_commitment (db_commitments s))"
    using assms(1) by (simp add: events_ok_def table_ok_defs)
  ultimately show ?thesis using assms(2-4) by (auto simp: distinct_map inj_on_def)
qed

lemma nullifier_unique:
  assumes "events_ok s" and "c \<in> set (db_nullifiers s)" and "c' \<in> set (db_nullifiers s)"
    and "nl_id c = nl_id c' \<or> nl_nullifier c = nl_nullifier c'"
  shows "c = c'"
proof -
  have "distinct (map nl_id (db_nullifiers s))"
    using assms(1) strict_sorted_iff by (auto simp: events_ok_def)
  moreover have "distinct (map nl_nullifier (db_nullifiers s))"
    using assms(1) by (simp add: events_ok_def table_ok_defs)
  ultimately show ?thesis using assms(2-4) by (auto simp: distinct_map inj_on_def)
qed

lemma extendsD:
  assumes "extends s s'"
  shows "set (db_commitments s) \<subseteq> set (db_commitments s')" "set (db_nullifiers s) \<subseteq> set (db_nullifiers s')"
    "eid \<in> raw_id ` set (db_raw s) \<Longrightarrow> event_contract s' eid = event_contract s eid"
    "db_user_notes s' = db_user_notes s" "db_commitment_scan s' = db_commitment_scan s"
    "db_nullifier_scan s' = db_nullifier_scan s" "db_keypairs s' = db_keypairs s"
    "grows nl_id (db_nullifiers s) (db_nullifiers s')" "grows cm_id (db_commitments s) (db_commitments s')"
  using assms by (auto simp: extends_def dest: grows_set)

lemma next_rowid_grows: "grows f xs ys \<Longrightarrow> next_rowid (map f xs) \<le> next_rowid (map f ys)"
  using next_rowid_append [of "map f xs"] by (auto simp: grows_def)

lemma spent_ok_extends:
  assumes "spent_ok s c n" and "extends s s'" and "events_ok s" and "c \<in> set (db_commitments s)"
    and marks: "\<forall>r\<in>set (db_nullifier_scan s). ns_last r < next_rowid (map nl_id (db_nullifiers s))"
  shows "spent_ok s' c n"
proof (cases "un_nullifier n")
  case None
  note x = extendsD [OF assms(2)] and raw = event_in_raw [OF assms(3)]
  have "ns_last r < nl_id m"
    if m: "m \<in> set (db_nullifiers s')" "nl_nullifier m = un_expected n" "same_pool s' c m"
      and r: "r \<in> set (db_nullifier_scan s)" "event_contract s' (cm_event c) = Some (ns_pool r)" for m r
  proof (cases "m \<in> set (db_nullifiers s)")
    case True
    then have "same_pool s c m" using m(3) x(3) raw assms(4) by (simp add: same_pool_def)
    then show ?thesis using assms(1) None True m r x(3) [OF raw(1) [OF assms(4)]] by (simp add: spent_ok_def)
  next
    case False
    then have "next_rowid (map nl_id (db_nullifiers s)) \<le> nl_id m" using growsD [OF x(8) m(1)] by blast
    then show ?thesis using marks r(1) by fastforce
  qed
  then show ?thesis using None x(6) by (auto simp: spent_ok_def)
next
  case (Some i)
  then obtain m where m: "m \<in> set (db_nullifiers s)" "nl_id m = i" "nl_nullifier m = un_expected n" "same_pool s c m"
    using assms(1) by (auto simp: spent_ok_def)
  then have "same_pool s' c m" "m \<in> set (db_nullifiers s')"
    using extendsD(2,3) [OF assms(2)] event_in_raw [OF assms(3)] assms(4) by (auto simp: same_pool_def)
  then show ?thesis using m Some by (auto simp: spent_ok_def)
qed

lemma wallet_ok_extends:
  assumes "wallet_ok D s" and "extends s s'" and "events_ok s"
  shows "wallet_ok D s'"
proof -
  note x = extendsD [OF assms(2)] and raw = event_in_raw [OF assms(3)]
  have "note_ok D s' n" if "n \<in> set (db_user_notes s)" for n
  proof -
    from wallet_okD(1) [OF assms(1) that] show ?thesis
    proof (rule note_okE)
      fix c k
      assume c: "c \<in> set (db_commitments s)" "cm_id c = un_commitment n" "cm_commitment c = un_id n"
        "k \<in> set (db_keypairs s)" "kp_account k = Some (un_account n)"
        "D (account_keys_of (un_account n) k) (pool_row c) = Inr (Some (derived_of n))" "spent_ok s c n"
      have "spent_ok s' c n"
        using spent_ok_extends [OF c(7) assms(2,3) c(1)] wallet_okD(3) [OF assms(1)] by blast
      then show "note_ok D s' n" using c x(1,7) by (intro note_okI) auto
    qed
  qed
  moreover have "mark_ok D s' r" if "r \<in> set (db_commitment_scan s)" for r
  proof -
    have m: "mark_ok D s r" using that assms(1) by (simp add: wallet_ok_def)
    have "scanned D s' (cs_pool r) (cs_account r) c" if c: "c \<in> set (db_commitments s')" "cm_id c \<le> cs_last r" for c
    proof -
      have "c \<in> set (db_commitments s)"
        using grows_sorted [OF x(9) c(1)] c(2) m by (simp add: mark_ok_def)
      moreover from this have "scanned D s (cs_pool r) (cs_account r) c" using m c(2) by (simp add: mark_ok_def)
      moreover have "event_contract s' (cm_event c) = event_contract s (cm_event c)"
        using x(3) [OF raw(1)] calculation(1) by blast
      ultimately show ?thesis by (simp add: scanned_def found_def x(4,7))
    qed
    moreover have "cs_last r < next_rowid (map cm_id (db_commitments s'))"
      using m next_rowid_grows [OF x(9)] by (simp add: mark_ok_def)
    ultimately show ?thesis using m by (simp add: mark_ok_def x(7))
  qed
  moreover have "\<forall>r\<in>set (db_nullifier_scan s). ns_last r < next_rowid (map nl_id (db_nullifiers s'))"
    using wallet_okD(3) [OF assms(1)] next_rowid_grows [OF x(8)] by (meson order_less_le_trans)
  ultimately show ?thesis using assms(1) unfolding wallet_ok_def x(4-7) by blast
qed

section \<open>The scan keeps the invariant\<close>

lemma sorted_ids:
  assumes "events_ok s"
  shows "sort_key cm_id (filter P (db_commitments s)) = filter P (db_commitments s)"
    and "sort_key nl_id (filter Q (db_nullifiers s)) = filter Q (db_nullifiers s)"
    and "sorted_wrt (<) (map cm_id (filter P (db_commitments s)))"
    and "sorted_wrt (<) (map nl_id (filter Q (db_nullifiers s)))"
    and "c \<in> set (db_commitments s) \<Longrightarrow> 0 < cm_id c" and "m \<in> set (db_nullifiers s) \<Longrightarrow> 0 < nl_id m"
proof -
  have sorted_filter: "sorted_wrt (<) (map f xs) \<Longrightarrow> sorted_wrt (<) (map f (filter R xs))" for f :: "'b \<Rightarrow> nat" and xs R
    by (induction xs) auto
  have id: "sorted_wrt (<) (map f xs) \<Longrightarrow> sort_key f xs = xs" for f :: "'b \<Rightarrow> nat" and xs
    by (simp add: sort_key_id_if_sorted strict_sorted_imp_sorted)
  show c: "sorted_wrt (<) (map cm_id (filter P (db_commitments s)))"
    and n: "sorted_wrt (<) (map nl_id (filter Q (db_nullifiers s)))"
    using assms by (auto simp: events_ok_def intro!: sorted_filter)
  show "sort_key cm_id (filter P (db_commitments s)) = filter P (db_commitments s)" using c by (rule id)
  show "sort_key nl_id (filter Q (db_nullifiers s)) = filter Q (db_nullifiers s)" using n by (rule id)
  show "c \<in> set (db_commitments s) \<Longrightarrow> 0 < cm_id c" "m \<in> set (db_nullifiers s) \<Longrightarrow> 0 < nl_id m"
    using assms by (auto simp: events_ok_def)
qed

lemma in_take_sorted:
  assumes "sorted_wrt (<) (map f xs)" and "x \<in> set xs" and "y \<in> set (take q xs)" and "f x \<le> (f y :: nat)"
  shows "x \<in> set (take q xs)"
proof (rule ccontr)
  assume "x \<notin> set (take q xs)"
  then have "x \<in> set (drop q xs)" using assms(2) by (metis append_take_drop_id UnE set_append)
  moreover have "sorted_wrt (<) (map f (take q xs) @ map f (drop q xs))"
    using assms(1) by (simp flip: map_append)
  ultimately have "f y < f x" using assms(3) by (simp add: sorted_wrt_append)
  then show False using assms(4) by simp
qed

definition scan_frame :: "storage \<Rightarrow> storage \<Rightarrow> bool" where
  "scan_frame s s' \<longleftrightarrow>
    s' = s\<lparr> db_user_notes := db_user_notes s', db_commitment_scan := db_commitment_scan s' \<rparr>"

lemma scan_frame_refl: "scan_frame s s"
  by (simp add: scan_frame_def)

lemma scan_frame_trans: "scan_frame s t \<Longrightarrow> scan_frame t u \<Longrightarrow> scan_frame s u"
  by (cases s; cases t; cases u) (simp add: scan_frame_def)

lemma scan_frameD:
  assumes "scan_frame s s'"
  shows "db_commitments s' = db_commitments s" "db_nullifiers s' = db_nullifiers s" "db_raw s' = db_raw s"
    "db_keypairs s' = db_keypairs s" "db_nullifier_scan s' = db_nullifier_scan s" "db_accounts s' = db_accounts s"
    "event_contract s' = event_contract s" "base_ok s' = base_ok s" "events_ok s' = events_ok s"
  using assms
  by (cases s; cases s'; simp add: scan_frame_def event_contract_def event_row_def fun_eq_iff base_ok_def
      directory_ok_def events_ok_def table_ok_defs)+

lemma notes_unaffected:
  assumes "scan_frame s s'"
  shows "spent_ok s' c n = spent_ok s c n" and "note_ok D s' n = note_ok D s n"
proof -
  show "spent_ok s' c n = spent_ok s c n" for c
    by (cases "un_nullifier n") (simp_all add: spent_ok_def same_pool_def scan_frameD [OF assms])
  then show "note_ok D s' n = note_ok D s n" by (simp add: note_ok_def scan_frameD [OF assms])
qed

lemma nullifier_of_pool_ok:
  assumes "event_contract s (cm_event c) = Some pool" and "un_nullifier n = nullifier_of_pool pool (un_expected n) s"
  shows "spent_ok s c n"
proof (cases "List.find (\<lambda>m. event_contract s (nl_event m) = Some pool \<and> nl_nullifier m = un_expected n) (db_nullifiers s)")
  case None
  then have "un_nullifier n = None" using assms(2) by (simp add: nullifier_of_pool_def)
  then show ?thesis using None assms(1) by (auto simp: spent_ok_def same_pool_def find_None_iff)
next
  case (Some m)
  then have "m \<in> set (db_nullifiers s)" "event_contract s (nl_event m) = Some pool" "nl_nullifier m = un_expected n"
    by (auto simp: find_Some_iff)
  moreover have "un_nullifier n = Some (nl_id m)" using assms(2) Some by (simp add: nullifier_of_pool_def)
  ultimately show ?thesis using assms(1) by (auto simp: spent_ok_def same_pool_def)
qed

lemma insert_note_ok:
  assumes "wallet_ok D s" and "note_ok D s n"
  shows "wallet_ok D (insert_note n s)" and "scan_frame s (insert_note n s)"
    and "set (db_user_notes s) \<subseteq> set (db_user_notes (insert_note n s))"
    and "db_commitment_scan (insert_note n s) = db_commitment_scan s"
proof -
  show f: "scan_frame s (insert_note n s)"
    by (simp add: insert_note_def scan_frame_def)
  show sub: "set (db_user_notes s) \<subseteq> set (db_user_notes (insert_note n s))"
    and scan: "db_commitment_scan (insert_note n s) = db_commitment_scan s" by (auto simp: insert_note_def)
  have "\<forall>m\<in>set (db_user_notes (insert_note n s)). note_ok D (insert_note n s) m"
    unfolding notes_unaffected(2) [OF f] using assms wallet_okD(1) by (auto simp: insert_note_def)
  moreover have "mark_ok D (insert_note n s) r" if "mark_ok D s r" for r
    using that sub by (fastforce simp: mark_ok_def scanned_def found_def scan_frameD [OF f])
  moreover have "distinct (map un_commitment (db_user_notes (insert_note n s)))"
    using wallet_okD(4) [OF assms(1)] by (auto simp: insert_note_def note_clash_def)
  ultimately show "wallet_ok D (insert_note n s)"
    using assms(1) unfolding wallet_ok_def scan_frameD [OF f] scan by blast
qed

text \<open>A derivable commitment has its note after its row was scanned.\<close>

lemma insert_note_found:
  assumes "wallet_ok D s" and "events_ok s" and "c \<in> set (db_commitments s)"
    and "un_commitment n = cm_id c" and "un_id n = cm_commitment c" and "spent_ok s c n"
    and "un_expected n = dn_expected_nullifier d"
  shows "found (insert_note n s) c d"
proof (cases "\<exists>m\<in>set (db_user_notes s). note_clash n m")
  case True
  then obtain m where m: "m \<in> set (db_user_notes s)" "note_clash n m" by blast
  from wallet_okD(1) [OF assms(1) m(1)] have "un_commitment m = cm_id c \<or> un_expected m = dn_expected_nullifier d"
  proof (rule note_okE)
    fix c' assume c': "c' \<in> set (db_commitments s)" "cm_id c' = un_commitment m" "cm_commitment c' = un_id m" "spent_ok s c' m"
    from m(2) consider "un_id n = un_id m" | "un_commitment n = un_commitment m"
      | i where "un_nullifier n = Some i" "un_nullifier m = Some i"
      by (cases "un_nullifier n") (auto simp: note_clash_def)
    then show ?thesis
    proof cases
      case 1
      then show ?thesis using commitment_unique [OF assms(2,3) c'(1)] assms(5) c' by auto
    next
      case 2
      then show ?thesis using assms(4) by simp
    next
      case 3
      then obtain x y where "x \<in> set (db_nullifiers s)" "nl_id x = i" "nl_nullifier x = un_expected n"
        "y \<in> set (db_nullifiers s)" "nl_id y = i" "nl_nullifier y = un_expected m"
        using assms(6) c'(4) by (auto simp: spent_ok_def)
      then show ?thesis using nullifier_unique [OF assms(2)] assms(7) by metis
    qed
  qed
  then show ?thesis using m(1) True by (auto simp: found_def insert_note_def)
next
  case False
  then show ?thesis using assms(4) by (auto simp: found_def insert_note_def)
qed

lemma scan_row_ok:
  assumes "scan_row D pool account (pool_row c) s = Inr s'" and "wallet_ok D s" and "events_ok s"
    and c: "c \<in> set (db_commitments s)" "event_contract s (cm_event c) = Some pool"
    and k: "k \<in> set (db_keypairs s)" "kp_account k = Some (ak_account account)" "account = account_keys_of (ak_account account) k"
  shows "wallet_ok D s'" and "scan_frame s s'" and "set (db_user_notes s) \<subseteq> set (db_user_notes s')"
    and "db_commitment_scan s' = db_commitment_scan s"
    and "\<forall>d. D account (pool_row c) = Inr (Some d) \<longrightarrow> found s' c d"
proof -
  obtain x where x: "D account (pool_row c) = Inr x" using assms(1) by (auto simp: scan_row_def let_ok_Inr_iff)
  from assms(1) consider "D account (pool_row c) = Inr None" "s' = s"
    | d where "D account (pool_row c) = Inr (Some d)" "s' = insert_note
          \<lparr> un_id = cm_commitment c, un_account = ak_account account, un_commitment = cm_id c,
            un_nullifier = nullifier_of_pool pool (dn_expected_nullifier d) s,
            un_expected = dn_expected_nullifier d, un_blinding = dn_blinding d, un_amount = dn_amount d \<rparr> s"
    unfolding scan_row_def x let_ok_simps by (cases x) (auto simp: x pool_row_def)
  then have "wallet_ok D s' \<and> scan_frame s s' \<and> set (db_user_notes s) \<subseteq> set (db_user_notes s') \<and>
    db_commitment_scan s' = db_commitment_scan s \<and> (\<forall>d. D account (pool_row c) = Inr (Some d) \<longrightarrow> found s' c d)"
  proof cases
    case 1
    then show ?thesis using assms(2) by (simp add: scan_frame_refl)
  next
    case (2 d)
    define n where "n = \<lparr> un_id = cm_commitment c, un_account = ak_account account, un_commitment = cm_id c,
            un_nullifier = nullifier_of_pool pool (dn_expected_nullifier d) s,
            un_expected = dn_expected_nullifier d, un_blinding = dn_blinding d, un_amount = dn_amount d \<rparr>"
    have s': "s' = insert_note n s" by (simp add: 2(2) n_def)
    have sp: "spent_ok s c n" by (rule nullifier_of_pool_ok [OF c(2)]) (simp add: n_def)
    have "derived_of n = d" by (simp add: derived_of_def n_def)
    then have ok: "note_ok D s n"
      using c(1) k 2(1) sp by (intro note_okI [of c _ _ k]) (simp_all add: n_def)
    have "found s' c d"
      unfolding s' by (rule insert_note_found [OF assms(2,3) c(1) _ _ sp]) (simp_all add: n_def)
    then show ?thesis using insert_note_ok [OF assms(2) ok] 2(1) by (simp add: s')
  qed
  then show "wallet_ok D s'" "scan_frame s s'" "set (db_user_notes s) \<subseteq> set (db_user_notes s')"
    "db_commitment_scan s' = db_commitment_scan s" "\<forall>d. D account (pool_row c) = Inr (Some d) \<longrightarrow> found s' c d" by blast+
qed

lemma found_mono: "found s c d \<Longrightarrow> set (db_user_notes s) \<subseteq> set (db_user_notes s') \<Longrightarrow> found s' c d"
  by (auto simp: found_def)

lemma scan_rows_ok:
  assumes "fold_ok (scan_row D pool account) (map pool_row cs) s = Inr s'" and "wallet_ok D s" and "events_ok s"
    and "\<forall>c\<in>set cs. c \<in> set (db_commitments s) \<and> event_contract s (cm_event c) = Some pool"
    and k: "k \<in> set (db_keypairs s)" "kp_account k = Some (ak_account account)" "account = account_keys_of (ak_account account) k"
  shows "wallet_ok D s' \<and> scan_frame s s' \<and> set (db_user_notes s) \<subseteq> set (db_user_notes s') \<and>
    db_commitment_scan s' = db_commitment_scan s \<and>
    (\<forall>c\<in>set cs. \<forall>d. D account (pool_row c) = Inr (Some d) \<longrightarrow> found s' c d)"
  using assms(1-4) k(1)
proof (induction cs arbitrary: s)
  case Nil
  then show ?case by (simp add: scan_frame_refl)
next
  case (Cons c cs)
  then obtain t where t: "scan_row D pool account (pool_row c) s = Inr t"
    "fold_ok (scan_row D pool account) (map pool_row cs) t = Inr s'" by (auto simp: let_ok_Inr_iff)
  have c: "c \<in> set (db_commitments s)" "event_contract s (cm_event c) = Some pool" using Cons.prems(4) by auto
  note r = scan_row_ok [OF t(1) Cons.prems(2,3) c Cons.prems(5) k(2,3)]
  note f = scan_frameD [OF r(2)]
  have "\<forall>x\<in>set cs. x \<in> set (db_commitments t) \<and> event_contract t (cm_event x) = Some pool"
    using Cons.prems(4) by (simp add: f)
  note IH = Cons.IH [OF t(2) r(1) _ this]
  show ?case
    using IH Cons.prems(3,5) r scan_frame_trans [OF r(2)] found_mono by (fastforce simp: f)
qed

definition valid_account :: "storage \<Rightarrow> account_keys \<Rightarrow> bool" where
  "valid_account s a \<longleftrightarrow>
    (\<exists>k\<in>set (db_keypairs s). kp_account k = Some (ak_account a) \<and> a = account_keys_of (ak_account a) k)"

lemma latest_keypair_valid:
  assumes "a \<in> set (get_accounts_with_latest_keypairs s)"
  shows "valid_account s a"
proof -
  from assms obtain x where "latest_keypair s x = Some a"
    by (auto simp: get_accounts_with_latest_keypairs_def map_filter_def)
  then obtain k ks where k: "rev (sort_key kp_id (filter (\<lambda>k. kp_account k = Some (acc_id x)) (db_keypairs s))) = k # ks"
    and a: "a = account_keys_of (acc_id x) k"
    by (auto simp: latest_keypair_def account_keys_of_def split: list.splits)
  have "k \<in> set (rev (sort_key kp_id (filter (\<lambda>k. kp_account k = Some (acc_id x)) (db_keypairs s))))" by (simp add: k)
  then show ?thesis using a by (auto simp: valid_account_def account_keys_of_def)
qed

lemma open_scan_ok:
  assumes "wallet_ok D s" and "events_ok s" and "valid_account s a"
  shows "wallet_ok D (open_scan pool a s)" and "scan_frame s (open_scan pool a s)"
    and "db_user_notes (open_scan pool a s) = db_user_notes s"
    and "set (db_commitment_scan s) \<subseteq> set (db_commitment_scan (open_scan pool a s))"
    and "\<exists>r\<in>set (db_commitment_scan (open_scan pool a s)). cs_pool r = pool \<and> cs_account r = ak_account a"
proof -
  show f: "scan_frame s (open_scan pool a s)" by (simp add: open_scan_def scan_frame_def)
  show n: "db_user_notes (open_scan pool a s) = db_user_notes s" by (simp add: open_scan_def)
  show "set (db_commitment_scan s) \<subseteq> set (db_commitment_scan (open_scan pool a s))"
    "\<exists>r\<in>set (db_commitment_scan (open_scan pool a s)). cs_pool r = pool \<and> cs_account r = ak_account a"
    by (auto simp: open_scan_def)
  have "mark_ok D s \<lparr> cs_pool = pool, cs_account = ak_account a, cs_last = 0 \<rparr>"
    using assms(3) sorted_ids(5) [OF assms(2)] by (fastforce simp: mark_ok_def valid_account_def)
  then have "\<forall>r\<in>set (db_commitment_scan (open_scan pool a s)). mark_ok D s r"
    using wallet_okD(2) [OF assms(1)] by (auto simp: open_scan_def)
  moreover have "mark_ok D (open_scan pool a s) r = mark_ok D s r" for r
    by (simp add: mark_ok_def scanned_def found_def scan_frameD [OF f] n)
  moreover have "distinct (map (\<lambda>r. (cs_pool r, cs_account r)) (db_commitment_scan (open_scan pool a s)))"
    using wallet_okD(6) [OF assms(1)] by (auto simp: open_scan_def)
  ultimately show "wallet_ok D (open_scan pool a s)"
    using assms(1) unfolding wallet_ok_def scan_frameD [OF f] n notes_unaffected(2) [OF f] by blast
qed

lemma map_ok_InrD: "map_ok f xs = Inr ys \<Longrightarrow> (\<And>x y. x \<in> set xs \<Longrightarrow> f x = Inr y \<Longrightarrow> y = g x) \<Longrightarrow> ys = map g xs"
  by (induction xs arbitrary: ys) (auto simp: let_ok_Inr_iff)

lemma commitments_after_rows:
  assumes "commitments_after pool l q s = Inr rows" and "events_ok s"
  shows "rows = map pool_row (take q (filter (\<lambda>c. event_contract s (cm_event c) = Some pool \<and> l < cm_id c) (db_commitments s)))"
  using assms(1) unfolding commitments_after_def sorted_ids(1) [OF assms(2)]
  by (rule map_ok_InrD) (auto simp: let_ok_Inr_iff col_u32_def pool_row_def split: if_splits)

lemma fold_max_le: "l \<le> fold max xs (l::nat)" "x \<in> set xs \<Longrightarrow> x \<le> fold max xs (l::nat)"
proof -
  show le: "l \<le> fold max xs l" for l
    by (induction xs arbitrary: l) (auto intro: order_trans [OF max.cobounded2])
  show "x \<in> set xs \<Longrightarrow> x \<le> fold max xs l"
  proof (induction xs arbitrary: l)
    case (Cons y ys)
    have "max y l \<le> fold max ys (max y l)" by (induction ys arbitrary: y l) (auto intro: order_trans [OF max.cobounded2])
    then show ?case using Cons by auto
  qed simp
qed

lemma fold_max_in: "fold max xs (l::nat) = l \<or> fold max xs l \<in> set xs"
  by (induction xs arbitrary: l) (auto simp: max_def)

lemma set_scan_mark_ok:
  assumes "wallet_ok D s" and "\<exists>r\<in>set (db_commitment_scan s). cs_pool r = pool \<and> cs_account r = a"
    and "mark_ok D s \<lparr> cs_pool = pool, cs_account = a, cs_last = l \<rparr>"
  shows "wallet_ok D (set_scan_mark pool a l s)" and "scan_frame s (set_scan_mark pool a l s)"
    and "db_user_notes (set_scan_mark pool a l s) = db_user_notes s"
proof -
  show f: "scan_frame s (set_scan_mark pool a l s)" by (simp add: set_scan_mark_def scan_frame_def)
  show n: "db_user_notes (set_scan_mark pool a l s) = db_user_notes s" by (simp add: set_scan_mark_def)
  have "mark_ok D (set_scan_mark pool a l s) r = mark_ok D s r" for r
    by (simp add: mark_ok_def scanned_def found_def scan_frameD [OF f] n)
  moreover have "list_all (mark_ok D s) (db_commitment_scan (set_scan_mark pool a l s))"
    using wallet_okD(2) [OF assms(1)] assms(3) by (auto simp: mark_ok_def list_all_iff set_scan_mark_def)
  ultimately have "\<forall>r\<in>set (db_commitment_scan (set_scan_mark pool a l s)). mark_ok D (set_scan_mark pool a l s) r"
    unfolding list_all_iff by blast
  moreover have "map (\<lambda>r. (cs_pool r, cs_account r)) (db_commitment_scan (set_scan_mark pool a l s)) =
      map (\<lambda>r. (cs_pool r, cs_account r)) (db_commitment_scan s)"
    by (simp add: set_scan_mark_def)
  then have "distinct (map (\<lambda>r. (cs_pool r, cs_account r)) (db_commitment_scan (set_scan_mark pool a l s)))"
    using wallet_okD(6) [OF assms(1)] by metis
  ultimately show "wallet_ok D (set_scan_mark pool a l s)"
    using assms(1) unfolding wallet_ok_def scan_frameD [OF f] n notes_unaffected(2) [OF f] by blast
qed

lemma scan_markD:
  assumes "scan_mark pool a s = Some l"
  obtains r where "r \<in> set (db_commitment_scan s)" "cs_pool r = pool" "cs_account r = a" "cs_last r = l"
  using assms that nth_mem by (auto simp: scan_mark_def find_Some_iff)

lemma scan_account_ok:
  assumes "scan_account D pool a (s, q, b) = Inr (s', q', b')" and "wallet_ok D s" and "events_ok s" and "valid_account s a"
  shows "wallet_ok D s' \<and> scan_frame s s'"
proof -
  from assms(1) consider "s' = s" | l rows t where "scan_mark pool (ak_account a) s = Some l"
      "commitments_after pool l (min q ACCOUNT_CHUNK) s = Inr rows" "rows \<noteq> []"
      "fold_ok (scan_row D pool a) rows s = Inr t"
      "s' = set_scan_mark pool (ak_account a) (fold max (map pc_commitment_id rows) l) t"
    by (auto simp: scan_account_def outcome_simps split: if_splits)
  then show ?thesis
  proof cases
    case 1
    then show ?thesis using assms(2) by (simp add: scan_frame_refl)
  next
    case (2 l rows t)
    define cs where "cs = take (min q ACCOUNT_CHUNK)
      (filter (\<lambda>c. event_contract s (cm_event c) = Some pool \<and> l < cm_id c) (db_commitments s))"
    have rows: "rows = map pool_row cs" unfolding cs_def by (rule commitments_after_rows [OF 2(2) assms(3)])
    have cs: "\<forall>c\<in>set cs. c \<in> set (db_commitments s) \<and> event_contract s (cm_event c) = Some pool"
      by (auto simp: cs_def dest: in_set_takeD)
    obtain k where k: "k \<in> set (db_keypairs s)" "kp_account k = Some (ak_account a)" "a = account_keys_of (ak_account a) k"
      using assms(4) by (auto simp: valid_account_def)
    have r: "wallet_ok D t" "scan_frame s t" "set (db_user_notes s) \<subseteq> set (db_user_notes t)"
      "db_commitment_scan t = db_commitment_scan s" "\<forall>c\<in>set cs. \<forall>d. D a (pool_row c) = Inr (Some d) \<longrightarrow> found t c d"
      using scan_rows_ok [OF 2(4) [unfolded rows] assms(2,3) cs k] by blast+
    note f = scan_frameD [OF r(2)]
    let ?m = "fold max (map pc_commitment_id rows) l"
    from 2(1) obtain x where x: "x \<in> set (db_commitment_scan s)" "cs_pool x = pool" "cs_account x = ak_account a" "cs_last x = l"
      by (rule scan_markD)
    have mx: "mark_ok D t x" using wallet_okD(2) [OF r(1)] x(1) r(4) by simp
    have m: "?m = l \<or> (\<exists>c\<in>set cs. ?m = cm_id c)"
      using fold_max_in [of "map pc_commitment_id rows" l] by (auto simp: rows pool_row_def)
    have "scanned D t pool (ak_account a) c" if c: "c \<in> set (db_commitments s)" "cm_id c \<le> ?m" for c
    proof (cases "cm_id c \<le> l \<or> event_contract s (cm_event c) \<noteq> Some pool")
      case True
      then show ?thesis using mx c(1) x by (auto simp: mark_ok_def scanned_def f)
    next
      case False
      then obtain y where y: "y \<in> set cs" "?m = cm_id y" using m c(2) by auto
      have "c \<in> set cs"
        unfolding cs_def
        by (rule in_take_sorted [OF sorted_ids(3) [OF assms(3)] _ y(1) [unfolded cs_def]]) (use False c y in auto)
      moreover have "account_keys_of (ak_account a) k' = a" if "k' \<in> set (db_keypairs s)" "kp_account k' = Some (ak_account a)" for k'
        using wallet_okD(7) [OF assms(2) that(1) k(1)] that(2) k by (simp add: account_keys_of_def)
      ultimately show ?thesis using r(5) by (auto simp: scanned_def f)
    qed
    moreover have "?m < next_rowid (map cm_id (db_commitments s))"
      using m mx x cs less_next_rowid [of _ "map cm_id (db_commitments s)"] by (auto simp: mark_ok_def f)
    ultimately have "mark_ok D t \<lparr> cs_pool = pool, cs_account = ak_account a, cs_last = ?m \<rparr>"
      using k by (auto simp: mark_ok_def f)
    moreover have "\<exists>y\<in>set (db_commitment_scan t). cs_pool y = pool \<and> cs_account y = ak_account a"
      using x r(4) by auto
    ultimately show ?thesis
      using set_scan_mark_ok(1,2) [OF r(1)] scan_frame_trans [OF r(2)] 2(5) by blast
  qed
qed

lemma valid_account_frame: "scan_frame s s' \<Longrightarrow> valid_account s' a = valid_account s a"
  by (simp add: valid_account_def scan_frameD)

lemma scan_cycle_ok:
  assumes "scan_cycle D pool accounts (s, q) = Inr (s', q', b')" and "wallet_ok D s" and "events_ok s"
    and "\<forall>a\<in>set accounts. valid_account s a"
  shows "wallet_ok D s' \<and> scan_frame s s'"
proof -
  let ?P = "\<lambda>(t, _, _). wallet_ok D t \<and> scan_frame s t"
  have step: "?P y" if "a \<in> set accounts" "?P x" "scan_account D pool a x = Inr y" for a x y
  proof -
    obtain t r b where x: "x = (t, r, b)" by (cases x)
    obtain t' r' b' where y: "y = (t', r', b')" by (cases y)
    have t: "wallet_ok D t" "scan_frame s t" using that(2) x by auto
    have "wallet_ok D t' \<and> scan_frame t t'"
      using scan_account_ok [OF that(3) [unfolded x y] t(1)] assms(3,4) that(1)
      by (simp add: scan_frameD [OF t(2)] valid_account_frame [OF t(2)])
    then show ?thesis using scan_frame_trans [OF t(2)] by (simp add: y)
  qed
  have "?P (s', q', b')"
    by (rule fold_ok_invariant [OF assms(1) [unfolded scan_cycle_def prod.case]])
      (use assms(2) scan_frame_refl step in auto)
  then show ?thesis by simp
qed

lemma scan_cycles_ok:
  assumes "scan_cycles D pool accounts s q b = Inr (b', s')" and "wallet_ok D s" and "events_ok s"
    and "\<forall>a\<in>set accounts. valid_account s a"
  shows "wallet_ok D s' \<and> scan_frame s s'"
  using assms
proof (induction D pool accounts s q b rule: scan_cycles.induct)
  case (1 D pool accounts s q b)
  show ?case
  proof (cases "q = 0")
    case True
    then show ?thesis using "1.prems" by (simp add: scan_cycles.simps scan_frame_refl)
  next
    case False
    then obtain t r p where c: "scan_cycle D pool accounts (s, q) = Inr (t, r, p)"
      using "1.prems"(1) by (auto simp: scan_cycles.simps [of D pool accounts s q] split: sum.splits)
    note t = scan_cycle_ok [OF c "1.prems"(2-4)]
    show ?thesis
    proof (cases p)
      case True
      then have "scan_cycles D pool accounts t r True = Inr (b', s')"
        using "1.prems"(1) c False by (simp add: scan_cycles.simps [of D pool accounts s q])
      then show ?thesis
        using "1.IH" [OF False c refl refl] True t "1.prems"(3,4) scan_frame_trans [of s t s']
        by (auto simp: scan_frameD valid_account_frame)
    next
      case False
      then show ?thesis using "1.prems"(1) c \<open>q \<noteq> 0\<close> t by (simp add: scan_cycles.simps [of D pool accounts s q])
    qed
  qed
qed

lemma open_scans_ok:
  assumes "wallet_ok D s" and "events_ok s" and "\<forall>a\<in>set accounts. valid_account s a"
  shows "wallet_ok D (fold (open_scan pool) accounts s) \<and> scan_frame s (fold (open_scan pool) accounts s) \<and>
    db_user_notes (fold (open_scan pool) accounts s) = db_user_notes s \<and>
    set (db_commitment_scan s) \<subseteq> set (db_commitment_scan (fold (open_scan pool) accounts s))"
  using assms
proof (induction accounts arbitrary: s)
  case (Cons a as)
  then have v: "valid_account s a" by simp
  note o = open_scan_ok [OF Cons.prems(1,2) v]
  have "events_ok (open_scan pool a s)" "\<forall>x\<in>set as. valid_account (open_scan pool a s) x"
    using Cons.prems(2,3) by (simp_all add: scan_frameD [OF o(2)] valid_account_frame [OF o(2)])
  from Cons.IH [OF o(1) this] show ?case
    using scan_frame_trans [OF o(2) [of pool]] o(3) [of pool] subset_trans [OF o(4) [of pool]] by simp
qed (simp add: scan_frame_refl)

lemma scan_pool_ok:
  assumes "scan_pool D accounts pool q s = Inr (b, s')" and "wallet_ok D s" and "events_ok s"
    and "\<forall>a\<in>set accounts. valid_account s a"
  shows "wallet_ok D s' \<and> scan_frame s s'"
proof -
  let ?t = "fold (open_scan pool) accounts s"
  have o: "wallet_ok D ?t" "scan_frame s ?t" using open_scans_ok [OF assms(2-4)] by auto
  have "wallet_ok D s' \<and> scan_frame ?t s'"
    using scan_cycles_ok [OF assms(1) [unfolded scan_pool_def] o(1)] assms(3,4)
    by (simp add: scan_frameD [OF o(2)] valid_account_frame [OF o(2)])
  then show ?thesis using scan_frame_trans [OF o(2)] by blast
qed

lemma scan_pools_ok:
  assumes "scan_pools D accounts pools b s = (r, s')" and "wallet_ok D s" and "events_ok s"
    and "\<forall>a\<in>set accounts. valid_account s a"
  shows "wallet_ok D s' \<and> scan_frame s s'"
  using assms
proof (induction D accounts pools b s rule: scan_pools.induct)
  case (2 D accounts pool q rest b s)
  show ?case
  proof (cases "q = 0")
    case True
    then show ?thesis using "2.IH"(1) "2.prems" by simp
  next
    case False
    with "2.prems"(1) have "and_then (transaction (scan_pool D accounts pool q) s)
       (\<lambda>progressed. scan_pools D accounts rest (b \<or> progressed)) = (r, s')" by simp
    then show ?thesis
    proof (cases rule: and_then_cases)
      case (1 e)
      then show ?thesis using "2.prems"(2) by (auto elim!: transaction_cases simp: scan_frame_refl)
    next
      case (2 x t)
      then have t: "wallet_ok D t \<and> scan_frame s t"
        using scan_pool_ok "2.prems"(2-4) by (auto elim!: transaction_cases)
      then show ?thesis
        using "2.IH"(2) [OF False, of x] 2(2) "2.prems"(3,4) scan_frame_trans [of s t s']
        by (auto simp: scan_frameD valid_account_frame)
    qed
  qed
qed (simp add: scan_frame_refl)

lemma scan_commitments_ok:
  assumes "scan_commitments_for_user_notes limit D s = (r, s')" and "wallet_ok D s" and "events_ok s"
  shows "wallet_ok D s'" and "scan_frame s s'"
  using assms scan_pools_ok [OF _ assms(2,3)] latest_keypair_valid scan_frame_refl
  by (auto simp: scan_commitments_for_user_notes_def Let_def split: if_splits)

section \<open>A scan without progress\<close>

definition caught_up :: "storage \<Rightarrow> nat \<Rightarrow> account_keys \<Rightarrow> bool" where
  "caught_up s pool a \<longleftrightarrow>
    (\<exists>r\<in>set (db_commitment_scan s). cs_pool r = pool \<and> cs_account r = ak_account a \<and>
      (\<forall>c\<in>set (db_commitments s). event_contract s (cm_event c) = Some pool \<longrightarrow> cm_id c \<le> cs_last r))"

lemma caught_up_mono:
  "caught_up s pool a \<Longrightarrow> scan_frame s s' \<Longrightarrow> set (db_commitment_scan s) \<subseteq> set (db_commitment_scan s') \<Longrightarrow> caught_up s' pool a"
  by (auto simp: caught_up_def scan_frameD)

lemma scan_account_idle:
  assumes "scan_account D pool a (s, q, b) = Inr (s', q', False)" and "0 < q" and "events_ok s"
  shows "\<not> b" and "s' = s" and "q' = q" and "caught_up s pool a"
proof -
  obtain l where l: "scan_mark pool (ak_account a) s = Some l"
    using assms(1,2) by (cases "scan_mark pool (ak_account a) s") (auto simp: scan_account_def)
  obtain rows where rows: "commitments_after pool l (min q ACCOUNT_CHUNK) s = Inr rows"
    using assms(1,2) l by (cases "commitments_after pool l (min q ACCOUNT_CHUNK) s") (auto simp: scan_account_def)
  have "rows = []" using assms(1,2) l rows by (cases "rows = []") (auto simp: scan_account_def let_ok_Inr_iff)
  note l = l rows [unfolded this]
  have eq: "\<not> b" "s' = s" "q' = q" using assms(1,2) l by (auto simp: scan_account_def)
  show "\<not> b" "s' = s" "q' = q" by (rule eq)+
  have "0 < min q ACCOUNT_CHUNK" using assms(2) by (simp add: ACCOUNT_CHUNK_def)
  with commitments_after_rows [OF l(2) assms(3)]
  have "filter (\<lambda>c. event_contract s (cm_event c) = Some pool \<and> l < cm_id c) (db_commitments s) = []"
    by (auto simp: take_eq_Nil)
  then have "\<forall>c\<in>set (db_commitments s). event_contract s (cm_event c) = Some pool \<longrightarrow> cm_id c \<le> l"
    unfolding filter_empty_conv by (meson not_le)
  then show "caught_up s pool a" using l(1) by (auto elim!: scan_markD simp: caught_up_def)
qed

lemma scan_accounts_idle:
  assumes "fold_ok (scan_account D pool) accounts (s, q, b) = Inr (s', q', False)" and "0 < q" and "events_ok s"
  shows "\<not> b \<and> s' = s \<and> (\<forall>a\<in>set accounts. caught_up s pool a)"
  using assms
proof (induction accounts arbitrary: s q b)
  case (Cons a as)
  then obtain t r c where t: "scan_account D pool a (s, q, b) = Inr (t, r, c)"
    "fold_ok (scan_account D pool) as (t, r, c) = Inr (s', q', False)" by (auto simp: let_ok_Inr_iff)
  have "\<not> c"
  proof
    assume c
    have "case (s', q', False) of (_, _, p) \<Rightarrow> p"
      by (rule fold_ok_invariant [OF t(2)]) (use \<open>c\<close> in \<open>auto simp: scan_account_def outcome_simps split: if_splits\<close>)
    then show False by simp
  qed
  then have idle: "\<not> b" "t = s" "r = q" "caught_up s pool a"
    using scan_account_idle [of D pool a s q b t r, OF _ Cons.prems(2,3)] t(1) by auto
  then show ?case using Cons.IH [OF t(2)] Cons.prems by simp
qed simp

lemma scan_cycles_True: "scan_cycles D pool accounts s q True = Inr (b, s') \<Longrightarrow> b"
proof (induction D pool accounts s q True rule: scan_cycles.induct)
  case (1 D pool accounts s q)
  then show ?case
    by (subst (asm) scan_cycles.simps) (auto split: if_splits sum.splits)
qed

lemma scan_pool_idle:
  assumes "scan_pool D accounts pool q s = Inr (False, s')" and "0 < q" and "wallet_ok D s" and "events_ok s"
    and "\<forall>a\<in>set accounts. valid_account s a"
  shows "s' = fold (open_scan pool) accounts s" and "\<forall>a\<in>set accounts. caught_up s' pool a"
proof -
  let ?t = "fold (open_scan pool) accounts s"
  have o: "scan_frame s ?t" using open_scans_ok [OF assms(3-5)] by auto
  from assms(1,2) obtain t r where "scan_cycle D pool accounts (?t, q) = Inr (t, r, False)" "s' = t"
    by (auto simp: scan_pool_def scan_cycles.simps [of D pool accounts ?t] dest: scan_cycles_True
        split: sum.splits if_splits)
  then have "s' = ?t \<and> (\<forall>a\<in>set accounts. caught_up ?t pool a)"
    using scan_accounts_idle [of D pool accounts ?t q False s' r] assms(2,4)
    by (simp add: scan_cycle_def scan_frameD [OF o])
  then show "s' = ?t" "\<forall>a\<in>set accounts. caught_up s' pool a" by simp_all
qed

lemma scan_pools_idle:
  assumes "scan_pools D accounts pools b s = (Inr False, s')" and "wallet_ok D s" and "events_ok s"
    and "\<forall>a\<in>set accounts. valid_account s a"
  shows "\<not> b \<and> set (db_commitment_scan s) \<subseteq> set (db_commitment_scan s') \<and> db_user_notes s' = db_user_notes s \<and>
    (\<forall>(p, q)\<in>set pools. 0 < q \<longrightarrow> (\<forall>a\<in>set accounts. caught_up s' p a))"
  using assms
proof (induction D accounts pools b s rule: scan_pools.induct)
  case (2 D accounts pool q rest b s)
  show ?case
  proof (cases "q = 0")
    case True
    then show ?thesis using "2.IH"(1) "2.prems" by simp
  next
    case False
    with "2.prems"(1) have "and_then (transaction (scan_pool D accounts pool q) s)
       (\<lambda>progressed. scan_pools D accounts rest (b \<or> progressed)) = (Inr False, s')" by simp
    then obtain x t where t: "scan_pool D accounts pool q s = Inr (x, t)"
      "scan_pools D accounts rest (b \<or> x) t = (Inr False, s')"
      by (auto elim!: and_then_cases transaction_cases)
    have ok: "wallet_ok D t" "scan_frame s t" using scan_pool_ok [OF t(1) "2.prems"(2-4)] by auto
    have IH: "\<not> (b \<or> x) \<and> set (db_commitment_scan t) \<subseteq> set (db_commitment_scan s') \<and> db_user_notes s' = db_user_notes t \<and>
      (\<forall>(p, q)\<in>set rest. 0 < q \<longrightarrow> (\<forall>a\<in>set accounts. caught_up s' p a))"
      using "2.IH"(2) [OF False t(2) ok(1)] "2.prems"(3,4) by (simp add: scan_frameD [OF ok(2)] valid_account_frame [OF ok(2)])
    have "scan_frame t s'"
      using scan_pools_ok [OF t(2) ok(1)] "2.prems"(3,4) by (simp add: scan_frameD [OF ok(2)] valid_account_frame [OF ok(2)])
    moreover have idle: "t = fold (open_scan pool) accounts s" "\<forall>a\<in>set accounts. caught_up t pool a"
      using scan_pool_idle [OF _ _ "2.prems"(2-4), of pool q t] t(1) IH False by auto
    ultimately have "\<forall>a\<in>set accounts. caught_up s' pool a" using IH caught_up_mono by blast
    moreover have "db_user_notes t = db_user_notes s \<and> set (db_commitment_scan s) \<subseteq> set (db_commitment_scan t)"
      using open_scans_ok [OF "2.prems"(2-4)] idle(1) by auto
    ultimately show ?thesis using IH subset_trans by auto
  qed
qed simp

lemma distribute_positive:
  "\<forall>q\<in>set qs. 0 < q \<Longrightarrow> (\<forall>q\<in>set (distribute r n qs). 0 < q) \<and> length (distribute r n qs) = length qs"
proof (induction r n qs rule: distribute.induct)
  case (2 r n qs)
  have "\<forall>q\<in>set (qs[n := min (qs ! n + 1) U32_MAX]). 0 < q"
    using "2.prems" set_update_subset_insert [of qs n] by fastforce
  from "2.IH" [OF this] show ?case by simp
qed simp

lemma pool_quotas_positive:
  assumes "0 < limit"
  shows "length (pool_quotas limit n) = n" and "\<forall>q\<in>set (pool_quotas limit n). 0 < q"
proof -
  let ?b = "if n = 0 then 0 else if n \<le> limit then limit div n else 1"
  have "\<forall>q\<in>set (replicate n ?b). 0 < q" using assms by (auto simp: div_greater_zero_iff)
  note d = distribute_positive [OF this]
  have "\<forall>q\<in>set (distribute r k (replicate n ?b)). 0 < q" and "length (distribute r k (replicate n ?b)) = n" for r k
    using d [of r k] by (blast, simp only: length_replicate)
  then show "length (pool_quotas limit n) = n" "\<forall>q\<in>set (pool_quotas limit n). 0 < q"
    by (simp_all only: pool_quotas_def Let_def)
qed

lemma set_pool_ids_of: "p \<in> set (pool_ids_of s events) \<longleftrightarrow> (\<exists>e\<in>set events. event_contract s e = Some p)"
  by (auto simp: pool_ids_of_def map_filter_def) force

lemma scan_idle:
  assumes "scan_commitments_for_user_notes limit D s = (Inr False, s')" and "0 < limit" and "wallet_ok D s" and "events_ok s"
    and "a \<in> set (get_accounts_with_latest_keypairs s)" and "c \<in> set (db_commitments s)"
    and "event_contract s (cm_event c) = Some pool"
  shows "caught_up s' pool a"
proof -
  let ?acc = "get_accounts_with_latest_keypairs s" and ?ids = "pool_ids_of s (map cm_event (db_commitments s))"
  have p: "pool \<in> set ?ids" using assms(6,7) by (auto simp: set_pool_ids_of)
  then have "?ids \<noteq> []" by auto
  moreover have "?acc \<noteq> []" using assms(5) by auto
  ultimately have "scan_pools D ?acc (zip ?ids (pool_quotas limit (length ?ids))) False s = (Inr False, s')"
    using assms(1,2) unfolding scan_commitments_for_user_notes_def Let_def by (simp split: if_splits)
  then have "\<forall>(p, q)\<in>set (zip ?ids (pool_quotas limit (length ?ids))). 0 < q \<longrightarrow> (\<forall>a\<in>set ?acc. caught_up s' p a)"
    using scan_pools_idle [OF _ assms(3,4), of ?acc "zip ?ids (pool_quotas limit (length ?ids))" False s']
      latest_keypair_valid by simp
  moreover obtain q where q: "(pool, q) \<in> set (zip ?ids (pool_quotas limit (length ?ids)))"
    using p pool_quotas_positive(1) [OF assms(2), of "length ?ids"] by (metis in_set_impl_in_set_zip1)
  moreover have "0 < q" using pool_quotas_positive(2) [OF assms(2)] set_zip_rightD [OF q] by blast
  ultimately have "\<forall>a\<in>set ?acc. caught_up s' pool a" by (metis (mono_tags, lifting) case_prodD)
  then show ?thesis using assms(5) by blast
qed

section \<open>Reconciliation keeps the invariant\<close>

definition rec_frame :: "storage \<Rightarrow> storage \<Rightarrow> bool" where
  "rec_frame s s' \<longleftrightarrow> s' = s\<lparr> db_user_notes := db_user_notes s', db_nullifier_scan := db_nullifier_scan s' \<rparr>"

lemma rec_frame_refl: "rec_frame s s"
  by (simp add: rec_frame_def)

lemma rec_frame_trans: "rec_frame s t \<Longrightarrow> rec_frame t u \<Longrightarrow> rec_frame s u"
  by (cases s; cases t; cases u) (simp add: rec_frame_def)

lemma rec_frameD:
  assumes "rec_frame s s'"
  shows "db_commitments s' = db_commitments s" "db_nullifiers s' = db_nullifiers s" "db_raw s' = db_raw s"
    "db_keypairs s' = db_keypairs s" "db_commitment_scan s' = db_commitment_scan s" "db_accounts s' = db_accounts s"
    "event_contract s' = event_contract s" "base_ok s' = base_ok s" "events_ok s' = events_ok s"
  using assms
  by (cases s; cases s'; simp add: rec_frame_def event_contract_def event_row_def fun_eq_iff base_ok_def
      directory_ok_def events_ok_def table_ok_defs)+

text \<open>What a note keeps for ever: everything but its nullifier.\<close>

definition note_key :: "user_note_row \<Rightarrow> user_note_row" where
  "note_key n = n\<lparr> un_nullifier := None \<rparr>"

lemma note_key_eqD:
  assumes "note_key n = note_key n'"
  shows "un_id n = un_id n'" "un_account n = un_account n'" "un_commitment n = un_commitment n'"
    "un_expected n = un_expected n'" "derived_of n = derived_of n'"
  using assms by (cases n; cases n'; simp add: note_key_def derived_of_def)+

lemma found_note_key:
  assumes "map note_key (db_user_notes s') = map note_key (db_user_notes s)"
  shows "found s' c d = found s c d"
proof -
  have "found t c d \<longleftrightarrow> (\<exists>n\<in>set (map note_key (db_user_notes t)). un_commitment n = cm_id c \<or> un_expected n = dn_expected_nullifier d)" for t
    by (simp add: found_def note_key_def)
  then show ?thesis by (simp only: assms)
qed

lemma marks_unaffected:
  assumes "rec_frame s s'" and "map note_key (db_user_notes s') = map note_key (db_user_notes s)"
  shows "mark_ok D s' r = mark_ok D s r"
  by (simp add: mark_ok_def scanned_def rec_frameD [OF assms(1)] found_note_key [OF assms(2)])

lemma distinct_note_key:
  "map note_key xs = map note_key ys \<Longrightarrow> map un_commitment xs = map un_commitment ys"
proof -
  assume eq: "map note_key xs = map note_key ys"
  have "map un_commitment zs = map un_commitment (map note_key zs)" for zs by (simp add: note_key_def)
  then show ?thesis using eq by metis
qed

lemma note_in_pool_iff:
  assumes "events_ok s" and "c \<in> set (db_commitments s)" and "cm_id c = un_commitment n"
  shows "note_in_pool s pool n \<longleftrightarrow> event_contract s (cm_event c) = Some pool"
  using assms commitment_unique [OF assms(1)] by (metis note_in_pool_def)

lemma mark_note_spent_ok:
  assumes "mark_note_spent pool (i, x) s = Inr s'" and "wallet_ok D s" and "events_ok s"
    and m: "m \<in> set (db_nullifiers s)" "nl_id m = i" "nl_nullifier m = x" "event_contract s (nl_event m) = Some pool"
  shows "wallet_ok D s'" and "rec_frame s s'" and "db_nullifier_scan s' = db_nullifier_scan s"
    and "map note_key (db_user_notes s') = map note_key (db_user_notes s)"
    and "\<forall>n\<in>set (db_user_notes s'). un_nullifier n = None \<longrightarrow> n \<in> set (db_user_notes s) \<and>
      \<not> (un_expected n = x \<and> note_in_pool s pool n)"
proof -
  let ?u = "\<lambda>n. if spent_by s pool x n then n\<lparr> un_nullifier := Some i \<rparr> else n"
  have s': "s' = s\<lparr> db_user_notes := map ?u (db_user_notes s) \<rparr>"
    using assms(1) by (auto simp: mark_note_spent_def Let_def split: if_splits)
  show f: "rec_frame s s'" by (simp add: s' rec_frame_def)
  show scan: "db_nullifier_scan s' = db_nullifier_scan s" by (simp add: s')
  show keys: "map note_key (db_user_notes s') = map note_key (db_user_notes s)"
    by (auto simp: s' note_key_def)
  show "\<forall>n\<in>set (db_user_notes s'). un_nullifier n = None \<longrightarrow> n \<in> set (db_user_notes s) \<and>
      \<not> (un_expected n = x \<and> note_in_pool s pool n)"
    by (auto simp: s' spent_by_def)
  have sp: "spent_ok s' c n = spent_ok s c n" for c n
    by (cases "un_nullifier n") (simp_all add: spent_ok_def same_pool_def rec_frameD [OF f] scan)
  have "note_ok D s' (?u n)" if n: "n \<in> set (db_user_notes s)" for n
    using wallet_okD(1) [OF assms(2) n]
  proof (rule note_okE)
    fix c k
    assume c: "c \<in> set (db_commitments s)" "cm_id c = un_commitment n" "cm_commitment c = un_id n"
      "k \<in> set (db_keypairs s)" "kp_account k = Some (un_account n)"
      "D (account_keys_of (un_account n) k) (pool_row c) = Inr (Some (derived_of n))" "spent_ok s c n"
    have "spent_ok s c (?u n)"
    proof (cases "spent_by s pool x n")
      case True
      then have "event_contract s (cm_event c) = Some pool"
        using note_in_pool_iff [OF assms(3) c(1,2)] by (simp add: spent_by_def)
      then show ?thesis using True m by (auto simp: spent_ok_def same_pool_def spent_by_def)
    qed (use c(7) in simp)
    moreover have "derived_of (?u n) = derived_of n" by (simp add: derived_of_def)
    ultimately show "note_ok D s' (?u n)"
      using c by (intro note_okI [of c _ _ k]) (simp_all add: rec_frameD [OF f] sp)
  qed
  then have "\<forall>n\<in>set (db_user_notes s'). note_ok D s' n" by (auto simp: s' simp del: if_image_distrib)
  moreover have "\<forall>r\<in>set (db_commitment_scan s). mark_ok D s' r"
    using wallet_okD(2) [OF assms(2)] by (simp add: marks_unaffected [OF f keys])
  moreover have "distinct (map un_commitment (db_user_notes s'))"
    using wallet_okD(4) [OF assms(2)] distinct_note_key [OF keys] by simp
  ultimately show "wallet_ok D s'"
    using assms(2) unfolding wallet_ok_def rec_frameD [OF f] scan by blast
qed

lemma mark_rows_spent:
  assumes "fold_ok (mark_note_spent pool) xs s = Inr s'" and "wallet_ok D s" and "events_ok s"
    and "\<forall>(i, x)\<in>set xs. \<exists>m\<in>set (db_nullifiers s). nl_id m = i \<and> nl_nullifier m = x \<and> event_contract s (nl_event m) = Some pool"
  shows "wallet_ok D s' \<and> rec_frame s s' \<and> db_nullifier_scan s' = db_nullifier_scan s \<and>
    (\<forall>n\<in>set (db_user_notes s'). un_nullifier n = None \<longrightarrow>
      n \<in> set (db_user_notes s) \<and> \<not> (un_expected n \<in> snd ` set xs \<and> note_in_pool s pool n))"
  using assms
proof (induction xs arbitrary: s)
  case Nil
  then show ?case by (simp add: rec_frame_refl)
next
  case (Cons e xs)
  obtain i x where e: "e = (i, x)" by (cases e)
  from Cons.prems(1) obtain t where t: "mark_note_spent pool (i, x) s = Inr t" "fold_ok (mark_note_spent pool) xs t = Inr s'"
    by (auto simp: e let_ok_Inr_iff)
  from Cons.prems(4) obtain m where m: "m \<in> set (db_nullifiers s)" "nl_id m = i" "nl_nullifier m = x"
    "event_contract s (nl_event m) = Some pool" by (auto simp: e)
  note u = mark_note_spent_ok [OF t(1) Cons.prems(2,3) m]
  note f = rec_frameD [OF u(2)]
  have IH: "wallet_ok D s' \<and> rec_frame t s' \<and> db_nullifier_scan s' = db_nullifier_scan t \<and>
    (\<forall>n\<in>set (db_user_notes s'). un_nullifier n = None \<longrightarrow>
      n \<in> set (db_user_notes t) \<and> \<not> (un_expected n \<in> snd ` set xs \<and> note_in_pool t pool n))"
    using Cons.IH [OF t(2) u(1)] Cons.prems(3,4) by (simp add: f e)
  moreover have "note_in_pool t pool n = note_in_pool s pool n" for n by (simp add: note_in_pool_def f)
  ultimately show ?case using u(3,5) rec_frame_trans [OF u(2)] by (auto simp: e)
qed

lemma open_nullifier_scan_ok:
  assumes "wallet_ok D s" and "events_ok s"
  shows "wallet_ok D (open_nullifier_scan pool s)" and "rec_frame s (open_nullifier_scan pool s)"
    and "db_user_notes (open_nullifier_scan pool s) = db_user_notes s"
    and "set (db_nullifier_scan s) \<subseteq> set (db_nullifier_scan (open_nullifier_scan pool s))"
proof -
  let ?t = "open_nullifier_scan pool s"
  show f: "rec_frame s ?t" by (simp add: open_nullifier_scan_def rec_frame_def)
  show n: "db_user_notes ?t = db_user_notes s" and "set (db_nullifier_scan s) \<subseteq> set (db_nullifier_scan ?t)"
    by (auto simp: open_nullifier_scan_def)
  have scan: "r \<in> set (db_nullifier_scan s) \<or> ns_last r = 0" if "r \<in> set (db_nullifier_scan ?t)" for r
    using that by (auto simp: open_nullifier_scan_def split: if_splits)
  have sp: "spent_ok ?t c n" if "spent_ok s c n" for c n
  proof (cases "un_nullifier n")
    case None
    then show ?thesis
      using that scan sorted_ids(6) [OF assms(2)] by (fastforce simp: spent_ok_def same_pool_def rec_frameD [OF f])
  next
    case (Some i)
    then show ?thesis using that by (simp add: spent_ok_def same_pool_def rec_frameD [OF f])
  qed
  have "\<forall>n\<in>set (db_user_notes s). note_ok D ?t n"
    using wallet_okD(1) [OF assms(1)] sp unfolding note_ok_def rec_frameD [OF f] by blast
  moreover have "\<forall>r\<in>set (db_commitment_scan s). mark_ok D ?t r"
    using wallet_okD(2) [OF assms(1)] by (simp add: marks_unaffected [OF f] n)
  moreover have "\<forall>r\<in>set (db_nullifier_scan ?t). ns_last r < next_rowid (map nl_id (db_nullifiers s))"
    using wallet_okD(3) [OF assms(1)] scan next_rowid_positive by metis
  moreover have "distinct (map ns_pool (db_nullifier_scan ?t))"
    using wallet_okD(5) [OF assms(1)] by (auto simp: open_nullifier_scan_def)
  ultimately show "wallet_ok D ?t"
    using assms(1) unfolding wallet_ok_def rec_frameD [OF f] n by blast
qed

lemma nullifiers_after_rows:
  assumes "events_ok s"
  shows "nullifiers_after pool l limit s = map (\<lambda>n. (nl_id n, nl_nullifier n))
    (take limit (filter (\<lambda>n. event_contract s (nl_event n) = Some pool \<and> l < nl_id n) (db_nullifiers s)))"
  by (simp add: nullifiers_after_def sorted_ids(2) [OF assms])

lemma set_nullifier_mark_ok:
  assumes "wallet_ok D s" and "events_ok s" and "l < next_rowid (map nl_id (db_nullifiers s))"
    and "\<And>n m. n \<in> set (db_user_notes s) \<Longrightarrow> un_nullifier n = None \<Longrightarrow> note_in_pool s pool n \<Longrightarrow>
      m \<in> set (db_nullifiers s) \<Longrightarrow> nl_nullifier m = un_expected n \<Longrightarrow> event_contract s (nl_event m) = Some pool \<Longrightarrow> l < nl_id m"
  shows "wallet_ok D (set_nullifier_mark pool l s)" and "rec_frame s (set_nullifier_mark pool l s)"
proof -
  let ?t = "set_nullifier_mark pool l s"
  show f: "rec_frame s ?t" by (simp add: set_nullifier_mark_def rec_frame_def)
  have n: "db_user_notes ?t = db_user_notes s" by (simp add: set_nullifier_mark_def)
  have scan: "r \<in> set (db_nullifier_scan s) \<or> ns_last r = l \<and> ns_pool r = pool" if "r \<in> set (db_nullifier_scan ?t)" for r
    using that by (auto simp: set_nullifier_mark_def)
  have "note_ok D ?t n" if nn: "n \<in> set (db_user_notes s)" for n
    using wallet_okD(1) [OF assms(1) nn]
  proof (rule note_okE)
    fix c k
    assume c: "c \<in> set (db_commitments s)" "cm_id c = un_commitment n" "cm_commitment c = un_id n"
      "k \<in> set (db_keypairs s)" "kp_account k = Some (un_account n)"
      "D (account_keys_of (un_account n) k) (pool_row c) = Inr (Some (derived_of n))" "spent_ok s c n"
    have "spent_ok ?t c n"
    proof (cases "un_nullifier n")
      case None
      have "ns_last r < nl_id m" if m: "m \<in> set (db_nullifiers s)" "nl_nullifier m = un_expected n" "same_pool s c m"
          and r: "r \<in> set (db_nullifier_scan ?t)" "event_contract s (cm_event c) = Some (ns_pool r)" for m r
      proof (cases "r \<in> set (db_nullifier_scan s)")
        case True
        then show ?thesis using c(7) None m r(2) by (simp add: spent_ok_def)
      next
        case False
        then have "ns_last r = l" "ns_pool r = pool" using scan [OF r(1)] by auto
        then show ?thesis
          using assms(4) [OF nn None _ m(1,2)] note_in_pool_iff [OF assms(2) c(1,2)] m(3) r(2) by (simp add: same_pool_def)
      qed
      then show ?thesis using None by (simp add: spent_ok_def same_pool_def rec_frameD [OF f])
    next
      case (Some i)
      then show ?thesis using c(7) by (simp add: spent_ok_def same_pool_def rec_frameD [OF f])
    qed
    then show "note_ok D ?t n" using c by (intro note_okI [of c _ _ k]) (simp_all add: rec_frameD [OF f])
  qed
  moreover have "\<forall>r\<in>set (db_commitment_scan s). mark_ok D ?t r"
    using wallet_okD(2) [OF assms(1)] by (simp add: marks_unaffected [OF f] n)
  moreover have "\<forall>r\<in>set (db_nullifier_scan ?t). ns_last r < next_rowid (map nl_id (db_nullifiers s))"
    using wallet_okD(3) [OF assms(1)] scan assms(3) by metis
  moreover have "map ns_pool (db_nullifier_scan ?t) = map ns_pool (db_nullifier_scan s)"
    by (simp add: set_nullifier_mark_def)
  then have "distinct (map ns_pool (db_nullifier_scan ?t))"
    using wallet_okD(5) [OF assms(1)] by metis
  ultimately show "wallet_ok D ?t"
    using assms(1) unfolding wallet_ok_def rec_frameD [OF f] n by blast
qed

lemma nullifier_markD:
  assumes "nullifier_mark pool s = Some l" and "wallet_ok D s"
  obtains r where "r \<in> set (db_nullifier_scan s)" "ns_pool r = pool" "ns_last r = l"
  using assms by (auto simp: nullifier_mark_def row_by_Some_iff wallet_okD(5))

lemma reconcile_pool_ok:
  assumes "reconcile_pool limit pool s = Inr (b, s')" and "wallet_ok D s" and "events_ok s"
  shows "wallet_ok D s'" and "rec_frame s s'"
proof -
  define t where "t = open_nullifier_scan pool s"
  have o: "wallet_ok D t" "rec_frame s t" unfolding t_def using open_nullifier_scan_ok [OF assms(2,3)] by auto
  have ev: "events_ok t" using assms(3) by (simp add: rec_frameD [OF o(2)])
  from assms(1) obtain l u where l: "nullifier_mark pool t = Some l"
    and u: "fold_ok (mark_note_spent pool) (nullifiers_after pool l limit t) t = Inr u"
    and s': "s' = (let m = fold max (map fst (nullifiers_after pool l limit t)) l in
      if l < m then set_nullifier_mark pool m u else u)"
    by (auto simp: reconcile_pool_def t_def Let_def let_ok_Inr_iff ok_or_Inr_iff)
  define ms where "ms = take limit (filter (\<lambda>n. event_contract t (nl_event n) = Some pool \<and> l < nl_id n) (db_nullifiers t))"
  have rows: "nullifiers_after pool l limit t = map (\<lambda>n. (nl_id n, nl_nullifier n)) ms"
    unfolding ms_def by (rule nullifiers_after_rows [OF ev])
  have ms: "m \<in> set (db_nullifiers t) \<and> event_contract t (nl_event m) = Some pool" if "m \<in> set ms" for m
    using that by (auto simp: ms_def dest: in_set_takeD)
  have u': "wallet_ok D u" "rec_frame t u" "db_nullifier_scan u = db_nullifier_scan t"
    "\<forall>n\<in>set (db_user_notes u). un_nullifier n = None \<longrightarrow>
      n \<in> set (db_user_notes t) \<and> \<not> (un_expected n \<in> nl_nullifier ` set ms \<and> note_in_pool t pool n)"
    using mark_rows_spent [OF u o(1) ev] ms by (auto simp: rows image_image)
  note f = rec_frameD [OF u'(2)]
  let ?m = "fold max (map fst (nullifiers_after pool l limit t)) l"
  have m_in: "?m = l \<or> (\<exists>y\<in>set ms. ?m = nl_id y)"
    using fold_max_in [of "map fst (nullifiers_after pool l limit t)" l] by (auto simp: rows)
  have r: "rec_frame s u" using rec_frame_trans [OF o(2) u'(2)] .
  have "wallet_ok D s' \<and> rec_frame s s'"
  proof (cases "l < ?m")
    case True
    then obtain y where y: "y \<in> set ms" "?m = nl_id y" using m_in by auto
    have "?m < next_rowid (map nl_id (db_nullifiers u))"
      using less_next_rowid [of ?m "map nl_id (db_nullifiers u)"] ms [OF y(1)] y(2) by (auto simp: f)
    moreover have "?m < nl_id m"
      if n: "n \<in> set (db_user_notes u)" "un_nullifier n = None" "note_in_pool u pool n"
        and m: "m \<in> set (db_nullifiers u)" "nl_nullifier m = un_expected n" "event_contract u (nl_event m) = Some pool" for n m
    proof (rule ccontr)
      assume "\<not> ?m < nl_id m"
      moreover have "l < nl_id m"
        using wallet_okD(1) [OF u'(1) n(1)]
      proof (rule note_okE)
        fix c assume c: "c \<in> set (db_commitments u)" "cm_id c = un_commitment n" "spent_ok u c n"
        obtain r where "r \<in> set (db_nullifier_scan u)" "ns_pool r = pool" "ns_last r = l"
          using nullifier_markD [OF l o(1)] u'(3) by metis
        moreover have "event_contract u (cm_event c) = Some pool"
          using note_in_pool_iff [OF _ c(1,2)] n(3) ev by (simp add: f)
        ultimately show ?thesis using c(3) n(2) m by (auto simp: spent_ok_def same_pool_def)
      qed
      ultimately have "m \<in> set ms"
        unfolding ms_def
        by (intro in_take_sorted [OF sorted_ids(4) [OF ev] _ y(1) [unfolded ms_def]]) (use m y(2) in \<open>auto simp: f\<close>)
      moreover have "note_in_pool t pool n" using n(3) by (simp add: note_in_pool_def f)
      ultimately show False using u'(4) n(1,2) m(2) by (metis imageI)
    qed
    ultimately have "wallet_ok D (set_nullifier_mark pool ?m u)" "rec_frame u (set_nullifier_mark pool ?m u)"
      using set_nullifier_mark_ok [OF u'(1)] ev by (auto simp: f)
    then show ?thesis using True s' rec_frame_trans [OF r] by (simp add: Let_def)
  next
    case False
    then show ?thesis using s' u'(1) r by (simp add: Let_def)
  qed
  then show "wallet_ok D s'" "rec_frame s s'" by auto
qed

lemma reconcile_pools_ok:
  assumes "reconcile_pools limit pools b s = (r, s')" and "wallet_ok D s" and "events_ok s"
  shows "wallet_ok D s' \<and> rec_frame s s'"
  using assms
proof (induction limit pools b s rule: reconcile_pools.induct)
  case (2 limit pool rest b s)
  then have "and_then (transaction (reconcile_pool limit pool) s) (\<lambda>did. reconcile_pools limit rest (b \<or> did)) = (r, s')"
    by simp
  then show ?case
  proof (cases rule: and_then_cases)
    case (1 e)
    then show ?thesis using "2.prems"(2) by (auto elim!: transaction_cases simp: rec_frame_refl)
  next
    case (2 x t)
    then have t: "wallet_ok D t" "rec_frame s t"
      using reconcile_pool_ok "2.prems"(2,3) by (auto elim!: transaction_cases)
    then show ?thesis
      using "2.IH" [OF 2(2) t(1)] "2.prems"(3) rec_frame_trans [OF t(2)] by (simp add: rec_frameD [OF t(2)])
  qed
qed (simp add: rec_frame_refl)

lemma reconcile_nullifiers_ok:
  assumes "reconcile_nullifiers limit s = (r, s')" and "wallet_ok D s" and "events_ok s"
  shows "wallet_ok D s'" and "rec_frame s s'"
  using assms reconcile_pools_ok [OF _ assms(2,3)] rec_frame_refl
  by (auto simp: reconcile_nullifiers_def Let_def split: if_splits)

section \<open>A reconciliation without progress\<close>

definition reconciled :: "storage \<Rightarrow> nat \<Rightarrow> bool" where
  "reconciled s pool \<longleftrightarrow>
    (\<exists>r\<in>set (db_nullifier_scan s). ns_pool r = pool \<and>
      (\<forall>m\<in>set (db_nullifiers s). event_contract s (nl_event m) = Some pool \<longrightarrow> nl_id m \<le> ns_last r))"

lemma reconcile_pool_idle:
  assumes "reconcile_pool limit pool s = Inr (False, s')" and "0 < limit" and "wallet_ok D s" and "events_ok s"
  shows "s' = open_nullifier_scan pool s" and "reconciled s' pool"
proof -
  define t where "t = open_nullifier_scan pool s"
  have o: "wallet_ok D t" "rec_frame s t" unfolding t_def using open_nullifier_scan_ok [OF assms(3,4)] by auto
  have ev: "events_ok t" using assms(4) by (simp add: rec_frameD [OF o(2)])
  from assms(1) obtain l where l: "nullifier_mark pool t = Some l" "nullifiers_after pool l limit t = []" and s': "s' = t"
    by (auto simp: reconcile_pool_def t_def [symmetric] Let_def let_ok_Inr_iff ok_or_Inr_iff)
  show "s' = open_nullifier_scan pool s" using s' t_def by simp
  have "filter (\<lambda>n. event_contract t (nl_event n) = Some pool \<and> l < nl_id n) (db_nullifiers t) = []"
    using l(2) assms(2) by (simp add: nullifiers_after_rows [OF ev])
  then have "\<forall>m\<in>set (db_nullifiers t). event_contract t (nl_event m) = Some pool \<longrightarrow> nl_id m \<le> l"
    unfolding filter_empty_conv by (meson not_le)
  then show "reconciled s' pool" using nullifier_markD [OF l(1) o(1)] s' unfolding reconciled_def by metis
qed

lemma reconcile_pools_idle:
  assumes "reconcile_pools limit pools b s = (Inr False, s')" and "0 < limit" and "wallet_ok D s" and "events_ok s"
  shows "\<not> b \<and> set (db_nullifier_scan s) \<subseteq> set (db_nullifier_scan s') \<and> db_user_notes s' = db_user_notes s \<and>
    (\<forall>p\<in>set pools. reconciled s' p)"
  using assms
proof (induction limit pools b s rule: reconcile_pools.induct)
  case (2 limit pool rest b s)
  from "2.prems"(1) obtain x t where t: "reconcile_pool limit pool s = Inr (x, t)"
    "reconcile_pools limit rest (b \<or> x) t = (Inr False, s')"
    by (auto elim!: and_then_cases transaction_cases)
  have ok: "wallet_ok D t" "rec_frame s t" using reconcile_pool_ok [OF t(1) "2.prems"(3,4)] by auto
  have ev: "events_ok t" using "2.prems"(4) by (simp add: rec_frameD [OF ok(2)])
  note IH = "2.IH" [OF t(2) "2.prems"(2) ok(1) ev]
  have idle: "t = open_nullifier_scan pool s" "reconciled t pool"
    using reconcile_pool_idle [OF _ "2.prems"(2-4), of pool t] t(1) IH by auto
  have "rec_frame t s'" using reconcile_pools_ok [OF t(2) ok(1) ev] by blast
  then have "reconciled s' pool" using idle(2) IH by (auto simp: reconciled_def rec_frameD)
  moreover have "db_user_notes t = db_user_notes s \<and> set (db_nullifier_scan s) \<subseteq> set (db_nullifier_scan t)"
    using open_nullifier_scan_ok [OF "2.prems"(3,4)] idle(1) by auto
  ultimately show ?case using IH subset_trans by auto
qed simp

lemma reconcile_idle:
  assumes "reconcile_nullifiers limit s = (Inr False, s')" and "0 < limit" and "wallet_ok D s" and "events_ok s"
    and "m \<in> set (db_nullifiers s)" and "event_contract s (nl_event m) = Some pool"
  shows "reconciled s' pool" and "db_user_notes s' = db_user_notes s"
proof -
  let ?ids = "pool_ids_of s (map nl_event (db_nullifiers s))"
  have p: "pool \<in> set ?ids" using assms(5,6) by (auto simp: set_pool_ids_of)
  then have "?ids \<noteq> []" by auto
  then have "reconcile_pools limit ?ids False s = (Inr False, s')"
    using assms(1,2) unfolding reconcile_nullifiers_def Let_def by simp
  then show "reconciled s' pool" "db_user_notes s' = db_user_notes s"
    using reconcile_pools_idle [OF _ assms(2-4)] p by blast+
qed

section \<open>Reachable databases\<close>

definition storage_ok :: "derive_note_fn \<Rightarrow> storage \<Rightarrow> bool" where
  "storage_ok D s \<longleftrightarrow> base_ok s \<and> wallet_ok D s"

lemma storage_ok_extends: "storage_ok D s \<Longrightarrow> extends s s' \<Longrightarrow> base_ok s' \<Longrightarrow> storage_ok D s'"
  using wallet_ok_extends by (auto simp: storage_ok_def base_ok_def)

lemma process_notes_ok:
  assumes "process_notes limit D s = (r, s')" and "storage_ok D s"
  shows "storage_ok D s'"
proof -
  have s: "wallet_ok D s" "events_ok s" "base_ok s" using assms(2) by (auto simp: storage_ok_def base_ok_def)
  from assms(1) show ?thesis
    unfolding process_notes_def
  proof (cases rule: and_then_cases)
    case (1 e)
    then show ?thesis using scan_commitments_ok [OF 1(1) s(1,2)] s(3) by (auto simp: storage_ok_def scan_frameD)
  next
    case (2 x t)
    note t = scan_commitments_ok [OF 2(1) s(1,2)]
    have et: "events_ok t" "base_ok t" using s(2,3) by (auto simp: scan_frameD [OF t(2)])
    from 2(2) show ?thesis
    proof (cases rule: and_then_cases)
      case (1 e)
      then show ?thesis using reconcile_nullifiers_ok [OF 1(1) t(1) et(1)] et(2) by (auto simp: storage_ok_def rec_frameD)
    next
      case (2 y u)
      then show ?thesis
        using reconcile_nullifiers_ok [OF 2(1) t(1) et(1)] et(2) by (auto simp: storage_ok_def rec_frameD)
    qed
  qed
qed

text \<open>
  Keys are derived from a signature of the wallet, so that keys stored again for an account are the same;
  the scan marks of an account rely on it.
\<close>

definition keys_stable :: "string \<Rightarrow> stored_user_keys \<Rightarrow> storage \<Rightarrow> bool" where
  "keys_stable address keys s \<longleftrightarrow>
    (\<forall>a\<in>set (db_accounts s). acc_address a = address \<longrightarrow>
      (\<forall>k\<in>set (db_keypairs s). kp_account k = Some (acc_id a) \<longrightarrow> kp_keys k = keys))"

lemma save_keypairs_ok:
  assumes "save_encryption_and_note_keypairs address nk ek mb s = (r, s')" and "storage_ok D s"
    and "keys_stable address \<lparr> sk_note_keypair = nk, sk_encryption_keypair = ek, sk_membership_blinding = mb \<rparr> s"
  shows "storage_ok D s'"
proof -
  define keys where "keys = \<lparr> sk_note_keypair = nk, sk_encryption_keypair = ek, sk_membership_blinding = mb \<rparr>"
  obtain i t where t: "get_or_create_account address s = (i, t)" by fastforce
  have d: "directory_ok s" using assms(2) by (simp add: storage_ok_def base_ok_def)
  note g = get_or_create_account_spec [OF t d]
  obtain new where new: "t = s\<lparr> db_accounts := db_accounts s @ new \<rparr>" using g(2) by blast
  define k where "k = \<lparr> kp_id = next_rowid (map kp_id (db_keypairs t)), kp_keys = keys, kp_account = Some i \<rparr>"
  have s': "s' = t\<lparr> db_keypairs := db_keypairs t @ [k] \<rparr>"
    using assms(1) by (simp add: save_encryption_and_note_keypairs_def t transaction_def k_def keys_def)
  have k: "kp_account k = Some i" "kp_keys k = keys" "kp_id k = next_rowid (map kp_id (db_keypairs s))"
    by (simp_all add: k_def new)
  have fr: "db_commitments s' = db_commitments s" "db_nullifiers s' = db_nullifiers s" "event_contract s' = event_contract s"
    "db_user_notes s' = db_user_notes s" "db_commitment_scan s' = db_commitment_scan s"
    "db_nullifier_scan s' = db_nullifier_scan s" "db_keypairs s' = db_keypairs s @ [k]"
    by (simp_all add: s' new fun_eq_iff event_contract_def event_row_def)
  have w: "wallet_ok D s" using assms(2) by (simp add: storage_ok_def)
  have same: "kp_keys x = keys" if x: "x \<in> set (db_keypairs s)" "kp_account x = Some i" for x
  proof -
    from x d obtain a where a: "a \<in> set (db_accounts s)" "acc_id a = i" by (auto simp: directory_ok_def)
    obtain a' where a': "a' \<in> set (db_accounts t)" "acc_id a' = i" "acc_address a' = address" using g(3) by blast
    have "inj_on acc_id (set (db_accounts t))" using g(1) by (simp add: directory_ok_def distinct_map)
    moreover have "a \<in> set (db_accounts t)" using a(1) by (simp add: new)
    ultimately have "a' = a" using a a' by (auto dest: inj_onD)
    then show ?thesis using assms(3) a x a' unfolding keys_stable_def keys_def [symmetric] by blast
  qed
  have "directory_ok s'" using g(1,3) by (auto simp: directory_ok_def s' k)
  moreover have "events_ok s'" using assms(2) by (auto simp: storage_ok_def base_ok_def events_ok_def table_ok_defs s' new)
  moreover have "\<forall>n\<in>set (db_user_notes s). note_ok D s' n"
  proof
    fix n assume "n \<in> set (db_user_notes s)"
    from wallet_okD(1) [OF w this] have "note_ok D s n" .
    moreover have "spent_ok s' c n = spent_ok s c n" for c
      by (cases "un_nullifier n") (simp_all add: spent_ok_def same_pool_def fr)
    ultimately show "note_ok D s' n" by (auto elim!: note_okE intro!: note_okI simp: fr)
  qed
  moreover have "\<forall>r\<in>set (db_commitment_scan s). mark_ok D s' r"
  proof
    fix r assume "r \<in> set (db_commitment_scan s)"
    from wallet_okD(2) [OF w this] have m: "mark_ok D s r" .
    then obtain x where x: "x \<in> set (db_keypairs s)" "kp_account x = Some (cs_account r)" by (auto simp: mark_ok_def)
    have "scanned D s' (cs_pool r) (cs_account r) c" if "scanned D s (cs_pool r) (cs_account r) c" for c
    proof (cases "cs_account r = i")
      case True
      then have "account_keys_of i k = account_keys_of i x" using same x k by (simp add: account_keys_of_def)
      then show ?thesis using that x True k by (auto simp: scanned_def found_def fr)
    next
      case False
      then show ?thesis using that k by (auto simp: scanned_def found_def fr)
    qed
    moreover have "\<exists>y\<in>set (db_keypairs s'). kp_account y = Some (cs_account r)" using x by (auto simp: fr)
    ultimately show "mark_ok D s' r" using m unfolding mark_ok_def fr(1) by blast
  qed
  moreover have "distinct (map kp_id (db_keypairs s'))"
    using wallet_okD(8) [OF w] next_rowid_fresh [of "map kp_id (db_keypairs s)"] by (auto simp: fr k simp del: next_rowid_fresh)
  moreover have "\<forall>x\<in>set (db_keypairs s'). \<forall>y\<in>set (db_keypairs s'). kp_account x = kp_account y \<longrightarrow> kp_keys x = kp_keys y"
  proof (intro ballI impI)
    fix x y
    assume xy: "x \<in> set (db_keypairs s')" "y \<in> set (db_keypairs s')" "kp_account x = kp_account y"
    then consider "x = k" "y = k" | "x = k" "y \<in> set (db_keypairs s)" | "x \<in> set (db_keypairs s)" "y = k"
      | "x \<in> set (db_keypairs s)" "y \<in> set (db_keypairs s)" by (auto simp: fr)
    then show "kp_keys x = kp_keys y"
    proof cases
      case 2
      then show ?thesis using same [of y] k xy(3) by simp
    next
      case 3
      then show ?thesis using same [of x] k xy(3) by simp
    next
      case 4
      then show ?thesis using wallet_okD(7) [OF w] xy(3) by blast
    qed simp
  qed
  ultimately show ?thesis
    using w unfolding storage_ok_def base_ok_def wallet_ok_def fr(1-6) by blast
qed

end
