(* ===== verification/Storage_History.thy ===== *)
theory Storage_History
  imports Storage_Wallet
begin

text \<open>
  Histories of the local database: every derived row stems from a stored event, and every sequence of
  method calls keeps the invariants of the tables.
\<close>

section \<open>Derived rows and their events\<close>

fun processed_id :: "processed_event \<Rightarrow> string" where
  "processed_id (Nullifier i n) = i"
| "processed_id (Commitment i c x enc) = i"
| "processed_id (PublicKey i w e n) = i"
| "processed_id (LeafAdded i l x r) = i"
| "processed_id (LeafInserted i k v r) = i"
| "processed_id (LeafUpdated i k v w r) = i"
| "processed_id (LeafDeleted i k r) = i"

lemma parse_event_id:
  assumes "parse_event S e = Inr p"
  shows "processed_id p = ce_id e"
proof -
  from assms obtain m where m: "parse_event_metadata S e = Inr m"
    by (auto simp: parse_event_def let_ok_Inr_iff map_err_Inr_iff)
  then have id: "pe_id m = ce_id e"
    unfolding parse_event_metadata_def let_ok_Inr_iff by (cases "ce_topics e") (auto simp: let_ok_Inr_iff)
  from assms m have "processed_id p = pe_id m"
    by (auto simp: parse_event_def Let_def parse_new_nullifier_event_def parse_new_commitment_event_def
        parse_public_key_event_def parse_leaf_added_def parse_leaf_inserted_def parse_leaf_updated_def
        parse_leaf_deleted_def let_ok_Inr_iff split: if_splits)
  then show ?thesis using id by simp
qed

text \<open>A derived row with the values of a parsed event stems from the stored event with its id.\<close>

definition parsed_from :: "stellar_env \<Rightarrow> storage \<Rightarrow> processed_event \<Rightarrow> bool" where
  "parsed_from S s p \<longleftrightarrow>
    (\<exists>r\<in>set (db_raw s). \<exists>e. event_of_raw s r = Some e \<and> parse_event S e = Inr p)"

definition nullifier_event_of :: "nullifier_row \<Rightarrow> processed_event" where
  "nullifier_event_of n = Nullifier (nl_event n) (nl_nullifier n)"

definition commitment_event_of :: "commitment_row \<Rightarrow> processed_event" where
  "commitment_event_of c = Commitment (cm_event c) (cm_commitment c) (cm_leaf_index c) (cm_encrypted_output c)"

definition public_key_event_of :: "public_key_row \<Rightarrow> processed_event" where
  "public_key_event_of k = PublicKey (pk_event k) (pk_owner k) (pk_encryption_key k) (pk_note_key k)"

definition leaf_event_of :: "asp_leaf_row \<Rightarrow> processed_event" where
  "leaf_event_of l = LeafAdded (al_event l) (al_leaf l) (al_index l) (al_root l)"

definition derived_events :: "storage \<Rightarrow> processed_event set" where
  "derived_events s =
    nullifier_event_of ` set (db_nullifiers s) \<union> commitment_event_of ` set (db_commitments s) \<union>
    public_key_event_of ` set (db_public_keys s) \<union> leaf_event_of ` set (db_asp_leaves s)"

definition provenance :: "stellar_env \<Rightarrow> storage \<Rightarrow> bool" where
  "provenance S s \<longleftrightarrow> (\<forall>p\<in>derived_events s. parsed_from S s p)"

lemmas event_of_defs = nullifier_event_of_def commitment_event_of_def public_key_event_of_def leaf_event_of_def

definition log_extends :: "storage \<Rightarrow> storage \<Rightarrow> bool" where
  "log_extends s s' \<longleftrightarrow> (\<exists>cs rs. db_contracts s' = db_contracts s @ cs \<and> db_raw s' = db_raw s @ rs)"

lemma log_extends_refl: "log_extends s s"
  by (simp add: log_extends_def)

lemma log_extends_trans: "log_extends s t \<Longrightarrow> log_extends t u \<Longrightarrow> log_extends s u"
  by (auto simp: log_extends_def)

lemma event_of_raw_log_extends:
  assumes "log_extends s s'" and "directory_ok s" and "r \<in> set (db_raw s)"
  shows "event_of_raw s' r = event_of_raw s r"
proof -
  have "raw_contract r \<in> ct_id ` set (db_contracts s)" using assms(2,3) by (auto simp: directory_ok_def)
  then have "row_by ct_id (db_contracts s') (raw_contract r) = row_by ct_id (db_contracts s) (raw_contract r)"
    using assms(1) row_by_append [of "raw_contract r" ct_id "db_contracts s"] by (auto simp: log_extends_def)
  then show ?thesis by (simp add: event_of_raw_def)
qed

lemma parsed_from_log_extends:
  assumes "log_extends s s'" and "directory_ok s" and "parsed_from S s p"
  shows "parsed_from S s' p"
  using assms event_of_raw_log_extends [OF assms(1,2)] unfolding parsed_from_def
  by (metis Un_iff log_extends_def set_append)

lemma provenance_log_extends:
  "log_extends s s' \<Longrightarrow> directory_ok s \<Longrightarrow> provenance S s \<Longrightarrow> derived_events s' = derived_events s \<Longrightarrow> provenance S s'"
  by (auto simp: provenance_def intro: parsed_from_log_extends)

lemma event_of_raw_exists:
  assumes "directory_ok s" and "r \<in> set (db_raw s)"
  obtains e where "event_of_raw s r = Some e" "ce_id e = raw_id r"
proof -
  have "raw_contract r \<in> ct_id ` set (db_contracts s)" using assms by (auto simp: directory_ok_def)
  then obtain c where "row_by ct_id (db_contracts s) (raw_contract r) = Some c"
    using row_by_None_iff by (metis not_None_eq)
  then show ?thesis using that by (simp add: event_of_raw_def)
qed

lemma event_of_raw_id: "event_of_raw s r = Some e \<Longrightarrow> ce_id e = raw_id r"
  by (auto simp: event_of_raw_def)

section \<open>Processing keeps the provenance\<close>

lemma unprocessedD:
  assumes "get_unprocessed_events limit s = Inr es" and "e \<in> set es"
  shows "\<exists>r\<in>set (db_raw s). event_of_raw s r = Some e \<and> raw_id r \<notin> set (processed_ids s)"
proof -
  have "es = take limit (List.map_filter (event_of_raw s) (sort_key (\<lambda>r. (raw_ledger r, raw_id r))
      (filter (\<lambda>r. raw_id r \<notin> set (processed_ids s)) (db_raw s))))"
    using map_ok_InrD [OF assms(1) [unfolded get_unprocessed_events_def], of "\<lambda>e. e"] by (auto simp: let_ok_Inr_iff)
  then have "e \<in> set (List.map_filter (event_of_raw s) (sort_key (\<lambda>r. (raw_ledger r, raw_id r))
      (filter (\<lambda>r. raw_id r \<notin> set (processed_ids s)) (db_raw s))))"
    using assms(2) by (auto dest: in_set_takeD)
  then show ?thesis by (auto simp: map_filter_def)
qed

lemma parsed_eventsD: "p \<in> set (parsed_events S es) \<Longrightarrow> \<exists>e\<in>set es. parse_event S e = Inr p"
  by (induction es) (auto split: sum.splits)

lemma typed_eventsD:
  "(i, n) \<in> set (nullifier_events ps) \<longleftrightarrow> Nullifier i n \<in> set ps"
  "(i, c, x, enc) \<in> set (commitment_events ps) \<longleftrightarrow> Commitment i c x enc \<in> set ps"
  "(i, w, e, k) \<in> set (public_key_events ps) \<longleftrightarrow> PublicKey i w e k \<in> set ps"
  "(i, l, x, r) \<in> set (leaf_added_events ps) \<longleftrightarrow> LeafAdded i l x r \<in> set ps"
proof (induction ps)
  case (Cons p ps)
  note simps = nullifier_events_def commitment_events_def public_key_events_def leaf_added_events_def map_filter_simps
  {
    case 1
    then show ?case using Cons.IH(1) by (cases p) (auto simp: simps)
  next
    case 2
    then show ?case using Cons.IH(2) by (cases p) (auto simp: simps)
  next
    case 3
    then show ?case using Cons.IH(3) by (cases p) (auto simp: simps)
  next
    case 4
    then show ?case using Cons.IH(4) by (cases p) (auto simp: simps)
  }
qed (simp_all add: nullifier_events_def commitment_events_def public_key_events_def leaf_added_events_def map_filter_simps)

text \<open>What one batch may add: the parsed events, and nothing else changes.\<close>

definition adds :: "storage \<Rightarrow> processed_event set \<Rightarrow> storage \<Rightarrow> bool" where
  "adds s ps s' \<longleftrightarrow> log_extends s s' \<and> derived_events s \<subseteq> derived_events s' \<and> derived_events s' \<subseteq> derived_events s \<union> ps"

lemma adds_refl: "adds s ps s"
  by (auto simp: adds_def log_extends_refl)

lemma adds_trans: "adds s ps t \<Longrightarrow> adds t qs u \<Longrightarrow> ps \<union> qs \<subseteq> rs \<Longrightarrow> adds s rs u"
  unfolding adds_def using log_extends_trans by blast

lemma batch_adds:
  assumes "transaction (\<lambda>s. let_ok (fold_ok save xs s) (\<lambda>s'. Inr ((), s'))) s = (r, s')"
    and "\<And>s'. fold_ok save xs s = Inr s' \<Longrightarrow> adds s ps s'"
  shows "adds s ps s'"
  using assms by (auto simp: let_ok_Inr_iff adds_refl elim!: transaction_cases)

lemma save_nullifier_adds:
  assumes "save_nullifier_events_batch ns s = (r, s')"
  shows "adds s ((\<lambda>(i, n). Nullifier i n) ` set ns) s'"
  using assms unfolding save_nullifier_events_batch_def
proof (rule batch_adds)
  fix t assume f: "fold_ok save_nullifier ns s = Inr t"
  obtain new where new: "db_nullifiers t = db_nullifiers s @ new"
    "\<And>r. r \<in> set new \<Longrightarrow> nullifier_event_of r \<in> (\<lambda>(i, n). Nullifier i n) ` set ns"
    using nullifier_table.save_all(3) [OF f] by (force simp: nullifier_event_of_def)
  obtain q where "t = s\<lparr> db_nullifiers := q \<rparr>" using nullifier_table.save_all(1) [OF f] by blast
  then have "db_commitments t = db_commitments s \<and> db_public_keys t = db_public_keys s \<and> db_asp_leaves t = db_asp_leaves s \<and> db_raw t = db_raw s \<and> db_contracts t = db_contracts s" by simp
  then show "adds s ((\<lambda>(i, n). Nullifier i n) ` set ns) t"
    using new by (auto simp: adds_def log_extends_def derived_events_def)
qed

lemma save_commitment_adds:
  assumes "save_commitment_events_batch cs s = (r, s')"
  shows "adds s ((\<lambda>(i, c, x, enc). Commitment i c x enc) ` set cs) s'"
  using assms unfolding save_commitment_events_batch_def
proof (rule batch_adds)
  fix t assume f: "fold_ok save_commitment cs s = Inr t"
  obtain new where new: "db_commitments t = db_commitments s @ new"
    "\<And>r. r \<in> set new \<Longrightarrow> commitment_event_of r \<in> (\<lambda>(i, c, x, enc). Commitment i c x enc) ` set cs"
    using commitment_table.save_all(3) [OF f] by (force simp: commitment_event_of_def)
  obtain q where "t = s\<lparr> db_commitments := q \<rparr>" using commitment_table.save_all(1) [OF f] by blast
  then have "db_nullifiers t = db_nullifiers s \<and> db_public_keys t = db_public_keys s \<and> db_asp_leaves t = db_asp_leaves s \<and> db_raw t = db_raw s \<and> db_contracts t = db_contracts s" by simp
  then show "adds s ((\<lambda>(i, c, x, enc). Commitment i c x enc) ` set cs) t"
    using new by (auto simp: adds_def log_extends_def derived_events_def)
qed

lemma save_public_key_adds:
  assumes "save_public_key_events_batch ks s = (r, s')"
  shows "adds s ((\<lambda>(i, w, e, k). PublicKey i w e k) ` set ks) s'"
  using assms unfolding save_public_key_events_batch_def
proof (rule batch_adds)
  fix t assume f: "fold_ok save_public_key ks s = Inr t"
  obtain new where new: "db_public_keys t = db_public_keys s @ new"
    "\<And>r. r \<in> set new \<Longrightarrow> public_key_event_of r \<in> (\<lambda>(i, w, e, k). PublicKey i w e k) ` set ks"
    using public_key_table.save_all(3) [OF f] by (force simp: public_key_event_of_def)
  obtain q where "t = s\<lparr> db_public_keys := q \<rparr>" using public_key_table.save_all(1) [OF f] by blast
  then have "db_nullifiers t = db_nullifiers s \<and> db_commitments t = db_commitments s \<and> db_asp_leaves t = db_asp_leaves s \<and> db_raw t = db_raw s \<and> db_contracts t = db_contracts s" by simp
  then show "adds s ((\<lambda>(i, w, e, k). PublicKey i w e k) ` set ks) t"
    using new by (auto simp: adds_def log_extends_def derived_events_def)
qed

lemma save_leaf_added_adds:
  assumes "save_leaf_added_events_batch ls s = (r, s')"
  shows "adds s ((\<lambda>(i, l, x, root). LeafAdded i l x root) ` set ls) s'"
  using assms unfolding save_leaf_added_events_batch_def
proof (rule batch_adds)
  fix t assume f: "fold_ok save_leaf_added ls s = Inr t"
  obtain new where new: "db_asp_leaves t = db_asp_leaves s @ new"
    "\<And>r. r \<in> set new \<Longrightarrow> leaf_event_of r \<in> (\<lambda>(i, l, x, root). LeafAdded i l x root) ` set ls"
    using asp_leaf_table.save_all(3) [OF f] by (force simp: leaf_event_of_def)
  obtain q where "t = s\<lparr> db_asp_leaves := q \<rparr>" using asp_leaf_table.save_all(1) [OF f] by blast
  then have "db_nullifiers t = db_nullifiers s \<and> db_commitments t = db_commitments s \<and> db_public_keys t = db_public_keys s \<and> db_raw t = db_raw s \<and> db_contracts t = db_contracts s" by simp
  then show "adds s ((\<lambda>(i, l, x, root). LeafAdded i l x root) ` set ls) t"
    using new by (auto simp: adds_def log_extends_def derived_events_def)
qed

lemma provenance_adds:
  assumes "provenance S s" and "directory_ok s" and "adds s ps s'" and "\<forall>p\<in>ps. parsed_from S s p"
  shows "provenance S s'"
proof -
  have "log_extends s s'" using assms(3) by (simp add: adds_def)
  moreover have "\<forall>p\<in>derived_events s'. parsed_from S s p"
    using assms(1,3,4) unfolding provenance_def adds_def by blast
  ultimately show ?thesis unfolding provenance_def using parsed_from_log_extends [OF _ assms(2)] by blast
qed

lemma process_events_adds:
  assumes "process_events S limit s = (r, s')"
  shows "\<exists>ps. adds s ps s' \<and> (\<forall>p\<in>ps. parsed_from S s p)"
proof (cases "get_unprocessed_events limit s")
  case (Inl e)
  then show ?thesis using assms adds_refl [of s "{}"] by (auto simp: process_events_def)
next
  case (Inr es)
  show ?thesis
  proof (cases "es = []")
    case True
    then show ?thesis using assms Inr adds_refl [of s "{}"] by (auto simp: process_events_def)
  next
    case False
    let ?P = "parsed_events S (rev es)"
    have src: "parsed_from S s p" if p: "p \<in> set ?P" for p
    proof -
      obtain e where "e \<in> set es" "parse_event S e = Inr p" using parsed_eventsD [OF p] by auto
      then show ?thesis using unprocessedD [OF Inr] unfolding parsed_from_def by blast
    qed
    have sub: "(\<lambda>(i, n). Nullifier i n) ` set (nullifier_events ?P) \<subseteq> set ?P"
      "(\<lambda>(i, c, x, enc). Commitment i c x enc) ` set (commitment_events ?P) \<subseteq> set ?P"
      "(\<lambda>(i, w, e, k). PublicKey i w e k) ` set (public_key_events ?P) \<subseteq> set ?P"
      "(\<lambda>(i, l, x, root). LeafAdded i l x root) ` set (leaf_added_events ?P) \<subseteq> set ?P"
      by (auto simp: typed_eventsD)
    have widen: "adds s xs t \<Longrightarrow> xs \<subseteq> set ?P \<Longrightarrow> adds s (set ?P) t" for xs s t by (auto simp: adds_def)
    note step = widen [OF save_nullifier_adds sub(1)] widen [OF save_commitment_adds sub(2)]
      widen [OF save_public_key_adds sub(3)] widen [OF save_leaf_added_adds sub(4)]
    have tr: "adds s (set ?P) t \<Longrightarrow> adds t (set ?P) u \<Longrightarrow> adds s (set ?P) u" for s t u by (rule adds_trans) auto
    from assms have "and_then (save_nullifier_events_batch (nullifier_events ?P) s) (\<lambda>_ s.
       and_then (save_commitment_events_batch (commitment_events ?P) s) (\<lambda>_ s.
       and_then (save_public_key_events_batch (public_key_events ?P) s) (\<lambda>_ s.
       and_then (save_leaf_added_events_batch (leaf_added_events ?P) s) (\<lambda>_ s. (Inr True, s))))) = (r, s')"
      using Inr False by (simp add: process_events_def Let_def)
    then have "adds s (set ?P) s'"
      by (elim and_then_cases) (blast dest: step intro: tr | simp)+
    then show ?thesis using src by blast
  qed
qed

section \<open>Histories of the database\<close>

text \<open>
  The databases that the client can reach: every method that writes, in any order and with any arguments,
  where a failed method leaves what its committed transactions wrote. Ledger numbers are 32-bit, and keys
  stored again for an account are the same.
\<close>

inductive storage_reach :: "stellar_env \<Rightarrow> derive_note_fn \<Rightarrow> storage \<Rightarrow> bool" for S D where
  reach_connect: "storage_reach S D empty_storage"
| reach_events: "storage_reach S D s \<Longrightarrow> list_all (\<lambda>e. ce_ledger e < 2 ^ 32) (ed_events data) \<Longrightarrow>
    save_events_batch data s = (r, s') \<Longrightarrow> storage_reach S D s'"
| reach_progress: "storage_reach S D s \<Longrightarrow> list_all (\<lambda>m. sm_last_indexed m < 2 ^ 32) metadata \<Longrightarrow>
    save_sync_progress metadata fully s = (r, s') \<Longrightarrow> storage_reach S D s'"
| reach_cursors: "storage_reach S D s \<Longrightarrow> clear_indexing_cursors s = (r, s') \<Longrightarrow> storage_reach S D s'"
| reach_keys: "storage_reach S D s \<Longrightarrow>
    keys_stable address \<lparr> sk_note_keypair = nk, sk_encryption_keypair = ek, sk_membership_blinding = mb \<rparr> s \<Longrightarrow>
    save_encryption_and_note_keypairs address nk ek mb s = (r, s') \<Longrightarrow> storage_reach S D s'"
| reach_disclaimer: "storage_reach S D s \<Longrightarrow> get_disclaimer_state body hash address s = (q, s') \<Longrightarrow> storage_reach S D s'"
| reach_accept: "storage_reach S D s \<Longrightarrow> accept_current_disclaimer hash now address h2 s = (r, s') \<Longrightarrow> storage_reach S D s'"
| reach_setting: "storage_reach S D s \<Longrightarrow> set_bootnode_setting to_string enabled url s = (r, s') \<Longrightarrow> storage_reach S D s'"
| reach_operation: "storage_reach S D s \<Longrightarrow>
    insert_operation now address pool kind amount direction counterparty tx_hash s = (r, s') \<Longrightarrow> storage_reach S D s'"
| reach_process_events: "storage_reach S D s \<Longrightarrow> process_events S limit s = (b, s') \<Longrightarrow> storage_reach S D s'"
| reach_process_notes: "storage_reach S D s \<Longrightarrow> process_notes limit D s = (b, s') \<Longrightarrow> storage_reach S D s'"

definition history_ok :: "stellar_env \<Rightarrow> derive_note_fn \<Rightarrow> storage \<Rightarrow> bool" where
  "history_ok S D s \<longleftrightarrow> storage_ok D s \<and> provenance S s"

lemma history_ok_side:
  assumes "history_ok S D s" and "base_ok s'" and "extends s s'" and "log_extends s s'" and "derived_events s' = derived_events s"
  shows "history_ok S D s'"
  using assms storage_ok_extends provenance_log_extends [of s s' S] by (auto simp: history_ok_def storage_ok_def base_ok_def)

lemma fold_log_extends:
  assumes "\<And>x s. directory_ok s \<Longrightarrow> x \<in> set xs \<Longrightarrow> directory_ok (f x s) \<and> log_extends s (f x s) \<and> derived_events (f x s) = derived_events s"
    and "directory_ok s"
  shows "log_extends s (fold f xs s) \<and> derived_events (fold f xs s) = derived_events s"
  using assms
proof (induction xs arbitrary: s)
  case (Cons x xs)
  have "directory_ok (f x s)" "log_extends s (f x s)" "derived_events (f x s) = derived_events s"
    using Cons.prems by auto
  moreover have "log_extends (f x s) (fold f xs (f x s)) \<and> derived_events (fold f xs (f x s)) = derived_events (f x s)"
    by (rule Cons.IH) (use Cons.prems calculation in auto)
  ultimately show ?case using log_extends_trans by auto
qed (simp add: log_extends_refl)

lemma save_event_log:
  assumes "directory_ok s"
  shows "log_extends s (save_event e s)" and "derived_events (save_event e s) = derived_events s"
proof -
  obtain i t where t: "get_or_create_contract_id (ce_contract_id e) s = (i, t)" by fastforce
  obtain new where "t = s\<lparr> db_contracts := db_contracts s @ new \<rparr>"
    using get_or_create_contract_id_spec(2) [OF t assms] by blast
  then show "log_extends s (save_event e s)" "derived_events (save_event e s) = derived_events s"
    by (simp_all add: save_event_def t log_extends_def derived_events_def)
qed

lemma save_progress_log:
  assumes "directory_ok s"
  shows "log_extends s (save_progress fully e s)" and "derived_events (save_progress fully e s) = derived_events s"
proof -
  obtain i t where t: "get_or_create_contract_id (sm_contract_id e) s = (i, t)" by fastforce
  obtain new where "t = s\<lparr> db_contracts := db_contracts s @ new \<rparr>"
    using get_or_create_contract_id_spec(2) [OF t assms] by blast
  then show "log_extends s (save_progress fully e s)" "derived_events (save_progress fully e s) = derived_events s"
    by (simp_all add: save_progress_def t Let_def log_extends_def derived_events_def)
qed

lemma account_side:
  assumes "get_or_create_account address s = (i, t)" and "base_ok s"
  shows "base_ok t" "extends s t" "log_extends s t" "derived_events t = derived_events s"
proof -
  have d: "directory_ok s" using assms(2) by (simp add: base_ok_def)
  note g = get_or_create_account_spec [OF assms(1) d]
  obtain new where t: "t = s\<lparr> db_accounts := db_accounts s @ new \<rparr>" using g(2) by blast
  have "events_ok t" using assms(2) by (simp add: base_ok_def events_ok_def table_ok_defs t)
  then show "base_ok t" using g(1) by (simp add: base_ok_def)
  show "extends s t" "log_extends s t" "derived_events t = derived_events s"
    by (simp_all add: t extends_def event_contract_def event_row_def log_extends_def derived_events_def)
qed

lemma frames_log:
  "scan_frame s s' \<Longrightarrow> log_extends s s' \<and> derived_events s' = derived_events s"
  "rec_frame s s' \<Longrightarrow> log_extends s s' \<and> derived_events s' = derived_events s"
  by (cases s; cases s'; simp add: scan_frame_def rec_frame_def log_extends_def derived_events_def)+

lemma process_notes_log:
  assumes "process_notes limit D s = (r, s')" and "storage_ok D s"
  shows "log_extends s s' \<and> derived_events s' = derived_events s"
proof -
  have s: "wallet_ok D s" "events_ok s" using assms(2) by (auto simp: storage_ok_def base_ok_def)
  from assms(1) show ?thesis
    unfolding process_notes_def
  proof (cases rule: and_then_cases)
    case (1 e)
    then show ?thesis using scan_commitments_ok(2) [OF 1(1) s] frames_log(1) by blast
  next
    case (2 x t)
    note t = scan_commitments_ok [OF 2(1) s]
    have et: "events_ok t" using s(2) by (auto simp: scan_frameD [OF t(2)])
    have "\<exists>q. reconcile_nullifiers limit t = (q, s')"
      using 2(2) by (auto elim!: and_then_cases)
    then have "rec_frame t s'" using reconcile_nullifiers_ok(2) [OF _ t(1) et] by blast
    then show ?thesis using frames_log(1) [OF t(2)] frames_log(2) log_extends_trans by metis
  qed
qed

lemma base_ok_empty: "base_ok empty_storage" "wallet_ok D empty_storage" "provenance S empty_storage"
  by (simp_all add: empty_storage_def base_ok_def directory_ok_def events_ok_def table_ok_defs wallet_ok_def
      provenance_def derived_events_def)

text \<open>A method that writes only the indexing state, the settings, the acceptances or the log of operations.\<close>

lemma base_ok_simple:
  assumes "base_ok s"
  shows "base_ok (s\<lparr> db_indexing := map (\<lambda>r. r\<lparr> ix_last_cursor := None \<rparr>) (db_indexing s) \<rparr>)"
    and "base_ok (s\<lparr> db_settings := x \<rparr>)" and "base_ok (s\<lparr> db_acceptances := y \<rparr>)" and "base_ok (s\<lparr> db_operations := z \<rparr>)"
  using assms by (simp_all add: base_ok_def directory_ok_def events_ok_def table_ok_defs o_def image_image)

lemma side_simple:
  "extends s (s\<lparr> db_indexing := w \<rparr>)" "extends s (s\<lparr> db_settings := x \<rparr>)" "extends s (s\<lparr> db_acceptances := y \<rparr>)"
  "extends s (s\<lparr> db_operations := z \<rparr>)"
  "log_extends s (s\<lparr> db_indexing := w \<rparr>)" "log_extends s (s\<lparr> db_settings := x \<rparr>)" "log_extends s (s\<lparr> db_acceptances := y \<rparr>)"
  "log_extends s (s\<lparr> db_operations := z \<rparr>)"
  "derived_events (s\<lparr> db_indexing := w \<rparr>) = derived_events s" "derived_events (s\<lparr> db_settings := x \<rparr>) = derived_events s"
  "derived_events (s\<lparr> db_acceptances := y \<rparr>) = derived_events s" "derived_events (s\<lparr> db_operations := z \<rparr>) = derived_events s"
  by (simp_all add: extends_def event_contract_def event_row_def log_extends_def derived_events_def)

lemma history_ok_base: "history_ok S D s \<Longrightarrow> base_ok s" "history_ok S D s \<Longrightarrow> directory_ok s"
  by (simp_all add: history_ok_def storage_ok_def base_ok_def)

lemma save_events_history:
  assumes "save_events_batch data s = (r, s')" and "history_ok S D s" and "list_all (\<lambda>e. ce_ledger e < 2 ^ 32) (ed_events data)"
  shows "history_ok S D s'"
proof (rule history_ok_side [OF assms(2)])
  note d = history_ok_base [OF assms(2)]
  have spec: "directory_ok s' \<and> extends s s' \<and> (events_ok s \<longrightarrow> events_ok s')"
    by (rule save_events_batch_spec [OF assms(1) d(2) assms(3)])
  then show "base_ok s'" "extends s s'" using d(1) by (auto simp: base_ok_def)
  have "s' = fold save_event (ed_events data) s" using assms(1) by (auto simp: save_events_batch_def transaction_def)
  moreover have "log_extends s (fold save_event (ed_events data) s) \<and>
      derived_events (fold save_event (ed_events data) s) = derived_events s"
    by (rule fold_log_extends [OF _ d(2)]) (use assms(3) save_event_spec save_event_log in \<open>auto simp: list_all_iff\<close>)
  ultimately show "log_extends s s'" "derived_events s' = derived_events s" by auto
qed

lemma save_progress_history:
  assumes "save_sync_progress metadata fully s = (r, s')" and "history_ok S D s"
    and "list_all (\<lambda>m. sm_last_indexed m < 2 ^ 32) metadata"
  shows "history_ok S D s'"
proof (rule history_ok_side [OF assms(2)])
  note d = history_ok_base [OF assms(2)]
  have spec: "directory_ok s' \<and> extends s s' \<and> (events_ok s \<longrightarrow> events_ok s')"
    by (rule save_sync_progress_spec [OF assms(1) d(2) assms(3)])
  then show "base_ok s'" "extends s s'" using d(1) by (auto simp: base_ok_def)
  have "s' = fold (save_progress fully) metadata s" using assms(1) by (auto simp: save_sync_progress_def transaction_def)
  moreover have "log_extends s (fold (save_progress fully) metadata s) \<and>
      derived_events (fold (save_progress fully) metadata s) = derived_events s"
    by (rule fold_log_extends [OF _ d(2)]) (use assms(3) save_progress_spec save_progress_log in \<open>auto simp: list_all_iff\<close>)
  ultimately show "log_extends s s'" "derived_events s' = derived_events s" by auto
qed

lemma account_history:
  assumes "get_or_create_account address s = (i, t)" and "history_ok S D s"
  shows "history_ok S D t"
  using account_side [OF assms(1) history_ok_base(1) [OF assms(2)]] history_ok_side [OF assms(2)] by blast

lemma accept_history:
  assumes "accept_current_disclaimer hash now address h2 s = (r, s')" and "history_ok S D s"
  shows "history_ok S D s'"
proof -
  obtain i t where t: "get_or_create_account address s = (i, t)" by fastforce
  have "history_ok S D t" by (rule account_history [OF t assms(2)])
  moreover from this have "history_ok S D (t\<lparr> db_acceptances := y \<rparr>)" for y
    using history_ok_side [OF _ base_ok_simple(3) side_simple(3,7,11)] history_ok_base(1) by blast
  ultimately show ?thesis
    using assms by (auto simp: accept_current_disclaimer_def t transaction_def split: if_splits)
qed

lemma history_invariant:
  assumes "storage_reach S D s"
  shows "history_ok S D s"
  using assms
proof induction
  case reach_connect
  then show ?case by (simp add: history_ok_def storage_ok_def base_ok_empty)
next
  case (reach_events s dat r s')
  then show ?case by (blast intro: save_events_history)
next
  case (reach_progress s metadata fully r s')
  then show ?case by (blast intro: save_progress_history)
next
  case (reach_cursors s r s')
  then have "s' = s\<lparr> db_indexing := map (\<lambda>r. r\<lparr> ix_last_cursor := None \<rparr>) (db_indexing s) \<rparr>"
    by (simp add: clear_indexing_cursors_def)
  then show ?case
    using history_ok_side [OF reach_cursors.IH base_ok_simple(1) side_simple(1,5,9)] history_ok_base(1) [OF reach_cursors.IH] by simp
next
  case (reach_keys s address nk ek mb r s')
  obtain i t where t: "get_or_create_account address s = (i, t)" by fastforce
  have "log_extends s t \<and> derived_events t = derived_events s"
    using account_side [OF t history_ok_base(1) [OF reach_keys.IH]] by blast
  moreover have "log_extends t s' \<and> derived_events s' = derived_events t"
    using reach_keys.hyps(3)
    by (auto simp: save_encryption_and_note_keypairs_def t transaction_def log_extends_def derived_events_def)
  ultimately have "log_extends s s' \<and> derived_events s' = derived_events s" using log_extends_trans by auto
  then show ?case
    using save_keypairs_ok [OF reach_keys.hyps(3) _ reach_keys.hyps(2)] reach_keys.IH provenance_log_extends [of s s' S]
      history_ok_base(2) [OF reach_keys.IH] by (auto simp: history_ok_def)
next
  case (reach_disclaimer s body hash address q s')
  obtain i t where t: "get_or_create_account address s = (i, t)" by fastforce
  then show ?case
    using account_history [OF t reach_disclaimer.IH] reach_disclaimer.hyps by (auto simp: get_disclaimer_state_def transaction_def Let_def)
next
  case (reach_accept s hash now address h2 r s')
  then show ?case by (blast intro: accept_history)
next
  case (reach_setting s to_string enabled url r s')
  then have "s' = s \<or> (\<exists>x. s' = s\<lparr> db_settings := x \<rparr>)"
    by (auto simp: set_bootnode_setting_def set_setting_json_def split: option.splits)
  then show ?case
    using history_ok_side [OF reach_setting.IH base_ok_simple(2) side_simple(2,6,10)] history_ok_base(1) [OF reach_setting.IH]
      reach_setting.IH by auto
next
  case (reach_operation s n a p k am d c t r s')
  then have "\<exists>x. s' = s\<lparr> db_operations := x \<rparr>" by (auto simp: insert_operation_def)
  then show ?case
    using history_ok_side [OF reach_operation.IH base_ok_simple(4) side_simple(4,8,12)] history_ok_base(1) [OF reach_operation.IH]
    by auto
next
  case (reach_process_events s limit b s')
  note h = history_ok_base [OF reach_process_events.IH]
  have "base_ok s' \<and> extends s s'" by (rule process_events_spec [OF reach_process_events.hyps(2) h(1)])
  then show ?case
    using process_events_adds [OF reach_process_events.hyps(2)] provenance_adds [OF _ h(2)] reach_process_events.IH
      storage_ok_extends by (auto simp: history_ok_def)
next
  case (reach_process_notes s limit b s')
  then show ?case
    using process_notes_ok [OF reach_process_notes.hyps(2)] process_notes_log [OF reach_process_notes.hyps(2)]
      provenance_log_extends [of s s' S] history_ok_base(2) by (auto simp: history_ok_def)
qed

end
