(* ===== verification/Indexer.thy ===== *)
theory Indexer
  imports Storage_History
begin

text \<open>
  The indexer (\<open>app/crates/core/stellar/src/indexer.rs\<close>) with the part of the RPC client that it calls (\<open>rpc.rs\<close>), the
  configuration of the deployment (\<open>app/crates/core/types/src/lib.rs\<close>) and the listener that runs it
  (\<open>app/crates/platforms/web/src/events.rs\<close>). The service behind the RPC client is a parameter. A step relation
  interleaves the awaits of the indexer with the requests that the storage worker serves.
\<close>

section \<open>Configuration of the deployment\<close>

datatype asset_descriptor =
    NativeAsset
  | ClassicAsset (asset_code: string) (asset_issuer: string)
  | ContractAsset (asset_contract: string) (asset_symbol: string)

record pool_config_entry =
  pe_pool_contract_id :: string
  pe_token_contract_id :: string
  pe_deployment_ledger :: nat
  pe_enabled :: bool
  pe_asset :: asset_descriptor

record contract_config =
  cc_network :: string
  cc_deployer :: string
  cc_admin :: string
  cc_asp_membership :: string
  cc_asp_membership_deployment_ledger :: "nat option"
  cc_asp_non_membership :: string
  cc_verifier :: string
  cc_public_key_registry :: string
  cc_pools :: "pool_config_entry list"

definition enabled_pools :: "contract_config \<Rightarrow> pool_config_entry list" where
  "enabled_pools config = filter pe_enabled (cc_pools config)"

definition all_contract_ids :: "contract_config \<Rightarrow> string list" where
  "all_contract_ids config =
    map pe_pool_contract_id (enabled_pools config) @ [cc_asp_membership config] @ [cc_public_key_registry config]"

text \<open>\<open>Iterator::min\<close>.\<close>

fun iter_min :: "nat list \<Rightarrow> nat option" where
  "iter_min [] = None"
| "iter_min (x # xs) = Some (foldr min xs x)"

definition min_deployment_ledger :: "contract_config \<Rightarrow> nat option" where
  "min_deployment_ledger config = iter_min (map pe_deployment_ledger (enabled_pools config))"

definition asp_membership_scan_start_ledger :: "contract_config \<Rightarrow> nat option" where
  "asp_membership_scan_start_ledger config =
    (case cc_asp_membership_deployment_ledger config of
       Some l \<Rightarrow> Some l
     | None \<Rightarrow> iter_min (map pe_deployment_ledger (enabled_pools config)))"

section \<open>Events of the RPC service\<close>

datatype event_start = StartLedger nat | StartLedgerRange nat nat | StartCursor string

record rpc_event =
  re_event_type :: string
  re_ledger :: nat
  re_ledger_closed_at :: string
  re_contract_id :: string
  re_id :: string
  re_operation_index :: "nat option"
  re_transaction_index :: "nat option"
  re_tx_hash :: "string option"
  re_successful :: "bool option"
  re_topic :: "string list"
  re_value :: string

record get_events_response =
  ge_events :: "rpc_event list"
  ge_latest_ledger :: nat
  ge_latest_close_time :: string
  ge_oldest_ledger :: nat
  ge_oldest_close_time :: string
  ge_cursor :: string

text \<open>The errors of the client, without the payloads that come from libraries.\<close>

datatype rpc_error =
    RpcInvalidAddress
  | Reqwest
  | JsonRpc int string
  | RpcXdr
  | InvalidRpcUrl
  | Serde
  | NotFound string string
  | DuplicateContractKey string
  | RpcUnexpectedScVal string
  | RpcSyncGap nat
  | RpcAhead nat
  | InvalidLatestLedger int
  | MissingRequiredContractKeys string "string list"
  | RpcTimeout

text \<open>
  The service behind \<open>rpc_call\<close>: what it answers to the request number \<open>t\<close>. The chain moves on between two
  requests, and a request may fail.
\<close>

record rpc_service =
  svc_get_events :: "nat \<Rightarrow> event_start \<Rightarrow> string list \<Rightarrow> nat \<Rightarrow> rpc_error + get_events_response"
  svc_get_latest_ledger :: "nat \<Rightarrow> rpc_error + nat"

definition contract_event_of :: "rpc_event \<Rightarrow> contract_event" where
  "contract_event_of e =
    \<lparr> ce_id = re_id e, ce_ledger = re_ledger e, ce_contract_id = re_contract_id e, ce_topics = re_topic e,
      ce_value = re_value e \<rparr>"

text \<open>\<open>str::split\<close> and \<open>str::split_once\<close> at a character, and \<open>str::trim\<close> on ASCII text.\<close>

fun split_at :: "char \<Rightarrow> string \<Rightarrow> string list" where
  "split_at d [] = [[]]"
| "split_at d (c # cs) =
    (if c = d then [] # split_at d cs
     else case split_at d cs of [] \<Rightarrow> [[c]] | t # ts \<Rightarrow> (c # t) # ts)"

definition split_once :: "char \<Rightarrow> string \<Rightarrow> (string \<times> string) option" where
  "split_once d cs =
    (case dropWhile (\<lambda>c. c \<noteq> d) cs of [] \<Rightarrow> None | _ # rest \<Rightarrow> Some (takeWhile (\<lambda>c. c \<noteq> d) cs, rest))"

definition is_space :: "char \<Rightarrow> bool" where
  "is_space c \<longleftrightarrow> (let n = of_char c :: nat in n = 32 \<or> 9 \<le> n \<and> n \<le> 13)"

definition trim :: "string \<Rightarrow> string" where
  "trim cs = rev (dropWhile is_space (rev (dropWhile is_space cs)))"

definition parse_u32 :: "string \<Rightarrow> nat option" where
  "parse_u32 s =
    (if s = [] \<or> s = ''+'' \<or> s = ''-'' then None
     else parse_digits (2 ^ 32 - 1) 0 (if hd s = CHR ''+'' then tl s else s))"

definition parse_ledger_range :: "string \<Rightarrow> (nat \<times> nat) option" where
  "parse_ledger_range message =
    (case split_at (CHR '':'') message of
       [_, part] \<Rightarrow>
         (case split_once (CHR ''-'') (trim part) of
            None \<Rightarrow> None
          | Some (low, high) \<Rightarrow>
              Option.bind (parse_u32 (trim low)) (\<lambda>l. map_option (Pair l) (parse_u32 (trim high))))
     | _ \<Rightarrow> None)"

definition get_contract_events ::
  "rpc_service \<Rightarrow> nat \<Rightarrow> string list \<Rightarrow> nat \<Rightarrow> nat \<Rightarrow> string option \<Rightarrow> rpc_error + string option \<times> rpc_event list \<times> nat" where
  "get_contract_events svc t contract_ids start_ledger page_size cursor =
    (let start = (case cursor of Some c \<Rightarrow> StartCursor c | None \<Rightarrow> StartLedger start_ledger) in
     case svc_get_events svc t start contract_ids page_size of
       Inr resp \<Rightarrow> Inr (Some (ge_cursor resp), ge_events resp, ge_latest_ledger resp)
     | Inl (JsonRpc code message) \<Rightarrow>
         let plain = JsonRpc code (message @ '' (requested startLedger='' @ show_nat start_ledger @ '', cursor='' @
             (case cursor of None \<Rightarrow> ''<none>'' | Some c \<Rightarrow> c) @ '')'') in
         (case parse_ledger_range message of
            Some (oldest, newest) \<Rightarrow>
              if start_ledger < oldest then Inl (RpcSyncGap oldest)
              else if newest < start_ledger then Inl (RpcAhead newest)
              else Inl plain
          | None \<Rightarrow> Inl plain)
     | Inl e \<Rightarrow> Inl e)"

section \<open>The indexer\<close>

record indexer =
  ixr_contract_ids :: "string list"
  ixr_min_pool_ledger :: nat

datatype indexer_error = IndexerRpc rpc_error | IndexerStorage storage_error | NoEnabledPool | CursorNotFound

definition PAGE_SIZE :: nat where
  "PAGE_SIZE = 300"

definition MAX_PAGES_PER_ROUND :: nat where
  "MAX_PAGES_PER_ROUND = 10"

definition active_sync :: "string list \<Rightarrow> sync_metadata list \<Rightarrow> sync_metadata list" where
  "active_sync contract_ids = filter (\<lambda>meta. sm_contract_id meta \<in> set contract_ids)"

definition indexer_init :: "rpc_service \<Rightarrow> nat \<Rightarrow> contract_config \<Rightarrow> storage \<Rightarrow> indexer_error + indexer" where
  "indexer_init svc t config s =
    let_ok (ok_or (min_deployment_ledger config) NoEnabledPool) (\<lambda>min_pool_ledger.
    let contract_ids = all_contract_ids config;
        ok = Inr \<lparr> ixr_contract_ids = contract_ids, ixr_min_pool_ledger = min_pool_ledger \<rparr> in
    let_ok (map_err IndexerStorage (get_sync_metadata s)) (\<lambda>existing_sync.
    let active = active_sync contract_ids existing_sync;
        probe_ledger = (case iter_min (filter (\<lambda>l. 0 < l) (map sm_last_indexed active)) of
          Some l \<Rightarrow> l | None \<Rightarrow> min_pool_ledger) in
    case get_contract_events svc t contract_ids probe_ledger 1 None of
      Inr _ \<Rightarrow> ok
    | Inl (RpcAhead _) \<Rightarrow> ok
    | Inl e \<Rightarrow> Inl (IndexerRpc e)))"

text \<open>Where a round starts: the ledger and, when the contracts agree on one, the cursor.\<close>

definition resume_point :: "indexer \<Rightarrow> sync_metadata list \<Rightarrow> nat \<times> string option" where
  "resume_point ixr existing_sync =
    (let active = active_sync (ixr_contract_ids ixr) existing_sync;
         start_ledger = (case iter_min (map sm_last_indexed active) of
           Some l \<Rightarrow> l | None \<Rightarrow> ixr_min_pool_ledger ixr);
         unique_cursors = remdups (filter (\<lambda>c. c \<noteq> []) (map sm_cursor active));
         cursor = (if length unique_cursors \<le> 1 then
             (case active of [] \<Rightarrow> None | meta # _ \<Rightarrow> if sm_cursor meta = [] then None else Some (sm_cursor meta))
           else None) in
     (start_ledger, cursor))"

definition page_data :: "string \<Rightarrow> rpc_event list \<Rightarrow> nat \<Rightarrow> contracts_event_data" where
  "page_data new_cursor events latest_ledger =
    \<lparr> ed_events = map contract_event_of events, ed_cursor = new_cursor, ed_latest_ledger = latest_ledger \<rparr>"

definition progress_ledger :: "rpc_event list \<Rightarrow> nat \<Rightarrow> nat" where
  "progress_ledger events latest_ledger =
    (case map re_ledger events of [] \<Rightarrow> latest_ledger | l # ls \<Rightarrow> foldr max ls l)"

definition page_progress :: "indexer \<Rightarrow> string \<Rightarrow> rpc_event list \<Rightarrow> nat \<Rightarrow> sync_metadata list" where
  "page_progress ixr new_cursor events latest_ledger =
    map (\<lambda>contract_id. \<lparr> sm_contract_id = contract_id, sm_cursor = new_cursor,
        sm_last_indexed = progress_ledger events latest_ledger, sm_last_fully_indexed = 0 \<rparr>) (ixr_contract_ids ixr)"

type_synonym 'a indexed_result = "(indexer_error + 'a) \<times> storage"

fun fetch_pages :: "rpc_service \<Rightarrow> indexer \<Rightarrow> nat \<Rightarrow> nat \<Rightarrow> nat \<Rightarrow> string option \<Rightarrow> storage \<Rightarrow> unit indexed_result" where
  "fetch_pages svc ixr start_ledger 0 t cursor s = (Inr (), s)"
| "fetch_pages svc ixr start_ledger (Suc pages) t cursor s =
    (case get_contract_events svc t (ixr_contract_ids ixr) start_ledger PAGE_SIZE cursor of
       Inl (RpcAhead _) \<Rightarrow> (Inr (), s)
     | Inl e \<Rightarrow> (Inl (IndexerRpc e), s)
     | Inr (None, events, latest_ledger) \<Rightarrow> (Inl CursorNotFound, s)
     | Inr (Some new_cursor, events, latest_ledger) \<Rightarrow>
         (case save_events_batch (page_data new_cursor events latest_ledger) s of
            (Inl e, s) \<Rightarrow> (Inl (IndexerStorage e), s)
          | (Inr _, s) \<Rightarrow>
            (case save_sync_progress (page_progress ixr new_cursor events latest_ledger) (events = []) s of
               (Inl e, s) \<Rightarrow> (Inl (IndexerStorage e), s)
             | (Inr _, s) \<Rightarrow>
                 if events = [] then (Inr (), s)
                 else fetch_pages svc ixr start_ledger pages (Suc t) (Some new_cursor) s)))"

definition fetch_contract_events :: "rpc_service \<Rightarrow> nat \<Rightarrow> indexer \<Rightarrow> storage \<Rightarrow> unit indexed_result" where
  "fetch_contract_events svc t ixr s =
    (case svc_get_latest_ledger svc t of
       Inl e \<Rightarrow> (Inl (IndexerRpc e), s)
     | Inr network_tip \<Rightarrow>
       (case get_sync_metadata s of
          Inl e \<Rightarrow> (Inl (IndexerStorage e), s)
        | Inr existing_sync \<Rightarrow>
            let (start_ledger, cursor) = resume_point ixr existing_sync in
            fetch_pages svc ixr start_ledger MAX_PAGES_PER_ROUND (Suc t) cursor s))"

section \<open>The listener\<close>

definition RETENTION_HANDOFF_CODE :: int where
  "RETENTION_HANDOFF_CODE = - 32002"

fun is_retention_handoff :: "rpc_error \<Rightarrow> bool" where
  "is_retention_handoff (JsonRpc code message) \<longleftrightarrow> code = RETENTION_HANDOFF_CODE"
| "is_retention_handoff _ \<longleftrightarrow> False"

fun is_retention_handoff_err :: "indexer_error \<Rightarrow> bool" where
  "is_retention_handoff_err (IndexerRpc e) \<longleftrightarrow> is_retention_handoff e"
| "is_retention_handoff_err _ \<longleftrightarrow> False"

fun is_rpc_sync_gap :: "indexer_error \<Rightarrow> bool" where
  "is_rpc_sync_gap (IndexerRpc (RpcSyncGap _)) \<longleftrightarrow> True"
| "is_rpc_sync_gap _ \<longleftrightarrow> False"

text \<open>\<open>Inl None\<close> is the error \<open>RPC_SYNC_GAP\<close>; the stored address of the bootnode is an argument.\<close>

definition bootnode_check ::
  "rpc_service \<Rightarrow> nat \<Rightarrow> contract_config \<Rightarrow> string option \<Rightarrow> string option \<Rightarrow> storage \<Rightarrow> indexer_error option + string option" where
  "bootnode_check svc t config bootnode_url stored_url s =
    (case indexer_init svc t config s of
       Inr _ \<Rightarrow> Inr None
     | Inl e \<Rightarrow>
         if is_rpc_sync_gap e then
           (case (case bootnode_url of Some u \<Rightarrow> Some u | None \<Rightarrow> stored_url) of
              Some url \<Rightarrow> Inr (Some url)
            | None \<Rightarrow> Inl None)
         else Inl (Some e))"

text \<open>
  The control states of \<open>events_listener\<close>: before the first \<open>Indexer::init\<close>, in the loop over the bootnode, on the
  way back to the wallet's RPC, in the main loop, and returned. A step runs to the next pause of the loop.
\<close>

datatype listener = Starting | OnBootnode indexer | BackToRpc | Listening indexer | Stopped

fun listener_step ::
  "rpc_service \<Rightarrow> rpc_service option \<Rightarrow> contract_config \<Rightarrow> nat \<Rightarrow> listener \<Rightarrow> storage \<Rightarrow> listener \<times> storage" where
  "listener_step wallet bootnode config t Starting s =
    (if min_deployment_ledger config = None then (Stopped, s)
     else case indexer_init wallet t config s of
       Inr ixr \<Rightarrow> (Listening ixr, s)
     | Inl e \<Rightarrow>
         if \<not> is_rpc_sync_gap e then (Stopped, s)
         else case bootnode of
           None \<Rightarrow> (Stopped, s)
         | Some b \<Rightarrow>
             (case clear_indexing_cursors s of
                (Inl _, s) \<Rightarrow> (Stopped, s)
              | (Inr _, s) \<Rightarrow>
                  (case indexer_init b (Suc t) config s of
                     Inr ixr \<Rightarrow> (OnBootnode ixr, s)
                   | Inl e \<Rightarrow> if is_retention_handoff_err e then (BackToRpc, s) else (Stopped, s))))"
| "listener_step wallet bootnode config t (OnBootnode ixr) s =
    (case bootnode of
       None \<Rightarrow> (Stopped, s)
     | Some b \<Rightarrow>
       (case fetch_contract_events b t ixr s of
          (Inr _, s) \<Rightarrow> (OnBootnode ixr, s)
        | (Inl e, s) \<Rightarrow>
            if is_retention_handoff_err e then
              (case clear_indexing_cursors s of (Inl _, s) \<Rightarrow> (OnBootnode ixr, s) | (Inr _, s) \<Rightarrow> (BackToRpc, s))
            else (OnBootnode ixr, s)))"
| "listener_step wallet bootnode config t BackToRpc s =
    (case indexer_init wallet t config s of Inr ixr \<Rightarrow> (Listening ixr, s) | Inl _ \<Rightarrow> (Stopped, s))"
| "listener_step wallet bootnode config t (Listening ixr) s =
    (case fetch_contract_events wallet t ixr s of (_, s) \<Rightarrow> (Listening ixr, s))"
| "listener_step wallet bootnode config t Stopped s = (Stopped, s)"

section \<open>Interleaving\<close>

text \<open>
  The indexer and the storage worker run concurrently: between two awaits of a round the worker may serve other
  requests. The program counter of a round: idle; about to ask for a page; holding a page; having saved its events.
  The listener clears the stored cursors only when it has a bootnode: \<open>resets\<close> says whether it may.
\<close>

datatype indexer_pc =
    Idle
  | Fetching nat nat "string option"
  | Received nat nat string "rpc_event list" nat
  | SavedEvents nat nat string "rpc_event list" nat

inductive indexer_step :: "bool \<Rightarrow> rpc_service set \<Rightarrow> indexer \<Rightarrow> indexer_pc \<times> storage \<Rightarrow> indexer_pc \<times> storage \<Rightarrow> bool"
  for resets svcs ixr where
  step_round: "get_sync_metadata s = Inr sync \<Longrightarrow> resume_point ixr sync = (start_ledger, cursor) \<Longrightarrow>
    indexer_step resets svcs ixr (Idle, s) (Fetching MAX_PAGES_PER_ROUND start_ledger cursor, s)"
| step_fetch: "svc \<in> svcs \<Longrightarrow>
    get_contract_events svc t (ixr_contract_ids ixr) start_ledger PAGE_SIZE cursor = Inr (Some new_cursor, events, latest) \<Longrightarrow>
    indexer_step resets svcs ixr (Fetching (Suc pages) start_ledger cursor, s) (Received pages start_ledger new_cursor events latest, s)"
| step_events: "save_events_batch (page_data new_cursor events latest) s = (Inr (), s') \<Longrightarrow>
    indexer_step resets svcs ixr (Received pages start_ledger new_cursor events latest, s)
      (SavedEvents pages start_ledger new_cursor events latest, s')"
| step_progress: "save_sync_progress (page_progress ixr new_cursor events latest) (events = []) s = (Inr (), s') \<Longrightarrow>
    indexer_step resets svcs ixr (SavedEvents pages start_ledger new_cursor events latest, s)
      (if events = [] then Idle else Fetching pages start_ledger (Some new_cursor), s')"
| step_give_up: "indexer_step resets svcs ixr (pc, s) (Idle, s)"
| step_clear: "resets \<Longrightarrow> clear_indexing_cursors s = (r, s') \<Longrightarrow> indexer_step resets svcs ixr (Idle, s) (Idle, s')"

text \<open>The other requests that the storage worker serves.\<close>

inductive worker_step :: "stellar_env \<Rightarrow> derive_note_fn \<Rightarrow> storage \<Rightarrow> storage \<Rightarrow> bool" for S D where
  work_keys: "keys_stable address \<lparr> sk_note_keypair = nk, sk_encryption_keypair = ek, sk_membership_blinding = mb \<rparr> s \<Longrightarrow>
    save_encryption_and_note_keypairs address nk ek mb s = (r, s') \<Longrightarrow> worker_step S D s s'"
| work_disclaimer: "get_disclaimer_state body hash address s = (q, s') \<Longrightarrow> worker_step S D s s'"
| work_accept: "accept_current_disclaimer hash now address h2 s = (r, s') \<Longrightarrow> worker_step S D s s'"
| work_setting: "set_bootnode_setting to_string enabled url s = (r, s') \<Longrightarrow> worker_step S D s s'"
| work_operation: "insert_operation now address pool kind amount direction counterparty tx_hash s = (r, s') \<Longrightarrow> worker_step S D s s'"
| work_events: "process_events S limit s = (b, s') \<Longrightarrow> worker_step S D s s'"
| work_notes: "process_notes limit D s = (b, s') \<Longrightarrow> worker_step S D s s'"

inductive client_reach ::
  "stellar_env \<Rightarrow> derive_note_fn \<Rightarrow> bool \<Rightarrow> rpc_service set \<Rightarrow> indexer \<Rightarrow> indexer_pc \<times> storage \<Rightarrow> bool"
  for S D resets svcs ixr where
  client_start: "client_reach S D resets svcs ixr (Idle, empty_storage)"
| client_indexer: "client_reach S D resets svcs ixr c \<Longrightarrow> indexer_step resets svcs ixr c c' \<Longrightarrow> client_reach S D resets svcs ixr c'"
| client_worker: "client_reach S D resets svcs ixr (pc, s) \<Longrightarrow> worker_step S D s s' \<Longrightarrow> client_reach S D resets svcs ixr (pc, s')"

lemma save_batch_ok: "save_events_batch data s = (Inr (), fold save_event (ed_events data) s)"
  by (simp add: save_events_batch_def transaction_def)

lemma save_progress_ok: "save_sync_progress metadata fully s = (Inr (), fold (save_progress fully) metadata s)"
  by (simp add: save_sync_progress_def transaction_def)

text \<open>A sequential run of a round is a sequence of steps.\<close>

lemma fetch_pages_steps:
  assumes "svc \<in> svcs" and "fetch_pages svc ixr start_ledger pages t cursor s = (r, s')"
  shows "(indexer_step resets svcs ixr)\<^sup>*\<^sup>* (Fetching pages start_ledger cursor, s) (Idle, s')"
  using assms(2)
proof (induction pages arbitrary: t cursor s)
  case 0
  then show ?case by (auto intro: r_into_rtranclp step_give_up)
next
  case (Suc pages)
  let ?get = "get_contract_events svc t (ixr_contract_ids ixr) start_ledger PAGE_SIZE cursor"
  show ?case
  proof (cases "\<exists>k es latest. ?get = Inr (Some k, es, latest)")
    case False
    then have "s' = s" using Suc.prems by (auto split: sum.splits rpc_error.splits option.splits)
    then show ?thesis by (auto intro: r_into_rtranclp step_give_up)
  next
    case True
    then obtain k es latest where get: "?get = Inr (Some k, es, latest)" by blast
    let ?s1 = "fold save_event (ed_events (page_data k es latest)) s"
    let ?s2 = "fold (save_progress (es = [])) (page_progress ixr k es latest) ?s1"
    have "(indexer_step resets svcs ixr)\<^sup>*\<^sup>* (Fetching (Suc pages) start_ledger cursor, s) (Received pages start_ledger k es latest, s)"
      by (intro r_into_rtranclp, rule step_fetch [OF assms(1) get])
    also have "indexer_step resets svcs ixr \<dots> (SavedEvents pages start_ledger k es latest, ?s1)"
      by (rule step_events) (rule save_batch_ok)
    also have "indexer_step resets svcs ixr \<dots> (if es = [] then Idle else Fetching pages start_ledger (Some k), ?s2)"
      by (rule step_progress) (rule save_progress_ok)
    finally show ?thesis
      using Suc.prems get Suc.IH [of "Suc t" "Some k" ?s2]
      by (auto simp: save_batch_ok save_progress_ok split: if_splits)
  qed
qed

lemma fetch_round_steps:
  assumes "svc \<in> svcs" and "fetch_contract_events svc t ixr s = (r, s')"
  shows "(indexer_step resets svcs ixr)\<^sup>*\<^sup>* (Idle, s) (Idle, s')"
proof (cases "svc_get_latest_ledger svc t")
  case Inl
  then show ?thesis using assms(2) by (simp add: fetch_contract_events_def)
next
  case tip: (Inr tip)
  show ?thesis
  proof (cases "get_sync_metadata s")
    case (Inl e)
    then show ?thesis using assms(2) tip by (simp add: fetch_contract_events_def)
  next
    case (Inr sync)
    obtain l c where resume: "resume_point ixr sync = (l, c)" by fastforce
    have "indexer_step resets svcs ixr (Idle, s) (Fetching MAX_PAGES_PER_ROUND l c, s)" by (rule step_round [OF Inr resume])
    also have "(indexer_step resets svcs ixr)\<^sup>*\<^sup>* \<dots> (Idle, s')"
      by (rule fetch_pages_steps [OF assms(1)]) (use assms(2) tip Inr resume in \<open>simp add: fetch_contract_events_def\<close>)
    finally show ?thesis .
  qed
qed

definition listener_indexer :: "listener \<Rightarrow> indexer option" where
  "listener_indexer l = (case l of OnBootnode ixr \<Rightarrow> Some ixr | Listening ixr \<Rightarrow> Some ixr | _ \<Rightarrow> None)"

definition config_indexer :: "contract_config \<Rightarrow> indexer" where
  "config_indexer config = \<lparr> ixr_contract_ids = all_contract_ids config, ixr_min_pool_ledger = the (min_deployment_ledger config) \<rparr>"

lemma indexer_init_result:
  assumes "indexer_init svc t config s = Inr ixr"
  shows "ixr = config_indexer config"
proof -
  obtain m sync where m: "min_deployment_ledger config = Some m" and sync: "get_sync_metadata s = Inr sync"
    using assms
    by (cases "min_deployment_ledger config"; cases "get_sync_metadata s") (simp_all add: indexer_init_def Let_def)
  then show ?thesis
    using assms by (auto simp: indexer_init_def config_indexer_def Let_def split: sum.split_asm rpc_error.split_asm)
qed

text \<open>
  Every step of the listener is a sequence of steps of the one indexer of the configuration; without a bootnode it
  needs no step that clears the cursors.
\<close>

lemma listener_step_refines:
  assumes "listener_step wallet bootnode config t l s = (l', s')"
    and "\<forall>ixr. listener_indexer l = Some ixr \<longrightarrow> ixr = config_indexer config"
    and "wallet \<in> svcs" and "\<forall>b. bootnode = Some b \<longrightarrow> b \<in> svcs \<and> resets"
  shows "(indexer_step resets svcs (config_indexer config))\<^sup>*\<^sup>* (Idle, s) (Idle, s')"
    and "\<forall>ixr. listener_indexer l' = Some ixr \<longrightarrow> ixr = config_indexer config"
proof -
  let ?R = "(indexer_step resets svcs (config_indexer config))\<^sup>*\<^sup>*"
  have clear: "?R (Idle, u) (Idle, v)" if "clear_indexing_cursors u = (r, v)" "bootnode \<noteq> None" for u v r
    using that assms(4) by (auto intro: r_into_rtranclp step_clear)
  have round: "?R (Idle, u) (Idle, v)" if "fetch_contract_events svc t (config_indexer config) u = (r, v)" "svc \<in> svcs" for svc u v r t
    by (rule fetch_round_steps [OF that(2,1)])
  have "?R (Idle, s) (Idle, s') \<and> (\<forall>ixr. listener_indexer l' = Some ixr \<longrightarrow> ixr = config_indexer config)"
  proof (cases l)
    case Starting
    then show ?thesis
      using assms clear
      by (auto simp: listener_indexer_def split: if_splits sum.splits option.splits prod.splits dest!: indexer_init_result)
  next
    case (OnBootnode ixr)
    then have ixr: "ixr = config_indexer config" using assms(2) by (simp add: listener_indexer_def)
    show ?thesis
    proof (cases bootnode)
      case None
      then show ?thesis using assms(1) OnBootnode by (auto simp: listener_indexer_def)
    next
      case (Some b)
      obtain r u where fetch: "fetch_contract_events b t ixr s = (r, u)" by fastforce
      have "?R (Idle, s) (Idle, u)" using round fetch ixr assms(4) Some by blast
      moreover have "?R (Idle, u) (Idle, s') \<and> (listener_indexer l' = Some ixr \<or> listener_indexer l' = None)"
        using assms(1) OnBootnode Some fetch clear
        by (auto simp: listener_indexer_def split: sum.splits if_splits prod.splits)
      ultimately show ?thesis using ixr by (auto intro: rtranclp_trans)
    qed
  next
    case BackToRpc
    then show ?thesis using assms(1) by (auto simp: listener_indexer_def split: sum.splits dest!: indexer_init_result)
  next
    case (Listening ixr)
    then have ixr: "ixr = config_indexer config" using assms(2) by (simp add: listener_indexer_def)
    then show ?thesis using assms(1,3) Listening round by (auto simp: listener_indexer_def split: prod.splits)
  next
    case Stopped
    then show ?thesis using assms(1) by (auto simp: listener_indexer_def)
  qed
  then show "?R (Idle, s) (Idle, s')" "\<forall>ixr. listener_indexer l' = Some ixr \<longrightarrow> ixr = config_indexer config" by blast+
qed

lemma worker_storage_reach:
  assumes "storage_reach S D s" and "worker_step S D s s'"
  shows "storage_reach S D s'"
  using assms(2)
proof cases
  case (work_keys address nk ek mb r)
  then show ?thesis by (rule reach_keys [OF assms(1)])
next
  case (work_disclaimer body hash address q)
  then show ?thesis by (rule reach_disclaimer [OF assms(1)])
next
  case (work_accept hash now address h2 r)
  then show ?thesis by (rule reach_accept [OF assms(1)])
next
  case (work_setting to_string enabled url r)
  then show ?thesis by (rule reach_setting [OF assms(1)])
next
  case (work_operation now address pool kind amount direction counterparty tx_hash r)
  then show ?thesis by (rule reach_operation [OF assms(1)])
next
  case (work_events limit b)
  then show ?thesis by (rule reach_process_events [OF assms(1)])
next
  case (work_notes limit b)
  then show ?thesis by (rule reach_process_notes [OF assms(1)])
qed

end
