(* ===== verification/Storage_Properties.thy ===== *)
theory Storage_Properties
  imports Storage_History Contract_Calls
begin

text \<open>
  Properties of the local database that span its components: the derived tables refine the log of events, the
  wallet is complete when scan and reconciliation rest, and a repeated commitment keeps the worker from
  ending. A sample history serves the witnesses.
\<close>

section \<open>Derived tables and stored events\<close>

lemma processed_ids_iff: "i \<in> set (processed_ids s) \<longleftrightarrow> i \<in> processed_id ` derived_events s"
  by (auto simp: processed_ids_def derived_events_def event_of_defs image_Un image_image)

lemma nothing_unprocessed:
  assumes "get_unprocessed_events limit s = Inr []" and "0 < limit" and "directory_ok s" and "r \<in> set (db_raw s)"
  shows "raw_id r \<in> processed_id ` derived_events s"
proof (rule ccontr)
  assume n: "raw_id r \<notin> processed_id ` derived_events s"
  obtain e where e: "event_of_raw s r = Some e" using event_of_raw_exists [OF assms(3,4)] by blast
  let ?xs = "List.map_filter (event_of_raw s) (sort_key (\<lambda>r. (raw_ledger r, raw_id r))
      (filter (\<lambda>r. raw_id r \<notin> set (processed_ids s)) (db_raw s)))"
  have "take limit ?xs = []"
    using length_map_ok [OF assms(1) [unfolded get_unprocessed_events_def]] by (metis length_0_conv list.size(3))
  then have "?xs = []" using assms(2) by simp
  moreover have "e \<in> set ?xs" using n assms(4) e by (auto simp: map_filter_def processed_ids_iff image_iff)
  ultimately show False by simp
qed

lemma parsed_from_unique:
  assumes "directory_ok s" and "parsed_from S s p" and "parsed_from S s q" and "processed_id p = processed_id q"
  shows "p = q"
proof -
  obtain r e r' e' where *: "r \<in> set (db_raw s)" "event_of_raw s r = Some e" "parse_event S e = Inr p"
    "r' \<in> set (db_raw s)" "event_of_raw s r' = Some e'" "parse_event S e' = Inr q"
    using assms(2,3) unfolding parsed_from_def by blast
  then have "raw_id r = raw_id r'" using assms(4) parse_event_id event_of_raw_id by metis
  then have "r = r'" using assms(1) *(1,4) by (auto simp: directory_ok_def distinct_map inj_on_def)
  then show ?thesis using * by simp
qed

lemma derived_events_exact:
  assumes "storage_reach S D s" and "get_unprocessed_events limit s = Inr []" and "0 < limit"
  shows "derived_events s = {p. parsed_from S s p}"
proof -
  have h: "provenance S s" "directory_ok s"
    using history_invariant [OF assms(1)] history_ok_base(2) by (auto simp: history_ok_def)
  show ?thesis
  proof (intro equalityI subsetI CollectI)
    fix p assume "p \<in> derived_events s"
    then show "parsed_from S s p" using h(1) by (simp add: provenance_def)
  next
    fix p assume "p \<in> {p. parsed_from S s p}"
    then have p: "parsed_from S s p" by simp
    then obtain r e where r: "r \<in> set (db_raw s)" "event_of_raw s r = Some e" "parse_event S e = Inr p"
      unfolding parsed_from_def by blast
    obtain q where q: "q \<in> derived_events s" "raw_id r = processed_id q"
      using nothing_unprocessed [OF assms(2,3) h(2) r(1)] by blast
    then have "processed_id p = processed_id q" using r parse_event_id event_of_raw_id by metis
    then have "p = q" using parsed_from_unique [OF h(2) p] q(1) h(1) by (simp add: provenance_def)
    then show "p \<in> derived_events s" using q(1) by simp
  qed
qed

section \<open>Ordered leaves\<close>

lemma mset_visited:
  assumes "plan_ok plan"
  shows "mset (visited plan xs) = mset xs"
proof -
  have "mset (visited plan xs) = image_mset ((!) xs) (mset (plan (length xs)))" by (simp add: visited_def)
  also have "\<dots> = image_mset ((!) xs) (mset [0..<length xs])" using assms by (simp add: plan_ok_def)
  also have "\<dots> = mset (map ((!) xs) [0..<length xs])" by simp
  finally show ?thesis by (simp add: map_nth)
qed

lemma collect_ordered_zip:
  assumes "n + length ls < 2 ^ 32"
  shows "collect_ordered (zip [n..<n + length ls] ls) n = Inr ls"
  using assms
proof (induction ls arbitrary: n)
  case (Cons l ls)
  have "[n..<n + length (l # ls)] = n # [Suc n..<Suc n + length ls]" using upt_conv_Cons [of n "n + length (l # ls)"] by simp
  then show ?case using Cons.IH [of "Suc n"] Cons.prems by (simp add: col_u32_def nat_checked_add_def)
qed simp

lemma collect_ordered_Inr:
  assumes "collect_ordered rows n = Inr ls"
  shows "rows = zip [n..<n + length ls] ls" and "ls = [] \<or> n + length ls < 2 ^ 32"
proof -
  have "rows = zip [n..<n + length ls] ls \<and> (ls = [] \<or> n + length ls < 2 ^ 32)"
    using assms
  proof (induction rows n arbitrary: ls rule: collect_ordered.induct)
    case (2 idx leaf rows n)
    then obtain ls' where ls': "idx = n" "n + 1 < 2 ^ 32" "collect_ordered rows (n + 1) = Inr ls'" "ls = leaf # ls'"
      by (auto simp: outcome_simps col_u32_def nat_checked_add_def split: if_splits)
    have "rows = zip [n + 1..<n + 1 + length ls'] ls' \<and> (ls' = [] \<or> n + 1 + length ls' < 2 ^ 32)"
      by (rule "2.IH") (use 2 ls' in \<open>auto simp: col_u32_def nat_checked_add_def\<close>)
    moreover have "[n..<n + length ls] = n # [Suc n..<Suc n + length ls']" using ls' upt_conv_Cons [of n "n + length ls"] by simp
    ultimately show ?case using ls' by auto
  qed simp
  then show "rows = zip [n..<n + length ls] ls" "ls = [] \<or> n + length ls < 2 ^ 32" by auto
qed

lemma sorted_pairs_unique:
  assumes "sorted (map fst ys)" and "mset ys = mset (zip [0..<length ls] ls)"
  shows "ys = zip [0..<length ls] ls"
proof -
  have len: "length ys = length ls" using mset_eq_length [OF assms(2)] by simp
  have "mset (map fst ys) = mset (map fst (zip [0..<length ls] ls))" using assms(2) by (metis mset_map)
  then have "mset (map fst ys) = mset [0..<length ls]" by simp
  then have fst: "map fst ys = [0..<length ls]"
    using properties_for_sort [OF _ assms(1)] properties_for_sort [OF refl sorted_upt] by metis
  show ?thesis
  proof (rule nth_equalityI)
    fix i assume i: "i < length ys"
    then have "ys ! i \<in> set (zip [0..<length ls] ls)" using assms(2) by (metis nth_mem set_mset_mset)
    then obtain j where "j < length ls" "ys ! i = (j, ls ! j)" by (auto simp: set_zip)
    moreover have "fst (ys ! i) = i" using fst i len by (metis add_0 nth_map nth_upt)
    ultimately show "ys ! i = zip [0..<length ls] ls ! i" by simp
  qed (simp add: len)
qed

text \<open>The readers return exactly the leaves when the stored indices are \<open>0\<close> to \<open>n - 1\<close>, in any stored order.\<close>

lemma collect_sorted:
  assumes "mset rows = mset rows'" and "\<And>r. pair r = (idx r, leaf r)"
  shows "collect_ordered (map pair (sort_key idx rows)) 0 = Inr ls \<longleftrightarrow>
    mset (map pair rows') = mset (zip [0..<length ls] ls) \<and> (ls = [] \<or> length ls < 2 ^ 32)"
    (is "?L \<longleftrightarrow> ?R")
proof
  have m: "mset (map pair (sort_key idx rows)) = mset (map pair rows')" using assms(1) by (simp add: mset_map)
  have "map fst (map pair (sort_key idx rows)) = map idx (sort_key idx rows)" using assms(2) by simp
  then have s: "sorted (map fst (map pair (sort_key idx rows)))" by (simp only: sorted_sort_key)
  show ?R if ?L
    using collect_ordered_Inr [OF that] m by simp
  show ?L if ?R
  proof -
    have "map pair (sort_key idx rows) = zip [0..<length ls] ls"
      by (rule sorted_pairs_unique [OF s]) (use that m in simp)
    then show ?thesis using collect_ordered_zip [of 0 ls] that by auto
  qed
qed

lemma pool_leaves_iff:
  assumes "plan_ok plan"
  shows "get_pool_commitment_leaves_ordered plan pool s = Inr ls \<longleftrightarrow>
    mset (map (\<lambda>c. (cm_leaf_index c, cm_commitment c))
      (filter (\<lambda>c. event_address s (cm_event c) = Some pool) (db_commitments s))) = mset (zip [0..<length ls] ls) \<and>
    (ls = [] \<or> length ls < 2 ^ 32)"
  unfolding get_pool_commitment_leaves_ordered_def order_by_def
  by (rule collect_sorted [OF mset_visited [OF assms]]) simp

lemma asp_leaves_iff:
  "get_all_asp_membership_leaves_ordered contract s = Inr ls \<longleftrightarrow>
    mset (map (\<lambda>l. (al_index l, al_leaf l))
      (filter (\<lambda>l. event_address s (al_event l) = Some contract) (db_asp_leaves s))) = mset (zip [0..<length ls] ls) \<and>
    (ls = [] \<or> length ls < 2 ^ 32)"
  unfolding get_all_asp_membership_leaves_ordered_def by (rule collect_sorted) simp_all

section \<open>The wallet\<close>

lemma event_contract_known:
  assumes "base_ok s"
  shows "c \<in> set (db_commitments s) \<Longrightarrow> \<exists>p. event_contract s (cm_event c) = Some p"
    and "m \<in> set (db_nullifiers s) \<Longrightarrow> \<exists>p. event_contract s (nl_event m) = Some p"
proof -
  have ex: "\<exists>p. event_contract s eid = Some p" if "eid \<in> raw_id ` set (db_raw s)" for eid
    using that row_by_None_iff [of raw_id "db_raw s" eid] by (auto simp: event_contract_def event_row_def)
  have ok: "events_ok s" using assms by (simp add: base_ok_def)
  show "c \<in> set (db_commitments s) \<Longrightarrow> \<exists>p. event_contract s (cm_event c) = Some p"
    by (rule ex, rule event_in_raw(1) [OF ok])
  show "m \<in> set (db_nullifiers s) \<Longrightarrow> \<exists>p. event_contract s (nl_event m) = Some p"
    by (rule ex, rule event_in_raw(2) [OF ok])
qed

lemma reconcile_idle_notes:
  assumes "reconcile_nullifiers limit s = (Inr False, s')" and "0 < limit" and "wallet_ok D s" and "events_ok s"
  shows "db_user_notes s' = db_user_notes s"
proof (cases "pool_ids_of s (map nl_event (db_nullifiers s)) = []")
  case True
  then show ?thesis using assms(1,2) by (simp add: reconcile_nullifiers_def)
next
  case False
  then have "reconcile_pools limit (pool_ids_of s (map nl_event (db_nullifiers s))) False s = (Inr False, s')"
    using assms(1,2) by (simp add: reconcile_nullifiers_def)
  then show ?thesis using reconcile_pools_idle [OF _ assms(2-4)] by blast
qed

lemma process_notes_idle:
  assumes "process_notes limit D s = (Inr False, s')" and "0 < limit" and "storage_ok D s"
  shows "a \<in> set (get_accounts_with_latest_keypairs s) \<Longrightarrow> c \<in> set (db_commitments s) \<Longrightarrow>
      D a (pool_row c) = Inr (Some d) \<Longrightarrow> found s' c d"
    and "n \<in> set (db_user_notes s') \<Longrightarrow> c \<in> set (db_commitments s) \<Longrightarrow> cm_id c = un_commitment n \<Longrightarrow>
      un_nullifier n \<noteq> None \<longleftrightarrow> (\<exists>m\<in>set (db_nullifiers s). nl_nullifier m = un_expected n \<and> same_pool s c m)"
    and "storage_ok D s'" and "db_commitments s' = db_commitments s" and "db_keypairs s' = db_keypairs s"
proof -
  have ok: "wallet_ok D s" "events_ok s" "base_ok s" using assms(3) by (simp_all add: storage_ok_def base_ok_def)
  from assms(1) obtain t where t: "scan_commitments_for_user_notes limit D s = (Inr False, t)"
    "reconcile_nullifiers limit t = (Inr False, s')"
    unfolding process_notes_def by (elim and_then_cases) auto
  note scan = scan_commitments_ok [OF t(1) ok(1,2)]
  note ft = scan_frameD [OF scan(2)]
  have et: "events_ok t" "base_ok t" using ok by (simp_all add: ft)
  note rec = reconcile_nullifiers_ok [OF t(2) scan(1) et(1)]
  note fs = rec_frameD [OF rec(2)]
  have same_notes: "db_user_notes s' = db_user_notes t" by (rule reconcile_idle_notes [OF t(2) assms(2) scan(1) et(1)])
  show "storage_ok D s'" using rec(1) ok(3) by (simp add: storage_ok_def fs ft)
  show "db_commitments s' = db_commitments s" "db_keypairs s' = db_keypairs s" by (simp_all add: fs ft)
  show "found s' c d" if h: "a \<in> set (get_accounts_with_latest_keypairs s)" "c \<in> set (db_commitments s)" "D a (pool_row c) = Inr (Some d)"
  proof -
    obtain p where p: "event_contract s (cm_event c) = Some p" using event_contract_known(1) [OF ok(3) h(2)] by blast
    have "caught_up t p a" by (rule scan_idle [OF t(1) assms(2) ok(1,2) h(1,2) p])
    then obtain r where r: "r \<in> set (db_commitment_scan t)" "cs_pool r = p" "cs_account r = ak_account a"
      "cm_id c \<le> cs_last r" using h(2) p by (auto simp: caught_up_def ft)
    obtain k where k: "k \<in> set (db_keypairs s)" "kp_account k = Some (ak_account a)" "a = account_keys_of (ak_account a) k"
      using latest_keypair_valid [OF h(1)] by (auto simp: valid_account_def)
    have "scanned D t p (ak_account a) c" using wallet_okD(2) [OF scan(1) r(1)] r h(2) by (auto simp: mark_ok_def ft)
    then have "found t c d" using k p h(3) unfolding scanned_def ft by metis
    then show ?thesis by (simp add: found_def same_notes)
  qed
  show "un_nullifier n \<noteq> None \<longleftrightarrow> (\<exists>m\<in>set (db_nullifiers s). nl_nullifier m = un_expected n \<and> same_pool s c m)"
    if n: "n \<in> set (db_user_notes s')" and c: "c \<in> set (db_commitments s)" "cm_id c = un_commitment n"
    using wallet_okD(1) [OF rec(1) n]
  proof (rule note_okE)
    fix c' assume c': "c' \<in> set (db_commitments s')" "cm_id c' = un_commitment n" "spent_ok s' c' n"
    have "c' = c" using commitment_unique [OF ok(2) c(1), of c'] c' c by (simp add: fs ft)
    have sp: "same_pool s' c m = same_pool s c m" for m by (simp add: same_pool_def fs ft)
    show ?thesis
    proof (cases "un_nullifier n")
      case None
      have False if m: "m \<in> set (db_nullifiers s)" "nl_nullifier m = un_expected n" "same_pool s c m" for m
      proof -
        obtain p where p: "event_contract s (nl_event m) = Some p" using event_contract_known(2) [OF ok(3) m(1)] by blast
        have "reconciled s' p"
          by (rule reconcile_idle(1) [OF t(2) assms(2) scan(1) et(1), of m]) (use m(1) p in \<open>simp_all add: ft\<close>)
        then obtain r where r: "r \<in> set (db_nullifier_scan s')" "ns_pool r = p" "nl_id m \<le> ns_last r"
          using m(1) p by (auto simp: reconciled_def fs ft)
        have "ns_last r < nl_id m"
          using c'(3) None m p r(1,2) sp by (simp add: spent_ok_def \<open>c' = c\<close> fs ft same_pool_def)
        then show False using r(3) by simp
      qed
      then show ?thesis using None by blast
    next
      case (Some i)
      then show ?thesis using c'(3) sp by (auto simp: spent_ok_def \<open>c' = c\<close> fs ft)
    qed
  qed
qed

text \<open>
  C32: The wallet is complete and exact once processing comes to rest. When a run of the note processor on any
  reachable database reports no further work, every commitment that the keys of an account can derive has
  its note (the exception being a second note with the same nullifier), every note belongs to exactly one
  stored commitment, from which the keys of its account derive its amount, blinding and nullifier, and a
  note is marked as spent exactly when its nullifier was seen in its own pool.
\<close>

theorem wallet_complete:
  assumes "storage_reach S D s" and "process_notes limit D s = (Inr False, s')" and "0 < limit"
  shows "(\<forall>a\<in>set (get_accounts_with_latest_keypairs s). \<forall>c\<in>set (db_commitments s). \<forall>d.
      D a (pool_row c) = Inr (Some d) \<longrightarrow>
      (\<exists>n\<in>set (db_user_notes s'). un_commitment n = cm_id c \<or> un_expected n = dn_expected_nullifier d)) \<and>
    (\<forall>n\<in>set (db_user_notes s'). \<exists>!c. c \<in> set (db_commitments s) \<and> cm_id c = un_commitment n \<and>
      cm_commitment c = un_id n \<and>
      (\<exists>k\<in>set (db_keypairs s). kp_account k = Some (un_account n) \<and>
        D (account_keys_of (un_account n) k) (pool_row c) = Inr (Some (derived_of n))) \<and>
      (un_nullifier n \<noteq> None \<longleftrightarrow>
        (\<exists>m\<in>set (db_nullifiers s). nl_nullifier m = un_expected n \<and> same_pool s c m)))"
proof -
  have ok: "storage_ok D s" using history_invariant [OF assms(1)] by (simp add: history_ok_def)
  note idle = process_notes_idle [OF assms(2,3) ok]
  have ev: "events_ok s" using ok by (simp add: storage_ok_def base_ok_def)
  have "\<exists>!c. c \<in> set (db_commitments s) \<and> cm_id c = un_commitment n \<and> cm_commitment c = un_id n \<and>
      (\<exists>k\<in>set (db_keypairs s). kp_account k = Some (un_account n) \<and>
        D (account_keys_of (un_account n) k) (pool_row c) = Inr (Some (derived_of n))) \<and>
      (un_nullifier n \<noteq> None \<longleftrightarrow> (\<exists>m\<in>set (db_nullifiers s). nl_nullifier m = un_expected n \<and> same_pool s c m))"
    if n: "n \<in> set (db_user_notes s')" for n
  proof -
    have "wallet_ok D s'" using idle(3) by (simp add: storage_ok_def)
    from wallet_okD(1) [OF this n] show ?thesis
    proof (rule note_okE)
      fix c k
      assume c: "c \<in> set (db_commitments s')" "cm_id c = un_commitment n" "cm_commitment c = un_id n"
        "k \<in> set (db_keypairs s')" "kp_account k = Some (un_account n)"
        "D (account_keys_of (un_account n) k) (pool_row c) = Inr (Some (derived_of n))"
      then have "c \<in> set (db_commitments s)" by (simp add: idle(4))
      then show ?thesis
        using c idle(2) [OF n] idle(5) commitment_unique [OF ev] by (intro ex1I [of _ c]) auto
    qed
  qed
  then show ?thesis using idle(1) unfolding found_def by blast
qed

section \<open>A sample history\<close>

definition sample_log :: stellar_env where
  "sample_log = \<lparr> parse_address = (\<lambda>s. None), account_to_string = (\<lambda>b. []), contract_to_string = (\<lambda>b. []),
     to_xdr = (\<lambda>v. None),
     from_xdr_base64 = (\<lambda>t. if t = ''C'' then Some (ScSymbol ''new_commitment_event'')
       else if t = ''N'' then Some (ScSymbol ''new_nullifier_event'')
       else if t = ''5'' then Some (u256_to_scval 31)
       else if t = ''6'' then Some (u256_to_scval 32)
       else if t = ''8'' then Some (u256_to_scval 22)
       else if t = ''9'' then Some (u256_to_scval 21)
       else if t = ''v0'' then Some (ScMap (Some [(ScSymbol ''encrypted_output'', ScBytes [1]), (ScSymbol ''index'', ScU32 0)]))
       else if t = ''v1'' then Some (ScMap (Some [(ScSymbol ''encrypted_output'', ScBytes [2]), (ScSymbol ''index'', ScU32 1)]))
       else Some ScVoid), keccak256 = (\<lambda>b. b) \<rparr>"

definition sample_derive :: derive_note_fn where
  "sample_derive a row = Inr (if pc_leaf_index row = 0 then
      Some \<lparr> dn_amount = NoteAmount 7, dn_blinding = Field 1, dn_expected_nullifier = Field 21 \<rparr> else None)"

definition sample_batch :: contracts_event_data where
  "sample_batch = \<lparr> ed_events =
     [\<lparr> ce_id = ''e1'', ce_ledger = 3, ce_contract_id = ''pool'', ce_topics = [''N'', ''9''], ce_value = ''z'' \<rparr>,
      \<lparr> ce_id = ''e2'', ce_ledger = 3, ce_contract_id = ''pool'', ce_topics = [''N'', ''8''], ce_value = ''z'' \<rparr>,
      \<lparr> ce_id = ''e3'', ce_ledger = 3, ce_contract_id = ''pool'', ce_topics = [''C'', ''5''], ce_value = ''v0'' \<rparr>,
      \<lparr> ce_id = ''e4'', ce_ledger = 3, ce_contract_id = ''pool'', ce_topics = [''C'', ''6''], ce_value = ''v1'' \<rparr>],
     ed_cursor = ''c'', ed_latest_ledger = 3 \<rparr>"

definition sample_keypairs :: "note_key_pair \<times> encryption_key_pair" where
  "sample_keypairs = (\<lparr> note_private = NotePrivateKey [], note_public = NotePublicKey [] \<rparr>,
    \<lparr> encryption_private = EncryptionPrivateKey [], encryption_public = EncryptionPublicKey [] \<rparr>)"

definition db1 :: storage where
  "db1 = snd (save_encryption_and_note_keypairs ''alice'' (fst sample_keypairs) (snd sample_keypairs) (Field 3) empty_storage)"

definition db2 :: storage where
  "db2 = snd (save_events_batch sample_batch db1)"

definition db3 :: storage where
  "db3 = snd (process_events sample_log 50 db2)"

definition db4 :: storage where
  "db4 = snd (process_notes 4 sample_derive db3)"

lemmas db_simps = transaction_def row_by_def next_rowid_def Let_def

lemma db1_eq: "db1 = empty_storage\<lparr> db_accounts := [\<lparr> acc_id = 1, acc_address = ''alice'' \<rparr>],
    db_keypairs := [\<lparr> kp_id = 1, kp_keys = \<lparr> sk_note_keypair = fst sample_keypairs,
      sk_encryption_keypair = snd sample_keypairs, sk_membership_blinding = Field 3 \<rparr>, kp_account = Some 1 \<rparr>] \<rparr>"
  by (simp add: db1_def save_encryption_and_note_keypairs_def get_or_create_account_def empty_storage_def db_simps)

lemma db2_eq: "db2 = db1\<lparr> db_contracts := [\<lparr> ct_id = 1, ct_address = ''pool'' \<rparr>], db_raw :=
   [\<lparr> raw_id = ''e1'', raw_ledger = 3, raw_contract = 1, raw_topics = ''N,9'', raw_value = ''z'' \<rparr>,
    \<lparr> raw_id = ''e2'', raw_ledger = 3, raw_contract = 1, raw_topics = ''N,8'', raw_value = ''z'' \<rparr>,
    \<lparr> raw_id = ''e3'', raw_ledger = 3, raw_contract = 1, raw_topics = ''C,5'', raw_value = ''v0'' \<rparr>,
    \<lparr> raw_id = ''e4'', raw_ledger = 3, raw_contract = 1, raw_topics = ''C,6'', raw_value = ''v1'' \<rparr>] \<rparr>"
  by (simp add: db2_def db1_eq save_events_batch_def sample_batch_def save_event_def get_or_create_contract_id_def
      empty_storage_def db_simps)

lemma sample_unprocessed: "get_unprocessed_events 50 db2 = Inr (ed_events sample_batch)"
  by (simp add: get_unprocessed_events_def db2_eq db1_eq empty_storage_def processed_ids_def event_of_raw_def map_filter_simps
      sample_batch_def col_u32_def row_by_def char_less_iff Cons_less_Cons)

lemma small_canonical: "(31 :: u256) < bn256_modulus" "(32 :: u256) < bn256_modulus" "(21 :: u256) < bn256_modulus" "(22 :: u256) < bn256_modulus"
  by (simp_all add: bn256_modulus_eq u256_eval)

lemma sample_parsed: "parsed_events sample_log (rev (ed_events sample_batch)) =
    [Commitment ''e4'' (Field 32) 1 [2], Commitment ''e3'' (Field 31) 0 [1], Nullifier ''e2'' (Field 22), Nullifier ''e1'' (Field 21)]"
proof -
  let ?e = "\<lambda>i. ed_events sample_batch ! i"
  have "pool_event_wire sample_log (NewCommitmentEvent 31 0 [1]) (?e 2)"
    "pool_event_wire sample_log (NewCommitmentEvent 32 1 [2]) (?e 3)" "pool_event_wire sample_log (NewNullifierEvent 21) (?e 0)"
    "pool_event_wire sample_log (NewNullifierEvent 22) (?e 1)"
    by (simp_all add: wire_event_def sample_log_def sample_batch_def)
  then have "parse_event sample_log (?e 2) = Inr (Commitment ''e3'' (Field 31) 0 [1])"
    "parse_event sample_log (?e 3) = Inr (Commitment ''e4'' (Field 32) 1 [2])"
    "parse_event sample_log (?e 0) = Inr (Nullifier ''e1'' (Field 21))"
    "parse_event sample_log (?e 1) = Inr (Nullifier ''e2'' (Field 22))"
    using small_canonical by (simp_all add: pool_events_parse sample_batch_def del: pool_event_wire.simps)
  then show ?thesis by (simp add: sample_batch_def)
qed

lemma db3_eq: "db3 = db2\<lparr> db_nullifiers := [\<lparr> nl_id = 1, nl_nullifier = Field 22, nl_event = ''e2'' \<rparr>,
    \<lparr> nl_id = 2, nl_nullifier = Field 21, nl_event = ''e1'' \<rparr>], db_commitments :=
   [\<lparr> cm_id = 1, cm_commitment = Field 32, cm_leaf_index = 1, cm_encrypted_output = [2], cm_event = ''e4'' \<rparr>,
    \<lparr> cm_id = 2, cm_commitment = Field 31, cm_leaf_index = 0, cm_encrypted_output = [1], cm_event = ''e3'' \<rparr>] \<rparr>"
  unfolding db3_def process_events_def sample_unprocessed sum.case sample_parsed Let_def
  by (simp add: sample_batch_def nullifier_events_def commitment_events_def public_key_events_def leaf_added_events_def
      map_filter_simps save_nullifier_events_batch_def save_commitment_events_batch_def save_public_key_events_batch_def
      save_leaf_added_events_batch_def save_nullifier_def save_commitment_def insert_derived_def db2_eq db1_eq
      empty_storage_def db_simps)

lemmas db_eqs = db3_eq db2_eq db1_eq empty_storage_def
lemmas sample_scan_simps = scan_cycles.simps scan_cycle_def scan_account_def scan_mark_def commitments_after_def ACCOUNT_CHUNK_def
  col_u32_def scan_row_def sample_derive_def insert_note_def nullifier_of_pool_def set_scan_mark_def open_scan_def
  event_contract_def event_row_def row_by_def note_clash_def

lemma sample_accounts:
  "get_accounts_with_latest_keypairs (db3\<lparr> db_user_notes := ns, db_commitment_scan := cs, db_nullifier_scan := ms \<rparr>) =
    [\<lparr> ak_account = 1, ak_keys = kp_keys (hd (db_keypairs db1)) \<rparr>]"
  by (simp add: get_accounts_with_latest_keypairs_def latest_keypair_def db_eqs map_filter_simps)

lemma sample_pools:
  "pool_ids_of (db3\<lparr> db_user_notes := ns, db_commitment_scan := cs, db_nullifier_scan := ms \<rparr>) (map cm_event (db_commitments db3)) = [1]"
  "pool_ids_of (db3\<lparr> db_user_notes := ns, db_commitment_scan := cs, db_nullifier_scan := ms \<rparr>) (map nl_event (db_nullifiers db3)) = [1]"
  by (simp_all add: pool_ids_of_def event_contract_def event_row_def row_by_def db_eqs map_filter_simps)

abbreviation rest_state :: storage where
  "rest_state \<equiv> db3\<lparr> db_user_notes :=
    [\<lparr> un_id = Field 31, un_account = 1, un_commitment = 2, un_nullifier = Some 2, un_expected = Field 21,
       un_blinding = Field 1, un_amount = NoteAmount 7 \<rparr>],
    db_commitment_scan := [\<lparr> cs_pool = 1, cs_account = 1, cs_last = 2 \<rparr>],
    db_nullifier_scan := [\<lparr> ns_pool = 1, ns_last = 2 \<rparr>] \<rparr>"

lemma sample_quota: "pool_quotas 4 (Suc 0) = [4]"
  by (simp add: pool_quotas_def)

lemma sample_scan:
  "scan_pool sample_derive [\<lparr> ak_account = 1, ak_keys = k \<rparr>] 1 4 db3 = Inr (True, rest_state\<lparr> db_nullifier_scan := [] \<rparr>)"
  "scan_pool sample_derive [\<lparr> ak_account = 1, ak_keys = k \<rparr>] 1 4 rest_state = Inr (False, rest_state)"
  by (simp_all add: scan_pool_def sample_scan_simps db_eqs)

lemma sample_reconcile:
  "reconcile_nullifiers 4 (rest_state\<lparr> db_nullifier_scan := [] \<rparr>) = (Inr True, rest_state)"
  "reconcile_nullifiers 4 rest_state = (Inr False, rest_state)"
  by (simp_all add: reconcile_nullifiers_def reconcile_pool_def open_nullifier_scan_def nullifier_mark_def row_by_def
      nullifiers_after_def event_contract_def event_row_def mark_note_spent_def spent_by_def set_nullifier_mark_def Let_def
      transaction_def pool_ids_of_def map_filter_simps db_eqs)

lemma sample_process:
  "process_notes 4 sample_derive db3 = (Inr True, rest_state)"
  "process_notes 4 sample_derive rest_state = (Inr False, rest_state)"
proof -
  let ?acc = "[\<lparr> ak_account = 1, ak_keys = kp_keys (hd (db_keypairs db1)) \<rparr>]"
  have db3: "db3 = db3\<lparr> db_user_notes := [], db_commitment_scan := [], db_nullifier_scan := [] \<rparr>" by (simp add: db_eqs)
  have acc: "get_accounts_with_latest_keypairs db3 = ?acc" "pool_ids_of db3 (map cm_event (db_commitments db3)) = [1]"
    using sample_accounts sample_pools(1) by (subst db3, blast)+
  have zip: "zip [1] (pool_quotas 4 (length [1::nat])) = [(1, 4)]" by (simp add: sample_quota)
  have run: "scan_pools sample_derive ?acc [(1, 4)] False db3 = (Inr True, rest_state\<lparr> db_nullifier_scan := [] \<rparr>)"
    "scan_pools sample_derive ?acc [(1, 4)] False rest_state = (Inr False, rest_state)"
    unfolding scan_pools.simps transaction_def sample_scan by (simp_all add: and_then_def)
  have "scan_commitments_for_user_notes 4 sample_derive db3 = (Inr True, rest_state\<lparr> db_nullifier_scan := [] \<rparr>)"
    unfolding scan_commitments_for_user_notes_def acc Let_def zip run by simp
  then show "process_notes 4 sample_derive db3 = (Inr True, rest_state)"
    unfolding process_notes_def by (simp only: and_then_simps sample_reconcile) simp
  have cm: "db_commitments rest_state = db_commitments db3" by simp
  have "scan_commitments_for_user_notes 4 sample_derive rest_state = (Inr False, rest_state)"
    unfolding scan_commitments_for_user_notes_def sample_accounts cm sample_pools Let_def zip run by simp
  then show "process_notes 4 sample_derive rest_state = (Inr False, rest_state)"
    unfolding process_notes_def by (simp only: and_then_simps sample_reconcile) simp
qed

lemma sample_reach_any: "storage_reach sample_log D db2" "storage_reach sample_log D db3"
proof -
  have "storage_reach sample_log D db1"
    by (rule reach_keys [OF reach_connect, of "''alice''" "fst sample_keypairs" "snd sample_keypairs" "Field 3" "Inr ()"])
      (simp_all add: keys_stable_def empty_storage_def db1_eq save_encryption_and_note_keypairs_def
        get_or_create_account_def db_simps)
  then show db2: "storage_reach sample_log D db2"
    by (rule reach_events [of _ _ _ sample_batch "fst (save_events_batch sample_batch db1)"])
      (simp_all add: sample_batch_def db2_def)
  show "storage_reach sample_log D db3"
    by (rule reach_process_events [OF db2, of 50 "fst (process_events sample_log 50 db2)"]) (simp add: db3_def)
qed

lemma sample_reach: "storage_reach sample_log sample_derive db3" "storage_reach sample_log sample_derive rest_state"
    "storage_reach sample_log sample_derive db2"
  using sample_reach_any reach_process_notes [OF sample_reach_any(2) sample_process(1)] by simp_all

theorem wallet_complete_witness:
  "\<exists>n\<in>set (db_user_notes rest_state). un_commitment n = 2 \<and> un_nullifier n \<noteq> None \<and> un_amount n = NoteAmount 7"
proof -
  have "(\<exists>n\<in>set (db_user_notes rest_state). un_commitment n = 2 \<or> un_expected n = Field 21)"
    using wallet_complete [OF sample_reach(2) sample_process(2), THEN conjunct1] sample_accounts
    by (simp add: db_eqs sample_derive_def pool_row_def)
  then show ?thesis by simp
qed

text \<open>
  C37: Every reachable database is sound. After any sequence of method calls, including calls that fail half-way,
  keys of rows are unique, every derived row refers to a stored event of a known contract and holds exactly
  the values to which that event parses, every note stems from its commitment, and the marks of scan and
  reconciliation cover only work that was done.
\<close>

theorem storage_invariant:
  assumes "storage_reach S D s"
  shows "directory_ok s \<and> events_ok s \<and> wallet_ok D s \<and> (\<forall>p\<in>derived_events s. parsed_from S s p)"
  using history_invariant [OF assms] by (simp add: history_ok_def storage_ok_def base_ok_def provenance_def)

theorem storage_invariant_witness:
  "wallet_ok sample_derive rest_state \<and> Commitment ''e3'' (Field 31) 0 [1] \<in> derived_events rest_state \<and>
    parsed_from sample_log rest_state (Commitment ''e3'' (Field 31) 0 [1])"
proof -
  have "Commitment ''e3'' (Field 31) 0 [1] \<in> derived_events rest_state"
    by (simp add: derived_events_def event_of_defs db_eqs)
  then show ?thesis using storage_invariant [OF sample_reach(2)] by blast
qed

text \<open>
  The derived tables refine the log of events. When no event is left unprocessed in a reachable database, the
  rows of the four derived tables are exactly the parse results of the stored events: nothing is missing,
  nothing was invented, and every stored event has exactly one row, whatever the order and the batches in which
  the events arrived and were processed.
\<close>

theorem event_tables_exact:
  assumes "storage_reach S D s" and "get_unprocessed_events limit s = Inr []" and "0 < limit"
  shows "derived_events s = {p. parsed_from S s p} \<and>
    (\<forall>r\<in>set (db_raw s). \<exists>!p. p \<in> derived_events s \<and> processed_id p = raw_id r)"
proof -
  have h: "provenance S s" "directory_ok s"
    using history_invariant [OF assms(1)] history_ok_base(2) by (auto simp: history_ok_def)
  have "\<exists>!p. p \<in> derived_events s \<and> processed_id p = raw_id r" if r: "r \<in> set (db_raw s)" for r
  proof -
    obtain p where "p \<in> derived_events s" "processed_id p = raw_id r"
      using nothing_unprocessed [OF assms(2,3) h(2) r] by auto
    then show ?thesis
      using parsed_from_unique [OF h(2)] h(1) unfolding provenance_def by metis
  qed
  then show ?thesis using derived_events_exact [OF assms] by blast
qed

lemma sample_processed: "get_unprocessed_events 50 db3 = Inr []"
  by (simp add: get_unprocessed_events_def db_eqs processed_ids_def map_filter_simps)

theorem event_tables_exact_witness:
  "{p. parsed_from sample_log db3 p} =
    {Nullifier ''e2'' (Field 22), Nullifier ''e1'' (Field 21), Commitment ''e4'' (Field 32) 1 [2], Commitment ''e3'' (Field 31) 0 [1]}"
proof -
  have "derived_events db3 = {Nullifier ''e2'' (Field 22), Nullifier ''e1'' (Field 21), Commitment ''e4'' (Field 32) 1 [2], Commitment ''e3'' (Field 31) 0 [1]}"
    by (auto simp: derived_events_def event_of_defs db_eqs)
  then show ?thesis using event_tables_exact [OF sample_reach(1) sample_processed] by simp
qed

section \<open>A repeated commitment\<close>

definition repeated_commitment :: "stellar_env \<Rightarrow> storage \<Rightarrow> bool" where
  "repeated_commitment S s \<longleftrightarrow>
    (\<exists>c\<in>set (db_commitments s). \<exists>i x enc. parsed_from S s (Commitment i (cm_commitment c) x enc) \<and> i \<noteq> cm_event c)"

lemma repeated_unprocessed:
  assumes "storage_reach S D s" and "repeated_commitment S s" and "0 < limit"
  shows "get_unprocessed_events limit s \<noteq> Inr []"
proof
  assume "get_unprocessed_events limit s = Inr []"
  note ex = derived_events_exact [OF assms(1) this assms(3)]
  obtain c i x enc where c: "c \<in> set (db_commitments s)" "parsed_from S s (Commitment i (cm_commitment c) x enc)" "i \<noteq> cm_event c"
    using assms(2) by (auto simp: repeated_commitment_def)
  then have "Commitment i (cm_commitment c) x enc \<in> derived_events s" using ex by blast
  then obtain c' where "c' \<in> set (db_commitments s)" "cm_commitment c' = cm_commitment c" "cm_event c' = i"
    by (auto simp: derived_events_def event_of_defs)
  moreover have "events_ok s" using history_invariant [OF assms(1)] by (simp add: history_ok_def storage_ok_def base_ok_def)
  ultimately show False using commitment_unique c by metis
qed

lemma repeated_mono:
  assumes "repeated_commitment S s" and "directory_ok s" and "log_extends s s'" and "set (db_commitments s) \<subseteq> set (db_commitments s')"
  shows "repeated_commitment S s'"
  using assms parsed_from_log_extends [OF assms(3,2)] unfolding repeated_commitment_def by blast

lemma repeated_round:
  assumes "storage_reach S D s" and "repeated_commitment S s" and "process_round S D s = (r, s')"
  shows "r \<noteq> Inr False" and "storage_reach S D s'" and "repeated_commitment S s'"
proof -
  have dir: "directory_ok t" if "storage_reach S D t" for t
    using history_invariant [OF that] by (rule history_ok_base(2))
  have ev: "\<exists>t q. process_events S FETCH_LIMIT s = (q, t) \<and> q \<noteq> Inr False \<and> storage_reach S D t \<and> repeated_commitment S t"
  proof -
    obtain q t where q: "process_events S FETCH_LIMIT s = (q, t)" by fastforce
    have "q \<noteq> Inr False"
    proof
      assume "q = Inr False"
      have "get_unprocessed_events FETCH_LIMIT s = Inr []"
        using q [unfolded \<open>q = Inr False\<close> process_events_def Let_def]
        by (auto split: sum.splits if_splits elim!: and_then_cases)
      then show False using repeated_unprocessed [OF assms(1,2)] by (simp add: FETCH_LIMIT_def)
    qed
    moreover have "storage_reach S D t" by (rule reach_process_events [OF assms(1) q])
    moreover have "repeated_commitment S t"
    proof (rule repeated_mono [OF assms(2) dir [OF assms(1)]])
      show "log_extends s t" using process_events_adds [OF q] by (auto simp: adds_def)
      have "base_ok s" using history_invariant [OF assms(1)] by (rule history_ok_base(1))
      then show "set (db_commitments s) \<subseteq> set (db_commitments t)" using process_events_spec [OF q] extendsD(1) by blast
    qed
    ultimately show ?thesis using q by blast
  qed
  then obtain t q where t: "process_events S FETCH_LIMIT s = (q, t)" "q \<noteq> Inr False" "storage_reach S D t" "repeated_commitment S t"
    by blast
  have step: "storage_reach S D u \<and> repeated_commitment S u" if u: "process_notes FETCH_LIMIT D t = (b, u)" for b u
  proof -
    have ok: "storage_ok D t" using history_invariant [OF t(3)] by (simp add: history_ok_def)
    have "db_commitments u = db_commitments t"
    proof -
      have "wallet_ok D t" "events_ok t" using ok by (simp_all add: storage_ok_def base_ok_def)
      note this2 = this
      from u show ?thesis
        unfolding process_notes_def
      proof (cases rule: and_then_cases)
        case (1 e)
        then show ?thesis using scan_frameD(1) [OF scan_commitments_ok(2) [OF 1(1) this2]] by simp
      next
        case (2 x v)
        note v = scan_commitments_ok [OF 2(1) this2]
        have "events_ok v" using this2 by (simp add: scan_frameD [OF v(2)])
        moreover obtain q where "reconcile_nullifiers FETCH_LIMIT v = (q, u)" using 2(2) by (elim and_then_cases) auto
        ultimately show ?thesis using rec_frameD(1) [OF reconcile_nullifiers_ok(2)] v scan_frameD(1) [OF v(2)] by metis
      qed
    qed
    then show ?thesis
      using reach_process_notes [OF t(3) u] repeated_mono [OF t(4) dir [OF t(3)]] process_notes_log [OF u ok] by auto
  qed
  from assms(3) show "r \<noteq> Inr False" "storage_reach S D s'" "repeated_commitment S s'"
    using t step by (auto simp: process_round_def elim!: and_then_cases)
qed

text \<open>The states that the loop passes through as long as its rounds succeed and report work.\<close>

inductive rounds :: "stellar_env \<Rightarrow> derive_note_fn \<Rightarrow> storage \<Rightarrow> storage \<Rightarrow> bool" for S D s where
  rounds_start: "rounds S D s s"
| rounds_step: "rounds S D s t \<Longrightarrow> process_round S D t = (Inr True, u) \<Longrightarrow> rounds S D s u"

lemma rounds_front: "process_round S D s = (Inr True, t) \<Longrightarrow> rounds S D t u \<Longrightarrow> rounds S D s u"
  by (rotate_tac, induction rule: rounds.induct) (auto intro: rounds.intros)

text \<open>
  C38: A commitment that occurs twice in the log stops the client for ever. The pool accepts a transaction whose
  two outputs are the same note (or a later one that repeats a commitment), but the local database keeps one
  row per commitment: the second event is skipped and stays unprocessed, and every round reports work. On a reachable
  database that holds the two events, the loop that processes events until none is left has no end at all (its value
  is None), unless one of its rounds fails with an error of the database or of the derivation of a note.
\<close>

theorem repeated_commitment_livelock:
  assumes "storage_reach S D s" and "repeated_commitment S s"
    and "\<And>t e u. rounds S D s t \<Longrightarrow> process_round S D t \<noteq> (Inl e, u)"
  shows "process_until_empty S D s = None"
proof (rule ccontr)
  assume "process_until_empty S D s \<noteq> None"
  then obtain r where run: "process_until_empty S D s = Some r" by blast
  let ?P = "\<lambda>S D s (r :: unit stored). storage_reach S D s \<longrightarrow> repeated_commitment S s \<longrightarrow>
    (\<exists>t e u. rounds S D s t \<and> process_round S D t = (Inl e, u))"
  have "?P S D s r"
  proof (rule process_until_empty.raw_induct [of ?P, OF _ run], intro impI)
    fix loop S D s r
    assume IH: "\<And>S D s r. loop S D s = Some r \<Longrightarrow> ?P S D s r"
      and body: "(case process_round S D s of (Inl e, s') \<Rightarrow> Some (Inl e, s')
        | (Inr did_work, s') \<Rightarrow> if did_work then loop S D s' else Some (Inr (), s')) = Some r"
      and h: "storage_reach S D s" "repeated_commitment S s"
    obtain q t where q: "process_round S D s = (q, t)" by fastforce
    note round = repeated_round [OF h q]
    show "\<exists>t e u. rounds S D s t \<and> process_round S D t = (Inl e, u)"
    proof (cases q)
      case (Inl e)
      then show ?thesis using q rounds_start by blast
    next
      case (Inr b)
      then have b: "process_round S D s = (Inr True, t)" using q round(1) by (cases b) auto
      then have "loop S D t = Some r" using body by simp
      then show ?thesis using IH round(2,3) rounds_front [OF b] by blast
    qed
  qed
  then show False using assms by blast
qed

definition repeat_batch :: contracts_event_data where
  "repeat_batch = \<lparr> ed_events =
     [\<lparr> ce_id = ''e5'', ce_ledger = 5, ce_contract_id = ''pool'', ce_topics = [''C'', ''5''], ce_value = ''v1'' \<rparr>],
     ed_cursor = ''d'', ed_latest_ledger = 5 \<rparr>"

definition db5 :: storage where
  "db5 = snd (save_events_batch repeat_batch db3)"

lemma db5_eq: "db5 = db3\<lparr> db_raw := db_raw db3 @
   [\<lparr> raw_id = ''e5'', raw_ledger = 5, raw_contract = 1, raw_topics = ''C,5'', raw_value = ''v1'' \<rparr>] \<rparr>"
  by (simp add: db5_def db_eqs save_events_batch_def repeat_batch_def save_event_def get_or_create_contract_id_def db_simps)

lemma sample_repeated: "repeated_commitment sample_log db5"
proof -
  let ?e = "hd (ed_events repeat_batch)" and ?p = "Commitment ''e5'' (Field 31) 1 [2]"
  have "pool_event_wire sample_log (NewCommitmentEvent 31 1 [2]) ?e"
    by (simp add: wire_event_def sample_log_def repeat_batch_def)
  then have p: "parse_event sample_log ?e = Inr ?p"
    using small_canonical by (simp add: pool_events_parse repeat_batch_def del: pool_event_wire.simps)
  have "event_of_raw db5 \<lparr> raw_id = ''e5'', raw_ledger = 5, raw_contract = 1, raw_topics = ''C,5'', raw_value = ''v1'' \<rparr> = Some ?e"
    by (simp add: event_of_raw_def db5_eq db_eqs row_by_def repeat_batch_def)
  then have "parsed_from sample_log db5 ?p"
    using p unfolding parsed_from_def by (intro bexI exI conjI) (auto simp: db5_eq)
  then show ?thesis
    unfolding repeated_commitment_def
    by (intro bexI [of _ "\<lparr> cm_id = 2, cm_commitment = Field 31, cm_leaf_index = 0, cm_encrypted_output = [1], cm_event = ''e3'' \<rparr>"])
      (auto simp: db5_eq db_eqs)
qed

text \<open>The repeated event costs a round that reports work and leaves the database as it is.\<close>

abbreviation stuck_state :: "user_note_row list \<Rightarrow> commitment_scan_row list \<Rightarrow> nullifier_scan_row list \<Rightarrow> storage" where
  "stuck_state ns cs ms \<equiv> db5\<lparr> db_user_notes := ns, db_commitment_scan := cs, db_nullifier_scan := ms \<rparr>"

abbreviation stuck :: storage where
  "stuck \<equiv> stuck_state [\<lparr> un_id = Field 31, un_account = 1, un_commitment = 2, un_nullifier = Some 2, un_expected = Field 21,
       un_blinding = Field 1, un_amount = NoteAmount 7 \<rparr>]
    [\<lparr> cs_pool = 1, cs_account = 1, cs_last = 2 \<rparr>] [\<lparr> ns_pool = 1, ns_last = 2 \<rparr>]"

lemma stuck_events: "process_events sample_log FETCH_LIMIT (stuck_state ns cs ms) = (Inr True, stuck_state ns cs ms)"
proof -
  have es: "get_unprocessed_events FETCH_LIMIT (stuck_state ns cs ms) = Inr (ed_events repeat_batch)"
    by (simp add: get_unprocessed_events_def db5_eq db_eqs processed_ids_def event_of_raw_def map_filter_simps
        repeat_batch_def col_u32_def row_by_def FETCH_LIMIT_def)
  have "pool_event_wire sample_log (NewCommitmentEvent 31 1 [2]) (hd (ed_events repeat_batch))"
    by (simp add: wire_event_def sample_log_def repeat_batch_def)
  then have "parse_event sample_log (hd (ed_events repeat_batch)) = Inr (Commitment ''e5'' (Field 31) 1 [2])"
    using small_canonical by (simp add: pool_events_parse repeat_batch_def del: pool_event_wire.simps)
  then have parsed: "parsed_events sample_log (rev (ed_events repeat_batch)) = [Commitment ''e5'' (Field 31) 1 [2]]"
    by (simp add: repeat_batch_def)
  show ?thesis
    unfolding process_events_def es sum.case parsed Let_def
    by (simp add: repeat_batch_def nullifier_events_def commitment_events_def public_key_events_def leaf_added_events_def
        map_filter_simps save_nullifier_events_batch_def save_commitment_events_batch_def save_public_key_events_batch_def
        save_leaf_added_events_batch_def save_commitment_def insert_derived_def db5_eq db_eqs db_simps)
qed

lemma stuck_notes:
  "process_notes FETCH_LIMIT sample_derive db5 = (Inr True, stuck)"
  "process_notes FETCH_LIMIT sample_derive stuck = (Inr False, stuck)"
proof -
  let ?acc = "[\<lparr> ak_account = 1, ak_keys = kp_keys (hd (db_keypairs db1)) \<rparr>]"
  have db5: "db5 = stuck_state [] [] []" by (simp add: db5_eq db_eqs)
  have acc: "get_accounts_with_latest_keypairs (stuck_state ns cs ms) = ?acc" for ns cs ms
    by (simp add: get_accounts_with_latest_keypairs_def latest_keypair_def db5_eq db_eqs map_filter_simps)
  have pools: "pool_ids_of (stuck_state ns cs ms) (map cm_event (db_commitments (stuck_state ns cs ms))) = [1]"
    "pool_ids_of (stuck_state ns cs ms) (map nl_event (db_nullifiers (stuck_state ns cs ms))) = [1]" for ns cs ms
    by (simp_all add: pool_ids_of_def event_contract_def event_row_def row_by_def db5_eq db_eqs map_filter_simps)
  have zip: "zip [1] (pool_quotas FETCH_LIMIT (length [1::nat])) = [(1, FETCH_LIMIT)]"
    by (simp add: pool_quotas_def FETCH_LIMIT_def)
  have scan: "scan_pool sample_derive ?acc 1 FETCH_LIMIT (stuck_state [] [] []) = Inr (True, stuck\<lparr> db_nullifier_scan := [] \<rparr>)"
    "scan_pool sample_derive ?acc 1 FETCH_LIMIT stuck = Inr (False, stuck)"
    by (simp_all add: scan_pool_def sample_scan_simps db5_eq db_eqs FETCH_LIMIT_def)
  have run: "scan_pools sample_derive ?acc [(1, FETCH_LIMIT)] False (stuck_state [] [] []) = (Inr True, stuck\<lparr> db_nullifier_scan := [] \<rparr>)"
    "scan_pools sample_derive ?acc [(1, FETCH_LIMIT)] False stuck = (Inr False, stuck)"
    unfolding scan_pools.simps transaction_def scan by (simp_all add: and_then_def FETCH_LIMIT_def)
  have rec: "reconcile_nullifiers FETCH_LIMIT (stuck\<lparr> db_nullifier_scan := [] \<rparr>) = (Inr True, stuck)"
    "reconcile_nullifiers FETCH_LIMIT stuck = (Inr False, stuck)"
    by (simp_all add: reconcile_nullifiers_def reconcile_pool_def open_nullifier_scan_def nullifier_mark_def row_by_def
        nullifiers_after_def event_contract_def event_row_def mark_note_spent_def spent_by_def set_nullifier_mark_def Let_def
        transaction_def pool_ids_of_def map_filter_simps db5_eq db_eqs FETCH_LIMIT_def)
  have pos: "FETCH_LIMIT \<noteq> 0" by (simp add: FETCH_LIMIT_def)
  have "scan_commitments_for_user_notes FETCH_LIMIT sample_derive (stuck_state [] [] []) = (Inr True, stuck\<lparr> db_nullifier_scan := [] \<rparr>)"
    unfolding scan_commitments_for_user_notes_def acc Let_def pools zip run using pos by simp
  then have "process_notes FETCH_LIMIT sample_derive (stuck_state [] [] []) = (Inr True, stuck)"
    unfolding process_notes_def by (simp only: and_then_simps rec) simp
  then show "process_notes FETCH_LIMIT sample_derive db5 = (Inr True, stuck)" using db5 by (simp only:)
  have "scan_commitments_for_user_notes FETCH_LIMIT sample_derive stuck = (Inr False, stuck)"
    unfolding scan_commitments_for_user_notes_def acc Let_def pools zip run using pos by simp
  then show "process_notes FETCH_LIMIT sample_derive stuck = (Inr False, stuck)"
    unfolding process_notes_def by (simp only: and_then_simps rec) simp
qed

lemma stuck_rounds:
  "process_round sample_log sample_derive db5 = (Inr True, stuck)"
  "process_round sample_log sample_derive stuck = (Inr True, stuck)"
proof -
  have "db5 = stuck_state [] [] []" by (simp add: db5_eq db_eqs)
  then have ev: "process_events sample_log FETCH_LIMIT db5 = (Inr True, db5)" using stuck_events by metis
  show "process_round sample_log sample_derive db5 = (Inr True, stuck)"
    unfolding process_round_def by (simp only: ev stuck_notes and_then_simps) simp
  show "process_round sample_log sample_derive stuck = (Inr True, stuck)"
    unfolding process_round_def by (simp only: stuck_events stuck_notes and_then_simps) simp
qed

theorem repeated_commitment_livelock_witness: "process_until_empty sample_log sample_derive db5 = None"
proof (rule repeated_commitment_livelock [OF _ sample_repeated])
  show "storage_reach sample_log sample_derive db5"
    by (rule reach_events [OF sample_reach(1), of repeat_batch "fst (save_events_batch repeat_batch db3)"])
      (simp_all add: repeat_batch_def db5_def)
  fix t e u
  assume "rounds sample_log sample_derive db5 t"
  then have "process_round sample_log sample_derive t = (Inr True, stuck)"
    by induction (metis stuck_rounds(1), metis stuck_rounds(2) prod.inject)
  then show "process_round sample_log sample_derive t \<noteq> (Inl e, u)" by (metis sum.distinct(1) prod.inject)
qed

end
