(* ===== verification/Indexer_Properties.thy ===== *)
theory Indexer_Properties
  imports Indexer Storage_Properties
begin

text \<open>
  What the indexer guarantees when the service scans windows of any length: the stored events are a first part of the
  log and the cursor is never ahead of them. What it does not: the ledgers that it reports run ahead after an empty
  page, and a contract that is added later is skipped.
\<close>

section \<open>What the stored events are\<close>

definition stored :: "storage \<Rightarrow> contract_event \<Rightarrow> bool" where
  "stored s e \<longleftrightarrow> (\<exists>r\<in>set (db_raw s). event_of_raw s r = Some e)"

text \<open>Topics are base64 text, which has no comma.\<close>

definition plain_topics :: "contract_event \<Rightarrow> bool" where
  "plain_topics e \<longleftrightarrow> ce_topics e \<noteq> [] \<and> list_all (\<lambda>t. CHR '','' \<notin> set t) (ce_topics e)"

lemma split_plain: "CHR '','' \<notin> set t \<Longrightarrow> split_topics t = [t]"
  by (induction t) auto

lemma split_append: "CHR '','' \<notin> set t \<Longrightarrow> split_topics (t @ CHR '','' # u) = t # split_topics u"
  by (induction t) auto

lemma split_join_topics: "ts \<noteq> [] \<Longrightarrow> list_all (\<lambda>t. CHR '','' \<notin> set t) ts \<Longrightarrow> split_topics (join_topics ts) = ts"
  by (induction ts rule: join_topics.induct) (auto simp: split_plain split_append)

text \<open>A comma in a topic, or no topic at all, is not restored.\<close>

lemma split_join_lossy: "split_topics (join_topics []) \<noteq> []" "split_topics (join_topics [''a,b'']) \<noteq> [''a,b'']"
  by simp_all

lemma stored_log_extends:
  assumes "log_extends s s'" and "directory_ok s" and "stored s e"
  shows "stored s' e"
  using assms(3) event_of_raw_log_extends [OF assms(1,2)] assms(1) unfolding stored_def log_extends_def by fastforce

lemma stored_id: "stored s e \<Longrightarrow> ce_id e \<in> raw_id ` set (db_raw s)"
  by (auto simp: stored_def event_of_raw_def)

lemma stored_by_id:
  assumes "directory_ok s" and "i \<in> raw_id ` set (db_raw s)"
  obtains e where "stored s e" "ce_id e = i"
proof -
  obtain r where r: "r \<in> set (db_raw s)" "raw_id r = i" using assms(2) by blast
  obtain e where "event_of_raw s r = Some e" "ce_id e = raw_id r" by (rule event_of_raw_exists [OF assms(1) r(1)])
  then show ?thesis using that [of e] r by (auto simp: stored_def)
qed

lemma stored_save_event:
  assumes "directory_ok s" and "plain_topics e" and "\<And>x. stored s x \<Longrightarrow> ce_id x = ce_id e \<Longrightarrow> x = e"
  shows "stored (save_event e s) x \<longleftrightarrow> stored s x \<or> x = e"
proof -
  obtain i t where t: "get_or_create_contract_id (ce_contract_id e) s = (i, t)" by fastforce
  note g = get_or_create_contract_id_spec [OF t assms(1)]
  obtain new where new: "t = s\<lparr> db_contracts := db_contracts s @ new \<rparr>" using g(2) by blast
  have ext: "log_extends s t" by (simp add: log_extends_def new)
  have same: "stored t y = stored s y" for y
    unfolding stored_def using event_of_raw_log_extends [OF ext assms(1)] by (auto simp: new)
  show ?thesis
  proof (cases "ce_id e \<in> raw_id ` set (db_raw s)")
    case True
    then have "stored s e" using stored_by_id [OF assms(1)] assms(3) by metis
    moreover have "save_event e s = t" using True by (simp add: save_event_def t new)
    ultimately show ?thesis using same by auto
  next
    case False
    let ?r = "\<lparr> raw_id = ce_id e, raw_ledger = ce_ledger e, raw_contract = i,
      raw_topics = join_topics (ce_topics e), raw_value = ce_value e \<rparr>"
    have save: "save_event e s = t\<lparr> db_raw := db_raw t @ [?r] \<rparr>" using False by (simp add: save_event_def t new)
    have raw: "event_of_raw (t\<lparr> db_raw := db_raw t @ [?r] \<rparr>) r = event_of_raw t r" for r
      by (simp add: event_of_raw_def)
    have "split_topics (join_topics (ce_topics e)) = ce_topics e"
      using assms(2) split_join_topics by (simp add: plain_topics_def)
    then have "event_of_raw t ?r = Some e"
      using g(4) by (cases "row_by ct_id (db_contracts t) i") (auto simp: event_of_raw_def)
    then have "stored (save_event e s) x \<longleftrightarrow> stored t x \<or> x = e"
      unfolding save stored_def raw by auto
    then show ?thesis using same by simp
  qed
qed

text \<open>The log of the chain: what the contracts of the configuration published, in the order of the ledgers.\<close>

definition log_ok :: "nat \<Rightarrow> contract_event list \<Rightarrow> bool" where
  "log_ok first_ledger G \<longleftrightarrow>
    sorted (map ce_ledger G) \<and> distinct (map ce_id G) \<and>
    (\<forall>e\<in>set G. plain_topics e \<and> 0 < ce_ledger e \<and> first_ledger \<le> ce_ledger e \<and> ce_ledger e < 2 ^ 32)"

definition sound :: "contract_event list \<Rightarrow> storage \<Rightarrow> bool" where
  "sound G s \<longleftrightarrow> (\<forall>e. stored s e \<longrightarrow> e \<in> set G)"

lemma stored_save_events:
  assumes "directory_ok s" and "sound G s" and "log_ok m G" and "set es \<subseteq> set G"
  shows "sound G (fold save_event es s) \<and> (\<forall>x. stored (fold save_event es s) x \<longleftrightarrow> stored s x \<or> x \<in> set es)"
  using assms(1,2,4)
proof (induction es arbitrary: s)
  case (Cons e es)
  have e: "plain_topics e" "ce_ledger e < 2 ^ 32" using Cons.prems(3) assms(3) by (auto simp: log_ok_def)
  have inj: "x = e" if "stored s x" "ce_id x = ce_id e" for x
    using that Cons.prems assms(3) by (auto simp: sound_def log_ok_def distinct_map inj_on_def)
  have step: "stored (save_event e s) x \<longleftrightarrow> stored s x \<or> x = e" for x
    by (rule stored_save_event [OF Cons.prems(1) e(1) inj])
  have "sound G (save_event e s)" using Cons.prems(2,3) step by (auto simp: sound_def)
  then have "sound G (fold save_event es (save_event e s)) \<and>
      (\<forall>x. stored (fold save_event es (save_event e s)) x \<longleftrightarrow> stored (save_event e s) x \<or> x \<in> set es)"
    by (intro Cons.IH) (use save_event_spec [OF Cons.prems(1) e(2)] Cons.prems(3) in auto)
  then show ?case using step by auto
qed simp

section \<open>Pages of the log\<close>

text \<open>
  What the service documents about one request. It scans a bounded window of ledgers from the start of the request
  on (\<open>services/prover-api/src/chain.rs\<close> describes it): the events of a page are the next events of the log, at most
  \<open>limit\<close>, but possibly fewer or none although more follow. The cursor of the response is not empty; it stands for a
  position in the log, behind the last event of the page. Nothing is assumed about how far a window reaches, so that
  an empty page says nothing about the events that follow.
\<close>

definition start_position :: "contract_event list \<Rightarrow> (string \<Rightarrow> nat) \<Rightarrow> event_start \<Rightarrow> nat" where
  "start_position G pos start =
    (case start of
       StartCursor c \<Rightarrow> pos c
     | StartLedger l \<Rightarrow> length (takeWhile (\<lambda>e. ce_ledger e < l) G)
     | StartLedgerRange l _ \<Rightarrow> length (takeWhile (\<lambda>e. ce_ledger e < l) G))"

definition page_of :: "contract_event list \<Rightarrow> (string \<Rightarrow> nat) \<Rightarrow> nat \<Rightarrow> nat \<Rightarrow> contract_event list \<Rightarrow> string \<Rightarrow> nat \<Rightarrow> bool" where
  "page_of G pos limit p es cursor tip \<longleftrightarrow>
    es = take (length es) (drop p G) \<and> length es \<le> limit \<and> cursor \<noteq> [] \<and> pos cursor = p + length es \<and> tip < 2 ^ 32"

definition service_ok :: "string list \<Rightarrow> contract_event list \<Rightarrow> (string \<Rightarrow> nat) \<Rightarrow> rpc_service \<Rightarrow> bool" where
  "service_ok contract_ids G pos svc \<longleftrightarrow>
    (\<forall>t start limit r. svc_get_events svc t start contract_ids limit = Inr r \<longrightarrow>
      page_of G pos limit (start_position G pos start) (map contract_event_of (ge_events r)) (ge_cursor r) (ge_latest_ledger r))"

lemma page_take: "page_of G pos limit p es k tip \<Longrightarrow> take (pos k) G = take p G @ es"
  by (metis page_of_def take_add)

lemma page_subset: "page_of G pos limit p es k tip \<Longrightarrow> set es \<subseteq> set G"
  using page_take by (metis Un_subset_iff set_append set_take_subset)

text \<open>The ledger that the first request starts from comes before the log.\<close>

lemma start_of_log: "log_ok l G \<Longrightarrow> start_position G pos (StartLedger l) = 0"
  by (cases G) (auto simp: start_position_def log_ok_def)

section \<open>Progress of the indexer\<close>

text \<open>
  While no cursor is cleared, the rows of the indexing table share one cursor, and all events before it are stored.
  The stored events are a prefix of the log.
\<close>

definition upto_position :: "contract_event list \<Rightarrow> nat \<Rightarrow> storage \<Rightarrow> bool" where
  "upto_position G p s \<longleftrightarrow> (\<forall>e\<in>set (take p G). stored s e)"

definition prefix_stored :: "contract_event list \<Rightarrow> storage \<Rightarrow> bool" where
  "prefix_stored G s \<longleftrightarrow> (\<exists>n. \<forall>e. stored s e \<longleftrightarrow> e \<in> set (take n G))"

definition row_address :: "storage \<Rightarrow> indexing_row \<Rightarrow> string option" where
  "row_address s m = map_option ct_address (row_by ct_id (db_contracts s) (ix_contract m))"

definition rows_at :: "string list \<Rightarrow> string \<Rightarrow> storage \<Rightarrow> bool" where
  "rows_at ids k s \<longleftrightarrow> (\<forall>m\<in>set (db_indexing s). ix_last_cursor m = Some k \<and> row_address s m \<in> Some ` set ids)"

definition progress_valid :: "string list \<Rightarrow> contract_event list \<Rightarrow> (string \<Rightarrow> nat) \<Rightarrow> storage \<Rightarrow> bool" where
  "progress_valid ids G pos s \<longleftrightarrow>
    db_indexing s = [] \<or> (\<exists>k. k \<noteq> [] \<and> upto_position G (pos k) s \<and> rows_at ids k s)"

definition request_start :: "nat \<Rightarrow> string option \<Rightarrow> event_start" where
  "request_start l c = (case c of Some k \<Rightarrow> StartCursor k | None \<Rightarrow> StartLedger l)"

fun pc_valid :: "contract_event list \<Rightarrow> (string \<Rightarrow> nat) \<Rightarrow> indexer_pc \<Rightarrow> storage \<Rightarrow> bool" where
  "pc_valid G pos Idle s \<longleftrightarrow> True"
| "pc_valid G pos (Fetching n l c) s \<longleftrightarrow> upto_position G (start_position G pos (request_start l c)) s"
| "pc_valid G pos (Received n l k es latest) s \<longleftrightarrow>
    (\<exists>p. upto_position G p s \<and> page_of G pos PAGE_SIZE p (map contract_event_of es) k latest)"
| "pc_valid G pos (SavedEvents n l k es latest) s \<longleftrightarrow>
    upto_position G (pos k) s \<and> k \<noteq> [] \<and> progress_ledger es latest < 2 ^ 32"

lemma progress_cong:
  assumes "\<And>e. stored s' e = stored s e"
  shows "upto_position G p s' = upto_position G p s" and "prefix_stored G s' = prefix_stored G s"
    and "pc_valid G pos pc s' = pc_valid G pos pc s"
proof -
  show u: "upto_position G p s' = upto_position G p s" for p using assms by (simp add: upto_position_def)
  show "prefix_stored G s' = prefix_stored G s" using assms by (simp add: prefix_stored_def)
  show "pc_valid G pos pc s' = pc_valid G pos pc s" by (cases pc) (simp_all add: u)
qed

text \<open>A page behind stored events prolongs the stored prefix.\<close>

lemma prefix_prolonged:
  assumes "prefix_stored G s" and "upto_position G p s" and "page_of G pos limit p es k tip"
    and "\<And>x. stored s' x \<longleftrightarrow> stored s x \<or> x \<in> set es"
  shows "prefix_stored G s'" and "upto_position G (pos k) s'"
proof -
  note page = page_take [OF assms(3)]
  show "upto_position G (pos k) s'" using assms(2,4) by (auto simp: upto_position_def page)
  obtain n where n: "stored s x \<longleftrightarrow> x \<in> set (take n G)" for x using assms(1) by (auto simp: prefix_stored_def)
  have "set (take (max n (pos k)) G) = set (take n G) \<union> set (take (pos k) G)"
  proof (cases "n \<le> pos k")
    case True
    then show ?thesis using set_take_subset_set_take [OF True, of G] by (simp add: max_def Un_absorb1)
  next
    case False
    then show ?thesis using set_take_subset_set_take [of "pos k" n G] by (simp add: max_def Un_absorb2)
  qed
  also have "\<dots> = set (take n G) \<union> set es" using assms(2) n by (auto simp: page upto_position_def)
  finally show "prefix_stored G s'" unfolding prefix_stored_def using assms(4) n by blast
qed

lemma iter_min_in: "iter_min xs = Some x \<Longrightarrow> x \<in> set xs"
proof -
  have "foldr min ys y \<in> set (y # ys)" for y and ys :: "nat list"
    by (induction ys) (auto simp: min_def)
  then show "iter_min xs = Some x \<Longrightarrow> x \<in> set xs" by (cases xs) (auto simp del: list.set)
qed

lemma map_ok_source: "map_ok f xs = Inr ys \<Longrightarrow> y \<in> set ys \<Longrightarrow> \<exists>x\<in>set xs. f x = Inr y"
  by (induction xs arbitrary: ys) (auto simp: let_ok_Inr_iff)

lemma get_contract_events_ok:
  assumes "get_contract_events svc t ids l n c = Inr x"
  shows "\<exists>r. svc_get_events svc t (case c of Some c \<Rightarrow> StartCursor c | None \<Rightarrow> StartLedger l) ids n = Inr r \<and>
    x = (Some (ge_cursor r), ge_events r, ge_latest_ledger r)"
proof (cases "svc_get_events svc t (case c of Some c \<Rightarrow> StartCursor c | None \<Rightarrow> StartLedger l) ids n")
  case (Inl e)
  have "\<exists>e'. get_contract_events svc t ids l n c = Inl e'"
  proof (cases e)
    case (JsonRpc code message)
    then show ?thesis
      using Inl by (cases "parse_ledger_range message") (auto simp: get_contract_events_def Let_def)
  qed (use Inl in \<open>simp_all add: get_contract_events_def Let_def\<close>)
  then show ?thesis using assms by auto
qed (use assms in \<open>auto simp: get_contract_events_def Let_def\<close>)

lemma sync_metadata_row:
  assumes "get_sync_metadata s = Inr sync" and "meta \<in> set sync"
  obtains m c where "m \<in> set (db_indexing s)" "row_by ct_id (db_contracts s) (ix_contract m) = Some c"
    "sm_contract_id meta = ct_address c" "sm_last_indexed meta = ix_last_indexed m"
    "sm_last_fully_indexed meta = ix_last_fully_indexed m"
    "sm_cursor meta = (case ix_last_cursor m of None \<Rightarrow> [] | Some cursor \<Rightarrow> cursor)"
proof -
  obtain c m where "(c, m) \<in> set (List.map_filter (sync_row s) (sort_key ix_contract (db_indexing s)))"
    "sm_contract_id meta = ct_address c" "sm_last_indexed meta = ix_last_indexed m"
    "sm_last_fully_indexed meta = ix_last_fully_indexed m"
    "sm_cursor meta = (case ix_last_cursor m of None \<Rightarrow> [] | Some cursor \<Rightarrow> cursor)"
    using map_ok_source [OF assms(1) [unfolded get_sync_metadata_def] assms(2)]
    by (auto simp: let_ok_Inr_iff col_u32_def split: if_splits)
  then show ?thesis using that [of m c] by (auto simp: List.map_filter_def sync_row_def)
qed

lemma resume_valid:
  assumes "get_sync_metadata s = Inr sync" and "resume_point ixr sync = (l, c)" and "log_ok (ixr_min_pool_ledger ixr) G"
    and "progress_valid (ixr_contract_ids ixr) G pos s"
  shows "upto_position G (start_position G pos (request_start l c)) s"
proof -
  let ?active = "active_sync (ixr_contract_ids ixr) sync"
  show ?thesis
  proof (cases "sync = []")
    case True
    then have "l = ixr_min_pool_ledger ixr" "c = None"
      using assms(2) by (simp_all add: resume_point_def active_sync_def)
    then show ?thesis using start_of_log [OF assms(3)] by (simp add: request_start_def upto_position_def)
  next
    case False
    then obtain meta where "meta \<in> set sync" by (cases sync) auto
    then obtain m where "m \<in> set (db_indexing s)" using sync_metadata_row [OF assms(1)] by metis
    then obtain k where k: "k \<noteq> []" "upto_position G (pos k) s" "rows_at (ixr_contract_ids ixr) k s"
      using assms(4) by (auto simp: progress_valid_def)
    have row: "sm_cursor x = k \<and> sm_contract_id x \<in> set (ixr_contract_ids ixr)" if "x \<in> set sync" for x
      using sync_metadata_row [OF assms(1) that] k(3) by (fastforce simp: rows_at_def row_address_def)
    then have active: "?active = sync" by (simp add: active_sync_def)
    have "remdups (filter (\<lambda>c. c \<noteq> []) (map sm_cursor sync)) = [k]"
      using False row k(1)
    proof (induction sync)
      case (Cons x xs)
      then show ?case by (cases xs) auto
    qed simp
    then have "c = Some k"
      using assms(2) False row k(1) unfolding resume_point_def active Let_def by (cases sync) auto
    then show ?thesis using k(2) by (simp add: request_start_def start_position_def)
  qed
qed

lemma fetch_valid:
  assumes "get_contract_events svc t ids l PAGE_SIZE c = Inr (Some k, es, latest)" and "service_ok ids G pos svc"
  shows "page_of G pos PAGE_SIZE (start_position G pos (request_start l c)) (map contract_event_of es) k latest"
  using get_contract_events_ok [OF assms(1)] assms(2) unfolding service_ok_def request_start_def by fastforce

lemma progress_ledger_bound:
  assumes "page_of G pos limit p (map contract_event_of es) k latest" and "log_ok m G" and "set (map contract_event_of es) \<subseteq> set G"
  shows "progress_ledger es latest < 2 ^ 32"
proof (cases es)
  case Nil
  then show ?thesis using assms(1) by (simp add: progress_ledger_def page_of_def)
next
  case (Cons e es')
  have "foldr max ys y \<in> set (y # ys)" for y and ys :: "nat list" by (induction ys) (auto simp: max_def)
  then have "progress_ledger es latest \<in> re_ledger ` set es"
    using Cons by (simp add: progress_ledger_def) (metis image_set list.simps(9) set_ConsD)
  then obtain x where "x \<in> set es" "progress_ledger es latest = ce_ledger (contract_event_of x)"
    by (auto simp: contract_event_of_def)
  then show ?thesis using assms(2,3) by (auto simp: log_ok_def)
qed

lemma stored_same:
  assumes "log_extends s s'" and "db_raw s' = db_raw s" and "directory_ok s"
  shows "stored s' x = stored s x"
  unfolding stored_def using assms event_of_raw_log_extends [OF assms(1,3)] by simp

lemma save_progress_raw:
  assumes "directory_ok s"
  shows "db_raw (save_progress fully e s) = db_raw s"
proof -
  obtain i t where t: "get_or_create_contract_id (sm_contract_id e) s = (i, t)" by fastforce
  obtain new where "t = s\<lparr> db_contracts := db_contracts s @ new \<rparr>"
    using get_or_create_contract_id_spec(2) [OF t assms] by blast
  then show ?thesis by (simp add: save_progress_def t Let_def)
qed

text \<open>Recording progress rewrites the rows of the contracts it names and adds those that are missing.\<close>

lemma save_progress_row:
  assumes "directory_ok s" and "m \<in> set (db_indexing (save_progress fully e s))"
  shows "m \<in> set (db_indexing s) \<and> row_address (save_progress fully e s) m = row_address s m \<and>
      row_address s m \<noteq> Some (sm_contract_id e) \<or>
    row_address (save_progress fully e s) m = Some (sm_contract_id e) \<and> ix_last_cursor m = Some (sm_cursor e) \<and>
      ix_last_indexed m = sm_last_indexed e \<and> (fully \<longrightarrow> ix_last_fully_indexed m = sm_last_indexed e)"
proof -
  obtain i t where t: "get_or_create_contract_id (sm_contract_id e) s = (i, t)" by fastforce
  note g = get_or_create_contract_id_spec [OF t assms(1)]
  obtain new where new: "t = s\<lparr> db_contracts := db_contracts s @ new \<rparr>" using g(2) by blast
  let ?u = "\<lambda>r. if ix_contract r \<noteq> i then r
    else if fully then r\<lparr> ix_last_cursor := Some (sm_cursor e), ix_last_indexed := sm_last_indexed e,
      ix_last_fully_indexed := sm_last_indexed e \<rparr>
    else r\<lparr> ix_last_cursor := Some (sm_cursor e), ix_last_indexed := sm_last_indexed e \<rparr>"
  define rows where "rows = (if i \<in> ix_contract ` set (db_indexing t) then db_indexing t
    else db_indexing t @ [\<lparr> ix_contract = i, ix_last_cursor = Some (sm_cursor e), ix_last_indexed = sm_last_indexed e,
      ix_last_fully_indexed = 0 \<rparr>])"
  have u: "save_progress fully e s = t\<lparr> db_indexing := map ?u rows \<rparr>"
    unfolding save_progress_def t prod.case Let_def rows_def [symmetric] by (rule refl)
  then have con: "db_contracts (save_progress fully e s) = db_contracts t" by simp
  have "m \<in> ?u ` set rows" using assms(2) unfolding u by simp
  then obtain m0 where m0: "m0 \<in> set rows" "m = ?u m0" by blast
  show ?thesis
  proof (cases "ix_contract m = i")
    case True
    then have "row_address (save_progress fully e s) m = Some (sm_contract_id e)" using g(4) by (simp add: row_address_def con)
    moreover have "ix_last_cursor m = Some (sm_cursor e) \<and>
        ix_last_indexed m = sm_last_indexed e \<and> (fully \<longrightarrow> ix_last_fully_indexed m = sm_last_indexed e)"
    proof (cases "ix_contract m0 = i")
      case True
      then show ?thesis using m0(2) by (cases fully) simp_all
    next
      case False
      then show ?thesis using m0(2) True by simp
    qed
    ultimately show ?thesis by blast
  next
    case False
    then have "m = m0" using m0(2) by (cases "ix_contract m0 = i"; cases fully) simp_all
    then have m: "m \<in> set (db_indexing s)" using m0(1) False by (auto simp: rows_def new split: if_splits)
    then have "ix_contract m \<in> ct_id ` set (db_contracts s)" using assms(1) by (auto simp: directory_ok_def)
    then have same: "row_address (save_progress fully e s) m = row_address s m"
      by (simp add: row_address_def con new row_by_append)
    have "row_address s m \<noteq> Some (sm_contract_id e)"
    proof
      assume "row_address s m = Some (sm_contract_id e)"
      then obtain c where c: "row_by ct_id (db_contracts t) (ix_contract m) = Some c" "ct_address c = sm_contract_id e"
        using same by (auto simp: row_address_def con)
      obtain r where r: "row_by ct_id (db_contracts t) i = Some r" "ct_address r = sm_contract_id e" using g(4) by auto
      have "distinct (map ct_id (db_contracts t))" "distinct (map ct_address (db_contracts t))"
        using g(1) by (simp_all add: directory_ok_def table_ok_defs)
      then have "c = r" "ct_id c = ix_contract m" "ct_id r = i"
        using c r by (auto simp: row_by_Some_iff distinct_map inj_on_def)
      then show False using False by simp
    qed
    then show ?thesis using m same by blast
  qed
qed

lemma save_progress_fold_rows:
  assumes "directory_ok s" and "\<forall>e\<in>set es. sm_cursor e = k \<and> sm_last_indexed e = l" and "l < 2 ^ 32"
  shows "directory_ok (fold (save_progress fully) es s) \<and>
    (\<forall>x. stored (fold (save_progress fully) es s) x = stored s x) \<and>
    (\<forall>m\<in>set (db_indexing (fold (save_progress fully) es s)).
      m \<in> set (db_indexing s) \<and> row_address (fold (save_progress fully) es s) m = row_address s m \<and>
        row_address s m \<notin> Some ` sm_contract_id ` set es \<or>
      row_address (fold (save_progress fully) es s) m \<in> Some ` sm_contract_id ` set es \<and> ix_last_cursor m = Some k \<and>
        ix_last_indexed m = l \<and> (fully \<longrightarrow> ix_last_fully_indexed m = l))"
  using assms(2)
proof (induction es rule: rev_induct)
  case Nil
  then show ?case using assms(1) by simp
next
  case (snoc e es)
  let ?t = "fold (save_progress fully) es s"
  have dir: "directory_ok ?t" and st: "stored ?t x = stored s x" for x using snoc by auto
  have e: "sm_cursor e = k" "sm_last_indexed e = l" using snoc.prems by auto
  have "directory_ok (save_progress fully e ?t)" using save_progress_spec(1) [OF dir] e assms(3) by simp
  moreover have "stored (save_progress fully e ?t) x = stored s x" for x
    using stored_same [OF save_progress_log(1) [OF dir] save_progress_raw [OF dir] dir] st by simp
  moreover have "m \<in> set (db_indexing s) \<and> row_address (save_progress fully e ?t) m = row_address s m \<and>
        row_address s m \<notin> Some ` sm_contract_id ` set (es @ [e]) \<or>
      row_address (save_progress fully e ?t) m \<in> Some ` sm_contract_id ` set (es @ [e]) \<and> ix_last_cursor m = Some k \<and>
        ix_last_indexed m = l \<and> (fully \<longrightarrow> ix_last_fully_indexed m = l)"
    if m: "m \<in> set (db_indexing (save_progress fully e ?t))" for m
    using save_progress_row [OF dir m]
  proof (elim disjE conjE)
    assume "m \<in> set (db_indexing ?t)" and a: "row_address (save_progress fully e ?t) m = row_address ?t m"
      "row_address ?t m \<noteq> Some (sm_contract_id e)"
    then show ?thesis using snoc by auto
  qed (simp add: e)
  ultimately show ?case by simp
qed

section \<open>Tables of the chain\<close>

definition same_chain :: "storage \<Rightarrow> storage \<Rightarrow> bool" where
  "same_chain s s' \<longleftrightarrow> db_contracts s' = db_contracts s \<and> db_raw s' = db_raw s \<and> db_indexing s' = db_indexing s"

lemma same_chain_refl [simp]: "same_chain s s"
  by (simp add: same_chain_def)

lemma same_chain_trans: "same_chain s t \<Longrightarrow> same_chain t u \<Longrightarrow> same_chain s u"
  by (simp add: same_chain_def)

lemma same_chain_stored: "same_chain s s' \<Longrightarrow> stored s' x = stored s x"
  by (simp add: same_chain_def stored_def event_of_raw_def)

lemma batch_same_chain:
  assumes "transaction (\<lambda>s. let_ok (fold_ok save xs s) (\<lambda>s'. Inr ((), s'))) s = (r, s')"
    and "\<And>x s s'. save x s = Inr s' \<Longrightarrow> same_chain s s'"
  shows "same_chain s s'"
proof -
  have "same_chain s t" if "fold_ok save xs s = Inr t" for t
    by (rule fold_ok_invariant [OF that]) (use assms(2) same_chain_trans in auto)
  then show ?thesis using assms(1) by (auto simp: let_ok_Inr_iff elim!: transaction_cases)
qed

lemma process_events_same_chain:
  assumes "process_events S limit s = (b, s')"
  shows "same_chain s s'"
proof -
  have save: "save_nullifier x t = Inr u \<Longrightarrow> same_chain t u" "save_commitment y t = Inr u \<Longrightarrow> same_chain t u"
    "save_public_key z t = Inr u \<Longrightarrow> same_chain t u" "save_leaf_added w t = Inr u \<Longrightarrow> same_chain t u" for x y z w t u
    by (auto simp: save_nullifier_def save_commitment_def save_public_key_def save_leaf_added_def let_ok_Inr_iff same_chain_def
        split: prod.splits)
  have batch: "save_nullifier_events_batch xs t = (r, u) \<Longrightarrow> same_chain t u"
    "save_commitment_events_batch ys t = (r, u) \<Longrightarrow> same_chain t u"
    "save_public_key_events_batch zs t = (r, u) \<Longrightarrow> same_chain t u"
    "save_leaf_added_events_batch ws t = (r, u) \<Longrightarrow> same_chain t u" for xs ys zs ws t u r
    unfolding save_nullifier_events_batch_def save_commitment_events_batch_def save_public_key_events_batch_def
      save_leaf_added_events_batch_def by (erule batch_same_chain, rule save, assumption)+
  show ?thesis
  proof (cases "get_unprocessed_events limit s")
    case (Inr es)
    show ?thesis
    proof (cases "es = []")
      case False
      then show ?thesis
        using assms Inr unfolding process_events_def
        by (auto simp: Let_def elim!: and_then_cases dest!: batch intro: same_chain_trans)
    qed (use assms Inr in \<open>simp add: process_events_def\<close>)
  qed (use assms in \<open>simp add: process_events_def\<close>)
qed

lemma frames_same_chain: "scan_frame s s' \<Longrightarrow> same_chain s s'" "rec_frame s s' \<Longrightarrow> same_chain s s'"
  by (cases s; cases s'; simp add: scan_frame_def rec_frame_def same_chain_def)+

lemma process_notes_same_chain:
  assumes "process_notes limit D s = (r, s')" and "storage_ok D s"
  shows "same_chain s s'"
proof -
  have s: "wallet_ok D s" "events_ok s" using assms(2) by (auto simp: storage_ok_def base_ok_def)
  from assms(1) show ?thesis
    unfolding process_notes_def
  proof (cases rule: and_then_cases)
    case (1 e)
    then show ?thesis using scan_commitments_ok(2) [OF 1(1) s] frames_same_chain by blast
  next
    case (2 x t)
    note t = scan_commitments_ok [OF 2(1) s]
    have "events_ok t" using s(2) by (auto simp: scan_frameD [OF t(2)])
    moreover have "\<exists>q. reconcile_nullifiers limit t = (q, s')" using 2(2) by (auto elim!: and_then_cases)
    ultimately have "rec_frame t s'" using reconcile_nullifiers_ok(2) [OF _ t(1)] by blast
    then show ?thesis using frames_same_chain t(2) same_chain_trans by blast
  qed
qed

lemma account_same_chain: "get_or_create_account address s = (i, t) \<Longrightarrow> same_chain s t"
  by (auto simp: get_or_create_account_def Let_def same_chain_def split: option.splits)

lemma worker_same_chain:
  assumes "worker_step S D s s'" and "storage_reach S D s"
  shows "same_chain s s'"
proof -
  have ok: "storage_ok D s" using history_invariant [OF assms(2)] by (simp add: history_ok_def)
  from assms(1) show ?thesis
  proof cases
    case (work_keys address nk ek mb r)
    obtain i t where "get_or_create_account address s = (i, t)" by fastforce
    then show ?thesis
      using work_keys(2) account_same_chain [of address s i t]
      by (auto simp: save_encryption_and_note_keypairs_def transaction_def same_chain_def)
  next
    case (work_disclaimer body hash address q)
    obtain i t where "get_or_create_account address s = (i, t)" by fastforce
    then show ?thesis
      using work_disclaimer account_same_chain [of address s i t] by (auto simp: get_disclaimer_state_def transaction_def Let_def)
  next
    case (work_accept hash now address h2 r)
    obtain i t where "get_or_create_account address s = (i, t)" by fastforce
    then show ?thesis
      using work_accept account_same_chain [of address s i t]
      by (auto simp: accept_current_disclaimer_def transaction_def Let_def same_chain_def split: if_splits)
  next
    case (work_setting to_string enabled url r)
    then show ?thesis
      by (auto simp: set_bootnode_setting_def set_setting_json_def same_chain_def split: option.splits)
  next
    case (work_operation now address pool kind amount direction counterparty tx_hash r)
    then show ?thesis by (auto simp: insert_operation_def same_chain_def)
  next
    case (work_events limit b)
    then show ?thesis by (rule process_events_same_chain)
  next
    case (work_notes limit b)
    then show ?thesis by (rule process_notes_same_chain [OF _ ok])
  qed
qed

section \<open>Every state of the client\<close>

definition client_ok ::
  "stellar_env \<Rightarrow> derive_note_fn \<Rightarrow> string list \<Rightarrow> contract_event list \<Rightarrow> (string \<Rightarrow> nat) \<Rightarrow> indexer_pc \<times> storage \<Rightarrow> bool" where
  "client_ok S D ids G pos c \<longleftrightarrow>
    storage_reach S D (snd c) \<and> prefix_stored G (snd c) \<and> progress_valid ids G pos (snd c) \<and> pc_valid G pos (fst c) (snd c)"

lemma storage_reach_directory: "storage_reach S D s \<Longrightarrow> directory_ok s"
  using history_invariant history_ok_base(2) by blast

text \<open>Saved events do not touch the indexing table and keep the addresses of its rows.\<close>

lemma save_events_progress:
  assumes "directory_ok s" and "progress_valid ids G pos s" and "list_all (\<lambda>e. ce_ledger e < 2 ^ 32) es"
    and "\<And>x. stored s x \<Longrightarrow> stored (fold save_event es s) x"
  shows "progress_valid ids G pos (fold save_event es s)"
proof -
  let ?s = "fold save_event es s"
  have fold: "directory_ok (fold save_event es t) \<and> log_extends t (fold save_event es t) \<and>
      db_indexing (fold save_event es t) = db_indexing t"
    if "directory_ok t" "list_all (\<lambda>e. ce_ledger e < 2 ^ 32) es" for es t
    using that
  proof (induction es arbitrary: t)
    case (Cons e es)
    have "directory_ok (save_event e t)" using save_event_spec(1) [OF Cons.prems(1)] Cons.prems(2) by simp
    moreover have "log_extends t (save_event e t)" by (rule save_event_log(1) [OF Cons.prems(1)])
    moreover have "db_indexing (save_event e t) = db_indexing t"
      by (auto simp: save_event_def get_or_create_contract_id_def Let_def split: option.splits prod.splits)
    ultimately show ?case using Cons by (auto intro: log_extends_trans)
  qed (simp add: log_extends_def)
  note f = fold [OF assms(1,3)]
  have row: "row_address ?s m = row_address s m" if m: "m \<in> set (db_indexing s)" for m
  proof -
    have "ix_contract m \<in> ct_id ` set (db_contracts s)" using assms(1) m by (auto simp: directory_ok_def)
    then show ?thesis using f by (auto simp: row_address_def log_extends_def row_by_append)
  qed
  show ?thesis
  proof (cases "db_indexing s = []")
    case False
    then obtain k where k: "k \<noteq> []" "upto_position G (pos k) s" "rows_at ids k s" using assms(2) by (auto simp: progress_valid_def)
    have "upto_position G (pos k) ?s" using k(2) assms(4) by (simp add: upto_position_def)
    moreover have "rows_at ids k ?s" using k(3) row f by (simp add: rows_at_def)
    ultimately show ?thesis using k(1) by (auto simp: progress_valid_def)
  qed (use f in \<open>simp add: progress_valid_def\<close>)
qed

lemma indexer_step_ok:
  assumes "indexer_step False svcs ixr c c'" and "client_ok S D (ixr_contract_ids ixr) G pos c"
    and "\<forall>svc\<in>svcs. service_ok (ixr_contract_ids ixr) G pos svc" and "log_ok (ixr_min_pool_ledger ixr) G"
  shows "client_ok S D (ixr_contract_ids ixr) G pos c'"
  using assms(1,2)
proof (cases rule: indexer_step.cases)
  case (step_round s sync start_ledger cursor)
  then show ?thesis using resume_valid [OF step_round(3,4) assms(4)] assms(2) by (auto simp: client_ok_def)
next
  case (step_fetch svc t start_ledger cursor new_cursor events latest pages s)
  then show ?thesis
    using fetch_valid [OF step_fetch(4) bspec [OF assms(3) step_fetch(3)]] assms(2) by (auto simp: client_ok_def)
next
  case (step_events new_cursor events latest s s' pages start_ledger)
  let ?es = "map contract_event_of events"
  have s': "s' = fold save_event ?es s" using step_events(3) by (simp add: save_batch_ok page_data_def)
  obtain p where p: "upto_position G p s" "page_of G pos PAGE_SIZE p ?es new_cursor latest"
    and r: "storage_reach S D s" and v: "prefix_stored G s" "progress_valid (ixr_contract_ids ixr) G pos s"
    using assms(2) by (auto simp: client_ok_def step_events(1))
  have "sound G s" using v(1) by (auto simp: sound_def prefix_stored_def dest: in_set_takeD)
  moreover have sub: "set ?es \<subseteq> set G" by (rule page_subset [OF p(2)])
  ultimately have st: "stored s' x \<longleftrightarrow> stored s x \<or> x \<in> set ?es" for x
    using stored_save_events [OF storage_reach_directory [OF r] _ assms(4)] s' by blast
  have small: "list_all (\<lambda>e. ce_ledger e < 2 ^ 32) ?es" using sub assms(4) by (auto simp: list_all_iff log_ok_def)
  then have "storage_reach S D s'" by (intro reach_events [OF r _ step_events(3)]) (simp add: page_data_def)
  moreover have "progress_valid (ixr_contract_ids ixr) G pos s'"
    unfolding s' by (rule save_events_progress [OF storage_reach_directory [OF r] v(2) small]) (use st s' in blast)
  moreover have "new_cursor \<noteq> []" using p(2) by (simp add: page_of_def)
  ultimately show ?thesis
    using prefix_prolonged [OF v(1) p st] progress_ledger_bound [OF p(2) assms(4) sub] by (simp add: client_ok_def step_events(2))
next
  case (step_progress new_cursor events latest s s' pages start_ledger)
  let ?md = "page_progress ixr new_cursor events latest"
  have s': "s' = fold (save_progress (events = [])) ?md s" using step_progress(3) by (simp add: save_progress_ok)
  have r: "storage_reach S D s" and v: "prefix_stored G s" "progress_valid (ixr_contract_ids ixr) G pos s"
    and u: "upto_position G (pos new_cursor) s" "new_cursor \<noteq> []" "progress_ledger events latest < 2 ^ 32"
    using assms(2) by (auto simp: client_ok_def step_progress(1))
  have md: "\<forall>e\<in>set ?md. sm_cursor e = new_cursor \<and> sm_last_indexed e = progress_ledger events latest"
    "sm_contract_id ` set ?md = set (ixr_contract_ids ixr)" by (simp_all add: page_progress_def image_image)
  note rows = save_progress_fold_rows [OF storage_reach_directory [OF r] md(1) u(3), of "events = []", folded s', unfolded md(2)]
  then have st: "stored s' x = stored s x" for x by blast
  have "list_all (\<lambda>m. sm_last_indexed m < 2 ^ 32) ?md" using md(1) u(3) by (simp add: list_all_iff)
  then have "storage_reach S D s'" by (rule reach_progress [OF r _ step_progress(3)])
  moreover have "rows_at (ixr_contract_ids ixr) new_cursor s'"
    unfolding rows_at_def
  proof
    fix m assume m: "m \<in> set (db_indexing s')"
    have "row_address s m \<in> Some ` set (ixr_contract_ids ixr)" if "m \<in> set (db_indexing s)"
      using v(2) that by (auto simp: progress_valid_def rows_at_def)
    then show "ix_last_cursor m = Some new_cursor \<and> row_address s' m \<in> Some ` set (ixr_contract_ids ixr)"
      using bspec [OF conjunct2 [OF conjunct2 [OF rows]] m] by blast
  qed
  ultimately show ?thesis
    using v(1) u(1,2) progress_cong [of s' s, OF st]
    by (auto simp: client_ok_def step_progress(2) progress_valid_def request_start_def start_position_def)
next
  case (step_give_up pc s)
  then show ?thesis using assms(2) by (simp add: client_ok_def)
qed simp

lemma client_reach_ok:
  assumes "client_reach S D False svcs ixr c"
    and "\<forall>svc\<in>svcs. service_ok (ixr_contract_ids ixr) G pos svc" and "log_ok (ixr_min_pool_ledger ixr) G"
  shows "client_ok S D (ixr_contract_ids ixr) G pos c"
  using assms(1)
proof induction
  case client_start
  have "storage_reach S D empty_storage" by (rule reach_connect)
  moreover have "prefix_stored G empty_storage"
    unfolding prefix_stored_def by (intro exI [of _ 0]) (simp add: stored_def empty_storage_def)
  ultimately show ?case by (simp add: client_ok_def progress_valid_def empty_storage_def)
next
  case (client_indexer c c')
  then show ?case using indexer_step_ok assms(2,3) by blast
next
  case (client_worker pc s s')
  have r: "storage_reach S D s" using client_worker.IH by (simp add: client_ok_def)
  have same: "same_chain s s'" by (rule worker_same_chain [OF client_worker.hyps(2) r])
  have "storage_reach S D s'" by (rule worker_storage_reach [OF r client_worker.hyps(2)])
  then show ?case
    using client_worker.IH same progress_cong [of s' s, OF same_chain_stored [OF same]]
    by (simp add: client_ok_def same_chain_def progress_valid_def rows_at_def row_address_def)
qed

text \<open>What a cursor of the database promises.\<close>

lemma cursor_stored:
  assumes "get_sync_metadata s = Inr sync" and "meta \<in> set sync" and "progress_valid ids G pos s"
  shows "list_all (stored s) (take (pos (sm_cursor meta)) G)"
proof -
  obtain m where m: "m \<in> set (db_indexing s)" "sm_cursor meta = (case ix_last_cursor m of None \<Rightarrow> [] | Some cursor \<Rightarrow> cursor)"
    using sync_metadata_row [OF assms(1,2)] by metis
  then obtain k where "k \<noteq> []" "upto_position G (pos k) s" "rows_at ids k s" using assms(3) by (auto simp: progress_valid_def)
  then show ?thesis using m by (auto simp: rows_at_def upto_position_def list_all_iff)
qed


section \<open>A sample run of the indexer\<close>

definition sample_rpc_event :: "contract_event \<Rightarrow> rpc_event" where
  "sample_rpc_event e = \<lparr> re_event_type = ''contract'', re_ledger = ce_ledger e, re_ledger_closed_at = [],
     re_contract_id = ce_contract_id e, re_id = ce_id e, re_operation_index = None, re_transaction_index = None,
     re_tx_hash = None, re_successful = None, re_topic = ce_topics e, re_value = ce_value e \<rparr>"

definition sample_pos :: "string \<Rightarrow> nat" where
  "sample_pos k = length k - 1"

definition sample_service :: rpc_service where
  "sample_service = \<lparr>
     svc_get_events = (\<lambda>t start ids limit.
       let p = start_position (ed_events sample_batch) sample_pos start; es = take limit (drop p (ed_events sample_batch)) in
       Inr \<lparr> ge_events = map sample_rpc_event es, ge_latest_ledger = 3, ge_latest_close_time = [], ge_oldest_ledger = 0,
             ge_oldest_close_time = [], ge_cursor = replicate (Suc (p + length es)) CHR ''x'' \<rparr>),
     svc_get_latest_ledger = (\<lambda>t. Inr 3) \<rparr>"

definition sample_indexer :: indexer where
  "sample_indexer = \<lparr> ixr_contract_ids = [''pool'', ''asp'', ''registry''], ixr_min_pool_ledger = 3 \<rparr>"

lemma sample_rpc_inverse [simp]: "contract_event_of (sample_rpc_event e) = e"
  by (simp add: contract_event_of_def sample_rpc_event_def)

lemma take_rest: "take (min (length xs - p) n) (drop p xs) = take n (drop p xs)"
  by (simp add: min_def)

lemma sample_service_ok: "service_ok ids (ed_events sample_batch) sample_pos sample_service"
  by (auto simp: service_ok_def page_of_def sample_service_def sample_pos_def Let_def o_def take_rest)

lemma sample_log_ok: "log_ok (ixr_min_pool_ledger sample_indexer) (ed_events sample_batch)"
  by (simp add: log_ok_def sample_batch_def sample_indexer_def plain_topics_def)

definition idx_db :: storage where
  "idx_db = empty_storage\<lparr> db_contracts := [\<lparr> ct_id = 1, ct_address = ''pool'' \<rparr>, \<lparr> ct_id = 2, ct_address = ''asp'' \<rparr>,
       \<lparr> ct_id = 3, ct_address = ''registry'' \<rparr>],
     db_raw := db_raw db2,
     db_indexing := map (\<lambda>i. \<lparr> ix_contract = i, ix_last_cursor = Some ''xxxxx'', ix_last_indexed = 3, ix_last_fully_indexed = 3 \<rparr>)
       [1, 2, 3] \<rparr>"

lemma sample_pages:
  "get_contract_events sample_service t ids 3 PAGE_SIZE None =
    Inr (Some ''xxxxx'', map sample_rpc_event (ed_events sample_batch), 3)"
  "get_contract_events sample_service t ids 3 PAGE_SIZE (Some ''xxxxx'') = Inr (Some ''xxxxx'', [], 3)"
  by (simp_all add: get_contract_events_def sample_service_def start_position_def sample_pos_def PAGE_SIZE_def
      sample_batch_def numeral_eq_Suc)

lemma sample_fetch: "fetch_contract_events sample_service 0 sample_indexer empty_storage = (Inr (), idx_db)"
proof -
  let ?ids = "ixr_contract_ids sample_indexer"
  let ?es = "map sample_rpc_event (ed_events sample_batch)"
  have ne: "?es \<noteq> []" by (simp add: sample_batch_def)
  define d where "d = fold save_event (ed_events sample_batch) empty_storage"
  have d: "d = empty_storage\<lparr> db_contracts := [\<lparr> ct_id = 1, ct_address = ''pool'' \<rparr>], db_raw := db_raw db2 \<rparr>"
    by (simp add: d_def sample_batch_def save_event_def get_or_create_contract_id_def db_eqs db_simps)
  define d' where "d' = fold (save_progress False) (page_progress sample_indexer ''xxxxx'' ?es 3) d"
  have d': "d' = idx_db\<lparr> db_indexing :=
      map (\<lambda>i. \<lparr> ix_contract = i, ix_last_cursor = Some ''xxxxx'', ix_last_indexed = 3, ix_last_fully_indexed = 0 \<rparr>) [1, 2, 3] \<rparr>"
    by (simp add: d'_def d idx_db_def page_progress_def sample_indexer_def progress_ledger_def sample_batch_def sample_rpc_event_def
        save_progress_def get_or_create_contract_id_def empty_storage_def db_simps)
  have last: "fold (save_progress True) (page_progress sample_indexer ''xxxxx'' [] 3) d' = idx_db"
    by (simp add: d' idx_db_def page_progress_def sample_indexer_def progress_ledger_def
        save_progress_def get_or_create_contract_id_def empty_storage_def db_simps)
  have data: "ed_events (page_data k ?es l) = ed_events sample_batch" "ed_events (page_data k [] l) = []" for k l
    by (simp_all add: page_data_def o_def)
  have sync: "get_sync_metadata empty_storage = Inr []"
    by (simp add: get_sync_metadata_def empty_storage_def List.map_filter_def)
  have start: "resume_point sample_indexer [] = (3, None)"
    by (simp add: resume_point_def active_sync_def sample_indexer_def Let_def)
  have tip: "svc_get_latest_ledger sample_service 0 = Inr 3" by (simp add: sample_service_def)
  have pages: "MAX_PAGES_PER_ROUND = Suc (Suc 8)" by (simp add: MAX_PAGES_PER_ROUND_def)
  show ?thesis
    unfolding fetch_contract_events_def tip sync sum.case start pages Let_def prod.case fetch_pages.simps sample_pages
      save_batch_ok save_progress_ok data option.case d_def [symmetric]
    using ne by (simp add: d'_def [symmetric] last)
qed

lemma sample_client: "client_reach sample_log sample_derive resets {sample_service} sample_indexer (Idle, idx_db)"
proof -
  have lift: "client_reach S D resets svcs ixr c'"
    if "(indexer_step resets svcs ixr)\<^sup>*\<^sup>* c c'" "client_reach S D resets svcs ixr c" for S D svcs ixr c c'
    using that by induction (auto intro: client_indexer)
  show ?thesis
    by (rule lift [OF fetch_round_steps [OF _ sample_fetch] client_start]) simp
qed

lemma sample_sync: "get_sync_metadata idx_db = Inr (map (\<lambda>c. \<lparr> sm_contract_id = c, sm_cursor = ''xxxxx'', sm_last_indexed = 3,
    sm_last_fully_indexed = 3 \<rparr>) [''pool'', ''asp'', ''registry''])"
  by (simp add: get_sync_metadata_def idx_db_def empty_storage_def List.map_filter_def sync_row_def row_by_def col_u32_def)


section \<open>Contracts without progress\<close>

lemma map_ok_total: "\<forall>x\<in>set xs. \<exists>y. f x = Inr y \<Longrightarrow> \<exists>ys. map_ok f xs = Inr ys"
  by (induction xs) (auto simp: let_ok_Inr_iff)

lemma map_ok_target: "map_ok f xs = Inr ys \<Longrightarrow> x \<in> set xs \<Longrightarrow> f x = Inr y \<Longrightarrow> y \<in> set ys"
  by (induction xs arbitrary: ys) (auto simp: let_ok_Inr_iff)

text \<open>Every row of the indexing table is reported, under the address of its contract.\<close>

lemma sync_metadata_complete:
  assumes "directory_ok s"
  obtains sync where "get_sync_metadata s = Inr sync"
    "\<And>m c. m \<in> set (db_indexing s) \<Longrightarrow> row_by ct_id (db_contracts s) (ix_contract m) = Some c \<Longrightarrow>
      \<exists>meta\<in>set sync. sm_contract_id meta = ct_address c \<and> sm_last_fully_indexed meta = ix_last_fully_indexed m"
proof -
  define f :: "contract_row \<times> indexing_row \<Rightarrow> storage_error + sync_metadata" where "f = (\<lambda>(c, m).
        let_ok (col_u32 (ix_last_indexed m) 1) (\<lambda>indexed.
        let_ok (col_u32 (ix_last_fully_indexed m) 2) (\<lambda>fully.
        Inr \<lparr> sm_contract_id = ct_address c,
              sm_cursor = (case ix_last_cursor m of None \<Rightarrow> [] | Some cursor \<Rightarrow> cursor),
              sm_last_indexed = indexed, sm_last_fully_indexed = fully \<rparr>)))"
  let ?rows = "List.map_filter (sync_row s) (sort_key ix_contract (db_indexing s))"
  have val: "f (c, m) = Inr \<lparr> sm_contract_id = ct_address c,
      sm_cursor = (case ix_last_cursor m of None \<Rightarrow> [] | Some cursor \<Rightarrow> cursor),
      sm_last_indexed = ix_last_indexed m, sm_last_fully_indexed = ix_last_fully_indexed m \<rparr>" if "m \<in> set (db_indexing s)" for c m
    using assms that by (auto simp: f_def directory_ok_def col_u32_def)
  have rows: "(c, m) \<in> set ?rows \<longleftrightarrow> m \<in> set (db_indexing s) \<and> row_by ct_id (db_contracts s) (ix_contract m) = Some c" for c m
    by (auto simp: List.map_filter_def sync_row_def image_iff)
  have "\<forall>x\<in>set ?rows. \<exists>y. f x = Inr y"
  proof
    fix x assume x: "x \<in> set ?rows"
    obtain c m where "x = (c, m)" by (cases x)
    then show "\<exists>y. f x = Inr y" using x rows val by blast
  qed
  then obtain sync where sync: "map_ok f ?rows = Inr sync" using map_ok_total by blast
  have "get_sync_metadata s = Inr sync" using sync by (simp add: get_sync_metadata_def f_def)
  moreover have "\<exists>meta\<in>set sync. sm_contract_id meta = ct_address c \<and> sm_last_fully_indexed meta = ix_last_fully_indexed m"
    if m: "m \<in> set (db_indexing s)" "row_by ct_id (db_contracts s) (ix_contract m) = Some c" for m c
    using map_ok_target [OF sync, of "(c, m)"] val [OF m(1)] rows m by (intro bexI) auto
  ultimately show ?thesis using that by blast
qed

definition reported :: "string \<Rightarrow> nat \<Rightarrow> storage \<Rightarrow> bool" where
  "reported contract latest s \<longleftrightarrow>
    (\<exists>m\<in>set (db_indexing s). \<exists>c. row_by ct_id (db_contracts s) (ix_contract m) = Some c \<and> ct_address c = contract \<and>
      ix_last_fully_indexed m = latest)"

lemma save_progress_reported:
  assumes "directory_ok s" and "sm_last_indexed e = latest"
  shows "reported contract latest s \<or> sm_contract_id e = contract \<Longrightarrow> reported contract latest (save_progress True e s)"
proof -
  obtain i t where t: "get_or_create_contract_id (sm_contract_id e) s = (i, t)" by fastforce
  note g = get_or_create_contract_id_spec [OF t assms(1)]
  obtain new where new: "t = s\<lparr> db_contracts := db_contracts s @ new \<rparr>" using g(2) by blast
  let ?u = "\<lambda>r. if ix_contract r \<noteq> i then r else r\<lparr> ix_last_cursor := Some (sm_cursor e), ix_last_indexed := sm_last_indexed e,
    ix_last_fully_indexed := sm_last_indexed e \<rparr>"
  let ?rows = "if i \<in> ix_contract ` set (db_indexing s) then db_indexing s
    else db_indexing s @ [\<lparr> ix_contract = i, ix_last_cursor = Some (sm_cursor e), ix_last_indexed = sm_last_indexed e,
      ix_last_fully_indexed = 0 \<rparr>]"
  have u: "save_progress True e s = t\<lparr> db_indexing := map ?u ?rows \<rparr>"
    by (simp add: save_progress_def t new Let_def cong: if_cong)
  assume "reported contract latest s \<or> sm_contract_id e = contract"
  then show ?thesis
  proof
    assume "reported contract latest s"
    then obtain m c where m: "m \<in> set (db_indexing s)" "row_by ct_id (db_contracts s) (ix_contract m) = Some c"
      "ct_address c = contract" "ix_last_fully_indexed m = latest" by (auto simp: reported_def)
    have "ix_contract m \<in> ct_id ` set (db_contracts s)" using m(2) by (metis option.distinct(1) row_by_None_iff)
    then have "row_by ct_id (db_contracts t) (ix_contract m) = Some c" using m(2) by (simp add: new row_by_append)
    moreover have "?u m \<in> set (map ?u ?rows)" using m(1) by auto
    ultimately show ?thesis
      unfolding reported_def u using m(3,4) assms(2) by (intro bexI [of _ "?u m"]) auto
  next
    assume c: "sm_contract_id e = contract"
    have "i \<in> ix_contract ` set ?rows" by simp
    then obtain m where m: "m \<in> set ?rows" "ix_contract m = i" by blast
    obtain r where "row_by ct_id (db_contracts t) i = Some r" "ct_address r = contract" using g(4) c by auto
    moreover have "?u m \<in> set (map ?u ?rows)" using m(1) by auto
    ultimately show ?thesis
      unfolding reported_def u using m(2) assms(2) by (intro bexI [of _ "?u m"]) auto
  qed
qed

lemma save_progress_fold_reported:
  assumes "directory_ok s" and "\<forall>e\<in>set es. sm_last_indexed e = latest" and "latest < 2 ^ 32"
    and "reported contract latest s \<or> contract \<in> sm_contract_id ` set es"
  shows "directory_ok (fold (save_progress True) es s) \<and> reported contract latest (fold (save_progress True) es s)"
  using assms(1,2,4)
proof (induction es arbitrary: s)
  case (Cons e es)
  have e: "sm_last_indexed e = latest" using Cons.prems(2) by simp
  have "directory_ok (save_progress True e s)" using save_progress_spec(1) [OF Cons.prems(1)] e assms(3) by simp
  moreover have "reported contract latest (save_progress True e s) \<or> contract \<in> sm_contract_id ` set es"
    using save_progress_reported [OF Cons.prems(1) e] Cons.prems(3) by auto
  ultimately show ?case using Cons.IH Cons.prems(2) by simp
qed simp

lemma save_progress_fold_stored:
  assumes "directory_ok s" and "\<forall>e\<in>set es. sm_last_indexed e < 2 ^ 32"
  shows "stored (fold (save_progress fully) es s) x = stored s x"
  using assms
proof (induction es arbitrary: s)
  case (Cons e es)
  have "stored (save_progress fully e s) x = stored s x"
    by (rule stored_same [OF save_progress_log(1) [OF Cons.prems(1)] save_progress_raw [OF Cons.prems(1)] Cons.prems(1)])
  then show ?case using Cons.IH [of "save_progress fully e s"] save_progress_spec(1) [OF Cons.prems(1)] Cons.prems(2) by simp
qed simp

text \<open>
  C39: A pool that is enabled later is not indexed from its start. When the contracts that were indexed before have a
  cursor and the service has nothing new behind it, a round asks only for what follows that cursor: it stores no event,
  and it reports every contract of the configuration as fully indexed up to the latest ledger, the contracts without
  any progress included, whatever events they published before.
\<close>

theorem added_pool_skipped:
  assumes "storage_reach S D s" and "get_sync_metadata s = Inr sync" and "resume_point ixr sync = (l, Some k)"
    and "svc_get_latest_ledger svc t = Inr tip"
    and "get_contract_events svc (Suc t) (ixr_contract_ids ixr) l PAGE_SIZE (Some k) = Inr (Some k', [], latest)"
    and "latest < 2 ^ 32" and "contract \<in> set (ixr_contract_ids ixr)" and "contract \<notin> sm_contract_id ` set sync"
  shows "\<exists>s' sync'. fetch_contract_events svc t ixr s = (Inr (), s') \<and> (\<forall>e. stored s' e = stored s e) \<and>
    get_sync_metadata s' = Inr sync' \<and>
    (\<exists>meta\<in>set sync'. sm_contract_id meta = contract \<and> sm_last_fully_indexed meta = latest)"
proof -
  let ?md = "page_progress ixr k' [] latest"
  let ?s = "fold (save_progress True) ?md s"
  have dir: "directory_ok s" by (rule storage_reach_directory [OF assms(1)])
  have md: "\<forall>e\<in>set ?md. sm_last_indexed e = latest" "contract \<in> sm_contract_id ` set ?md"
    using assms(7) by (auto simp: page_progress_def progress_ledger_def image_iff)
  have s: "directory_ok ?s" "reported contract latest ?s"
    using save_progress_fold_reported [OF dir md(1) assms(6)] md(2) by auto
  have "fetch_contract_events svc t ixr s = (Inr (), ?s)"
    using assms(2-5) by (simp add: fetch_contract_events_def MAX_PAGES_PER_ROUND_def numeral_eq_Suc save_batch_ok
        save_progress_ok page_data_def)
  moreover have "stored ?s e = stored s e" for e
    by (rule save_progress_fold_stored [OF dir]) (use md(1) assms(6) in simp)
  moreover obtain sync' where "get_sync_metadata ?s = Inr sync'"
    "\<And>m c. m \<in> set (db_indexing ?s) \<Longrightarrow> row_by ct_id (db_contracts ?s) (ix_contract m) = Some c \<Longrightarrow>
      \<exists>meta\<in>set sync'. sm_contract_id meta = ct_address c \<and> sm_last_fully_indexed meta = ix_last_fully_indexed m"
    by (rule sync_metadata_complete [OF s(1)]) blast
  ultimately show ?thesis using s(2) unfolding reported_def by metis
qed

definition two_pool_indexer :: indexer where
  "two_pool_indexer = \<lparr> ixr_contract_ids = [''pool'', ''pool2'', ''asp'', ''registry''], ixr_min_pool_ledger = 2 \<rparr>"

theorem added_pool_skipped_witness:
  "\<exists>s' sync'. fetch_contract_events sample_service 0 two_pool_indexer idx_db = (Inr (), s') \<and>
    (\<forall>e. stored s' e = stored idx_db e) \<and> get_sync_metadata s' = Inr sync' \<and>
    (\<exists>meta\<in>set sync'. sm_contract_id meta = ''pool2'' \<and> sm_last_fully_indexed meta = 3)"
proof (rule added_pool_skipped [OF _ sample_sync])
  show "storage_reach sample_log sample_derive idx_db"
    using client_reach_ok [OF sample_client _ sample_log_ok, of sample_pos] sample_service_ok by (simp add: client_ok_def)
  show "resume_point two_pool_indexer (map (\<lambda>c. \<lparr> sm_contract_id = c, sm_cursor = ''xxxxx'', sm_last_indexed = 3,
      sm_last_fully_indexed = 3 \<rparr>) [''pool'', ''asp'', ''registry'']) = (3, Some ''xxxxx'')"
    by (simp add: resume_point_def active_sync_def two_pool_indexer_def Let_def)
  show "get_contract_events sample_service (Suc 0) (ixr_contract_ids two_pool_indexer) 3 PAGE_SIZE (Some ''xxxxx'') =
      Inr (Some ''xxxxx'', [], 3)"
    by (rule sample_pages(2))
qed (simp_all add: sample_service_def two_pool_indexer_def)

section \<open>Windows without events\<close>

lemma clear_directory:
  assumes "directory_ok s" and "clear_indexing_cursors s = (r, s')"
  shows "directory_ok s'"
proof -
  have s': "s' = s\<lparr> db_indexing := map (\<lambda>r. r\<lparr> ix_last_cursor := None \<rparr>) (db_indexing s) \<rparr>"
    using assms(2) by (simp add: clear_indexing_cursors_def)
  show ?thesis using assms(1) by (simp add: s' directory_ok_def o_def image_image)
qed

text \<open>After a reset of the cursors a round starts from the ledgers in the table.\<close>

lemma resume_after_reset:
  assumes "directory_ok s" and "\<And>m. m \<in> set (db_indexing s) \<Longrightarrow> row_address s m \<in> Some ` set (ixr_contract_ids ixr) \<Longrightarrow>
      ix_last_indexed m = latest"
    and "contract \<in> set (ixr_contract_ids ixr)" and "reported contract latest s"
    and "clear_indexing_cursors s = (r, s')" and "get_sync_metadata s' = Inr sync"
  shows "resume_point ixr sync = (latest, None)"
proof -
  have s': "s' = s\<lparr> db_indexing := map (\<lambda>r. r\<lparr> ix_last_cursor := None \<rparr>) (db_indexing s) \<rparr>"
    using assms(5) by (simp add: clear_indexing_cursors_def)
  note dir = clear_directory [OF assms(1,5)]
  let ?active = "active_sync (ixr_contract_ids ixr) sync"
  have active: "sm_last_indexed x = latest \<and> sm_cursor x = []" if x: "x \<in> set ?active" for x
  proof -
    have "x \<in> set sync" "sm_contract_id x \<in> set (ixr_contract_ids ixr)" using x by (simp_all add: active_sync_def)
    then obtain m' c where m': "m' \<in> set (db_indexing s')" "row_by ct_id (db_contracts s') (ix_contract m') = Some c"
      "sm_contract_id x = ct_address c" "sm_last_indexed x = ix_last_indexed m'"
      "sm_cursor x = (case ix_last_cursor m' of None \<Rightarrow> [] | Some cursor \<Rightarrow> cursor)"
      using sync_metadata_row [OF assms(6)] by metis
    then obtain m where m: "m \<in> set (db_indexing s)" "m' = m\<lparr> ix_last_cursor := None \<rparr>" by (auto simp: s')
    have "row_address s m = Some (sm_contract_id x)" using m' m by (simp add: row_address_def s')
    then show ?thesis
      using assms(2) [OF m(1)] m' m(2) \<open>sm_contract_id x \<in> set (ixr_contract_ids ixr)\<close> by simp
  qed
  obtain m c where m: "m \<in> set (db_indexing s)" "row_by ct_id (db_contracts s) (ix_contract m) = Some c" "ct_address c = contract"
    using assms(4) by (auto simp: reported_def)
  have "?active \<noteq> []"
  proof -
    obtain sync' where sync': "get_sync_metadata s' = Inr sync'"
      "\<And>m c. m \<in> set (db_indexing s') \<Longrightarrow> row_by ct_id (db_contracts s') (ix_contract m) = Some c \<Longrightarrow>
        \<exists>meta\<in>set sync'. sm_contract_id meta = ct_address c \<and> sm_last_fully_indexed meta = ix_last_fully_indexed m"
      by (rule sync_metadata_complete [OF dir]) blast
    have "m\<lparr> ix_last_cursor := None \<rparr> \<in> set (db_indexing s')" using m(1) by (simp add: s')
    moreover have "row_by ct_id (db_contracts s') (ix_contract (m\<lparr> ix_last_cursor := None \<rparr>)) = Some c" using m(2) by (simp add: s')
    ultimately obtain meta where "meta \<in> set sync" "sm_contract_id meta = contract"
      using sync' assms(6) m(3) by fastforce
    then show ?thesis using assms(3) by (auto simp: active_sync_def filter_empty_conv)
  qed
  moreover have "iter_min (map sm_last_indexed ?active) = Some latest"
  proof -
    have fold: "foldr min xs (latest :: nat) = latest" if "\<forall>x\<in>set xs. x = latest" for xs using that by (induction xs) auto
    obtain x xs where "?active = x # xs" using \<open>?active \<noteq> []\<close> by (cases ?active) auto
    then show ?thesis using active fold [of "map sm_last_indexed xs"] by simp
  qed
  moreover have "filter (\<lambda>c. c \<noteq> []) (map sm_cursor ?active) = []" using active by (simp add: filter_empty_conv)
  moreover have "sm_cursor (hd ?active) = []" using active \<open>?active \<noteq> []\<close> by simp
  ultimately show ?thesis by (cases ?active) (simp_all add: resume_point_def Let_def)
qed

text \<open>
  C40: An empty page stops the indexer although events follow. The service scans a bounded window of ledgers per
  request, so that a page may be empty while later windows hold events. When a round receives an empty page,
  it succeeds, stores nothing and reports every contract as fully indexed up to the latest ledger of the network, an
  event of the log below that ledger that is not stored notwithstanding. When the listener then clears the cursors to
  change the service, the next round starts at that ledger, behind the event, which is never requested again.
\<close>

theorem empty_window_skipped:
  assumes "storage_reach S D s" and "get_sync_metadata s = Inr sync" and "resume_point ixr sync = (l, c)"
    and "svc_get_latest_ledger svc t = Inr tip"
    and "get_contract_events svc (Suc t) (ixr_contract_ids ixr) l PAGE_SIZE c = Inr (Some k, [], latest)"
    and "latest < 2 ^ 32" and "ixr_contract_ids ixr \<noteq> []"
    and "log_ok m G" and "e \<in> set G" and "\<not> stored s e" and "ce_ledger e < latest"
  shows "\<exists>s' sync' s'' sync''. fetch_contract_events svc t ixr s = (Inr (), s') \<and> \<not> stored s' e \<and>
    get_sync_metadata s' = Inr sync' \<and>
    list_all (\<lambda>contract. \<exists>meta\<in>set sync'. sm_contract_id meta = contract \<and> sm_last_fully_indexed meta = latest)
      (ixr_contract_ids ixr) \<and>
    clear_indexing_cursors s' = (Inr (), s'') \<and> get_sync_metadata s'' = Inr sync'' \<and>
    resume_point ixr sync'' = (latest, None) \<and> e \<notin> set (drop (start_position G pos (request_start latest None)) G)"
proof -
  let ?md = "page_progress ixr k [] latest"
  define s' where "s' = fold (save_progress True) ?md s"
  have dir: "directory_ok s" by (rule storage_reach_directory [OF assms(1)])
  have md: "\<forall>x\<in>set ?md. sm_cursor x = k \<and> sm_last_indexed x = latest" "\<forall>x\<in>set ?md. sm_last_indexed x = latest"
    "sm_contract_id ` set ?md = set (ixr_contract_ids ixr)"
    by (simp_all add: page_progress_def progress_ledger_def image_image)
  note rows = save_progress_fold_rows [OF dir md(1) assms(6), of True, folded s'_def, unfolded md(3)]
  have rep: "directory_ok s'" "reported contract latest s'" if "contract \<in> set (ixr_contract_ids ixr)" for contract
    using save_progress_fold_reported [OF dir md(2) assms(6), of contract] md(3) that by (auto simp: s'_def)
  obtain contract where contract: "contract \<in> set (ixr_contract_ids ixr)" using assms(7) by (cases "ixr_contract_ids ixr") auto
  note dir' = rep(1) [OF contract]
  have fetch: "fetch_contract_events svc t ixr s = (Inr (), s')"
    using assms(2-5) by (simp add: fetch_contract_events_def MAX_PAGES_PER_ROUND_def numeral_eq_Suc save_batch_ok
        save_progress_ok page_data_def s'_def)
  obtain sync' where sync': "get_sync_metadata s' = Inr sync'"
    "\<And>m c. m \<in> set (db_indexing s') \<Longrightarrow> row_by ct_id (db_contracts s') (ix_contract m) = Some c \<Longrightarrow>
      \<exists>meta\<in>set sync'. sm_contract_id meta = ct_address c \<and> sm_last_fully_indexed meta = ix_last_fully_indexed m"
    by (rule sync_metadata_complete [OF dir']) blast
  have marks: "list_all (\<lambda>contract. \<exists>meta\<in>set sync'. sm_contract_id meta = contract \<and> sm_last_fully_indexed meta = latest)
      (ixr_contract_ids ixr)"
    using rep(2) sync'(2) unfolding list_all_iff reported_def by metis
  obtain s'' where clear: "clear_indexing_cursors s' = (Inr (), s'')" by (simp add: clear_indexing_cursors_def)
  then obtain sync'' where sync'': "get_sync_metadata s'' = Inr sync''" using sync_metadata_complete clear_directory [OF dir'] by metis
  have "ix_last_indexed x = latest"
    if x: "x \<in> set (db_indexing s')" "row_address s' x \<in> Some ` set (ixr_contract_ids ixr)" for x
    using bspec [OF conjunct2 [OF conjunct2 [OF rows]] x(1)] x(2) by auto
  then have "resume_point ixr sync'' = (latest, None)"
    by (rule resume_after_reset [OF dir' _ contract rep(2) [OF contract] clear sync''])
  moreover have "e \<notin> set (drop (length (takeWhile (\<lambda>e. ce_ledger e < latest) G)) G)"
  proof
    assume "e \<in> set (drop (length (takeWhile (\<lambda>e. ce_ledger e < latest) G)) G)"
    then have drop: "e \<in> set (dropWhile (\<lambda>e. ce_ledger e < latest) G)" by (simp add: dropWhile_eq_drop)
    have "sorted (map ce_ledger (dropWhile (\<lambda>e. ce_ledger e < latest) G))"
      using assms(8) sorted_append by (metis log_ok_def map_append takeWhile_dropWhile_id)
    moreover obtain x xs where xs: "dropWhile (\<lambda>e. ce_ledger e < latest) G = x # xs" using drop by (cases "dropWhile (\<lambda>e. ce_ledger e < latest) G") auto
    ultimately have "ce_ledger x \<le> ce_ledger e" using drop by auto
    moreover have "\<not> ce_ledger x < latest" using hd_dropWhile [of "\<lambda>e. ce_ledger e < latest" G] xs by auto
    ultimately show False using assms(11) by simp
  qed
  moreover have "\<not> stored s' e" using rows assms(10) by simp
  ultimately show ?thesis
    using fetch sync'(1) marks clear sync'' by (auto simp: start_position_def request_start_def)
qed

text \<open>A service whose first window ends before the events: it conforms to \<open>service_ok\<close>, like every window length.\<close>

definition windowed_service :: rpc_service where
  "windowed_service = \<lparr>
     svc_get_events = (\<lambda>t start ids limit.
       let p = start_position (ed_events sample_batch) sample_pos start;
           es = (case start of StartCursor _ \<Rightarrow> take limit (drop p (ed_events sample_batch)) | _ \<Rightarrow> []) in
       Inr \<lparr> ge_events = map sample_rpc_event es, ge_latest_ledger = 9, ge_latest_close_time = [], ge_oldest_ledger = 0,
             ge_oldest_close_time = [], ge_cursor = replicate (Suc (p + length es)) CHR ''x'' \<rparr>),
     svc_get_latest_ledger = (\<lambda>t. Inr 9) \<rparr>"

lemma windowed_service_ok: "service_ok ids (ed_events sample_batch) sample_pos windowed_service"
  by (auto simp: service_ok_def page_of_def windowed_service_def sample_pos_def Let_def o_def take_rest split: event_start.split)

theorem empty_window_skipped_witness:
  "service_ok (ixr_contract_ids sample_indexer) (ed_events sample_batch) sample_pos windowed_service \<and>
   (\<exists>s' sync' s'' sync''. fetch_contract_events windowed_service 0 sample_indexer empty_storage = (Inr (), s') \<and>
    \<not> stored s' (hd (ed_events sample_batch)) \<and> get_sync_metadata s' = Inr sync' \<and>
    list_all (\<lambda>contract. \<exists>meta\<in>set sync'. sm_contract_id meta = contract \<and> sm_last_fully_indexed meta = 9)
      (ixr_contract_ids sample_indexer) \<and>
    clear_indexing_cursors s' = (Inr (), s'') \<and> get_sync_metadata s'' = Inr sync'' \<and>
    resume_point sample_indexer sync'' = (9, None) \<and>
    hd (ed_events sample_batch) \<notin>
      set (drop (start_position (ed_events sample_batch) sample_pos (request_start 9 None)) (ed_events sample_batch)))"
proof
  show "service_ok (ixr_contract_ids sample_indexer) (ed_events sample_batch) sample_pos windowed_service"
    by (rule windowed_service_ok)
next
  have start: "resume_point sample_indexer [] = (3, None)"
    by (simp add: resume_point_def active_sync_def sample_indexer_def Let_def)
  have page: "get_contract_events windowed_service (Suc 0) (ixr_contract_ids sample_indexer) 3 PAGE_SIZE None = Inr (Some ''x'', [], 9)"
    by (simp add: get_contract_events_def windowed_service_def start_position_def sample_batch_def)
  show "\<exists>s' sync' s'' sync''. fetch_contract_events windowed_service 0 sample_indexer empty_storage = (Inr (), s') \<and>
    \<not> stored s' (hd (ed_events sample_batch)) \<and> get_sync_metadata s' = Inr sync' \<and>
    list_all (\<lambda>contract. \<exists>meta\<in>set sync'. sm_contract_id meta = contract \<and> sm_last_fully_indexed meta = 9)
      (ixr_contract_ids sample_indexer) \<and>
    clear_indexing_cursors s' = (Inr (), s'') \<and> get_sync_metadata s'' = Inr sync'' \<and>
    resume_point sample_indexer sync'' = (9, None) \<and>
    hd (ed_events sample_batch) \<notin>
      set (drop (start_position (ed_events sample_batch) sample_pos (request_start 9 None)) (ed_events sample_batch))"
  proof (rule empty_window_skipped [OF _ _ start _ page _ _ sample_log_ok])
    show "storage_reach sample_log sample_derive empty_storage" by (rule reach_connect)
    show "get_sync_metadata empty_storage = Inr []" by (simp add: get_sync_metadata_def empty_storage_def List.map_filter_def)
    show "\<not> stored empty_storage (hd (ed_events sample_batch))" by (simp add: stored_def empty_storage_def)
  qed (simp_all add: windowed_service_def sample_indexer_def sample_batch_def)
qed

end
