(* ===== verification/Storage_Contract.thy ===== *)
theory Storage_Contract
  imports Indexer_Properties Hash_Agreement Asp_Membership Pool
begin

text \<open>
  The local database and the contracts: when the stored events are those that a contract published, the leaves
  that the database returns are the leaves of the contract's tree.
\<close>

section \<open>Contract history in the local database\<close>

text \<open>
  What the client relies on about the RPC service and the indexer: the stored events of a contract are the
  wire forms of the events that the contract published.
\<close>

definition indexed :: "storage \<Rightarrow> string \<Rightarrow> ('e \<Rightarrow> contract_event \<Rightarrow> bool) \<Rightarrow> 'e list \<Rightarrow> bool" where
  "indexed s contract wire log \<longleftrightarrow>
    (\<forall>ev\<in>set log. \<exists>r\<in>set (db_raw s). \<exists>e. event_of_raw s r = Some e \<and> ce_contract_id e = contract \<and> wire ev e) \<and>
    (\<forall>r\<in>set (db_raw s). \<forall>e. event_of_raw s r = Some e \<longrightarrow> ce_contract_id e = contract \<longrightarrow> (\<exists>ev\<in>set log. wire ev e))"

lemma event_address_iff:
  assumes "directory_ok s" and "r \<in> set (db_raw s)" and "event_of_raw s r = Some e"
  shows "event_address s (raw_id r) = Some (ce_contract_id e)"
proof -
  have "row_by raw_id (db_raw s) (raw_id r) = Some r" using assms by (simp add: directory_ok_def row_by_Some_iff)
  then show ?thesis
    using assms(3) by (auto simp: event_address_def event_contract_def event_row_def event_of_raw_def)
qed

lemma derived_source:
  assumes "storage_reach S D s" and "p \<in> derived_events s"
  obtains r e where "r \<in> set (db_raw s)" "event_of_raw s r = Some e" "parse_event S e = Inr p" "processed_id p = raw_id r"
    "event_address s (processed_id p) = Some (ce_contract_id e)"
proof -
  have h: "provenance S s" "directory_ok s"
    using history_invariant [OF assms(1)] history_ok_base(2) by (auto simp: history_ok_def)
  then obtain r e where r: "r \<in> set (db_raw s)" "event_of_raw s r = Some e" "parse_event S e = Inr p"
    using assms(2) unfolding provenance_def parsed_from_def by blast
  then have "processed_id p = raw_id r" using parse_event_id event_of_raw_id by metis
  then show ?thesis using that r event_address_iff [OF h(2) r(1,2)] by simp
qed

lemma indexed_derived:
  assumes "storage_reach S D s" and "get_unprocessed_events limit s = Inr []" and "0 < limit"
    and "indexed s contract wire log" and "ev \<in> set log"
  obtains e p where "wire ev e" "parse_event S e = Inr p" "p \<in> derived_events s" "processed_id p = ce_id e"
    "event_address s (ce_id e) = Some contract"
proof -
  have h: "provenance S s" "directory_ok s"
    using history_invariant [OF assms(1)] history_ok_base(2) by (auto simp: history_ok_def)
  obtain r e where r: "r \<in> set (db_raw s)" "event_of_raw s r = Some e" "ce_contract_id e = contract" "wire ev e"
    using assms(4,5) unfolding indexed_def by blast
  obtain p where p: "p \<in> derived_events s" "raw_id r = processed_id p"
    using nothing_unprocessed [OF assms(2,3) h(2) r(1)] by blast
  obtain r' e' where r': "r' \<in> set (db_raw s)" "event_of_raw s r' = Some e'" "parse_event S e' = Inr p" "processed_id p = raw_id r'"
    by (rule derived_source [OF assms(1) p(1)])
  have "r' = r" using p(2) r'(1,4) r(1) h(2) by (auto simp: directory_ok_def distinct_map inj_on_def)
  then have "parse_event S e = Inr p" "ce_id e = raw_id r" using r' r event_of_raw_id by auto
  then show ?thesis using that [of e p] r p event_address_iff [OF h(2) r(1,2)] by simp
qed

text \<open>The commitments that events announce, with their leaf indices, in the order of the events.\<close>

definition announced :: "pool_event list \<Rightarrow> (nat \<times> 256 word) list" where
  "announced evs = List.map_filter (\<lambda>ev. case ev of NewCommitmentEvent c i enc \<Rightarrow> Some (i, c) | _ \<Rightarrow> None) evs"

lemma announced_iff: "(i, c) \<in> set (announced evs) \<longleftrightarrow> (\<exists>enc. NewCommitmentEvent c i enc \<in> set evs)"
  unfolding announced_def by (induction evs) (auto simp: map_filter_simps split: pool_event.splits)

lemma announced_append: "announced (xs @ ys) = announced xs @ announced ys"
  unfolding announced_def by (induction xs) (auto simp: map_filter_simps split: option.splits)

lemma announced_take: "\<exists>j. announced (take m evs) = take j (announced evs)"
proof
  show "announced (take m evs) = take (length (announced (take m evs))) (announced evs)"
    by (metis announced_append append_eq_conv_conj append_take_drop_id)
qed

text \<open>A transaction announces its two commitments at the next two leaves.\<close>

lemma announced_txs: "announced (txs_events txs) = zip [0..<2 * length txs] (txs_commitments txs)"
proof (induction txs rule: rev_induct)
  case Nil
  then show ?case by (simp add: txs_events_def announced_def map_filter_simps)
next
  case (snoc tx txs)
  have none: "announced (map NewNullifierEvent ns) = []" for ns
    unfolding announced_def by (induction ns) (simp_all add: map_filter_simps)
  have "announced (tx_events (tx_proof tx) (tx_ext tx) (2 * length txs)) =
      zip [2 * length txs, Suc (2 * length txs)] (tx_commitments tx)"
    unfolding tx_events_def announced_append none by (simp add: announced_def map_filter_simps tx_commitments_def)
  then show ?case using snoc by (simp add: txs_events_append announced_append zip_append)
qed

lemma mset_eq_of_set:
  "distinct xs \<Longrightarrow> distinct ys \<Longrightarrow> set xs = set ys \<Longrightarrow> mset xs = mset ys"
  by (simp add: set_eq_iff_mset_eq_distinct [symmetric])

lemma distinct_zip_upt: "distinct (zip [0..<length ls] ls)"
  by (simp add: distinct_zipI1)

text \<open>When the stored events announce \<open>cs\<close> from the first leaf on, the rows of the contract are exactly those leaves.\<close>

lemma pool_rows_exact:
  assumes "storage_reach S D s" and "get_unprocessed_events limit s = Inr []" and "0 < limit"
    and "indexed s contract (pool_event_wire S) evs" and "announced evs = zip [0..<length cs] cs"
  shows "mset (map (\<lambda>c. (cm_leaf_index c, cm_commitment c))
      (filter (\<lambda>c. event_address s (cm_event c) = Some contract) (db_commitments s))) =
    mset (zip [0..<length cs] (map Field cs))"
    and "list_all (\<lambda>x. x < bn256_modulus) cs"
proof -
  let ?ls = "map Field cs" and ?f = "\<lambda>c. (cm_leaf_index c, cm_commitment c)"
  let ?rows = "filter (\<lambda>c. event_address s (cm_event c) = Some contract) (db_commitments s)"
  have ann: "(\<exists>enc. NewCommitmentEvent c i enc \<in> set evs) \<longleftrightarrow> i < length cs \<and> c = cs ! i" for i c
    unfolding announced_iff [symmetric] assms(5) by (auto simp: in_set_zip intro!: exI [of _ i])
  have row: "(i, ?ls ! i) \<in> ?f ` set ?rows \<and> cs ! i < bn256_modulus" if i: "i < length cs" for i
  proof -
    obtain enc where ev: "NewCommitmentEvent (cs ! i) i enc \<in> set evs" using ann i by blast
    obtain e p where e: "pool_event_wire S (NewCommitmentEvent (cs ! i) i enc) e" "parse_event S e = Inr p"
      "p \<in> derived_events s" "processed_id p = ce_id e" "event_address s (ce_id e) = Some contract"
      by (rule indexed_derived [OF assms(1-4) ev])
    have p: "p = Commitment (ce_id e) (Field (cs ! i)) i enc" "cs ! i < bn256_modulus"
      using pool_events_parse(1) [OF e(1)] e(2) by (auto split: if_splits)
    then obtain c where "c \<in> set (db_commitments s)" "cm_commitment c = Field (cs ! i)" "cm_leaf_index c = i"
      "cm_event c = ce_id e" using e(3) by (auto simp: derived_events_def event_of_defs)
    then show ?thesis using e(5) p(2) i by (auto intro!: image_eqI [of _ _ c])
  qed
  then show "list_all (\<lambda>x. x < bn256_modulus) cs" by (auto simp: list_all_length)
  have "?f c \<in> set (zip [0..<length cs] ?ls)" if c: "c \<in> set ?rows" for c
  proof -
    have "commitment_event_of c \<in> derived_events s" using c by (simp add: derived_events_def)
    then obtain r e where r: "r \<in> set (db_raw s)" "event_of_raw s r = Some e" "parse_event S e = Inr (commitment_event_of c)"
      "event_address s (processed_id (commitment_event_of c)) = Some (ce_contract_id e)"
      by (rule derived_source [OF assms(1)])
    then have "ce_contract_id e = contract" using c by (simp add: event_of_defs)
    then obtain ev where ev: "ev \<in> set evs" "pool_event_wire S ev e" using assms(4) r(1,2) unfolding indexed_def by blast
    show ?thesis
    proof (cases ev)
      case (NewCommitmentEvent x i enc)
      then have "cm_commitment c = Field x" "cm_leaf_index c = i"
        using pool_events_parse(1) ev(2) r(3) by (auto simp: event_of_defs split: if_splits)
      moreover have "i < length cs \<and> x = cs ! i" using ann ev(1) NewCommitmentEvent by blast
      ultimately show ?thesis by (auto simp: in_set_zip intro!: exI [of _ i])
    next
      case (NewNullifierEvent x)
      then show ?thesis using pool_events_parse(2) ev(2) r(3) by (auto simp: event_of_defs split: if_splits)
    qed
  qed
  moreover have "(i, x) \<in> ?f ` set ?rows" if "(i, x) \<in> set (zip [0..<length cs] ?ls)" for i x
    using row that by (fastforce simp: in_set_zip)
  ultimately have "set (map ?f ?rows) = set (zip [0..<length cs] ?ls)" by auto
  moreover have "distinct (map ?f ?rows)"
  proof -
    have "distinct (map cm_commitment (db_commitments s))"
      using history_invariant [OF assms(1)] by (simp add: history_ok_def storage_ok_def base_ok_def events_ok_def table_ok_defs)
    then have "distinct (map cm_commitment ?rows)" by (rule distinct_map_filter)
    then show ?thesis by (auto simp: distinct_map inj_on_def)
  qed
  moreover have "distinct (zip [0..<length cs] ?ls)" using distinct_zip_upt [of ?ls] by simp
  ultimately show "mset (map ?f ?rows) = mset (zip [0..<length cs] ?ls)" using mset_eq_of_set by blast
qed

text \<open>
  The database gives the client the leaves of the pool. For a pool contract with any history of transactions,
  let a reachable database hold the first \<open>m\<close> events that the contract published, and no unprocessed event. Then the
  ordered leaves that the database returns are the commitments that these events announce, in order, whatever order
  SQLite visits the rows in and in whatever order the events were stored and processed.
\<close>

lemma pool_leaves_of_events:
  assumes "storage_reach S D s" and "get_unprocessed_events limit s = Inr []" and "0 < limit" and "plan_ok plan"
    and "2 * length txs < 2 ^ 32" and "indexed s contract (pool_event_wire S) (take m (txs_events txs))"
  obtains n where "n \<le> 2 * length txs"
    "get_pool_commitment_leaves_ordered plan contract s = Inr (map Field (take n (txs_commitments txs)))"
    "length (txs_events txs) \<le> m \<Longrightarrow> n = 2 * length txs"
proof -
  obtain j where j: "announced (take m (txs_events txs)) = take j (zip [0..<2 * length txs] (txs_commitments txs))"
    using announced_take announced_txs by metis
  define n where "n = (if length (txs_events txs) \<le> m then 2 * length txs else min j (2 * length txs))"
  have "announced (take m (txs_events txs)) = zip [0..<length (take n (txs_commitments txs))] (take n (txs_commitments txs))"
  proof (cases "length (txs_events txs) \<le> m")
    case True
    then show ?thesis by (simp add: n_def announced_txs)
  next
    case False
    then show ?thesis using j by (simp add: n_def take_zip min.commute take_upt min_def)
  qed
  note rows = pool_rows_exact(1) [OF assms(1-3) assms(6) this]
  have "get_pool_commitment_leaves_ordered plan contract s = Inr (map Field (take n (txs_commitments txs)))"
    unfolding pool_leaves_iff [OF assms(4)] using rows assms(5) by (simp add: min_less_iff_disj)
  then show ?thesis using that [of n] by (simp add: n_def)
qed

text \<open>With the host computing Poseidon2, the client's own tree over the leaves has the root of the contract.\<close>

lemma client_tree_of_contract:
  assumes "storage_reach S D s" and "get_unprocessed_events limit s = Inr []" and "0 < limit"
    and "host_permutation_ok P" and "zero_table_ok P" and "host_is_poseidon2 P"
    and "pool_reachable P d txs log ps w" and "2 * length txs < 2 ^ 32"
    and "indexed s contract (pool_event_wire S) log"
  shows "let_ok (prefix_tree_new d (map Field (txs_commitments txs))) prefix_root =
    Inr (Field (pool_root_of P d (txs_commitments txs)))"
proof -
  have rel: "pool_rel P d (txs_commitments txs) (txs_nullifiers txs) ps" and log: "log = txs_events txs"
    using pool_reachable_rel [OF assms(4,5,7)] by auto
  have "announced log = zip [0..<length (txs_commitments txs)] (txs_commitments txs)" by (simp add: log announced_txs)
  note rows = pool_rows_exact [OF assms(1-3,9) this]
  have "1 \<le> d" "d \<le> 32" using rel by (simp_all add: pool_rel_def pool_tree_rel_def)
  then show ?thesis using client_root_contract [OF assms(4,6) rows(2)] assms(8) by simp
qed

section \<open>From the contract to the client\<close>

text \<open>A stored first part of the log holds a first part of the events of each contract.\<close>

lemma indexed_prefix:
  assumes "\<And>e. stored s e \<longleftrightarrow> e \<in> set (take n G)" and "list_all2 wire log (filter (\<lambda>e. ce_contract_id e = contract) G)"
  obtains m where "indexed s contract wire (take m log)"
    "(\<And>e. e \<in> set G \<Longrightarrow> ce_contract_id e = contract \<Longrightarrow> stored s e) \<Longrightarrow> log_ok l G \<Longrightarrow> length log \<le> m"
proof -
  let ?own = "filter (\<lambda>e. ce_contract_id e = contract)"
  define m where "m = length (?own (take n G))"
  have split: "?own G = ?own (take n G) @ ?own (drop n G)" by (metis append_take_drop_id filter_append)
  then have take: "take m (?own G) = ?own (take n G)" by (simp add: m_def)
  then have wire: "list_all2 wire (take m log) (?own (take n G))" using list_all2_takeI [OF assms(2), of m] by simp
  have "\<exists>r\<in>set (db_raw s). \<exists>e. event_of_raw s r = Some e \<and> ce_contract_id e = contract \<and> wire ev e" if ev: "ev \<in> set (take m log)" for ev
  proof -
    obtain e where "e \<in> set (?own (take n G))" "wire ev e"
      using wire ev by (metis in_set_conv_nth list_all2_conv_all_nth)
    then have "stored s e" "ce_contract_id e = contract" "wire ev e" using assms(1) by auto
    then show ?thesis by (auto simp: stored_def)
  qed
  moreover have "\<exists>ev\<in>set (take m log). wire ev e" if r: "r \<in> set (db_raw s)" "event_of_raw s r = Some e" "ce_contract_id e = contract" for r e
  proof -
    have "stored s e" using r(1,2) by (auto simp: stored_def)
    then have "e \<in> set (?own (take n G))" using assms(1) r(3) by simp
    then show ?thesis using wire by (metis in_set_conv_nth list_all2_conv_all_nth)
  qed
  moreover have "length log \<le> m" if all: "\<And>e. e \<in> set G \<Longrightarrow> ce_contract_id e = contract \<Longrightarrow> stored s e" and ok: "log_ok l G"
  proof -
    have dist: "distinct (?own (take n G) @ ?own (drop n G))" 
      using ok unfolding split [symmetric] by (auto simp: log_ok_def distinct_map)
    have "?own (drop n G) = []"
    proof (rule ccontr)
      assume "?own (drop n G) \<noteq> []"
      then obtain e where e: "e \<in> set (?own (drop n G))" by (cases "?own (drop n G)") auto
      then have "e \<in> set (?own (take n G))" using all [of e] assms(1) by (auto dest: in_set_dropD)
      then show False using dist e by auto
    qed
    then show ?thesis using list_all2_lengthD [OF assms(2)] split by (simp add: m_def)
  qed
  ultimately show ?thesis using that [of m] unfolding indexed_def by blast
qed

text \<open>
  C35: From the contract to the client's tree. A pool contract runs any history of transactions; a service as
  documented, with windows as short as it likes, reports the events; the indexer, the processor and the other requests
  of the client interleave in any way, and no cursor is cleared. When no event waits to be processed, the ordered
  leaves that the database returns are the first commitments of the pool, in order and without a gap, whatever
  order SQLite visits the rows in. When the cursor that the database holds lies behind the events of the contract,
  they are all of them, and the root that the contract reports is the root of the tree over them.
\<close>

theorem client_rebuilds_pool:
  assumes "client_reach S D False svcs ixr (pc, s)"
    and "\<forall>svc\<in>svcs. service_ok (ixr_contract_ids ixr) G pos svc" and "log_ok (ixr_min_pool_ledger ixr) G"
    and "get_sync_metadata s = Inr sync"
    and "get_unprocessed_events limit s = Inr []" and "0 < limit" and "plan_ok plan"
    and "host_permutation_ok P" and "zero_table_ok P"
    and "pool_reachable P d txs log ps w" and "2 * length txs < 2 ^ 32"
    and "list_all2 (pool_event_wire S) log (filter (\<lambda>e. ce_contract_id e = contract) G)"
  shows "\<exists>n \<le> 2 * length txs.
    get_pool_commitment_leaves_ordered plan contract s = Inr (map Field (take n (txs_commitments txs))) \<and>
    ((\<exists>meta\<in>set sync. \<forall>e\<in>set G. ce_contract_id e = contract \<longrightarrow> e \<in> set (take (pos (sm_cursor meta)) G)) \<longrightarrow>
      get_pool_commitment_leaves_ordered plan contract s = Inr (map Field (txs_commitments txs)) \<and>
      mh_get_last_root (ps_tree ps) = Inr (pool_root_of P d (txs_commitments txs)))"
proof -
  have rel: "pool_rel P d (txs_commitments txs) (txs_nullifiers txs) ps" and log: "log = txs_events txs"
    using pool_reachable_rel [OF assms(8,9,10)] by auto
  then have "pool_tree_rel P d (txs_commitments txs) (ps_tree ps)" by (simp add: pool_rel_def)
  then have root: "mh_get_last_root (ps_tree ps) = Inr (pool_root_of P d (txs_commitments txs))" by (rule mh_get_last_root_rel)
  have ok: "storage_reach S D s" "prefix_stored G s" "progress_valid (ixr_contract_ids ixr) G pos s"
    using client_reach_ok [OF assms(1-3)] by (simp_all add: client_ok_def)
  obtain n where n: "stored s e \<longleftrightarrow> e \<in> set (take n G)" for e using ok(2) by (auto simp: prefix_stored_def)
  obtain m where m: "indexed s contract (pool_event_wire S) (take m log)"
    "(\<And>e. e \<in> set G \<Longrightarrow> ce_contract_id e = contract \<Longrightarrow> stored s e) \<Longrightarrow> log_ok (ixr_min_pool_ledger ixr) G \<Longrightarrow> length log \<le> m"
    by (rule indexed_prefix [OF n assms(12)]) blast
  obtain j where j: "j \<le> 2 * length txs"
    "get_pool_commitment_leaves_ordered plan contract s = Inr (map Field (take j (txs_commitments txs)))"
    "length (txs_events txs) \<le> m \<Longrightarrow> j = 2 * length txs"
    by (rule pool_leaves_of_events [OF ok(1) assms(5-7,11) m(1) [unfolded log]]) blast
  have "j = 2 * length txs" if meta: "meta \<in> set sync"
    and past: "\<forall>e\<in>set G. ce_contract_id e = contract \<longrightarrow> e \<in> set (take (pos (sm_cursor meta)) G)" for meta
  proof -
    have "list_all (stored s) (take (pos (sm_cursor meta)) G)" by (rule cursor_stored [OF assms(4) meta ok(3)])
    then have "stored s e" if "e \<in> set G" "ce_contract_id e = contract" for e using past that by (auto simp: list_all_iff)
    then show ?thesis using j(3) m(2) [OF _ assms(3)] by (simp add: log)
  qed
  then show ?thesis using j(1,2) root by (intro exI [of _ j]) auto
qed

definition seen_db :: storage where
  "seen_db = snd (process_events sample_log 50 idx_db)"

lemma sample_unprocessed_indexed: "get_unprocessed_events 50 idx_db = Inr (ed_events sample_batch)"
  by (simp add: get_unprocessed_events_def idx_db_def db_eqs processed_ids_def event_of_raw_def map_filter_simps
      sample_batch_def col_u32_def row_by_def char_less_iff Cons_less_Cons)

lemma seen_db_eq: "seen_db = idx_db\<lparr> db_nullifiers := db_nullifiers db3, db_commitments := db_commitments db3 \<rparr>"
  unfolding seen_db_def process_events_def sample_unprocessed_indexed sum.case sample_parsed Let_def
  by (simp add: sample_batch_def nullifier_events_def commitment_events_def public_key_events_def leaf_added_events_def
      map_filter_simps save_nullifier_events_batch_def save_commitment_events_batch_def save_public_key_events_batch_def
      save_leaf_added_events_batch_def save_nullifier_def save_commitment_def insert_derived_def db_eqs idx_db_def
      db_simps)

theorem client_rebuilds_pool_witness:
  "\<exists>ps :: pool_store. get_pool_commitment_leaves_ordered (\<lambda>n. [0..<n]) ''pool'' seen_db = Inr [Field 31, Field 32] \<and>
    mh_get_last_root (ps_tree ps) = Inr (pool_root_of sample_host 2 [31, 32])"
proof -
  let ?txs = "[\<lparr>tx_proof = sample_proof, tx_ext = sample_ext\<rparr>]" and ?G = "ed_events sample_batch"
  from sample_run obtain evs s w where r: "pool_reachable sample_host 2 ?txs evs s (w :: address \<Rightarrow> int)"
    by (elim exE conjE)
  have log: "evs = txs_events ?txs" using pool_reachable_rel [OF sample_host_ok sample_host_zero_table r] by auto
  have wire: "list_all2 (pool_event_wire sample_log) evs (filter (\<lambda>e. ce_contract_id e = ''pool'') ?G)"
    by (simp add: log txs_events_def tx_events_def sample_proof_def sample_ext_def sample_batch_def wire_event_def sample_log_def)
  have reach: "client_reach sample_log sample_derive False {sample_service} sample_indexer (Idle, seen_db)"
    by (rule client_worker [OF sample_client work_events [of _ 50 _ "fst (process_events sample_log 50 idx_db)"]])
      (simp add: seen_db_def)
  have sync: "get_sync_metadata seen_db = get_sync_metadata idx_db"
    by (simp add: seen_db_eq get_sync_metadata_def sync_row_def [abs_def])
  have rest: "get_unprocessed_events 50 seen_db = Inr []"
    by (simp add: get_unprocessed_events_def seen_db_eq idx_db_def db_eqs processed_ids_def map_filter_simps)
  have past: "\<exists>meta\<in>set (map (\<lambda>c. \<lparr> sm_contract_id = c, sm_cursor = ''xxxxx'', sm_last_indexed = 3, sm_last_fully_indexed = 3 \<rparr>)
      [''pool'', ''asp'', ''registry'']). \<forall>e\<in>set ?G. ce_contract_id e = ''pool'' \<longrightarrow> e \<in> set (take (sample_pos (sm_cursor meta)) ?G)"
    by (simp add: sample_pos_def sample_batch_def)
  have "get_pool_commitment_leaves_ordered (\<lambda>n. [0..<n]) ''pool'' seen_db = Inr (map Field (txs_commitments ?txs)) \<and>
      mh_get_last_root (ps_tree s) = Inr (pool_root_of sample_host 2 (txs_commitments ?txs))"
    using client_rebuilds_pool [OF reach _ sample_log_ok sync [unfolded sample_sync] rest _ _ sample_host_ok
        sample_host_zero_table r _ wire, of sample_pos "\<lambda>n. [0..<n]"] past sample_service_ok
    by (auto simp: plan_ok_def)
  then show ?thesis by (auto simp: txs_commitments_def tx_commitments_def sample_proof_def)
qed

end
