(* ===== verification/Storage_Termination.thy ===== *)
theory Storage_Termination
  imports Indexer_Properties
begin

text \<open>
  Termination of the worker loop (process_until_empty of app/crates/platforms/web/src/workers/storage.rs). A log is
  storable when each of its events parses to a kind that has a table and no two events compete for one
  row. A round that reports work then makes a lexicographic measure smaller: the number of events without a
  derived row first (process_events_progress), then the distance of the scan marks and of the reconciliation
  marks to the end of their tables (process_notes_work).
\<close>

section \<open>Events that can be stored\<close>

fun kept :: "processed_event \<Rightarrow> bool" where
  "kept (Nullifier _ _) \<longleftrightarrow> True"
| "kept (Commitment _ _ _ _) \<longleftrightarrow> True"
| "kept (PublicKey _ _ _ _) \<longleftrightarrow> True"
| "kept (LeafAdded _ _ _ _) \<longleftrightarrow> True"
| "kept _ \<longleftrightarrow> False"

text \<open>Two events that compete for one row of a derived table.\<close>

fun same_row :: "processed_event \<Rightarrow> processed_event \<Rightarrow> bool" where
  "same_row (Nullifier _ n) (Nullifier _ m) \<longleftrightarrow> n = m"
| "same_row (Commitment _ c _ _) (Commitment _ d _ _) \<longleftrightarrow> c = d"
| "same_row (PublicKey i _ _ _) (PublicKey j _ _ _) \<longleftrightarrow> i = j"
| "same_row (LeafAdded _ _ x _) (LeafAdded _ _ y _) \<longleftrightarrow> x = y"
| "same_row _ _ \<longleftrightarrow> False"

definition storable :: "stellar_env \<Rightarrow> storage \<Rightarrow> bool" where
  "storable S s \<longleftrightarrow>
    (\<forall>r\<in>set (db_raw s). \<forall>e. event_of_raw s r = Some e \<longrightarrow> (\<exists>p. parse_event S e = Inr p \<and> kept p)) \<and>
    (\<forall>p q. parsed_from S s p \<longrightarrow> parsed_from S s q \<longrightarrow> same_row p q \<longrightarrow> p = q)"

lemma same_chain_events: "same_chain s s' \<Longrightarrow> event_of_raw s' = event_of_raw s" "same_chain s s' \<Longrightarrow> parsed_from S s' p = parsed_from S s p"
  by (auto simp: same_chain_def event_of_raw_def [abs_def] parsed_from_def)

lemma storable_same_chain: "same_chain s s' \<Longrightarrow> storable S s' = storable S s"
  using same_chain_events [of s s'] by (simp add: storable_def same_chain_def)

lemma derived_row_events:
  "n \<in> set (db_nullifiers t) \<Longrightarrow> Nullifier (nl_event n) (nl_nullifier n) \<in> derived_events t"
  "c \<in> set (db_commitments t) \<Longrightarrow> Commitment (cm_event c) (cm_commitment c) (cm_leaf_index c) (cm_encrypted_output c) \<in> derived_events t"
  "k \<in> set (db_public_keys t) \<Longrightarrow> PublicKey (pk_event k) (public_key_row.pk_owner k) (public_key_row.pk_encryption_key k)
    (public_key_row.pk_note_key k) \<in> derived_events t"
  "l \<in> set (db_asp_leaves t) \<Longrightarrow> LeafAdded (al_event l) (al_leaf l) (al_index l) (al_root l) \<in> derived_events t"
  by (auto simp: derived_events_def event_of_defs)

lemma save_batch_rows:
  "save_nullifier_events_batch ns s = (Inr (), t) \<Longrightarrow> (i, n) \<in> set ns \<Longrightarrow> \<exists>q\<in>derived_events t. same_row q (Nullifier i n)"
  "save_commitment_events_batch cs s = (Inr (), t) \<Longrightarrow> (i, c, x, enc) \<in> set cs \<Longrightarrow> \<exists>q\<in>derived_events t. same_row q (Commitment i c x enc)"
  "save_public_key_events_batch ks s = (Inr (), t) \<Longrightarrow> (i, w, e, k) \<in> set ks \<Longrightarrow> \<exists>q\<in>derived_events t. same_row q (PublicKey i w e k)"
  "save_leaf_added_events_batch ls s = (Inr (), t) \<Longrightarrow> (i, l, y, z) \<in> set ls \<Longrightarrow> \<exists>q\<in>derived_events t. same_row q (LeafAdded i l y z)"
proof -
  have run: "fold_ok save xs s = Inr t" if "transaction (\<lambda>s. let_ok (fold_ok save xs s) (\<lambda>s'. Inr ((), s'))) s = (Inr (), t)"
    for save :: "'x \<Rightarrow> storage \<Rightarrow> storage_error + storage" and xs s t
    using that by (auto simp: let_ok_Inr_iff elim!: transaction_cases)
  show "\<exists>q\<in>derived_events t. same_row q (Nullifier i n)" if "save_nullifier_events_batch ns s = (Inr (), t)" "(i, n) \<in> set ns"
  proof -
    have "n \<in> nl_nullifier ` set (db_nullifiers t)"
      using nullifier_table.save_all(5) [OF run [OF that(1) [unfolded save_nullifier_events_batch_def]]] that(2) by force
    then show ?thesis by (elim imageE) (metis derived_row_events same_row.simps)
  qed
  show "\<exists>q\<in>derived_events t. same_row q (Commitment i c x enc)"
    if "save_commitment_events_batch cs s = (Inr (), t)" "(i, c, x, enc) \<in> set cs"
  proof -
    have "c \<in> cm_commitment ` set (db_commitments t)"
      using commitment_table.save_all(5) [OF run [OF that(1) [unfolded save_commitment_events_batch_def]]] that(2) by force
    then show ?thesis by (elim imageE) (metis derived_row_events same_row.simps)
  qed
  show "\<exists>q\<in>derived_events t. same_row q (PublicKey i w e k)"
    if "save_public_key_events_batch ks s = (Inr (), t)" "(i, w, e, k) \<in> set ks"
  proof -
    have "i \<in> pk_event ` set (db_public_keys t)"
      using public_key_table.save_all(5) [OF run [OF that(1) [unfolded save_public_key_events_batch_def]]] that(2) by force
    then show ?thesis by (elim imageE) (metis derived_row_events same_row.simps)
  qed
  show "\<exists>q\<in>derived_events t. same_row q (LeafAdded i l y z)"
    if "save_leaf_added_events_batch ls s = (Inr (), t)" "(i, l, y, z) \<in> set ls"
  proof -
    have "y \<in> al_index ` set (db_asp_leaves t)"
      using asp_leaf_table.save_all(5) [OF run [OF that(1) [unfolded save_leaf_added_events_batch_def]]] that(2) by force
    then show ?thesis by (elim imageE) (metis derived_row_events same_row.simps)
  qed
qed

lemma adds_mono: "adds s ps t \<Longrightarrow> derived_events s \<subseteq> derived_events t"
  by (simp add: adds_def)

lemma process_events_rows:
  assumes "process_events S limit s = (Inr True, t)" and "get_unprocessed_events limit s = Inr es" and "es \<noteq> []"
    and "e \<in> set es" and "parse_event S e = Inr p" and "kept p"
  shows "\<exists>q\<in>derived_events t. same_row q p"
proof -
  let ?P = "parsed_events S (rev es)"
  have "p \<in> set (parsed_events S xs)" if "e \<in> set xs" for xs
    using that assms(5) by (induction xs) (auto split: sum.splits)
  then have p: "p \<in> set ?P" using assms(4) by simp
  from assms(1) have run: "and_then (save_nullifier_events_batch (nullifier_events ?P) s) (\<lambda>_ s.
       and_then (save_commitment_events_batch (commitment_events ?P) s) (\<lambda>_ s.
       and_then (save_public_key_events_batch (public_key_events ?P) s) (\<lambda>_ s.
       and_then (save_leaf_added_events_batch (leaf_added_events ?P) s) (\<lambda>_ s. (Inr True, s))))) = (Inr True, t)"
    using assms(2,3) by (simp add: process_events_def Let_def)
  then obtain s1 s2 s3 where b: "save_nullifier_events_batch (nullifier_events ?P) s = (Inr (), s1)"
    "save_commitment_events_batch (commitment_events ?P) s1 = (Inr (), s2)"
    "save_public_key_events_batch (public_key_events ?P) s2 = (Inr (), s3)"
    "save_leaf_added_events_batch (leaf_added_events ?P) s3 = (Inr (), t)"
    by (auto elim!: and_then_cases)
  have mono: "derived_events s1 \<subseteq> derived_events t" "derived_events s2 \<subseteq> derived_events t" "derived_events s3 \<subseteq> derived_events t"
    using adds_mono [OF save_commitment_adds [OF b(2)]] adds_mono [OF save_public_key_adds [OF b(3)]]
      adds_mono [OF save_leaf_added_adds [OF b(4)]] by auto
  show ?thesis
  proof (cases p)
    case (Nullifier i n)
    then have "(i, n) \<in> set (nullifier_events ?P)" using p by (simp add: typed_eventsD)
    then show ?thesis using save_batch_rows(1) [OF b(1)] mono(1) Nullifier by blast
  next
    case (Commitment i c x enc)
    then have "(i, c, x, enc) \<in> set (commitment_events ?P)" using p by (simp add: typed_eventsD)
    then show ?thesis using save_batch_rows(2) [OF b(2)] mono(2) Commitment by blast
  next
    case (PublicKey i w x k)
    then have "(i, w, x, k) \<in> set (public_key_events ?P)" using p by (simp add: typed_eventsD)
    then show ?thesis using save_batch_rows(3) [OF b(3)] mono(3) PublicKey by blast
  next
    case (LeafAdded i l x r)
    then have "(i, l, x, r) \<in> set (leaf_added_events ?P)" using p by (simp add: typed_eventsD)
    then show ?thesis using save_batch_rows(4) [OF b(4)] LeafAdded by blast
  qed (use assms(6) in simp_all)
qed

text \<open>The events that wait: a batch that succeeds makes their number smaller.\<close>

definition waiting :: "storage \<Rightarrow> raw_event_row list" where
  "waiting s = filter (\<lambda>r. raw_id r \<notin> processed_id ` derived_events s) (db_raw s)"

lemma process_events_progress:
  assumes "process_events S limit s = (Inr True, t)" and "storage_reach S D s" and "storable S s"
  shows "length (waiting t) < length (waiting s)"
proof -
  obtain es where es: "get_unprocessed_events limit s = Inr es" "es \<noteq> []"
    using assms(1) by (auto simp: process_events_def split: sum.splits if_splits)
  then obtain e where e: "e \<in> set es" by (meson list.set_sel(1))
  obtain r where r: "r \<in> set (waiting s)" "event_of_raw s r = Some e"
    using unprocessedD [OF es(1) e] by (auto simp: waiting_def processed_ids_iff)
  then have raw: "r \<in> set (db_raw s)" by (simp add: waiting_def)
  then obtain p where p: "parse_event S e = Inr p" "kept p" using assms(3) r(2) unfolding storable_def by blast
  obtain q where q: "q \<in> derived_events t" "same_row q p" using process_events_rows [OF assms(1) es e p] by blast
  have t: "storage_reach S D t" by (rule reach_process_events [OF assms(2,1)])
  have same: "same_chain s t" by (rule process_events_same_chain [OF assms(1)])
  have "parsed_from S t q" using history_invariant [OF t] q(1) by (simp add: history_ok_def provenance_def)
  then have "parsed_from S s q" by (simp add: same_chain_events(2) [OF same])
  moreover have "parsed_from S s p" using raw r(2) p(1) unfolding parsed_from_def by blast
  ultimately have "q = p" using assms(3) q(2) unfolding storable_def by blast
  moreover have "processed_id p = raw_id r" using parse_event_id [OF p(1)] event_of_raw_id [OF r(2)] by simp
  ultimately have "r \<notin> set (waiting t)" using q(1) by (force simp: waiting_def)
  moreover have "set (waiting t) \<subseteq> set (waiting s)" "db_raw t = db_raw s"
    using process_events_adds [OF assms(1)] same by (auto simp: waiting_def adds_def same_chain_def)
  moreover have "distinct (db_raw s)"
    using storage_reach_directory [OF assms(2)] by (simp add: directory_ok_def distinct_map)
  ultimately show ?thesis
    using r(1) by (metis distinct_card distinct_filter psubsetI psubset_card_mono finite_set waiting_def)
qed

section \<open>Work that is left\<close>

text \<open>The marks only grow, and a step that reports progress moves one of them.\<close>

definition moved :: "(storage \<Rightarrow> 'x \<Rightarrow> nat) \<Rightarrow> 'x set \<Rightarrow> bool \<Rightarrow> storage \<Rightarrow> storage \<Rightarrow> bool" where
  "moved f X b s s' \<longleftrightarrow> (\<forall>x. f s x \<le> f s' x) \<and> (b \<longrightarrow> (\<exists>x\<in>X. f s x < f s' x))"

lemma moved_refl: "moved f X False s s"
  by (simp add: moved_def)

lemma moved_trans: "moved f X b s t \<Longrightarrow> moved f X c t u \<Longrightarrow> moved f X (b \<or> c) s u"
  unfolding moved_def by (meson le_trans le_less_trans less_le_trans)

lemma moved_weaken: "moved f X b s t \<Longrightarrow> X \<subseteq> Y \<Longrightarrow> (c \<Longrightarrow> b) \<Longrightarrow> moved f Y c s t"
  unfolding moved_def by blast

definition scan_at :: "storage \<Rightarrow> nat \<times> nat \<Rightarrow> nat" where
  "scan_at s = (\<lambda>(pool, account). case scan_mark pool account s of None \<Rightarrow> 0 | Some m \<Rightarrow> m)"

definition reconciled_at :: "storage \<Rightarrow> nat \<Rightarrow> nat" where
  "reconciled_at s pool = (case nullifier_mark pool s of None \<Rightarrow> 0 | Some m \<Rightarrow> m)"

lemma find_append: "List.find P (xs @ ys) = (case List.find P xs of None \<Rightarrow> List.find P ys | Some x \<Rightarrow> Some x)"
  by (induction xs) auto

lemma find_map: "(\<And>r. P (g r) = P r) \<Longrightarrow> List.find P (map g rows) = map_option g (List.find P rows)"
  by (induction rows) auto

lemma find_SomeD: "List.find P xs = Some x \<Longrightarrow> x \<in> set xs \<and> P x"
  by (auto simp: find_Some_iff)

lemma scan_mark_open:
  "scan_mark p x (open_scan pool a s) =
    (if p = pool \<and> x = ak_account a \<and> scan_mark p x s = None then Some 0 else scan_mark p x s)"
proof (cases "\<exists>r\<in>set (db_commitment_scan s). cs_pool r = pool \<and> cs_account r = ak_account a")
  case True
  then have "scan_mark pool (ak_account a) s \<noteq> None" by (auto simp: scan_mark_def find_None_iff)
  with True show ?thesis by (auto simp: open_scan_def)
next
  case False
  then have "List.find (\<lambda>r. cs_pool r = pool \<and> cs_account r = ak_account a) (db_commitment_scan s) = None"
    by (auto simp: find_None_iff)
  with False show ?thesis by (auto simp: open_scan_def scan_mark_def find_append split: option.split)
qed

lemma scan_at_open: "scan_at (open_scan pool a s) = scan_at s"
  by (rule ext) (auto simp: scan_at_def scan_mark_open split: prod.split option.split)

lemma scan_mark_set:
  "scan_mark p a (set_scan_mark pool account m s) =
    (if p = pool \<and> a = account \<and> scan_mark p a s \<noteq> None then Some m else scan_mark p a s)"
proof -
  let ?g = "\<lambda>r. if cs_pool r = pool \<and> cs_account r = account then r\<lparr> cs_last := m \<rparr> else r"
  let ?f = "List.find (\<lambda>r. cs_pool r = p \<and> cs_account r = a) (db_commitment_scan s)"
  have set: "scan_mark p a (set_scan_mark pool account m s) = map_option (\<lambda>r. cs_last (?g r)) ?f"
    by (simp add: scan_mark_def set_scan_mark_def find_map option.map_comp comp_def)
  show ?thesis
  proof (cases ?f)
    case None
    then show ?thesis unfolding set by (auto simp: scan_mark_def)
  next
    case (Some r)
    then have "cs_pool r = p" "cs_account r = a" by (auto dest: find_SomeD)
    then show ?thesis unfolding set using Some by (auto simp: scan_mark_def)
  qed
qed

lemma scan_rows_table: "fold_ok (scan_row D pool a) rows s = Inr t \<Longrightarrow> db_commitment_scan t = db_commitment_scan s"
  by (erule fold_ok_invariant) (auto simp: scan_row_def insert_note_def let_ok_Inr_iff split: option.splits if_splits)

lemma scan_account_moved:
  assumes "scan_account D pool a (s, q, b) = Inr (s', q', b')" and "events_ok s"
  shows "moved scan_at {(pool, ak_account a)} (b' \<and> \<not> b) s s'"
proof -
  from assms(1) consider "s' = s" "b' = b" | l rows t where "scan_mark pool (ak_account a) s = Some l"
      "commitments_after pool l (min q ACCOUNT_CHUNK) s = Inr rows" "rows \<noteq> []"
      "fold_ok (scan_row D pool a) rows s = Inr t"
      "s' = set_scan_mark pool (ak_account a) (fold max (map pc_commitment_id rows) l) t"
    by (auto simp: scan_account_def outcome_simps split: if_splits)
  then show ?thesis
  proof cases
    case 1
    then show ?thesis using moved_refl by simp
  next
    case (2 l rows t)
    let ?m = "fold max (map pc_commitment_id rows) l"
    have "rows = map pool_row (take (min q ACCOUNT_CHUNK)
        (filter (\<lambda>c. event_contract s (cm_event c) = Some pool \<and> l < cm_id c) (db_commitments s)))"
      by (rule commitments_after_rows [OF 2(2) assms(2)])
    then have "\<forall>r\<in>set rows. l < pc_commitment_id r" by (auto simp: pool_row_def dest: in_set_takeD)
    then have "l < pc_commitment_id (hd rows)" "pc_commitment_id (hd rows) \<le> ?m"
      using 2(3) fold_max_le(2) [of "pc_commitment_id (hd rows)" "map pc_commitment_id rows" l] by auto
    then have lm: "l < ?m" by simp
    have mark: "scan_mark p x t = scan_mark p x s" for p x
      using scan_rows_table [OF 2(4)] by (simp add: scan_mark_def)
    have at: "scan_at s' x = (if x = (pool, ak_account a) then ?m else scan_at s x)" for x
      using 2(1) by (cases x) (simp add: 2(5) scan_at_def scan_mark_set mark)
    have "scan_at s (pool, ak_account a) = l" using 2(1) by (simp add: scan_at_def)
    then show ?thesis unfolding moved_def at using lm by auto
  qed
qed

definition pairs :: "nat \<Rightarrow> account_keys list \<Rightarrow> (nat \<times> nat) set" where
  "pairs pool accounts = {pool} \<times> ak_account ` set accounts"

lemma scan_cycle_moved:
  assumes "scan_cycle D pool accounts (s, q) = Inr (s', q', b')" and "wallet_ok D s" and "events_ok s"
    and "\<forall>a\<in>set accounts. valid_account s a"
  shows "moved scan_at (pairs pool accounts) b' s s'"
proof -
  let ?P = "\<lambda>(t, _, c). wallet_ok D t \<and> scan_frame s t \<and> moved scan_at (pairs pool accounts) c s t"
  have step: "?P y" if a: "a \<in> set accounts" and P: "?P x" and run: "scan_account D pool a x = Inr y" for a x y
  proof -
    obtain t r b where x: "x = (t, r, b)" by (cases x)
    obtain t' r' b' where y: "y = (t', r', b')" by (cases y)
    have t: "wallet_ok D t" "scan_frame s t" "moved scan_at (pairs pool accounts) b s t" using P x by auto
    have ev: "events_ok t" using assms(3) by (simp add: scan_frameD [OF t(2)])
    have "wallet_ok D t' \<and> scan_frame t t'"
      using scan_account_ok [OF run [unfolded x y] t(1) ev] assms(4) a by (simp add: valid_account_frame [OF t(2)])
    moreover have "moved scan_at (pairs pool accounts) (b' \<and> \<not> b) t t'"
      by (rule moved_weaken [OF scan_account_moved [OF run [unfolded x y] ev]]) (use a in \<open>auto simp: pairs_def\<close>)
    then have "moved scan_at (pairs pool accounts) b' s t'"
      using moved_weaken [OF moved_trans [OF t(3)], of "b' \<and> \<not> b" t' _ b'] by blast
    ultimately show ?thesis using scan_frame_trans [OF t(2)] by (simp add: y)
  qed
  have "?P (s', q', b')"
    by (rule fold_ok_invariant [OF assms(1) [unfolded scan_cycle_def prod.case]])
      (use assms(2) scan_frame_refl moved_refl step in auto)
  then show ?thesis by simp
qed

lemma scan_cycles_moved:
  assumes "scan_cycles D pool accounts s q b = Inr (b', s')" and "wallet_ok D s" and "events_ok s"
    and "\<forall>a\<in>set accounts. valid_account s a"
  shows "moved scan_at (pairs pool accounts) (b' \<and> \<not> b) s s'"
  using assms
proof (induction D pool accounts s q b rule: scan_cycles.induct)
  case (1 D pool accounts s q b)
  show ?case
  proof (cases "q = 0")
    case True
    then show ?thesis using "1.prems" moved_refl by (auto simp: scan_cycles.simps)
  next
    case False
    then obtain t r p where c: "scan_cycle D pool accounts (s, q) = Inr (t, r, p)"
      using "1.prems"(1) by (auto simp: scan_cycles.simps [of D pool accounts s q] split: sum.splits)
    note t = scan_cycle_ok [OF c "1.prems"(2-4)] and m = scan_cycle_moved [OF c "1.prems"(2-4)]
    show ?thesis
    proof (cases p)
      case True
      then have "scan_cycles D pool accounts t r True = Inr (b', s')"
        using "1.prems"(1) c False by (simp add: scan_cycles.simps [of D pool accounts s q])
      then have "moved scan_at (pairs pool accounts) (b' \<and> \<not> True) t s'"
        using "1.IH" [OF False c refl refl] True t "1.prems"(3,4) by (auto simp: scan_frameD valid_account_frame)
      then show ?thesis using moved_weaken [OF moved_trans [OF m]] True by blast
    next
      case False
      then show ?thesis
        using "1.prems"(1) c \<open>q \<noteq> 0\<close> m by (auto simp: scan_cycles.simps [of D pool accounts s q])
    qed
  qed
qed

lemma scan_pool_moved:
  assumes "scan_pool D accounts pool q s = Inr (b, s')" and "wallet_ok D s" and "events_ok s"
    and "\<forall>a\<in>set accounts. valid_account s a"
  shows "moved scan_at (pairs pool accounts) b s s'"
proof -
  let ?t = "fold (open_scan pool) accounts s"
  have o: "wallet_ok D ?t" "scan_frame s ?t" using open_scans_ok [OF assms(2-4)] by auto
  have "scan_at (fold (open_scan pool) xs u) = scan_at u" for xs u
    by (induction xs arbitrary: u) (auto simp: scan_at_open)
  then have "moved scan_at (pairs pool accounts) False s ?t" by (simp add: moved_def)
  moreover have "moved scan_at (pairs pool accounts) (b \<and> \<not> False) ?t s'"
    by (rule scan_cycles_moved [OF assms(1) [unfolded scan_pool_def] o(1)])
      (use assms(3,4) in \<open>simp_all add: scan_frameD [OF o(2)] valid_account_frame [OF o(2)]\<close>)
  ultimately show ?thesis using moved_weaken [OF moved_trans] by blast
qed

lemma scan_pools_moved:
  assumes "scan_pools D accounts pools b s = (r, s')" and "wallet_ok D s" and "events_ok s"
    and "\<forall>a\<in>set accounts. valid_account s a"
  shows "moved scan_at (fst ` set pools \<times> ak_account ` set accounts) (r = Inr True \<and> \<not> b) s s'"
  using assms
proof (induction D accounts pools b s rule: scan_pools.induct)
  case (1 D accounts b s)
  then show ?case using moved_refl by auto
next
  case (2 D accounts pool q rest b s)
  let ?X = "fst ` set ((pool, q) # rest) \<times> ak_account ` set accounts"
  have sub: "fst ` set rest \<times> ak_account ` set accounts \<subseteq> ?X" "pairs pool accounts \<subseteq> ?X" by (auto simp: pairs_def)
  show ?case
  proof (cases "q = 0")
    case True
    then show ?thesis using moved_weaken [OF "2.IH"(1) sub(1)] "2.prems" by simp
  next
    case False
    with "2.prems"(1) have "and_then (transaction (scan_pool D accounts pool q) s)
       (\<lambda>progressed. scan_pools D accounts rest (b \<or> progressed)) = (r, s')" by simp
    then show ?thesis
    proof (cases rule: and_then_cases)
      case (1 e)
      then have "s' = s" "r \<noteq> Inr True" by (auto elim!: transaction_cases)
      then show ?thesis using moved_refl by simp
    next
      case (2 x t)
      then have run: "scan_pool D accounts pool q s = Inr (x, t)" by (auto elim!: transaction_cases)
      have t: "wallet_ok D t" "scan_frame s t" using scan_pool_ok [OF run] "2.prems"(2-4) by auto
      have "moved scan_at (fst ` set rest \<times> ak_account ` set accounts) (r = Inr True \<and> \<not> (b \<or> x)) t s'"
        by (rule "2.IH"(2) [OF False 2(2) t(1)])
          (use "2.prems"(3,4) in \<open>simp_all add: scan_frameD [OF t(2)] valid_account_frame [OF t(2)]\<close>)
      then have "moved scan_at ?X (r = Inr True \<and> \<not> (b \<or> x)) t s'" using sub(1) by (rule moved_weaken) simp
      moreover have "moved scan_at ?X x s t"
        using scan_pool_moved [OF run "2.prems"(2-4)] sub(2) by (rule moved_weaken) simp
      ultimately have "moved scan_at ?X (x \<or> (r = Inr True \<and> \<not> (b \<or> x))) s s'"
        using moved_trans by blast
      then show ?thesis by (rule moved_weaken) auto
    qed
  qed
qed

lemma scan_commitments_moved:
  assumes "scan_commitments_for_user_notes limit D s = (r, s')" and "wallet_ok D s" and "events_ok s"
  shows "moved scan_at (set (pool_ids_of s (map cm_event (db_commitments s))) \<times>
    ak_account ` set (get_accounts_with_latest_keypairs s)) (r = Inr True) s s'"
proof -
  let ?ids = "pool_ids_of s (map cm_event (db_commitments s))" and ?acc = "get_accounts_with_latest_keypairs s"
  consider "s' = s" "r \<noteq> Inr True" | "scan_pools D ?acc (zip ?ids (pool_quotas limit (length ?ids))) False s = (r, s')"
    using assms(1) by (auto simp: scan_commitments_for_user_notes_def Let_def split: if_splits)
  then show ?thesis
  proof cases
    case 1
    then show ?thesis using moved_refl by simp
  next
    case 2
    have "moved scan_at (fst ` set (zip ?ids (pool_quotas limit (length ?ids))) \<times> ak_account ` set ?acc)
        (r = Inr True \<and> \<not> False) s s'"
      by (rule scan_pools_moved [OF 2 assms(2,3)]) (simp add: latest_keypair_valid)
    then show ?thesis by (rule moved_weaken) (auto dest: set_zip_leftD)
  qed
qed

lemma reconciled_at_open: "reconciled_at (open_nullifier_scan pool s) = reconciled_at s"
proof
  fix p
  show "reconciled_at (open_nullifier_scan pool s) p = reconciled_at s p"
  proof (cases "pool \<in> ns_pool ` set (db_nullifier_scan s)")
    case False
    then have "row_by ns_pool (db_nullifier_scan s) pool = None" by (simp add: row_by_None_iff)
    then show ?thesis
      using False by (auto simp: reconciled_at_def nullifier_mark_def open_nullifier_scan_def row_by_def find_append split: option.splits)
  qed (simp add: open_nullifier_scan_def)
qed

lemma reconciled_at_set:
  "reconciled_at (set_nullifier_mark pool m s) p = (if p = pool \<and> nullifier_mark p s \<noteq> None then m else reconciled_at s p)"
proof -
  let ?g = "\<lambda>r. if ns_pool r = pool then r\<lparr> ns_last := m \<rparr> else r"
  have set: "nullifier_mark p (set_nullifier_mark pool m s) =
      map_option (\<lambda>r. ns_last (?g r)) (List.find (\<lambda>r. ns_pool r = p) (db_nullifier_scan s))"
    by (simp add: nullifier_mark_def set_nullifier_mark_def row_by_def find_map option.map_comp comp_def)
  have "reconciled_at (set_nullifier_mark pool m s) p =
      (case map_option (\<lambda>r. ns_last (?g r)) (List.find (\<lambda>r. ns_pool r = p) (db_nullifier_scan s)) of None \<Rightarrow> 0 | Some l \<Rightarrow> l)"
    unfolding reconciled_at_def set by simp
  also have "\<dots> = (if p = pool \<and> nullifier_mark p s \<noteq> None then m else reconciled_at s p)"
    by (cases "List.find (\<lambda>r. ns_pool r = p) (db_nullifier_scan s)")
      (auto simp: reconciled_at_def nullifier_mark_def row_by_def dest: find_SomeD)
  finally show ?thesis .
qed

lemma reconcile_pool_moved:
  assumes "reconcile_pool limit pool s = Inr (b, s')" and "wallet_ok D s" and "events_ok s"
  shows "moved reconciled_at {pool} b s s'"
proof -
  define t where "t = open_nullifier_scan pool s"
  have o: "wallet_ok D t" "rec_frame s t" unfolding t_def using open_nullifier_scan_ok [OF assms(2,3)] by auto
  have ev: "events_ok t" using assms(3) by (simp add: rec_frameD [OF o(2)])
  from assms(1) obtain l u where l: "nullifier_mark pool t = Some l"
    and u: "fold_ok (mark_note_spent pool) (nullifiers_after pool l limit t) t = Inr u"
    and b: "b = (nullifiers_after pool l limit t \<noteq> [])"
    and s': "s' = (let m = fold max (map fst (nullifiers_after pool l limit t)) l in
      if l < m then set_nullifier_mark pool m u else u)"
    by (auto simp: reconcile_pool_def t_def Let_def let_ok_Inr_iff ok_or_Inr_iff)
  let ?rows = "nullifiers_after pool l limit t" and ?m = "fold max (map fst (nullifiers_after pool l limit t)) l"
  have rows: "\<exists>n\<in>set (db_nullifiers t). nl_id n = fst x \<and> nl_nullifier n = snd x \<and>
      event_contract t (nl_event n) = Some pool \<and> l < fst x" if "x \<in> set ?rows" for x
    using that by (auto simp: nullifiers_after_rows [OF ev] dest!: in_set_takeD)
  have "db_nullifier_scan u = db_nullifier_scan t" using mark_rows_spent [OF u o(1) ev] rows by fastforce
  then have mark: "nullifier_mark p u = nullifier_mark p t" for p by (simp add: nullifier_mark_def)
  then have at: "reconciled_at u = reconciled_at s"
    using reconciled_at_open [of pool s] by (simp add: reconciled_at_def t_def fun_eq_iff)
  have pool: "reconciled_at s pool = l" using l by (simp add: at [symmetric] reconciled_at_def mark)
  have "l < ?m" if b
  proof -
    have "hd ?rows \<in> set ?rows" using that b by simp
    then show ?thesis using rows [of "hd ?rows"] fold_max_le(2) [of "fst (hd ?rows)" "map fst ?rows" l] by auto
  qed
  then show ?thesis
    unfolding moved_def s' Let_def using pool l by (auto simp: reconciled_at_set at mark)
qed

lemma reconcile_pools_moved:
  assumes "reconcile_pools limit pools b s = (r, s')" and "wallet_ok D s" and "events_ok s"
  shows "moved reconciled_at (set pools) (r = Inr True \<and> \<not> b) s s'"
  using assms
proof (induction limit pools b s rule: reconcile_pools.induct)
  case (1 limit b s)
  then show ?case using moved_refl by auto
next
  case (2 limit pool rest b s)
  then have "and_then (transaction (reconcile_pool limit pool) s) (\<lambda>did. reconcile_pools limit rest (b \<or> did)) = (r, s')"
    by simp
  then show ?case
  proof (cases rule: and_then_cases)
    case (1 e)
    then have "s' = s" "r \<noteq> Inr True" by (auto elim!: transaction_cases)
    then show ?thesis using moved_refl by simp
  next
    case (2 x t)
    then have run: "reconcile_pool limit pool s = Inr (x, t)" by (auto elim!: transaction_cases)
    have t: "wallet_ok D t" "rec_frame s t" using reconcile_pool_ok [OF run "2.prems"(2,3)] by auto
    have "moved reconciled_at (set rest) (r = Inr True \<and> \<not> (b \<or> x)) t s'"
      by (rule "2.IH" [OF 2(2) t(1)]) (use "2.prems"(3) in \<open>simp add: rec_frameD [OF t(2)]\<close>)
    then have "moved reconciled_at (set (pool # rest)) (r = Inr True \<and> \<not> (b \<or> x)) t s'" by (rule moved_weaken) auto
    moreover have "moved reconciled_at (set (pool # rest)) x s t"
      using reconcile_pool_moved [OF run "2.prems"(2,3)] by (rule moved_weaken) auto
    ultimately have "moved reconciled_at (set (pool # rest)) (x \<or> (r = Inr True \<and> \<not> (b \<or> x))) s s'"
      using moved_trans by blast
    then show ?thesis by (rule moved_weaken) auto
  qed
qed

lemma reconcile_nullifiers_moved:
  assumes "reconcile_nullifiers limit s = (r, s')" and "wallet_ok D s" and "events_ok s"
  shows "moved reconciled_at (set (pool_ids_of s (map nl_event (db_nullifiers s)))) (r = Inr True) s s'"
proof -
  let ?ids = "pool_ids_of s (map nl_event (db_nullifiers s))"
  consider "s' = s" "r \<noteq> Inr True" | "reconcile_pools limit ?ids False s = (r, s')"
    using assms(1) by (auto simp: reconcile_nullifiers_def Let_def split: if_splits)
  then show ?thesis
  proof cases
    case 1
    then show ?thesis using moved_refl by simp
  next
    case 2
    then show ?thesis using reconcile_pools_moved [OF 2 assms(2,3)] by simp
  qed
qed

section \<open>The measure\<close>

lemma moved_sum:
  assumes "moved f X b s s'" and "finite X" and "\<And>x. f s' x \<le> N"
  shows "(\<Sum>x\<in>X. N - f s' x) \<le> (\<Sum>x\<in>X. N - f s x)" and "b \<Longrightarrow> (\<Sum>x\<in>X. N - f s' x) < (\<Sum>x\<in>X. N - f s x)"
proof -
  have le: "N - f s' x \<le> N - f s x" for x using assms(1) by (simp add: moved_def diff_le_mono2)
  then show "(\<Sum>x\<in>X. N - f s' x) \<le> (\<Sum>x\<in>X. N - f s x)" by (intro sum_mono)
  assume b
  then obtain x where x: "x \<in> X" "f s x < f s' x" using assms(1) by (auto simp: moved_def)
  then have "N - f s' x < N - f s x" using assms(3) [of x] by (intro diff_less_mono2) auto
  then show "(\<Sum>x\<in>X. N - f s' x) < (\<Sum>x\<in>X. N - f s x)"
    using sum_strict_mono_ex1 [OF assms(2)] le x(1) by metis
qed

definition scan_work :: "storage \<Rightarrow> nat" where
  "scan_work s = (\<Sum>x\<in>set (pool_ids_of s (map cm_event (db_commitments s))) \<times>
    ak_account ` set (get_accounts_with_latest_keypairs s). next_rowid (map cm_id (db_commitments s)) - scan_at s x)"

definition reconcile_work :: "storage \<Rightarrow> nat" where
  "reconcile_work s = (\<Sum>p\<in>set (pool_ids_of s (map nl_event (db_nullifiers s))).
    next_rowid (map nl_id (db_nullifiers s)) - reconciled_at s p)"

lemma marks_bounded:
  assumes "wallet_ok D s"
  shows "scan_at s x \<le> next_rowid (map cm_id (db_commitments s))"
    and "reconciled_at s p \<le> next_rowid (map nl_id (db_nullifiers s))"
proof -
  show "scan_at s x \<le> next_rowid (map cm_id (db_commitments s))"
    using wallet_okD(2) [OF assms]
    by (cases x) (fastforce simp: scan_at_def scan_mark_def mark_ok_def split: option.split dest!: find_SomeD)
  show "reconciled_at s p \<le> next_rowid (map nl_id (db_nullifiers s))"
    using wallet_okD(3) [OF assms]
    by (fastforce simp: reconciled_at_def nullifier_mark_def row_by_def split: option.split dest!: find_SomeD)
qed

lemma frame_indices:
  "scan_frame s s' \<or> rec_frame s s' \<Longrightarrow> get_accounts_with_latest_keypairs s' = get_accounts_with_latest_keypairs s"
  "scan_frame s s' \<or> rec_frame s s' \<Longrightarrow> pool_ids_of s' = pool_ids_of s"
proof -
  show "get_accounts_with_latest_keypairs s' = get_accounts_with_latest_keypairs s" if "scan_frame s s' \<or> rec_frame s s'"
    using that by (auto simp: get_accounts_with_latest_keypairs_def latest_keypair_def [abs_def] scan_frameD rec_frameD)
  show "pool_ids_of s' = pool_ids_of s" if "scan_frame s s' \<or> rec_frame s s'"
    using that by (auto simp: fun_eq_iff pool_ids_of_def scan_frameD rec_frameD)
qed

lemma process_notes_work:
  assumes "process_notes limit D s = (Inr b, s')" and "wallet_ok D s" and "events_ok s"
  shows "b \<Longrightarrow> scan_work s' + reconcile_work s' < scan_work s + reconcile_work s"
proof -
  from assms(1) obtain x t y where x: "scan_commitments_for_user_notes limit D s = (Inr x, t)"
    and y: "reconcile_nullifiers limit t = (Inr y, s')" and b: "b = (x \<or> y)"
    by (auto simp: process_notes_def elim!: and_then_cases)
  note t = scan_commitments_ok [OF x assms(2,3)]
  have ev: "events_ok t" using assms(3) by (simp add: scan_frameD [OF t(2)])
  note s' = reconcile_nullifiers_ok [OF y t(1) ev]
  have i: "get_accounts_with_latest_keypairs t = get_accounts_with_latest_keypairs s" "pool_ids_of t = pool_ids_of s"
    "get_accounts_with_latest_keypairs s' = get_accounts_with_latest_keypairs s" "pool_ids_of s' = pool_ids_of s"
    using frame_indices [of s t] frame_indices [of t s'] t(2) s'(2) by auto
  note f = scan_frameD [OF t(2)] rec_frameD [OF s'(2)] i
  have scan: "scan_work t \<le> scan_work s" "x \<Longrightarrow> scan_work t < scan_work s"
    using moved_sum [OF scan_commitments_moved [OF x assms(2,3)] _ marks_bounded(1) [OF t(1)]]
    by (simp_all add: scan_work_def f)
  have rec: "reconcile_work s' \<le> reconcile_work t" "y \<Longrightarrow> reconcile_work s' < reconcile_work t"
    using moved_sum [OF reconcile_nullifiers_moved [OF y t(1) ev] _ marks_bounded(2) [OF s'(1)]]
    by (simp_all add: reconcile_work_def f)
  have same: "scan_work s' = scan_work t" "reconcile_work t = reconcile_work s"
    by (simp_all add: scan_work_def reconcile_work_def scan_at_def scan_mark_def reconciled_at_def nullifier_mark_def f)
  show "scan_work s' + reconcile_work s' < scan_work s + reconcile_work s" if b
    using that b scan rec same by linarith
qed

section \<open>The loop\<close>

lemma process_round_Inr:
  assumes "process_round S D s = (Inr b, s')"
  obtains x t y where "process_events S FETCH_LIMIT s = (Inr x, t)" and "process_notes FETCH_LIMIT D t = (Inr y, s')" and "b = (x \<or> y)"
  using assms by (auto simp: process_round_def elim!: and_then_cases)

lemma process_events_idle:
  assumes "process_events S limit s = (Inr False, t)"
  shows "t = s" and "get_unprocessed_events limit s = Inr []"
  using assms by (auto simp: process_events_def Let_def and_then_def split: sum.splits if_splits prod.splits)

lemma reach_okD: "storage_reach S D s \<Longrightarrow> wallet_ok D s \<and> events_ok s \<and> storage_ok D s \<and> directory_ok s"
  using history_invariant [of S D s] storage_reach_directory [of S D s]
  by (simp add: history_ok_def storage_ok_def base_ok_def)

lemma process_round_same:
  assumes "process_round S D s = (r, s')" and "storage_reach S D s"
  shows "storage_reach S D s'" and "same_chain s s'"
proof -
  have "storage_reach S D s' \<and> same_chain s s'"
    using assms(1) unfolding process_round_def
  proof (cases rule: and_then_cases)
    case (1 e)
    then show ?thesis using reach_process_events [OF assms(2)] process_events_same_chain by blast
  next
    case (2 x t)
    have t: "storage_reach S D t" "same_chain s t"
      using reach_process_events [OF assms(2) 2(1)] process_events_same_chain [OF 2(1)] by auto
    have "storage_reach S D u \<and> same_chain t u" if "process_notes FETCH_LIMIT D t = (q, u)" for q u
      using reach_process_notes [OF t(1) that] process_notes_same_chain [OF that] reach_okD [OF t(1)] by simp
    then show ?thesis using 2(2) t(2) same_chain_trans by (auto elim!: and_then_cases)
  qed
  then show "storage_reach S D s'" "same_chain s s'" by auto
qed

definition work :: "storage \<Rightarrow> nat \<times> nat" where
  "work s = (length (waiting s), scan_work s + reconcile_work s)"

lemma waiting_idle: "process_notes limit D t = (r, s') \<Longrightarrow> storage_ok D t \<Longrightarrow> waiting s' = waiting t"
  using process_notes_log [of limit D t r s'] process_notes_same_chain [of limit D t r s']
  by (simp add: waiting_def same_chain_def)

lemma process_round_progress:
  assumes "process_round S D s = (Inr True, s')" and "storage_reach S D s" and "storable S s"
  shows "(work s', work s) \<in> less_than <*lex*> less_than"
  using assms(1)
proof (rule process_round_Inr)
  fix x t y
  assume run: "process_events S FETCH_LIMIT s = (Inr x, t)" "process_notes FETCH_LIMIT D t = (Inr y, s')" "True = (x \<or> y)"
  have t: "storage_reach S D t" by (rule reach_process_events [OF assms(2) run(1)])
  have w: "waiting s' = waiting t" using waiting_idle [OF run(2)] reach_okD [OF t] by blast
  show ?thesis
  proof (cases x)
    case True
    then show ?thesis using process_events_progress [OF _ assms(2,3)] run(1) w by (simp add: work_def)
  next
    case False
    then have "t = s" using process_events_idle(1) [of S FETCH_LIMIT s t] run(1) by simp
    then show ?thesis
      using process_notes_work [OF run(2)] reach_okD [OF t] False run(3) w by (simp add: work_def)
  qed
qed

lemma worker_returns:
  assumes "storage_reach S D s" and "storable S s"
  shows "\<exists>r s'. process_until_empty S D s = Some (r, s')"
proof -
  have wf: "wf (inv_image (less_than <*lex*> less_than) work)" by (simp add: wf_inv_image wf_lex_prod)
  show ?thesis
    using assms
  proof (induction s rule: wf_induct_rule [OF wf])
    case (1 s)
    obtain q t where q: "process_round S D s = (q, t)" by fastforce
    note same = process_round_same [OF q "1.prems"(1)]
    show ?case
    proof (cases "q = Inr True")
      case True
      then have "(t, s) \<in> inv_image (less_than <*lex*> less_than) work"
        using process_round_progress "1.prems" q by simp
      then have "\<exists>r s'. process_until_empty S D t = Some (r, s')"
        using "1.IH" same storable_same_chain "1.prems"(2) by blast
      then show ?thesis using q True by (simp add: process_until_empty.simps [of S D s])
    next
      case False
      then show ?thesis
        using q by (cases q) (auto simp: process_until_empty.simps [of S D s])
    qed
  qed
qed

lemma worker_ends:
  assumes "process_until_empty S D s = Some (Inr (), s')" and "storage_reach S D s"
  shows "storage_reach S D s' \<and> same_chain s s' \<and> (\<exists>t. storage_reach S D t \<and> same_chain s t \<and>
    get_unprocessed_events FETCH_LIMIT t = Inr [] \<and> process_notes FETCH_LIMIT D t = (Inr False, s'))"
proof -
  let ?Q = "\<lambda>S D s s'. storage_reach S D s' \<and> same_chain s s' \<and> (\<exists>t. storage_reach S D t \<and> same_chain s t \<and>
    get_unprocessed_events FETCH_LIMIT t = Inr [] \<and> process_notes FETCH_LIMIT D t = (Inr False, s'))"
  let ?P = "\<lambda>S D s (r :: unit stored). storage_reach S D s \<longrightarrow> fst r = Inr () \<longrightarrow> ?Q S D s (snd r)"
  have "?P S D s (Inr (), s')"
  proof (rule process_until_empty.raw_induct [of ?P, OF _ assms(1)], intro impI)
    fix loop S D s r
    assume IH: "\<And>S D s r. loop S D s = Some r \<Longrightarrow> ?P S D s r"
      and body: "(case process_round S D s of (Inl e, s') \<Rightarrow> Some (Inl e, s')
        | (Inr did_work, s') \<Rightarrow> if did_work then loop S D s' else Some (Inr (), s')) = Some r"
      and s: "storage_reach S D s" and r: "fst r = Inr ()"
    obtain q t where q: "process_round S D s = (q, t)" by fastforce
    note same = process_round_same [OF q s]
    from body q r consider "q = Inr True" "loop S D t = Some r" | "q = Inr False" "r = (Inr (), t)"
      by (cases q) (auto split: if_splits)
    then show "?Q S D s (snd r)"
    proof cases
      case 1
      then have "?Q S D t (snd r)" using IH same(1) r by blast
      then show ?thesis using same_chain_trans [OF same(2)] by blast
    next
      case 2
      with q have "process_round S D s = (Inr False, t)" by simp
      then obtain u where u: "process_events S FETCH_LIMIT s = (Inr False, u)" "process_notes FETCH_LIMIT D u = (Inr False, t)"
        by (rule process_round_Inr) auto
      show ?thesis using process_events_idle [OF u(1)] u(2) s same 2(2) by auto
    qed
  qed
  then show ?thesis using assms(2) by simp
qed

lemma derived_kept: "p \<in> derived_events s \<Longrightarrow> kept p"
  by (auto simp: derived_events_def event_of_defs)

lemma derived_one_row:
  assumes "events_ok s" and "p \<in> derived_events s" and "q \<in> derived_events s" and "same_row p q"
  shows "p = q"
  using assms
  by (cases p; cases q)
    (auto simp: derived_events_def event_of_defs events_ok_def table_ok_defs distinct_map inj_on_def)

lemma all_derived_storable:
  assumes "storage_reach S D t" and "get_unprocessed_events FETCH_LIMIT t = Inr []"
  shows "storable S t" and "derived_events t = {p. parsed_from S t p}"
proof -
  show d: "derived_events t = {p. parsed_from S t p}"
    by (rule derived_events_exact [OF assms]) (simp add: FETCH_LIMIT_def)
  have ok: "events_ok t" "directory_ok t" using reach_okD [OF assms(1)] by auto
  have "\<exists>p. parse_event S e = Inr p \<and> kept p" if r: "r \<in> set (db_raw t)" "event_of_raw t r = Some e" for r e
  proof -
    have "raw_id r \<in> processed_id ` derived_events t"
      by (rule nothing_unprocessed [OF assms(2) _ ok(2) r(1)]) (simp add: FETCH_LIMIT_def)
    then obtain p where p: "p \<in> derived_events t" "processed_id p = raw_id r" by auto
    then have "parsed_from S t p" using d by simp
    then obtain r' e' where r': "r' \<in> set (db_raw t)" "event_of_raw t r' = Some e'" "parse_event S e' = Inr p"
      unfolding parsed_from_def by blast
    then have "raw_id r' = raw_id r" using p(2) parse_event_id event_of_raw_id by metis
    then have "r' = r" using ok(2) r(1) r'(1) by (auto simp: directory_ok_def distinct_map inj_on_def)
    then show ?thesis using r r' derived_kept [OF p(1)] by auto
  qed
  then show "storable S t" using derived_one_row [OF ok(1)] d unfolding storable_def by blast
qed

lemma process_notes_accounts:
  assumes "process_notes limit D s = (Inr b, s')" and "storage_ok D s"
  shows "get_accounts_with_latest_keypairs s' = get_accounts_with_latest_keypairs s"
proof -
  have s: "wallet_ok D s" "events_ok s" using assms(2) by (simp_all add: storage_ok_def base_ok_def)
  from assms(1) obtain x t y where x: "scan_commitments_for_user_notes limit D s = (Inr x, t)"
    and y: "reconcile_nullifiers limit t = (Inr y, s')"
    by (auto simp: process_notes_def elim!: and_then_cases)
  note t = scan_commitments_ok [OF x s]
  have "events_ok t" using s(2) by (simp add: scan_frameD [OF t(2)])
  then show ?thesis using frame_indices(1) [of s t] frame_indices(1) [of t s'] t(2) reconcile_nullifiers_ok [OF y t(1)] by simp
qed

text \<open>
  C34: The worker ends on every log it can store. The worker loop repeats rounds until one finds no work. From any
  reachable database whose stored events all parse to kinds that have a table, no two of them competing for the
  same row, the loop ends after finitely many rounds, with success or with the error of one round. When it ends
  with success the log was of that kind, the event tables hold exactly the parsed events and the
  notes of every account with keys are found.
\<close>

theorem worker_terminates:
  assumes "storage_reach S D s"
  shows "(storable S s \<longrightarrow> (\<exists>r s'. process_until_empty S D s = Some (r, s'))) \<and>
    (\<forall>s'. process_until_empty S D s = Some (Inr (), s') \<longrightarrow>
      storable S s \<and> derived_events s' = {p. parsed_from S s p} \<and>
      (\<forall>a\<in>set (get_accounts_with_latest_keypairs s'). \<forall>c\<in>set (db_commitments s'). \<forall>d.
        D a (pool_row c) = Inr (Some d) \<longrightarrow>
        (\<exists>n\<in>set (db_user_notes s'). un_commitment n = cm_id c \<or> un_expected n = dn_expected_nullifier d)))"
proof -
  have "storable S s \<and> derived_events s' = {p. parsed_from S s p} \<and>
      (\<forall>a\<in>set (get_accounts_with_latest_keypairs s'). \<forall>c\<in>set (db_commitments s'). \<forall>d.
        D a (pool_row c) = Inr (Some d) \<longrightarrow>
        (\<exists>n\<in>set (db_user_notes s'). un_commitment n = cm_id c \<or> un_expected n = dn_expected_nullifier d))"
    if run: "process_until_empty S D s = Some (Inr (), s')" for s'
  proof -
    obtain t where t: "storage_reach S D t" "same_chain s t" "get_unprocessed_events FETCH_LIMIT t = Inr []"
      "process_notes FETCH_LIMIT D t = (Inr False, s')"
      using worker_ends [OF run assms] by blast
    have ok: "storage_ok D t" using reach_okD [OF t(1)] by blast
    note idle = process_notes_idle [OF t(4) _ ok, unfolded FETCH_LIMIT_def, simplified]
    note d = all_derived_storable [OF t(1,3)]
    have "derived_events s' = derived_events t" using process_notes_log [OF t(4) ok] by simp
    moreover have "storable S s" "derived_events t = {p. parsed_from S s p}"
      using d storable_same_chain [OF t(2)] same_chain_events(2) [OF t(2)] by auto
    moreover have "get_accounts_with_latest_keypairs s' = get_accounts_with_latest_keypairs t"
      by (rule process_notes_accounts [OF t(4) ok])
    ultimately show ?thesis using idle unfolding found_def by simp
  qed
  then show ?thesis using worker_returns [OF assms] by blast
qed


lemma sample_storable: "storable sample_log db2"
proof -
  have "process_events sample_log 50 db2 = (fst (process_events sample_log 50 db2), db3)" by (simp add: db3_def)
  then have same: "same_chain db2 db3" by (rule process_events_same_chain)
  have "get_unprocessed_events FETCH_LIMIT db3 = Inr []" by (simp add: sample_processed FETCH_LIMIT_def)
  then have "storable sample_log db3" by (rule all_derived_storable(1) [OF sample_reach(1)])
  then show "storable sample_log db2" by (simp add: storable_same_chain [OF same])
qed

theorem worker_terminates_witness: "\<exists>r s'. process_until_empty sample_log sample_derive db2 = Some (r, s')"
  using worker_terminates [OF sample_reach(3)] sample_storable by blast

end
