(* ===== verification/Storage_Queries.thy ===== *)
theory Storage_Queries
  imports Storage_Termination
begin

text \<open>
  The queries of the database that feed the screens of the client (\<open>app/crates/core/state/src/storage.rs\<close>):
  address book, notes of an account, balances, feed of the chain. They change nothing. The lemmas relate
  them to each other and to the tables.
\<close>

section \<open>Address book\<close>

record public_key_entry =
  ke_address :: string
  ke_encryption_key :: encryption_public_key
  ke_note_key :: note_public_key
  ke_ledger :: nat

definition map_public_key_entry :: "public_key_row \<times> nat \<Rightarrow> storage_error + public_key_entry" where
  "map_public_key_entry = (\<lambda>(p, ledger).
    let_ok (col_u32 ledger 3) (\<lambda>l.
    Inr \<lparr> ke_address = public_key_row.pk_owner p, ke_encryption_key = public_key_row.pk_encryption_key p,
          ke_note_key = public_key_row.pk_note_key p, ke_ledger = l \<rparr>))"

definition registrations :: "storage \<Rightarrow> (public_key_row \<times> nat) list" where
  "registrations s =
    List.map_filter (\<lambda>p. map_option (\<lambda>r. (p, raw_ledger r)) (event_row s (pk_event p))) (db_public_keys s)"

text \<open>
  The row of a group of \<open>GROUP BY owner\<close>: beside \<open>MAX(ledger)\<close> SQLite returns the other columns of a row
  that has the maximum; of several such rows any one.
\<close>

definition latest_registration :: "(nat \<Rightarrow> nat list) \<Rightarrow> (public_key_row \<times> nat) list \<Rightarrow> (public_key_row \<times> nat) option" where
  "latest_registration plan rows = List.find (\<lambda>r. snd r = foldr max (map snd rows) 0) (visited plan rows)"

definition owner_group :: "storage \<Rightarrow> string \<Rightarrow> (public_key_row \<times> nat) list" where
  "owner_group s address = filter (\<lambda>r. public_key_row.pk_owner (fst r) = address) (registrations s)"

definition lookup_public_key_by_address ::
  "(nat \<Rightarrow> nat list) \<Rightarrow> string \<Rightarrow> storage \<Rightarrow> storage_error + public_key_entry option" where
  "lookup_public_key_by_address plan address s =
    (case latest_registration plan (owner_group s address) of
       None \<Rightarrow> Inr None
     | Some row \<Rightarrow> let_ok (map_public_key_entry row) (\<lambda>e. Inr (Some e)))"

text \<open>\<open>plan\<close> orders the groups, \<open>plans\<close> the rows of the group of an owner.\<close>

definition get_recent_public_keys ::
  "(nat \<Rightarrow> nat list) \<Rightarrow> (string \<Rightarrow> nat \<Rightarrow> nat list) \<Rightarrow> nat \<Rightarrow> storage \<Rightarrow> storage_error + public_key_entry list" where
  "get_recent_public_keys plan plans limit s =
    map_ok map_public_key_entry
      (take limit (order_by_desc plan snd
        (List.map_filter (\<lambda>w. latest_registration (plans w) (owner_group s w))
          (remdups (map (public_key_row.pk_owner \<circ> fst) (registrations s))))))"

record recipient_found =
  rl_entry :: "public_key_entry option"
  rl_registry_fully_synced :: bool
  rl_network_tip_ledger :: nat
  rl_registry_last_fully_indexed :: nat

definition recipient_lookup ::
  "(nat \<Rightarrow> nat list) \<Rightarrow> string \<Rightarrow> string \<Rightarrow> storage \<Rightarrow> storage_error + recipient_found" where
  "recipient_lookup plan address public_key_registry_contract_id s =
    let_ok (lookup_public_key_by_address plan address s) (\<lambda>entry.
    let_ok (get_sync_metadata s) (\<lambda>metadata.
    let_ok (network_tip_ledger s) (\<lambda>tip.
    let indexed = (case List.find (\<lambda>meta. sm_contract_id meta = public_key_registry_contract_id) metadata of
        None \<Rightarrow> 0 | Some meta \<Rightarrow> sm_last_fully_indexed meta) in
    Inr \<lparr> rl_entry = entry, rl_registry_fully_synced = (0 < tip \<and> tip \<le> indexed),
          rl_network_tip_ledger = tip, rl_registry_last_fully_indexed = indexed \<rparr>)))"

section \<open>Notes of an account\<close>

record user_note_summary =
  us_id :: field
  us_pool_contract_id :: string
  us_amount :: note_amount
  us_leaf_index :: nat
  us_created_at_ledger :: nat
  us_spent :: bool

text \<open>The join of five tables that the queries share.\<close>

record joined_note =
  jn_note :: user_note_row
  jn_account :: string
  jn_commitment :: commitment_row
  jn_ledger :: nat
  jn_pool :: string

definition join_note :: "storage \<Rightarrow> user_note_row \<Rightarrow> joined_note option" where
  "join_note s n =
    Option.bind (row_by acc_id (db_accounts s) (un_account n)) (\<lambda>a.
    Option.bind (row_by cm_id (db_commitments s) (un_commitment n)) (\<lambda>c.
    Option.bind (event_row s (cm_event c)) (\<lambda>r.
    Option.bind (row_by ct_id (db_contracts s) (raw_contract r)) (\<lambda>pool.
    Some \<lparr> jn_note = n, jn_account = acc_address a, jn_commitment = c, jn_ledger = raw_ledger r,
           jn_pool = ct_address pool \<rparr>))))"

definition joined_notes :: "storage \<Rightarrow> joined_note list" where
  "joined_notes s = List.map_filter (join_note s) (db_user_notes s)"

definition note_summary :: "joined_note \<Rightarrow> storage_error + user_note_summary" where
  "note_summary j =
    let_ok (col_u32 (cm_leaf_index (jn_commitment j)) 3) (\<lambda>leaf_index.
    let_ok (col_u32 (jn_ledger j) 4) (\<lambda>ledger.
    Inr \<lparr> us_id = un_id (jn_note j), us_pool_contract_id = jn_pool j, us_amount = un_amount (jn_note j),
          us_leaf_index = leaf_index, us_created_at_ledger = ledger,
          us_spent = (un_nullifier (jn_note j) \<noteq> None) \<rparr>))"

definition list_user_notes ::
  "(nat \<Rightarrow> nat list) \<Rightarrow> string \<Rightarrow> nat \<Rightarrow> storage \<Rightarrow> storage_error + user_note_summary list" where
  "list_user_notes plan address limit s =
    map_ok note_summary (take limit (order_by_desc plan jn_ledger
      (filter (\<lambda>j. jn_account j = address) (joined_notes s))))"

definition unspent_of :: "string \<Rightarrow> storage \<Rightarrow> joined_note list" where
  "unspent_of address s = filter (\<lambda>j. jn_account j = address \<and> un_nullifier (jn_note j) = None) (joined_notes s)"

definition list_unspent_user_notes ::
  "(nat \<Rightarrow> nat list) \<Rightarrow> string \<Rightarrow> string \<Rightarrow> storage \<Rightarrow> storage_error + user_note_summary list" where
  "list_unspent_user_notes plan pool_contract_id address s =
    map_ok (\<lambda>j. let_ok (note_summary j) (\<lambda>u. Inr (u\<lparr> us_spent := False \<rparr>)))
      (order_by_desc plan jn_ledger (filter (\<lambda>j. jn_pool j = pool_contract_id) (unspent_of address s)))"

definition get_unspent_user_note_by_commitment ::
  "(nat \<Rightarrow> nat list) \<Rightarrow> string \<Rightarrow> string \<Rightarrow> field \<Rightarrow> storage \<Rightarrow> storage_error + (note_amount \<times> field \<times> nat) option" where
  "get_unspent_user_note_by_commitment plan pool_contract_id account_address commitment s =
    (case visited plan (filter (\<lambda>j. jn_pool j = pool_contract_id \<and> cm_commitment (jn_commitment j) = commitment)
            (unspent_of account_address s)) of
       [] \<Rightarrow> Inr None
     | j # _ \<Rightarrow>
         let_ok (col_u32 (cm_leaf_index (jn_commitment j)) 2) (\<lambda>leaf_index.
         Inr (Some (un_amount (jn_note j), un_blinding (jn_note j), leaf_index))))"

section \<open>Balances\<close>

definition token_label :: "pool_config_entry \<Rightarrow> string" where
  "token_label pool =
    (case pe_asset pool of
       NativeAsset \<Rightarrow> ''XLM''
     | ClassicAsset code issuer \<Rightarrow> code
     | ContractAsset contract_id symbol \<Rightarrow> symbol)"

record portfolio_balance =
  pb_pool_contract_id :: string
  pb_token_contract_id :: string
  pb_token_label :: string
  pb_amount :: note_amount
  pb_note_count :: nat

definition add_balance ::
  "joined_note \<Rightarrow> (string \<rightharpoonup> nat \<times> note_amount) \<Rightarrow> storage_error + (string \<rightharpoonup> nat \<times> note_amount)" where
  "add_balance j aggregated =
    (let (count, total) = (case aggregated (jn_pool j) of None \<Rightarrow> (0, NOTE_ZERO) | Some entry \<Rightarrow> entry) in
     let_ok (ok_or (note_checked_add total (un_amount (jn_note j))) BalanceOverflow) (\<lambda>total'.
     Inr (aggregated(jn_pool j \<mapsto> (min (count + 1) U32_MAX, total')))))"

fun pool_balances :: "pool_config_entry list \<Rightarrow> (string \<rightharpoonup> nat \<times> note_amount) \<Rightarrow> portfolio_balance list" where
  "pool_balances [] aggregated = []"
| "pool_balances (pool # pools) aggregated =
    (let (note_count, amount) =
        (case aggregated (pe_pool_contract_id pool) of None \<Rightarrow> (0, NOTE_ZERO) | Some entry \<Rightarrow> entry) in
     \<lparr> pb_pool_contract_id = pe_pool_contract_id pool, pb_token_contract_id = pe_token_contract_id pool,
       pb_token_label = token_label pool, pb_amount = amount, pb_note_count = note_count \<rparr>
     # pool_balances pools (aggregated(pe_pool_contract_id pool := None)))"

definition list_portfolio_balances ::
  "(nat \<Rightarrow> nat list) \<Rightarrow> string \<Rightarrow> contract_config \<Rightarrow> storage \<Rightarrow> storage_error + portfolio_balance list" where
  "list_portfolio_balances plan address config s =
    let_ok (fold_ok add_balance (order_by plan jn_pool (unspent_of address s)) Map.empty) (\<lambda>aggregated.
    Inr (pool_balances (enabled_pools config) aggregated))"

section \<open>Feed of the chain\<close>

record operational_feed_item =
  of_kind :: string
  of_title :: string
  of_body :: string
  of_ledger :: nat
  of_contract_id :: "string option"
  of_pool_contract_id :: "string option"
  of_tx_type :: "string option"

text \<open>The key of a group: ledger and address of the contract.\<close>

definition place_of :: "storage \<Rightarrow> string \<Rightarrow> (nat \<times> string) option" where
  "place_of s eid =
    Option.bind (event_row s eid) (\<lambda>r.
    map_option (\<lambda>c. (raw_ledger r, ct_address c)) (row_by ct_id (db_contracts s) (raw_contract r)))"

definition places :: "storage \<Rightarrow> string list \<Rightarrow> (nat \<times> string) list" where
  "places s events = List.map_filter (place_of s) events"

definition pool_feed :: "storage \<Rightarrow> operational_feed_item list" where
  "pool_feed s =
    (let commitments = places s (map cm_event (db_commitments s));
         nullifiers = places s (map nl_event (db_nullifiers s)) in
     map (\<lambda>k. let c = count_list commitments k; n = count_list nullifiers k in
         \<lparr> of_kind = ''pool'', of_title = ''Pool activity'',
           of_body = show_nat c @ '' commitment(s), '' @ show_nat n @ '' nullifier(s)'',
           of_ledger = fst k, of_contract_id = Some (snd k), of_pool_contract_id = Some (snd k),
           of_tx_type = Some (if 0 < c \<and> 0 < n then ''mixed''
             else if 0 < c then ''deposit_or_transfer'' else ''spend'') \<rparr>)
       (remdups (commitments @ nullifiers)))"

definition counted_feed ::
  "string \<Rightarrow> string \<Rightarrow> string \<Rightarrow> string \<Rightarrow> string \<Rightarrow> (nat \<times> string) list \<Rightarrow> operational_feed_item list" where
  "counted_feed kind title text tx_type contract rows =
    (let rows' = filter (\<lambda>k. snd k = contract) rows in
     map (\<lambda>k. \<lparr> of_kind = kind, of_title = title, of_body = show_nat (count_list rows' k) @ text,
           of_ledger = fst k, of_contract_id = Some (snd k), of_pool_contract_id = None,
           of_tx_type = Some tx_type \<rparr>)
       (remdups rows'))"

definition feed_item :: "operational_feed_item \<Rightarrow> storage_error + operational_feed_item" where
  "feed_item i = let_ok (col_u32 (of_ledger i) 3) (\<lambda>l. Inr (i\<lparr> of_ledger := l \<rparr>))"

definition get_operational_feed ::
  "(nat \<Rightarrow> nat list) \<Rightarrow> nat \<Rightarrow> string \<Rightarrow> string \<Rightarrow> storage \<Rightarrow> storage_error + operational_feed_item list" where
  "get_operational_feed plan limit asp_membership_contract_id public_key_registry_contract_id s =
    map_ok feed_item (take limit (order_by_desc plan of_ledger
      (pool_feed s @
       counted_feed ''registry'' ''Address book registration'' '' public key registration(s)'' ''registration''
         public_key_registry_contract_id (places s (map pk_event (db_public_keys s))) @
       counted_feed ''asp'' ''ASP membership update'' '' membership leaf/leaves inserted'' ''membership''
         asp_membership_contract_id (places s (map al_event (db_asp_leaves s))))))"

section \<open>Lemmas\<close>

lemma mset_ordered:
  assumes "plan_ok plan"
  shows "mset (order_by_desc plan key rows) = mset rows" and "mset (order_by plan k rows) = mset rows"
    and "set (visited plan rows) = set rows"
  using mset_visited [OF assms, of rows] by (simp_all add: order_by_desc_def order_by_def) (metis set_mset_mset)

text \<open>What the aggregation holds after some notes.\<close>

definition pool_total :: "string \<Rightarrow> joined_note list \<Rightarrow> nat" where
  "pool_total p js = (\<Sum>j\<leftarrow>filter (\<lambda>j. jn_pool j = p) js. note_value (un_amount (jn_note j)))"

definition aggregates :: "joined_note list \<Rightarrow> (string \<rightharpoonup> nat \<times> note_amount) \<Rightarrow> bool" where
  "aggregates js m \<longleftrightarrow> (\<forall>p. case m p of
      None \<Rightarrow> filter (\<lambda>j. jn_pool j = p) js = []
    | Some (c, a) \<Rightarrow> c = min (length (filter (\<lambda>j. jn_pool j = p) js)) U32_MAX \<and> note_value a = pool_total p js)"

lemma add_balance_spec:
  assumes "aggregates js m"
  shows "add_balance j m = Inl e \<longleftrightarrow> e = BalanceOverflow \<and> 2 ^ 128 \<le> pool_total (jn_pool j) (js @ [j])"
    and "add_balance j m = Inr m' \<Longrightarrow> aggregates (js @ [j]) m'"
proof -
  let ?p = "jn_pool j"
  obtain c a where ca: "(case m ?p of None \<Rightarrow> (0, NOTE_ZERO) | Some entry \<Rightarrow> entry) = (c, a)"
    and c: "c = min (length (filter (\<lambda>j. jn_pool j = ?p) js)) U32_MAX" and a: "note_value a = pool_total ?p js"
  proof (cases "m ?p")
    case None
    then have "filter (\<lambda>j. jn_pool j = ?p) js = []" using assms [unfolded aggregates_def, THEN spec, of ?p] by simp
    then show ?thesis using that [of 0 NOTE_ZERO] None unfolding pool_total_def by (simp add: NOTE_ZERO_def)
  next
    case (Some x)
    then show ?thesis using assms [unfolded aggregates_def, THEN spec, of ?p] that by (cases x) simp
  qed
  have t: "pool_total ?p (js @ [j]) = note_value a + note_value (un_amount (jn_note j))"
    by (simp add: a) (simp add: pool_total_def)
  have run: "add_balance j m = (if pool_total ?p (js @ [j]) < 2 ^ 128
      then Inr (m(?p \<mapsto> (min (c + 1) U32_MAX, NoteAmount (note_u128 a + note_u128 (un_amount (jn_note j))))))
      else Inl BalanceOverflow)"
    by (simp add: add_balance_def ca t note_checked_add_def checked_add_def)
  show "add_balance j m = Inl e \<longleftrightarrow> e = BalanceOverflow \<and> 2 ^ 128 \<le> pool_total ?p (js @ [j])"
    by (auto simp: run)
  assume "add_balance j m = Inr m'"
  then have lt: "pool_total ?p (js @ [j]) < 2 ^ 128"
    and m': "m' = m(?p \<mapsto> (min (c + 1) U32_MAX, NoteAmount (note_u128 a + note_u128 (un_amount (jn_note j)))))"
    by (auto simp: run split: if_splits)
  have "unat (note_u128 a + note_u128 (un_amount (jn_note j))) = pool_total ?p (js @ [j])"
    using lt by (simp add: t unat_word_ariths)
  moreover have "min (c + 1) U32_MAX = min (length (filter (\<lambda>i. jn_pool i = ?p) (js @ [j]))) U32_MAX" using c by simp
  ultimately have own: "case m' ?p of None \<Rightarrow> filter (\<lambda>j. jn_pool j = ?p) (js @ [j]) = []
      | Some (c, a) \<Rightarrow> c = min (length (filter (\<lambda>j. jn_pool j = ?p) (js @ [j]))) U32_MAX \<and> note_value a = pool_total ?p (js @ [j])"
    by (simp add: m')
  have "case m' p of None \<Rightarrow> filter (\<lambda>j. jn_pool j = p) (js @ [j]) = []
      | Some (c, a) \<Rightarrow> c = min (length (filter (\<lambda>j. jn_pool j = p) (js @ [j]))) U32_MAX \<and> note_value a = pool_total p (js @ [j])"
    for p
  proof (cases "p = ?p")
    case False
    then have f: "filter (\<lambda>j. jn_pool j = p) (js @ [j]) = filter (\<lambda>j. jn_pool j = p) js" and m: "m' p = m p"
      by (auto simp: m')
    show ?thesis
      unfolding m pool_total_def f using assms [unfolded aggregates_def pool_total_def, THEN spec, of p] .
  next
    case True
    show ?thesis unfolding True by (rule own)
  qed
  then show "aggregates (js @ [j]) m'" by (simp add: aggregates_def)
qed

lemma pool_total_mono: "pool_total p js \<le> pool_total p (js @ ks)"
  by (simp add: pool_total_def)

lemma fold_balances:
  "aggregates done m \<Longrightarrow> fold_ok add_balance js m = Inl e \<Longrightarrow> e = BalanceOverflow \<and> (\<exists>p. 2 ^ 128 \<le> pool_total p (done @ js))"
  "aggregates done m \<Longrightarrow> fold_ok add_balance js m = Inr m' \<Longrightarrow> aggregates (done @ js) m'"
proof (induction js arbitrary: "done" m)
  case (Cons j js)
  {
    case 1
    then show ?case
    proof (cases "add_balance j m")
      case (Inl x)
      then show ?thesis
        using 1 add_balance_spec(1) [OF 1(1), of j x] pool_total_mono [of "jn_pool j" "done @ [j]" js]
        by (auto intro!: exI [of _ "jn_pool j"])
    next
      case (Inr y)
      then show ?thesis using Cons.IH(1) [OF add_balance_spec(2) [OF 1(1) Inr]] 1(2) by simp
    qed
  next
    case 2
    then obtain y where "add_balance j m = Inr y" "fold_ok add_balance js y = Inr m'" by (auto simp: let_ok_Inr_iff)
    then show ?case using Cons.IH(2) [OF add_balance_spec(2) [OF 2(1)]] by simp
  }
qed simp_all

lemma aggregates_small:
  assumes "aggregates js m"
  shows "pool_total p js < 2 ^ 128"
proof -
  have lt: "note_value a < 2 ^ 128" for a using unsigned_less [of "note_u128 a"] by simp
  show ?thesis
  proof (cases "m p")
    case None
    then have "filter (\<lambda>j. jn_pool j = p) js = []" using assms [unfolded aggregates_def, THEN spec, of p] by simp
    then show ?thesis unfolding pool_total_def by simp
  next
    case (Some x)
    then have "note_value (snd x) = pool_total p js"
      using assms [unfolded aggregates_def, THEN spec, of p] by (cases x) simp
    then show ?thesis using lt [of "snd x"] by simp
  qed
qed

lemma pool_total_perm:
  assumes "mset js = mset ks"
  shows "pool_total p js = pool_total p ks"
    and "length (filter (\<lambda>j. jn_pool j = p) js) = length (filter (\<lambda>j. jn_pool j = p) ks)"
proof -
  have m: "mset (filter (\<lambda>j. jn_pool j = p) js) = mset (filter (\<lambda>j. jn_pool j = p) ks)" using assms by simp
  then show "length (filter (\<lambda>j. jn_pool j = p) js) = length (filter (\<lambda>j. jn_pool j = p) ks)" by (rule mset_eq_length)
  have "sum_list (map v (filter (\<lambda>j. jn_pool j = p) xs)) = sum_mset (image_mset v (mset (filter (\<lambda>j. jn_pool j = p) xs)))"
    for xs and v :: "joined_note \<Rightarrow> nat"
    by (metis mset_map sum_mset_sum_list)
  then show "pool_total p js = pool_total p ks" unfolding pool_total_def using m by simp
qed

text \<open>A lookup finds a key exactly if one is registered, and then one of the latest ledger that has a registration.\<close>

lemma foldr_max_ge: "x \<in> set xs \<Longrightarrow> x \<le> foldr max xs (0::nat)"
  by (induction xs) auto

lemma foldr_max_in: "xs \<noteq> [] \<Longrightarrow> foldr max xs (0::nat) \<in> set xs"
proof (induction xs)
  case (Cons x xs)
  then show ?case by (cases xs) (auto simp: max_def)
qed simp

lemma lookup_latest:
  assumes "plan_ok plan" and "lookup_public_key_by_address plan address s = Inr r"
  shows "r = None \<longleftrightarrow> owner_group s address = []"
    and "r = Some e \<Longrightarrow> \<exists>p. (p, ke_ledger e) \<in> set (owner_group s address) \<and> ke_address e = address \<and>
      ke_encryption_key e = public_key_row.pk_encryption_key p \<and> ke_note_key e = public_key_row.pk_note_key p \<and>
      (\<forall>(q, l)\<in>set (owner_group s address). l \<le> ke_ledger e)"
proof -
  let ?g = "owner_group s address" and ?top = "foldr max (map snd (owner_group s address)) 0"
  have v: "set (visited plan ?g) = set ?g" by (rule mset_ordered(3) [OF assms(1)])
  have "?top \<in> snd ` set ?g" if "?g \<noteq> []" using foldr_max_in [of "map snd ?g"] that by simp
  then have "latest_registration plan ?g = None \<longleftrightarrow> ?g = []"
    using v by (cases ?g) (auto simp: latest_registration_def find_None_iff)
  then show "r = None \<longleftrightarrow> ?g = []"
    using assms(2) by (auto simp: lookup_public_key_by_address_def let_ok_Inr_iff split: option.splits)
  assume "r = Some e"
  then obtain p l where l: "latest_registration plan ?g = Some (p, l)" and e: "map_public_key_entry (p, l) = Inr e"
    using assms(2) by (auto simp: lookup_public_key_by_address_def let_ok_Inr_iff split: option.splits)
  have top: "(p, l) \<in> set ?g" "l = ?top" using l v by (auto simp: latest_registration_def dest: find_SomeD)
  moreover have "k \<le> ?top" if "(q, k) \<in> set ?g" for q k using foldr_max_ge [of k "map snd ?g"] that by force
  ultimately show "\<exists>p. (p, ke_ledger e) \<in> set ?g \<and> ke_address e = address \<and>
      ke_encryption_key e = public_key_row.pk_encryption_key p \<and> ke_note_key e = public_key_row.pk_note_key p \<and>
      (\<forall>(q, l)\<in>set ?g. l \<le> ke_ledger e)"
    using e by (intro exI [of _ p]) (auto simp: map_public_key_entry_def let_ok_Inr_iff col_u32_def owner_group_def split: if_splits)
qed

lemma pool_balances_rows:
  assumes "distinct (map pe_pool_contract_id pools)"
  shows "map pb_pool_contract_id (pool_balances pools m) = map pe_pool_contract_id pools"
    and "b \<in> set (pool_balances pools m) \<Longrightarrow> (pb_note_count b, pb_amount b) =
      (case m (pb_pool_contract_id b) of None \<Rightarrow> (0, NOTE_ZERO) | Some entry \<Rightarrow> entry)"
  using assms
proof (induction pools arbitrary: m)
  case (Cons p ps)
  {
    case 1
    then show ?case using Cons.IH(1) by (simp split: prod.split)
  next
    case 2
    obtain c a where ca: "(case m (pe_pool_contract_id p) of None \<Rightarrow> (0, NOTE_ZERO) | Some entry \<Rightarrow> entry) = (c, a)" by fastforce
    let ?m = "m(pe_pool_contract_id p := None)"
    have d: "distinct (map pe_pool_contract_id ps)" "pe_pool_contract_id p \<notin> set (map pe_pool_contract_id ps)" using 2 by simp_all
    from 2 consider "b = \<lparr> pb_pool_contract_id = pe_pool_contract_id p, pb_token_contract_id = pe_token_contract_id p,
         pb_token_label = token_label p, pb_amount = a, pb_note_count = c \<rparr>" | "b \<in> set (pool_balances ps ?m)"
      by (auto simp: ca)
    then show ?case
    proof cases
      case 1
      then show ?thesis by (simp add: ca)
    next
      case 2
      have "pb_pool_contract_id b \<in> set (map pb_pool_contract_id (pool_balances ps ?m))" using 2 by simp
      then have "pb_pool_contract_id b \<noteq> pe_pool_contract_id p"
        unfolding Cons.IH(1) [OF d(1)] using d(2) by metis
      then show ?thesis using Cons.IH(2) [OF 2 d(1)] by simp
    qed
  }
qed simp_all

lemma list_portfolio_balances_spec:
  assumes "plan_ok plan"
  shows "list_portfolio_balances plan address config s = Inl e \<longleftrightarrow>
      e = BalanceOverflow \<and> (\<exists>p. 2 ^ 128 \<le> pool_total p (unspent_of address s))"
    and "list_portfolio_balances plan address config s = Inr bs \<Longrightarrow>
      distinct (map pe_pool_contract_id (enabled_pools config)) \<Longrightarrow>
      map pb_pool_contract_id bs = map pe_pool_contract_id (enabled_pools config) \<and>
      (\<forall>b\<in>set bs. note_value (pb_amount b) = pool_total (pb_pool_contract_id b) (unspent_of address s) \<and>
        pb_note_count b = min (length (filter (\<lambda>j. jn_pool j = pb_pool_contract_id b) (unspent_of address s))) U32_MAX)"
proof -
  let ?js = "order_by plan jn_pool (unspent_of address s)"
  have m: "mset ?js = mset (unspent_of address s)" by (rule mset_ordered(2) [OF assms])
  have start: "aggregates [] Map.empty" by (simp add: aggregates_def)
  have fail: "e = BalanceOverflow \<and> (\<exists>p. 2 ^ 128 \<le> pool_total p ?js)" if "fold_ok add_balance ?js Map.empty = Inl e" for e
    using fold_balances(1) [OF start that] by simp
  have run: "aggregates ?js agg" if "fold_ok add_balance ?js Map.empty = Inr agg" for agg
    using fold_balances(2) [OF start that] by simp
  show "list_portfolio_balances plan address config s = Inl e \<longleftrightarrow>
      e = BalanceOverflow \<and> (\<exists>p. 2 ^ 128 \<le> pool_total p (unspent_of address s))"
  proof (cases "fold_ok add_balance ?js Map.empty")
    case (Inl x)
    then show ?thesis using fail [OF Inl] by (auto simp: list_portfolio_balances_def pool_total_perm(1) [OF m])
  next
    case (Inr agg)
    then show ?thesis
      using aggregates_small [OF run [OF Inr]] by (auto simp: list_portfolio_balances_def pool_total_perm(1) [OF m] not_le [symmetric])
  qed
  assume "list_portfolio_balances plan address config s = Inr bs" and d: "distinct (map pe_pool_contract_id (enabled_pools config))"
  then obtain agg where agg: "fold_ok add_balance ?js Map.empty = Inr agg" and bs: "bs = pool_balances (enabled_pools config) agg"
    by (auto simp: list_portfolio_balances_def let_ok_Inr_iff)
  have "note_value (pb_amount b) = pool_total (pb_pool_contract_id b) (unspent_of address s) \<and>
      pb_note_count b = min (length (filter (\<lambda>j. jn_pool j = pb_pool_contract_id b) (unspent_of address s))) U32_MAX"
    if "b \<in> set bs" for b
  proof -
    let ?p = "pb_pool_contract_id b"
    have "(pb_note_count b, pb_amount b) = (case agg ?p of None \<Rightarrow> (0, NOTE_ZERO) | Some entry \<Rightarrow> entry)"
      using pool_balances_rows(2) [OF d] that bs by simp
    moreover have "filter (\<lambda>j. jn_pool j = ?p) ?js = [] \<Longrightarrow> pool_total ?p ?js = 0" unfolding pool_total_def by simp
    ultimately have "note_value (pb_amount b) = pool_total ?p ?js \<and>
        pb_note_count b = min (length (filter (\<lambda>j. jn_pool j = ?p) ?js)) U32_MAX"
      using run [OF agg, unfolded aggregates_def, THEN spec, of ?p] by (cases "agg ?p") (auto simp: NOTE_ZERO_def)
    then show ?thesis using pool_total_perm [OF m, of ?p] by simp
  qed
  then show "map pb_pool_contract_id bs = map pe_pool_contract_id (enabled_pools config) \<and>
      (\<forall>b\<in>set bs. note_value (pb_amount b) = pool_total (pb_pool_contract_id b) (unspent_of address s) \<and>
        pb_note_count b = min (length (filter (\<lambda>j. jn_pool j = pb_pool_contract_id b) (unspent_of address s))) U32_MAX)"
    using pool_balances_rows(1) [OF d] bs by simp
qed

text \<open>The list of unspent notes has the same total, and a lookup by commitment finds what the list shows.\<close>

lemma unspent_notes_total:
  assumes "plan_ok plan" and "list_unspent_user_notes plan pool address s = Inr notes"
  shows "(\<Sum>u\<leftarrow>notes. note_value (us_amount u)) = pool_total pool (unspent_of address s)"
    and "length notes = length (filter (\<lambda>j. jn_pool j = pool) (unspent_of address s))"
proof -
  let ?js = "order_by_desc plan jn_ledger (filter (\<lambda>j. jn_pool j = pool) (unspent_of address s))"
  have m: "mset ?js = mset (filter (\<lambda>j. jn_pool j = pool) (unspent_of address s))" by (rule mset_ordered(1) [OF assms(1)])
  have read: "map us_amount us = map (\<lambda>j. un_amount (jn_note j)) js"
    if "map_ok (\<lambda>j. let_ok (note_summary j) (\<lambda>u. Inr (u\<lparr> us_spent := False \<rparr>))) js = Inr us" for js us
    using that by (induction js arbitrary: us) (auto simp: note_summary_def let_ok_Inr_iff)
  have n: "map us_amount notes = map (\<lambda>j. un_amount (jn_note j)) ?js"
    using read assms(2) by (simp add: list_unspent_user_notes_def)
  then have "length notes = length ?js" by (metis length_map)
  then show "length notes = length (filter (\<lambda>j. jn_pool j = pool) (unspent_of address s))" using mset_eq_length [OF m] by simp
  have "set ?js = set (filter (\<lambda>j. jn_pool j = pool) (unspent_of address s))" using mset_eq_setD [OF m] .
  then have "filter (\<lambda>j. jn_pool j = pool) ?js = ?js" by (intro filter_True) auto
  then have "pool_total pool ?js = sum_list (map note_value (map (\<lambda>j. un_amount (jn_note j)) ?js))"
    by (simp add: pool_total_def comp_def)
  also have "\<dots> = (\<Sum>u\<leftarrow>notes. note_value (us_amount u))" by (simp add: n [symmetric] comp_def)
  finally show "(\<Sum>u\<leftarrow>notes. note_value (us_amount u)) = pool_total pool (unspent_of address s)"
    using pool_total_perm(1) [OF m, of pool] by (simp add: pool_total_def)
qed

section \<open>What a balance is worth\<close>

text \<open>
  The notes of a wallet are separate when no commitment is opened by the keys of two accounts and no two commitments
  lead to the same nullifier: what encryption to one recipient and the hash of the nullifier give.
\<close>

definition separate_notes :: "derive_note_fn \<Rightarrow> storage \<Rightarrow> bool" where
  "separate_notes D s \<longleftrightarrow>
    (\<forall>a\<in>set (get_accounts_with_latest_keypairs s). \<forall>a'\<in>set (get_accounts_with_latest_keypairs s).
     \<forall>c\<in>set (db_commitments s). \<forall>c'\<in>set (db_commitments s). \<forall>d d'.
       D a (pool_row c) = Inr (Some d) \<longrightarrow> D a' (pool_row c') = Inr (Some d') \<longrightarrow>
       c = c' \<or> dn_expected_nullifier d = dn_expected_nullifier d' \<longrightarrow> a = a' \<and> c = c')"

text \<open>What a commitment is worth to an account: nothing when its keys do not open it or its nullifier was seen.\<close>

definition worth :: "derive_note_fn \<Rightarrow> storage \<Rightarrow> account_keys \<Rightarrow> commitment_row \<Rightarrow> nat" where
  "worth D s a c =
    (case D a (pool_row c) of
       Inr (Some d) \<Rightarrow>
         if \<exists>m\<in>set (db_nullifiers s). nl_nullifier m = dn_expected_nullifier d \<and> same_pool s c m then 0
         else note_value (dn_amount d)
     | _ \<Rightarrow> 0)"

lemma account_listed:
  assumes "wallet_ok D s" and "directory_ok s" and "k \<in> set (db_keypairs s)" and "kp_account k = Some i"
  shows "account_keys_of i k \<in> set (get_accounts_with_latest_keypairs s)"
proof -
  obtain x where x: "x \<in> set (db_accounts s)" "acc_id x = i"
    using assms(2-4) by (auto simp: directory_ok_def image_subset_iff)
  let ?ks = "rev (sort_key kp_id (filter (\<lambda>k. kp_account k = Some (acc_id x)) (db_keypairs s)))"
  have "k \<in> set ?ks" using assms(3,4) x(2) by simp
  then obtain k' ks where k': "?ks = k' # ks" by (cases ?ks) auto
  then have "k' \<in> set ?ks" by simp
  then have "k' \<in> set (db_keypairs s)" "kp_account k' = kp_account k" using assms(4) x(2) by auto
  then have "kp_keys k' = kp_keys k" using wallet_okD(7) [OF assms(1)] assms(3) by blast
  then have "latest_keypair s x = Some (account_keys_of i k)"
    using k' x(2) by (simp add: latest_keypair_def account_keys_of_def)
  then show ?thesis using x(1) by (force simp: get_accounts_with_latest_keypairs_def map_filter_def)
qed

lemma distinct_commitments: "events_ok s \<Longrightarrow> distinct (map cm_id (db_commitments s)) \<and> distinct (db_commitments s)"
  using sorted_ids(3) [of s "\<lambda>_. True"] by (auto simp: strict_sorted_iff distinct_map)

lemma account_of_id:
  assumes "wallet_ok D s" and "a \<in> set (get_accounts_with_latest_keypairs s)" and "b \<in> set (get_accounts_with_latest_keypairs s)"
    and "ak_account a = ak_account b"
  shows "a = b"
  using latest_keypair_valid [OF assms(2)] latest_keypair_valid [OF assms(3)] assms(4) wallet_okD(7) [OF assms(1)]
  unfolding valid_account_def account_keys_of_def by metis

lemma join_note_exists:
  assumes "storage_ok D s" and "n \<in> set (db_user_notes s)"
  obtains c k x p where "c \<in> set (db_commitments s)" and "cm_id c = un_commitment n" and "x \<in> set (db_accounts s)"
    and "acc_id x = un_account n" and "event_address s (cm_event c) = Some p"
    and "account_keys_of (un_account n) k \<in> set (get_accounts_with_latest_keypairs s)"
    and "D (account_keys_of (un_account n) k) (pool_row c) = Inr (Some (derived_of n))"
    and "\<exists>j. join_note s n = Some j \<and> jn_note j = n \<and> jn_account j = acc_address x \<and> jn_commitment j = c \<and> jn_pool j = p"
proof -
  have ok: "wallet_ok D s" "directory_ok s" "events_ok s" using assms(1) by (simp_all add: storage_ok_def base_ok_def)
  from wallet_okD(1) [OF ok(1) assms(2)] show thesis
  proof (rule note_okE)
    fix c k
    assume c: "c \<in> set (db_commitments s)" "cm_id c = un_commitment n" "cm_commitment c = un_id n"
      "k \<in> set (db_keypairs s)" "kp_account k = Some (un_account n)"
      "D (account_keys_of (un_account n) k) (pool_row c) = Inr (Some (derived_of n))"
    have l: "account_keys_of (un_account n) k \<in> set (get_accounts_with_latest_keypairs s)"
      by (rule account_listed [OF ok(1,2) c(4,5)])
    obtain x where x: "x \<in> set (db_accounts s)" "acc_id x = un_account n"
      using ok(2) c(4,5) by (auto simp: directory_ok_def image_subset_iff)
    obtain r where r: "r \<in> set (db_raw s)" "raw_id r = cm_event c" using event_in_raw(1) [OF ok(3) c(1)] by auto
    obtain t where t: "t \<in> set (db_contracts s)" "ct_id t = raw_contract r" using ok(2) r(1) by (auto simp: directory_ok_def image_subset_iff)
    have rows: "row_by acc_id (db_accounts s) (un_account n) = Some x" "row_by raw_id (db_raw s) (cm_event c) = Some r"
      "row_by ct_id (db_contracts s) (raw_contract r) = Some t" "row_by cm_id (db_commitments s) (un_commitment n) = Some c"
      using ok(2,3) x r t c(1,2) by (simp_all add: directory_ok_def row_by_Some_iff distinct_commitments)
    have "event_address s (cm_event c) = Some (ct_address t)"
      by (simp add: event_address_def event_contract_def event_row_def rows)
    moreover have "\<exists>j. join_note s n = Some j \<and> jn_note j = n \<and> jn_account j = acc_address x \<and> jn_commitment j = c \<and>
        jn_pool j = ct_address t"
      by (simp add: join_note_def event_row_def rows)
    ultimately show thesis using that c x l by blast
  qed
qed

lemma map_filter_total: "(\<And>x. x \<in> set xs \<Longrightarrow> f x = Some (g x)) \<Longrightarrow> List.map_filter f xs = map g xs"
  by (induction xs) (simp_all add: map_filter_simps)


lemma process_notes_frame:
  assumes "process_notes limit D s = (Inr b, s')" and "storage_ok D s"
  shows "db_nullifiers s' = db_nullifiers s" and "same_pool s' = same_pool s"
proof -
  have s: "wallet_ok D s" "events_ok s" using assms(2) by (simp_all add: storage_ok_def base_ok_def)
  from assms(1) obtain x t y where x: "scan_commitments_for_user_notes limit D s = (Inr x, t)"
    and y: "reconcile_nullifiers limit t = (Inr y, s')"
    by (auto simp: process_notes_def elim!: and_then_cases)
  note t = scan_commitments_ok [OF x s]
  have "events_ok t" using s(2) by (simp add: scan_frameD [OF t(2)])
  note f = scan_frameD [OF t(2)] rec_frameD [OF reconcile_nullifiers_ok(2) [OF y t(1) this]]
  show "db_nullifiers s' = db_nullifiers s" "same_pool s' = same_pool s" by (simp_all add: f same_pool_def [abs_def])
qed

lemma unspent_total_worth:
  assumes s': "storage_ok D s'" and a: "a \<in> set (get_accounts_with_latest_keypairs s')"
    and x: "x \<in> set (db_accounts s')" "acc_id x = ak_account a" and sep: "separate_notes D s'"
    and found: "\<And>c d. c \<in> set (db_commitments s') \<Longrightarrow> D a (pool_row c) = Inr (Some d) \<Longrightarrow> found s' c d"
    and spent: "\<And>n c. n \<in> set (db_user_notes s') \<Longrightarrow> c \<in> set (db_commitments s') \<Longrightarrow> cm_id c = un_commitment n \<Longrightarrow>
      un_nullifier n \<noteq> None \<longleftrightarrow> (\<exists>m\<in>set (db_nullifiers s'). nl_nullifier m = un_expected n \<and> same_pool s' c m)"
  shows "pool_total p (unspent_of (acc_address x) s') =
    (\<Sum>c\<leftarrow>filter (\<lambda>c. event_address s' (cm_event c) = Some p) (db_commitments s'). worth D s' a c)"
proof -
  have ok: "wallet_ok D s'" "directory_ok s'" "events_ok s'" using s' by (simp_all add: storage_ok_def base_ok_def)
  let ?C = "{c \<in> set (db_commitments s'). event_address s' (cm_event c) = Some p}"
  define J where "J n = the (join_note s' n)" for n
  let ?mine = "\<lambda>n. jn_account (J n) = acc_address x \<and> un_nullifier (jn_note (J n)) = None \<and> jn_pool (J n) = p"
  let ?N = "{n \<in> set (db_user_notes s'). ?mine n}" and ?h = "\<lambda>n. jn_commitment (J n)" and ?v = "\<lambda>n. note_value (un_amount (jn_note (J n)))"
  have join: "join_note s' n = Some (J n)" if "n \<in> set (db_user_notes s')" for n
    using join_note_exists [OF s' that] unfolding J_def by force
  then have all: "joined_notes s' = map J (db_user_notes s')" unfolding joined_notes_def by (rule map_filter_total)
  have mine: "jn_note (J n) = n \<and> ?h n \<in> ?C \<and> D a (pool_row (?h n)) = Inr (Some (derived_of n)) \<and> cm_id (?h n) = un_commitment n"
    if n: "n \<in> ?N" for n
  proof -
    have "n \<in> set (db_user_notes s')" using n by simp
    from join_note_exists [OF s' this] join [OF this] obtain c k y where c: "c \<in> set (db_commitments s')" "cm_id c = un_commitment n"
      "y \<in> set (db_accounts s')" "acc_id y = un_account n" "event_address s' (cm_event c) = Some (jn_pool (J n))"
      "account_keys_of (un_account n) k \<in> set (get_accounts_with_latest_keypairs s')"
      "D (account_keys_of (un_account n) k) (pool_row c) = Inr (Some (derived_of n))"
      "jn_note (J n) = n" "jn_account (J n) = acc_address y" "?h n = c" by (metis option.inject)
    have "acc_address y = acc_address x" using n c(9) by simp
    then have "y = x" using ok(2) x(1) c(3) by (auto simp: directory_ok_def distinct_map inj_on_def)
    then have "ak_account (account_keys_of (un_account n) k) = ak_account a" using c(4) x(2) by (simp add: account_keys_of_def)
    then have "account_keys_of (un_account n) k = a" by (rule account_of_id [OF ok(1) c(6) a])
    then show ?thesis using n c by simp
  qed
  have dist: "distinct (db_user_notes s')" using wallet_okD(4) [OF ok(1)] by (simp add: distinct_map)
  have ids: "c = c'" if "c \<in> set (db_commitments s')" "c' \<in> set (db_commitments s')" "cm_id c = cm_id c'" for c c'
    using that distinct_commitments [OF ok(3)] by (auto simp: distinct_map inj_on_def)
  have "pool_total p (unspent_of (acc_address x) s') = (\<Sum>n\<leftarrow>filter ?mine (db_user_notes s'). ?v n)"
    unfolding pool_total_def unspent_of_def all filter_map filter_filter map_map comp_def by (simp add: conj_ac)
  also have "\<dots> = (\<Sum>n\<in>?N. ?v n)" using dist by (simp add: sum_list_distinct_conv_sum_set)
  also have "\<dots> = (\<Sum>n\<in>?N. worth D s' a (?h n))"
  proof (rule sum.cong [OF refl])
    fix n assume n: "n \<in> ?N"
    note m = mine [OF n]
    have "un_nullifier n = None" using n m by simp
    then have "\<not> (\<exists>m\<in>set (db_nullifiers s'). nl_nullifier m = un_expected n \<and> same_pool s' (?h n) m)"
      using spent [of n "?h n"] n m by simp
    then show "?v n = worth D s' a (?h n)" using m by (auto simp: worth_def derived_of_def)
  qed
  also have "\<dots> = (\<Sum>c\<in>?h ` ?N. worth D s' a c)"
  proof (rule sum.reindex [symmetric, unfolded comp_def])
    show "inj_on ?h ?N"
    proof (rule inj_onI)
      fix n n' assume n: "n \<in> ?N" "n' \<in> ?N" and "?h n = ?h n'"
      then have "un_commitment n = un_commitment n'" using mine [OF n(1)] mine [OF n(2)] by simp
      then show "n = n'" using wallet_okD(4) [OF ok(1)] n by (auto simp: distinct_map inj_on_def)
    qed
  qed
  also have "\<dots> = (\<Sum>c\<in>?C. worth D s' a c)"
  proof (rule sum.mono_neutral_left)
    show "?h ` ?N \<subseteq> ?C" using mine by blast
    show "\<forall>c\<in>?C - ?h ` ?N. worth D s' a c = 0"
    proof (intro ballI, rule ccontr)
      fix c assume c: "c \<in> ?C - ?h ` ?N" and "worth D s' a c \<noteq> 0"
      then obtain d where d: "D a (pool_row c) = Inr (Some d)"
        and unseen: "\<not> (\<exists>m\<in>set (db_nullifiers s'). nl_nullifier m = dn_expected_nullifier d \<and> same_pool s' c m)"
        by (auto simp: worth_def split: sum.splits option.splits if_splits)
      have cm: "c \<in> set (db_commitments s')" using c by simp
      obtain n where n: "n \<in> set (db_user_notes s')" "un_commitment n = cm_id c \<or> un_expected n = dn_expected_nullifier d"
        using found [OF cm d] unfolding found_def by blast
      from join_note_exists [OF s' n(1)] join [OF n(1)] obtain c' k y where c': "c' \<in> set (db_commitments s')" "cm_id c' = un_commitment n"
        "y \<in> set (db_accounts s')" "acc_id y = un_account n" "event_address s' (cm_event c') = Some (jn_pool (J n))"
        "account_keys_of (un_account n) k \<in> set (get_accounts_with_latest_keypairs s')"
        "D (account_keys_of (un_account n) k) (pool_row c') = Inr (Some (derived_of n))"
        "jn_note (J n) = n" "jn_account (J n) = acc_address y" "?h n = c'" by (metis option.inject)
      have "c = c' \<or> dn_expected_nullifier d = dn_expected_nullifier (derived_of n)"
        using n(2) ids [OF cm c'(1)] c'(2) by (auto simp: derived_of_def)
      then have same: "a = account_keys_of (un_account n) k" "c = c'"
        using sep a cm c'(1,6,7) d unfolding separate_notes_def by blast+
      then have "derived_of n = d" using d c'(7) by simp
      then have "un_nullifier n = None" using spent [OF n(1) cm] unseen c'(2) same(2) by (auto simp: derived_of_def)
      moreover have "acc_id y = acc_id x" using c'(4) x(2) same(1) by (simp add: account_keys_of_def)
      then have "y = x" using ok(2) x(1) c'(3) by (auto simp: directory_ok_def distinct_map inj_on_def)
      ultimately have "n \<in> ?N" using n(1) c' same(2) c by simp
      then show False using c c'(10) same(2) by blast
    qed
  qed simp
  also have "\<dots> = (\<Sum>c\<leftarrow>filter (\<lambda>c. event_address s' (cm_event c) = Some p) (db_commitments s'). worth D s' a c)"
    using distinct_commitments [OF ok(3)] by (simp add: sum_list_distinct_conv_sum_set)
  finally show ?thesis .
qed

text \<open>
  C33: The balance on the screen is the worth of the chain. When the processor rests, the query of balances answers, for
  each enabled pool of the configuration, exactly the sum over the stored commitments of that pool of what
  they are worth to the account: the amount to which its keys open the commitment, or nothing when they
  do not open it or its nullifier was seen in that pool. The notes of the wallet have to be separate:
  no commitment opens to two accounts, and no nullifier belongs to two commitments.
\<close>

theorem portfolio_exact:
  assumes "storage_reach S D s" and "process_notes limit D s = (Inr False, s')" and "0 < limit" and "separate_notes D s'"
    and "a \<in> set (get_accounts_with_latest_keypairs s')" and "x \<in> set (db_accounts s')" and "acc_id x = ak_account a"
    and "plan_ok plan" and "list_portfolio_balances plan (acc_address x) config s' = Inr bs"
    and "distinct (map pe_pool_contract_id (enabled_pools config))"
  shows "map pb_pool_contract_id bs = map pe_pool_contract_id (enabled_pools config) \<and>
    (\<forall>b\<in>set bs. note_value (pb_amount b) =
      (\<Sum>c\<leftarrow>filter (\<lambda>c. event_address s' (cm_event c) = Some (pb_pool_contract_id b)) (db_commitments s'). worth D s' a c))"
proof -
  have ok: "storage_ok D s" using history_invariant [OF assms(1)] by (simp add: history_ok_def)
  note idle = process_notes_idle [OF assms(2,3) ok] and frame = process_notes_frame [OF assms(2) ok]
  have "pool_total p (unspent_of (acc_address x) s') =
      (\<Sum>c\<leftarrow>filter (\<lambda>c. event_address s' (cm_event c) = Some p) (db_commitments s'). worth D s' a c)" for p
  proof (rule unspent_total_worth [OF idle(3) assms(5-7,4)])
    have acc: "a \<in> set (get_accounts_with_latest_keypairs s)"
      using assms(5) by (simp add: process_notes_accounts [OF assms(2) ok])
    show "found s' c d" if "c \<in> set (db_commitments s')" "D a (pool_row c) = Inr (Some d)" for c d
      using idle(1) [OF acc] that by (simp add: idle(4))
    show "un_nullifier n \<noteq> None \<longleftrightarrow> (\<exists>m\<in>set (db_nullifiers s'). nl_nullifier m = un_expected n \<and> same_pool s' c m)"
      if "n \<in> set (db_user_notes s')" "c \<in> set (db_commitments s')" "cm_id c = un_commitment n" for n c
      using idle(2) [OF that(1) _ that(3)] that(2) by (simp add: idle(4) frame)
  qed
  then show ?thesis using list_portfolio_balances_spec(2) [OF assms(8-10)] by simp
qed

section \<open>A sample portfolio\<close>

definition two_notes :: derive_note_fn where
  "two_notes a row = Inr (Some (if pc_leaf_index row = 0
     then \<lparr> dn_amount = NoteAmount 7, dn_blinding = Field 1, dn_expected_nullifier = Field 21 \<rparr>
     else \<lparr> dn_amount = NoteAmount 9, dn_blinding = Field 2, dn_expected_nullifier = Field 99 \<rparr>))"

definition sample_portfolio :: contract_config where
  "sample_portfolio = \<lparr> cc_network = ''testnet'', cc_deployer = ''d'', cc_admin = ''a'', cc_asp_membership = ''asp'',
     cc_asp_membership_deployment_ledger = None, cc_asp_non_membership = ''n'', cc_verifier = ''v'',
     cc_public_key_registry = ''r'', cc_pools =
       [\<lparr> pe_pool_contract_id = ''pool'', pe_token_contract_id = ''t'', pe_deployment_ledger = 1, pe_enabled = True,
          pe_asset = NativeAsset \<rparr>] \<rparr>"

abbreviation two_state :: storage where
  "two_state \<equiv> db3\<lparr> db_user_notes :=
    [\<lparr> un_id = Field 32, un_account = 1, un_commitment = 1, un_nullifier = None, un_expected = Field 99,
       un_blinding = Field 2, un_amount = NoteAmount 9 \<rparr>,
     \<lparr> un_id = Field 31, un_account = 1, un_commitment = 2, un_nullifier = Some 2, un_expected = Field 21,
       un_blinding = Field 1, un_amount = NoteAmount 7 \<rparr>],
    db_commitment_scan := [\<lparr> cs_pool = 1, cs_account = 1, cs_last = 2 \<rparr>],
    db_nullifier_scan := [\<lparr> ns_pool = 1, ns_last = 2 \<rparr>] \<rparr>"

lemma two_scan:
  "scan_pool two_notes [\<lparr> ak_account = 1, ak_keys = k \<rparr>] 1 4 db3 = Inr (True, two_state\<lparr> db_nullifier_scan := [] \<rparr>)"
  "scan_pool two_notes [\<lparr> ak_account = 1, ak_keys = k \<rparr>] 1 4 two_state = Inr (False, two_state)"
  by (simp_all add: scan_pool_def sample_scan_simps db_eqs two_notes_def)

lemma two_reconcile:
  "reconcile_nullifiers 4 (two_state\<lparr> db_nullifier_scan := [] \<rparr>) = (Inr True, two_state)"
  "reconcile_nullifiers 4 two_state = (Inr False, two_state)"
  by (simp_all add: reconcile_nullifiers_def reconcile_pool_def open_nullifier_scan_def nullifier_mark_def row_by_def
      nullifiers_after_def event_contract_def event_row_def mark_note_spent_def spent_by_def set_nullifier_mark_def Let_def
      transaction_def pool_ids_of_def map_filter_simps db_eqs)

lemma two_process:
  "process_notes 4 two_notes db3 = (Inr True, two_state)"
  "process_notes 4 two_notes two_state = (Inr False, two_state)"
proof -
  let ?acc = "[\<lparr> ak_account = 1, ak_keys = kp_keys (hd (db_keypairs db1)) \<rparr>]"
  have db3: "db3 = db3\<lparr> db_user_notes := [], db_commitment_scan := [], db_nullifier_scan := [] \<rparr>" by (simp add: db_eqs)
  have acc: "get_accounts_with_latest_keypairs db3 = ?acc" "pool_ids_of db3 (map cm_event (db_commitments db3)) = [1]"
    using sample_accounts sample_pools(1) by (subst db3, blast)+
  have zip: "zip [1] (pool_quotas 4 (length [1::nat])) = [(1, 4)]" by (simp add: sample_quota)
  have run: "scan_pools two_notes ?acc [(1, 4)] False db3 = (Inr True, two_state\<lparr> db_nullifier_scan := [] \<rparr>)"
    "scan_pools two_notes ?acc [(1, 4)] False two_state = (Inr False, two_state)"
    unfolding scan_pools.simps transaction_def two_scan by (simp_all add: and_then_def)
  have "scan_commitments_for_user_notes 4 two_notes db3 = (Inr True, two_state\<lparr> db_nullifier_scan := [] \<rparr>)"
    unfolding scan_commitments_for_user_notes_def acc Let_def zip run by simp
  then show "process_notes 4 two_notes db3 = (Inr True, two_state)"
    unfolding process_notes_def by (simp only: and_then_simps two_reconcile) simp
  have cm: "db_commitments two_state = db_commitments db3" by simp
  have "scan_commitments_for_user_notes 4 two_notes two_state = (Inr False, two_state)"
    unfolding scan_commitments_for_user_notes_def sample_accounts cm sample_pools Let_def zip run by simp
  then show "process_notes 4 two_notes two_state = (Inr False, two_state)"
    unfolding process_notes_def by (simp only: and_then_simps two_reconcile) simp
qed

lemma two_balances:
  "list_portfolio_balances (\<lambda>n. [0..<n]) ''alice'' sample_portfolio two_state =
    Inr [\<lparr> pb_pool_contract_id = ''pool'', pb_token_contract_id = ''t'', pb_token_label = ''XLM'',
           pb_amount = NoteAmount 9, pb_note_count = 1 \<rparr>]"
  by (simp add: list_portfolio_balances_def order_by_def visited_def unspent_of_def joined_notes_def join_note_def map_filter_simps
      event_row_def row_by_def db_eqs add_balance_def note_checked_add_def checked_add_def NOTE_ZERO_def sample_portfolio_def
      enabled_pools_def token_label_def)

theorem portfolio_exact_witness:
  "(\<Sum>c\<leftarrow>filter (\<lambda>c. event_address two_state (cm_event c) = Some ''pool'') (db_commitments two_state).
     worth two_notes two_state \<lparr> ak_account = 1, ak_keys = kp_keys (hd (db_keypairs db1)) \<rparr> c) = 9"
proof -
  let ?a = "\<lparr> ak_account = 1, ak_keys = kp_keys (hd (db_keypairs db1)) \<rparr>" and ?x = "\<lparr> acc_id = 1, acc_address = ''alice'' \<rparr>"
  have reach: "storage_reach sample_log two_notes two_state"
    by (rule reach_process_notes [OF sample_reach_any(2) two_process(1)])
  have sep: "separate_notes two_notes two_state"
    unfolding separate_notes_def sample_accounts by (auto simp: db_eqs two_notes_def pool_row_def)
  have "acc_address ?x = ''alice''" by simp
  then have run: "list_portfolio_balances (\<lambda>n. [0..<n]) (acc_address ?x) sample_portfolio two_state =
      Inr [\<lparr> pb_pool_contract_id = ''pool'', pb_token_contract_id = ''t'', pb_token_label = ''XLM'',
           pb_amount = NoteAmount 9, pb_note_count = 1 \<rparr>]"
    using two_balances by (simp only:)
  have hyps: "?a \<in> set (get_accounts_with_latest_keypairs two_state)" "?x \<in> set (db_accounts two_state)"
    "acc_id ?x = ak_account ?a" "plan_ok (\<lambda>n. [0..<n])"
    "distinct (map pe_pool_contract_id (enabled_pools sample_portfolio))" "(0::nat) < 4"
    by (simp_all add: sample_accounts plan_ok_def sample_portfolio_def enabled_pools_def) (simp add: db_eqs)
  show ?thesis
    using portfolio_exact [OF reach two_process(2) hyps(6) sep hyps(1-4) run hyps(5), THEN conjunct2] by simp
qed

end
