(* ===== verification/Spec2Isabelle.thy ===== *)
theory Spec2Isabelle
  imports Pool Asp_Membership Public_Key_Registry Asp_Non_Membership Spend_Session Hash_Agreement
    Note_Encryption Contract_Calls Storage_Contract Storage_Queries
begin

text \<open>
  \<^bold>\<open>Veil: a privacy pool on Soroban\<close>

  The repository holds the contracts of a privacy pool (\<open>contracts/\<close>), the client that plans, proves and
  submits transactions (\<open>app/crates/\<close>), the hash functions both sides share (\<open>poseidon2/\<close>,
  \<open>contracts/soroban-utils\<close>), the circuits, and services and tools around them. A user deposits tokens into
  the pool contract and receives notes: commitments to an amount, a public key and a blinding, kept as
  leaves of a Merkle tree. A transaction spends up to two notes by publishing their nullifiers, inserts
  two new commitments and moves the difference as tokens; a Groth16 proof ties the public fields to the
  roots of the pool tree and of the two association-set contracts. The client reads the events, finds
  its notes by decryption, rebuilds the trees, selects notes and runs a session of transactions.

  \<^bold>\<open>Theories\<close>

  \<^item> \<open>Prelude\<close>: integers and byte strings of Rust, outcomes of calls, checked arithmetic.
  \<^item> \<open>Soroban_Constants\<close>, \<open>Soroban_Utils\<close> (\<open>contracts/soroban-utils/src\<close>): modulus, round constants, zero
    hashes; \<open>poseidon2_compress\<close>, \<open>poseidon2_hash2\<close>, \<open>update_admin\<close>. \<open>Sample_Host\<close> is a host that
    satisfies the assumptions, for witnesses only.
  \<^item> \<open>Merkle_Spec\<close>: the abstract Merkle tree, the locale \<open>merkle_levels\<close> of a hash with its zero hashes in
    which the incremental algorithm is proved once, and paths.
  \<^item> \<open>Pool_Merkle\<close> (\<open>contracts/pool/src/merkle_with_history.rs\<close>): the incremental tree refines the abstract
    one; the ring of 90 roots answers membership exactly and its scan terminates.
  \<^item> \<open>Pool\<close> (\<open>contracts/pool/src/pool.rs\<close>): the whole contract. Exact acceptance condition of \<open>transact\<close>,
    order of errors, no double spend over any sequence of calls, conservation of tokens, root as a
    function of the accepted commitments, the public amount and the public inputs.
  \<^item> \<open>Asp_Membership\<close>, \<open>Public_Key_Registry\<close> (their \<open>lib.rs\<close>): reachable states, access control, event logs.
  \<^item> \<open>Smt_Spec\<close>, \<open>Asp_Non_Membership\<close> (\<open>contracts/asp-non-membership/src/lib.rs\<close>): sparse Merkle trees as
    canonical tries; the contract refines a key-value map, its root depends on the map only, and its
    verification accepts exactly the right paths.
  \<^item> \<open>Groth16\<close> (\<open>contracts/types\<close>, \<open>contracts/circom-groth16-verifier\<close>, \<open>soroban-utils/src/utils.rs\<close>): proof and
    key bytes and the pairing equation.
  \<^item> \<open>Amounts\<close> (\<open>types/src/amounts.rs\<close>, parts of \<open>lib.rs\<close>): amounts, field elements and their formats.
  \<^item> \<open>Coin_Selection\<close>, \<open>Tx_Plan\<close>, \<open>Spend_Session\<close> (\<open>tx-planner/src\<close>): selection of notes, plans of merges
    and the stateful session that executes them; termination, completeness, balance of every call.
  \<^item> \<open>Poseidon2\<close>, \<open>Poseidon2_BN256\<close> (\<open>poseidon2/src\<close>): the optimised permutation equals the published one.
  \<^item> \<open>Prover_Crypto\<close>, \<open>Prover_Merkle\<close>, \<open>Note_Encryption\<close> (\<open>prover/src/serialization.rs\<close>, \<open>crypto.rs\<close>,
    \<open>merkle.rs\<close>, \<open>encryption.rs\<close>, \<open>notes.rs\<close>, \<open>circuits/src/core/merkle.rs\<close>): formats, hashes, the client's
    Merkle trees and proofs, key derivation, note encryption and discovery.
  \<^item> \<open>Hash_Agreement\<close>: contracts and client compute the same hashes.
  \<^item> \<open>Flows\<close>, \<open>Flow_Properties\<close> (\<open>prover/src/flows.rs\<close>): the builder of transactions and circuit inputs, its
    exact acceptance, conservation of value, bulk withdrawal sessions.
  \<^item> \<open>Soroban_Encode\<close>, \<open>Event_Parsers\<close> (\<open>stellar/src/conversions.rs\<close>, \<open>soroban_encode.rs\<close>, \<open>ext_data_hash.rs\<close>,
    \<open>state/src/events_parsers.rs\<close>): values of contract calls and events. \<open>Contract_Calls\<close>: what the client builds is what
    the contracts read, and what the contracts publish is what the client parses; a note reaches its recipient.
  \<^item> \<open>Storage\<close>, \<open>Storage_Notes\<close>, \<open>Storage_Queries\<close> (\<open>state/src/storage.rs\<close>, \<open>schema.sql\<close>, \<open>processor.rs\<close>, the loop of
    \<open>platforms/web/src/workers/storage.rs\<close>): the local database, its statements, the processing of events and notes.
  \<^item> \<open>Storage_Invariant\<close> (the locale \<open>derived_table\<close> of a table that is filled from events, interpreted on the four
    tables), \<open>Storage_Wallet\<close>, \<open>Storage_History\<close>: invariants of the tables over every sequence of method calls.
    \<open>Storage_Properties\<close>: the derived tables are the parse of the log, the wallet is complete at rest.
    \<open>Storage_Termination\<close>: when the loop of the worker ends. \<open>Storage_Queries\<close> also shows that the balances on
    the screen are what the stored commitments are worth to the account.
  \<^item> \<open>Indexer\<close>, \<open>Indexer_Properties\<close> (\<open>stellar/src/indexer.rs\<close>, parts of \<open>rpc.rs\<close>, \<open>platforms/web/src/events.rs\<close>, the
    configuration in \<open>types/src/lib.rs\<close>): rounds of the indexer, also interleaved with the storage worker. Its cursor is
    never ahead of the stored events, which are a first part of the log; the ledgers that it reports may be.
  \<^item> \<open>Storage_Contract\<close>: from the contract through service, indexer and processor to the leaves of the client.

  This theory holds the facts that span components.

  \<^bold>\<open>Correspondence\<close>

  Definitions keep the names of the source, with a prefix where two modules share one. A storage or a
  struct is a record, an enum a datatype, an error code a constructor; a contract call returns
  \<open>Inl (Err e)\<close> for a returned error, \<open>Inl Trap\<close> for a panic or a host trap, and \<open>Inr\<close> of the result and the
  new state. A failed call has no effect, as Soroban rolls it back. Amounts and field elements of the
  contracts are words of their width; scalars of the crate are integers modulo the prime; counters are
  natural numbers with the overflow checks written out, where \<open>usize\<close> has 32 bits (WebAssembly).
  Loops are structural recursions or functions with a measure; the loops whose end depends on
  stored data (\<open>is_known_root\<close>, \<open>process_until_empty\<close>) are partial functions, and their termination is a theorem.
  A method of the database returns its result with the new database, since transactions that committed before
  a failure stay. Concurrency of the client is a step relation that interleaves the awaits of the indexer with the
  requests of the storage worker.

  \<^bold>\<open>Parameters and what is assumed of them\<close>

  The host permutation (\<open>host_permutation_ok\<close>: width and range; \<open>host_is_poseidon2\<close>: it computes Poseidon2),
  the embedded zero hashes (\<open>zero_table_ok\<close>: each is the compression of the previous one; evaluating the
  32 permutations exceeds what the kernel can compute), curve operations and pairing (\<open>bn254_host_ok\<close>),
  the token contract (\<open>token_ledger_ok\<close>), absence of collisions among the finitely many trees a history
  produced (\<open>collision_free\<close>), the crates \<open>hex\<close> (\<open>hex_ok\<close>) and those behind note encryption
  (\<open>crypto_env_ok\<close>), the unstable sort (\<open>unstable_sort_ok\<close>), the random source and the hash callback of the
  flows, XDR and addresses (\<open>stellar_env\<close>, \<open>services_ok\<close>, \<open>same_serialiser\<close>; \<open>wire_event\<close>: how the SDK writes an
  event), the order in which SQLite visits rows (\<open>plan_ok\<close>), the derivation of notes in the scan, the wallet notes (\<open>separate_notes\<close>: no shared nullifiers or openings), keys that
  are stored again unchanged (\<open>keys_stable\<close>), the RPC service (\<open>service_ok\<close>: a page holds the next events of the
  log of the contracts, \<open>log_ok\<close>, from the start of the request on, perhaps none although more follow, since the
  service scans a bounded window of ledgers; its cursor stands behind them). The completeness of the indexer is shown for
  a client that clears no cursor (\<open>resets\<close> is false: a listener without a bootnode); with a reset it fails, as
  \<open>empty_window_skipped\<close> shows. Every theorem with such an assumption has a
  witness with a concrete instance.

  \<^bold>\<open>Bounds\<close>

  Trees have 1 to 32 levels, as the code checks. Coin selection is bounded by the constants of the
  code (10 notes, 5000 nodes of the search); a list in the client has fewer than \<open>2 ^ 32\<close> elements.

  \<^bold>\<open>Not modelled\<close>

  The circom circuits with their build and test harness (another language, generated code); proof
  generation, R1CS parsing and witness generation (calls to arkworks and wasmer); the client's sparse Merkle
  tree; requests of the RPC client for ledger entries, simulation and submission, transaction assembly and
  signing; selective disclosure receipts; the web client, the message plumbing of its workers and the
  JavaScript; the services and command-line tools (input and output around remote systems); the parameter tables
  of other fields in \<open>poseidon2\<close>, which nothing in the repository uses outside tests; vendored code.
\<close>

section \<open>Contract and client compute the same roots\<close>

text \<open>
  After any run of the pool's tree the root that the contract reports is the root of the client's
  prefix tree over the same leaves.
\<close>

lemma pool_root_of_client:
  assumes "host_permutation_ok P" and "zero_table_ok P" and "host_is_poseidon2 P"
    and "0 < levels" and "levels \<le> 32" and "2 * length ps \<le> 2 ^ levels" and "2 * length ps < 2 ^ 32"
    and "list_all (\<lambda>(a, b). a < bn256_modulus \<and> b < bn256_modulus) ps"
  shows "\<exists>s root. let_ok (mh_init levels empty_merkle_store) (mh_insert_pairs P ps) = Inr s \<and>
    mh_get_last_root s = Inr root \<and>
    let_ok (prefix_tree_new levels (map Field (pair_leaves ps))) prefix_root = Inr (Field root)"
proof -
  have "list_all (\<lambda>x. x < bn256_modulus) (pair_leaves ps)"
    using assms(8) by (induction ps) auto
  moreover have "length (pair_leaves ps) < 2 ^ 32" using assms(7) by simp
  ultimately have "let_ok (prefix_tree_new levels (map Field (pair_leaves ps))) prefix_root =
      Inr (Field (pool_root_of P levels (pair_leaves ps)))"
    using client_root_contract [OF assms(1,3)] assms(4,5) by simp
  moreover obtain s where "let_ok (mh_init levels empty_merkle_store) (mh_insert_pairs P ps) = Inr s"
    and "mh_get_last_root s = Inr (pool_root_of P levels (pair_leaves ps))"
    using mh_run_rel [OF assms(1,2,4,5,6,8)] mh_get_last_root_rel by blast
  ultimately show ?thesis by blast
qed

lemma asp_root_of_client:
  assumes "host_permutation_ok P" and "zero_table_ok P" and "host_is_poseidon2 P"
    and "am_reachable P d log s" and "list_all (\<lambda>e. la_leaf e < bn256_modulus) log" and "length log < 2 ^ 32"
  shows "\<exists>root. am_get_root s = Inr root \<and>
    let_ok (prefix_tree_new d (map (\<lambda>e. Field (la_leaf e)) log)) prefix_root = Inr (Field root)"
proof -
  note rel = am_reachable_rel [OF assms(1,2,4), THEN conjunct1]
  have d: "1 \<le> d" "d \<le> 32" using rel by (simp_all add: asp_tree_rel_def)
  have "list_all (\<lambda>x. x < bn256_modulus) (map la_leaf log)" using assms(5) by (simp add: list_all_iff)
  from client_root_contract [OF assms(1,3) this d] have
    "let_ok (prefix_tree_new d (map Field (map la_leaf log))) prefix_root =
      Inr (Field (merkle_root_of (compress_val P) (get_zeroes ! 0) d (map la_leaf log)))"
    using assms(6) by simp
  moreover have "am_get_root s = Inr (merkle_root_of (compress_val P) (get_zeroes ! 0) d (map la_leaf log))"
    using rel by (simp add: am_get_root_def asp_tree_rel_def)
  ultimately show ?thesis by (simp add: o_def)
qed

section \<open>Properties\<close>

text \<open>
  Client and pool contract agree on the public amount of a transaction. For every external amount
  of the client (a signed 128-bit number) the client's conversion to a field element succeeds, and the
  contract computes from the same amount, widened to 256 bits, exactly that element: the contract
  never refuses or traps on an amount that a client can form.
\<close>

lemma public_amount_agreement:
  "\<exists>f. field_try_from_ext e = Inr f \<and>
    calculate_public_amount (scast (ext_i128 e)) = Inr (field_u256 f)"
proof -
  have sint: "sint (scast (ext_i128 e) :: i256) = ext_value e"
    by (rule sint_up_scast) (simp add: is_up)
  have "- (2 ^ (LENGTH(128) - 1)) \<le> ext_value e" and "ext_value e < 2 ^ (LENGTH(128) - 1)"
    using sint_greater_eq [of "ext_i128 e"] sint_less [of "ext_i128 e"] by simp_all
  then have "\<bar>ext_value e\<bar> < 2 ^ 248" by (simp add: abs_less_iff)
  then have "calculate_public_amount (scast (ext_i128 e)) =
      Inr (word_of_int (ext_value e mod uint bn256_modulus))"
    by (simp add: calculate_public_amount_cases sint)
  then show ?thesis by (simp add: field_try_from_ext_eq)
qed

end
